(* ===== verification/Prelude.thy ===== *)
theory Prelude
  imports Main "HOL-Library.Word" "HOL-Library.Monad_Syntax"
begin

text \<open>
  Shared vocabulary of the development: the integer types of
  \<^verbatim>\<open>include/types.hpp\<close> as machine words, the option monad in which a
  missing result stands for a kernel fault, and the generic facts about words, dyadic
  blocks and lists that the component theories use.
\<close>

section \<open>Integer types\<close>

text \<open>
  The x64 build: \<^verbatim>\<open>usize\<close> and \<^verbatim>\<open>u64\<close> are 64 bits wide. A signed type has
  the same word and is read with \<^term>\<open>sint\<close>. Pointers are addresses, \<^verbatim>\<open>NULL\<close> is 0.
\<close>

type_synonym u8 = "8 word"
type_synonym u16 = "16 word"
type_synonym u32 = "32 word"
type_synonym u64 = "64 word"
type_synonym usize = "64 word"
type_synonym i8 = "8 word"
type_synonym i32 = "32 word"
type_synonym isize = "64 word"
type_synonym ptr = "64 word"

abbreviation NULL :: ptr where "NULL \<equiv> 0"

unbundle bit_operations_syntax

named_theorems unat_simps \<open>how \<^term>\<open>unat\<close> reads the word operations of the code\<close>

text \<open>Two early returns of one value.\<close>

lemma if_same_or: "(if P then x else if Q then x else y) = (if P \<or> Q then x else y)"
  by simp

section \<open>Words\<close>

lemma pow2_less_imp: "(2 :: nat) ^ k < 2 ^ n \<Longrightarrow> k < n"
  by (rule power_less_imp_less_exp [of 2]) simp_all

lemma unat_word_bound: "unat (w :: 64 word) < 2 ^ 64"
  using unsigned_less [of w, where ?'a = nat] by simp

lemma unat_add_noov [unat_simps]:
  "unat a + unat b < 2 ^ 64 \<Longrightarrow> unat (a + b :: usize) = unat a + unat b"
  by (simp add: unat_word_ariths)

lemma unat_sub_le [unat_simps]: "b \<le> a \<Longrightarrow> unat (a - b :: usize) = unat a - unat b"
  by (simp add: unat_sub)

lemma unat_of_nat_small [unat_simps]: "n < 2 ^ 64 \<Longrightarrow> unat (of_nat n :: usize) = n"
  by (simp add: unat_of_nat take_bit_nat_eq_self)

lemma unat_inj [simp]: "unat (a :: usize) = unat b \<longleftrightarrow> a = b"
  by (auto intro: unsigned_word_eqI)

lemma unat_drop_bit1 [unat_simps]: "unat (drop_bit 1 (w :: usize)) = unat w div 2"
  by (simp add: drop_bit_eq_div unat_div)

lemma word_eq_of_nat: "unat w = n \<Longrightarrow> (w :: usize) = of_nat n"
  by auto

lemma unat_exp64 [unat_simps]: "k < 64 \<Longrightarrow> unat (2 ^ k :: usize) = 2 ^ k"
  by (metis of_nat_numeral of_nat_power power_strict_increasing_iff one_less_numeral_iff
      semiring_norm(76) unat_of_nat_small)

lemma two_power_minus_one_mask: "(2 ^ k :: usize) - 1 = mask k"
  by (simp add: mask_eq_decr_exp)

text \<open>Clearing the low bits rounds down to a multiple of the power of two.\<close>

lemma unat_and_not_mask [unat_simps]:
  "unat (a AND NOT (mask k) :: usize) = (unat a div 2 ^ k) * 2 ^ k"
proof -
  have "a AND NOT (mask k) = push_bit k (drop_bit k a)"
    by (rule bit_word_eqI) (auto simp: bit_simps)
  also have "unat \<dots> = take_bit 64 (push_bit k (unat (drop_bit k a)))"
    by (simp add: unsigned_push_bit_eq)
  also have "unat (drop_bit k a) = unat a div 2 ^ k"
    unfolding unat_drop_bit_eq by (rule drop_bit_eq_div)
  also have "push_bit k (unat a div 2 ^ k) = unat a div 2 ^ k * 2 ^ k"
    by (simp add: push_bit_eq_mult)
  also have "take_bit 64 \<dots> = \<dots>"
  proof (rule take_bit_nat_eq_self)
    have "unat a div 2 ^ k * 2 ^ k \<le> unat a" by simp
    then show "unat a div 2 ^ k * 2 ^ k < 2 ^ 64"
      using unat_word_bound [of a] by linarith
  qed
  finally show ?thesis .
qed

text \<open>Flipping one bit adds or subtracts its weight, whatever the other bits are.\<close>

lemma nat_xor_exp: "(n :: nat) XOR 2 ^ k = (if bit n k then n - 2 ^ k else n + 2 ^ k)"
proof -
  have "n XOR 2 ^ k = flip_bit k n"
    by (simp add: flip_bit_eq_xor push_bit_eq_mult)
  also have "\<dots> = (if bit n k then n - 2 ^ k else n + 2 ^ k)"
  proof (cases "bit n k")
    case True
    have "int (unset_bit k n) = unset_bit k (int n)" by (simp add: of_nat_unset_bit_eq)
    also have "\<dots> = int n - 2 ^ k" using True by (simp add: unset_bit_eq bit_of_nat_iff)
    also have "\<dots> = int (n - 2 ^ k)"
    proof -
      have "n div 2 ^ k \<noteq> 0" using True by (auto simp: bit_iff_odd intro: ccontr)
      then have "2 ^ k \<le> n" by (meson div_less not_le)
      then show ?thesis by (simp add: of_nat_diff)
    qed
    finally have "unset_bit k n = n - 2 ^ k" by (simp only: of_nat_eq_iff)
    with True show ?thesis by (simp add: flip_bit_eq_if)
  next
    case False
    then show ?thesis by (simp add: flip_bit_eq_if set_bit_eq)
  qed
  finally show ?thesis .
qed

lemma unat_xor_bit:
  assumes "k < 64"
  shows "unat (a XOR 2 ^ k :: usize) =
    (if odd (unat a div 2 ^ k) then unat a - 2 ^ k else unat a + 2 ^ k)"
  using assms by (simp add: unsigned_xor_eq unat_exp64 nat_xor_exp bit_iff_odd)

end
