(* ===== verification/Bits.thy ===== *)
theory Bits
  imports Prelude "HOL-Library.Signed_Division"
begin

text \<open>
  The arithmetic helpers of \<^verbatim>\<open>src/util/misc.cpp\<close>, \<^verbatim>\<open>src/util/math.cpp\<close> and
  \<^verbatim>\<open>src/arch/x64/util/math.asm\<close>: alignment, bit fields, powers, logarithms,
  wrapping and the sign functions. A C++ \<^verbatim>\<open>int\<close> shift count is masked to five
  bits, as the \<^verbatim>\<open>sal r32, cl\<close> instruction of the x64 build does; the properties
  that rely on a shift stay inside the range C++ defines.
\<close>

section \<open>Definitions\<close>

subsection \<open>misc.cpp\<close>

definition align_up :: "usize \<Rightarrow> usize \<Rightarrow> usize" where
  "align_up addr align = (addr + align - 1) AND NOT (align - 1)"

definition align_down :: "usize \<Rightarrow> usize \<Rightarrow> usize" where
  "align_down addr align = addr AND NOT (align - 1)"

definition align_of :: "usize \<Rightarrow> usize" where
  "align_of addr = (if addr \<noteq> 0 then drop_bit 1 ((addr XOR (addr - 1)) + 1) else 0)"

definition get_bits :: "u64 \<Rightarrow> u8 \<Rightarrow> u8 \<Rightarrow> u64" where
  "get_bits n l h =
     (let temp = (if h = 63 then 0xffffffffffffffff else push_bit (unat h + 1) 1 - 1)
      in drop_bit (unat l) (temp AND n))"

definition get_bits_raw :: "u64 \<Rightarrow> u8 \<Rightarrow> u8 \<Rightarrow> u64" where
  "get_bits_raw n l h =
     (let temp = (if h = 63 then 0xffffffffffffffff else push_bit (unat h + 1) 1 - 1)
      in push_bit (unat l) (drop_bit (unat l) (temp AND n)))"

definition MAX_SUPPORTED_MEM :: usize where "MAX_SUPPORTED_MEM = push_bit 39 1"

definition canonical_addr :: "usize \<Rightarrow> usize" where
  "canonical_addr addr =
     (if addr > drop_bit 1 MAX_SUPPORTED_MEM - 1 then addr OR NOT MAX_SUPPORTED_MEM else addr)"

subsection \<open>math.cpp and math.asm\<close>

text \<open>\<^verbatim>\<open>out *= a\<close> on 64-bit words; \<^verbatim>\<open>for (i = 0; i < b; i ++)\<close> runs \<open>b\<close> times.\<close>

fun pow_loop :: "usize \<Rightarrow> nat \<Rightarrow> usize \<Rightarrow> usize" where
  "pow_loop a 0 out = out"
| "pow_loop a (Suc i) out = pow_loop a i (out * a)"

definition powi_isize :: "isize \<Rightarrow> usize \<Rightarrow> isize" where
  "powi_isize a b = pow_loop a (unat b) 1"

definition powu_usize :: "usize \<Rightarrow> usize \<Rightarrow> usize" where
  "powu_usize a b = pow_loop a (unat b) 1"

text \<open>The index of the highest set bit, which \<^verbatim>\<open>bsr\<close> leaves in its destination.\<close>

fun bsr :: "nat \<Rightarrow> nat" where
  "bsr n = (if n \<le> 1 then 0 else Suc (bsr (n div 2)))"

declare bsr.simps [simp del]

text \<open>\<^verbatim>\<open>log2\<close> sets \<^verbatim>\<open>rax\<close> to all ones for 0; its \<^verbatim>\<open>u8\<close> result is the low byte.\<close>

definition log2 :: "u64 \<Rightarrow> u8" where
  "log2 x = (if x = 0 then 0xff else of_nat (bsr (unat x)))"

text \<open>\<^verbatim>\<open>1 << n\<close> on \<^verbatim>\<open>int\<close>, converted to \<^verbatim>\<open>usize\<close>.\<close>

definition int_shl1 :: "nat \<Rightarrow> usize" where
  "int_shl1 n = scast (push_bit (n mod 32) 1 :: i32)"

definition log2_up :: "u64 \<Rightarrow> u8" where
  "log2_up x = log2 (align_up x (int_shl1 (unat (log2 x))))"

text \<open>C++ \<^verbatim>\<open>int\<close> values are read as integers; \<^verbatim>\<open>%\<close> truncates towards zero.\<close>

definition wrap :: "int \<Rightarrow> int \<Rightarrow> int \<Rightarrow> int" where
  "wrap x lower upper =
     (if x < lower \<or> x > upper then (x smod (upper - lower + 1)) + lower else x)"

definition clamp :: "int \<Rightarrow> int \<Rightarrow> int \<Rightarrow> int" where
  "clamp x lower upper = (if x < lower then lower else if x > upper then upper else x)"

text \<open>
  \<^verbatim>\<open>abs\<close>: \<open>temp\<close> is the arithmetic shift of the sign, all ones for a negative
  argument, and the code adds it.
\<close>

definition abs_i32 :: "i32 \<Rightarrow> i32" where
  "abs_i32 x = (let temp = signed_drop_bit 31 x; x' = x XOR temp in x' + temp)"

definition sign_i32 :: "i32 \<Rightarrow> i8" where
  "sign_i32 x = (if x = 0 then 0 else if sint x > 0 then 1 else -1)"

section \<open>Alignment\<close>

lemma align_down_exp: "align_down a (2 ^ k) = a AND NOT (mask k)"
  by (simp add: align_down_def two_power_minus_one_mask)

lemma unat_align_down [unat_simps]:
  "unat (align_down a (2 ^ k)) = (unat a div 2 ^ k) * 2 ^ k"
  by (simp add: align_down_exp unat_and_not_mask)

lemma unat_align_up [unat_simps]:
  assumes "k < 64" and "unat a + (2 ^ k - 1) < 2 ^ 64"
  shows "unat (align_up a (2 ^ k)) = ((unat a + (2 ^ k - 1)) div 2 ^ k) * 2 ^ k"
proof -
  have one: "unat ((2 ^ k :: usize) - 1) = 2 ^ k - 1"
    using assms(1) by (simp add: unat_sub_le unat_exp64 word_le_nat_alt)
  have "unat (a + (2 ^ k - 1)) = unat a + (2 ^ k - 1)"
    using assms(2) by (simp add: unat_add_noov one)
  moreover have "a + 2 ^ k - 1 = a + (2 ^ k - 1)" by simp
  ultimately show ?thesis
    by (simp only: align_up_def two_power_minus_one_mask [symmetric] unat_and_not_mask
        flip: two_power_minus_one_mask)
       (metis two_power_minus_one_mask unat_and_not_mask)
qed

lemma align_down_le: "unat (align_down a (2 ^ k)) \<le> unat a"
  by (simp add: unat_align_down)

lemma align_down_id: "2 ^ k dvd unat a \<Longrightarrow> align_down a (2 ^ k) = a"
  by (metis dvd_div_mult_self unat_align_down word_unat_eq_iff)

text \<open>A multiple of the granule below or above a bound.\<close>

lemma multiple_le_div:
  fixes m n d :: nat
  assumes "d dvd m" and "m \<le> n" and "0 < d"
  shows "m \<le> n div d * d"
  using assms by (metis div_le_mono dvd_div_mult_self mult_le_mono1)

lemma multiple_ge_div:
  fixes m n d :: nat
  assumes "d dvd m" and "n \<le> m" and "0 < d"
  shows "(n + (d - 1)) div d * d \<le> m"
proof -
  obtain q where q: "m = q * d" using assms(1) by (metis dvd_def mult.commute)
  have "n + (d - 1) < (q + 1) * d" using assms q by (simp add: algebra_simps)
  then have "(n + (d - 1)) div d < q + 1" by (rule less_mult_imp_div_less)
  then have "(n + (d - 1)) div d \<le> q" by linarith
  then show ?thesis unfolding q by (rule mult_le_mono1)
qed

lemma div_ge_bound: "0 < (d :: nat) \<Longrightarrow> n \<le> (n + (d - 1)) div d * d"
proof -
  assume d: "0 < d"
  have "n + (d - 1) = (n + (d - 1)) div d * d + (n + (d - 1)) mod d"
    by (rule div_mult_mod_eq [symmetric])
  moreover have "(n + (d - 1)) mod d < d" using d by (rule mod_less_divisor)
  ultimately show ?thesis using d by linarith
qed

section \<open>The lowest set bit\<close>

lemma nat_xor_pred:
  "0 < n \<Longrightarrow> \<exists>k. n XOR (n - 1) = 2 ^ Suc k - 1 \<and> 2 ^ k dvd n \<and> odd (n div 2 ^ k)" for n :: nat
proof (induction n rule: less_induct)
  case (less n)
  show ?case
  proof (cases "odd n")
    case True
    then have "even (n - 1)" "n div 2 = (n - 1) div 2" by (auto elim: oddE)
    then have "n XOR (n - 1) = 1" using True
      by (subst xor_rec) simp
    with True show ?thesis by (intro exI [of _ 0]) simp
  next
    case False
    then obtain m where n: "n = 2 * m" by (auto elim: evenE)
    with less.prems have m: "0 < m" "m < n" by auto
    from less.IH [OF m(2,1)] obtain k where
      k: "m XOR (m - 1) = 2 ^ Suc k - 1" "2 ^ k dvd m" "odd (m div 2 ^ k)" by blast
    have "n - 1 = 2 * (m - 1) + 1" using n m by simp
    then have "n XOR (n - 1) = 1 + 2 * (m XOR (m - 1))"
      using n m by (subst xor_rec) simp
    also have "\<dots> = 2 ^ Suc (Suc k) - 1"
    proof -
      have "1 \<le> (2 :: nat) ^ Suc k" by simp
      moreover have "(2 :: nat) ^ Suc (Suc k) = 2 * 2 ^ Suc k" by simp
      ultimately show ?thesis unfolding k(1) by linarith
    qed
    finally show ?thesis using k n by (intro exI [of _ "Suc k"]) simp
  qed
qed

lemma align_of_exp:
  assumes "a \<noteq> 0" and "a \<noteq> 2 ^ 63"
  shows "\<exists>k < 63. align_of a = 2 ^ k \<and> 2 ^ k dvd unat a \<and> odd (unat a div 2 ^ k)"
proof -
  have pos: "0 < unat a" using assms(1) by (simp add: unat_gt_0)
  from nat_xor_pred [OF this] obtain k where
    k: "unat a XOR (unat a - 1) = 2 ^ Suc k - 1" "2 ^ k dvd unat a" "odd (unat a div 2 ^ k)"
    by blast
  have sub: "unat (a - 1) = unat a - 1"
    using pos by (simp add: unat_sub_le word_le_nat_alt)
  have x: "unat (a XOR (a - 1)) = 2 ^ Suc k - 1"
    by (simp only: unsigned_xor_eq sub k(1))
  have "2 ^ k \<le> unat a" using k(2) pos by (rule dvd_imp_le)
  then have "(2 :: nat) ^ k < 2 ^ 64" using unat_word_bound [of a] by linarith
  then have k64: "k < 64" by (rule pow2_less_imp)
  have k63: "k < 63"
  proof (rule ccontr)
    assume "\<not> k < 63"
    with k64 have "k = 63" by simp
    with k(2) obtain q where q: "unat a = 2 ^ 63 * q" by (auto elim: dvdE)
    with pos unat_word_bound [of a] have "q = 1" by (cases q) auto
    with q have "a = 2 ^ 63" by (simp add: word_unat_eq_iff unat_exp64)
    with assms(2) show False by simp
  qed
  have "unat ((a XOR (a - 1)) + 1) = 2 ^ Suc k"
  proof -
    have "(2 :: nat) ^ Suc k < 2 ^ 64" using k63 by (intro power_strict_increasing) auto
    then show ?thesis using x by (subst unat_add_noov) (auto simp: x)
  qed
  then have "(a XOR (a - 1)) + 1 = 2 ^ Suc k"
    using k63 by (simp add: word_unat_eq_iff unat_exp64 del: power_Suc)
  moreover have "drop_bit 1 (2 ^ Suc k :: usize) = 2 ^ k"
  proof (rule word_unat_eq_iff [THEN iffD2])
    show "unat (drop_bit 1 (2 ^ Suc k :: usize)) = unat (2 ^ k :: usize)"
      unfolding unat_drop_bit_eq using k63 by (simp add: drop_bit_eq_div unat_exp64 del: power_Suc) simp
  qed
  ultimately have "align_of a = 2 ^ k" using assms(1) by (simp add: align_of_def)
  with k k63 show ?thesis by blast
qed

section \<open>Logarithms\<close>

lemma bsr_bounds: "0 < n \<Longrightarrow> 2 ^ bsr n \<le> n \<and> n < 2 ^ Suc (bsr n)"
proof (induction n rule: bsr.induct)
  case (1 n)
  show ?case
  proof (cases "n \<le> 1")
    case True
    with 1 show ?thesis by (simp add: bsr.simps)
  next
    case False
    then have "2 ^ bsr (n div 2) \<le> n div 2 \<and> n div 2 < 2 ^ Suc (bsr (n div 2))"
      using 1 by simp
    with False show ?thesis by (subst (1 2) bsr.simps) auto
  qed
qed

lemma bsr_unique: "2 ^ k \<le> n \<Longrightarrow> n < 2 ^ Suc k \<Longrightarrow> bsr n = k"
proof -
  assume a: "2 ^ k \<le> n" "n < 2 ^ Suc k"
  then have "0 < n" by (metis gr_zeroI not_le zero_less_numeral zero_less_power)
  from bsr_bounds [OF this] a have "2 ^ k < (2 :: nat) ^ Suc (bsr n)" "2 ^ bsr n < (2 :: nat) ^ Suc k"
    by linarith+
  then show ?thesis by (simp add: power_strict_increasing_iff del: power_Suc)
qed

lemma bsr_less_64: "0 < unat x \<Longrightarrow> bsr (unat (x :: u64)) < 64"
proof -
  assume "0 < unat x"
  from bsr_bounds [OF this] have "(2 :: nat) ^ bsr (unat x) < 2 ^ 64"
    using unat_word_bound [of x] by linarith
  then show ?thesis by (rule pow2_less_imp)
qed

lemma unat_log2: "x \<noteq> 0 \<Longrightarrow> unat (log2 x) = bsr (unat x)"
proof -
  assume x: "x \<noteq> 0"
  then have "bsr (unat x) < 64" by (intro bsr_less_64) (simp add: unat_gt_0)
  then show ?thesis using x
    by (simp add: log2_def unat_of_nat take_bit_nat_eq_self)
qed

lemma log2_exp: "k < 64 \<Longrightarrow> unat (log2 (2 ^ k)) = k"
proof -
  assume k: "k < 64"
  then have "(2 ^ k :: u64) \<noteq> 0" by (simp add: word_unat_eq_iff unat_exp64)
  then show ?thesis using k
    by (simp add: unat_log2 unat_exp64 bsr_unique)
qed

lemma int_shl1_small: "n < 31 \<Longrightarrow> int_shl1 n = 2 ^ n"
proof -
  assume n: "n < 31"
  have "bit (int_shl1 n) i = bit (2 ^ n :: usize) i" if "i < 64" for i
    using n that by (auto simp: int_shl1_def bit_simps min_def)
  then show ?thesis by (auto intro: bit_word_eqI)
qed

lemma unat_log2_up:
  assumes "0 < unat x" and "unat x < 2 ^ 31"
  shows "unat x \<le> 2 ^ unat (log2_up x)"
    and "0 < unat (log2_up x) \<Longrightarrow> 2 ^ (unat (log2_up x) - 1) < unat x"
    and "unat (log2_up x) \<le> 31"
proof -
  let ?j = "bsr (unat x)"
  have x0: "x \<noteq> 0" using assms(1) by (simp add: unat_gt_0)
  from bsr_bounds [OF assms(1)] have j: "2 ^ ?j \<le> unat x" "unat x < 2 ^ Suc ?j" by auto
  from j(1) assms(2) have "(2 :: nat) ^ ?j < 2 ^ 31" by linarith
  then have j31: "?j < 31" by (rule pow2_less_imp)
  let ?a = "align_up x (2 ^ ?j)"
  have e: "log2_up x = log2 ?a"
    using x0 j31 by (simp add: log2_up_def unat_log2 int_shl1_small)
  have p: "(2 :: nat) ^ ?j < 2 ^ 31" by fact
  have a: "unat ?a = (unat x + (2 ^ ?j - 1)) div 2 ^ ?j * 2 ^ ?j"
  proof (rule unat_align_up)
    show "?j < 64" using j31 by simp
    show "unat x + (2 ^ ?j - 1) < 2 ^ 64" using assms(2) p by simp
  qed
  have res: "unat (log2_up x) = (if unat x = 2 ^ ?j then ?j else Suc ?j)"
  proof (cases "unat x = 2 ^ ?j")
    case True
    have "(2 ^ ?j + (2 ^ ?j - 1)) div 2 ^ ?j = (1 :: nat)"
      by (rule div_nat_eqI) auto
    with a True have "unat ?a = 2 ^ ?j" by simp
    then have "?a = 2 ^ ?j" using j31 by (simp add: word_unat_eq_iff unat_exp64)
    with e True j31 show ?thesis by (simp add: log2_exp)
  next
    case False
    have "(unat x + (2 ^ ?j - 1)) div 2 ^ ?j = (2 :: nat)"
      using j False by (intro div_nat_eqI) auto
    with a have "unat ?a = 2 ^ Suc ?j" by simp
    then have "?a = 2 ^ Suc ?j" using j31 by (simp add: word_unat_eq_iff unat_exp64 del: power_Suc)
    with e False j31 show ?thesis by (simp add: log2_exp del: power_Suc)
  qed
  show "unat x \<le> 2 ^ unat (log2_up x)" using res j by auto
  show "2 ^ (unat (log2_up x) - 1) < unat x" if "0 < unat (log2_up x)"
  proof (cases "unat x = 2 ^ ?j")
    case True
    then have c: "unat (log2_up x) = ?j" using res by simp
    then have "(2 :: nat) ^ (unat (log2_up x) - 1) < 2 ^ ?j"
      using that by (intro power_strict_increasing) simp_all
    with j(1) show ?thesis by linarith
  next
    case False
    with res j show ?thesis by simp
  qed
  show "unat (log2_up x) \<le> 31" using res j31 by auto
qed

end
