(* ===== verification/List_Family.thy ===== *)
theory List_Family
  imports Prelude
begin

text \<open>
  The contract between the intrusive list and its clients. A client (the physical
  allocator with its array of free lists, the scheduler with its array of thread lists)
  keeps several lists whose nodes live in one heap. The locale states what one list
  promises; the lemmas, proved once inside it, lift that promise to an array of lists
  with disjoint contents.
\<close>

definition agree_off :: "ptr set \<Rightarrow> (ptr \<Rightarrow> 'n) \<Rightarrow> (ptr \<Rightarrow> 'n) \<Rightarrow> bool" where
  "agree_off S h h' \<longleftrightarrow> (\<forall>y. y \<notin> S \<longrightarrow> h' y = h y)"

text \<open>The array \<open>ls\<close> holds the lists \<open>xss 0, \<dots>, xss (n - 1)\<close>, which share no node.\<close>

definition family ::
  "((ptr \<Rightarrow> 'n) \<Rightarrow> 'l \<Rightarrow> ptr list \<Rightarrow> bool) \<Rightarrow> (ptr \<Rightarrow> 'n) \<Rightarrow> (nat \<Rightarrow> 'l) \<Rightarrow> (nat \<Rightarrow> ptr list) \<Rightarrow> nat \<Rightarrow> bool"
where
  "family rep h ls xss n \<longleftrightarrow> (\<forall>i < n. rep h (ls i) (xss i)) \<and>
     (\<forall>i < n. \<forall>j < n. i \<noteq> j \<longrightarrow> set (xss i) \<inter> set (xss j) = {})"

definition members :: "(nat \<Rightarrow> ptr list) \<Rightarrow> nat \<Rightarrow> ptr set" where
  "members xss n = (\<Union>i < n. set (xss i))"

lemma familyD: "family rep h ls xss n \<Longrightarrow> i < n \<Longrightarrow> rep h (ls i) (xss i)"
  by (simp add: family_def)

lemma family_disjoint:
  "family rep h ls xss n \<Longrightarrow> i < n \<Longrightarrow> j < n \<Longrightarrow> x \<in> set (xss i) \<Longrightarrow> x \<in> set (xss j) \<Longrightarrow> i = j"
  unfolding family_def by blast

lemma membersI: "i < n \<Longrightarrow> x \<in> set (xss i) \<Longrightarrow> x \<in> members xss n"
  by (auto simp: members_def)

lemma members_upd:
  "i < n \<Longrightarrow> members (xss(i := ys)) n = set ys \<union> (\<Union>j \<in> {..< n} - {i}. set (xss j))"
  by (auto simp: members_def split: if_splits)

locale shared_lists =
  fixes rep :: "(ptr \<Rightarrow> 'n) \<Rightarrow> 'l \<Rightarrow> ptr list \<Rightarrow> bool"
    and len :: "'l \<Rightarrow> usize"
    and app :: "(ptr \<Rightarrow> 'n) \<Rightarrow> 'l \<Rightarrow> ptr \<Rightarrow> ((ptr \<Rightarrow> 'n) \<times> 'l) option"
    and popf :: "(ptr \<Rightarrow> 'n) \<Rightarrow> 'l \<Rightarrow> (ptr \<times> 'l) option"
    and popb :: "(ptr \<Rightarrow> 'n) \<Rightarrow> 'l \<Rightarrow> (ptr \<times> 'l) option"
    and remp :: "(ptr \<Rightarrow> 'n) \<Rightarrow> 'l \<Rightarrow> ptr \<Rightarrow> ((ptr \<Rightarrow> 'n) \<times> 'l) option"
  assumes rep_distinct: "rep h l xs \<Longrightarrow> distinct xs"
    and rep_not_null: "rep h l xs \<Longrightarrow> NULL \<notin> set xs"
    and rep_cong: "rep h l xs \<Longrightarrow> (\<And>x. x \<in> set xs \<Longrightarrow> h' x = h x) \<Longrightarrow> rep h' l xs"
    and rep_len: "rep h l xs \<Longrightarrow> unat (len l) = length xs"
    and app_law: "rep h l xs \<Longrightarrow> x \<notin> set xs \<Longrightarrow> x \<noteq> NULL \<Longrightarrow>
      \<exists>h' l'. app h l x = Some (h', l') \<and> rep h' l' (xs @ [x]) \<and> agree_off (insert x (set xs)) h h'"
    and popf_nil: "rep h l [] \<Longrightarrow> popf h l = Some (NULL, l)"
    and popf_law: "rep h l xs \<Longrightarrow> xs \<noteq> [] \<Longrightarrow> \<exists>l'. popf h l = Some (hd xs, l') \<and> rep h l' (tl xs)"
    and popb_nil: "rep h l [] \<Longrightarrow> popb h l = Some (NULL, l)"
    and popb_law: "rep h l xs \<Longrightarrow> xs \<noteq> [] \<Longrightarrow> \<exists>l'. popb h l = Some (last xs, l') \<and> rep h l' (butlast xs)"
    and remp_law: "rep h l xs \<Longrightarrow> x \<in> set xs \<Longrightarrow>
      \<exists>h' l'. remp h l x = Some (h', l') \<and> rep h' l' (remove1 x xs) \<and> agree_off (set xs) h h'"
begin

lemma family_cong:
  assumes "family rep h ls xss n" and "\<And>i x. i < n \<Longrightarrow> x \<in> set (xss i) \<Longrightarrow> h' x = h x"
  shows "family rep h' ls xss n"
  using assms rep_cong unfolding family_def by metis

lemma family_len_0: "family rep h ls xss n \<Longrightarrow> i < n \<Longrightarrow> len (ls i) = 0 \<longleftrightarrow> xss i = []"
proof -
  assume "family rep h ls xss n" "i < n"
  then have "rep h (ls i) (xss i)" by (rule familyD)
  then have "unat (len (ls i)) = length (xss i)" by (rule rep_len)
  then show ?thesis by (metis length_0_conv unat_eq_zero)
qed

lemma family_not_null: "family rep h ls xss n \<Longrightarrow> i < n \<Longrightarrow> x \<in> set (xss i) \<Longrightarrow> x \<noteq> NULL"
  using rep_not_null familyD by metis

text \<open>Replacing one list of the array, when the heap changes at that list's old and new nodes only.\<close>

lemma family_upd:
  assumes f: "family rep h ls xss n" and i: "i < n" and r: "rep h' l' ys"
    and a: "agree_off S h h'" and S: "S \<subseteq> set (xss i) \<union> set ys"
    and new: "\<And>y j. j < n \<Longrightarrow> j \<noteq> i \<Longrightarrow> y \<in> set ys \<Longrightarrow> y \<notin> set (xss j)"
  shows "family rep h' (ls(i := l')) (xss(i := ys)) n"
proof -
  have "rep h' (ls j) (xss j)" if "j < n" "j \<noteq> i" for j
  proof (rule rep_cong)
    show "rep h (ls j) (xss j)" using f that(1) by (rule familyD)
    fix x assume "x \<in> set (xss j)"
    then have "x \<notin> S"
      using S new [OF that] family_disjoint [OF f that(1) i] that(2) by auto
    then show "h' x = h x" using a by (simp add: agree_off_def)
  qed
  then have 1: "rep h' ((ls(i := l')) j) ((xss(i := ys)) j)" if "j < n" for j
    using r that by (cases "j = i") simp_all
  have 2: "set ((xss(i := ys)) j) \<inter> set ((xss(i := ys)) k) = {}"
    if jk: "j < n" "k < n" "j \<noteq> k" for j k
  proof -
    consider "j = i" | "k = i" | "j \<noteq> i" "k \<noteq> i" by blast
    then show ?thesis
    proof cases
      case 1
      then show ?thesis using new [of k] jk by auto
    next
      case 2
      then show ?thesis using new [of j] jk by auto
    next
      case 3
      then show ?thesis using f jk by (simp add: family_def)
    qed
  qed
  show ?thesis unfolding family_def using 1 2 by blast
qed

lemma family_app:
  assumes f: "family rep h ls xss n" and i: "i < n" and x: "x \<notin> members xss n" "x \<noteq> NULL"
  shows "\<exists>h' l'. app h (ls i) x = Some (h', l') \<and>
    family rep h' (ls(i := l')) (xss(i := xss i @ [x])) n \<and> agree_off (insert x (set (xss i))) h h'"
proof -
  have "x \<notin> set (xss i)" using x i by (auto simp: members_def)
  from app_law [OF familyD [OF f i] this x(2)] obtain h' l' where
    a: "app h (ls i) x = Some (h', l')" "rep h' l' (xss i @ [x])" "agree_off (insert x (set (xss i))) h h'"
    by blast
  have "family rep h' (ls(i := l')) (xss(i := xss i @ [x])) n"
    using f i a(2,3)
  proof (rule family_upd)
    show "insert x (set (xss i)) \<subseteq> set (xss i) \<union> set (xss i @ [x])" by auto
    show "y \<notin> set (xss j)" if "j < n" "j \<noteq> i" "y \<in> set (xss i @ [x])" for y j
      using x(1) that family_disjoint [OF f that(1) i] by (auto simp: members_def)
  qed
  with a show ?thesis by blast
qed

lemma family_shrink:
  assumes f: "family rep h ls xss n" and i: "i < n" and r: "rep h' l' ys"
    and a: "agree_off (set (xss i)) h h'" and ys: "set ys \<subseteq> set (xss i)"
  shows "family rep h' (ls(i := l')) (xss(i := ys)) n"
  using f i r a
proof (rule family_upd)
  show "set (xss i) \<subseteq> set (xss i) \<union> set ys" by simp
  show "y \<notin> set (xss j)" if "j < n" "j \<noteq> i" "y \<in> set ys" for y j
    using family_disjoint [OF f that(1) i] that ys by auto
qed

lemma family_popf:
  assumes f: "family rep h ls xss n" and i: "i < n" and ne: "xss i \<noteq> []"
  shows "\<exists>l'. popf h (ls i) = Some (hd (xss i), l') \<and>
    family rep h (ls(i := l')) (xss(i := tl (xss i))) n"
proof -
  from popf_law [OF familyD [OF f i] ne] obtain l' where
    l': "popf h (ls i) = Some (hd (xss i), l')" "rep h l' (tl (xss i))" by blast
  have "family rep h (ls(i := l')) (xss(i := tl (xss i))) n"
    using f i l'(2) by (rule family_shrink) (auto simp: agree_off_def dest: list.set_sel(2) [OF ne])
  with l' show ?thesis by blast
qed

lemma family_popb:
  assumes f: "family rep h ls xss n" and i: "i < n" and ne: "xss i \<noteq> []"
  shows "\<exists>l'. popb h (ls i) = Some (last (xss i), l') \<and>
    family rep h (ls(i := l')) (xss(i := butlast (xss i))) n"
proof -
  from popb_law [OF familyD [OF f i] ne] obtain l' where
    l': "popb h (ls i) = Some (last (xss i), l')" "rep h l' (butlast (xss i))" by blast
  have "family rep h (ls(i := l')) (xss(i := butlast (xss i))) n"
    using f i l'(2) by (rule family_shrink) (auto simp: agree_off_def dest: in_set_butlastD)
  with l' show ?thesis by blast
qed

lemma family_remp:
  assumes f: "family rep h ls xss n" and i: "i < n" and x: "x \<in> set (xss i)"
  shows "\<exists>h' l'. remp h (ls i) x = Some (h', l') \<and>
    family rep h' (ls(i := l')) (xss(i := remove1 x (xss i))) n \<and> agree_off (set (xss i)) h h'"
proof -
  from remp_law [OF familyD [OF f i] x] obtain h' l' where
    l': "remp h (ls i) x = Some (h', l')" "rep h' l' (remove1 x (xss i))" "agree_off (set (xss i)) h h'"
    by blast
  have "family rep h' (ls(i := l')) (xss(i := remove1 x (xss i))) n"
    using f i l'(2,3) by (rule family_shrink) (rule set_remove1_subset)
  with l' show ?thesis by blast
qed

end

end
