(* ===== verification/Linked_List.thy ===== *)
theory Linked_List
  imports Bits List_Family
begin

text \<open>
  The intrusive doubly linked list of \<^verbatim>\<open>src/util/linked_list.cpp\<close>. A node is an address;
  the \<^verbatim>\<open>prev\<close> and \<^verbatim>\<open>next\<close> fields of all nodes form one heap, which every list of the
  kernel shares. Dereferencing \<^verbatim>\<open>NULL\<close> and a failed \<^verbatim>\<open>assert\<close> (the default build defines
  \<^verbatim>\<open>debug\<close>) give \<^term>\<open>None\<close>. The list caches the node it last indexed in
  \<^verbatim>\<open>current\<close> and \<^verbatim>\<open>current_i\<close>; the shape and the cache are two invariants here,
  because several operations keep only the first.
\<close>

section \<open>Data\<close>

record list_node =
  n_prev :: ptr
  n_next :: ptr

type_synonym nodes = "ptr \<Rightarrow> list_node"

record linked_list =
  l_len :: usize
  l_start :: ptr
  l_end :: ptr
  l_current :: ptr
  l_current_i :: usize

definition new_list :: linked_list where
  "new_list = \<lparr>l_len = 0, l_start = NULL, l_end = NULL, l_current = NULL, l_current_i = 0\<rparr>"

definition get_next :: "nodes \<Rightarrow> ptr \<Rightarrow> ptr option" where
  "get_next h p = (if p = NULL then None else Some (n_next (h p)))"

definition get_prev :: "nodes \<Rightarrow> ptr \<Rightarrow> ptr option" where
  "get_prev h p = (if p = NULL then None else Some (n_prev (h p)))"

definition set_next :: "ptr \<Rightarrow> ptr \<Rightarrow> nodes \<Rightarrow> nodes option" where
  "set_next p v h = (if p = NULL then None else Some (h(p := (h p)\<lparr>n_next := v\<rparr>)))"

definition set_prev :: "ptr \<Rightarrow> ptr \<Rightarrow> nodes \<Rightarrow> nodes option" where
  "set_prev p v h = (if p = NULL then None else Some (h(p := (h p)\<lparr>n_prev := v\<rparr>)))"

section \<open>Operations\<close>

definition list_prepend :: "nodes \<Rightarrow> linked_list \<Rightarrow> ptr \<Rightarrow> (nodes \<times> linked_list) option" where
  "list_prepend h l zone =
     (let l = l\<lparr>l_len := l_len l + 1, l_current_i := l_current_i l + 1\<rparr>
      in if l_len l = 1 then Some (h, l\<lparr>l_start := zone, l_end := zone\<rparr>)
         else do {
           h \<leftarrow> set_prev (l_start l) zone h;
           h \<leftarrow> set_next zone (l_start l) h;
           Some (h, l\<lparr>l_start := zone\<rparr>)
         })"

definition list_append :: "nodes \<Rightarrow> linked_list \<Rightarrow> ptr \<Rightarrow> (nodes \<times> linked_list) option" where
  "list_append h l zone =
     (let l = l\<lparr>l_len := l_len l + 1\<rparr>
      in if l_len l = 1 then Some (h, l\<lparr>l_start := zone, l_end := zone\<rparr>)
         else do {
           h \<leftarrow> set_next (l_end l) zone h;
           h \<leftarrow> set_prev zone (l_end l) h;
           Some (h, l\<lparr>l_end := zone\<rparr>)
         })"

text \<open>
  The loop of \<^verbatim>\<open>operator[]\<close>: \<^verbatim>\<open>i += dir\<close> adds the sign-extended direction. It may run
  for ever from a wrong cache, so it is a partial function.
\<close>

partial_function (option) walk :: "nodes \<Rightarrow> usize \<Rightarrow> i8 \<Rightarrow> usize \<Rightarrow> ptr \<Rightarrow> ptr option" where
  "walk h index dir i zone =
     (if i = index then Some zone
      else do {
        zone \<leftarrow> (if dir = 1 then get_next h zone else get_prev h zone);
        if zone = NULL then None else walk h index dir (i + scast dir) zone
      })"

definition list_at :: "nodes \<Rightarrow> linked_list \<Rightarrow> usize \<Rightarrow> (ptr \<times> linked_list) option" where
  "list_at h l index =
     (if index \<ge> l_len l then Some (NULL, l)
      else
        let l = (if l_current l = NULL then l\<lparr>l_current := l_start l, l_current_i := 0\<rparr> else l);
            diff_start = index;
            diff_end = l_len l - index - 1;
            diff_middle = index - l_current_i l;
            (zone, i, dir) =
              (if sint diff_middle < 0 \<and> sint diff_start < sint (abs_i32 (ucast diff_middle))
               then (l_start l, 0, 1)
               else if sint diff_end < sint diff_middle
               then (l_end l, l_len l - 1, -1)
               else (l_current l, l_current_i l, sign_i32 (ucast diff_middle)))
        in do {
          zone \<leftarrow> walk h index dir i zone;
          Some (zone, l\<lparr>l_current := zone, l_current_i := index\<rparr>)
        })"

definition list_insert ::
  "nodes \<Rightarrow> linked_list \<Rightarrow> usize \<Rightarrow> ptr \<Rightarrow> (bool \<times> nodes \<times> linked_list) option" where
  "list_insert h l index zone =
     (if index > l_len l then Some (False, h, l)
      else if index = l_len l then map_option (Pair True) (list_append h l zone)
      else if index = 0 then map_option (Pair True) (list_prepend h l zone)
      else
        let l = (if index \<le> l_current_i l then l\<lparr>l_current_i := l_current_i l + 1\<rparr> else l);
            l = l\<lparr>l_len := l_len l + 1\<rparr>
        in do {
          (temp, l) \<leftarrow> list_at h l index;
          p \<leftarrow> get_prev h temp;
          h \<leftarrow> set_next p zone h;
          p \<leftarrow> get_prev h temp;
          h \<leftarrow> set_prev zone p h;
          h \<leftarrow> set_prev temp zone h;
          h \<leftarrow> set_next zone temp h;
          Some (True, h, l)
        })"

definition list_pop_start :: "nodes \<Rightarrow> linked_list \<Rightarrow> (ptr \<times> linked_list) option" where
  "list_pop_start h l =
     (if l_len l = 0 then Some (NULL, l)
      else
        let l = l\<lparr>l_len := l_len l - 1\<rparr>;
            l = (if l_current l = l_start l then l\<lparr>l_current := NULL\<rparr> else l)
        in if l_len l = 0 then Some (l_start l, l)
           else do {
             n \<leftarrow> get_next h (l_start l);
             Some (l_start l, l\<lparr>l_start := n\<rparr>)
           })"

definition list_pop :: "nodes \<Rightarrow> linked_list \<Rightarrow> (ptr \<times> linked_list) option" where
  "list_pop h l =
     (if l_len l = 0 then Some (NULL, l)
      else
        let l = l\<lparr>l_len := l_len l - 1\<rparr>;
            l = (if l_current l = l_end l then l\<lparr>l_current := NULL\<rparr> else l)
        in if l_len l = 0 then Some (l_end l, l)
           else do {
             p \<leftarrow> get_prev h (l_end l);
             Some (l_end l, l\<lparr>l_end := p\<rparr>)
           })"

definition list_remove ::
  "nodes \<Rightarrow> linked_list \<Rightarrow> usize \<Rightarrow> (ptr \<times> nodes \<times> linked_list) option" where
  "list_remove h l index =
     (if index > l_len l then Some (NULL, h, l)
      else if index = l_len l - 1 then map_option (\<lambda>(z, l). (z, h, l)) (list_pop h l)
      else if index = 0 then map_option (\<lambda>(z, l). (z, h, l)) (list_pop_start h l)
      else do {
        (temp, l) \<leftarrow> list_at h (l\<lparr>l_len := l_len l - 1\<rparr>) index;
        n \<leftarrow> get_next h temp;
        let l = (if index \<le> l_current_i l then l\<lparr>l_current := n\<rparr> else l);
        p \<leftarrow> get_prev h temp;
        h \<leftarrow> set_next p n h;
        n \<leftarrow> get_next h temp;
        p \<leftarrow> get_prev h temp;
        h \<leftarrow> set_prev n p h;
        Some (temp, h, l)
      })"

definition list_remove_p :: "nodes \<Rightarrow> linked_list \<Rightarrow> ptr \<Rightarrow> (nodes \<times> linked_list) option" where
  "list_remove_p h l zone =
     (if l_len l = 0 then Some (h, l)
      else
        let l = l\<lparr>l_len := l_len l - 1\<rparr>;
            l = (if l_current l = zone then l\<lparr>l_current := NULL\<rparr> else l)
        in if l_len l = 0 then Some (h, l)
           else if zone = l_start l then do {
             n \<leftarrow> get_next h zone;
             Some (h, l\<lparr>l_start := n\<rparr>)
           }
           else if zone = l_end l then do {
             p \<leftarrow> get_prev h zone;
             Some (h, l\<lparr>l_end := p\<rparr>)
           }
           else do {
             p \<leftarrow> get_prev h zone;
             n \<leftarrow> get_next h zone;
             h \<leftarrow> set_next p n h;
             n \<leftarrow> get_next h zone;
             p \<leftarrow> get_prev h zone;
             h \<leftarrow> set_prev n p h;
             Some (h, l)
           })"

section \<open>The shape of a list\<close>

fun chain :: "nodes \<Rightarrow> ptr list \<Rightarrow> bool" where
  "chain h (x # y # zs) \<longleftrightarrow> n_next (h x) = y \<and> n_prev (h y) = x \<and> chain h (y # zs)"
| "chain h _ \<longleftrightarrow> True"

definition list_rep :: "nodes \<Rightarrow> linked_list \<Rightarrow> ptr list \<Rightarrow> bool" where
  "list_rep h l xs \<longleftrightarrow> distinct xs \<and> NULL \<notin> set xs \<and> chain h xs \<and>
     l_len l = of_nat (length xs) \<and> (xs \<noteq> [] \<longrightarrow> l_start l = hd xs \<and> l_end l = last xs)"

definition cache_ok :: "linked_list \<Rightarrow> ptr list \<Rightarrow> bool" where
  "cache_ok l xs \<longleftrightarrow> l_current l = NULL \<or>
     unat (l_current_i l) < length xs \<and> l_current l = xs ! unat (l_current_i l)"

lemma chain_cong: "(\<And>x. x \<in> set xs \<Longrightarrow> h' x = h x) \<Longrightarrow> chain h' xs = chain h xs"
  by (induction h xs rule: chain.induct) auto

text \<open>The outer links of a chain are not part of it.\<close>

lemma chain_cong_last:
  "(\<And>x. x \<in> set (butlast xs) \<Longrightarrow> h' x = h x) \<Longrightarrow>
     n_prev (h' (last xs)) = n_prev (h (last xs)) \<Longrightarrow> chain h' xs = chain h xs"
proof (induction h xs rule: chain.induct)
  case (1 h x y zs)
  have "n_prev (h' y) = n_prev (h y)"
    using 1 by (cases zs) auto
  moreover have "chain h' (y # zs) = chain h (y # zs)" using 1 by simp
  moreover have "h' x = h x" using 1 by simp
  ultimately show ?case by simp
qed auto

lemma chain_cong_hd:
  assumes "\<And>x. x \<in> set (tl xs) \<Longrightarrow> h' x = h x"
    and "n_next (h' (hd xs)) = n_next (h (hd xs))"
  shows "chain h' xs = chain h xs"
proof (cases "length xs \<le> 1")
  case True
  then show ?thesis by (cases xs) auto
next
  case False
  then obtain x y zs where xs: "xs = x # y # zs" by (cases xs; cases "tl xs") auto
  with assms(1) have "chain h' (y # zs) = chain h (y # zs)" by (intro chain_cong) auto
  with assms xs show ?thesis by auto
qed

lemma last_notin_butlast: "distinct xs \<Longrightarrow> xs \<noteq> [] \<Longrightarrow> last xs \<notin> set (butlast xs)"
  by (metis append_butlast_last_id distinct_append distinct_butlast not_distinct_conv_prefix)

lemma chain_append:
  "xs \<noteq> [] \<Longrightarrow> ys \<noteq> [] \<Longrightarrow> chain h (xs @ ys) \<longleftrightarrow>
     chain h xs \<and> chain h ys \<and> n_next (h (last xs)) = hd ys \<and> n_prev (h (hd ys)) = last xs"
proof (induction xs)
  case (Cons x xs)
  show ?case
  proof (cases xs)
    case Nil
    then show ?thesis using Cons.prems by (cases ys) auto
  next
    case (Cons x' xs')
    then show ?thesis using Cons.IH Cons.prems by auto
  qed
qed simp

lemma chain_tl: "chain h xs \<Longrightarrow> chain h (tl xs)"
  by (cases "(h, xs)" rule: chain.cases) auto

lemma chain_butlast: "chain h xs \<Longrightarrow> chain h (butlast xs)"
proof (cases "length xs \<le> 1")
  case True
  then have "butlast xs = []" by (simp add: butlast_conv_take)
  then show ?thesis by simp
next
  case False
  assume c: "chain h xs"
  have "butlast xs \<noteq> []" using False by (auto simp: butlast_conv_take)
  moreover have "xs = butlast xs @ [last xs]" using False by (cases xs) auto
  ultimately show ?thesis using c chain_append [of "butlast xs" "[last xs]" h] by simp
qed

lemma chain_nth:
  "chain h xs \<Longrightarrow> Suc i < length xs \<Longrightarrow>
     n_next (h (xs ! i)) = xs ! Suc i \<and> n_prev (h (xs ! Suc i)) = xs ! i"
proof (induction h xs arbitrary: i rule: chain.induct)
  case (1 h x y zs)
  then show ?case by (cases i) auto
qed auto

lemma chain_remove_mid:
  assumes "chain h (as @ x # bs)" "distinct (as @ x # bs)" "as \<noteq> []" "bs \<noteq> []"
    and h': "h' = h(last as := (h (last as))\<lparr>n_next := hd bs\<rparr>)"
    and h'': "h'' = h'(hd bs := (h' (hd bs))\<lparr>n_prev := last as\<rparr>)"
  shows "chain h'' (as @ bs)"
proof -
  have c: "chain h as" "chain h bs"
    using assms(1,3,4) chain_append [of as "x # bs" h] chain_append [of "[x]" bs h] by auto
  have ne: "last as \<noteq> hd bs" "last as \<notin> set bs" "hd bs \<notin> set as"
    using assms(2) last_in_set [OF assms(3)] hd_in_set [OF assms(4)] by auto
  have "chain h'' as = chain h as"
    using last_notin_butlast [of as] assms(2,3) ne h' h''
    by (intro chain_cong_last) (auto dest: in_set_butlastD)
  moreover have "chain h'' bs = chain h bs"
    using assms(2,4) ne h' h'' by (intro chain_cong_hd) (cases bs; auto)+
  moreover have "n_next (h'' (last as)) = hd bs" "n_prev (h'' (hd bs)) = last as"
    using ne(1) h' h'' by auto
  ultimately show ?thesis using c assms(3,4) by (simp add: chain_append)
qed

lemma distinct_ptrs_length: "distinct xs \<Longrightarrow> NULL \<notin> set xs \<Longrightarrow> length xs < 2 ^ 64" for xs :: "ptr list"
proof -
  assume d: "distinct xs" "NULL \<notin> set xs"
  have "card (set xs) < card (UNIV :: ptr set)"
    using d(2) by (intro psubset_card_mono) auto
  then show ?thesis using d(1) by (simp add: distinct_card card_word)
qed

lemma list_rep_length: "list_rep h l xs \<Longrightarrow> length xs < 2 ^ 64"
  unfolding list_rep_def using distinct_ptrs_length by blast

lemma list_rep_len: "list_rep h l xs \<Longrightarrow> unat (l_len l) = length xs"
  using unat_of_nat_small [OF list_rep_length] unfolding list_rep_def by metis

lemma list_rep_len_0: "list_rep h l xs \<Longrightarrow> l_len l = 0 \<longleftrightarrow> xs = []"
  using list_rep_len by (metis length_0_conv unat_eq_zero)

lemma list_rep_cong: "list_rep h l xs \<Longrightarrow> (\<And>x. x \<in> set xs \<Longrightarrow> h' x = h x) \<Longrightarrow> list_rep h' l xs"
  unfolding list_rep_def using chain_cong by metis

lemma list_rep_new: "list_rep h new_list []"
  by (simp add: list_rep_def new_list_def)

section \<open>The operations keep the shape\<close>

named_theorems heap_defs \<open>field reads and writes\<close>

lemmas [heap_defs] = get_next_def get_prev_def set_next_def set_prev_def

lemma of_nat_len_simps:
  assumes "length xs < 2 ^ 64"
  shows "(of_nat (length xs) :: usize) = 0 \<longleftrightarrow> xs = []"
    and "(of_nat (length xs) :: usize) = 1 \<longleftrightarrow> length xs = 1"
  using assms unat_of_nat_small [OF assms] by (auto simp: word_unat_eq_iff simp del: unat_of_nat)

lemma list_append_spec:
  assumes r: "list_rep h l xs" and x: "x \<notin> set xs" "x \<noteq> NULL"
  shows "\<exists>h' l'. list_append h l x = Some (h', l') \<and> list_rep h' l' (xs @ [x]) \<and>
    agree_off (insert x (set xs)) h h' \<and> l_current l' = l_current l \<and> l_current_i l' = l_current_i l"
proof (cases "xs = []")
  case True
  with r x show ?thesis
    by (auto simp: list_append_def list_rep_def agree_off_def Let_def)
next
  case False
  have ne: "l_len l + 1 \<noteq> 1" using list_rep_len_0 [OF r] False by simp
  have e: "l_end l = last xs" "l_end l \<noteq> NULL" "last xs \<noteq> x"
    using r x last_in_set [OF False] by (auto simp: list_rep_def)
  let ?h1 = "h(last xs := (h (last xs))\<lparr>n_next := x\<rparr>)"
  let ?h2 = "?h1(x := (?h1 x)\<lparr>n_prev := last xs\<rparr>)"
  let ?l = "l\<lparr>l_len := l_len l + 1, l_end := x\<rparr>"
  have "list_append h l x = Some (?h2, ?l)"
    using ne e x by (simp add: list_append_def heap_defs Let_def)
  moreover have "chain ?h2 xs = chain h xs"
    using last_notin_butlast [of xs] r x False
    by (intro chain_cong_last) (auto simp: list_rep_def dest: in_set_butlastD)
  then have "chain ?h2 xs" using r by (simp add: list_rep_def)
  then have "chain ?h2 (xs @ [x])" using False e(3) by (simp add: chain_append)
  then have "list_rep ?h2 ?l (xs @ [x])"
    using r x False by (auto simp: list_rep_def)
  moreover have "agree_off (insert x (set xs)) h ?h2"
    using False by (auto simp: agree_off_def)
  ultimately show ?thesis by auto
qed

lemma list_prepend_spec:
  assumes r: "list_rep h l xs" and x: "x \<notin> set xs" "x \<noteq> NULL"
  shows "\<exists>h' l'. list_prepend h l x = Some (h', l') \<and> list_rep h' l' (x # xs) \<and>
    agree_off (insert x (set xs)) h h' \<and> l_current l' = l_current l \<and>
    l_current_i l' = l_current_i l + 1"
proof (cases xs)
  case Nil
  with r x show ?thesis
    by (auto simp: list_prepend_def list_rep_def agree_off_def Let_def)
next
  case (Cons y ys)
  have ne: "l_len l + 1 \<noteq> 1" using list_rep_len_0 [OF r] Cons by simp
  have s: "l_start l = y" "y \<noteq> NULL" "y \<noteq> x" "y \<notin> set ys"
    using r x Cons by (auto simp: list_rep_def)
  let ?h1 = "h(y := (h y)\<lparr>n_prev := x\<rparr>)"
  let ?h2 = "?h1(x := (?h1 x)\<lparr>n_next := y\<rparr>)"
  let ?l = "l\<lparr>l_len := l_len l + 1, l_current_i := l_current_i l + 1, l_start := x\<rparr>"
  have "list_prepend h l x = Some (?h2, ?l)"
    using ne s x by (simp add: list_prepend_def heap_defs Let_def)
  moreover have "chain ?h2 (y # ys) = chain h (y # ys)"
    using s x Cons by (intro chain_cong_hd) auto
  then have "chain ?h2 (x # y # ys)" using r s Cons by (simp add: list_rep_def)
  then have "list_rep ?h2 ?l (x # xs)" using r x Cons by (auto simp: list_rep_def)
  moreover have "agree_off (insert x (set xs)) h ?h2" using Cons by (auto simp: agree_off_def)
  ultimately show ?thesis by auto
qed

lemma list_rep_shrink_len:
  "list_rep h l xs \<Longrightarrow> xs \<noteq> [] \<Longrightarrow> l_len l - 1 = of_nat (length xs - 1)"
  by (cases xs) (auto simp: list_rep_def)

lemma list_rep_len_1:
  assumes r: "list_rep h l xs" and ne: "xs \<noteq> []"
  shows "l_len l - 1 = 0 \<longleftrightarrow> length xs = 1"
proof -
  have "length xs - 1 < 2 ^ 64" using list_rep_length [OF r] by linarith
  then have "unat (l_len l - 1) = length xs - 1"
    unfolding list_rep_shrink_len [OF r ne] by (rule unat_of_nat_small)
  then have "l_len l - 1 = 0 \<longleftrightarrow> length xs - 1 = 0" by (metis unat_eq_zero)
  moreover have "length xs \<noteq> 0" using ne by simp
  ultimately show ?thesis by linarith
qed

lemma list_pop_empty: "list_rep h l [] \<Longrightarrow> list_pop h l = Some (NULL, l)"
  by (simp add: list_pop_def list_rep_def)

lemma list_pop_start_empty: "list_rep h l [] \<Longrightarrow> list_pop_start h l = Some (NULL, l)"
  by (simp add: list_pop_start_def list_rep_def)

lemma list_pop_spec:
  assumes r: "list_rep h l xs" and ne: "xs \<noteq> []"
  shows "\<exists>l'. list_pop h l = Some (last xs, l') \<and> list_rep h l' (butlast xs) \<and>
    l_current l' = (if l_current l = last xs then NULL else l_current l) \<and>
    l_current_i l' = l_current_i l"
proof (cases "length xs = 1")
  case True
  then obtain x where xs: "xs = [x]" by (auto simp: length_Suc_conv)
  with r show ?thesis by (auto simp: list_pop_def list_rep_def Let_def)
next
  case False
  have len: "l_len l \<noteq> 0" "l_len l - 1 \<noteq> 0"
    using list_rep_len_0 [OF r] list_rep_len_1 [OF r ne] ne False by auto
  have bl: "butlast xs \<noteq> []" using ne False by (auto simp: butlast_conv_take le_Suc_eq)
  have bl2: "xs = butlast xs @ [last xs]" using ne by simp
  have e: "l_end l = last xs" "last xs \<noteq> NULL"
    using r ne last_in_set [OF ne] unfolding list_rep_def by metis+
  have p: "n_prev (h (last xs)) = last (butlast xs)"
    using r bl bl2 chain_append [of "butlast xs" "[last xs]" h] by (simp add: list_rep_def)
  let ?l = "l\<lparr>l_len := l_len l - 1, l_end := last (butlast xs),
    l_current := (if l_current l = last xs then NULL else l_current l)\<rparr>"
  have "list_pop h l = Some (last xs, ?l)"
    using len e p by (simp add: list_pop_def heap_defs Let_def)
  moreover have "hd (butlast xs) = hd xs" using bl bl2 by (metis hd_append2)
  then have "list_rep h ?l (butlast xs)"
    using r bl list_rep_shrink_len [OF r ne] ne
    by (auto simp: list_rep_def chain_butlast distinct_butlast dest: in_set_butlastD)
  ultimately show ?thesis by auto
qed

lemma list_pop_start_spec:
  assumes r: "list_rep h l xs" and ne: "xs \<noteq> []"
  shows "\<exists>l'. list_pop_start h l = Some (hd xs, l') \<and> list_rep h l' (tl xs) \<and>
    l_current l' = (if l_current l = hd xs then NULL else l_current l) \<and>
    l_current_i l' = l_current_i l"
proof (cases "length xs = 1")
  case True
  then obtain x where xs: "xs = [x]" by (auto simp: length_Suc_conv)
  with r show ?thesis by (auto simp: list_pop_start_def list_rep_def Let_def)
next
  case False
  then obtain x y zs where xs: "xs = x # y # zs" using ne by (cases xs; cases "tl xs") auto
  have len: "l_len l \<noteq> 0" "l_len l - 1 \<noteq> 0"
    using list_rep_len_0 [OF r] list_rep_len_1 [OF r ne] ne False by auto
  let ?l = "l\<lparr>l_len := l_len l - 1, l_start := y,
    l_current := (if l_current l = x then NULL else l_current l)\<rparr>"
  have "list_pop_start h l = Some (x, ?l)"
    using len r xs by (auto simp: list_pop_start_def heap_defs list_rep_def Let_def)
  moreover have "list_rep h ?l (y # zs)"
    using r xs list_rep_shrink_len [OF r ne] by (auto simp: list_rep_def)
  ultimately show ?thesis using xs by auto
qed

lemma list_remove_p_spec:
  assumes r: "list_rep h l xs" and x: "x \<in> set xs"
  shows "\<exists>h' l'. list_remove_p h l x = Some (h', l') \<and> list_rep h' l' (remove1 x xs) \<and>
    agree_off (set xs) h h' \<and> l_current l' = (if l_current l = x then NULL else l_current l) \<and>
    l_current_i l' = l_current_i l"
proof -
  have ne: "xs \<noteq> []" using x by auto
  obtain as bs where xs: "xs = as @ x # bs" "x \<notin> set as" using x by (meson split_list_first)
  have d: "distinct xs" "NULL \<notin> set xs" "chain h xs" "l_start l = hd xs" "l_end l = last xs"
    using r ne by (auto simp: list_rep_def)
  have x0: "x \<noteq> NULL" using d(2) x by metis
  have rem: "remove1 x xs = as @ bs" using xs by (simp add: remove1_append)
  have len0: "l_len l \<noteq> 0" using list_rep_len_0 [OF r] ne by simp
  have len': "l_len l - 1 = of_nat (length (as @ bs))"
    using list_rep_shrink_len [OF r ne] xs by simp
  let ?l = "l\<lparr>l_len := l_len l - 1, l_current := (if l_current l = x then NULL else l_current l)\<rparr>"
  consider (one) "as = []" "bs = []" | (first) "as = []" "bs \<noteq> []"
    | (last) "as \<noteq> []" "bs = []" | (mid) "as \<noteq> []" "bs \<noteq> []" by blast
  then show ?thesis
  proof cases
    case one
    then have "list_remove_p h l x = Some (h, ?l)"
      using len0 list_rep_len_1 [OF r ne] xs by (simp add: list_remove_p_def Let_def)
    then show ?thesis using r one xs rem len' by (auto simp: list_rep_def agree_off_def)
  next
    case first
    then obtain b cs where bs: "bs = b # cs" by (cases bs) auto
    have n: "n_next (h x) = b" using d(3) xs first bs by simp
    have "list_remove_p h l x = Some (h, ?l\<lparr>l_start := b\<rparr>)"
      using len0 list_rep_len_1 [OF r ne] xs first bs d x0 n
      by (simp add: list_remove_p_def heap_defs Let_def)
    moreover have "list_rep h (?l\<lparr>l_start := b\<rparr>) bs"
      using d xs first bs len' chain_tl [of h xs] by (auto simp: list_rep_def)
    ultimately show ?thesis using rem first by (auto simp: agree_off_def)
  next
    case last
    have p: "n_prev (h x) = List.last as"
      using d(3) xs last chain_append [of as "[x]" h] by simp
    have "x \<noteq> hd xs" using xs last by (cases as) auto
    then have "list_remove_p h l x = Some (h, ?l\<lparr>l_end := List.last as\<rparr>)"
      using len0 list_rep_len_1 [OF r ne] xs last d x0 p
      by (simp add: list_remove_p_def heap_defs Let_def)
    moreover have "list_rep h (?l\<lparr>l_end := List.last as\<rparr>) as"
      using d xs last len' chain_butlast [of h xs] by (auto simp: list_rep_def)
    ultimately show ?thesis using rem last by (auto simp: agree_off_def)
  next
    case mid
    let ?p = "List.last as" and ?n = "hd bs"
    let ?h1 = "h(?p := (h ?p)\<lparr>n_next := ?n\<rparr>)"
    let ?h2 = "?h1(?n := (?h1 ?n)\<lparr>n_prev := ?p\<rparr>)"
    have p: "n_prev (h x) = ?p" using d(3) mid chain_append [of as "x # bs" h] xs by simp
    have "chain h (as @ [x] @ bs)" using d(3) xs by simp
    then have n: "n_next (h x) = ?n"
      using mid chain_append [of "as @ [x]" bs h] by simp
    have in': "?p \<in> set xs" "?n \<in> set xs" using mid xs by auto
    then have nn: "?p \<noteq> NULL" "?n \<noteq> NULL" using d(2) by metis+
    have px: "?p \<noteq> x" using xs(2) mid(1) last_in_set by metis
    have nx: "x \<noteq> ?n" using d(1) xs(1) mid(2) hd_in_set by fastforce
    have "x \<noteq> hd xs" using xs mid by (cases as) auto
    moreover have "x \<noteq> List.last xs" using xs(1) mid(2) d(1) last_in_set [OF mid(2)] by auto
    ultimately have "list_remove_p h l x = Some (?h2, ?l)"
      using len0 list_rep_len_1 [OF r ne] xs mid d(4,5) x0 p n nn px nx
      by (simp add: list_remove_p_def heap_defs Let_def)
    moreover have "list_rep ?h2 ?l (as @ bs)"
      using d xs mid len' chain_remove_mid [of h as x bs ?h1 ?h2] by (auto simp: list_rep_def)
    moreover have "agree_off (set xs) h ?h2" using in' by (auto simp: agree_off_def)
    ultimately show ?thesis using rem by auto
  qed
qed

section \<open>Indexing\<close>

text \<open>
  \<^verbatim>\<open>walk\<close> reaches the wanted node from any node whose position it is told, when the
  direction points towards it: forwards with 1, backwards with -1, and not at all with 0.
\<close>

lemma walk_here: "walk h i dir i z = Some z"
  by (simp add: walk.simps)

lemma of_nat_neq: "i < 2 ^ 64 \<Longrightarrow> j < 2 ^ 64 \<Longrightarrow> i \<noteq> j \<Longrightarrow> (of_nat i :: usize) \<noteq> of_nat j"
  by (metis unat_of_nat_small)

lemma walk_forward:
  assumes c: "chain h xs" "NULL \<notin> set xs" and len: "length xs + d < 2 ^ 64"
  shows "i \<le> j \<Longrightarrow> j < length xs \<Longrightarrow>
    walk h (of_nat (j + d)) 1 (of_nat (i + d)) (xs ! i) = Some (xs ! j)"
proof (induction "j - i" arbitrary: i)
  case 0
  then show ?case by (simp add: walk_here)
next
  case (Suc k)
  then have i: "i < j" "Suc i < length xs" by auto
  have "(of_nat (i + d) :: usize) \<noteq> of_nat (j + d)"
    using i Suc.prems len by (intro of_nat_neq) linarith+
  moreover have "xs ! i \<noteq> NULL" "xs ! Suc i \<noteq> NULL" using c(2) i by (metis Suc_lessD nth_mem)+
  moreover have "n_next (h (xs ! i)) = xs ! Suc i" using chain_nth [OF c(1) i(2)] by simp
  moreover have "walk h (of_nat (j + d)) 1 (of_nat (Suc i + d)) (xs ! Suc i) = Some (xs ! j)"
    using Suc by (intro Suc.hyps(1)) auto
  ultimately show ?case
    by (subst walk.simps) (simp add: heap_defs add_ac)
qed

lemma walk_backward:
  assumes c: "chain h xs" "NULL \<notin> set xs" and len: "length xs + d < 2 ^ 64"
  shows "j \<le> i \<Longrightarrow> i < length xs \<Longrightarrow>
    walk h (of_nat (j + d)) (-1) (of_nat (i + d)) (xs ! i) = Some (xs ! j)"
proof (induction i)
  case 0
  then show ?case by (simp add: walk_here)
next
  case (Suc i)
  show ?case
  proof (cases "j = Suc i")
    case True
    then show ?thesis by (simp add: walk_here)
  next
    case False
    with Suc.prems have j: "j \<le> i" by simp
    have "(of_nat (Suc i + d) :: usize) \<noteq> of_nat (j + d)"
      using j Suc.prems len by (intro of_nat_neq) linarith+
    moreover have "xs ! i \<noteq> NULL" "xs ! Suc i \<noteq> NULL"
      using c(2) Suc.prems by (metis Suc_lessD nth_mem)+
    moreover have "n_prev (h (xs ! Suc i)) = xs ! i" using chain_nth [OF c(1) Suc.prems(2)] by simp
    moreover have "walk h (of_nat (j + d)) (-1) (of_nat (i + d)) (xs ! i) = Some (xs ! j)"
      using j Suc.prems by (intro Suc.IH) auto
    ultimately show ?thesis
      by (subst walk.simps) (simp add: heap_defs)
  qed
qed

lemma ucast_of_int: "(ucast (word_of_int k :: usize) :: i32) = word_of_int k"
  by (simp add: unsigned_of_int word_of_int_eq_iff)

lemma sint_of_int: "sint (word_of_int k :: i32) = signed_take_bit 31 k"
  by (simp add: signed_of_int)

lemma ucast_diff:
  "(ucast (of_nat i - of_nat c :: usize) :: i32) = word_of_int (int i - int c)"
  using ucast_of_int [of "int i - int c"] by simp

lemma sign_i32_diff:
  assumes "i < 2 ^ 31" "c < 2 ^ 31"
  shows "sign_i32 (ucast (of_nat i - of_nat c :: usize)) = (if i = c then 0 else if c < i then 1 else -1)"
proof -
  let ?w = "word_of_int (int i - int c) :: i32"
  have "sint ?w = int i - int c"
  proof -
    have "sint ?w = signed_take_bit 31 (int i - int c)" by (rule sint_of_int)
    also have "\<dots> = int i - int c"
    proof (rule signed_take_bit_int_eq_self)
      show "- (2 ^ 31) \<le> int i - int c" using assms by simp
      show "int i - int c < 2 ^ 31" using assms by simp
    qed
    finally show ?thesis .
  qed
  moreover from this have "?w = 0 \<longleftrightarrow> i = c" by (metis diff_self eq_iff_diff_eq_0 of_nat_eq_iff signed_0 of_int_0)
  ultimately show ?thesis unfolding ucast_diff by (simp add: sign_i32_def)
qed

lemma list_at_spec:
  assumes r: "list_rep h l xs" and cache: "cache_ok l xs"
    and len: "length xs < 2 ^ 31" and i: "i < length xs"
  shows "list_at h l (of_nat i) = Some (xs ! i, l\<lparr>l_current := xs ! i, l_current_i := of_nat i\<rparr>)"
proof -
  let ?l = "if l_current l = NULL then l\<lparr>l_current := l_start l, l_current_i := 0\<rparr> else l"
  have ne: "xs \<noteq> []" using i by auto
  have c: "chain h xs" "NULL \<notin> set xs" "length xs < 2 ^ 64"
    using r len by (auto simp: list_rep_def)
  obtain k where k: "k < length xs" "l_current ?l = xs ! k" "l_current_i ?l = of_nat k"
  proof (cases "l_current l = NULL")
    case True
    with r ne that [of 0] show ?thesis by (auto simp: list_rep_def hd_conv_nth)
  next
    case False
    with cache that [of "unat (l_current_i l)"] show ?thesis by (auto simp: cache_ok_def)
  qed
  have idx: "\<not> l_len l \<le> of_nat i"
    using i list_rep_len [OF r] c(3) by (simp add: word_le_nat_alt unat_of_nat_small)
  have ends: "l_start ?l = xs ! 0" "l_end ?l = xs ! (length xs - 1)" "l_len ?l = l_len l"
    using r ne by (auto simp: list_rep_def hd_conv_nth last_conv_nth)
  have last: "l_len ?l - 1 = of_nat (length xs - 1)"
    using list_rep_shrink_len [OF r ne] ends by simp
  have w1: "walk h (of_nat i) 1 0 (xs ! 0) = Some (xs ! i)"
    using walk_forward [of h xs 0 0 i] c i by simp
  have w2: "walk h (of_nat i) (-1) (of_nat (length xs - 1)) (xs ! (length xs - 1)) = Some (xs ! i)"
    using walk_backward [of h xs 0 i "length xs - 1"] c i by simp
  have w3: "walk h (of_nat i) (sign_i32 (ucast (of_nat i - of_nat k :: usize))) (of_nat k) (xs ! k)
      = Some (xs ! i)"
  proof (cases "i = k")
    case True
    then show ?thesis by (simp add: walk_here)
  next
    case False
    with walk_forward [of h xs 0 k i] walk_backward [of h xs 0 i k] c i k(1) len show ?thesis
      by (auto simp: sign_i32_diff)
  qed
  have "?l\<lparr>l_current := xs ! i, l_current_i := of_nat i\<rparr> =
      l\<lparr>l_current := xs ! i, l_current_i := of_nat i\<rparr>" by simp
  then show ?thesis
    unfolding list_at_def Let_def using idx w1 w2 w3
    by (simp only: if_False k(2,3) ends(1,2) last) (auto simp: last split: if_splits)
qed

lemma list_at_out: "l_len l \<le> i \<Longrightarrow> list_at h l i = Some (NULL, l)"
  by (simp add: list_at_def)

section \<open>The list provides the shared-list contract\<close>

interpretation kl: shared_lists list_rep l_len list_append list_pop_start list_pop list_remove_p
proof (unfold_locales, goal_cases)
  case (1 h l xs) then show ?case by (simp add: list_rep_def)
next
  case (2 h l xs) then show ?case by (simp add: list_rep_def)
next
  case (3 h l xs h') then show ?case by (rule list_rep_cong)
next
  case (4 h l xs) then show ?case by (rule list_rep_len)
next
  case (5 h l xs x) then show ?case using list_append_spec by blast
next
  case (6 h l) then show ?case by (rule list_pop_start_empty)
next
  case (7 h l xs) then show ?case using list_pop_start_spec by blast
next
  case (8 h l) then show ?case by (rule list_pop_empty)
next
  case (9 h l xs) then show ?case using list_pop_spec by blast
next
  case (10 h l xs x) then show ?case using list_remove_p_spec by blast
qed

section \<open>Insertion in the middle\<close>

text \<open>The four link writes of \<^verbatim>\<open>insert\<close> put the zone in front of \<open>t\<close>.\<close>

lemma chain_insert_mid:
  assumes "chain h (as @ t # bs)" "distinct (as @ t # bs)" "as \<noteq> []"
    and z: "z \<notin> set (as @ t # bs)"
    and h1: "h1 = h(last as := (h (last as))\<lparr>n_next := z\<rparr>)"
    and h2: "h2 = h1(z := (h1 z)\<lparr>n_prev := last as\<rparr>)"
    and h3: "h3 = h2(t := (h2 t)\<lparr>n_prev := z\<rparr>)"
    and h4: "h4 = h3(z := (h3 z)\<lparr>n_next := t\<rparr>)"
  shows "chain h4 (as @ z # t # bs)"
proof -
  have l: "last as \<in> set as" using assms(3) by (rule last_in_set)
  have "chain h4 as = chain h as"
    using last_notin_butlast [of as] assms(2,3) z l h1 h2 h3 h4
    by (intro chain_cong_last) (auto dest: in_set_butlastD)
  moreover have "chain h4 (t # bs) = chain h (t # bs)"
    using assms(2) z l h1 h2 h3 h4 by (intro chain_cong_hd) auto
  moreover have "chain h as" "chain h (t # bs)"
    using assms(1,3) chain_append [of as "t # bs" h] by auto
  moreover have "n_next (h4 (last as)) = z" "n_prev (h4 z) = last as" "n_next (h4 z) = t" "n_prev (h4 t) = z"
    using assms(2) z l h1 h2 h3 h4 by auto
  ultimately show ?thesis
    using assms(3) chain_append [of as "z # t # bs" h4] by simp
qed

text \<open>
  Where \<^verbatim>\<open>insert\<close> really puts the zone: \<^verbatim>\<open>operator[]\<close> runs after \<^verbatim>\<open>len\<close> and
  \<^verbatim>\<open>current_i\<close> are bumped but before the zone is linked, so a walk that starts at the
  end, or at a cached node at or behind the index, stops one node early. \<open>c\<close> is the
  cached position, 0 when nothing is cached.
\<close>

definition insert_pos :: "nat \<Rightarrow> nat \<Rightarrow> nat \<Rightarrow> nat" where
  "insert_pos n c i =
     (if i \<le> c then (if 2 * i + 1 < c then i else i - 1)
      else if n + c < 2 * i then i - 1 else i)"

lemma abs_i32_neg:
  assumes "sint x < 0" "- (2 ^ 31) < sint x + 1"
  shows "sint (abs_i32 x) = - sint x - 2"
proof -
  have "signed_drop_bit 31 x = (-1 :: i32)"
  proof (rule bit_word_eqI)
    fix n assume "n < LENGTH(32)"
    have "bit x 31" using bit_last_iff [of x] assms(1) by simp
    then show "bit (signed_drop_bit 31 x) n = bit (-1 :: i32) n"
      using \<open>n < LENGTH(32)\<close> by (cases n) (simp_all add: bit_simps min_def)
  qed
  then have "abs_i32 x = NOT x - 1" by (simp add: abs_i32_def Let_def)
  also have "\<dots> = word_of_int (- sint x - 2)" by (simp add: not_eq_complement)
  finally have "sint (abs_i32 x) = signed_take_bit 31 (- sint x - 2)" by (simp only: sint_of_int)
  also have "\<dots> = - sint x - 2"
  proof (rule signed_take_bit_int_eq_self)
    show "- (2 ^ 31) \<le> - sint x - 2" using assms(1) by simp
    show "- sint x - 2 < 2 ^ 31" using assms(2) by simp
  qed
  finally show ?thesis .
qed

lemma sint_diff64:
  assumes "a < 2 ^ 62" "b < 2 ^ 62"
  shows "sint (of_nat a - of_nat b :: isize) = int a - int b"
proof -
  have "sint (word_of_int k :: isize) = signed_take_bit 63 k" for k by (simp add: signed_of_int)
  then have "sint (word_of_int (int a - int b) :: isize) = signed_take_bit 63 (int a - int b)" .
  also have "\<dots> = int a - int b"
  proof (rule signed_take_bit_int_eq_self)
    show "- (2 ^ 63) \<le> int a - int b" using assms by simp
    show "int a - int b < 2 ^ 63" using assms by simp
  qed
  finally show ?thesis by simp
qed

lemma sint_diff32:
  assumes "a < 2 ^ 31" "b < 2 ^ 31"
  shows "sint (ucast (of_nat a - of_nat b :: usize) :: i32) = int a - int b"
proof -
  have "sint (word_of_int (int a - int b) :: i32) = signed_take_bit 31 (int a - int b)"
    by (rule sint_of_int)
  also have "\<dots> = int a - int b"
  proof (rule signed_take_bit_int_eq_self)
    show "- (2 ^ 31) \<le> int a - int b" using assms by simp
    show "int a - int b < 2 ^ 31" using assms by simp
  qed
  finally show ?thesis by (simp only: ucast_diff)
qed

text \<open>The node that \<^verbatim>\<open>insert\<close> takes for the one at \<open>i\<close>.\<close>

lemma list_at_during_insert:
  assumes r: "list_rep h l xs" and len: "length xs < 2 ^ 30"
    and i: "0 < i" "i < length xs"
    and c: "c < length xs"
      "l_current l = xs ! c \<and> l_current_i l = of_nat c \<or> l_current l = NULL \<and> c = 0"
  defines "l1 \<equiv> (if of_nat i \<le> l_current_i l then l\<lparr>l_current_i := l_current_i l + 1\<rparr> else l)"
  defines "l2 \<equiv> l1\<lparr>l_len := l_len l1 + 1\<rparr>"
  shows "list_at h l2 (of_nat i) = Some (xs ! insert_pos (length xs) c i,
    l2\<lparr>l_current := xs ! insert_pos (length xs) c i, l_current_i := of_nat i\<rparr>)"
proof -
  let ?n = "length xs" and ?e = "insert_pos (length xs) c i"
  let ?c = "if i \<le> c then c + 1 else c"
  let ?l = "if l_current l2 = NULL then l2\<lparr>l_current := l_start l2, l_current_i := 0\<rparr> else l2"
  have ne: "xs \<noteq> []" using i by auto
  have ch: "chain h xs" "NULL \<notin> set xs" using r by (auto simp: list_rep_def)
  have cur: "l_current ?l = xs ! c" "l_current_i ?l = of_nat ?c"
  proof -
    have "xs ! c \<noteq> NULL" using ch(2) c(1) by (metis nth_mem)
    moreover have "(of_nat i \<le> (of_nat c :: usize)) = (i \<le> c)"
      using i c(1) len by (simp add: word_le_nat_alt unat_of_nat_small)
    ultimately show "l_current ?l = xs ! c" "l_current_i ?l = of_nat ?c"
      using c(2) r ne i by (auto simp: l2_def l1_def list_rep_def hd_conv_nth)
  qed
  have ends: "l_start ?l = xs ! 0" "l_end ?l = xs ! (?n - 1)" "l_len ?l = of_nat (?n + 1)"
    "l_len l2 = of_nat (?n + 1)"
    using r ne by (auto simp: l2_def l1_def list_rep_def hd_conv_nth last_conv_nth)
  have idx: "\<not> l_len l2 \<le> of_nat i"
    using i len unfolding ends(4) word_le_nat_alt
    by (subst (1 2) unat_of_nat_small) simp_all
  have dm: "sint (of_nat i - of_nat ?c :: isize) = int i - int ?c"
    using i c(1) len by (intro sint_diff64) auto
  have dm32: "sint (ucast (of_nat i - of_nat ?c :: usize) :: i32) = int i - int ?c"
    using i c(1) len by (intro sint_diff32) auto
  have de: "sint (l_len ?l - of_nat i - 1 :: isize) = int ?n - int i"
  proof -
    have "l_len ?l - of_nat i - 1 = (of_nat ?n - of_nat i :: isize)"
      unfolding ends(3) by simp
    moreover have "sint (of_nat ?n - of_nat i :: isize) = int ?n - int i"
      using i len by (intro sint_diff64) auto
    ultimately show ?thesis by (simp only:)
  qed
  have ds: "sint (of_nat i :: isize) = int i" using sint_diff64 [of i 0] i len by simp
  have w1: "walk h (of_nat i) 1 0 (xs ! 0) = Some (xs ! i)"
    using walk_forward [of h xs 0 0 i] ch len i by simp
  have w2: "walk h (of_nat i) (-1) (l_len ?l - 1) (xs ! (?n - 1)) = Some (xs ! (i - 1))"
  proof -
    have "l_len ?l - 1 = of_nat ((?n - 1) + 1)" using ne by (simp add: ends)
    then show ?thesis
      using walk_backward [of h xs 1 "i - 1" "?n - 1"] ch len i by simp
  qed
  have w3: "walk h (of_nat i) (sign_i32 (ucast (of_nat i - of_nat ?c :: usize))) (of_nat ?c) (xs ! c)
      = Some (xs ! (if i \<le> c then i - 1 else i))"
  proof (cases "i \<le> c")
    case True
    then have "sign_i32 (ucast (of_nat i - of_nat ?c :: usize)) = -1"
      using i c(1) len by (subst sign_i32_diff) auto
    moreover have "of_nat ?c = (of_nat (c + 1) :: usize)" using True by simp
    moreover have "i = i - 1 + 1" using i by simp
    moreover have "walk h (of_nat (i - 1 + 1)) (-1) (of_nat (c + 1)) (xs ! c) = Some (xs ! (i - 1))"
      using ch len i c(1) True by (intro walk_backward) auto
    ultimately show ?thesis using True by simp
  next
    case False
    then have "sign_i32 (ucast (of_nat i - of_nat ?c :: usize)) = 1"
      using i c(1) len by (subst sign_i32_diff) auto
    with False show ?thesis
      using walk_forward [of h xs 0 c i] ch len i by simp
  qed
  have split: "(if sint (of_nat i - of_nat ?c :: isize) < 0 \<and>
        sint (of_nat i :: isize) < sint (abs_i32 (ucast (of_nat i - of_nat ?c :: usize)))
      then (xs ! 0, 0, 1)
      else if sint (l_len ?l - of_nat i - 1 :: isize) < sint (of_nat i - of_nat ?c :: isize)
      then (xs ! (?n - 1), l_len ?l - 1, -1)
      else (xs ! c, of_nat ?c, sign_i32 (ucast (of_nat i - of_nat ?c :: usize)))) =
    (if i \<le> c \<and> 2 * i + 1 < c then (xs ! 0, 0, 1)
     else if c < i \<and> ?n + c < 2 * i then (xs ! (?n - 1), l_len ?l - 1, -1)
     else (xs ! c, of_nat ?c, sign_i32 (ucast (of_nat i - of_nat ?c :: usize))))"
  proof (cases "i \<le> c")
    case True
    have "sint (abs_i32 (ucast (of_nat i - of_nat ?c :: usize))) = - (int i - int ?c) - 2"
      using abs_i32_neg [of "ucast (of_nat i - of_nat ?c :: usize)"] True i c(1) len
      unfolding dm32 by simp
    then show ?thesis unfolding dm ds de using True i by auto
  next
    case False
    then show ?thesis unfolding dm ds de by auto
  qed
  have "list_at h l2 (of_nat i) = do {
      zone \<leftarrow> (let (zone, k, dir) =
        (if i \<le> c \<and> 2 * i + 1 < c then (xs ! 0, 0, 1)
         else if c < i \<and> ?n + c < 2 * i then (xs ! (?n - 1), l_len ?l - 1, -1)
         else (xs ! c, of_nat ?c, sign_i32 (ucast (of_nat i - of_nat ?c :: usize))))
        in walk h (of_nat i) dir k zone);
      Some (zone, ?l\<lparr>l_current := zone, l_current_i := of_nat i\<rparr>)
    }"
    unfolding list_at_def using idx
    by (simp only: if_False Let_def cur ends(1,2) split) (simp add: case_prod_beta)
  also have "\<dots> = Some (xs ! ?e, ?l\<lparr>l_current := xs ! ?e, l_current_i := of_nat i\<rparr>)"
    using w1 w2 w3 by (auto simp: insert_pos_def Let_def)
  finally show ?thesis by simp
qed

section \<open>Properties\<close>

text \<open>A concrete list for the witnesses: nodes 16 bytes apart, linked in address order.\<close>

definition ex_nodes :: nodes where
  "ex_nodes = (\<lambda>p. \<lparr>n_prev = p - 16, n_next = p + 16\<rparr>)"

definition ex_list :: "ptr list \<Rightarrow> linked_list" where
  "ex_list xs = \<lparr>l_len = of_nat (length xs), l_start = hd xs, l_end = last xs,
     l_current = NULL, l_current_i = 0\<rparr>"

lemma ex_list_rep:
  "list_rep ex_nodes (ex_list [16, 32, 48]) [16, 32, 48]"
  "list_rep ex_nodes (ex_list [16, 32, 48, 64, 80]) [16, 32, 48, 64, 80]"
  by (simp_all add: list_rep_def ex_list_def ex_nodes_def)

text \<open>
  C6: on a well-formed list, \<^verbatim>\<open>append\<close>, \<^verbatim>\<open>prepend\<close>, \<^verbatim>\<open>pop\<close>, \<^verbatim>\<open>pop_start\<close> and
  \<^verbatim>\<open>remove_p\<close> never fault and compute the operations on the sequence of nodes; an empty
  list pops \<^verbatim>\<open>NULL\<close>.
\<close>

theorem list_ops_refine:
  assumes "list_rep h l xs" and "x \<notin> set xs" and "x \<noteq> NULL"
  shows "(\<exists>h' l'. list_append h l x = Some (h', l') \<and> list_rep h' l' (xs @ [x])) \<and>
    (\<exists>h' l'. list_prepend h l x = Some (h', l') \<and> list_rep h' l' (x # xs)) \<and>
    (\<exists>l'. list_pop h l = Some (if xs = [] then NULL else last xs, l') \<and> list_rep h l' (butlast xs)) \<and>
    (\<exists>l'. list_pop_start h l = Some (if xs = [] then NULL else hd xs, l') \<and> list_rep h l' (tl xs)) \<and>
    (\<forall>y \<in> set xs. \<exists>h' l'. list_remove_p h l y = Some (h', l') \<and> list_rep h' l' (remove1 y xs))"
proof (intro conjI ballI)
  show "\<exists>l'. list_pop h l = Some (if xs = [] then NULL else last xs, l') \<and> list_rep h l' (butlast xs)"
    using list_pop_spec [OF assms(1)] list_pop_empty assms(1) by (cases "xs = []") auto
  show "\<exists>l'. list_pop_start h l = Some (if xs = [] then NULL else hd xs, l') \<and> list_rep h l' (tl xs)"
    using list_pop_start_spec [OF assms(1)] list_pop_start_empty assms(1) by (cases "xs = []") auto
qed (use list_append_spec [OF assms] list_prepend_spec [OF assms] list_remove_p_spec [OF assms(1)] in blast)+

theorem list_ops_refine_witness:
  "\<exists>h' l'. list_append ex_nodes (ex_list [16, 32, 48]) 96 = Some (h', l') \<and>
    list_rep h' l' ([16, 32, 48] @ [96])"
  using list_ops_refine [OF ex_list_rep(1), of 96] by simp

text \<open>
  \<^verbatim>\<open>operator[]\<close> returns the node at the index from whichever end or cached node it
  walks, leaves the list as it was and leaves a valid cache; out of range it returns \<^verbatim>\<open>NULL\<close>.
\<close>

theorem list_at_correct:
  assumes "list_rep h l xs" and "cache_ok l xs" and "length xs < 2 ^ 31"
  shows "if unat i < length xs
    then \<exists>l'. list_at h l i = Some (xs ! unat i, l') \<and> list_rep h l' xs \<and> cache_ok l' xs
    else list_at h l i = Some (NULL, l)"
proof (cases "unat i < length xs")
  case True
  have "list_at h l i = Some (xs ! unat i, l\<lparr>l_current := xs ! unat i, l_current_i := i\<rparr>)"
    using list_at_spec [OF assms True] by simp
  with assms(1) True show ?thesis by (auto simp: list_rep_def cache_ok_def)
next
  case False
  then show ?thesis
    using list_at_out [of l i h] list_rep_len [OF assms(1)] by (simp add: word_le_nat_alt)
qed

theorem list_at_correct_witness:
  "\<exists>l'. list_at ex_nodes (ex_list [16, 32, 48]) 2 = Some (48, l') \<and> cache_ok l' [16, 32, 48]"
  using list_at_correct [OF ex_list_rep(1), of 2]
  by (auto simp: cache_ok_def ex_list_def)

text \<open>
  \<^verbatim>\<open>append\<close>, \<^verbatim>\<open>prepend\<close> and \<^verbatim>\<open>pop\<close> keep the index cache of
  \<^verbatim>\<open>operator[]\<close> valid.
\<close>

theorem list_cache_kept:
  assumes "list_rep h l xs" and "cache_ok l xs" and "x \<notin> set xs" and "x \<noteq> NULL"
  shows "(\<exists>h' l'. list_append h l x = Some (h', l') \<and> cache_ok l' (xs @ [x])) \<and>
    (\<exists>h' l'. list_prepend h l x = Some (h', l') \<and> cache_ok l' (x # xs)) \<and>
    (\<exists>z l'. list_pop h l = Some (z, l') \<and> cache_ok l' (butlast xs))"
proof (intro conjI)
  show "\<exists>h' l'. list_append h l x = Some (h', l') \<and> cache_ok l' (xs @ [x])"
  proof -
    from list_append_spec [OF assms(1,3,4)] obtain h' l' where
      "list_append h l x = Some (h', l')" "l_current l' = l_current l" "l_current_i l' = l_current_i l"
      by blast
    moreover from this assms(2) have "cache_ok l' (xs @ [x])"
      by (auto simp: cache_ok_def nth_append)
    ultimately show ?thesis by blast
  qed
  show "\<exists>h' l'. list_prepend h l x = Some (h', l') \<and> cache_ok l' (x # xs)"
  proof -
    have "unat (l_current_i l + 1) = Suc (unat (l_current_i l))" if "unat (l_current_i l) < length xs"
      using that list_rep_length [OF assms(1)] by (simp add: unat_add_noov)
    then show ?thesis
      using list_prepend_spec [OF assms(1,3,4)] assms(2) by (auto simp: cache_ok_def)
  qed
  show "\<exists>z l'. list_pop h l = Some (z, l') \<and> cache_ok l' (butlast xs)"
  proof (cases "xs = []")
    case True
    then show ?thesis using list_pop_empty assms(1,2) by auto
  next
    case False
    from list_pop_spec [OF assms(1) False] obtain l' where l': "list_pop h l = Some (last xs, l')"
      "l_current l' = (if l_current l = last xs then NULL else l_current l)"
      "l_current_i l' = l_current_i l" by blast
    have "cache_ok l' (butlast xs)"
    proof (cases "l_current l = last xs \<or> l_current l = NULL")
      case True
      with l' show ?thesis by (auto simp: cache_ok_def)
    next
      case f: False
      with assms(2) have k: "unat (l_current_i l) < length xs" "l_current l = xs ! unat (l_current_i l)"
        by (auto simp: cache_ok_def)
      with f False have "unat (l_current_i l) \<noteq> length xs - 1" by (metis last_conv_nth)
      with k l' f show ?thesis by (auto simp: cache_ok_def nth_butlast)
    qed
    with l' show ?thesis by blast
  qed
qed

theorem list_cache_kept_witness:
  "\<exists>z l'. list_pop ex_nodes (ex_list [16, 32, 48]) = Some (z, l') \<and> cache_ok l' [16, 32]"
  using list_cache_kept [OF ex_list_rep(1), of 96] by (simp add: cache_ok_def ex_list_def)

text \<open>
  \<^verbatim>\<open>pop_start\<close> does not shift the cached index. When a node behind the first is
  cached at position \<open>k\<close>, indexing \<open>k\<close> afterwards returns the cached node, which is now at
  position \<open>k - 1\<close>: the answer is not the node at \<open>k\<close> of the remaining list.
\<close>

theorem pop_start_stale_cache:
  assumes "list_rep h l xs" and "length xs < 2 ^ 31" and "0 < k" and "Suc k < length xs"
    and "l_current l = xs ! k" and "l_current_i l = of_nat k"
  shows "\<exists>l' l''. list_pop_start h l = Some (hd xs, l') \<and> list_rep h l' (tl xs) \<and>
    list_at h l' (of_nat k) = Some (tl xs ! (k - 1), l'') \<and> tl xs ! (k - 1) \<noteq> tl xs ! k"
proof -
  have ne: "xs \<noteq> []" and d: "distinct xs" "NULL \<notin> set xs" using assms by (auto simp: list_rep_def)
  have "xs ! k \<noteq> hd xs" using d assms(3,4) ne by (simp add: hd_conv_nth nth_eq_iff_index_eq)
  with list_pop_start_spec [OF assms(1) ne] assms(5,6) obtain l' where
    l': "list_pop_start h l = Some (hd xs, l')" "list_rep h l' (tl xs)"
      "l_current l' = xs ! k" "l_current_i l' = of_nat k" by auto
  have k: "k < length (tl xs)" using assms(4) by simp
  have "xs ! k \<noteq> NULL" using d(2) assms(4) by (metis Suc_lessD nth_mem)
  moreover have "\<not> l_len l' \<le> of_nat k"
    using k list_rep_len [OF l'(2)] list_rep_length [OF l'(2)]
    by (simp add: word_le_nat_alt unat_of_nat_small del: length_tl)
  moreover have "\<not> sint (l_len l' - of_nat k - 1 :: isize) < 0"
  proof -
    have "l_len l' - of_nat k - 1 = (of_nat (length (tl xs) - 1) - of_nat k :: isize)"
      using l'(2) k by (simp add: list_rep_def of_nat_diff algebra_simps)
    moreover have "sint (of_nat (length (tl xs) - 1) - of_nat k :: isize) = int (length (tl xs) - 1) - int k"
      using k assms(2) by (intro sint_diff64) auto
    ultimately show ?thesis using k by (simp only:)
  qed
  ultimately have "list_at h l' (of_nat k) =
      Some (xs ! k, l'\<lparr>l_current := xs ! k, l_current_i := of_nat k\<rparr>)"
    using l' by (simp add: list_at_def Let_def walk_here)
  moreover have "tl xs ! (k - 1) = xs ! k" "tl xs ! k = xs ! Suc k"
    using assms(3,4) ne by (simp_all add: nth_tl)
  moreover have "xs ! k \<noteq> xs ! Suc k" using d(1) assms(4) by (simp add: nth_eq_iff_index_eq)
  ultimately show ?thesis using l' by auto
qed

theorem pop_start_stale_cache_witness:
  "\<exists>l' l''. list_pop_start ex_nodes ((ex_list [16, 32, 48])\<lparr>l_current := 32, l_current_i := 1\<rparr>) =
      Some (16, l') \<and> list_rep ex_nodes l' [32, 48] \<and> list_at ex_nodes l' 1 = Some (32, l'')"
  using pop_start_stale_cache [of ex_nodes
      "(ex_list [16, 32, 48])\<lparr>l_current := 32, l_current_i := 1\<rparr>" "[16, 32, 48]" 1]
  by (simp add: list_rep_def ex_list_def ex_nodes_def)

text \<open>
  the functional behaviour of \<^verbatim>\<open>insert\<close> strictly inside a list: the zone is linked in
  front of the node at \<open>insert_pos n c i\<close>, which is \<open>i\<close> or \<open>i - 1\<close> depending on where the cached
  node \<open>c\<close> lies, and the result is a well-formed list.
\<close>

theorem list_insert_position:
  assumes "list_rep h l xs" and "length xs < 2 ^ 30" and "0 < i" and "i < length xs"
    and "c < length xs"
    and "l_current l = xs ! c \<and> l_current_i l = of_nat c \<or> l_current l = NULL \<and> c = 0"
    and "z \<notin> set xs" and "z \<noteq> NULL" and "0 < insert_pos (length xs) c i"
  defines "e \<equiv> insert_pos (length xs) c i"
  shows "\<exists>h' l'. list_insert h l (of_nat i) z = Some (True, h', l') \<and>
    list_rep h' l' (take e xs @ z # drop e xs) \<and> l_current l' = xs ! e \<and> l_current_i l' = of_nat i"
proof -
  let ?l1 = "if of_nat i \<le> l_current_i l then l\<lparr>l_current_i := l_current_i l + 1\<rparr> else l"
  let ?l2 = "?l1\<lparr>l_len := l_len ?l1 + 1\<rparr>"
  let ?t = "xs ! e" and ?as = "take e xs"
  let ?l' = "?l2\<lparr>l_current := ?t, l_current_i := of_nat i\<rparr>"
  have e: "0 < e" "e < length xs" using assms(3-5,9) by (auto simp: e_def insert_pos_def)
  have at: "list_at h ?l2 (of_nat i) = Some (?t, ?l')"
    unfolding e_def using assms(1-6) by (rule list_at_during_insert)
  have xs: "xs = ?as @ ?t # drop (Suc e) xs" using e(2) by (rule id_take_nth_drop)
  have ne: "?as \<noteq> []" using e by auto
  have d: "distinct xs" "NULL \<notin> set xs" "chain h xs" using assms(1) by (auto simp: list_rep_def)
  have pt: "n_prev (h ?t) = last ?as"
    using d(3) ne chain_append [OF ne, of "?t # drop (Suc e) xs" h] xs by simp
  have nn: "?t \<noteq> NULL" "last ?as \<noteq> NULL"
    using d(2) e last_in_set [OF ne] in_set_takeD by (metis nth_mem)+
  have idx: "of_nat i \<le> l_len l" "of_nat i \<noteq> l_len l" "(of_nat i :: usize) \<noteq> 0"
    using assms(1-4) list_rep_len [OF assms(1)]
    by (auto simp: word_le_nat_alt unat_of_nat_small word_unat_eq_iff simp del: unat_of_nat)
  let ?h1 = "h(last ?as := (h (last ?as))\<lparr>n_next := z\<rparr>)"
  let ?h2 = "?h1(z := (?h1 z)\<lparr>n_prev := last ?as\<rparr>)"
  let ?h3 = "?h2(?t := (?h2 ?t)\<lparr>n_prev := z\<rparr>)"
  let ?h4 = "?h3(z := (?h3 z)\<lparr>n_next := ?t\<rparr>)"
  have "last ?as \<noteq> ?t"
    using d(1) xs last_in_set [OF ne] by (metis disjoint_iff distinct_append list.set_intros(1))
  then have "list_insert h l (of_nat i) z = Some (True, ?h4, ?l')"
    unfolding list_insert_def Let_def using idx at pt nn assms(8) by (simp add: heap_defs)
  moreover have "chain ?h4 (?as @ z # ?t # drop (Suc e) xs)"
    using d xs ne assms(7) by (intro chain_insert_mid [where h = h and ?h1.0 = ?h1 and ?h2.0 = ?h2 and ?h3.0 = ?h3]) auto
  then have "chain ?h4 (?as @ z # drop e xs)" using e(2) by (simp add: Cons_nth_drop_Suc)
  moreover have "distinct (?as @ z # drop e xs) \<and> NULL \<notin> set (?as @ z # drop e xs)"
    using d assms(7,8) by (auto dest: in_set_takeD in_set_dropD set_take_disj_set_drop_if_distinct)
  moreover have "hd (?as @ z # drop e xs) = hd xs" "last (?as @ z # drop e xs) = last xs"
    using ne e by (simp_all add: last_drop hd_append)
  moreover have "length (?as @ z # drop e xs) = length xs + 1" using e by simp
  ultimately have "list_rep ?h4 ?l' (?as @ z # drop e xs)"
    using assms(1) e by (auto simp: list_rep_def)
  moreover have "l_current ?l' = ?t" "l_current_i ?l' = of_nat i" by simp_all
  ultimately show ?thesis using \<open>list_insert h l (of_nat i) z = Some (True, ?h4, ?l')\<close> by blast
qed

text \<open>Witness: after indexing position 2 of five, inserting at 2 lands at position 1.\<close>

theorem list_insert_position_witness:
  "insert_pos 5 2 2 = 1 \<and> (\<exists>h' l'.
     list_insert ex_nodes ((ex_list [16, 32, 48, 64, 80])\<lparr>l_current := 48, l_current_i := 2\<rparr>) 2 96 =
       Some (True, h', l') \<and> list_rep h' l' [16, 96, 32, 48, 64, 80] \<and> l_current l' = 32 \<and> l_current_i l' = 2)"
  using list_insert_position [of ex_nodes
      "(ex_list [16, 32, 48, 64, 80])\<lparr>l_current := 48, l_current_i := 2\<rparr>"
      "[16, 32, 48, 64, 80]" 2 2 96]
  by (simp add: list_rep_def ex_list_def ex_nodes_def insert_pos_def)

text \<open>
  \<^verbatim>\<open>insert\<close> at the index that was just looked up, the way \<^verbatim>\<open>insert_virt_zone\<close> calls it,
  dereferences the \<^verbatim>\<open>prev\<close> field of the first node when the index is 1: it faults when
  that field is \<^verbatim>\<open>NULL\<close>.
\<close>

theorem list_insert_at_one_faults:
  assumes "list_rep h l xs" and "length xs < 2 ^ 30" and "2 \<le> length xs"
    and "l_current l = xs ! 1" and "l_current_i l = 1" and "n_prev (h (hd xs)) = NULL"
  shows "list_insert h l 1 z = None"
proof -
  let ?l1 = "if of_nat 1 \<le> l_current_i l then l\<lparr>l_current_i := l_current_i l + 1\<rparr> else l"
  let ?l2 = "?l1\<lparr>l_len := l_len ?l1 + 1\<rparr>"
  have "list_at h ?l2 (of_nat 1) = Some (xs ! insert_pos (length xs) 1 1,
      ?l2\<lparr>l_current := xs ! insert_pos (length xs) 1 1, l_current_i := of_nat 1\<rparr>)"
    using assms(1-5) by (intro list_at_during_insert) auto
  moreover have "xs ! insert_pos (length xs) 1 1 = hd xs"
    using assms(3) by (cases xs) (auto simp: insert_pos_def)
  ultimately have at: "list_at h ?l2 1 = Some (hd xs, ?l2\<lparr>l_current := hd xs, l_current_i := 1\<rparr>)"
    by simp
  have "xs \<noteq> []" using assms(3) by auto
  then have "hd xs \<noteq> NULL" using assms(1) hd_in_set unfolding list_rep_def by metis
  moreover have "1 \<le> l_len l" "1 \<noteq> l_len l" "l_len l \<noteq> 0"
    using assms(3) list_rep_len [OF assms(1)] by (auto simp: word_le_nat_alt)
  ultimately show ?thesis
    using at assms(5,6) by (simp add: list_insert_def heap_defs Let_def)
qed

theorem list_insert_at_one_faults_witness:
  "list_insert ex_nodes ((ex_list [16, 32, 48])\<lparr>l_current := 32, l_current_i := 1\<rparr>) 1 96 = None"
  by (rule list_insert_at_one_faults [of _ _ "[16, 32, 48]"])
     (simp_all add: list_rep_def ex_list_def ex_nodes_def)

text \<open>
  \<^verbatim>\<open>remove\<close> accepts the index one past the end: on a non-empty list it then
  dereferences the \<^verbatim>\<open>NULL\<close> that \<^verbatim>\<open>operator[]\<close> returns.
\<close>

theorem list_remove_past_end_faults:
  assumes "list_rep h l xs" and "xs \<noteq> []"
  shows "list_remove h l (of_nat (length xs)) = None"
proof -
  have len: "l_len l = of_nat (length xs)" "l_len l \<noteq> 0"
    using assms list_rep_len_0 [OF assms(1)] by (auto simp: list_rep_def)
  moreover have "l_len l - 1 \<le> l_len l"
    using len(2) by (simp add: word_le_nat_alt unat_sub_le unat_gt_0 word_le_nat_alt Suc_leI)
  ultimately show ?thesis
    by (simp add: list_remove_def list_at_def heap_defs Let_def)
qed

theorem list_remove_past_end_faults_witness:
  "list_remove ex_nodes (ex_list [16, 32, 48]) 3 = None"
  using list_remove_past_end_faults [OF ex_list_rep(1)] by simp

end
