(* ===== verification/Dyadic.thy ===== *)
theory Dyadic
  imports Prelude
begin

text \<open>
  The geometry of a buddy system, on natural numbers: a block of order \<open>k\<close> is an
  aligned interval of \<open>2 ^ k\<close> addresses, and a tiling cuts an address range into
  blocks. The physical allocator's invariant is a tiling by its free and allocated
  blocks; splitting, merging and the search for a buddy are steps between tilings.
\<close>

section \<open>Blocks\<close>

type_synonym block = "nat \<times> nat"

definition region :: "block \<Rightarrow> nat set" where
  "region p = {fst p ..< fst p + 2 ^ snd p}"

definition block_in :: "nat \<Rightarrow> nat \<Rightarrow> block \<Rightarrow> bool" where
  "block_in s e p \<longleftrightarrow> 2 ^ snd p dvd fst p \<and> s \<le> fst p \<and> fst p + 2 ^ snd p \<le> e"

definition buddy :: "nat \<Rightarrow> nat \<Rightarrow> nat" where
  "buddy c k = (if odd (c div 2 ^ k) then c - 2 ^ k else c + 2 ^ k)"

lemma region_self [simp]: "c \<in> region (c, k)"
  by (simp add: region_def)

lemma region_nonempty: "region p \<noteq> {}"
  by (simp add: region_def)

lemma dyadic_cases:
  assumes "2 ^ j dvd a" "2 ^ k dvd c" "j \<le> k"
  shows "region (a, j) \<subseteq> region (c, k) \<or> region (a, j) \<inter> region (c, k) = {}"
proof (cases "region (a, j) \<inter> region (c, k) = {}")
  case False
  then obtain x where "x \<in> region (a, j)" "x \<in> region (c, k)" by blast
  then have x: "a \<le> x" "x < a + 2 ^ j" "c \<le> x" "x < c + 2 ^ k" by (simp_all add: region_def)
  have jk: "(2 :: nat) ^ j dvd 2 ^ k" using assms(3) by (simp add: le_imp_power_dvd)
  obtain q where q: "a = 2 ^ j * q" using assms(1) by (auto elim: dvdE)
  obtain r where r: "c = 2 ^ j * r" using assms(2) jk by (meson dvd_trans dvdE)
  obtain t where t: "(2 :: nat) ^ k = 2 ^ j * t" using jk by (auto elim: dvdE)
  have p: "(0 :: nat) < 2 ^ j" by simp
  have "2 ^ j * r < 2 ^ j * (q + 1)" using x q r by (simp add: algebra_simps)
  then have 1: "r \<le> q" using p by (simp only: mult_less_cancel1) simp
  have "2 ^ j * q < 2 ^ j * (r + t)" using x q r t by (simp add: algebra_simps)
  then have 2: "q + 1 \<le> r + t" using p by (simp only: mult_less_cancel1) simp
  have "c \<le> a" using 1 q r by simp
  moreover have "2 ^ j * (q + 1) \<le> 2 ^ j * (r + t)" using 2 by (rule mult_le_mono2)
  then have "a + 2 ^ j \<le> c + 2 ^ k" using q r t by (simp add: algebra_simps)
  ultimately show ?thesis by (auto simp: region_def)
qed simp

lemma region_mono: "i \<le> j \<Longrightarrow> region (c, i) \<subseteq> region (c, j)"
proof
  fix x assume "i \<le> j" "x \<in> region (c, i)"
  moreover from this have "(2 :: nat) ^ i \<le> 2 ^ j" by (intro power_increasing) auto
  ultimately show "x \<in> region (c, j)"
    unfolding region_def fst_conv snd_conv atLeastLessThan_iff by linarith
qed

lemma region_subset_order: "region (a, j) \<subseteq> region (c, k) \<Longrightarrow> j \<le> k"
proof -
  assume "region (a, j) \<subseteq> region (c, k)"
  then have "card (region (a, j)) \<le> card (region (c, k))"
    by (intro card_mono) (auto simp: region_def)
  then show ?thesis by (simp add: region_def)
qed

lemma region_subset_block_in:
  "region (a, j) \<subseteq> region (c, k) \<Longrightarrow> block_in s e (c, k) \<Longrightarrow> 2 ^ j dvd a \<Longrightarrow> block_in s e (a, j)"
proof -
  assume a: "region (a, j) \<subseteq> region (c, k)" "block_in s e (c, k)" "2 ^ j dvd a"
  have p: "(1 :: nat) \<le> 2 ^ j" by simp
  then have "a \<in> region (a, j)" "a + 2 ^ j - 1 \<in> region (a, j)"
    unfolding region_def by (simp, simp only: atLeastLessThan_iff fst_conv snd_conv, linarith)
  with a(1) have "a \<in> region (c, k)" "a + 2 ^ j - 1 \<in> region (c, k)" by blast+
  then have "c \<le> a" "a + 2 ^ j - 1 < c + 2 ^ k"
    unfolding region_def by (simp_all only: atLeastLessThan_iff fst_conv snd_conv)
  with a(2,3) p show ?thesis by (auto simp: block_in_def)
qed

section \<open>Buddies\<close>

lemma buddy_aligned: "2 ^ k dvd c \<Longrightarrow> 2 ^ k dvd buddy c k"
  by (simp add: buddy_def dvd_diff_nat)

lemma parent_split:
  assumes "2 ^ Suc k dvd c"
  shows "buddy c k = c + 2 ^ k" "2 ^ k dvd c"
    "region (c, Suc k) = region (c, k) \<union> region (c + 2 ^ k, k)"
    "region (c, k) \<inter> region (c + 2 ^ k, k) = {}"
proof -
  obtain q where q: "c = 2 ^ Suc k * q" using assms by (auto elim: dvdE)
  then have "c div 2 ^ k = 2 * q" by simp
  then show "buddy c k = c + 2 ^ k" by (simp add: buddy_def)
  show "2 ^ k dvd c" using q by simp
qed (auto simp: region_def)

lemma buddy_min_aligned: "2 ^ k dvd c \<Longrightarrow> 2 ^ Suc k dvd min c (buddy c k)"
proof -
  assume "2 ^ k dvd c"
  then obtain q where q: "c = 2 ^ k * q" by (auto elim: dvdE)
  show ?thesis
  proof (cases "odd q")
    case True
    then obtain r where "q = 2 * r + 1" by (auto elim: oddE)
    with q have "min c (buddy c k) = 2 ^ Suc k * r" by (simp add: buddy_def algebra_simps)
    then show ?thesis by simp
  next
    case False
    then obtain r where "q = 2 * r" by (auto elim: evenE)
    with q have "min c (buddy c k) = 2 ^ Suc k * r" by (simp add: buddy_def algebra_simps)
    then show ?thesis by simp
  qed
qed

lemma buddy_max: "2 ^ k dvd c \<Longrightarrow> max c (buddy c k) = min c (buddy c k) + 2 ^ k"
proof -
  assume "2 ^ k dvd c"
  then obtain q where q: "c = 2 ^ k * q" by (auto elim: dvdE)
  show ?thesis
  proof (cases "odd q")
    case True
    then obtain r where "q = 2 * r + 1" by (auto elim: oddE)
    with q show ?thesis by (simp add: buddy_def algebra_simps)
  next
    case False
    with q show ?thesis by (simp add: buddy_def)
  qed
qed

lemma buddy_buddy: "2 ^ k dvd c \<Longrightarrow> buddy (buddy c k) k = c"
proof -
  assume "2 ^ k dvd c"
  then obtain q where q: "c = 2 ^ k * q" by (auto elim: dvdE)
  show ?thesis
  proof (cases "odd q")
    case True
    then obtain r where "q = 2 * r + 1" by (auto elim: oddE)
    with q have "c = 2 ^ k * (2 * r) + 2 ^ k" by (simp add: algebra_simps)
    moreover from this have "c div 2 ^ k = 2 * r + 1" by simp
    ultimately show ?thesis by (simp add: buddy_def)
  next
    case False
    have "c + 2 ^ k = 2 ^ k * Suc q" using q by simp
    then have "(c + 2 ^ k) div 2 ^ k = Suc q" by (metis nonzero_mult_div_cancel_left power_not_zero zero_neq_numeral)
    with False q show ?thesis by (simp add: buddy_def)
  qed
qed

lemma buddy_neq: "2 ^ k dvd c \<Longrightarrow> buddy c k \<noteq> c"
  using buddy_max [of k c] by auto

text \<open>The two halves of the parent block.\<close>

lemma buddy_regions:
  assumes "2 ^ k dvd c"
  shows "region (min c (buddy c k), Suc k) = region (c, k) \<union> region (buddy c k, k)"
    and "region (c, k) \<inter> region (buddy c k, k) = {}"
proof -
  let ?p = "min c (buddy c k)"
  note p = parent_split [OF buddy_min_aligned [OF assms]]
  have "{c, buddy c k} = {?p, ?p + 2 ^ k}" using buddy_max [OF assms] by (auto simp: min_def max_def split: if_splits)
  then consider "c = ?p" "buddy c k = ?p + 2 ^ k" | "c = ?p + 2 ^ k" "buddy c k = ?p"
    using buddy_neq [OF assms] by (auto simp: doubleton_eq_iff)
  then show "region (?p, Suc k) = region (c, k) \<union> region (buddy c k, k)"
    "region (c, k) \<inter> region (buddy c k, k) = {}"
    using p(3,4) by (cases; auto)+
qed

section \<open>Tilings\<close>

definition tiling :: "nat \<Rightarrow> nat \<Rightarrow> block set \<Rightarrow> bool" where
  "tiling s e B \<longleftrightarrow> (\<forall>p \<in> B. block_in s e p) \<and>
     (\<forall>p \<in> B. \<forall>q \<in> B. p \<noteq> q \<longrightarrow> region p \<inter> region q = {}) \<and>
     {s ..< e} \<subseteq> (\<Union>p \<in> B. region p)"

definition coalesced :: "block set \<Rightarrow> bool" where
  "coalesced B \<longleftrightarrow> (\<forall>(c, k) \<in> B. (buddy c k, k) \<notin> B)"

lemma coalesced_subset: "coalesced C \<Longrightarrow> B \<subseteq> C \<Longrightarrow> coalesced B"
  by (fastforce simp: coalesced_def)

lemma coalesced_insert:
  assumes "coalesced B" "(buddy c k, k) \<notin> B" "2 ^ k dvd c" "\<And>a j. (a, j) \<in> B \<Longrightarrow> 2 ^ j dvd a"
  shows "coalesced (insert (c, k) B)"
proof -
  have "c \<noteq> buddy a k" if "(a, k) \<in> B" for a
    using buddy_buddy [OF assms(4) [OF that]] assms(2) that by auto
  then show ?thesis
    using assms(1,2) buddy_neq [OF assms(3)] unfolding coalesced_def by auto
qed

lemma tiling_in: "tiling s e B \<Longrightarrow> p \<in> B \<Longrightarrow> block_in s e p"
  by (simp add: tiling_def)

lemma tiling_unique: "tiling s e B \<Longrightarrow> p \<in> B \<Longrightarrow> q \<in> B \<Longrightarrow> x \<in> region p \<Longrightarrow> x \<in> region q \<Longrightarrow> p = q"
  unfolding tiling_def by blast

lemma tiling_head_unique: "tiling s e B \<Longrightarrow> (c, j) \<in> B \<Longrightarrow> (c, k) \<in> B \<Longrightarrow> j = k"
  using tiling_unique [of s e B "(c, j)" "(c, k)" c] by simp

lemma tiling_cover: "tiling s e B \<Longrightarrow> s \<le> x \<Longrightarrow> x < e \<Longrightarrow> \<exists>p \<in> B. x \<in> region p"
  unfolding tiling_def by fastforce

text \<open>Replacing some blocks by others that cover the same addresses.\<close>

lemma tiling_replace:
  assumes t: "tiling s e B" and P: "P \<subseteq> B" and Q: "\<And>q. q \<in> Q \<Longrightarrow> block_in s e q"
    and d: "\<And>p q. p \<in> Q \<Longrightarrow> q \<in> Q \<Longrightarrow> p \<noteq> q \<Longrightarrow> region p \<inter> region q = {}"
    and u: "(\<Union>p \<in> Q. region p) = (\<Union>p \<in> P. region p)"
  shows "tiling s e ((B - P) \<union> Q)"
proof -
  have x: "region p \<inter> region q = {}" if "p \<in> B - P" "q \<in> Q" for p q
  proof -
    have "region p \<inter> region r = {}" if "r \<in> P" for r
      using t P that \<open>p \<in> B - P\<close> unfolding tiling_def by (metis DiffD1 DiffD2 subsetD)
    then have "region p \<inter> (\<Union>p \<in> P. region p) = {}" by blast
    then show ?thesis using u that(2) by blast
  qed
  have "{s ..< e} \<subseteq> (\<Union>p \<in> (B - P) \<union> Q. region p)"
  proof -
    have "(\<Union>p \<in> (B - P) \<union> Q. region p) = (\<Union>p \<in> B - P. region p) \<union> (\<Union>p \<in> P. region p)"
      using u by blast
    also have "\<dots> \<supseteq> (\<Union>p \<in> B. region p)" by blast
    finally show ?thesis using t unfolding tiling_def by blast
  qed
  moreover have "region p \<inter> region q = {}"
    if pq: "p \<in> (B - P) \<union> Q" "q \<in> (B - P) \<union> Q" "p \<noteq> q" for p q
  proof -
    consider "p \<in> Q" "q \<in> Q" | "p \<in> B - P" "q \<in> Q" | "p \<in> Q" "q \<in> B - P" | "p \<in> B" "q \<in> B"
      using pq by blast
    then show ?thesis
    proof cases
      case 1
      then show ?thesis using d pq(3) by simp
    next
      case 2
      then show ?thesis by (rule x)
    next
      case 3
      then show ?thesis using x [of q p] by (simp add: Int_commute)
    next
      case 4
      then show ?thesis using t pq(3) by (simp add: tiling_def)
    qed
  qed
  moreover have "\<forall>p \<in> (B - P) \<union> Q. block_in s e p"
    using t Q unfolding tiling_def by blast
  ultimately show ?thesis unfolding tiling_def by blast
qed

lemma tiling_split:
  assumes t: "tiling s e B" and p: "(c, Suc k) \<in> B"
  shows "tiling s e ((B - {(c, Suc k)}) \<union> {(c, k), (c + 2 ^ k, k)})"
proof -
  have b: "block_in s e (c, Suc k)" using t p by (rule tiling_in)
  then have d: "2 ^ Suc k dvd c" by (simp add: block_in_def)
  note s = parent_split [OF d]
  have "2 ^ k dvd c + 2 ^ k" using s(2) by simp
  with b s(2) have "block_in s e (c, k)" "block_in s e (c + 2 ^ k, k)"
    by (auto simp: block_in_def)
  then show ?thesis using s(3,4) p by (intro tiling_replace [OF t]) auto
qed

lemma block_in_buddies:
  assumes "block_in s e (c, k)" "block_in s e (buddy c k, k)"
  shows "block_in s e (min c (buddy c k), Suc k)"
  using assms buddy_min_aligned [of k c] buddy_max [of k c] by (auto simp: block_in_def)

lemma tiling_merge:
  assumes t: "tiling s e B" and p: "(c, k) \<in> B" "(buddy c k, k) \<in> B"
  shows "tiling s e ((B - {(c, k), (buddy c k, k)}) \<union> {(min c (buddy c k), Suc k)})"
proof -
  have b: "block_in s e (c, k)" "block_in s e (buddy c k, k)" using t p by (auto intro: tiling_in)
  then have d: "2 ^ k dvd c" by (simp add: block_in_def)
  have "block_in s e (min c (buddy c k), Suc k)" using b by (rule block_in_buddies)
  then show ?thesis using buddy_regions(1) [OF d] p by (intro tiling_replace [OF t]) auto
qed

text \<open>A buddy inside the range is the head of a block that is not larger.\<close>

lemma tiling_buddy_head:
  assumes t: "tiling s e B" and p: "(c, k) \<in> B" and b: "block_in s e (buddy c k, k)"
  shows "\<exists>j. (buddy c k, j) \<in> B \<and> j \<le> k"
proof -
  let ?m = "buddy c k"
  have bc: "block_in s e (c, k)" using t p by (rule tiling_in)
  then have d: "2 ^ k dvd c" by (simp add: block_in_def)
  have "(0 :: nat) < 2 ^ k" by simp
  then have "s \<le> ?m" "?m < e" using b unfolding block_in_def fst_conv snd_conv by linarith+
  then obtain a j where aj: "(a, j) \<in> B" "?m \<in> region (a, j)" using tiling_cover [OF t] by fastforce
  have da: "2 ^ j dvd a" using tiling_in [OF t aj(1)] by (simp add: block_in_def)
  show ?thesis
  proof (cases "j \<le> k")
    case True
    have "region (a, j) \<subseteq> region (?m, k)"
      using dyadic_cases [OF da _ True, of ?m] buddy_aligned [OF d] aj(2) by auto
    then have "?m \<le> a" by (metis region_self subsetD region_def atLeastLessThan_iff fst_conv)
    with aj(2) have "a = ?m" by (simp add: region_def)
    with aj True show ?thesis by blast
  next
    case False
    let ?p = "min c ?m"
    have r: "region (?p, Suc k) = region (c, k) \<union> region (?m, k)" using buddy_regions(1) [OF d] .
    have "region (?p, Suc k) \<subseteq> region (a, j)"
      using dyadic_cases [OF buddy_min_aligned [OF d] da] False aj(2) r by auto
    then have "c \<in> region (a, j)" using r by auto
    then have "(a, j) = (c, k)" using tiling_unique [OF t aj(1) p] by simp
    with False show ?thesis by simp
  qed
qed

text \<open>
  A range whose free blocks hold no buddies: every aligned block that meets no allocated
  block lies inside one free block.
\<close>

lemma coalesced_maximal:
  assumes t: "tiling s e (F \<union> A)" and co: "coalesced F"
  shows "block_in s e (a, j) \<Longrightarrow> (\<And>q. q \<in> A \<Longrightarrow> region q \<inter> region (a, j) = {}) \<Longrightarrow>
    \<exists>p \<in> F. region (a, j) \<subseteq> region p"
proof (induction j arbitrary: a)
  case 0
  then have "s \<le> a" "a < e" by (auto simp: block_in_def)
  then obtain p where p: "p \<in> F \<union> A" "a \<in> region p" using tiling_cover [OF t] by blast
  moreover have "region p \<inter> region (a, 0) \<noteq> {}" using p(2) by (auto simp: region_def)
  ultimately have "p \<in> F" using 0(2) by blast
  moreover have "region (a, 0) \<subseteq> region p" using p(2) by (auto simp: region_def)
  ultimately show ?case by blast
next
  case (Suc j)
  have d: "2 ^ Suc j dvd a" using Suc.prems(1) by (simp add: block_in_def)
  note s = parent_split [OF d]
  have in_F: "\<exists>p \<in> F. region (h, j) \<subseteq> region p" if h: "h = a \<or> h = a + 2 ^ j" for h
  proof (rule Suc.IH)
    have sub: "region (h, j) \<subseteq> region (a, Suc j)" using h s(3) by auto
    have "2 ^ j dvd h" using h s(2) by auto
    with sub Suc.prems(1) show "block_in s e (h, j)" by (rule region_subset_block_in)
    show "region q \<inter> region (h, j) = {}" if "q \<in> A" for q using Suc.prems(2) [OF that] sub by blast
  qed
  have large: "region (a, Suc j) \<subseteq> region p \<or> p = (h, j)"
    if h: "h = a \<or> h = a + 2 ^ j" and p: "p \<in> F" "region (h, j) \<subseteq> region p" for h p
  proof -
    obtain c k where ck: "p = (c, k)" by (cases p)
    have dc: "2 ^ k dvd c" using tiling_in [OF t] p(1) ck by (auto simp: block_in_def)
    have "h \<in> region (h, j)" by simp
    then have hin: "h \<in> region (a, Suc j)" "h \<in> region p" using h p(2) s(3) by auto
    have "j \<le> k" using region_subset_order p(2) ck by simp
    then consider "k = j" | "Suc j \<le> k" by linarith
    then show ?thesis
    proof cases
      case 1
      have "card (region (h, j)) = card (region p)" by (simp add: region_def ck 1)
      then have "region (h, j) = region p" using p(2) by (intro card_subset_eq) (auto simp: region_def)
      then have "h = c" unfolding ck 1 region_def by (simp add: atLeastLessThan_eq_iff)
      with ck 1 show ?thesis by simp
    next
      case 2
      then show ?thesis using dyadic_cases [OF d dc 2] hin ck by blast
    qed
  qed
  from in_F [of a] obtain p where p: "p \<in> F" "region (a, j) \<subseteq> region p" by blast
  from in_F [of "a + 2 ^ j"] obtain q where q: "q \<in> F" "region (a + 2 ^ j, j) \<subseteq> region q" by blast
  show ?case
  proof (cases "p = (a, j) \<and> q = (a + 2 ^ j, j)")
    case True
    with co p q s(1) show ?thesis by (auto simp: coalesced_def)
  next
    case False
    with large [of a p] large [of "a + 2 ^ j" q] p q show ?thesis by blast
  qed
qed

text \<open>So the coalesced tiling of a range is unique: its blocks are the maximal ones.\<close>

lemma coalesced_unique:
  assumes "tiling s e B" "coalesced B" "tiling s e C" "coalesced C"
  shows "B = C"
proof -
  have sub: "X \<subseteq> Y"
    if X: "tiling s e X" "coalesced X" and Y: "tiling s e Y" "coalesced Y" for X Y
  proof
    fix p assume p: "p \<in> X"
    obtain a j where aj: "p = (a, j)" by (cases p)
    have "\<exists>q \<in> Y. region (a, j) \<subseteq> region q"
      using coalesced_maximal [of s e Y "{}"] Y tiling_in [OF X(1) p] aj by auto
    then obtain q where q: "q \<in> Y" "region p \<subseteq> region q" using aj by blast
    obtain b i where bi: "q = (b, i)" by (cases q)
    have "\<exists>r \<in> X. region (b, i) \<subseteq> region r"
      using coalesced_maximal [of s e X "{}"] X tiling_in [OF Y(1) q(1)] bi by auto
    then obtain r where r: "r \<in> X" "region q \<subseteq> region r" using bi by blast
    have "a \<in> region p" using aj by simp
    then have "r = p" using q(2) r(2) tiling_unique [OF X(1) r(1) p, of a] by blast
    then have "region p = region q" using q r by blast
    then have "p = q" unfolding aj bi region_def by (auto simp: atLeastLessThan_eq_iff)
    with q show "p \<in> Y" by simp
  qed
  show ?thesis using sub assms by blast
qed

text \<open>A tiling whose heads carry the largest possible blocks is coalesced and bounds every block.\<close>

lemma maximal_cover:
  assumes t: "tiling s e B" and m: "\<And>c k j. (c, k) \<in> B \<Longrightarrow> block_in s e (c, j) \<Longrightarrow> j \<le> k"
    and a: "block_in s e (a, j)"
  shows "\<exists>c k. (c, k) \<in> B \<and> j \<le> k"
proof -
  have "(0 :: nat) < 2 ^ j" by simp
  then have "s \<le> a" "a < e" using a unfolding block_in_def fst_conv snd_conv by linarith+
  then obtain c k where ck: "(c, k) \<in> B" "a \<in> region (c, k)" using tiling_cover [OF t] by fastforce
  have d: "2 ^ k dvd c" "2 ^ j dvd a" using tiling_in [OF t ck(1)] a by (auto simp: block_in_def)
  have "j \<le> k"
  proof (rule ccontr)
    assume "\<not> j \<le> k"
    then have "region (c, k) \<subseteq> region (a, j)" using dyadic_cases [OF d, of] ck(2) by auto
    then have "c \<in> region (a, j)" by auto
    then have "c = a" using ck(2) by (simp add: region_def)
    then show False using m [OF ck(1)] a \<open>\<not> j \<le> k\<close> by blast
  qed
  with ck(1) show ?thesis by blast
qed

lemma maximal_coalesced:
  assumes t: "tiling s e B" and m: "\<And>c k j. (c, k) \<in> B \<Longrightarrow> block_in s e (c, j) \<Longrightarrow> j \<le> k"
  shows "coalesced B"
proof -
  have False if "(c, k) \<in> B" "(buddy c k, k) \<in> B" for c k
  proof -
    have "block_in s e (min c (buddy c k), Suc k)"
      using that t by (intro block_in_buddies tiling_in) auto
    moreover have "(min c (buddy c k), k) \<in> B" using that by (simp add: min_def)
    ultimately show False using m by fastforce
  qed
  then show ?thesis by (auto simp: coalesced_def)
qed

end
