(* ===== verification/Pmem.thy ===== *)
theory Pmem
  imports Linked_List Dyadic
begin

text \<open>
  The physical buddy allocator, \<^verbatim>\<open>src/mem/pmem.cpp\<close> and
  \<^verbatim>\<open>include/mem/pmem.hpp\<close>. Free zones carry their list node and size in place; the
  allocator's metadata bytes stand behind the range it hands out. The state is the memory
  the allocator writes, split by field, and the \<^verbatim>\<open>pallocator\<close> object. An index outside
  \<^verbatim>\<open>lists\<close>, a \<^verbatim>\<open>NULL\<close> zone and a failed assertion give \<^term>\<open>None\<close>.
  \<^verbatim>\<open>realloc\<close>, which calls back into the memory manager, is in the theory of that manager.
\<close>

section \<open>Data\<close>

record metadata =
  m_alloced :: bool
  m_order :: "7 word"

record pmem =
  pm_nodes :: nodes
  pm_zone_n :: "ptr \<Rightarrow> usize"
  pm_meta :: "ptr \<Rightarrow> metadata"
  pm_bytes :: "ptr \<Rightarrow> u8"

record pallocator =
  lists :: "nat \<Rightarrow> linked_list"
  start_addr :: usize
  end_addr :: usize
  end_meta :: usize
  first_order_size :: usize
  free_space :: usize
  fo_bits :: u8
  max_order :: u8

definition PAGE_SIZE :: usize where "PAGE_SIZE = 4096"

definition MAX_SUPPORTED_MEM_BITS :: nat where "MAX_SUPPORTED_MEM_BITS = 39"

text \<open>A \<^verbatim>\<open>pallocator\<close> in the zeroed data segment, after its constructor.\<close>

definition new_pallocator :: pallocator where
  "new_pallocator = \<lparr>lists = (\<lambda>_. new_list), start_addr = 0, end_addr = 0, end_meta = 0,
     first_order_size = 0, free_space = 0, fo_bits = 0, max_order = 0\<rparr>"

section \<open>Memory access\<close>

definition in_range :: "ptr \<Rightarrow> usize \<Rightarrow> nat \<Rightarrow> nat \<Rightarrow> bool" where
  "in_range p n y w \<longleftrightarrow> unat p \<le> y \<and> y + w \<le> unat p + unat n"

text \<open>
  \<^verbatim>\<open>memset (p, n, 0)\<close>: every field whose bytes lie inside the range becomes 0. The node
  fields of the zone at \<open>y\<close> are the words at \<open>y\<close> and \<open>y + 8\<close>, its size is the word at
  \<open>y + 16\<close>.
\<close>

definition zero_range :: "ptr \<Rightarrow> usize \<Rightarrow> pmem \<Rightarrow> pmem" where
  "zero_range p n pm = pm\<lparr>
     pm_nodes := (\<lambda>y. \<lparr>n_prev = (if in_range p n (unat y) 8 then 0 else n_prev (pm_nodes pm y)),
       n_next = (if in_range p n (unat y + 8) 8 then 0 else n_next (pm_nodes pm y))\<rparr>),
     pm_zone_n := (\<lambda>y. if in_range p n (unat y + 16) 8 then 0 else pm_zone_n pm y),
     pm_meta := (\<lambda>y. if in_range p n (unat y) 1 then \<lparr>m_alloced = False, m_order = 0\<rparr> else pm_meta pm y),
     pm_bytes := (\<lambda>y. if in_range p n (unat y) 1 then 0 else pm_bytes pm y)\<rparr>"

definition set_zone_n :: "ptr \<Rightarrow> usize \<Rightarrow> pmem \<Rightarrow> pmem option" where
  "set_zone_n z v pm = (if z = NULL then None else Some (pm\<lparr>pm_zone_n := (pm_zone_n pm)(z := v)\<rparr>))"

definition get_zone_n :: "ptr \<Rightarrow> pmem \<Rightarrow> usize option" where
  "get_zone_n z pm = (if z = NULL then None else Some (pm_zone_n pm z))"

definition set_meta :: "ptr \<Rightarrow> metadata \<Rightarrow> pmem \<Rightarrow> pmem" where
  "set_meta p v pm = pm\<lparr>pm_meta := (pm_meta pm)(p := v)\<rparr>"

text \<open>The operations of \<^verbatim>\<open>lists[i]\<close>.\<close>

definition get_list :: "pallocator \<Rightarrow> nat \<Rightarrow> linked_list option" where
  "get_list pa i = (if i < MAX_SUPPORTED_MEM_BITS then Some (lists pa i) else None)"

definition set_list :: "nat \<Rightarrow> linked_list \<Rightarrow> pallocator \<Rightarrow> pallocator" where
  "set_list i l pa = pa\<lparr>lists := (lists pa)(i := l)\<rparr>"

definition lists_append :: "nat \<Rightarrow> ptr \<Rightarrow> pmem \<Rightarrow> pallocator \<Rightarrow> (pmem \<times> pallocator) option" where
  "lists_append i z pm pa = do {
     l \<leftarrow> get_list pa i;
     (h, l) \<leftarrow> list_append (pm_nodes pm) l z;
     Some (pm\<lparr>pm_nodes := h\<rparr>, set_list i l pa)
   }"

definition lists_remove_p :: "nat \<Rightarrow> ptr \<Rightarrow> pmem \<Rightarrow> pallocator \<Rightarrow> (pmem \<times> pallocator) option" where
  "lists_remove_p i z pm pa = do {
     l \<leftarrow> get_list pa i;
     (h, l) \<leftarrow> list_remove_p (pm_nodes pm) l z;
     Some (pm\<lparr>pm_nodes := h\<rparr>, set_list i l pa)
   }"

definition lists_pop :: "nat \<Rightarrow> pmem \<Rightarrow> pallocator \<Rightarrow> (ptr \<times> pallocator) option" where
  "lists_pop i pm pa = do {
     l \<leftarrow> get_list pa i;
     (z, l) \<leftarrow> list_pop (pm_nodes pm) l;
     Some (z, set_list i l pa)
   }"

section \<open>Operations\<close>

definition get_order_size :: "pallocator \<Rightarrow> u8 \<Rightarrow> usize" where
  "get_order_size pa order = int_shl1 (unat order + unat (fo_bits pa))"

definition get_order :: "pallocator \<Rightarrow> usize \<Rightarrow> u8" where
  "get_order pa n = (let temp = log2_up n in if temp \<ge> fo_bits pa then temp - fo_bits pa else 0)"

definition get_meta :: "pallocator \<Rightarrow> usize \<Rightarrow> ptr" where
  "get_meta pa addr = ((addr - start_addr pa) div first_order_size pa) + end_addr pa"

text \<open>\<^verbatim>\<open>while (size > end_addr - temp_s) size >>= 1;\<close>\<close>

function halve_to_fit :: "usize \<Rightarrow> usize \<Rightarrow> usize" where
  "halve_to_fit room sz = (if sz > room then halve_to_fit room (drop_bit 1 sz) else sz)"
  by auto
termination
proof (relation "measure (\<lambda>(room, sz). unat sz)")
  fix room sz :: usize
  assume "room < sz"
  then have "0 < unat sz" by (simp add: word_less_nat_alt)
  moreover have "unat (drop_bit 1 sz) = unat sz div 2"
    unfolding unat_drop_bit_eq drop_bit_eq_div by (simp add: unat_div)
  ultimately show "((room, drop_bit 1 sz), room, sz) \<in> measure (\<lambda>(room, sz). unat sz)" by simp
qed simp

declare halve_to_fit.simps [simp del]

partial_function (option) init_loop :: "pmem \<Rightarrow> pallocator \<Rightarrow> usize \<Rightarrow> (pmem \<times> pallocator) option" where
  "init_loop pm pa temp_s =
     (if \<not> temp_s < end_addr pa then Some (pm, pa)
      else do {
        let size = halve_to_fit (end_addr pa - temp_s) (align_of temp_s);
        pm \<leftarrow> set_zone_n temp_s size pm;
        let pa = pa\<lparr>free_space := free_space pa + size\<rparr>;
        let order_i = log2 size - fo_bits pa;
        (pm, pa) \<leftarrow> lists_append (unat order_i) temp_s pm pa;
        let pa = (if order_i > max_order pa then pa\<lparr>max_order := order_i\<rparr> else pa);
        init_loop pm pa (temp_s + size)
      })"

definition pallocator_init ::
  "usize \<Rightarrow> usize \<Rightarrow> usize \<Rightarrow> pmem \<Rightarrow> pallocator \<Rightarrow> (pmem \<times> pallocator) option" where
  "pallocator_init start end' fos pm pa =
     (let fos = max fos PAGE_SIZE;
          temp_s = align_up start fos;
          pa = pa\<lparr>free_space := 0, start_addr := temp_s, end_meta := align_down end' fos,
            first_order_size := fos, fo_bits := log2 fos\<rparr>
      in if \<not> end_meta pa > start_addr pa then None
         else
           let diff = end_meta pa - start_addr pa;
               pa = pa\<lparr>end_addr := align_down (end_meta pa - align_up (8 * (diff div fos)) PAGE_SIZE) fos\<rparr>;
               pm = zero_range (end_addr pa) (end_meta pa - end_addr pa) pm
           in init_loop pm pa temp_s)"

text \<open>
  The splitting branch of \<^verbatim>\<open>populate_order\<close>. The recursive call \<^verbatim>\<open>populate_order (order + 1)\<close>
  converts its argument back to \<^verbatim>\<open>u8\<close>.
\<close>

definition split_zone :: "pmem \<Rightarrow> pallocator \<Rightarrow> u8 \<Rightarrow> (bool \<times> pmem \<times> pallocator) option" where
  "split_zone pm pa order = do {
     (zone, pa) \<leftarrow> lists_pop (unat order) pm pa;
     n \<leftarrow> get_zone_n zone pm;
     pm \<leftarrow> set_zone_n zone (drop_bit 1 n) pm;
     n \<leftarrow> get_zone_n zone pm;
     let zone2 = zone XOR n;
     pm \<leftarrow> set_zone_n zone2 n pm;
     if order = 0 then None
     else do {
       (pm, pa) \<leftarrow> lists_append (unat order - 1) zone pm pa;
       (pm, pa) \<leftarrow> lists_append (unat order - 1) zone2 pm pa;
       Some (True, pm, pa)
     }
   }"

partial_function (option) populate_order ::
  "pmem \<Rightarrow> pallocator \<Rightarrow> u8 \<Rightarrow> (bool \<times> pmem \<times> pallocator) option" where
  "populate_order pm pa order =
     (if order > max_order pa then Some (False, pm, pa)
      else do {
        l \<leftarrow> get_list pa (unat order);
        (b, pm, pa) \<leftarrow> (if l_len l \<noteq> 0 then Some (True, pm, pa) else populate_order pm pa (order + 1));
        if b then split_zone pm pa order else Some (False, pm, pa)
      })"

definition pa_oalloc :: "pmem \<Rightarrow> pallocator \<Rightarrow> u8 \<Rightarrow> (ptr \<times> pmem \<times> pallocator) option" where
  "pa_oalloc pm pa order =
     (if order > max_order pa then Some (NULL, pm, pa)
      else do {
        l \<leftarrow> get_list pa (unat order);
        (pm, pa) \<leftarrow> (if l_len l = 0 then map_option snd (populate_order pm pa (order + 1)) else Some (pm, pa));
        (out, pa) \<leftarrow> lists_pop (unat order) pm pa;
        if out = NULL then Some (NULL, pm, pa)
        else Some (out,
          set_meta (get_meta pa out) \<lparr>m_alloced = True, m_order = ucast order\<rparr> pm,
          pa\<lparr>free_space := free_space pa - get_order_size pa order\<rparr>)
      })"

definition pa_alloc :: "pmem \<Rightarrow> pallocator \<Rightarrow> usize \<Rightarrow> (ptr \<times> pmem \<times> pallocator) option" where
  "pa_alloc pm pa n = (if n = 0 then Some (NULL, pm, pa) else pa_oalloc pm pa (get_order pa n))"

definition pa_allocz :: "pmem \<Rightarrow> pallocator \<Rightarrow> usize \<Rightarrow> (ptr \<times> pmem \<times> pallocator) option" where
  "pa_allocz pm pa n = do {
     (out, pm, pa) \<leftarrow> pa_alloc pm pa n;
     if out = NULL then Some (NULL, pm, pa) else Some (out, zero_range out n pm, pa)
   }"

definition pa_oallocz :: "pmem \<Rightarrow> pallocator \<Rightarrow> u8 \<Rightarrow> (ptr \<times> pmem \<times> pallocator) option" where
  "pa_oallocz pm pa order = do {
     (out, pm, pa) \<leftarrow> pa_oalloc pm pa order;
     if out = NULL then Some (NULL, pm, pa)
     else Some (out, zero_range out (get_order_size pa order) pm, pa)
   }"

text \<open>The merging step of \<^verbatim>\<open>merge_order\<close>, for two free buddies of one size.\<close>

definition merge_zones :: "pmem \<Rightarrow> pallocator \<Rightarrow> u8 \<Rightarrow> ptr \<Rightarrow> ptr \<Rightarrow> (pmem \<times> pallocator) option" where
  "merge_zones pm pa order z_first z_second = do {
     (pm, pa) \<leftarrow> lists_remove_p (unat order) z_first pm pa;
     (pm, pa) \<leftarrow> lists_remove_p (unat order) z_second pm pa;
     pm \<leftarrow> set_zone_n z_first (push_bit 1 (get_order_size pa order)) pm;
     lists_append (unat order + 1) z_first pm pa
   }"

partial_function (option) merge_order ::
  "pmem \<Rightarrow> pallocator \<Rightarrow> usize \<Rightarrow> u8 \<Rightarrow> u8 \<Rightarrow> (pmem \<times> pallocator) option" where
  "merge_order pm pa addr order m_order' =
     (if order > m_order' then Some (pm, pa)
      else
        let order_s = get_order_size pa order;
            m = addr XOR order_s
        in if m < start_addr pa \<or> m + order_s > end_addr pa then Some (pm, pa)
           else if m_alloced (pm_meta pm (get_meta pa m)) then Some (pm, pa)
           else do {
             let z_first = min addr m;
             let z_second = max addr m;
             n1 \<leftarrow> get_zone_n z_first pm;
             n2 \<leftarrow> get_zone_n z_second pm;
             if n1 \<noteq> n2 then Some (pm, pa)
             else do {
               (pm, pa) \<leftarrow> merge_zones pm pa order z_first z_second;
               merge_order pm pa z_first (order + 1) m_order'
             }
           })"

definition pa_free :: "pmem \<Rightarrow> pallocator \<Rightarrow> ptr \<Rightarrow> (pmem \<times> pallocator) option" where
  "pa_free pm pa m =
     (if m < start_addr pa \<or> m \<ge> end_addr pa then Some (pm, pa)
      else
        let meta = get_meta pa m
        in if \<not> m_alloced (pm_meta pm meta) then Some (pm, pa)
           else do {
             let pm = set_meta meta ((pm_meta pm meta)\<lparr>m_alloced := False\<rparr>) pm;
             let order = ucast (m_order (pm_meta pm meta));
             let m = align_down m (get_order_size pa order);
             pm \<leftarrow> set_zone_n m (get_order_size pa order) pm;
             (pm, pa) \<leftarrow> lists_append (unat order) m pm pa;
             merge_order pm pa m order (max_order pa)
           })"

text \<open>\<^verbatim>\<open>get_space\<close> follows free zones by the order their metadata records.\<close>

partial_function (option) get_space_loop :: "pmem \<Rightarrow> pallocator \<Rightarrow> usize \<Rightarrow> usize \<Rightarrow> usize option" where
  "get_space_loop pm pa addr out =
     (let meta = pm_meta pm (get_meta pa addr)
      in if m_alloced meta then Some out
         else
           let len = get_order_size pa (ucast (m_order meta));
               out = out + len;
               addr = addr + len
           in if addr \<ge> end_addr pa then Some out else get_space_loop pm pa addr out)"

definition get_space :: "pmem \<Rightarrow> pallocator \<Rightarrow> usize \<Rightarrow> usize option" where
  "get_space pm pa addr =
     (if addr < start_addr pa \<or> addr \<ge> end_addr pa then Some 0 else get_space_loop pm pa addr 0)"

section \<open>The invariant\<close>

text \<open>
  Addresses are read as natural numbers. The geometry bounds the largest block below
  \<open>2 ^ 31\<close>, where the \<^verbatim>\<open>int\<close> shift of \<^verbatim>\<open>get_order_size\<close> is defined, and says that
  \<^verbatim>\<open>max_order\<close> is large enough for every aligned block of the range.
\<close>

abbreviation bits :: "pallocator \<Rightarrow> nat" where "bits pa \<equiv> unat (fo_bits pa)"
abbreviation maxo :: "pallocator \<Rightarrow> nat" where "maxo pa \<equiv> unat (max_order pa)"
abbreviation lo :: "pallocator \<Rightarrow> nat" where "lo pa \<equiv> unat (start_addr pa)"
abbreviation hi :: "pallocator \<Rightarrow> nat" where "hi pa \<equiv> unat (end_addr pa)"

definition geom :: "pallocator \<Rightarrow> bool" where
  "geom pa \<longleftrightarrow> 12 \<le> bits pa \<and> bits pa + maxo pa \<le> 30 \<and>
     first_order_size pa = 2 ^ bits pa \<and> 2 ^ bits pa dvd lo pa \<and> 2 ^ bits pa dvd hi pa \<and>
     0 < lo pa \<and> lo pa \<le> hi pa \<and> hi pa + 2 ^ 31 \<le> 2 ^ 64 \<and>
     hi pa + (hi pa - lo pa) div 2 ^ bits pa < 2 ^ 64 \<and>
     (\<forall>a j. block_in (lo pa) (hi pa) (a, j) \<longrightarrow> j \<le> bits pa + maxo pa)"

definition free_of :: "nat \<Rightarrow> (nat \<Rightarrow> ptr list) \<Rightarrow> block set" where
  "free_of b xss = {(unat x, b + k) | x k. k < 39 \<and> x \<in> set (xss k)}"

definition blocks_ok :: "pmem \<Rightarrow> pallocator \<Rightarrow> (nat \<Rightarrow> ptr list) \<Rightarrow> block set \<Rightarrow> bool" where
  "blocks_ok pm pa xss A \<longleftrightarrow> geom pa \<and>
     tiling (lo pa) (hi pa) (free_of (bits pa) xss \<union> A) \<and> free_of (bits pa) xss \<inter> A = {} \<and>
     (\<forall>k < 39. \<forall>x \<in> set (xss k). pm_zone_n pm x = 2 ^ (bits pa + k)) \<and>
     (\<forall>a k. (unat a, k) \<in> A \<longrightarrow>
        bits pa \<le> k \<and> m_order (pm_meta pm (get_meta pa a)) = of_nat (k - bits pa)) \<and>
     (\<forall>a. lo pa \<le> unat a \<and> unat a < hi pa \<and> 2 ^ bits pa dvd unat a \<longrightarrow>
        m_alloced (pm_meta pm (get_meta pa a)) = (\<exists>k. (unat a, k) \<in> A))"

definition pa_rep :: "pmem \<Rightarrow> pallocator \<Rightarrow> (nat \<Rightarrow> ptr list) \<Rightarrow> block set \<Rightarrow> bool" where
  "pa_rep pm pa xss A \<longleftrightarrow>
     family list_rep (pm_nodes pm) (lists pa) xss 39 \<and> blocks_ok pm pa xss A"

text \<open>
  The zone of an allocator is its range with the metadata bytes behind it. An operation of the
  allocator changes memory only there.
\<close>

definition in_zone :: "pallocator \<Rightarrow> ptr \<Rightarrow> bool" where
  "in_zone pa y \<longleftrightarrow> lo pa \<le> unat y \<and> unat y < hi pa + (hi pa - lo pa) div 2 ^ bits pa"

definition zone_off :: "pallocator \<Rightarrow> pmem \<Rightarrow> pmem \<Rightarrow> bool" where
  "zone_off pa pm pm' \<longleftrightarrow> (\<forall>y. \<not> in_zone pa y \<longrightarrow> pm_nodes pm' y = pm_nodes pm y \<and>
     pm_zone_n pm' y = pm_zone_n pm y \<and> pm_meta pm' y = pm_meta pm y \<and> pm_bytes pm' y = pm_bytes pm y)"

lemma zone_off_refl [simp]: "zone_off pa pm pm" by (simp add: zone_off_def)

lemma zone_off_trans: "zone_off pa pm pm' \<Longrightarrow> zone_off pa pm' pm'' \<Longrightarrow> zone_off pa pm pm''"
  by (simp add: zone_off_def)

lemma zone_off_lists [simp]: "zone_off (pa\<lparr>lists := ls\<rparr>) = zone_off pa" "zone_off (pa\<lparr>free_space := f\<rparr>) = zone_off pa"
  "zone_off (pa\<lparr>lists := ls, free_space := f\<rparr>) = zone_off pa"
  by (simp_all add: zone_off_def in_zone_def fun_eq_iff)

lemma zone_off_nodes:
  "zone_off pa pm pm' \<Longrightarrow> agree_off S (pm_nodes pm') h \<Longrightarrow> (\<And>y. y \<in> S \<Longrightarrow> in_zone pa y) \<Longrightarrow> zone_off pa pm (pm'\<lparr>pm_nodes := h\<rparr>)"
  unfolding zone_off_def agree_off_def
proof (intro allI impI)
  fix y assume a: "\<forall>y. \<not> in_zone pa y \<longrightarrow> pm_nodes pm' y = pm_nodes pm y \<and>
     pm_zone_n pm' y = pm_zone_n pm y \<and> pm_meta pm' y = pm_meta pm y \<and> pm_bytes pm' y = pm_bytes pm y"
    and h: "\<forall>y. y \<notin> S \<longrightarrow> h y = pm_nodes pm' y" and S: "\<And>y. y \<in> S \<Longrightarrow> in_zone pa y" and y: "\<not> in_zone pa y"
  have "h y = pm_nodes pm' y" using h S y by blast
  with a y show "pm_nodes (pm'\<lparr>pm_nodes := h\<rparr>) y = pm_nodes pm y \<and> pm_zone_n (pm'\<lparr>pm_nodes := h\<rparr>) y = pm_zone_n pm y \<and>
     pm_meta (pm'\<lparr>pm_nodes := h\<rparr>) y = pm_meta pm y \<and> pm_bytes (pm'\<lparr>pm_nodes := h\<rparr>) y = pm_bytes pm y" by simp
qed

lemma geomD:
  assumes "geom pa"
  shows "12 \<le> bits pa" "bits pa + maxo pa \<le> 30" "bits pa < 64" "maxo pa < 39"
    "first_order_size pa = 2 ^ bits pa" "2 ^ bits pa dvd lo pa" "2 ^ bits pa dvd hi pa" "0 < lo pa"
    "lo pa \<le> hi pa" "hi pa + 2 ^ 31 \<le> 2 ^ 64" "hi pa + (hi pa - lo pa) div 2 ^ bits pa < 2 ^ 64"
    "block_in (lo pa) (hi pa) (a, j) \<Longrightarrow> j \<le> bits pa + maxo pa"
  using assms unfolding geom_def by auto

lemma geom_lists [simp]: "geom (pa\<lparr>lists := ls\<rparr>) = geom pa" "geom (pa\<lparr>free_space := f\<rparr>) = geom pa"
  by (simp_all add: geom_def)

lemma get_meta_lists [simp]:
  "get_meta (pa\<lparr>lists := ls\<rparr>) = get_meta pa" "get_meta (pa\<lparr>free_space := f\<rparr>) = get_meta pa"
  by (simp_all add: get_meta_def fun_eq_iff)

lemma get_order_size_lists [simp]:
  "get_order_size (pa\<lparr>lists := ls\<rparr>) = get_order_size pa"
  "get_order_size (pa\<lparr>free_space := f\<rparr>) = get_order_size pa"
  by (simp_all add: get_order_size_def fun_eq_iff)

lemma blocks_ok_lists [simp]:
  "blocks_ok pm (pa\<lparr>lists := ls\<rparr>) xss A = blocks_ok pm pa xss A"
  "blocks_ok pm (pa\<lparr>free_space := f\<rparr>) xss A = blocks_ok pm pa xss A"
  "blocks_ok (pm\<lparr>pm_nodes := h\<rparr>) pa xss A = blocks_ok pm pa xss A"
  by (simp_all add: blocks_ok_def)

lemma in_free_of [simp]: "(unat x, b + k) \<in> free_of b xss \<longleftrightarrow> k < 39 \<and> x \<in> set (xss k)"
  by (auto simp: free_of_def)

lemma free_ofD: "(c, j) \<in> free_of b xss \<Longrightarrow> \<exists>x k. c = unat x \<and> j = b + k \<and> k < 39 \<and> x \<in> set (xss k)"
  by (auto simp: free_of_def)

lemma free_of_upd:
  "k < 39 \<Longrightarrow> free_of b (xss(k := ys)) =
    (free_of b xss - (\<lambda>x. (unat x, b + k)) ` set (xss k)) \<union> (\<lambda>x. (unat x, b + k)) ` set ys"
  by (auto simp: free_of_def split: if_splits) (metis image_eqI)

lemma order_size: "geom pa \<Longrightarrow> unat o' \<le> maxo pa \<Longrightarrow> get_order_size pa o' = 2 ^ (bits pa + unat o')"
  using int_shl1_small [of "bits pa + unat o'"] geomD(2) [of pa]
  by (simp add: get_order_size_def add.commute)

lemma unat_order_size:
  "geom pa \<Longrightarrow> unat o' \<le> maxo pa \<Longrightarrow> unat (get_order_size pa o') = 2 ^ (bits pa + unat o')"
  using geomD(2) [of pa] by (simp add: order_size unat_exp64)

subsection \<open>Metadata addresses\<close>

lemma unat_get_meta:
  assumes "geom pa" "lo pa \<le> unat a" "unat a < hi pa"
  shows "unat (get_meta pa a) = hi pa + (unat a - lo pa) div 2 ^ bits pa"
proof -
  note g = geomD [OF assms(1)]
  have "unat ((a - start_addr pa) div first_order_size pa) = (unat a - lo pa) div 2 ^ bits pa"
    using assms(2) g(3,5) by (simp add: unat_div unat_exp64 unat_sub_le word_le_nat_alt)
  moreover have "(unat a - lo pa) div 2 ^ bits pa \<le> (hi pa - lo pa) div 2 ^ bits pa"
    using assms(3) by (intro div_le_mono) simp
  ultimately show ?thesis using g(11) by (simp add: get_meta_def unat_add_noov)
qed

lemma get_meta_inj:
  assumes "geom pa" and a: "lo pa \<le> unat a" "unat a < hi pa" "2 ^ bits pa dvd unat a"
    and b: "lo pa \<le> unat b" "unat b < hi pa" "2 ^ bits pa dvd unat b"
    and e: "get_meta pa a = get_meta pa b"
  shows "a = b"
proof -
  have "(unat a - lo pa) div 2 ^ bits pa = (unat b - lo pa) div 2 ^ bits pa"
    using unat_get_meta [OF assms(1)] a b e by (metis add_left_cancel)
  moreover have "2 ^ bits pa dvd unat a - lo pa" "2 ^ bits pa dvd unat b - lo pa"
    using a(3) b(3) geomD(6) [OF assms(1)] by (auto intro: dvd_diff_nat)
  ultimately have "unat a - lo pa = unat b - lo pa" by (metis dvd_div_mult_self)
  then have "unat a = unat b" using a(1) b(1) by linarith
  then show ?thesis by (simp only: unat_inj)
qed

text \<open>Every address inside the first granule of a block shares the metadata of its head.\<close>

lemma get_meta_granule:
  assumes "geom pa" "lo pa \<le> unat a" "unat a < hi pa"
  shows "get_meta pa (align_down a (2 ^ bits pa)) = get_meta pa a"
    and "lo pa \<le> unat (align_down a (2 ^ bits pa))"
    and "2 ^ bits pa dvd unat (align_down a (2 ^ bits pa))"
proof -
  note g = geomD [OF assms(1)]
  let ?d = "2 ^ bits pa :: nat"
  have u: "unat (align_down a (2 ^ bits pa)) = unat a div ?d * ?d"
    using unat_align_down [of a "bits pa"] g(3) by simp
  show 1: "lo pa \<le> unat (align_down a (2 ^ bits pa))"
    using multiple_le_div [of ?d "lo pa" "unat a"] g(6) assms(2) u by simp
  show "2 ^ bits pa dvd unat (align_down a (2 ^ bits pa))" using u by simp
  obtain q where q: "lo pa = ?d * q" using g(6) by (auto elim: dvdE)
  obtain r where r: "unat a = ?d * q + r" using assms(2) q by (metis le_iff_add)
  have "unat a div ?d * ?d - lo pa = r div ?d * ?d" using q r by (simp add: algebra_simps)
  then have "(unat a div ?d * ?d - lo pa) div ?d = (unat a - lo pa) div ?d" using q r by simp
  moreover have "unat (align_down a (2 ^ bits pa)) < hi pa"
    using align_down_le [of a "bits pa"] assms(3) by simp
  ultimately have "unat (get_meta pa (align_down a (2 ^ bits pa))) = unat (get_meta pa a)"
    using unat_get_meta [OF assms(1)] assms(2,3) 1 u by simp
  then show "get_meta pa (align_down a (2 ^ bits pa)) = get_meta pa a" by simp
qed

subsection \<open>Steps of the list array\<close>

lemma family_append:
  assumes "family list_rep (pm_nodes pm) (lists pa) xss 39" "k < 39" "x \<notin> members xss 39" "x \<noteq> NULL"
  shows "\<exists>h ls. lists_append k x pm pa = Some (pm\<lparr>pm_nodes := h\<rparr>, pa\<lparr>lists := ls\<rparr>) \<and>
    family list_rep h ls (xss(k := xss k @ [x])) 39 \<and> agree_off (insert x (set (xss k))) (pm_nodes pm) h"
  using kl.family_app [OF assms]
  by (auto simp: lists_append_def get_list_def set_list_def MAX_SUPPORTED_MEM_BITS_def assms(2)) blast

lemma family_remove_p:
  assumes "family list_rep (pm_nodes pm) (lists pa) xss 39" "k < 39" "x \<in> set (xss k)"
  shows "\<exists>h ls. lists_remove_p k x pm pa = Some (pm\<lparr>pm_nodes := h\<rparr>, pa\<lparr>lists := ls\<rparr>) \<and>
    family list_rep h ls (xss(k := remove1 x (xss k))) 39 \<and> agree_off (set (xss k)) (pm_nodes pm) h"
  using kl.family_remp [OF assms]
  by (auto simp: lists_remove_p_def get_list_def set_list_def MAX_SUPPORTED_MEM_BITS_def assms(2)) blast

lemma family_pop:
  assumes "family list_rep (pm_nodes pm) (lists pa) xss 39" "k < 39" "xss k \<noteq> []"
  shows "\<exists>ls. lists_pop k pm pa = Some (last (xss k), pa\<lparr>lists := ls\<rparr>) \<and>
    family list_rep (pm_nodes pm) ls (xss(k := butlast (xss k))) 39"
  using kl.family_popb [OF assms]
  by (auto simp: lists_pop_def get_list_def set_list_def MAX_SUPPORTED_MEM_BITS_def assms(2))

lemma family_pop_empty:
  assumes "family list_rep (pm_nodes pm) (lists pa) xss 39" "k < 39" "xss k = []"
  shows "lists_pop k pm pa = Some (NULL, pa)"
proof -
  have "list_rep (pm_nodes pm) (lists pa k) (xss k)" using assms(1,2) by (rule familyD)
  then have "list_pop (pm_nodes pm) (lists pa k) = Some (NULL, lists pa k)"
    using assms(3) by (simp add: list_pop_empty)
  then show ?thesis
    using assms(2) by (simp add: lists_pop_def get_list_def set_list_def MAX_SUPPORTED_MEM_BITS_def)
qed

lemma family_distinct:
  "family list_rep h ls xss n \<Longrightarrow> k < n \<Longrightarrow> distinct (xss k) \<and> NULL \<notin> set (xss k)"
proof -
  assume "family list_rep h ls xss n" "k < n"
  then have "list_rep h (ls k) (xss k)" by (rule familyD)
  then show ?thesis by (simp add: list_rep_def)
qed

lemma last_butlast_sets:
  assumes "distinct xs" "xs \<noteq> []"
  shows "set xs = insert (last xs) (set (butlast xs))" "last xs \<notin> set (butlast xs)"
proof -
  have "xs = butlast xs @ [last xs]" using assms(2) by simp
  then show "set xs = insert (last xs) (set (butlast xs))" by (metis set_append list.simps(15) empty_set Un_insert_right sup_bot_right)
  show "last xs \<notin> set (butlast xs)" using assms by (rule last_notin_butlast)
qed

text \<open>The contents of the free lists after a list lost its last zone or gained one.\<close>

lemma free_of_butlast:
  assumes "k < 39" "distinct (xss k)" "xss k \<noteq> []"
  shows "free_of b (xss(k := butlast (xss k))) = free_of b xss - {(unat (last (xss k)), b + k)}"
  unfolding free_of_upd [OF assms(1)] last_butlast_sets(1) [OF assms(2,3)]
  using last_butlast_sets [OF assms(2,3)] assms(1) by (auto simp: image_iff free_of_def)

lemma free_of_remove1:
  assumes "k < 39" "distinct (xss k)"
  shows "free_of b (xss(k := remove1 x (xss k))) = free_of b xss - {(unat x, b + k)}"
  unfolding free_of_upd [OF assms(1)] using assms by (auto simp: image_iff free_of_def)

lemma free_of_append:
  assumes "k < 39"
  shows "free_of b (xss(k := xss k @ [x])) = insert (unat x, b + k) (free_of b xss)"
  unfolding free_of_upd [OF assms(1)] using assms by (auto simp: image_iff free_of_def)

subsection \<open>Blocks of the range\<close>

lemma blocks_okD:
  fixes a x :: usize
  assumes "blocks_ok pm pa xss A"
  shows "geom pa" "tiling (lo pa) (hi pa) (free_of (bits pa) xss \<union> A)" "free_of (bits pa) xss \<inter> A = {}"
    "k < 39 \<Longrightarrow> x \<in> set (xss k) \<Longrightarrow> pm_zone_n pm x = 2 ^ (bits pa + k)"
    "(unat a, j) \<in> A \<Longrightarrow> bits pa \<le> j"
    "(unat a, j) \<in> A \<Longrightarrow> m_order (pm_meta pm (get_meta pa a)) = of_nat (j - bits pa)"
    "lo pa \<le> unat a \<Longrightarrow> unat a < hi pa \<Longrightarrow> 2 ^ bits pa dvd unat a \<Longrightarrow>
      m_alloced (pm_meta pm (get_meta pa a)) = (\<exists>k. (unat a, k) \<in> A)"
  using assms unfolding blocks_ok_def by blast+

lemma free_block_in:
  "blocks_ok pm pa xss A \<Longrightarrow> k < 39 \<Longrightarrow> x \<in> set (xss k) \<Longrightarrow> block_in (lo pa) (hi pa) (unat x, bits pa + k)"
  by (rule tiling_in [OF blocks_okD(2)], assumption) simp

lemma free_order_le:
  "blocks_ok pm pa xss A \<Longrightarrow> k < 39 \<Longrightarrow> x \<in> set (xss k) \<Longrightarrow> k \<le> maxo pa"
  using geomD(12) [OF blocks_okD(1) free_block_in] by fastforce

lemma in_zone_range: "lo pa \<le> unat y \<Longrightarrow> unat y < hi pa \<Longrightarrow> in_zone pa y"
  by (simp add: in_zone_def)

lemma in_zone_lists [simp]: "in_zone (pa\<lparr>lists := ls\<rparr>) = in_zone pa" "in_zone (pa\<lparr>free_space := f\<rparr>) = in_zone pa"
  by (simp_all add: in_zone_def fun_eq_iff)

lemma free_in_zone:
  assumes "blocks_ok pm pa xss A" "k < 39" "x \<in> set (xss k)"
  shows "in_zone pa x"
proof -
  have "lo pa \<le> unat x" "unat x + 2 ^ (bits pa + k) \<le> hi pa" using free_block_in [OF assms] by (simp_all add: block_in_def)
  moreover have "(0 :: nat) < 2 ^ (bits pa + k)" by simp
  ultimately show ?thesis by (intro in_zone_range) linarith+
qed

lemma meta_in_zone:
  assumes g: "geom pa" and a: "lo pa \<le> unat a" "unat a < hi pa"
  shows "in_zone pa (get_meta pa a)"
proof -
  have d: "2 ^ bits pa dvd hi pa - lo pa" using geomD(6,7) [OF g] by (rule dvd_diff_nat [rotated])
  have "(unat a - lo pa) div 2 ^ bits pa < (hi pa - lo pa) div 2 ^ bits pa"
  proof -
    let ?d = "(2 :: nat) ^ bits pa"
    obtain q where q: "hi pa - lo pa = ?d * q" using d by (auto elim: dvdE)
    have "unat a - lo pa < ?d * q" using a q by linarith
    then have "(unat a - lo pa) div ?d < q" by (simp add: div_less_iff_less_mult mult.commute)
    then show ?thesis unfolding q by simp
  qed
  with a unat_get_meta [OF g a] show ?thesis by (simp add: in_zone_def)
qed

text \<open>A block inside another block of the tiling is not itself in the tiling.\<close>

lemma tiling_inner_notin:
  "tiling s e B \<Longrightarrow> p \<in> B \<Longrightarrow> fst q \<in> region p \<Longrightarrow> q \<noteq> p \<Longrightarrow> q \<notin> B"
  using tiling_unique [of s e B p q "fst q"] by (cases q) auto

lemma not_member:
  assumes "tiling s e (free_of b xss \<union> A)" "p \<in> free_of b xss \<union> A" "unat x \<in> region p" "unat x \<noteq> fst p"
  shows "x \<notin> members xss 39"
proof
  assume "x \<in> members xss 39"
  then obtain k where k: "k < 39" "x \<in> set (xss k)" by (auto simp: members_def)
  then have "(unat x, b + k) \<in> free_of b xss \<union> A" by simp
  then have "(unat x, b + k) = p"
    using tiling_unique [OF assms(1) _ assms(2), of "(unat x, b + k)" "unat x"] assms(3) by simp
  then have "fst p = unat x" by (metis fst_conv)
  with assms(4) show False by simp
qed

lemma members_upd_notin:
  "family rep h ls xss n \<Longrightarrow> i < n \<Longrightarrow> x \<in> set (xss i) \<Longrightarrow> x \<notin> set ys \<Longrightarrow> x \<notin> members (xss(i := ys)) n"
  by (auto simp: members_upd dest: family_disjoint)

section \<open>Splitting\<close>

definition split_lists :: "nat \<Rightarrow> nat \<Rightarrow> (nat \<Rightarrow> ptr list) \<Rightarrow> nat \<Rightarrow> ptr list" where
  "split_lists b k xss = (let z = last (xss (Suc k)) in
     xss(Suc k := butlast (xss (Suc k)), k := xss k @ [z, z + 2 ^ (b + k)]))"

lemma free_of_split:
  assumes "Suc k < 39" "distinct (xss (Suc k))" "xss (Suc k) \<noteq> []"
  shows "free_of b (split_lists b k xss) =
    (free_of b xss - {(unat (last (xss (Suc k))), b + Suc k)}) \<union>
    {(unat (last (xss (Suc k))), b + k), (unat (last (xss (Suc k)) + 2 ^ (b + k)), b + k)}"
proof -
  let ?z = "last (xss (Suc k))" and ?xs = "xss(Suc k := butlast (xss (Suc k)))"
  have "split_lists b k xss = (?xs(k := ?xs k @ [?z]))(k := (?xs(k := ?xs k @ [?z])) k @ [?z + 2 ^ (b + k)])"
    by (simp add: split_lists_def Let_def fun_eq_iff)
  moreover have "k < 39" using assms(1) by simp
  ultimately have "free_of b (split_lists b k xss) =
      insert (unat (?z + 2 ^ (b + k)), b + k) (insert (unat ?z, b + k) (free_of b ?xs))"
    by (simp only: free_of_append)
  moreover have "free_of b ?xs = free_of b xss - {(unat ?z, b + Suc k)}"
    using assms by (intro free_of_butlast)
  ultimately show ?thesis by blast
qed

text \<open>The halves of a free zone, as words.\<close>

lemma half_block:
  assumes "geom pa" "block_in (lo pa) (hi pa) (unat z, bits pa + Suc k)"
  shows "unat (z + 2 ^ (bits pa + k)) = unat z + 2 ^ (bits pa + k)"
    "z XOR 2 ^ (bits pa + k) = z + 2 ^ (bits pa + k)"
    "drop_bit 1 (2 ^ (bits pa + Suc k) :: usize) = 2 ^ (bits pa + k)"
    "bits pa + Suc k \<le> 30" "z \<noteq> NULL" "z + 2 ^ (bits pa + k) \<noteq> NULL"
proof -
  let ?j = "bits pa + k"
  note g = geomD [OF assms(1)]
  show 30: "bits pa + Suc k \<le> 30" using g(12) [OF assms(2)] g(2) by linarith
  then have e: "unat (2 ^ ?j :: usize) = 2 ^ ?j" by (simp add: unat_exp64)
  have b: "2 ^ Suc ?j dvd unat z" "lo pa \<le> unat z" "unat z + 2 ^ Suc ?j \<le> hi pa"
    using assms(2) by (auto simp: block_in_def)
  then have "unat z + 2 ^ ?j < 2 ^ 64" using unat_word_bound [of "end_addr pa"] by simp
  then show u: "unat (z + 2 ^ ?j) = unat z + 2 ^ ?j" by (simp add: unat_add_noov e)
  have "buddy (unat z) ?j = unat z + 2 ^ ?j" using b(1) by (rule parent_split(1))
  then have "unat (z XOR 2 ^ ?j) = unat (z + 2 ^ ?j)"
    using unat_xor_bit [of ?j z] 30 by (simp add: u buddy_def)
  then show "z XOR 2 ^ ?j = z + 2 ^ ?j" by (simp only: unat_inj)
  have "unat (2 ^ Suc ?j :: usize) = 2 ^ Suc ?j" using 30 by (intro unat_exp64) simp
  then have "unat (drop_bit 1 (2 ^ Suc ?j :: usize)) = unat (2 ^ ?j :: usize)"
    unfolding unat_drop_bit1 e by simp
  then have "drop_bit 1 (2 ^ Suc ?j :: usize) = 2 ^ ?j" by (simp only: unat_inj)
  then show "drop_bit 1 (2 ^ (bits pa + Suc k) :: usize) = 2 ^ ?j" by simp
  show "z \<noteq> NULL" using b(2) g(8) by auto
  show "z + 2 ^ ?j \<noteq> NULL" using u b(2) g(8) by auto
qed

lemma split_step:
  assumes r: "pa_rep pm pa xss A" and k: "Suc k < 39" and ne: "xss (Suc k) \<noteq> []"
    and o: "unat order = Suc k"
  shows "\<exists>pm' ls. split_zone pm pa order = Some (True, pm', pa\<lparr>lists := ls\<rparr>) \<and>
    pa_rep pm' (pa\<lparr>lists := ls\<rparr>) (split_lists (bits pa) k xss) A \<and>
    pm_meta pm' = pm_meta pm \<and> pm_bytes pm' = pm_bytes pm \<and> zone_off pa pm pm'"
proof -
  let ?z = "last (xss (Suc k))" and ?b = "bits pa"
  let ?h = "2 ^ (?b + k) :: usize"
  have fam: "family list_rep (pm_nodes pm) (lists pa) xss 39" and ok: "blocks_ok pm pa xss A"
    using r by (simp_all add: pa_rep_def)
  note d = family_distinct [OF fam k]
  have z: "?z \<in> set (xss (Suc k))" using ne by simp
  have zb: "block_in (lo pa) (hi pa) (unat ?z, ?b + Suc k)" using ok k z by (rule free_block_in)
  note hb = half_block [OF blocks_okD(1) [OF ok] zb]
  have zn: "pm_zone_n pm ?z = 2 ^ (?b + Suc k)" using blocks_okD(4) [OF ok k z] .
  note t = blocks_okD(2) [OF ok]
  have zT: "(unat ?z, ?b + Suc k) \<in> free_of ?b xss \<union> A" using z k in_free_of by blast
  have z2T: "unat (?z + ?h) \<in> region (unat ?z, ?b + Suc k)" using hb(1) by (simp add: region_def)
  \<comment> \<open>the list operations\<close>
  from family_pop [OF fam k ne] obtain ls1 where
    1: "lists_pop (Suc k) pm pa = Some (?z, pa\<lparr>lists := ls1\<rparr>)"
      "family list_rep (pm_nodes pm) ls1 (xss(Suc k := butlast (xss (Suc k)))) 39" by blast
  let ?xs1 = "xss(Suc k := butlast (xss (Suc k)))"
  let ?zn = "(pm_zone_n pm)(?z := ?h, ?z + ?h := ?h)"
  let ?pm = "pm\<lparr>pm_zone_n := ?zn\<rparr>"
  have fam1: "family list_rep (pm_nodes ?pm) (lists (pa\<lparr>lists := ls1\<rparr>)) ?xs1 39" using 1(2) by simp
  have "?z \<notin> members ?xs1 39"
    using members_upd_notin [OF fam k z] last_butlast_sets(2) d ne by blast
  from family_append [OF fam1 _ this hb(5), of k] k obtain h2 ls2 where
    2: "lists_append k ?z ?pm (pa\<lparr>lists := ls1\<rparr>) = Some (?pm\<lparr>pm_nodes := h2\<rparr>, pa\<lparr>lists := ls2\<rparr>)"
      "family list_rep h2 ls2 (?xs1(k := ?xs1 k @ [?z])) 39" "agree_off (insert ?z (set (xss k))) (pm_nodes pm) h2" by auto
  let ?xs2 = "?xs1(k := ?xs1 k @ [?z])"
  have "unat (?z + ?h) \<noteq> unat ?z" using hb(1) by simp
  then have neq: "?z + ?h \<noteq> ?z" by metis
  have "?z + ?h \<notin> members xss 39" using not_member [OF t zT z2T] hb(1) by simp
  then have "?z + ?h \<notin> members ?xs2 39"
    using neq k by (auto simp: members_def split: if_splits dest: in_set_butlastD)
  with family_append [of "?pm\<lparr>pm_nodes := h2\<rparr>" "pa\<lparr>lists := ls2\<rparr>" ?xs2 k "?z + ?h"] 2(2) k hb(6)
  obtain h3 ls3 where
    3: "lists_append k (?z + ?h) (?pm\<lparr>pm_nodes := h2\<rparr>) (pa\<lparr>lists := ls2\<rparr>) =
        Some (?pm\<lparr>pm_nodes := h3\<rparr>, pa\<lparr>lists := ls3\<rparr>)"
      "family list_rep h3 ls3 (?xs2(k := ?xs2 k @ [?z + ?h])) 39"
      "agree_off (insert (?z + ?h) (set (xss k @ [?z]))) h2 h3" by auto
  have zin: "in_zone pa ?z" using free_in_zone [OF ok k z] .
  have kin: "in_zone pa y" if "y \<in> set (xss k)" for y using free_in_zone [OF ok _ that] k by simp
  have z2in: "in_zone pa (?z + ?h)"
    using z2T zb by (intro in_zone_range) (auto simp: region_def block_in_def)
  have off: "zone_off pa pm (?pm\<lparr>pm_nodes := h3\<rparr>)"
  proof -
    have "zone_off pa pm ?pm" unfolding zone_off_def using zin z2in by auto
    then have "zone_off pa pm (?pm\<lparr>pm_nodes := h2\<rparr>)"
      by (rule zone_off_nodes [where S = "insert ?z (set (xss k))"]) (use 2(3) zin kin in auto)
    then have "zone_off pa pm (?pm\<lparr>pm_nodes := h2\<rparr>\<lparr>pm_nodes := h3\<rparr>)"
      by (rule zone_off_nodes [where S = "insert (?z + ?h) (set (xss k @ [?z]))"]) (use 3(3) zin z2in kin in auto)
    then show ?thesis by simp
  qed
  have xs3: "?xs2(k := ?xs2 k @ [?z + ?h]) = split_lists ?b k xss"
    by (simp add: split_lists_def Let_def fun_eq_iff)
  \<comment> \<open>the blocks\<close>
  have fo: "free_of ?b (split_lists ?b k xss) =
      (free_of ?b xss - {(unat ?z, ?b + Suc k)}) \<union> {(unat ?z, ?b + k), (unat (?z + ?h), ?b + k)}"
    using k d ne by (intro free_of_split) auto
  have zA: "(unat ?z, ?b + Suc k) \<notin> A" using blocks_okD(3) [OF ok] z k in_free_of by blast
  have n1: "(unat ?z, ?b + k) \<notin> free_of ?b xss \<union> A"
    by (rule tiling_inner_notin [OF t zT]) simp_all
  have n2: "(unat (?z + ?h), ?b + k) \<notin> free_of ?b xss \<union> A"
    by (rule tiling_inner_notin [OF t zT]) (use z2T in simp_all)
  have "blocks_ok ?pm pa (split_lists ?b k xss) A"
    unfolding blocks_ok_def
  proof (intro conjI)
    have "free_of ?b (split_lists ?b k xss) \<union> A =
        ((free_of ?b xss \<union> A) - {(unat ?z, ?b + Suc k)}) \<union> {(unat ?z, ?b + k), (unat (?z + ?h), ?b + k)}"
      using fo zA by auto
    then show "tiling (lo pa) (hi pa) (free_of ?b (split_lists ?b k xss) \<union> A)"
      using tiling_split [OF t, of "unat ?z" "?b + k"] zT hb(1) by simp
    show "free_of ?b (split_lists ?b k xss) \<inter> A = {}"
      unfolding fo using n1 n2 blocks_okD(3) [OF ok] by blast
    show "\<forall>j<39. \<forall>x\<in>set (split_lists ?b k xss j). pm_zone_n ?pm x = 2 ^ (?b + j)"
    proof (intro allI impI ballI)
      fix j x assume j: "j < 39" and x: "x \<in> set (split_lists ?b k xss j)"
      show "pm_zone_n ?pm x = 2 ^ (?b + j)"
      proof (cases "x = ?z \<or> x = ?z + ?h")
        case True
        have f: "(unat x, ?b + j) \<in> free_of ?b (split_lists ?b k xss)" using j x by simp
        have "j = k"
        proof (rule ccontr)
          assume jk: "j \<noteq> k"
          with f fo have "(unat x, ?b + j) \<in> free_of ?b xss - {(unat ?z, ?b + Suc k)}" by simp
          then have "x \<in> set (xss j)" and ne': "(unat x, ?b + j) \<noteq> (unat ?z, ?b + Suc k)" using j by auto
          have "unat x \<in> region (unat ?z, ?b + Suc k)" using True z2T by auto
          with tiling_unique [OF t _ zT, of "(unat x, ?b + j)" "unat x"] \<open>x \<in> set (xss j)\<close> j ne'
          show False by simp
        qed
        with True show ?thesis by auto
      next
        case False
        then have "x \<in> set (xss j)"
          using x by (auto simp: split_lists_def Let_def split: if_splits dest: in_set_butlastD)
        with False blocks_okD(4) [OF ok j] show ?thesis by simp
      qed
    qed
  qed (use ok in \<open>simp_all add: blocks_ok_def\<close>)
  then have rep: "pa_rep (?pm\<lparr>pm_nodes := h3\<rparr>) (pa\<lparr>lists := ls3\<rparr>) (split_lists ?b k xss) A"
    using 3(2) xs3 by (simp add: pa_rep_def)
  have "order \<noteq> 0" using o by auto
  then show ?thesis
    using 1(1) 2(1) 3(1) zn hb(2,3,5,6) rep off
    by (auto simp: split_zone_def get_zone_n_def set_zone_n_def Let_def o)
qed

lemma split_coalesced:
  assumes r: "pa_rep pm pa xss A" and k: "Suc k < 39" and ne: "xss (Suc k) \<noteq> []"
    and co: "coalesced (free_of (bits pa) xss - {(unat (last (xss (Suc k))), bits pa + Suc k)})"
  shows "coalesced (free_of (bits pa) (split_lists (bits pa) k xss) -
    {(unat (last (xss (Suc k)) + 2 ^ (bits pa + k)), bits pa + k)})"
proof -
  let ?z = "last (xss (Suc k))" and ?b = "bits pa"
  let ?h = "2 ^ (?b + k) :: usize" and ?B = "free_of ?b xss - {(unat ?z, ?b + Suc k)}"
  have fam: "family list_rep (pm_nodes pm) (lists pa) xss 39" and ok: "blocks_ok pm pa xss A"
    using r by (simp_all add: pa_rep_def)
  have z: "?z \<in> set (xss (Suc k))" using ne by simp
  have zb: "block_in (lo pa) (hi pa) (unat ?z, ?b + Suc k)" using ok k z by (rule free_block_in)
  note hb = half_block [OF blocks_okD(1) [OF ok] zb]
  have "2 ^ Suc (?b + k) dvd unat ?z" using zb by (simp add: block_in_def)
  note s = parent_split [OF this]
  note t = blocks_okD(2) [OF ok]
  have zT: "(unat ?z, ?b + Suc k) \<in> free_of ?b xss \<union> A" using z k in_free_of by blast
  have n2: "(unat (?z + ?h), ?b + k) \<notin> free_of ?b xss \<union> A"
    by (rule tiling_inner_notin [OF t zT]) (use hb(1) in \<open>simp_all add: region_def\<close>)
  have d: "2 ^ j dvd a" if "(a, j) \<in> ?B" for a j
    using tiling_in [OF t, of "(a, j)"] that by (simp add: block_in_def)
  have "(buddy (unat ?z) (?b + k), ?b + k) \<notin> ?B" using n2 s(1) hb(1) by simp
  with co have "coalesced (insert (unat ?z, ?b + k) ?B)"
    using s(2) d by (rule coalesced_insert)
  moreover have "distinct (xss (Suc k))" using family_distinct [OF fam k] by simp
  then have "free_of ?b (split_lists ?b k xss) - {(unat (?z + ?h), ?b + k)} \<subseteq> insert (unat ?z, ?b + k) ?B"
    using free_of_split [of k xss ?b] k ne by blast
  ultimately show ?thesis by (rule coalesced_subset)
qed

lemma list_len: "pa_rep pm pa xss A \<Longrightarrow> k < 39 \<Longrightarrow> l_len (lists pa k) = 0 \<longleftrightarrow> xss k = []"
  using kl.family_len_0 by (auto simp: pa_rep_def)

lemma Suc_order:
  "pa_rep pm pa xss A \<Longrightarrow> unat order \<le> maxo pa \<Longrightarrow> unat (order + 1) = Suc (unat order)" for order :: u8
proof -
  assume "pa_rep pm pa xss A" "unat order \<le> maxo pa"
  then have "unat order + 1 < 2 ^ 8" using geomD(4) [OF blocks_okD(1), of pm pa xss A] by (simp add: pa_rep_def)
  then show ?thesis by (simp add: unat_word_ariths)
qed

lemma populate_order_spec:
  assumes "pa_rep pm pa xss A" and "coalesced (free_of (bits pa) xss)"
    and "0 < unat order" and "xss (unat order - 1) = []"
  shows "if \<exists>j < 39. unat order \<le> j \<and> xss j \<noteq> []
    then \<exists>pm' ls xss' x y. populate_order pm pa order = Some (True, pm', pa\<lparr>lists := ls\<rparr>) \<and>
      pa_rep pm' (pa\<lparr>lists := ls\<rparr>) xss' A \<and> pm_meta pm' = pm_meta pm \<and> pm_bytes pm' = pm_bytes pm \<and>
      (\<forall>i < unat order - 1. xss' i = xss i) \<and> xss' (unat order - 1) = [x, y] \<and>
      coalesced (free_of (bits pa) xss' - {(unat y, bits pa + (unat order - 1))}) \<and> zone_off pa pm pm'
    else populate_order pm pa order = Some (False, pm, pa)"
  using assms
proof (induction "Suc (maxo pa) - unat order" arbitrary: order rule: less_induct)
  case less
  note r = less.prems(1)
  have ok: "blocks_ok pm pa xss A" using r by (simp add: pa_rep_def)
  show ?case
  proof (cases "unat order \<le> maxo pa")
    case False
    then have "xss j = []" if "j < 39" "unat order \<le> j" for j
      using free_order_le [OF ok that(1), of "hd (xss j)"] that(2) hd_in_set by fastforce
    moreover have "populate_order pm pa order = Some (False, pm, pa)"
      using False by (subst populate_order.simps) (simp add: word_less_nat_alt)
    ultimately show ?thesis by auto
  next
    case True
    obtain k where k: "unat order = Suc k" using less.prems(3) by (cases "unat order") auto
    have k39: "Suc k < 39" using True k geomD(4) [OF blocks_okD(1) [OF ok]] by simp
    have emp: "xss k = []" using less.prems(4) k by simp
    have unf: "populate_order pm pa order =
        (if xss (Suc k) \<noteq> [] then split_zone pm pa order
         else do {
           (b, pm, pa) \<leftarrow> populate_order pm pa (order + 1);
           if b then split_zone pm pa order else Some (False, pm, pa)
         })"
      using True k k39 list_len [OF r k39]
      by (subst populate_order.simps)
        (simp add: get_list_def MAX_SUPPORTED_MEM_BITS_def word_less_nat_alt)
    have fin: "\<exists>pm' ls xss' x y. split_zone pm1 (pa\<lparr>lists := ls1\<rparr>) order = Some (True, pm', pa\<lparr>lists := ls\<rparr>) \<and>
        pa_rep pm' (pa\<lparr>lists := ls\<rparr>) xss' A \<and> pm_meta pm' = pm_meta pm1 \<and> pm_bytes pm' = pm_bytes pm1 \<and>
        (\<forall>i < k. xss' i = xs1 i) \<and> xss' k = [x, y] \<and>
        coalesced (free_of (bits pa) xss' - {(unat y, bits pa + k)}) \<and> zone_off pa pm1 pm'"
      if a: "pa_rep pm1 (pa\<lparr>lists := ls1\<rparr>) xs1 A" "xs1 (Suc k) \<noteq> []" "xs1 k = []"
        "coalesced (free_of (bits pa) xs1 - {(unat (last (xs1 (Suc k))), bits pa + Suc k)})"
      for pm1 ls1 xs1
      using split_step [OF a(1) k39 a(2) k] split_coalesced [OF a(1) k39 a(2)] a(3,4)
      by (fastforce simp: split_lists_def Let_def)
    show ?thesis
    proof (cases "xss (Suc k) = []")
      case False
      have "coalesced (free_of (bits pa) xss - {(unat (last (xss (Suc k))), bits pa + Suc k)})"
        by (rule coalesced_subset [OF less.prems(2)]) auto
      with fin [of pm "lists pa" xss] r False emp show ?thesis
        unfolding unf using k k39 by auto
    next
      case e: True
      have o1: "unat (order + 1) = Suc (Suc k)" using Suc_order [OF r True] k by simp
      have iff: "(\<exists>j < 39. unat order \<le> j \<and> xss j \<noteq> []) \<longleftrightarrow> (\<exists>j < 39. unat (order + 1) \<le> j \<and> xss j \<noteq> [])"
        using e o1 k by (metis Suc_leD Suc_le_eq le_neq_implies_less)
      have "Suc (maxo pa) - unat (order + 1) < Suc (maxo pa) - unat order" using True k o1 by simp
      note IH0 = less.hyps [OF this r less.prems(2)]
      have IH: "if \<exists>j < 39. unat (order + 1) \<le> j \<and> xss j \<noteq> []
        then \<exists>pm' ls xss' x y. populate_order pm pa (order + 1) = Some (True, pm', pa\<lparr>lists := ls\<rparr>) \<and>
          pa_rep pm' (pa\<lparr>lists := ls\<rparr>) xss' A \<and> pm_meta pm' = pm_meta pm \<and> pm_bytes pm' = pm_bytes pm \<and>
          (\<forall>i < Suc k. xss' i = xss i) \<and> xss' (Suc k) = [x, y] \<and>
          coalesced (free_of (bits pa) xss' - {(unat y, bits pa + Suc k)}) \<and> zone_off pa pm pm'
        else populate_order pm pa (order + 1) = Some (False, pm, pa)"
        using IH0 e unfolding o1 diff_Suc_1 by blast
      show ?thesis
      proof (cases "\<exists>j < 39. unat (order + 1) \<le> j \<and> xss j \<noteq> []")
        case f: False
        with IH have "populate_order pm pa (order + 1) = Some (False, pm, pa)" by simp
        then have "populate_order pm pa order = Some (False, pm, pa)" unfolding unf using e by simp
        with f iff show ?thesis by simp
      next
        case t: True
        with IH obtain pm1 ls1 xs1 x y where
          1: "populate_order pm pa (order + 1) = Some (True, pm1, pa\<lparr>lists := ls1\<rparr>)"
            "pa_rep pm1 (pa\<lparr>lists := ls1\<rparr>) xs1 A" "pm_meta pm1 = pm_meta pm" "pm_bytes pm1 = pm_bytes pm"
            "\<forall>i < Suc k. xs1 i = xss i" "xs1 (Suc k) = [x, y]"
            "coalesced (free_of (bits pa) xs1 - {(unat y, bits pa + Suc k)})" "zone_off pa pm pm1" by (simp only: if_True) blast
        have "populate_order pm pa order = split_zone pm1 (pa\<lparr>lists := ls1\<rparr>) order"
          unfolding unf using e 1(1) by simp
        moreover have "xs1 k = []" using 1(5) emp by simp
        ultimately show ?thesis
        proof -
          assume p: "populate_order pm pa order = split_zone pm1 (pa\<lparr>lists := ls1\<rparr>) order" and e1: "xs1 k = []"
          have "xs1 (Suc k) \<noteq> []" "last (xs1 (Suc k)) = y" using 1(6) by auto
          with fin [OF 1(2) _ e1] 1(7) obtain pm' ls xss' x' y' where
            2: "split_zone pm1 (pa\<lparr>lists := ls1\<rparr>) order = Some (True, pm', pa\<lparr>lists := ls\<rparr>)"
              "pa_rep pm' (pa\<lparr>lists := ls\<rparr>) xss' A" "pm_meta pm' = pm_meta pm1" "pm_bytes pm' = pm_bytes pm1"
              "\<forall>i < k. xss' i = xs1 i" "xss' k = [x', y']"
              "coalesced (free_of (bits pa) xss' - {(unat y', bits pa + k)})" "zone_off pa pm1 pm'" by auto
          have "pm_meta pm' = pm_meta pm" "pm_bytes pm' = pm_bytes pm" using 2(3,4) 1(3,4) by simp_all
          moreover have "\<forall>i < k. xss' i = xss i" using 2(5) 1(5) by simp
          moreover have "\<exists>j < 39. unat order \<le> j \<and> xss j \<noteq> []" using t iff by blast
          ultimately show ?thesis using 2(1,2,6,7) p zone_off_trans [OF 1(8) 2(8)] unfolding k diff_Suc_1
            by (simp only: if_True) blast
        qed
      qed
    qed
  qed
qed

section \<open>Allocation\<close>

lemma tile_head:
  fixes a :: usize
  assumes "blocks_ok pm pa xss A" "(unat a, j) \<in> free_of (bits pa) xss \<union> A"
  shows "lo pa \<le> unat a" "unat a < hi pa" "2 ^ bits pa dvd unat a" "bits pa \<le> j"
    "2 ^ j dvd unat a" "unat a + 2 ^ j \<le> hi pa" "j \<le> bits pa + maxo pa"
proof -
  note g = geomD [OF blocks_okD(1) [OF assms(1)]]
  have b: "block_in (lo pa) (hi pa) (unat a, j)"
    by (rule tiling_in [OF blocks_okD(2) [OF assms(1)] assms(2)])
  then show 1: "lo pa \<le> unat a" "2 ^ j dvd unat a" "unat a + 2 ^ j \<le> hi pa" by (auto simp: block_in_def)
  have "(0 :: nat) < 2 ^ j" by simp
  with 1(3) show "unat a < hi pa" by linarith
  show bj: "bits pa \<le> j" using assms(2) blocks_okD(5) [OF assms(1)] by (auto dest: free_ofD)
  show "2 ^ bits pa dvd unat a" using bj 1(2) by (meson dvd_trans le_imp_power_dvd)
  show "j \<le> bits pa + maxo pa" using b by (rule g(12))
qed

lemma get_meta_head_inj:
  fixes a b :: usize
  assumes "blocks_ok pm pa xss A" "(unat a, j) \<in> free_of (bits pa) xss \<union> A"
    and "lo pa \<le> unat b" "unat b < hi pa" "2 ^ bits pa dvd unat b" "get_meta pa b = get_meta pa a"
  shows "b = a"
  using get_meta_inj [OF blocks_okD(1) [OF assms(1)] assms(3-5)] tile_head [OF assms(1,2)] assms(6) by blast

lemma take_step:
  assumes r: "pa_rep pm pa xss A" and k: "unat order = k" "k < 39" and ne: "xss k \<noteq> []"
  shows "\<exists>ls. lists_pop k pm pa = Some (last (xss k), pa\<lparr>lists := ls\<rparr>) \<and> last (xss k) \<noteq> NULL \<and>
    pa_rep (set_meta (get_meta pa (last (xss k))) \<lparr>m_alloced = True, m_order = ucast order\<rparr> pm)
      (pa\<lparr>lists := ls\<rparr>) (xss(k := butlast (xss k))) (insert (unat (last (xss k)), bits pa + k) A)"
proof -
  let ?z = "last (xss k)" and ?b = "bits pa"
  let ?p = "(unat ?z, ?b + k)" and ?xs = "xss(k := butlast (xss k))"
  let ?pm = "set_meta (get_meta pa ?z) \<lparr>m_alloced = True, m_order = ucast order\<rparr> pm"
  have fam: "family list_rep (pm_nodes pm) (lists pa) xss 39" and ok: "blocks_ok pm pa xss A"
    using r by (simp_all add: pa_rep_def)
  note d = family_distinct [OF fam k(2)]
  have z: "?z \<in> set (xss k)" using ne by simp
  have zT: "?p \<in> free_of ?b xss \<union> A" using z k(2) by simp
  have fo: "free_of ?b ?xs = free_of ?b xss - {?p}" using k d ne by (intro free_of_butlast) auto
  note ok' = blocks_okD [OF ok]
  have "blocks_ok ?pm pa ?xs (insert ?p A)"
    unfolding blocks_ok_def
  proof (intro conjI allI impI ballI)
    have "free_of ?b ?xs \<union> insert ?p A = free_of ?b xss \<union> A" unfolding fo using zT by blast
    then show "tiling (lo pa) (hi pa) (free_of ?b ?xs \<union> insert ?p A)" using ok'(2) by simp
    show "free_of ?b ?xs \<inter> insert ?p A = {}" unfolding fo using ok'(3) by blast
    fix j x assume "j < 39" "x \<in> set (?xs j)"
    then have "x \<in> set (xss j)" by (auto split: if_splits dest: in_set_butlastD)
    then show "pm_zone_n ?pm x = 2 ^ (?b + j)" using ok'(4) \<open>j < 39\<close> by (simp add: set_meta_def)
  next
    fix a :: usize and j assume a: "(unat a, j) \<in> insert ?p A"
    show "?b \<le> j" using a ok'(5) by auto
    have aT: "(unat a, j) \<in> free_of ?b xss \<union> A" using a zT by auto
    show "m_order (pm_meta ?pm (get_meta pa a)) = of_nat (j - ?b)"
    proof (cases "a = ?z")
      case True
      then have "j = ?b + k" using tiling_head_unique [OF ok'(2) aT, of "?b + k"] zT by simp
      with True show ?thesis by (simp add: set_meta_def flip: k(1))
    next
      case False
      then have "get_meta pa a \<noteq> get_meta pa ?z"
        using get_meta_head_inj [OF ok zT tile_head(1-3) [OF ok aT]] by blast
      with False a ok'(6) show ?thesis by (auto simp: set_meta_def)
    qed
  next
    fix a :: usize assume a: "lo pa \<le> unat a \<and> unat a < hi pa \<and> 2 ^ ?b dvd unat a"
    show "m_alloced (pm_meta ?pm (get_meta pa a)) = (\<exists>j. (unat a, j) \<in> insert ?p A)"
    proof (cases "a = ?z")
      case True
      then show ?thesis by (auto simp: set_meta_def)
    next
      case False
      then have "get_meta pa a \<noteq> get_meta pa ?z" using get_meta_head_inj [OF ok zT] a by blast
      with False a ok'(7) show ?thesis by (simp add: set_meta_def)
    qed
  qed (use ok'(1) in simp)
  moreover have "?z \<noteq> NULL" using d z by auto
  ultimately show ?thesis
    using family_pop [OF fam k(2) ne] by (auto simp: pa_rep_def set_meta_def)
qed

lemma pa_oalloc_spec:
  assumes r: "pa_rep pm pa xss A" and co: "coalesced (free_of (bits pa) xss)"
  shows "if \<exists>j < 39. unat order \<le> j \<and> xss j \<noteq> []
    then \<exists>z pm' ls xss'. pa_oalloc pm pa order = Some (z, pm',
        pa\<lparr>lists := ls, free_space := free_space pa - get_order_size pa order\<rparr>) \<and> z \<noteq> NULL \<and>
      pa_rep pm' (pa\<lparr>lists := ls\<rparr>) xss' (insert (unat z, bits pa + unat order) A) \<and>
      (unat z, bits pa + unat order) \<notin> A \<and>
      coalesced (free_of (bits pa) xss') \<and> pm_bytes pm' = pm_bytes pm \<and> zone_off pa pm pm'
    else pa_oalloc pm pa order = Some (NULL, pm, pa)"
proof (cases "unat order \<le> maxo pa")
  case False
  have ok: "blocks_ok pm pa xss A" using r by (simp add: pa_rep_def)
  have "xss j = []" if "j < 39" "unat order \<le> j" for j
    using free_order_le [OF ok that(1), of "hd (xss j)"] that(2) False hd_in_set by fastforce
  moreover have "pa_oalloc pm pa order = Some (NULL, pm, pa)"
    using False by (simp add: pa_oalloc_def word_less_nat_alt)
  ultimately show ?thesis by auto
next
  case True
  have ok: "blocks_ok pm pa xss A" using r by (simp add: pa_rep_def)
  let ?o = "unat order"
  have o39: "?o < 39" using True geomD(4) [OF blocks_okD(1) [OF ok]] by simp
  have fin: "\<exists>z ls' xss'. do {
        (out, pa) \<leftarrow> lists_pop ?o pm1 (pa\<lparr>lists := ls1\<rparr>);
        if out = NULL then Some (NULL, pm1, pa)
        else Some (out, set_meta (get_meta pa out) \<lparr>m_alloced = True, m_order = ucast order\<rparr> pm1,
          pa\<lparr>free_space := free_space pa - get_order_size pa order\<rparr>) } =
      Some (z, set_meta (get_meta pa z) \<lparr>m_alloced = True, m_order = ucast order\<rparr> pm1,
        pa\<lparr>lists := ls', free_space := free_space pa - get_order_size pa order\<rparr>) \<and> z \<noteq> NULL \<and>
      pa_rep (set_meta (get_meta pa z) \<lparr>m_alloced = True, m_order = ucast order\<rparr> pm1)
        (pa\<lparr>lists := ls'\<rparr>) xss' (insert (unat z, bits pa + ?o) A) \<and>
      (unat z, bits pa + ?o) \<notin> A \<and> coalesced (free_of (bits pa) xss') \<and>
      zone_off pa pm1 (set_meta (get_meta pa z) \<lparr>m_alloced = True, m_order = ucast order\<rparr> pm1)"
    if a: "pa_rep pm1 (pa\<lparr>lists := ls1\<rparr>) xs1 A" "xs1 ?o \<noteq> []"
      "coalesced (free_of (bits pa) xs1 - {(unat (last (xs1 ?o)), bits pa + ?o)})"
    for pm1 ls1 xs1
  proof -
    from take_step [OF a(1) refl o39 a(2)] obtain ls where
      ls: "lists_pop ?o pm1 (pa\<lparr>lists := ls1\<rparr>) = Some (last (xs1 ?o), pa\<lparr>lists := ls\<rparr>)"
        "last (xs1 ?o) \<noteq> NULL"
        "pa_rep (set_meta (get_meta pa (last (xs1 ?o))) \<lparr>m_alloced = True, m_order = ucast order\<rparr> pm1)
          (pa\<lparr>lists := ls\<rparr>) (xs1(?o := butlast (xs1 ?o)))
          (insert (unat (last (xs1 ?o)), bits pa + ?o) A)" by auto
    have "distinct (xs1 ?o)" using family_distinct [OF _ o39] a(1) by (auto simp: pa_rep_def)
    then have co1: "coalesced (free_of (bits pa) (xs1(?o := butlast (xs1 ?o))))"
      using a(2,3) o39 by (simp add: free_of_butlast)
    have "last (xs1 ?o) \<in> set (xs1 ?o)" using a(2) by simp
    then have "(unat (last (xs1 ?o)), bits pa + ?o) \<in> free_of (bits pa) xs1" using o39 by simp
    moreover have b1: "blocks_ok pm1 pa xs1 A" using a(1) by (simp add: pa_rep_def)
    ultimately have "(unat (last (xs1 ?o)), bits pa + ?o) \<notin> A" using blocks_okD(3) by blast
    moreover have "in_zone pa (get_meta pa (last (xs1 ?o)))"
      using tile_head(1,2) [OF b1, of "last (xs1 ?o)" "bits pa + ?o"] a(2) o39
      by (intro meta_in_zone [OF blocks_okD(1) [OF b1]]) auto
    then have "zone_off pa pm1 (set_meta (get_meta pa (last (xs1 ?o))) \<lparr>m_alloced = True, m_order = ucast order\<rparr> pm1)"
      by (auto simp: zone_off_def set_meta_def)
    ultimately show ?thesis
      using ls co1 by (intro exI [of _ "last (xs1 ?o)"] exI [of _ ls] exI [of _ "xs1(?o := butlast (xs1 ?o))"]) simp
  qed
  have unf: "pa_oalloc pm pa order = do {
      (pm, pa) \<leftarrow> (if xss ?o = [] then map_option snd (populate_order pm pa (order + 1)) else Some (pm, pa));
      (out, pa) \<leftarrow> lists_pop ?o pm pa;
      if out = NULL then Some (NULL, pm, pa)
      else Some (out, set_meta (get_meta pa out) \<lparr>m_alloced = True, m_order = ucast order\<rparr> pm,
        pa\<lparr>free_space := free_space pa - get_order_size pa order\<rparr>)
    }"
    using True list_len [OF r o39] o39
    by (simp add: pa_oalloc_def get_list_def MAX_SUPPORTED_MEM_BITS_def word_less_nat_alt)
  show ?thesis
  proof (cases "xss ?o = []")
    case False
    have "coalesced (free_of (bits pa) xss - {(unat (last (xss ?o)), bits pa + ?o)})"
      by (rule coalesced_subset [OF co]) auto
    from fin [of pm "lists pa" xss, OF _ False this] r False show ?thesis
      unfolding unf using o39 by (auto simp: set_meta_def) blast
  next
    case e: True
    have o1: "unat (order + 1) = Suc ?o" using Suc_order [OF r True] .
    have iff: "(\<exists>j < 39. ?o \<le> j \<and> xss j \<noteq> []) \<longleftrightarrow> (\<exists>j < 39. Suc ?o \<le> j \<and> xss j \<noteq> [])"
      using e by (metis Suc_leD Suc_le_eq le_neq_implies_less)
    note pop = populate_order_spec [OF r co, of "order + 1", unfolded o1 diff_Suc_1, OF _ e, simplified]
    show ?thesis
    proof (cases "\<exists>j < 39. Suc ?o \<le> j \<and> xss j \<noteq> []")
      case f: False
      with pop have "populate_order pm pa (order + 1) = Some (False, pm, pa)" by (simp only: if_False)
      moreover have "lists_pop ?o pm pa = Some (NULL, pa)"
        using r o39 e family_pop_empty [of pm pa xss ?o] by (simp add: pa_rep_def)
      ultimately have "pa_oalloc pm pa order = Some (NULL, pm, pa)" unfolding unf using e by simp
      with f iff show ?thesis by simp
    next
      case t: True
      with pop obtain pm1 ls1 xs1 x y where
        1: "populate_order pm pa (order + 1) = Some (True, pm1, pa\<lparr>lists := ls1\<rparr>)"
          "pa_rep pm1 (pa\<lparr>lists := ls1\<rparr>) xs1 A" "pm_bytes pm1 = pm_bytes pm" "xs1 ?o = [x, y]"
          "coalesced (free_of (bits pa) xs1 - {(unat y, bits pa + ?o)})" "zone_off pa pm pm1" by (simp only: if_True) blast
      have "xs1 ?o \<noteq> []" "last (xs1 ?o) = y" using 1(4) by auto
      with fin [OF 1(2)] 1(5) obtain z ls' xss' where
        2: "do {
            (out, pa) \<leftarrow> lists_pop ?o pm1 (pa\<lparr>lists := ls1\<rparr>);
            if out = NULL then Some (NULL, pm1, pa)
            else Some (out, set_meta (get_meta pa out) \<lparr>m_alloced = True, m_order = ucast order\<rparr> pm1,
              pa\<lparr>free_space := free_space pa - get_order_size pa order\<rparr>) } =
          Some (z, set_meta (get_meta pa z) \<lparr>m_alloced = True, m_order = ucast order\<rparr> pm1,
            pa\<lparr>lists := ls', free_space := free_space pa - get_order_size pa order\<rparr>)" "z \<noteq> NULL"
          "pa_rep (set_meta (get_meta pa z) \<lparr>m_alloced = True, m_order = ucast order\<rparr> pm1)
            (pa\<lparr>lists := ls'\<rparr>) xss' (insert (unat z, bits pa + ?o) A)"
          "(unat z, bits pa + ?o) \<notin> A" "coalesced (free_of (bits pa) xss')"
          "zone_off pa pm1 (set_meta (get_meta pa z) \<lparr>m_alloced = True, m_order = ucast order\<rparr> pm1)" by auto
      have "pa_oalloc pm pa order = Some (z, set_meta (get_meta pa z) \<lparr>m_alloced = True, m_order = ucast order\<rparr> pm1,
            pa\<lparr>lists := ls', free_space := free_space pa - get_order_size pa order\<rparr>)"
        unfolding unf using e 1(1) 2(1) by simp
      moreover have "pm_bytes (set_meta (get_meta pa z) \<lparr>m_alloced = True, m_order = ucast order\<rparr> pm1) = pm_bytes pm"
        using 1(3) by (simp add: set_meta_def)
      moreover have "\<exists>j < 39. ?o \<le> j \<and> xss j \<noteq> []" using t iff by blast
      ultimately show ?thesis using 2(2-5) zone_off_trans [OF 1(6) 2(6)] by (simp only: if_True) blast
    qed
  qed
qed

section \<open>Merging\<close>

definition merged_lists :: "nat \<Rightarrow> ptr \<Rightarrow> ptr \<Rightarrow> (nat \<Rightarrow> ptr list) \<Rightarrow> nat \<Rightarrow> ptr list" where
  "merged_lists k f s xss = (let ys = remove1 s (remove1 f (xss k)) in
     xss(k := ys, Suc k := xss (Suc k) @ [f]))"

lemma free_of_merged:
  assumes "Suc k < 39" "distinct (xss k)"
  shows "free_of b (merged_lists k f s xss) =
    insert (unat f, b + Suc k) (free_of b xss - {(unat f, b + k), (unat s, b + k)})"
proof -
  let ?x1 = "xss(k := remove1 f (xss k))"
  let ?x2 = "?x1(k := remove1 s (?x1 k))"
  have "merged_lists k f s xss = ?x2(Suc k := ?x2 (Suc k) @ [f])"
    by (simp add: merged_lists_def Let_def fun_eq_iff)
  then have "free_of b (merged_lists k f s xss) = insert (unat f, b + Suc k) (free_of b ?x2)"
    using free_of_append [OF assms(1), of b ?x2] by metis
  moreover have "distinct (?x1 k)" using assms(2) by simp
  then have "free_of b ?x2 = free_of b ?x1 - {(unat s, b + k)}"
    using assms(1) by (intro free_of_remove1) auto
  moreover have "free_of b ?x1 = free_of b xss - {(unat f, b + k)}"
    using assms by (intro free_of_remove1) auto
  ultimately show ?thesis by blast
qed

text \<open>The address arithmetic of a buddy.\<close>

lemma buddy_words:
  fixes addr :: usize
  assumes g: "geom pa" and b: "block_in (lo pa) (hi pa) (unat addr, bits pa + k)" and k: "k \<le> maxo pa"
  defines "m \<equiv> addr XOR 2 ^ (bits pa + k)"
  shows "unat m = buddy (unat addr) (bits pa + k)"
    "unat (min addr m) = min (unat addr) (unat m)" "unat (max addr m) = max (unat addr) (unat m)"
    "m < start_addr pa \<or> m + 2 ^ (bits pa + k) > end_addr pa \<longleftrightarrow>
      \<not> block_in (lo pa) (hi pa) (unat m, bits pa + k)"
proof -
  let ?j = "bits pa + k"
  have j: "?j \<le> 30" using geomD(2) [OF g] k by linarith
  show u: "unat m = buddy (unat addr) ?j"
    using unat_xor_bit [of ?j addr] j by (simp add: m_def buddy_def)
  show "unat (min addr m) = min (unat addr) (unat m)" "unat (max addr m) = max (unat addr) (unat m)"
    by (simp_all add: min_def max_def word_le_nat_alt)
  have "2 ^ ?j dvd unat addr" "unat addr + 2 ^ ?j \<le> hi pa" using b by (auto simp: block_in_def)
  then have d: "2 ^ ?j dvd unat m" unfolding u by (simp add: buddy_aligned)
  have e: "unat (2 ^ ?j :: usize) = 2 ^ ?j" using j by (simp add: unat_exp64)
  have "unat m \<le> unat addr + 2 ^ ?j" unfolding u buddy_def by (simp add: trans_le_add1)
  moreover have "(2 :: nat) ^ ?j \<le> 2 ^ 30" using j by (intro power_increasing) auto
  ultimately have "unat m + 2 ^ ?j < 2 ^ 64"
    using \<open>unat addr + 2 ^ ?j \<le> hi pa\<close> geomD(10) [OF g] by simp
  then have "unat (m + 2 ^ ?j) = unat m + 2 ^ ?j" by (simp add: unat_add_noov e)
  with d show "m < start_addr pa \<or> m + 2 ^ ?j > end_addr pa \<longleftrightarrow>
      \<not> block_in (lo pa) (hi pa) (unat m, ?j)"
    by (auto simp: block_in_def word_less_nat_alt)
qed

lemma push_exp: "j < 63 \<Longrightarrow> push_bit 1 (2 ^ j :: usize) = 2 ^ Suc j"
  by (simp add: push_bit_eq_mult)

lemma pm_swap: "pm\<lparr>pm_nodes := h, pm_zone_n := z\<rparr> = pm\<lparr>pm_zone_n := z, pm_nodes := h\<rparr>"
  by simp

lemma merge_step:
  fixes addr :: usize
  assumes r: "pa_rep pm pa xss A" and k: "Suc k < 39" and o: "unat order = k"
    and in1: "addr \<in> set (xss k)" and in2: "addr XOR 2 ^ (bits pa + k) \<in> set (xss k)"
  defines "m \<equiv> addr XOR 2 ^ (bits pa + k)"
  shows "\<exists>h ls. merge_zones pm pa order (min addr m) (max addr m) =
      Some (pm\<lparr>pm_zone_n := (pm_zone_n pm)(min addr m := 2 ^ (bits pa + Suc k)), pm_nodes := h\<rparr>,
        pa\<lparr>lists := ls\<rparr>) \<and>
    pa_rep (pm\<lparr>pm_zone_n := (pm_zone_n pm)(min addr m := 2 ^ (bits pa + Suc k)), pm_nodes := h\<rparr>)
      (pa\<lparr>lists := ls\<rparr>) (merged_lists k (min addr m) (max addr m) xss) A \<and>
    (unat (min addr m), bits pa + Suc k) \<in> free_of (bits pa) (merged_lists k (min addr m) (max addr m) xss) \<and>
    Suc k \<le> maxo pa \<and>
    zone_off pa pm (pm\<lparr>pm_zone_n := (pm_zone_n pm)(min addr m := 2 ^ (bits pa + Suc k)), pm_nodes := h\<rparr>)"
proof -
  let ?b = "bits pa" and ?f = "min addr m" and ?s = "max addr m"
  have fam: "family list_rep (pm_nodes pm) (lists pa) xss 39" and ok: "blocks_ok pm pa xss A"
    using r by (simp_all add: pa_rep_def)
  note ok' = blocks_okD [OF ok]
  have k': "k < 39" using k by simp
  note d = family_distinct [OF fam k']
  have ab: "block_in (lo pa) (hi pa) (unat addr, ?b + k)" using ok k' in1 by (rule free_block_in)
  have mb: "block_in (lo pa) (hi pa) (unat m, ?b + k)" using ok k' in2 unfolding m_def by (rule free_block_in)
  have kM: "k \<le> maxo pa" using ok k' in1 by (rule free_order_le)
  note bw = buddy_words [OF ok'(1) ab kM, folded m_def]
  have al: "2 ^ (?b + k) dvd unat addr" using ab by (simp add: block_in_def)
  have neq: "m \<noteq> addr" using buddy_neq [OF al] bw(1) by auto
  then have fs: "?f \<noteq> ?s" "?f \<in> set (xss k)" "?s \<in> set (xss k)"
    using in1 in2 by (auto simp: min_def max_def m_def)
  have minb: "min (unat addr) (buddy (unat addr) (?b + k)) = unat ?f" using bw by simp
  have pb: "block_in (lo pa) (hi pa) (unat ?f, ?b + Suc k)"
    using block_in_buddies [OF ab] mb bw(1) minb by simp
  then have SkM: "Suc k \<le> maxo pa" using geomD(12) [OF ok'(1)] by fastforce
  have f0: "?f \<noteq> NULL" using fs(2) d by auto
  \<comment> \<open>the list operations\<close>
  let ?x1 = "xss(k := remove1 ?f (xss k))"
  let ?x2 = "?x1(k := remove1 ?s (?x1 k))"
  let ?zn = "(pm_zone_n pm)(?f := 2 ^ (?b + Suc k))"
  from family_remove_p [OF fam k' fs(2)] obtain h1 ls1 where
    1: "lists_remove_p k ?f pm pa = Some (pm\<lparr>pm_nodes := h1\<rparr>, pa\<lparr>lists := ls1\<rparr>)"
      "family list_rep h1 ls1 ?x1 39" "agree_off (set (xss k)) (pm_nodes pm) h1" by blast
  have "?s \<in> set (?x1 k)" using fs d by (simp add: in_set_remove1)
  with family_remove_p [of "pm\<lparr>pm_nodes := h1\<rparr>" "pa\<lparr>lists := ls1\<rparr>" ?x1 k ?s] 1(2) k' obtain h2 ls2 where
    2: "lists_remove_p k ?s (pm\<lparr>pm_nodes := h1\<rparr>) (pa\<lparr>lists := ls1\<rparr>) =
        Some (pm\<lparr>pm_nodes := h2\<rparr>, pa\<lparr>lists := ls2\<rparr>)"
      "family list_rep h2 ls2 ?x2 39" "agree_off (set (?x1 k)) h1 h2" by auto
  have "?f \<notin> set (remove1 ?s (?x1 k))" using d by (simp add: set_remove1_eq)
  then have "?f \<notin> members (xss(k := remove1 ?s (?x1 k))) 39"
    using members_upd_notin [OF fam k' fs(2)] by blast
  then have "?f \<notin> members ?x2 39" by simp
  with family_append [of "pm\<lparr>pm_zone_n := ?zn, pm_nodes := h2\<rparr>" "pa\<lparr>lists := ls2\<rparr>" ?x2 "Suc k" ?f]
    2(2) k f0 obtain h3 ls3 where
    3: "lists_append (Suc k) ?f (pm\<lparr>pm_zone_n := ?zn, pm_nodes := h2\<rparr>) (pa\<lparr>lists := ls2\<rparr>) =
        Some (pm\<lparr>pm_zone_n := ?zn, pm_nodes := h3\<rparr>, pa\<lparr>lists := ls3\<rparr>)"
      "family list_rep h3 ls3 (?x2(Suc k := ?x2 (Suc k) @ [?f])) 39"
      "agree_off (insert ?f (set (xss (Suc k)))) h2 h3" by auto
  have fin: "in_zone pa ?f" using free_in_zone [OF ok k' fs(2)] .
  have off: "zone_off pa pm (pm\<lparr>pm_zone_n := ?zn, pm_nodes := h3\<rparr>)"
  proof -
    have "zone_off pa pm (pm\<lparr>pm_zone_n := ?zn\<rparr>)" unfolding zone_off_def using fin by auto
    then have "zone_off pa pm (pm\<lparr>pm_zone_n := ?zn\<rparr>\<lparr>pm_nodes := h1\<rparr>)"
      by (rule zone_off_nodes [where S = "set (xss k)"]) (use 1(3) free_in_zone [OF ok k'] in auto)
    then have "zone_off pa pm (pm\<lparr>pm_zone_n := ?zn\<rparr>\<lparr>pm_nodes := h1\<rparr>\<lparr>pm_nodes := h2\<rparr>)"
      by (rule zone_off_nodes [where S = "set (?x1 k)"]) (use 2(3) free_in_zone [OF ok k'] in \<open>auto intro: free_in_zone [OF ok k', OF set_mp [OF set_remove1_subset]]\<close>)
    then have "zone_off pa pm (pm\<lparr>pm_zone_n := ?zn\<rparr>\<lparr>pm_nodes := h1\<rparr>\<lparr>pm_nodes := h2\<rparr>\<lparr>pm_nodes := h3\<rparr>)"
      by (rule zone_off_nodes [where S = "insert ?f (set (xss (Suc k)))"]) (use 3(3) fin free_in_zone [OF ok k] in auto)
    then show ?thesis by simp
  qed
  have x3: "?x2(Suc k := ?x2 (Suc k) @ [?f]) = merged_lists k ?f ?s xss"
    by (simp add: merged_lists_def Let_def fun_eq_iff)
  \<comment> \<open>the blocks\<close>
  let ?pm = "pm\<lparr>pm_zone_n := ?zn\<rparr>" and ?F = "free_of ?b xss"
  let ?X = "merged_lists k ?f ?s xss"
  have fo: "free_of ?b ?X = insert (unat ?f, ?b + Suc k) (?F - {(unat ?f, ?b + k), (unat ?s, ?b + k)})"
    using k d by (intro free_of_merged) auto
  have pairs: "{(unat ?f, ?b + k), (unat ?s, ?b + k)} =
      {(unat addr, ?b + k), (buddy (unat addr) (?b + k), ?b + k)}"
    using bw(1) by (auto simp: min_def max_def)
  have inF: "(unat addr, ?b + k) \<in> ?F" "(buddy (unat addr) (?b + k), ?b + k) \<in> ?F"
    using in1 in2 k' bw(1) by (simp_all add: m_def flip: bw(1))
  have new: "(unat ?f, ?b + Suc k) \<notin> ?F \<union> A"
  proof
    assume "(unat ?f, ?b + Suc k) \<in> ?F \<union> A"
    moreover have "(unat ?f, ?b + k) \<in> ?F \<union> A" using fs(2) k' by simp
    ultimately have "?b + Suc k = ?b + k" by (rule tiling_head_unique [OF ok'(2)])
    then show False by simp
  qed
  have "blocks_ok ?pm pa ?X A"
    unfolding blocks_ok_def
  proof (intro conjI)
    have "free_of ?b ?X \<union> A = ((?F \<union> A) - {(unat addr, ?b + k), (buddy (unat addr) (?b + k), ?b + k)}) \<union>
        {(unat ?f, Suc (?b + k))}"
      unfolding fo pairs using ok'(3) inF unfolding add_Suc_right by blast
    then show "tiling (lo pa) (hi pa) (free_of ?b ?X \<union> A)"
      using tiling_merge [OF ok'(2), of "unat addr" "?b + k"] inF minb by simp
    show "free_of ?b ?X \<inter> A = {}" unfolding fo using ok'(3) new by blast
    show "\<forall>j<39. \<forall>x\<in>set (?X j). pm_zone_n ?pm x = 2 ^ (?b + j)"
    proof (intro allI impI ballI)
      fix j x assume j: "j < 39" and x: "x \<in> set (?X j)"
      then have xF: "(unat x, ?b + j) \<in> free_of ?b ?X" by simp
      show "pm_zone_n ?pm x = 2 ^ (?b + j)"
      proof (cases "x = ?f")
        case True
        have "j = Suc k"
        proof (rule ccontr)
          assume "j \<noteq> Suc k"
          with xF True have a: "(unat ?f, ?b + j) \<in> ?F" "j \<noteq> k" unfolding fo by auto
          have "(unat ?f, ?b + k) \<in> ?F" using fs(2) k' by simp
          then show False using a tiling_head_unique [OF ok'(2), of "unat ?f" "?b + j" "?b + k"] by simp
        qed
        with True show ?thesis by simp
      next
        case False
        with xF have "(unat x, ?b + j) \<in> ?F" unfolding fo by auto
        then show ?thesis using ok'(4) False j by simp
      qed
    qed
  qed (use ok in \<open>simp_all add: blocks_ok_def\<close>)
  then have "pa_rep (pm\<lparr>pm_zone_n := ?zn, pm_nodes := h3\<rparr>) (pa\<lparr>lists := ls3\<rparr>) ?X A"
    using 3(2) x3 by (simp add: pa_rep_def)
  moreover have "push_bit 1 (get_order_size pa order) = 2 ^ (?b + Suc k)"
    using order_size [OF ok'(1), of order] kM o geomD(2) [OF ok'(1)] by (simp add: push_exp)
  ultimately show ?thesis
    using 1(1) 2(1) 3(1) f0 SkM fo off
    by (intro exI [of _ h3] exI [of _ ls3]) (simp add: merge_zones_def o set_zone_n_def pm_swap)
qed

text \<open>A free head whose buddy is not a free block of the same size.\<close>

lemma coalesced_whole:
  assumes "tiling s e (F \<union> A)" "coalesced (F - {(c, k)})" "(buddy c k, k) \<notin> F" "(c, k) \<in> F"
  shows "coalesced F"
proof -
  have d: "2 ^ j dvd a" if "(a, j) \<in> F" for a j
    using tiling_in [OF assms(1), of "(a, j)"] that by (simp add: block_in_def)
  have "coalesced (insert (c, k) (F - {(c, k)}))"
    using assms(2-4) d by (intro coalesced_insert) auto
  moreover have "insert (c, k) (F - {(c, k)}) = F" using assms(4) by auto
  ultimately show ?thesis by simp
qed

lemma merge_order_spec:
  fixes addr :: usize
  assumes "pa_rep pm pa xss A" and "unat order < 39" and "addr \<in> set (xss (unat order))"
    and "coalesced (free_of (bits pa) xss - {(unat addr, bits pa + unat order)})"
  shows "\<exists>pm' ls xss'. merge_order pm pa addr order (max_order pa) = Some (pm', pa\<lparr>lists := ls\<rparr>) \<and>
    pa_rep pm' (pa\<lparr>lists := ls\<rparr>) xss' A \<and> coalesced (free_of (bits pa) xss') \<and>
    pm_meta pm' = pm_meta pm \<and> pm_bytes pm' = pm_bytes pm \<and> zone_off pa pm pm'"
  using assms
proof (induction "39 - unat order" arbitrary: order addr pm pa xss rule: less_induct)
  case less
  note r = less.prems(1)
  let ?k = "unat order" and ?b = "bits pa"
  let ?m = "addr XOR 2 ^ (?b + ?k)"
  let ?F = "free_of ?b xss" and ?M = "max_order pa"
  have ok: "blocks_ok pm pa xss A" using r by (simp add: pa_rep_def)
  note ok' = blocks_okD [OF ok]
  have ab: "block_in (lo pa) (hi pa) (unat addr, ?b + ?k)" using ok less.prems(2,3) by (rule free_block_in)
  have kM: "?k \<le> maxo pa" using ok less.prems(2,3) by (rule free_order_le)
  have j30: "?b + ?k \<le> 30" using geomD(2) [OF ok'(1)] kM by linarith
  have os: "get_order_size pa order = 2 ^ (?b + ?k)" using order_size [OF ok'(1) kM] .
  note bw = buddy_words [OF ok'(1) ab kM]
  have aF: "(unat addr, ?b + ?k) \<in> ?F" using less.prems(2,3) by simp
  have unf: "merge_order pm pa addr order (max_order pa) =
      (if \<not> block_in (lo pa) (hi pa) (unat ?m, ?b + ?k) \<or> m_alloced (pm_meta pm (get_meta pa ?m))
       then Some (pm, pa)
       else do {
         n1 \<leftarrow> get_zone_n (min addr ?m) pm;
         n2 \<leftarrow> get_zone_n (max addr ?m) pm;
         if n1 \<noteq> n2 then Some (pm, pa)
         else do {
           (pm, pa) \<leftarrow> merge_zones pm pa order (min addr ?m) (max addr ?m);
           merge_order pm pa (min addr ?m) (order + 1) ?M
         }
       })"
  proof -
    have "\<not> order > max_order pa" using kM by (simp add: word_less_nat_alt)
    then show ?thesis
      by (subst merge_order.simps) (simp only: if_False Let_def os bw(4) if_same_or simp_thms)
  qed
  have stop: ?case if "merge_order pm pa addr order (max_order pa) = Some (pm, pa)" "?m \<notin> set (xss ?k)"
  proof -
    have "(buddy (unat addr) (?b + ?k), ?b + ?k) \<notin> ?F" using that(2) by (simp flip: bw(1))
    with ok'(2) less.prems(4) have "coalesced ?F" using aF by (rule coalesced_whole)
    with that(1) r show ?case by (intro exI [of _ pm] exI [of _ "lists pa"] exI [of _ xss]) simp
  qed
  show ?case
  proof (cases "block_in (lo pa) (hi pa) (unat ?m, ?b + ?k)")
    case False
    then have "?m \<notin> set (xss ?k)" using free_block_in [OF ok less.prems(2)] by blast
    with False show ?thesis by (intro stop) (simp_all add: unf)
  next
    case mb: True
    have aT: "(unat addr, ?b + ?k) \<in> ?F \<union> A" using aF by simp
    from tiling_buddy_head [OF ok'(2) aT] mb bw(1) obtain j where
      j: "(unat ?m, j) \<in> ?F \<union> A" by auto
    note mh = tile_head [OF ok j]
    show ?thesis
    proof (cases "m_alloced (pm_meta pm (get_meta pa ?m))")
      case True
      then obtain i where i: "(unat ?m, i) \<in> A" using ok'(7) [OF mh(1-3)] by blast
      have "?m \<notin> set (xss ?k)"
      proof
        assume "?m \<in> set (xss ?k)"
        then have f: "(unat ?m, ?b + ?k) \<in> ?F" using less.prems(2) by simp
        then have "?b + ?k = i" using tiling_head_unique [OF ok'(2)] i by blast
        with f i ok'(3) show False by blast
      qed
      with True show ?thesis by (intro stop) (simp_all add: unf)
    next
      case nal: False
      then have "(unat ?m, j) \<in> ?F" using j ok'(7) [OF mh(1-3)] by blast
      then obtain i where i: "j = ?b + i" "i < 39" "?m \<in> set (xss i)" by (auto dest: free_ofD)
      have zm: "pm_zone_n pm ?m = 2 ^ (?b + i)" using ok'(4) i(2,3) .
      have za: "pm_zone_n pm addr = 2 ^ (?b + ?k)" using ok'(4) less.prems(2,3) .
      have nn: "?m \<noteq> NULL" "addr \<noteq> NULL"
        using geomD(8) [OF ok'(1)] mh(1) tile_head(1) [OF ok aT] by auto
      have i30: "?b + i \<le> 30" using mh(7) i(1) geomD(2) [OF ok'(1)] by linarith
      have "(2 ^ (?b + i) :: usize) = 2 ^ (?b + ?k) \<longleftrightarrow> unat (2 ^ (?b + i) :: usize) = unat (2 ^ (?b + ?k) :: usize)"
        by (simp only: unat_inj)
      also have "\<dots> \<longleftrightarrow> i = ?k" using i30 j30 by (simp add: unat_exp64)
      finally have eq: "(2 ^ (?b + i) :: usize) = 2 ^ (?b + ?k) \<longleftrightarrow> i = ?k" .
      have sizes: "pm_zone_n pm (min addr ?m) \<noteq> pm_zone_n pm (max addr ?m) \<longleftrightarrow> i \<noteq> ?k"
        using zm za eq by (auto simp: min_def max_def)
      have mn: "min addr ?m \<noteq> NULL" "max addr ?m \<noteq> NULL" using nn by (simp_all add: min_def max_def)
      show ?thesis
      proof (cases "i = ?k")
        case False
        have "?m \<notin> set (xss ?k)"
          using family_disjoint [of list_rep "pm_nodes pm" "lists pa" xss 39 i ?k ?m] r i(2,3) less.prems(2) False
          by (auto simp: pa_rep_def)
        moreover have "merge_order pm pa addr order (max_order pa) = Some (pm, pa)"
          unfolding unf using mb nal mn sizes False by (simp add: get_zone_n_def)
        ultimately show ?thesis by (intro stop)
      next
        case True
        have mk: "?m \<in> set (xss ?k)" using i True by simp
        have "block_in (lo pa) (hi pa) (min (unat addr) (unat ?m), Suc (?b + ?k))"
          using block_in_buddies [OF ab] mb bw(1) by simp
        then have Sk: "Suc ?k < 39" using geomD(12) [OF ok'(1)] geomD(1,2) [OF ok'(1)] by fastforce
        let ?f = "min addr ?m" and ?X = "merged_lists ?k (min addr ?m) (max addr ?m) xss"
        let ?pm = "\<lambda>h. pm\<lparr>pm_zone_n := (pm_zone_n pm)(?f := 2 ^ (?b + Suc ?k)), pm_nodes := h\<rparr>"
        from merge_step [OF r Sk refl less.prems(3) mk] obtain h ls where
          mz: "merge_zones pm pa order ?f (max addr ?m) = Some (?pm h, pa\<lparr>lists := ls\<rparr>)"
          and 2: "pa_rep (?pm h) (pa\<lparr>lists := ls\<rparr>) ?X A" "(unat ?f, ?b + Suc ?k) \<in> free_of ?b ?X"
            "zone_off pa pm (?pm h)"
          by blast
        have 1: "merge_order pm pa addr order ?M = merge_order (?pm h) (pa\<lparr>lists := ls\<rparr>) ?f (order + 1) ?M"
          unfolding unf using mb nal mn sizes True mz by (simp add: get_zone_n_def)
        have o1: "unat (order + 1) = Suc ?k" using Suc_order [OF r kM] .
        have d: "distinct (xss ?k)" using family_distinct r less.prems(2) by (auto simp: pa_rep_def)
        have "free_of ?b ?X - {(unat ?f, ?b + Suc ?k)} \<subseteq> ?F - {(unat addr, ?b + ?k)}"
          using free_of_merged [of ?k xss ?b ?f "max addr ?m", OF Sk d] by (auto simp: min_def max_def)
        then have "coalesced (free_of ?b ?X - {(unat ?f, ?b + Suc ?k)})"
          by (rule coalesced_subset [OF less.prems(4)])
        moreover have "?f \<in> set (?X (Suc ?k))" using 2(2) in_free_of by blast
        moreover have "39 - unat (order + 1) < 39 - unat order" using Sk o1 by simp
        ultimately obtain pm' ls' xss' where
          3: "merge_order (?pm h) (pa\<lparr>lists := ls\<rparr>) ?f (order + 1) ?M = Some (pm', pa\<lparr>lists := ls'\<rparr>)"
            "pa_rep pm' (pa\<lparr>lists := ls'\<rparr>) xss' A" "coalesced (free_of ?b xss')" "pm_meta pm' = pm_meta pm"
            "pm_bytes pm' = pm_bytes pm" "zone_off pa (?pm h) pm'"
          using less.hyps [of "order + 1" "?pm h" "pa\<lparr>lists := ls\<rparr>" ?X ?f] 2(1) Sk o1 by auto
        have "merge_order pm pa addr order ?M = Some (pm', pa\<lparr>lists := ls'\<rparr>)" unfolding 1 by (rule 3(1))
        with 3(2-5) zone_off_trans [OF 2(3) 3(6)] show ?thesis by blast
      qed
    qed
  qed
qed

section \<open>Freeing\<close>

lemma aligned_div:
  fixes c x d :: nat
  assumes "d dvd c" "c \<le> x" "x < c + d"
  shows "x div d * d = c"
proof -
  obtain q where q: "c = d * q" using assms(1) by (auto elim: dvdE)
  have "0 < d" using assms(2,3) by linarith
  obtain r where r: "x = c + r" using assms(2) by (metis le_iff_add)
  with assms(3) have "r < d" by simp
  then have "x div d = q" using q r \<open>0 < d\<close> by simp
  then show ?thesis using q by simp
qed

lemma pa_free_spec:
  fixes p a :: usize
  assumes r: "pa_rep pm pa xss A" and co: "coalesced (free_of (bits pa) xss)"
    and a: "(unat a, j) \<in> A" and p: "unat a \<le> unat p" "unat p < unat a + 2 ^ bits pa"
  shows "\<exists>pm' ls xss'. pa_free pm pa p = Some (pm', pa\<lparr>lists := ls\<rparr>) \<and>
    pa_rep pm' (pa\<lparr>lists := ls\<rparr>) xss' (A - {(unat a, j)}) \<and> coalesced (free_of (bits pa) xss') \<and>
    pm_bytes pm' = pm_bytes pm \<and> zone_off pa pm pm'"
proof -
  let ?b = "bits pa" and ?F = "free_of (bits pa) xss"
  have fam: "family list_rep (pm_nodes pm) (lists pa) xss 39" and ok: "blocks_ok pm pa xss A"
    using r by (simp_all add: pa_rep_def)
  note ok' = blocks_okD [OF ok]
  note g = geomD [OF ok'(1)]
  have aT: "(unat a, j) \<in> ?F \<union> A" using a by simp
  note h = tile_head [OF ok aT]
  obtain k where k: "j = ?b + k" using h(4) by (metis le_iff_add)
  have kM: "k \<le> maxo pa" "k < 39" using h(7) k g(4) by simp_all
  let ?meta = "get_meta pa p"
  have le: "(2 :: nat) ^ ?b \<le> 2 ^ j" using h(4) by (intro power_increasing) auto
  have in_r: "lo pa \<le> unat p" "unat p < hi pa" using h(1,6) p le by linarith+
  have down: "unat (align_down p (2 ^ i)) = unat p div 2 ^ i * 2 ^ i" for i by (rule unat_align_down)
  have pa0: "align_down p (2 ^ ?b) = a"
    using down [of ?b] aligned_div [OF h(3) p] by (simp flip: unat_inj)
  have paj: "align_down p (2 ^ j) = a"
    using down [of j] aligned_div [OF h(5) p(1)] p(2) le by (simp flip: unat_inj)
  have meta: "?meta = get_meta pa a" using get_meta_granule(1) [OF ok'(1) in_r] pa0 by simp
  have al: "m_alloced (pm_meta pm ?meta)" using ok'(7) [OF h(1-3)] a meta by auto
  let ?order = "ucast (m_order (pm_meta pm ?meta)) :: u8"
  have "m_order (pm_meta pm ?meta) = of_nat k" using ok'(6) [OF a] meta k by simp
  then have o: "unat ?order = k"
    using kM(2) by (simp add: unsigned_ucast_eq unsigned_of_nat take_bit_nat_eq_self)
  have os: "get_order_size pa ?order = 2 ^ j" using order_size [OF ok'(1), of ?order] o kM k by simp
  have a0: "a \<noteq> NULL" using h(1) g(8) by auto
  have notm: "a \<notin> members xss 39"
  proof
    assume "a \<in> members xss 39"
    then obtain i where i: "i < 39" "a \<in> set (xss i)" by (auto simp: members_def)
    then have f: "(unat a, ?b + i) \<in> ?F" by simp
    then have "?b + i = j" using tiling_head_unique [OF ok'(2)] aT by blast
    with f a ok'(3) show False by blast
  qed
  let ?pm = "(set_meta ?meta ((pm_meta pm ?meta)\<lparr>m_alloced := False\<rparr>) pm)\<lparr>pm_zone_n := (pm_zone_n pm)(a := 2 ^ j)\<rparr>"
  let ?X = "xss(k := xss k @ [a])" and ?A = "A - {(unat a, j)}"
  from family_append [OF _ kM(2) notm a0, of ?pm pa] fam obtain h1 ls1 where
    1: "lists_append k a ?pm pa = Some (?pm\<lparr>pm_nodes := h1\<rparr>, pa\<lparr>lists := ls1\<rparr>)"
      "family list_rep h1 ls1 ?X 39" "agree_off (insert a (set (xss k))) (pm_nodes pm) h1" by (auto simp: set_meta_def)
  have ain: "in_zone pa a" "in_zone pa ?meta"
    using h(1,2) meta_in_zone [OF ok'(1) h(1,2)] meta by (simp_all add: in_zone_range)
  have off1: "zone_off pa pm (?pm\<lparr>pm_nodes := h1\<rparr>)"
  proof -
    have "zone_off pa pm ?pm" unfolding zone_off_def using ain by (auto simp: set_meta_def)
    then show ?thesis
      by (rule zone_off_nodes [where S = "insert a (set (xss k))"])
        (use 1(3) ain free_in_zone [OF ok kM(2)] in \<open>auto simp: set_meta_def\<close>)
  qed
  have fo: "free_of ?b ?X = insert (unat a, j) ?F" using free_of_append [OF kM(2)] k by simp
  have "blocks_ok ?pm pa ?X ?A"
    unfolding blocks_ok_def
  proof (intro conjI allI impI ballI)
    have "free_of ?b ?X \<union> ?A = ?F \<union> A" unfolding fo using a by blast
    then show "tiling (lo pa) (hi pa) (free_of ?b ?X \<union> ?A)" using ok'(2) by simp
    show "free_of ?b ?X \<inter> ?A = {}" unfolding fo using ok'(3) by blast
    fix i x assume i: "i < 39" and x: "x \<in> set (?X i)"
    show "pm_zone_n ?pm x = 2 ^ (?b + i)"
    proof (cases "x = a")
      case True
      with x notm i have "i = k" by (auto simp: members_def split: if_splits)
      with True k show ?thesis by (simp add: set_meta_def)
    next
      case False
      with x have "x \<in> set (xss i)" by (auto split: if_splits)
      with False ok'(4) i show ?thesis by (simp add: set_meta_def)
    qed
  next
    fix c :: usize and i assume c: "(unat c, i) \<in> ?A"
    then show "?b \<le> i" using ok'(5) by blast
    have cT: "(unat c, i) \<in> ?F \<union> A" using c by blast
    have "c \<noteq> a" using tiling_head_unique [OF ok'(2) cT, of j] aT c by auto
    then have "get_meta pa c \<noteq> ?meta"
      using get_meta_head_inj [OF ok aT tile_head(1-3) [OF ok cT]] meta by metis
    then show "m_order (pm_meta ?pm (get_meta pa c)) = of_nat (i - ?b)"
      using ok'(6) c by (simp add: set_meta_def)
  next
    fix c :: usize assume c: "lo pa \<le> unat c \<and> unat c < hi pa \<and> 2 ^ ?b dvd unat c"
    show "m_alloced (pm_meta ?pm (get_meta pa c)) = (\<exists>i. (unat c, i) \<in> ?A)"
    proof (cases "c = a")
      case True
      have "(unat a, i) \<notin> ?A" for i using tiling_head_unique [OF ok'(2), of "unat a" i j] aT by auto
      with True meta show ?thesis by (simp add: set_meta_def)
    next
      case False
      then have "get_meta pa c \<noteq> ?meta" using get_meta_head_inj [OF ok aT] c meta by metis
      with False c ok'(7) show ?thesis by (simp add: set_meta_def)
    qed
  qed (use ok'(1) in simp)
  then have r1: "pa_rep (?pm\<lparr>pm_nodes := h1\<rparr>) (pa\<lparr>lists := ls1\<rparr>) ?X ?A"
    using 1(2) by (simp add: pa_rep_def)
  have "coalesced (free_of ?b ?X - {(unat a, ?b + k)})"
    by (rule coalesced_subset [OF co]) (use fo k in auto)
  with merge_order_spec [OF r1, of ?order a] o kM(2) obtain pm' ls' xss' where
    2: "merge_order (?pm\<lparr>pm_nodes := h1\<rparr>) (pa\<lparr>lists := ls1\<rparr>) a ?order (max_order pa) =
        Some (pm', pa\<lparr>lists := ls'\<rparr>)"
      "pa_rep pm' (pa\<lparr>lists := ls'\<rparr>) xss' ?A" "coalesced (free_of ?b xss')" "pm_bytes pm' = pm_bytes pm"
      "zone_off pa (?pm\<lparr>pm_nodes := h1\<rparr>) pm'"
    by (auto simp: set_meta_def)
  note off = zone_off_trans [OF off1 2(5)]
  have "\<not> (p < start_addr pa \<or> p \<ge> end_addr pa)" using in_r by (simp add: word_less_nat_alt word_le_nat_alt)
  moreover have "m_order (pm_meta (set_meta ?meta ((pm_meta pm ?meta)\<lparr>m_alloced := False\<rparr>) pm) ?meta) =
      m_order (pm_meta pm ?meta)" by (simp add: set_meta_def)
  moreover have "set_zone_n a (2 ^ j) (set_meta ?meta ((pm_meta pm ?meta)\<lparr>m_alloced := False\<rparr>) pm) = Some ?pm"
    using a0 by (simp add: set_zone_n_def set_meta_def)
  ultimately have "pa_free pm pa p = Some (pm', pa\<lparr>lists := ls'\<rparr>)"
    unfolding pa_free_def Let_def using al os paj 1(1) 2(1) o by simp
  with 2 off show ?thesis by blast
qed

lemma pa_free_idle:
  fixes p :: usize
  assumes r: "pa_rep pm pa xss A"
    and none: "\<And>a j. (unat (a :: usize), j) \<in> A \<Longrightarrow> unat a \<le> unat p \<Longrightarrow> \<not> unat p < unat a + 2 ^ bits pa"
  shows "pa_free pm pa p = Some (pm, pa)"
proof (cases "lo pa \<le> unat p \<and> unat p < hi pa")
  case False
  then show ?thesis by (auto simp: pa_free_def word_less_nat_alt word_le_nat_alt)
next
  case True
  let ?b = "bits pa" and ?a = "align_down p (2 ^ bits pa)"
  have ok: "blocks_ok pm pa xss A" using r by (simp add: pa_rep_def)
  note ok' = blocks_okD [OF ok]
  note gr = get_meta_granule [OF ok'(1) True [THEN conjunct1] True [THEN conjunct2]]
  have u: "unat ?a = unat p div 2 ^ ?b * 2 ^ ?b" by (rule unat_align_down)
  have "unat p = unat p div 2 ^ ?b * 2 ^ ?b + unat p mod 2 ^ ?b" by (rule div_mult_mod_eq [symmetric])
  moreover have "unat p mod 2 ^ ?b < 2 ^ ?b" by (rule mod_less_divisor) simp
  ultimately have "unat ?a \<le> unat p" "unat p < unat ?a + 2 ^ ?b" unfolding u by linarith+
  then have "(unat ?a, j) \<notin> A" for j using none by blast
  moreover have "unat ?a < hi pa" using True \<open>unat ?a \<le> unat p\<close> by linarith
  ultimately have "\<not> m_alloced (pm_meta pm (get_meta pa ?a))" using ok'(7) [OF gr(2) _ gr(3)] by blast
  then show ?thesis using gr(1) by (simp add: pa_free_def Let_def)
qed

end
