(* ===== verification/Pmem_Init.thy ===== *)
theory Pmem_Init
  imports Pmem
begin

text \<open>
  \<^verbatim>\<open>pallocator::init\<close> and the properties of the physical allocator: the loop cuts the range
  into maximal aligned blocks, which establishes the allocator's invariant; allocation,
  freeing and the client's writes keep it.
\<close>

section \<open>The initialisation loop\<close>

lemma halve_to_fit_exp:
  assumes "l < 64" "0 < unat room"
  shows "\<exists>k \<le> l. halve_to_fit room (2 ^ l) = 2 ^ k \<and> 2 ^ k \<le> unat room \<and>
    (\<forall>j \<le> l. 2 ^ j \<le> unat room \<longrightarrow> j \<le> k)"
  using assms(1)
proof (induction l)
  case 0
  have "\<not> room < 1" using assms(2) by (simp add: word_less_nat_alt)
  then have "halve_to_fit room (2 ^ 0) = 2 ^ 0" by (subst halve_to_fit.simps) (simp add: word_less_nat_alt)
  then show ?case using assms(2) by (intro exI [of _ 0]) simp
next
  case (Suc l)
  have u: "unat (2 ^ Suc l :: usize) = 2 ^ Suc l" using Suc.prems by (intro unat_exp64)
  show ?case
  proof (cases "2 ^ Suc l \<le> unat room")
    case True
    then have "halve_to_fit room (2 ^ Suc l) = 2 ^ Suc l"
      by (subst halve_to_fit.simps) (simp only: word_less_nat_alt u not_less [symmetric] if_False simp_thms)
    with True show ?thesis by (intro exI [of _ "Suc l"]) simp
  next
    case False
    have u': "unat (2 ^ l :: usize) = 2 ^ l" using Suc.prems by (intro unat_exp64) simp
    have "unat (drop_bit 1 (2 ^ Suc l :: usize)) = unat (2 ^ l :: usize)"
      unfolding unat_drop_bit1 u u' by simp
    then have "drop_bit 1 (2 ^ Suc l :: usize) = 2 ^ l" by (simp only: unat_inj)
    moreover have "room < 2 ^ Suc l" using False unfolding word_less_nat_alt u by simp
    ultimately have "halve_to_fit room (2 ^ Suc l) = halve_to_fit room (2 ^ l)"
      by (subst halve_to_fit.simps) (simp only: if_True)
    moreover from Suc obtain k where "k \<le> l" "halve_to_fit room (2 ^ l) = 2 ^ k" "2 ^ k \<le> unat room"
      "\<forall>j \<le> l. 2 ^ j \<le> unat room \<longrightarrow> j \<le> k" by auto
    ultimately show ?thesis using False by (intro exI [of _ k]) (auto simp: le_Suc_eq)
  qed
qed

text \<open>The blocks made so far: a tiling of the range up to \<open>t\<close> by maximal blocks.\<close>

definition init_inv :: "pmem \<Rightarrow> pallocator \<Rightarrow> nat \<Rightarrow> (nat \<Rightarrow> ptr list) \<Rightarrow> bool" where
  "init_inv pm pa t xss \<longleftrightarrow> family list_rep (pm_nodes pm) (lists pa) xss 39 \<and>
     lo pa \<le> t \<and> t \<le> hi pa \<and> 2 ^ bits pa dvd t \<and>
     tiling (lo pa) t (free_of (bits pa) xss) \<and>
     (\<forall>c k j. (c, k) \<in> free_of (bits pa) xss \<longrightarrow> block_in (lo pa) (hi pa) (c, j) \<longrightarrow> j \<le> k) \<and>
     (\<forall>k < 39. \<forall>x \<in> set (xss k). pm_zone_n pm x = 2 ^ (bits pa + k) \<and> k \<le> maxo pa) \<and>
     bits pa + maxo pa \<le> 30 \<and> unat (free_space pa) = t - lo pa"

text \<open>What the loop needs to know of the range.\<close>

definition range_ok :: "pallocator \<Rightarrow> bool" where
  "range_ok pa \<longleftrightarrow> 12 \<le> bits pa \<and> bits pa \<le> 30 \<and> 0 < lo pa \<and> lo pa \<le> hi pa \<and>
     2 ^ bits pa dvd lo pa \<and> 2 ^ bits pa dvd hi pa \<and> hi pa - lo pa < 2 ^ 31 \<and>
     \<not> (lo pa \<le> 2 ^ 63 \<and> 2 ^ 63 < hi pa)"

lemma tiling_extend:
  assumes "tiling s t B" "s \<le> t" "2 ^ k dvd t"
  shows "tiling s (t + 2 ^ k) (insert (t, k) B)"
proof -
  have below: "region p \<subseteq> {..< t}" if "p \<in> B" for p
    using tiling_in [OF assms(1) that] by (cases p) (auto simp: block_in_def region_def)
  have "\<forall>p \<in> B. block_in s (t + 2 ^ k) p" using assms(1) by (auto simp: tiling_def block_in_def)
  moreover have "block_in s (t + 2 ^ k) (t, k)" using assms(2,3) by (simp add: block_in_def)
  moreover have "region (t, k) \<inter> {..< t} = {}" by (auto simp: region_def)
  then have "region p \<inter> region (t, k) = {}" if "p \<in> B" for p
    using below [OF that] by blast
  moreover have "{s ..< t + 2 ^ k} = {s ..< t} \<union> region (t, k)"
    using assms(2) by (auto simp: region_def)
  then have "{s ..< t + 2 ^ k} \<subseteq> (\<Union>p \<in> insert (t, k) B. region p)"
    using assms(1) unfolding tiling_def by blast
  ultimately show ?thesis
    using assms(1) unfolding tiling_def by (simp add: Int_commute)
qed

lemma align_of_block:
  fixes t :: usize
  assumes r: "range_ok pa" and t: "lo pa \<le> unat t" "unat t < hi pa" "2 ^ bits pa dvd unat t"
  shows "\<exists>k. halve_to_fit (end_addr pa - t) (align_of t) = 2 ^ k \<and> bits pa \<le> k \<and> k \<le> 30 \<and>
    block_in (lo pa) (hi pa) (unat t, k) \<and> (\<forall>j. block_in (lo pa) (hi pa) (unat t, j) \<longrightarrow> j \<le> k)"
proof -
  note r' = r [unfolded range_ok_def]
  have "t \<noteq> 0" using r' t(1) by auto
  moreover have "t \<noteq> 2 ^ 63" using r' t(1,2) by (auto simp: unat_exp64)
  ultimately obtain l where l: "l < 63" "align_of t = 2 ^ l" "2 ^ l dvd unat t" "odd (unat t div 2 ^ l)"
    using align_of_exp by blast
  have max_l: "j \<le> l" if "2 ^ j dvd unat t" for j
  proof (rule ccontr)
    assume "\<not> j \<le> l"
    then have "(2 :: nat) ^ Suc l dvd 2 ^ j" by (intro le_imp_power_dvd) simp
    with that have "2 ^ Suc l dvd unat t" by (rule dvd_trans [rotated])
    then obtain q where "unat t = 2 ^ Suc l * q" by (auto elim: dvdE)
    then have "unat t div 2 ^ l = 2 * q" by simp
    with l(4) show False by simp
  qed
  have room: "unat (end_addr pa - t) = hi pa - unat t"
    using t(2) by (simp add: unat_sub_le word_le_nat_alt)
  with t(2) have "0 < unat (end_addr pa - t)" by simp
  with halve_to_fit_exp [of l "end_addr pa - t"] l(1,2) obtain k where
    k: "k \<le> l" "halve_to_fit (end_addr pa - t) (align_of t) = 2 ^ k" "2 ^ k \<le> hi pa - unat t"
      "\<forall>j \<le> l. 2 ^ j \<le> hi pa - unat t \<longrightarrow> j \<le> k" by (auto simp: room)
  have fits: "j \<le> k" if "block_in (lo pa) (hi pa) (unat t, j)" for j
    using that k(4) max_l by (auto simp: block_in_def)
  have "2 ^ bits pa dvd hi pa - unat t" using r' t(3) by (simp add: dvd_diff_nat)
  with t(2) have "2 ^ bits pa \<le> hi pa - unat t" by (simp add: dvd_imp_le)
  then have "block_in (lo pa) (hi pa) (unat t, bits pa)" using t by (simp add: block_in_def)
  then have bk: "bits pa \<le> k" by (rule fits)
  have "(2 :: nat) ^ k < 2 ^ 31" using k(3) r' t(1) by linarith
  then have "k \<le> 30" using pow2_less_imp [of k 31] by simp
  moreover have "2 ^ k dvd unat t" using l(3) k(1) by (meson dvd_trans le_imp_power_dvd)
  then have "block_in (lo pa) (hi pa) (unat t, k)" using t k(3) by (simp add: block_in_def)
  ultimately show ?thesis using k(2) bk fits by blast
qed

lemma range_ok_upd [simp]:
  "range_ok (pa\<lparr>lists := ls\<rparr>) = range_ok pa" "range_ok (pa\<lparr>free_space := f\<rparr>) = range_ok pa"
  "range_ok (pa\<lparr>max_order := m\<rparr>) = range_ok pa"
  by (simp_all add: range_ok_def)

lemma pa_swap: "pa\<lparr>free_space := f, lists := ls\<rparr> = pa\<lparr>lists := ls, free_space := f\<rparr>"
  by simp

lemma init_step:
  fixes t :: usize
  assumes r: "range_ok pa" and inv: "init_inv pm pa (unat t) xss" and t: "unat t < hi pa"
  shows "\<exists>k pm' xss' ls fs m. let pa' = pa\<lparr>lists := ls, free_space := fs, max_order := m\<rparr> in
    init_loop pm pa t = init_loop pm' pa' (t + 2 ^ k) \<and> unat (t + 2 ^ k) = unat t + 2 ^ k \<and>
    init_inv pm' pa' (unat (t + 2 ^ k)) xss' \<and> pm_meta pm' = pm_meta pm"
proof -
  let ?b = "bits pa" and ?F = "free_of (bits pa) xss"
  note r' = r [unfolded range_ok_def] and inv' = inv [unfolded init_inv_def]
  from align_of_block [OF r _ t] inv' obtain k where
    k: "halve_to_fit (end_addr pa - t) (align_of t) = 2 ^ k" "?b \<le> k" "k \<le> 30"
      "block_in (lo pa) (hi pa) (unat t, k)" "\<And>j. block_in (lo pa) (hi pa) (unat t, j) \<Longrightarrow> j \<le> k" by auto
  obtain i where i: "k = ?b + i" using k(2) by (metis le_iff_add)
  have e: "unat (2 ^ k :: usize) = 2 ^ k" using k(3) by (simp add: unat_exp64)
  have fit: "unat t + 2 ^ k \<le> hi pa" "2 ^ k dvd unat t" using k(4) by (auto simp: block_in_def)
  then have "unat t + 2 ^ k < 2 ^ 64" using unat_word_bound [of "end_addr pa"] by simp
  then have tk: "unat (t + 2 ^ k) = unat t + 2 ^ k" by (simp add: unat_add_noov e)
  have t0: "t \<noteq> NULL" using r' inv' by auto
  have lg: "unat (log2 (2 ^ k)) = k" using k(3) by (intro log2_exp) simp
  have "fo_bits pa \<le> log2 (2 ^ k)" using lg k(2) by (simp add: word_le_nat_alt)
  then have oi: "unat (log2 (2 ^ k) - fo_bits pa) = i" using lg i by (simp add: unat_sub)
  have i39: "i < 39" using k(3) i by simp
  have notm: "t \<notin> members xss 39"
  proof
    assume "t \<in> members xss 39"
    then obtain j where "j < 39" "t \<in> set (xss j)" by (auto simp: members_def)
    then have "(unat t, ?b + j) \<in> ?F" by simp
    then have "block_in (lo pa) (unat t) (unat t, ?b + j)" using inv' tiling_in by blast
    then show False by (simp add: block_in_def)
  qed
  let ?pm = "pm\<lparr>pm_zone_n := (pm_zone_n pm)(t := 2 ^ k)\<rparr>"
  let ?fs = "free_space pa + 2 ^ k" and ?X = "xss(i := xss i @ [t])"
  from family_append [OF _ i39 notm t0, of ?pm "pa\<lparr>free_space := ?fs\<rparr>"] inv' obtain h ls where
    1: "lists_append i t ?pm (pa\<lparr>free_space := ?fs\<rparr>) = Some (?pm\<lparr>pm_nodes := h\<rparr>, pa\<lparr>free_space := ?fs, lists := ls\<rparr>)"
      "family list_rep h ls ?X 39" by auto
  let ?oi = "log2 (2 ^ k) - fo_bits pa"
  let ?m = "if ?oi > max_order pa then ?oi else max_order pa"
  have um: "unat ?m = max i (maxo pa)" using oi by (simp add: word_less_nat_alt)
  let ?pa = "pa\<lparr>lists := ls, free_space := ?fs, max_order := ?m\<rparr>"
  have loop: "init_loop pm pa t = init_loop (?pm\<lparr>pm_nodes := h\<rparr>) ?pa (t + 2 ^ k)"
  proof -
    have "t < end_addr pa" using t by (simp add: word_less_nat_alt)
    moreover have "(if ?oi > max_order pa then pa\<lparr>free_space := ?fs, lists := ls, max_order := ?oi\<rparr>
        else pa\<lparr>free_space := ?fs, lists := ls\<rparr>) = ?pa" by simp
    ultimately show ?thesis
      using k(1) t0 oi 1(1) by (subst init_loop.simps) (simp add: set_zone_n_def Let_def pa_swap)
  qed
  have fo: "free_of ?b ?X = insert (unat t, k) ?F" using free_of_append [OF i39] i by simp
  have "init_inv (?pm\<lparr>pm_nodes := h\<rparr>) ?pa (unat t + 2 ^ k) ?X"
    unfolding init_inv_def
  proof (intro conjI allI impI ballI)
    show "family list_rep (pm_nodes (?pm\<lparr>pm_nodes := h\<rparr>)) (lists ?pa) ?X 39" using 1(2) by simp
    show "tiling (lo ?pa) (unat t + 2 ^ k) (free_of (bits ?pa) ?X)"
      using tiling_extend [of "lo pa" "unat t" ?F k] inv' fit(2) by (simp add: fo)
    show "j \<le> l" if "(c, l) \<in> free_of (bits ?pa) ?X" "block_in (lo ?pa) (hi ?pa) (c, j)" for c l j
      using that k(5) inv' by (auto simp: fo)
    fix j x assume j: "j < 39" and x: "x \<in> set (?X j)"
    have old: "x \<in> set (xss j)" if "x \<noteq> t" using x that by (auto split: if_splits)
    have new: "j = i" if "x = t"
      using x that notm j by (auto simp: members_def split: if_splits)
    show "pm_zone_n (?pm\<lparr>pm_nodes := h\<rparr>) x = 2 ^ (bits ?pa + j)"
      using old new inv' j i by (cases "x = t") auto
    have "j \<le> max i (maxo pa)"
    proof (cases "x = t")
      case True
      then show ?thesis using new by simp
    next
      case False
      then have "j \<le> maxo pa" using old inv' j by blast
      then show ?thesis by simp
    qed
    then show "j \<le> maxo ?pa" using um by simp
  next
    show "bits ?pa + maxo ?pa \<le> 30" using um inv' k(3) i by (cases "i \<le> maxo pa") (simp_all add: max_def)
    show "2 ^ bits ?pa dvd unat t + 2 ^ k" using inv' k(2) by (simp add: le_imp_power_dvd)
    have "unat t - lo pa + 2 ^ k < 2 ^ 64" using \<open>unat t + 2 ^ k < 2 ^ 64\<close> by linarith
    then show "unat (free_space ?pa) = unat t + 2 ^ k - lo ?pa"
      using inv' e by (simp add: unat_add_noov)
  qed (use inv' fit in simp_all)
  then show ?thesis
    using loop tk by (intro exI [of _ k] exI [of _ "?pm\<lparr>pm_nodes := h\<rparr>"] exI [of _ ?X] exI [of _ ls]
        exI [of _ ?fs] exI [of _ ?m]) (simp add: Let_def)
qed

lemma init_loop_spec:
  fixes t :: usize
  assumes "range_ok pa" and "init_inv pm pa (unat t) xss"
  shows "\<exists>pm' xss' ls fs m. let pa' = pa\<lparr>lists := ls, free_space := fs, max_order := m\<rparr> in
    init_loop pm pa t = Some (pm', pa') \<and> init_inv pm' pa' (hi pa) xss' \<and> pm_meta pm' = pm_meta pm"
  using assms
proof (induction "hi pa - unat t" arbitrary: pm pa t xss rule: less_induct)
  case less
  show ?case
  proof (cases "unat t < hi pa")
    case True
    from init_step [OF less.prems True] obtain k pm1 xs1 ls1 fs1 m1 where
      1: "init_loop pm pa t = init_loop pm1 (pa\<lparr>lists := ls1, free_space := fs1, max_order := m1\<rparr>) (t + 2 ^ k)"
        "unat (t + 2 ^ k) = unat t + 2 ^ k"
        "init_inv pm1 (pa\<lparr>lists := ls1, free_space := fs1, max_order := m1\<rparr>) (unat (t + 2 ^ k)) xs1"
        "pm_meta pm1 = pm_meta pm" by (auto simp: Let_def)
    have "(0 :: nat) < 2 ^ k" by simp
    then have "hi pa - unat (t + 2 ^ k) < hi pa - unat t" using True 1(2) by linarith
    with less.hyps [OF _ _ 1(3)] less.prems(1) show ?thesis using 1(1,4) by (simp add: Let_def)
  next
    case False
    then have "unat t = hi pa" using less.prems(2) by (simp add: init_inv_def)
    moreover have "init_loop pm pa t = Some (pm, pa)"
      using False by (subst init_loop.simps) (simp add: word_less_nat_alt)
    ultimately show ?thesis
      using less.prems(2) by (intro exI [of _ pm] exI [of _ xss] exI [of _ "lists pa"] exI [of _ "free_space pa"]
          exI [of _ "max_order pa"]) (simp add: Let_def)
  qed
qed

section \<open>init\<close>

lemma unat_align_up_bounds:
  assumes "k < 64" "unat a + (2 ^ k - 1) < 2 ^ 64"
  shows "2 ^ k dvd unat (align_up a (2 ^ k))" "unat a \<le> unat (align_up a (2 ^ k))"
    "2 ^ k dvd m \<Longrightarrow> unat a \<le> m \<Longrightarrow> unat (align_up a (2 ^ k)) \<le> m"
proof -
  note u = unat_align_up [OF assms]
  show "2 ^ k dvd unat (align_up a (2 ^ k))" unfolding u by simp
  show "unat a \<le> unat (align_up a (2 ^ k))" unfolding u by (rule div_ge_bound) simp
  show "unat (align_up a (2 ^ k)) \<le> m" if "2 ^ k dvd m" "unat a \<le> m"
    unfolding u using that by (rule multiple_ge_div) simp
qed

lemma unat_align_down_bounds:
  "2 ^ k dvd unat (align_down a (2 ^ k))" "unat (align_down a (2 ^ k)) \<le> unat a"
  "2 ^ k dvd m \<Longrightarrow> m \<le> unat a \<Longrightarrow> m \<le> unat (align_down a (2 ^ k))"
  unfolding unat_align_down by (simp_all add: multiple_le_div)

text \<open>The memory a zone must be, for \<open>2 ^ b\<close> bytes of granularity.\<close>

definition zone_ok :: "nat \<Rightarrow> usize \<Rightarrow> usize \<Rightarrow> bool" where
  "zone_ok b start end' \<longleftrightarrow> 0 < unat start \<and> unat end' < unat start + 2 ^ 31 \<and>
     unat end' + 2 ^ 31 \<le> 2 ^ 64 \<and> \<not> (unat start \<le> 2 ^ 63 \<and> 2 ^ 63 < unat end') \<and>
     unat start \<le> unat end' \<and> unat (align_up start (2 ^ b)) < unat (align_down end' (2 ^ b))"

lemma init_area:
  fixes start end' :: usize
  assumes z: "zone_ok b start end'" and b: "12 \<le> b" "b \<le> 30"
  defines "S \<equiv> align_up start (2 ^ b)" and "Em \<equiv> align_down end' (2 ^ b)"
  defines "n \<equiv> (unat Em - unat S) div 2 ^ b"
  defines "E \<equiv> align_down (Em - align_up (8 * ((Em - S) div 2 ^ b)) PAGE_SIZE) (2 ^ b)"
  shows "2 ^ b dvd unat S" "unat start \<le> unat S" "unat S \<le> unat E" "2 ^ b dvd unat E"
    "unat E + 8 * n \<le> unat Em" "0 < n" "unat Em \<le> unat end'" "(unat E - unat S) div 2 ^ b \<le> n"
proof -
  note z' = z [unfolded zone_ok_def, folded S_def Em_def]
  let ?d = "2 ^ b :: nat"
  have "?d \<le> 2 ^ 30" using b(2) by (intro power_increasing) auto
  then have "unat start + ?d < 2 ^ 64" using z' by simp
  then have nov: "unat start + (?d - 1) < 2 ^ 64" by (rule le_less_trans [rotated]) simp
  have b64: "b < 64" using b by simp
  note up = unat_align_up_bounds [OF b64 nov, folded S_def]
  note dn = unat_align_down_bounds [where k = b and a = end', folded Em_def]
  show S: "?d dvd unat S" "unat start \<le> unat S" using up by auto
  show Em: "unat Em \<le> unat end'" by (rule dn(2))
  have D: "unat (Em - S) = unat Em - unat S" using z' by (simp add: unat_sub_le word_le_nat_alt)
  have dD: "?d dvd unat Em - unat S" using S(1) dn(1) by (simp add: dvd_diff_nat)
  then have "?d \<le> unat Em - unat S" using z' by (simp add: dvd_imp_le)
  then show n0: "0 < n" unfolding n_def by (simp add: div_greater_zero_iff)
  have nd: "n * ?d = unat Em - unat S" unfolding n_def using dD by simp
  have small: "unat Em - unat S < 2 ^ 31" using Em S(2) z' by linarith
  have p12: "(4096 :: nat) \<le> ?d" using power_increasing [of 12 b "2 :: nat"] b(1) by simp
  have "n * 4096 \<le> n * ?d" using p12 by simp
  then have n19: "n < 2 ^ 19" using small nd by simp
  have un: "unat ((Em - S) div 2 ^ b) = n" using b64 by (simp add: unat_div D unat_exp64 n_def)
  have u8n: "unat (8 * ((Em - S) div 2 ^ b)) = 8 * n" using n19 un by (simp add: unat_word_ariths)
  have ps: "PAGE_SIZE = 2 ^ 12" by (simp add: PAGE_SIZE_def)
  let ?m = "align_up (8 * ((Em - S) div 2 ^ b)) PAGE_SIZE"
  have "unat (8 * ((Em - S) div 2 ^ b)) + (2 ^ 12 - 1) < 2 ^ 64" using u8n n19 by simp
  note mu = unat_align_up_bounds [OF _ this, folded ps, unfolded u8n, simplified]
  have "(4096 :: nat) dvd ?d" using le_imp_power_dvd [of 12 b "2 :: nat"] b(1) by simp
  then have "4096 dvd n * ?d" by (rule dvd_mult)
  moreover have "n * 8 \<le> n * ?d" using p12 by (intro mult_le_mono2) simp
  then have "8 * n \<le> n * ?d" by simp
  ultimately have m: "unat ?m \<le> unat Em - unat S" using mu(3) nd by (simp add: ps)
  have m8: "8 * n \<le> unat ?m" using mu(2) by (simp add: ps)
  have r: "unat (Em - ?m) = unat Em - unat ?m" using m by (simp add: unat_sub_le word_le_nat_alt)
  note ed = unat_align_down_bounds [where k = b and a = "Em - ?m", folded E_def]
  show SE: "unat S \<le> unat E" 
  proof (rule ed(3) [OF S(1)])
    show "unat S \<le> unat (Em - ?m)" unfolding r using m z' by linarith
  qed
  show "?d dvd unat E" by (rule ed(1))
  show "unat E + 8 * n \<le> unat Em" using ed(2) m8 m unfolding r by linarith
  then have "unat E - unat S \<le> unat Em - unat S" by linarith
  then show "(unat E - unat S) div ?d \<le> n" unfolding n_def by (rule div_le_mono)
qed

lemma pa_rep_init:
  assumes r: "range_ok pa" and nov: "hi pa + 2 ^ 31 \<le> 2 ^ 64" "hi pa + (hi pa - lo pa) div 2 ^ bits pa < 2 ^ 64"
    and fs: "first_order_size pa = 2 ^ bits pa"
    and inv: "init_inv pm pa (hi pa) xss"
    and z: "\<And>a. lo pa \<le> unat a \<Longrightarrow> unat a < hi pa \<Longrightarrow> \<not> m_alloced (pm_meta pm (get_meta pa a))"
  shows "pa_rep pm pa xss {}" "coalesced (free_of (bits pa) xss)"
proof -
  note inv' = inv [unfolded init_inv_def] and r' = r [unfolded range_ok_def]
  have t: "tiling (lo pa) (hi pa) (free_of (bits pa) xss)" using inv' by blast
  have m: "j \<le> k" if "(c, k) \<in> free_of (bits pa) xss" "block_in (lo pa) (hi pa) (c, j)" for c k j
    using inv' that by blast
  show "coalesced (free_of (bits pa) xss)" using t m by (rule maximal_coalesced)
  have "j \<le> bits pa + maxo pa" if b: "block_in (lo pa) (hi pa) (a, j)" for a j
  proof -
    have "\<exists>c k. (c, k) \<in> free_of (bits pa) xss \<and> j \<le> k" using t m b by (rule maximal_cover)
    then obtain c k where ck: "(c, k) \<in> free_of (bits pa) xss" "j \<le> k" by blast
    then obtain i x where "k = bits pa + i" "i < 39" "x \<in> set (xss i)" by (auto dest: free_ofD)
    then show ?thesis using ck(2) inv' by fastforce
  qed
  then have "geom pa" using r' inv' nov fs by (simp add: geom_def)
  then have "blocks_ok pm pa xss {}" using t z inv' by (simp add: blocks_ok_def)
  then show "pa_rep pm pa xss {}" using inv' by (simp add: pa_rep_def)
qed

text \<open>The state when the loop starts.\<close>

definition init_end :: "nat \<Rightarrow> usize \<Rightarrow> usize \<Rightarrow> usize" where
  "init_end b start end' = (let S = align_up start (2 ^ b); Em = align_down end' (2 ^ b)
     in align_down (Em - align_up (8 * ((Em - S) div 2 ^ b)) PAGE_SIZE) (2 ^ b))"

definition init_start :: "nat \<Rightarrow> usize \<Rightarrow> usize \<Rightarrow> usize \<Rightarrow> pallocator" where
  "init_start b S Em E = new_pallocator\<lparr>free_space := 0, start_addr := S, end_meta := Em,
      first_order_size := 2 ^ b, fo_bits := log2 (2 ^ b), end_addr := E\<rparr>"

lemma init_start_simps [simp]:
  "b < 64 \<Longrightarrow> bits (init_start b S Em E) = b" "start_addr (init_start b S Em E) = S"
  "end_addr (init_start b S Em E) = E" "end_meta (init_start b S Em E) = Em"
  "first_order_size (init_start b S Em E) = 2 ^ b" "free_space (init_start b S Em E) = 0"
  "max_order (init_start b S Em E) = 0" "lists (init_start b S Em E) = (\<lambda>_. new_list)"
  by (simp_all add: init_start_def new_pallocator_def log2_exp)

lemma pallocator_init_start:
  assumes "max fos PAGE_SIZE = 2 ^ b" "b < 64" "align_up start (2 ^ b) = S" "align_down end' (2 ^ b) = Em"
    "S < Em" "align_down (Em - align_up (8 * ((Em - S) div 2 ^ b)) PAGE_SIZE) (2 ^ b) = E"
  shows "pallocator_init start end' fos pm new_pallocator =
    init_loop (zero_range E (Em - E) pm) (init_start b S Em E) S"
  using assms by (simp add: pallocator_init_def Let_def init_start_def new_pallocator_def)

lemma pallocator_init_spec:
  assumes z: "zone_ok b start end'" and fos: "max fos PAGE_SIZE = 2 ^ b" "b \<le> 30"
  shows "\<exists>pm' pa xss. pallocator_init start end' fos pm new_pallocator = Some (pm', pa) \<and>
    pa_rep pm' pa xss {} \<and> coalesced (free_of (bits pa) xss) \<and> bits pa = b \<and>
    start_addr pa = align_up start (2 ^ b) \<and> end_addr pa = init_end b start end' \<and>
    unat start \<le> lo pa \<and> hi pa < unat end' \<and>
    unat (free_space pa) = hi pa - lo pa \<and>
    (\<forall>a. lo pa \<le> unat a \<and> unat a < hi pa \<longrightarrow> hi pa \<le> unat (get_meta pa a) \<and> unat (get_meta pa a) < unat end')"
proof -
  note z' = z [unfolded zone_ok_def]
  have b64: "b < 64" using fos(2) by simp
  have "PAGE_SIZE \<le> 2 ^ b" unfolding fos(1) [symmetric] by simp
  then have "(2 :: nat) ^ 12 \<le> 2 ^ b" using b64 by (simp add: word_le_nat_alt PAGE_SIZE_def unat_exp64)
  then have b12: "12 \<le> b" by (rule power_le_imp_le_exp [rotated]) simp
  obtain S Em E n where SE: "align_up start (2 ^ b) = S" "align_down end' (2 ^ b) = Em"
    "align_down (Em - align_up (8 * ((Em - S) div 2 ^ b)) PAGE_SIZE) (2 ^ b) = E"
    "(unat Em - unat S) div 2 ^ b = n" by blast
  note ar = init_area [OF z b12 fos(2), unfolded SE]
  have SEm: "S < Em" using z' SE by (simp add: word_less_nat_alt)
  let ?pa = "init_start b S Em E" and ?pm = "zero_range E (Em - E) pm"
  have r: "range_ok ?pa"
    unfolding range_ok_def using ar z' b12 b64 fos(2) by auto
  have "init_inv ?pm ?pa (unat S) (\<lambda>_. [])"
    unfolding init_inv_def
    using ar fos(2) b64 by (auto simp: family_def list_rep_new tiling_def free_of_def)
  from init_loop_spec [OF r this, unfolded Let_def] obtain pm' xss ls fs m where
    1: "init_loop ?pm ?pa S = Some (pm', ?pa\<lparr>lists := ls, free_space := fs, max_order := m\<rparr>)"
      "init_inv pm' (?pa\<lparr>lists := ls, free_space := fs, max_order := m\<rparr>) (hi ?pa) xss"
      "pm_meta pm' = pm_meta ?pm" by blast
  obtain pa where pa: "pa = ?pa\<lparr>lists := ls, free_space := fs, max_order := m\<rparr>" by blast
  have pas: "lo pa = unat S" "hi pa = unat E" "bits pa = b" "first_order_size pa = 2 ^ b"
    "start_addr pa = S" "end_addr pa = E" using pa b64 by simp_all
  have emw: "unat Em < 2 ^ 64" by (rule unat_word_bound)
  have nov: "hi pa + (hi pa - lo pa) div 2 ^ bits pa < 2 ^ 64" unfolding pas using ar emw by linarith
  have um: "unat (get_meta pa a) = unat E + (unat a - unat S) div 2 ^ b \<and>
      (unat a - unat S) div 2 ^ b \<le> n" if a: "unat S \<le> unat a" "unat a < unat E" for a
  proof -
    have "(unat a - unat S) div 2 ^ b \<le> (unat E - unat S) div 2 ^ b"
      using a by (intro div_le_mono) linarith
    then have le: "(unat a - unat S) div 2 ^ b \<le> n" using ar(8) by linarith
    have "unat ((a - S) div 2 ^ b) = (unat a - unat S) div 2 ^ b"
      using a(1) b64 by (simp add: unat_div unat_exp64 unat_sub_le word_le_nat_alt)
    moreover from this have "unat ((a - S) div 2 ^ b) + unat E < 2 ^ 64" using le ar(5,6) emw by linarith
    ultimately show ?thesis using le pas by (simp add: get_meta_def unat_add_noov)
  qed
  have "E \<le> Em" using ar(5) by (simp add: word_le_nat_alt)
  then have emE: "unat (Em - E) = unat Em - unat E" by (rule unat_sub_le)
  have zero: "\<not> m_alloced (pm_meta pm' (get_meta pa a))"
    if a: "lo pa \<le> unat a" "unat a < hi pa" for a
  proof -
    have "in_range E (Em - E) (unat (get_meta pa a)) 1"
      using um [of a] a ar(5,6) emE unfolding pas in_range_def by simp
    then show ?thesis using 1(3) by (simp add: zero_range_def)
  qed
  have "hi pa + 2 ^ 31 \<le> 2 ^ 64" using ar(5,7) z' unfolding pas by simp
  moreover have "range_ok pa" using r pa by simp
  moreover have inv: "init_inv pm' pa (hi pa) xss" using 1(2) pa by simp
  moreover have "first_order_size pa = 2 ^ bits pa" using pas by simp
  ultimately have rep: "pa_rep pm' pa xss {}" "coalesced (free_of (bits pa) xss)"
    using pa_rep_init [OF _ _ nov _ _ zero, of xss] by simp_all
  have "pallocator_init start end' fos pm new_pallocator = Some (pm', pa)"
    using 1(1) pa pallocator_init_start [OF fos(1) b64 SE(1,2) SEm SE(3)] by simp
  moreover have "unat (free_space pa) = hi pa - lo pa" using inv by (simp add: init_inv_def)
  moreover have "unat E < unat end'" using ar(5-7) by linarith
  moreover have "\<forall>a. lo pa \<le> unat a \<and> unat a < hi pa \<longrightarrow>
      hi pa \<le> unat (get_meta pa a) \<and> unat (get_meta pa a) < unat end'"
    using um ar(5-7) unfolding pas by fastforce
  ultimately show ?thesis
    using rep pas SE ar(2) by (intro exI [of _ pm'] exI [of _ pa] exI [of _ xss]) (simp add: init_end_def)
qed

section \<open>The client's writes\<close>

text \<open>
  A write of \<open>n\<close> bytes at \<open>p\<close>: the words and bytes that do not meet the range keep their
  values, the others may become anything.
\<close>

definition apart :: "ptr \<Rightarrow> usize \<Rightarrow> nat \<Rightarrow> nat \<Rightarrow> bool" where
  "apart p n y w \<longleftrightarrow> y + w \<le> unat p \<or> unat p + unat n \<le> y"

definition client_write :: "ptr \<Rightarrow> usize \<Rightarrow> pmem \<Rightarrow> pmem \<Rightarrow> bool" where
  "client_write p n pm pm' \<longleftrightarrow>
     (\<forall>y. apart p n (unat y) 16 \<longrightarrow> pm_nodes pm' y = pm_nodes pm y) \<and>
     (\<forall>y. apart p n (unat y + 16) 8 \<longrightarrow> pm_zone_n pm' y = pm_zone_n pm y) \<and>
     (\<forall>y. apart p n (unat y) 1 \<longrightarrow> pm_meta pm' y = pm_meta pm y \<and> pm_bytes pm' y = pm_bytes pm y)"

lemma zero_range_client: "client_write p n pm (zero_range p n pm)"
  by (auto simp: client_write_def zero_range_def apart_def in_range_def)

text \<open>A write that meets no free zone's header and no metadata byte leaves the allocator's structures alone.\<close>

lemma client_rep:
  assumes r: "pa_rep pm pa xss A" and w: "client_write p n pm pm'"
    and far: "\<And>x k. k < 39 \<Longrightarrow> x \<in> set (xss k) \<Longrightarrow> apart p n (unat x) 16 \<and> apart p n (unat x + 16) 8"
    and farm: "\<And>a. lo pa \<le> unat a \<Longrightarrow> unat a < hi pa \<Longrightarrow> apart p n (unat (get_meta pa a)) 1"
  shows "pa_rep pm' pa xss A"
proof -
  have fam: "family list_rep (pm_nodes pm) (lists pa) xss 39" and ok: "blocks_ok pm pa xss A"
    using r by (simp_all add: pa_rep_def)
  note ok' = blocks_okD [OF ok]
  have "family list_rep (pm_nodes pm') (lists pa) xss 39"
    by (rule kl.family_cong [OF fam]) (use far w in \<open>auto simp: client_write_def\<close>)
  moreover have zn: "pm_zone_n pm' x = pm_zone_n pm x" if "k < 39" "x \<in> set (xss k)" for x k
    using far [OF that] w by (simp add: client_write_def)
  have me: "pm_meta pm' (get_meta pa a) = pm_meta pm (get_meta pa a)" if "lo pa \<le> unat a" "unat a < hi pa" for a
    using farm [OF that] w by (simp add: client_write_def)
  have "blocks_ok pm' pa xss A"
    unfolding blocks_ok_def
  proof (intro conjI allI impI ballI)
    fix k x assume "k < 39" "x \<in> set (xss k)"
    then show "pm_zone_n pm' x = 2 ^ (bits pa + k)" using zn ok'(4) by simp
  next
    fix a :: usize and k assume a: "(unat a, k) \<in> A"
    then show "bits pa \<le> k" by (rule ok'(5))
    have "(unat a, k) \<in> free_of (bits pa) xss \<union> A" using a by simp
    from tile_head(1,2) [OF ok this] show "m_order (pm_meta pm' (get_meta pa a)) = of_nat (k - bits pa)"
      using me ok'(6) [OF a] by simp
  next
    fix a :: usize assume "lo pa \<le> unat a \<and> unat a < hi pa \<and> 2 ^ bits pa dvd unat a"
    then show "m_alloced (pm_meta pm' (get_meta pa a)) = (\<exists>k. (unat a, k) \<in> A)" using me ok'(7) by simp
  qed (use ok' in simp_all)
  ultimately show ?thesis by (simp add: pa_rep_def)
qed

text \<open>A write inside an allocated block leaves the allocator's structures alone.\<close>

lemma client_write_rep:
  assumes r: "pa_rep pm pa xss A" and w: "client_write p n pm pm'"
    and c: "(c, j) \<in> A" "c \<le> unat p" "unat p + unat n \<le> c + 2 ^ j"
  shows "pa_rep pm' pa xss A"
proof -
  have ok: "blocks_ok pm pa xss A" using r by (simp add: pa_rep_def)
  note ok' = blocks_okD [OF ok]
  have cT: "(c, j) \<in> free_of (bits pa) xss \<union> A" using c by simp
  have cb: "block_in (lo pa) (hi pa) (c, j)" using ok'(2) cT by (rule tiling_in)
  have far: "apart p n (unat x) 16 \<and> apart p n (unat x + 16) 8" if x: "k < 39" "x \<in> set (xss k)" for x k
  proof -
    have xF: "(unat x, bits pa + k) \<in> free_of (bits pa) xss" using x by simp
    then have "(unat x, bits pa + k) \<noteq> (c, j)" using ok'(3) c(1) by blast
    then have dis: "region (unat x, bits pa + k) \<inter> region (c, j) = {}"
      using ok'(2) xF cT unfolding tiling_def by blast
    have "(2 :: nat) ^ 12 \<le> 2 ^ (bits pa + k)" using geomD(1) [OF ok'(1)] by (intro power_increasing) auto
    then have sz: "(4096 :: nat) \<le> 2 ^ (bits pa + k)" by simp
    have "\<not> (unat x < c + 2 ^ j \<and> c < unat x + 2 ^ (bits pa + k))"
    proof
      assume "unat x < c + 2 ^ j \<and> c < unat x + 2 ^ (bits pa + k)"
      then have "max c (unat x) \<in> region (unat x, bits pa + k)" "max c (unat x) \<in> region (c, j)"
        using sz by (auto simp: region_def)
      with dis show False by blast
    qed
    then show ?thesis using c sz unfolding apart_def by linarith
  qed
  have farm: "apart p n (unat (get_meta pa a)) 1" if "lo pa \<le> unat a" "unat a < hi pa" for a
  proof -
    have "hi pa \<le> unat (get_meta pa a)" using unat_get_meta [OF ok'(1) that] by simp
    then show ?thesis using c cb by (auto simp: apart_def block_in_def)
  qed
  show ?thesis using r w far farm by (rule client_rep)
qed

section \<open>Runs\<close>

text \<open>
  Runs of one allocator from its initialisation: allocations of an order, frees of any pointer
  and client writes inside the allocated blocks. The last component is the set of blocks the
  client holds.
\<close>

inductive pm_run :: "usize \<Rightarrow> usize \<Rightarrow> usize \<Rightarrow> pmem \<Rightarrow> pallocator \<Rightarrow> block set \<Rightarrow> bool"
  for s e fos :: usize where
  run_init: "pallocator_init s e fos pm new_pallocator = Some (pm', pa) \<Longrightarrow> pm_run s e fos pm' pa {}"
| run_alloc: "pm_run s e fos pm pa A \<Longrightarrow> pa_oalloc pm pa order = Some (z, pm', pa') \<Longrightarrow>
    pm_run s e fos pm' pa' (if z = NULL then A else insert (unat z, bits pa + unat order) A)"
| run_free: "pm_run s e fos pm pa A \<Longrightarrow> pa_free pm pa p = Some (pm', pa') \<Longrightarrow>
    pm_run s e fos pm' pa' {q \<in> A. \<not> (fst q \<le> unat p \<and> unat p < fst q + 2 ^ bits pa)}"
| run_write: "pm_run s e fos pm pa A \<Longrightarrow> client_write p n pm pm' \<Longrightarrow>
    (c, j) \<in> A \<Longrightarrow> c \<le> unat p \<Longrightarrow> unat p + unat n \<le> c + 2 ^ j \<Longrightarrow> pm_run s e fos pm' pa A"

text \<open>The first granule of a held block belongs to that block.\<close>

lemma held_granule:
  fixes p :: usize
  assumes r: "pa_rep pm pa xss A" and q: "q \<in> A" "fst q \<le> unat p" "unat p < fst q + 2 ^ bits pa"
  shows "unat p \<in> region q"
proof -
  have "fst q < 2 ^ 64" using q(2) unat_word_bound [of p] by linarith
  then have "unat (of_nat (fst q) :: usize) = fst q" by (rule unat_of_nat_small)
  with q(1) have "(unat (of_nat (fst q) :: usize), snd q) \<in> A" by simp
  then have "bits pa \<le> snd q" using r blocks_okD(5) by (auto simp: pa_rep_def)
  then have "(2 :: nat) ^ bits pa \<le> 2 ^ snd q" by (intro power_increasing) auto
  then show ?thesis using q(2,3) unfolding region_def atLeastLessThan_iff by linarith
qed

text \<open>What a free does to the set of held blocks.\<close>

lemma pa_free_all:
  assumes r: "pa_rep pm pa xss A" and co: "coalesced (free_of (bits pa) xss)"
  shows "\<exists>pm' ls xss'. pa_free pm pa p = Some (pm', pa\<lparr>lists := ls\<rparr>) \<and>
    pa_rep pm' (pa\<lparr>lists := ls\<rparr>) xss' {q \<in> A. \<not> (fst q \<le> unat p \<and> unat p < fst q + 2 ^ bits pa)} \<and>
    coalesced (free_of (bits pa) xss') \<and> pm_bytes pm' = pm_bytes pm \<and> zone_off pa pm pm'"
proof (cases "\<exists>c j. (c, j) \<in> A \<and> c \<le> unat p \<and> unat p < c + 2 ^ bits pa")
  case False
  then have "pa_free pm pa p = Some (pm, pa)" using r by (intro pa_free_idle) auto
  moreover have "{q \<in> A. \<not> (fst q \<le> unat p \<and> unat p < fst q + 2 ^ bits pa)} = A" using False by fastforce
  ultimately show ?thesis
    using r co by (intro exI [of _ pm] exI [of _ "lists pa"] exI [of _ xss]) simp
next
  case True
  then obtain c j where cj: "(c, j) \<in> A" "c \<le> unat p" "unat p < c + 2 ^ bits pa" by blast
  have ok: "blocks_ok pm pa xss A" using r by (simp add: pa_rep_def)
  note t = blocks_okD(2) [OF ok]
  obtain a :: usize where a: "unat a = c"
    using cj(2) unat_word_bound [of p] unat_of_nat_small [of c] by (metis le_less_trans)
  from pa_free_spec [OF r co, of a j p] cj a obtain pm' ls xss' where
    1: "pa_free pm pa p = Some (pm', pa\<lparr>lists := ls\<rparr>)" "pa_rep pm' (pa\<lparr>lists := ls\<rparr>) xss' (A - {(c, j)})"
      "coalesced (free_of (bits pa) xss')" "pm_bytes pm' = pm_bytes pm" "zone_off pa pm pm'" by auto
  have uq: "q = (c, j)" if q: "q \<in> A" "fst q \<le> unat p" "unat p < fst q + 2 ^ bits pa" for q
  proof -
    have "unat p \<in> region q" "unat p \<in> region (c, j)"
      using held_granule [OF r q] held_granule [OF r cj(1)] cj by simp_all
    then show ?thesis using tiling_unique [OF t, of q "(c, j)" "unat p"] q cj(1) by simp
  qed
  have "{q \<in> A. \<not> (fst q \<le> unat p \<and> unat p < fst q + 2 ^ bits pa)} = A - {(c, j)}"
  proof (rule set_eqI)
    fix q
    show "q \<in> {q \<in> A. \<not> (fst q \<le> unat p \<and> unat p < fst q + 2 ^ bits pa)} \<longleftrightarrow> q \<in> A - {(c, j)}"
      using uq [of q] cj by (cases "q = (c, j)") auto
  qed
  with 1 show ?thesis by metis
qed

lemma pm_run_inv:
  assumes z: "zone_ok b s e" and fos: "max fos PAGE_SIZE = 2 ^ b" "b \<le> 30" and "pm_run s e fos pm pa A"
  shows "\<exists>xss pm0 pm1 pa0 ls fs. pa_rep pm pa xss A \<and> coalesced (free_of (bits pa) xss) \<and>
    pallocator_init s e fos pm0 new_pallocator = Some (pm1, pa0) \<and> pa = pa0\<lparr>lists := ls, free_space := fs\<rparr>"
  using assms(4)
proof (induction rule: pm_run.induct)
  case (run_init pm pm' pa)
  with pallocator_init_spec [OF z fos, of pm] obtain xss where
    "pa_rep pm' pa xss {}" "coalesced (free_of (bits pa) xss)" by auto
  with run_init show ?case
    by (intro exI [of _ xss] exI [of _ pm] exI [of _ pm'] exI [of _ pa] exI [of _ "lists pa"]
        exI [of _ "free_space pa"]) simp
next
  case (run_alloc pm pa A order z pm' pa')
  then obtain xss pm0 pm1 pa0 ls fs where
    1: "pa_rep pm pa xss A" "coalesced (free_of (bits pa) xss)"
      "pallocator_init s e fos pm0 new_pallocator = Some (pm1, pa0)" "pa = pa0\<lparr>lists := ls, free_space := fs\<rparr>"
    by blast
  show ?case
  proof (cases "\<exists>j < 39. unat order \<le> j \<and> xss j \<noteq> []")
    case True
    with pa_oalloc_spec [OF 1(1,2), of order] obtain z2 pm2 ls2 xs2 where
      "pa_oalloc pm pa order = Some (z2, pm2, pa\<lparr>lists := ls2, free_space := free_space pa - get_order_size pa order\<rparr>)"
      "z2 \<noteq> NULL" "pa_rep pm2 (pa\<lparr>lists := ls2\<rparr>) xs2 (insert (unat z2, bits pa + unat order) A)"
      "coalesced (free_of (bits pa) xs2)" by (simp only: if_True) blast
    with run_alloc(2) 1(3,4) show ?thesis
      by (intro exI [of _ xs2] exI [of _ pm0] exI [of _ pm1] exI [of _ pa0] exI [of _ ls2]
          exI [of _ "free_space pa - get_order_size pa order"]) (auto simp: pa_rep_def)
  next
    case False
    with pa_oalloc_spec [OF 1(1,2), of order] have "pa_oalloc pm pa order = Some (NULL, pm, pa)"
      by (simp only: if_False)
    with run_alloc(2) 1 show ?thesis
      by (intro exI [of _ xss] exI [of _ pm0] exI [of _ pm1] exI [of _ pa0] exI [of _ ls] exI [of _ fs]) simp
  qed
next
  case (run_free pm pa A p pm' pa')
  then obtain xss pm0 pm1 pa0 ls fs where
    1: "pa_rep pm pa xss A" "coalesced (free_of (bits pa) xss)"
      "pallocator_init s e fos pm0 new_pallocator = Some (pm1, pa0)" "pa = pa0\<lparr>lists := ls, free_space := fs\<rparr>"
    by blast
  from pa_free_all [OF 1(1,2), of p] obtain pm2 ls2 xs2 where
    "pa_free pm pa p = Some (pm2, pa\<lparr>lists := ls2\<rparr>)"
    "pa_rep pm2 (pa\<lparr>lists := ls2\<rparr>) xs2 {q \<in> A. \<not> (fst q \<le> unat p \<and> unat p < fst q + 2 ^ bits pa)}"
    "coalesced (free_of (bits pa) xs2)" by blast
  with run_free(2) 1(3,4) show ?case
    by (intro exI [of _ xs2] exI [of _ pm0] exI [of _ pm1] exI [of _ pa0] exI [of _ ls2] exI [of _ fs]) simp
next
  case (run_write pm pa A p n pm' c j)
  then show ?case using client_write_rep by blast
qed

section \<open>Properties\<close>

lemma ex_zone: "zone_ok 12 0x100000 0x200000" "init_end 12 0x100000 0x200000 = 0x1ff000"
  "align_up 0x100000 (2 ^ 12) = 0x100000" "max 4096 PAGE_SIZE = 2 ^ 12"
  by (simp_all add: zone_ok_def init_end_def align_up_def align_down_def PAGE_SIZE_def)

lemma ex_run:
  "\<exists>pm pa. pm_run 0x100000 0x200000 4096 pm pa {} \<and> bits pa = 12 \<and> lo pa = 0x100000 \<and> hi pa = 0x1ff000"
proof -
  have "(12 :: nat) \<le> 30" by simp
  from pallocator_init_spec [OF ex_zone(1,4) this] obtain pm pm' pa where
    "pallocator_init 0x100000 0x200000 4096 pm new_pallocator = Some (pm', pa)"
    "bits pa = 12" "start_addr pa = align_up 0x100000 (2 ^ 12)" "end_addr pa = init_end 12 0x100000 0x200000"
    by blast
  then show ?thesis
    unfolding ex_zone(2,3) by (intro exI [of _ pm'] exI [of _ pa]) (simp add: run_init)
qed

text \<open>
  C5: \<^verbatim>\<open>init\<close> cuts a memory zone into the free lists: every free zone is an aligned
  block of its order, together they tile the range in maximal blocks, nothing is allocated, the
  metadata lies behind the range and inside the zone, and \<^verbatim>\<open>free_space\<close> counts the bytes.
\<close>

theorem pmem_init_correct:
  assumes "zone_ok b start end'" and "max fos PAGE_SIZE = 2 ^ b" and "b \<le> 30"
  shows "\<exists>pm' pa xss. pallocator_init start end' fos pm new_pallocator = Some (pm', pa) \<and>
    pa_rep pm' pa xss {} \<and> coalesced (free_of (bits pa) xss) \<and> bits pa = b \<and>
    unat start \<le> lo pa \<and> hi pa < unat end' \<and> unat (free_space pa) = hi pa - lo pa \<and>
    (\<forall>a. lo pa \<le> unat a \<and> unat a < hi pa \<longrightarrow> hi pa \<le> unat (get_meta pa a) \<and> unat (get_meta pa a) < unat end')"
  using pallocator_init_spec [OF assms, of pm] by blast

theorem pmem_init_correct_witness:
  "\<exists>pm pm' pa. pallocator_init 0x100000 0x200000 4096 pm new_pallocator = Some (pm', pa) \<and>
    unat (free_space pa) = hi pa - lo pa"
proof -
  have "(12 :: nat) \<le> 30" by simp
  from pmem_init_correct [OF ex_zone(1,4) this] show ?thesis by blast
qed

lemma fits_iff:
  assumes r: "pa_rep pm pa xss A" and co: "coalesced (free_of (bits pa) xss)"
  shows "(\<exists>j < 39. o' \<le> j \<and> xss j \<noteq> []) \<longleftrightarrow>
    (\<exists>a. block_in (lo pa) (hi pa) (a, bits pa + o') \<and> (\<forall>q \<in> A. region q \<inter> region (a, bits pa + o') = {}))"
    (is "?L = ?R")
proof
  have ok: "blocks_ok pm pa xss A" using r by (simp add: pa_rep_def)
  note ok' = blocks_okD [OF ok]
  show ?R if ?L
  proof -
    from that obtain j where j: "j < 39" "o' \<le> j" "xss j \<noteq> []" by blast
    then have x: "hd (xss j) \<in> set (xss j)" by simp
    let ?c = "unat (hd (xss j))"
    have cF: "(?c, bits pa + j) \<in> free_of (bits pa) xss" using x j(1) by simp
    have b: "block_in (lo pa) (hi pa) (?c, bits pa + j)" using ok j(1) x by (rule free_block_in)
    have sub: "region (?c, bits pa + o') \<subseteq> region (?c, bits pa + j)"
      using j(2) by (intro region_mono) simp
    have "(2 :: nat) ^ (bits pa + o') dvd 2 ^ (bits pa + j)" using j(2) by (simp add: le_imp_power_dvd)
    then have "2 ^ (bits pa + o') dvd ?c" using b by (auto simp: block_in_def intro: dvd_trans)
    with sub b have "block_in (lo pa) (hi pa) (?c, bits pa + o')" by (rule region_subset_block_in)
    moreover have "region q \<inter> region (?c, bits pa + o') = {}" if "q \<in> A" for q
    proof -
      have "q \<noteq> (?c, bits pa + j)" using that cF ok'(3) by blast
      then have "region q \<inter> region (?c, bits pa + j) = {}"
        using ok'(2) cF that unfolding tiling_def by blast
      with sub show ?thesis by blast
    qed
    ultimately show ?R by blast
  qed
  show ?L if ?R
  proof -
    from that obtain a where a: "block_in (lo pa) (hi pa) (a, bits pa + o')"
      "\<And>q. q \<in> A \<Longrightarrow> region q \<inter> region (a, bits pa + o') = {}" by blast
    from coalesced_maximal [OF ok'(2) co a] obtain p where
      p: "p \<in> free_of (bits pa) xss" "region (a, bits pa + o') \<subseteq> region p" by blast
    obtain c k where "p = (c, k)" by (cases p)
    with p obtain x j where j: "k = bits pa + j" "j < 39" "x \<in> set (xss j)" by (auto dest: free_ofD)
    have "bits pa + o' \<le> k" using p \<open>p = (c, k)\<close> region_subset_order by blast
    with j show ?L by (intro exI [of _ j]) auto
  qed
qed

lemma oalloc_fits:
  assumes r: "pa_rep pm pa xss A" and co: "coalesced (free_of (bits pa) xss)"
    and f: "\<exists>a. block_in (lo pa) (hi pa) (a, bits pa + unat order) \<and>
      (\<forall>q \<in> A. region q \<inter> region (a, bits pa + unat order) = {})"
  shows "\<exists>z pm' ls xs'. pa_oalloc pm pa order = Some (z, pm',
      pa\<lparr>lists := ls, free_space := free_space pa - get_order_size pa order\<rparr>) \<and> z \<noteq> NULL \<and>
    pa_rep pm' (pa\<lparr>lists := ls\<rparr>) xs' (insert (unat z, bits pa + unat order) A) \<and>
    (unat z, bits pa + unat order) \<notin> A \<and> coalesced (free_of (bits pa) xs') \<and> pm_bytes pm' = pm_bytes pm \<and>
    zone_off pa pm pm'"
  using pa_oalloc_spec [OF r co, of order] f unfolding fits_iff [OF r co] by (simp only: if_True)

lemma oalloc_full:
  assumes r: "pa_rep pm pa xss A" and co: "coalesced (free_of (bits pa) xss)"
    and f: "\<not> (\<exists>a. block_in (lo pa) (hi pa) (a, bits pa + unat order) \<and>
      (\<forall>q \<in> A. region q \<inter> region (a, bits pa + unat order) = {}))"
  shows "pa_oalloc pm pa order = Some (NULL, pm, pa)"
  using pa_oalloc_spec [OF r co, of order] f unfolding fits_iff [OF r co] by (simp only: if_False)

lemma held_block:
  assumes "pa_rep pm pa xss A" "p \<in> A"
  shows "block_in (lo pa) (hi pa) p" "q \<in> A \<Longrightarrow> q \<noteq> p \<Longrightarrow> region q \<inter> region p = {}"
proof -
  have t: "tiling (lo pa) (hi pa) (free_of (bits pa) xss \<union> A)" using assms(1) by (simp add: pa_rep_def blocks_ok_def)
  then show "block_in (lo pa) (hi pa) p" by (rule tiling_in) (simp add: assms(2))
  show "region q \<inter> region p = {}" if "q \<in> A" "q \<noteq> p"
    using t that assms(2) unfolding tiling_def by blast
qed

text \<open>
  C1: in every state a run of the allocator reaches, \<^verbatim>\<open>oalloc\<close> does not fault; it
  succeeds exactly when some aligned block of the order meets no allocated block, and the block
  it then returns is such a block. When it fails, nothing changes.
\<close>

theorem oalloc_correct:
  assumes "zone_ok b s e" and "max fos PAGE_SIZE = 2 ^ b" and "b \<le> 30" and "pm_run s e fos pm pa A"
  shows "\<exists>z pm' pa'. pa_oalloc pm pa order = Some (z, pm', pa') \<and>
    (if \<exists>a. block_in (lo pa) (hi pa) (a, bits pa + unat order) \<and>
        (\<forall>q \<in> A. region q \<inter> region (a, bits pa + unat order) = {})
     then z \<noteq> NULL \<and> block_in (lo pa) (hi pa) (unat z, bits pa + unat order) \<and>
       (\<forall>q \<in> A. region q \<inter> region (unat z, bits pa + unat order) = {})
     else z = NULL \<and> pm' = pm \<and> pa' = pa)"
proof -
  from pm_run_inv [OF assms] obtain xss where r: "pa_rep pm pa xss A" "coalesced (free_of (bits pa) xss)"
    by blast
  show ?thesis
  proof (cases "\<exists>a. block_in (lo pa) (hi pa) (a, bits pa + unat order) \<and>
      (\<forall>q \<in> A. region q \<inter> region (a, bits pa + unat order) = {})")
    case True
    from oalloc_fits [OF r True] obtain z pm' pa' xs' where
      1: "pa_oalloc pm pa order = Some (z, pm', pa')" "z \<noteq> NULL" "pa' = pa\<lparr>lists := lists pa',
          free_space := free_space pa'\<rparr>" "(unat z, bits pa + unat order) \<notin> A"
        "pa_rep pm' (pa\<lparr>lists := lists pa'\<rparr>) xs' (insert (unat z, bits pa + unat order) A)" by auto
    note h = held_block [OF 1(5)]
    have "block_in (lo pa) (hi pa) (unat z, bits pa + unat order)"
      using h(1) [of "(unat z, bits pa + unat order)"] by simp
    moreover have "region q \<inter> region (unat z, bits pa + unat order) = {}" if "q \<in> A" for q
      using h(2) [of "(unat z, bits pa + unat order)" q] that 1(4) by auto
    ultimately have "z \<noteq> NULL \<and> block_in (lo pa) (hi pa) (unat z, bits pa + unat order) \<and>
       (\<forall>q \<in> A. region q \<inter> region (unat z, bits pa + unat order) = {})" using 1(2) by blast
    then show ?thesis using 1(1) unfolding if_P [OF True] by blast
  next
    case False
    then show ?thesis using oalloc_full [OF r False] unfolding if_not_P [OF False] by blast
  qed
qed

theorem oalloc_correct_witness:
  "\<exists>pm pa z pm' pa'. pm_run 0x100000 0x200000 4096 pm pa {} \<and> pa_oalloc pm pa 3 = Some (z, pm', pa') \<and>
    z \<noteq> NULL \<and> block_in (lo pa) (hi pa) (unat z, bits pa + 3)"
proof -
  from ex_run obtain pm pa where
    r: "pm_run 0x100000 0x200000 4096 pm pa {}" "bits pa = 12" "lo pa = 0x100000" "hi pa = 0x1ff000" by blast
  have "block_in (lo pa) (hi pa) (0x100000, bits pa + unat (3 :: u8))"
    unfolding r by (simp add: block_in_def)
  then have "\<exists>a. block_in (lo pa) (hi pa) (a, bits pa + unat (3 :: u8)) \<and>
      (\<forall>q \<in> {}. region q \<inter> region (a, bits pa + unat (3 :: u8)) = {})" by blast
  with oalloc_correct [OF ex_zone(1,4) _ r(1), of 3] obtain z pm' pa' where
    "pa_oalloc pm pa 3 = Some (z, pm', pa')" "z \<noteq> NULL" "block_in (lo pa) (hi pa) (unat z, bits pa + 3)"
    by auto
  with r(1) show ?thesis by blast
qed

text \<open>
  C4: the blocks a client holds are aligned, inside the range and pairwise disjoint, the
  metadata is outside of them, and nothing it writes inside its blocks damages the allocator: the
  run goes on and every free list keeps its shape.
\<close>

theorem held_blocks_isolated:
  assumes "zone_ok b s e" and "max fos PAGE_SIZE = 2 ^ b" and "b \<le> 30" and "pm_run s e fos pm pa A"
    and "p \<in> A" and "client_write a n pm pm'" and "fst p \<le> unat a" and "unat a + unat n \<le> fst p + 2 ^ snd p"
  shows "block_in (lo pa) (hi pa) p \<and> (\<forall>q \<in> A. q \<noteq> p \<longrightarrow> region q \<inter> region p = {}) \<and>
    (\<exists>xss. family list_rep (pm_nodes pm') (lists pa) xss 39 \<and> family list_rep (pm_nodes pm) (lists pa) xss 39)"
proof -
  from pm_run_inv [OF assms(1-4)] obtain xss where r: "pa_rep pm pa xss A" by blast
  have "pa_rep pm' pa xss A"
    using client_write_rep [OF r assms(6), of "fst p" "snd p"] assms(5,7,8) by simp
  then show ?thesis using held_block [OF r assms(5)] r by (auto simp: pa_rep_def)
qed

text \<open>
  C2: in every reachable state \<^verbatim>\<open>free\<close> does not fault, changes nothing of the allocator
  but its lists, and ignores a pointer that is not in the first granule of an allocated block, so
  that a double free and a foreign pointer are harmless; after a real free its block can be
  allocated again.
\<close>

theorem free_correct:
  assumes "zone_ok b s e" and "max fos PAGE_SIZE = 2 ^ b" and "b \<le> 30" and "pm_run s e fos pm pa A"
  shows "\<exists>pm' ls. pa_free pm pa p = Some (pm', pa\<lparr>lists := ls\<rparr>) \<and> pm_bytes pm' = pm_bytes pm \<and>
    (if \<exists>q \<in> A. fst q \<le> unat p \<and> unat p < fst q + 2 ^ bits pa
     then \<forall>order. (\<exists>q \<in> A. fst q \<le> unat p \<and> unat p < fst q + 2 ^ bits pa \<and> snd q = bits pa + unat order) \<longrightarrow>
       (\<exists>z pm'' pa''. pa_oalloc pm' (pa\<lparr>lists := ls\<rparr>) order = Some (z, pm'', pa'') \<and> z \<noteq> NULL)
     else pm' = pm \<and> ls = lists pa)"
proof -
  let ?P = "\<lambda>q. fst q \<le> unat p \<and> unat p < fst q + 2 ^ bits pa"
  from pm_run_inv [OF assms] obtain xss where r: "pa_rep pm pa xss A" "coalesced (free_of (bits pa) xss)" by blast
  show ?thesis
  proof (cases "\<exists>q \<in> A. ?P q")
    case False
    have "pa_free pm pa p = Some (pm, pa)" using False r(1) by (intro pa_free_idle) auto
    then show ?thesis unfolding if_not_P [OF False] by (intro exI [of _ pm] exI [of _ "lists pa"]) simp
  next
    case True
    from pa_free_all [OF r, of p] obtain pm' ls xs' where
      1: "pa_free pm pa p = Some (pm', pa\<lparr>lists := ls\<rparr>)"
        "pa_rep pm' (pa\<lparr>lists := ls\<rparr>) xs' {q \<in> A. \<not> ?P q}" "coalesced (free_of (bits pa) xs')"
        "pm_bytes pm' = pm_bytes pm" by blast
    have "\<exists>z pm'' pa''. pa_oalloc pm' (pa\<lparr>lists := ls\<rparr>) order = Some (z, pm'', pa'') \<and> z \<noteq> NULL"
      if q: "q \<in> A" "?P q" "snd q = bits pa + unat order" for q order
    proof -
      have "block_in (lo pa) (hi pa) (fst q, bits pa + unat order)"
        using held_block(1) [OF r(1) q(1)] by (simp flip: q(3))
      moreover have "region x \<inter> region (fst q, bits pa + unat order) = {}" if x: "x \<in> {q \<in> A. \<not> ?P q}" for x
      proof -
        have "x \<in> A" "x \<noteq> q" using x q(2) by auto
        then show ?thesis using held_block(2) [OF r(1) q(1)] by (simp flip: q(3))
      qed
      ultimately have "\<exists>a. block_in (lo (pa\<lparr>lists := ls\<rparr>)) (hi (pa\<lparr>lists := ls\<rparr>)) (a, bits (pa\<lparr>lists := ls\<rparr>) + unat order) \<and>
          (\<forall>x \<in> {q \<in> A. \<not> ?P q}. region x \<inter> region (a, bits (pa\<lparr>lists := ls\<rparr>) + unat order) = {})"
        by (intro exI [of _ "fst q"]) simp
      from oalloc_fits [OF 1(2) _ this] 1(3) show ?thesis by auto
    qed
    then show ?thesis unfolding if_P [OF True] using 1(1,4) by blast
  qed
qed

lemma ex_alloc:
  "\<exists>pm pa z pm' pa'. pm_run 0x100000 0x200000 4096 pm pa {} \<and> pa_oalloc pm pa 3 = Some (z, pm', pa') \<and>
    z \<noteq> NULL \<and> pm_run 0x100000 0x200000 4096 pm' pa' {(unat z, 15)} \<and> bits pa = 12 \<and> bits pa' = 12 \<and>
    free_space pa' = free_space pa - get_order_size pa 3"
proof -
  from ex_run obtain pm pa where
    r: "pm_run 0x100000 0x200000 4096 pm pa {}" "bits pa = 12" "lo pa = 0x100000" "hi pa = 0x1ff000" by blast
  have "(12 :: nat) \<le> 30" by simp
  from pm_run_inv [OF ex_zone(1,4) this r(1)] obtain xss where
    i: "pa_rep pm pa xss {}" "coalesced (free_of (bits pa) xss)" by blast
  have "block_in (lo pa) (hi pa) (0x100000, bits pa + unat (3 :: u8))"
    unfolding r by (simp add: block_in_def)
  then have "\<exists>a. block_in (lo pa) (hi pa) (a, bits pa + unat (3 :: u8)) \<and>
      (\<forall>q \<in> {}. region q \<inter> region (a, bits pa + unat (3 :: u8)) = {})" by blast
  from oalloc_fits [OF i this] obtain z pm' ls where
    z: "pa_oalloc pm pa 3 = Some (z, pm', pa\<lparr>lists := ls, free_space := free_space pa - get_order_size pa 3\<rparr>)"
      "z \<noteq> NULL" by blast
  from run_alloc [OF r(1) z(1)] z r show ?thesis
    by (intro exI [of _ pm] exI [of _ pa] exI [of _ z] exI [of _ pm']
        exI [of _ "pa\<lparr>lists := ls, free_space := free_space pa - get_order_size pa 3\<rparr>"]) simp
qed

theorem held_blocks_isolated_witness:
  "\<exists>pm pa z. pm_run 0x100000 0x200000 4096 pm pa {(unat (z :: ptr), 15)} \<and>
    block_in (lo pa) (hi pa) (unat z, 15)"
proof -
  from ex_alloc obtain pm pa and z :: ptr where
    r: "pm_run 0x100000 0x200000 4096 pm pa {(unat z, 15)}" by blast
  from held_blocks_isolated [OF ex_zone(1,4) _ this, of "(unat z, 15)" z 0 pm]
  have "block_in (lo pa) (hi pa) (unat z, 15)" by (simp add: client_write_def)
  with r show ?thesis by blast
qed

theorem free_correct_witness:
  "\<exists>pm pa z pm' ls. pm_run 0x100000 0x200000 4096 pm pa {(unat (z :: ptr), 15)} \<and>
    pa_free pm pa z = Some (pm', pa\<lparr>lists := ls\<rparr>) \<and>
    (\<exists>z' pm'' pa''. pa_oalloc pm' (pa\<lparr>lists := ls\<rparr>) 3 = Some (z', pm'', pa'') \<and> z' \<noteq> NULL)"
proof -
  from ex_alloc obtain pm pa and z :: ptr where
    r: "pm_run 0x100000 0x200000 4096 pm pa {(unat z, 15)}" "bits pa = 12" by blast
  have in1: "\<exists>q \<in> {(unat z, 15)}. fst q \<le> unat z \<and> unat z < fst q + 2 ^ bits pa"
    and in3: "\<exists>q \<in> {(unat z, 15)}. fst q \<le> unat z \<and> unat z < fst q + 2 ^ bits pa \<and> snd q = bits pa + unat (3 :: u8)"
    using r(2) by simp_all
  have "(12 :: nat) \<le> 30" by simp
  from free_correct [OF ex_zone(1,4) this r(1), of z, unfolded if_P [OF in1]] in3 r(1) show ?thesis by blast
qed

text \<open>
  C3: nothing is lost to fragmentation: when a run has freed everything it allocated, each
  free list holds the same zones as right after \<^verbatim>\<open>init\<close>.
\<close>

theorem full_recovery:
  assumes "zone_ok b s e" and "max fos PAGE_SIZE = 2 ^ b" and "b \<le> 30" and "pm_run s e fos pm pa {}"
    and "pallocator_init s e fos pm0 new_pallocator = Some (pm1, pa1)"
  shows "\<exists>xss xss1. family list_rep (pm_nodes pm) (lists pa) xss 39 \<and>
    family list_rep (pm_nodes pm1) (lists pa1) xss1 39 \<and> (\<forall>k < 39. set (xss k) = set (xss1 k))"
proof -
  from pm_run_inv [OF assms(1-4)] obtain xss pmx pmy pa0 ls fs where
    r: "pa_rep pm pa xss {}" "coalesced (free_of (bits pa) xss)"
      "pallocator_init s e fos pmx new_pallocator = Some (pmy, pa0)" "pa = pa0\<lparr>lists := ls, free_space := fs\<rparr>"
    by blast
  from pallocator_init_spec [OF assms(1-3), of pmx] r(3,4) have
    g: "bits pa = b" "start_addr pa = align_up s (2 ^ b)" "end_addr pa = init_end b s e" by auto
  from pallocator_init_spec [OF assms(1-3), of pm0] assms(5) obtain xss1 where
    r1: "pa_rep pm1 pa1 xss1 {}" "coalesced (free_of (bits pa1) xss1)"
      "bits pa1 = b" "start_addr pa1 = align_up s (2 ^ b)" "end_addr pa1 = init_end b s e" by auto
  have "free_of b xss = free_of b xss1"
  proof (rule coalesced_unique)
    show "tiling (lo pa) (hi pa) (free_of b xss)" using r(1) g(1) by (simp add: pa_rep_def blocks_ok_def)
    show "tiling (lo pa) (hi pa) (free_of b xss1)"
      using r1 g by (simp add: pa_rep_def blocks_ok_def)
  qed (use r(2) r1(2,3) g(1) in simp_all)
  then have "x \<in> set (xss k) \<longleftrightarrow> x \<in> set (xss1 k)" if "k < 39" for x k
    using in_free_of [of x b k xss] in_free_of [of x b k xss1] that by simp
  then have "set (xss k) = set (xss1 k)" if "k < 39" for k using that by blast
  then show ?thesis using r(1) r1(1) by (auto simp: pa_rep_def)
qed

theorem full_recovery_witness:
  "\<exists>pm pa pm1 pa1 xss xss1. pm_run 0x100000 0x200000 4096 pm pa {} \<and>
    pallocator_init 0x100000 0x200000 4096 pm new_pallocator = Some (pm1, pa1) \<and>
    family list_rep (pm_nodes pm) (lists pa) xss 39 \<and>
    family list_rep (pm_nodes pm1) (lists pa1) xss1 39 \<and> (\<forall>k < 39. set (xss k) = set (xss1 k))"
proof -
  have b: "(12 :: nat) \<le> 30" by simp
  from ex_run obtain pm pa where r: "pm_run 0x100000 0x200000 4096 pm pa {}" by blast
  from pallocator_init_spec [OF ex_zone(1,4) b, of pm] obtain pm1 pa1 where
    i: "pallocator_init 0x100000 0x200000 4096 pm new_pallocator = Some (pm1, pa1)" by blast
  from full_recovery [OF ex_zone(1,4) b r i] r i show ?thesis by blast
qed

text \<open>
  \<^verbatim>\<open>free_space\<close> counts down only: allocating a block and freeing it again brings
  the blocks back but leaves \<^verbatim>\<open>free_space\<close> lower by the size of the block.
\<close>

theorem free_space_leak:
  assumes "zone_ok b s e" and "max fos PAGE_SIZE = 2 ^ b" and "b \<le> 30" and "pm_run s e fos pm pa A"
    and "pa_oalloc pm pa order = Some (z, pm1, pa1)" and "z \<noteq> NULL"
  shows "\<exists>pm2 pa2. pa_free pm1 pa1 z = Some (pm2, pa2) \<and> pm_run s e fos pm2 pa2 A \<and>
    free_space pa2 = free_space pa - get_order_size pa order \<and> get_order_size pa order \<noteq> 0"
proof -
  from pm_run_inv [OF assms(1-4)] obtain xss where r: "pa_rep pm pa xss A" "coalesced (free_of (bits pa) xss)"
    by blast
  have f: "\<exists>a. block_in (lo pa) (hi pa) (a, bits pa + unat order) \<and>
      (\<forall>q \<in> A. region q \<inter> region (a, bits pa + unat order) = {})"
    using oalloc_full [OF r, of order] assms(5,6) by (metis Pair_inject option.inject)
  let ?p = "(unat z, bits pa + unat order)"
  from oalloc_fits [OF r f] assms(5) obtain ls xs where
    1: "pa1 = pa\<lparr>lists := ls, free_space := free_space pa - get_order_size pa order\<rparr>"
      "pa_rep pm1 (pa\<lparr>lists := ls\<rparr>) xs (insert ?p A)" "?p \<notin> A" "coalesced (free_of (bits pa) xs)" by auto
  then have rep1: "pa_rep pm1 pa1 xs (insert ?p A)" by (simp add: pa_rep_def)
  have run1: "pm_run s e fos pm1 pa1 (insert ?p A)" using run_alloc [OF assms(4,5)] assms(6) by simp
  have b1: "bits pa1 = bits pa" using 1(1) by simp
  have co1: "coalesced (free_of (bits pa1) xs)" using 1(4) b1 by simp
  from pa_free_all [OF rep1 co1, of z] obtain pm2 ls2 where
    2: "pa_free pm1 pa1 z = Some (pm2, pa1\<lparr>lists := ls2\<rparr>)" by blast
  let ?P = "\<lambda>q. fst q \<le> unat z \<and> unat z < fst q + 2 ^ bits pa1"
  have "\<not> ?P q" if "q \<in> A" for q
  proof
    assume P: "?P q"
    have qT: "q \<in> insert ?p A" "?p \<in> insert ?p A" using that by auto
    have "q \<noteq> ?p" using 1(3) that by blast
    from held_block(2) [OF rep1 qT(2,1) this] have d: "region q \<inter> region ?p = {}" .
    have "unat z \<in> region q" using held_granule [OF r(1) that, of z] P b1 by simp
    moreover have "unat z \<in> region ?p" by simp
    ultimately show False using d by blast
  qed
  then have "{q \<in> insert ?p A. \<not> ?P q} = A" using 1(3) by auto
  with run_free [OF run1 2] have "pm_run s e fos pm2 (pa1\<lparr>lists := ls2\<rparr>) A" by simp
  moreover have g: "geom pa" using r(1) by (simp add: pa_rep_def blocks_ok_def)
  then have "unat order \<le> maxo pa" using geomD(12) f by fastforce
  then have "unat (get_order_size pa order) = 2 ^ (bits pa + unat order)"
    using unat_order_size g by blast
  then have "get_order_size pa order \<noteq> 0" by auto
  ultimately show ?thesis using 2 1(1) by auto
qed

theorem free_space_leak_witness:
  "\<exists>pm pa z pm1 pa1 pm2 pa2. pa_oalloc pm pa 3 = Some (z, pm1, pa1) \<and> pa_free pm1 pa1 z = Some (pm2, pa2) \<and>
    pm_run 0x100000 0x200000 4096 pm pa {} \<and> pm_run 0x100000 0x200000 4096 pm2 pa2 {} \<and>
    free_space pa2 \<noteq> free_space pa"
proof -
  have b: "(12 :: nat) \<le> 30" by simp
  from ex_alloc obtain pm pa pm1 pa1 and z :: ptr where
    r: "pm_run 0x100000 0x200000 4096 pm pa {}" "pa_oalloc pm pa 3 = Some (z, pm1, pa1)" "z \<noteq> NULL" by blast
  from free_space_leak [OF ex_zone(1,4) b r] obtain pm2 pa2 where
    "pa_free pm1 pa1 z = Some (pm2, pa2)" "pm_run 0x100000 0x200000 4096 pm2 pa2 {}"
    "free_space pa2 \<noteq> free_space pa" by auto
  with r show ?thesis by blast
qed


lemma get_order_size_bounds:
  assumes "geom pa" and "0 < unat n" and "unat n < 2 ^ 31" and "unat (get_order pa n) \<le> maxo pa"
  shows "unat n \<le> 2 ^ (bits pa + unat (get_order pa n))"
    "get_order pa n \<noteq> 0 \<Longrightarrow> 2 ^ (bits pa + unat (get_order pa n)) < 2 * unat n"
proof -
  note l = unat_log2_up [OF assms(2,3)]
  let ?t = "log2_up n" and ?o = "get_order pa n"
  have "unat n \<le> 2 ^ (bits pa + unat ?o) \<and> (?o \<noteq> 0 \<longrightarrow> 2 ^ (bits pa + unat ?o) < 2 * unat n)"
  proof (cases "fo_bits pa \<le> ?t")
    case True
    then have o: "bits pa + unat ?o = unat ?t"
      by (simp add: get_order_def Let_def unat_sub word_le_nat_alt)
    have "0 < unat ?t" if "?o \<noteq> 0" using o that by (metis add_is_0 gr0I unat_eq_zero)
    moreover have "(2 :: nat) ^ unat ?t = 2 * 2 ^ (unat ?t - 1)" if "0 < unat ?t"
      using that by (metis Suc_pred' power_Suc)
    ultimately show ?thesis using l(1,2) unfolding o by auto
  next
    case False
    then have o: "?o = 0" "unat ?t \<le> bits pa" by (simp_all add: get_order_def Let_def word_le_nat_alt)
    then have "(2 :: nat) ^ unat ?t \<le> 2 ^ bits pa" by (intro power_increasing) auto
    then have "unat n \<le> 2 ^ bits pa" using l(1) by (rule order_trans [rotated])
    then show ?thesis using o by simp
  qed
  then show "unat n \<le> 2 ^ (bits pa + unat ?o)" "?o \<noteq> 0 \<Longrightarrow> 2 ^ (bits pa + unat ?o) < 2 * unat n" by blast+
qed

lemma pa_alloc_run:
  assumes z: "zone_ok b s e" "max fos PAGE_SIZE = 2 ^ b" "b \<le> 30" and r: "pm_run s e fos pm pa A"
    and n: "unat n < 2 ^ 31"
  shows "\<exists>z pm' pa'. pa_alloc pm pa n = Some (z, pm', pa') \<and> bits pa' = bits pa \<and>
    (if z = NULL then pm' = pm \<and> pa' = pa
     else n \<noteq> 0 \<and> pm_run s e fos pm' pa' (insert (unat z, bits pa + unat (get_order pa n)) A) \<and>
       block_in (lo pa) (hi pa) (unat z, bits pa + unat (get_order pa n)) \<and>
       unat n \<le> 2 ^ (bits pa + unat (get_order pa n)) \<and>
       (get_order pa n \<noteq> 0 \<longrightarrow> 2 ^ (bits pa + unat (get_order pa n)) < 2 * unat n))"
proof (cases "n = 0")
  case True
  then show ?thesis by (simp add: pa_alloc_def)
next
  case False
  let ?o = "get_order pa n"
  from pm_run_inv [OF z r] obtain xss where i: "pa_rep pm pa xss A" "coalesced (free_of (bits pa) xss)" by blast
  have g: "geom pa" using i(1) by (simp add: pa_rep_def blocks_ok_def)
  have al: "pa_alloc pm pa n = pa_oalloc pm pa ?o" using False by (simp add: pa_alloc_def)
  show ?thesis
  proof (cases "\<exists>a. block_in (lo pa) (hi pa) (a, bits pa + unat ?o) \<and>
      (\<forall>q \<in> A. region q \<inter> region (a, bits pa + unat ?o) = {})")
    case f: False
    show ?thesis using oalloc_full [OF i f] al by simp
  next
    case True
    from oalloc_fits [OF i True] obtain z' pm' ls xs' where
      1: "pa_oalloc pm pa ?o = Some (z', pm', pa\<lparr>lists := ls, free_space := free_space pa - get_order_size pa ?o\<rparr>)"
        "z' \<noteq> NULL" "pa_rep pm' (pa\<lparr>lists := ls\<rparr>) xs' (insert (unat z', bits pa + unat ?o) A)" by blast
    have bi: "block_in (lo pa) (hi pa) (unat z', bits pa + unat ?o)"
      using held_block(1) [OF 1(3), of "(unat z', bits pa + unat ?o)"] by simp
    then have "unat ?o \<le> maxo pa" using geomD(12) [OF g] by fastforce
    moreover have "0 < unat n" using False by (simp add: unat_gt_0)
    ultimately have sz: "unat n \<le> 2 ^ (bits pa + unat ?o)" "?o \<noteq> 0 \<Longrightarrow> 2 ^ (bits pa + unat ?o) < 2 * unat n"
      using get_order_size_bounds [OF g _ n] by blast+
    show ?thesis using al 1(1,2) run_alloc [OF r 1(1)] bi sz False by simp
  qed
qed

text \<open>
  in every reachable state \<^verbatim>\<open>alloc (n)\<close> does not fault; the block it returns is aligned,
  lies in the range, holds \<open>n\<close> bytes and is the smallest that does (unless it is the granule), and
  the run goes on with it held. For 0 bytes, and when it fails, nothing changes.
\<close>

theorem alloc_correct:
  assumes "zone_ok b s e" and "max fos PAGE_SIZE = 2 ^ b" and "b \<le> 30" and "pm_run s e fos pm pa A"
    and "unat n < 2 ^ 31"
  shows "\<exists>z pm' pa'. pa_alloc pm pa n = Some (z, pm', pa') \<and>
    (if z = NULL then pm' = pm \<and> pa' = pa
     else n \<noteq> 0 \<and> pm_run s e fos pm' pa' (insert (unat z, bits pa + unat (get_order pa n)) A) \<and>
       block_in (lo pa) (hi pa) (unat z, bits pa + unat (get_order pa n)) \<and>
       unat n \<le> 2 ^ (bits pa + unat (get_order pa n)) \<and>
       (get_order pa n \<noteq> 0 \<longrightarrow> 2 ^ (bits pa + unat (get_order pa n)) < 2 * unat n))"
  using pa_alloc_run [OF assms] by blast

theorem alloc_correct_witness:
  "\<exists>pm pa z pm' pa'. pm_run 0x100000 0x200000 4096 pm pa {} \<and> pa_alloc pm pa 5000 = Some (z, pm', pa') \<and>
    (z = NULL \<or> (5000 :: nat) \<le> 2 ^ (bits pa + unat (get_order pa 5000)))"
proof -
  have b: "(12 :: nat) \<le> 30" by simp
  from ex_run obtain pm pa where r: "pm_run 0x100000 0x200000 4096 pm pa {}" by blast
  have "unat (5000 :: usize) < 2 ^ 31" by simp
  from alloc_correct [OF ex_zone(1,4) b r this] obtain z pm' pa' where
    1: "pa_alloc pm pa 5000 = Some (z, pm', pa')"
    and 2: "z = NULL \<or> unat (5000 :: usize) \<le> 2 ^ (bits pa + unat (get_order pa 5000))" by metis
  with r show ?thesis by (intro exI [of _ pm] exI [of _ pa] exI [of _ z] exI [of _ pm'] exI [of _ pa']) simp
qed

text \<open>
  \<^verbatim>\<open>allocz (n)\<close> behaves as \<^verbatim>\<open>alloc (n)\<close> and clears the \<open>n\<close> bytes it returns;
  the clearing stays inside the new block, so the allocator stays consistent.
\<close>

theorem allocz_zeroes:
  assumes "zone_ok b s e" and "max fos PAGE_SIZE = 2 ^ b" and "b \<le> 30" and "pm_run s e fos pm pa A"
    and "unat n < 2 ^ 31"
  shows "\<exists>z pm' pa'. pa_allocz pm pa n = Some (z, pm', pa') \<and>
    (if z = NULL then pm' = pm \<and> pa' = pa
     else pm_run s e fos pm' pa' (insert (unat z, bits pa + unat (get_order pa n)) A) \<and>
       (\<forall>i < unat n. pm_bytes pm' (z + of_nat i) = 0))"
proof -
  from pa_alloc_run [OF assms] obtain z pm' pa' where
    1: "pa_alloc pm pa n = Some (z, pm', pa')"
    and 2: "if z = NULL then pm' = pm \<and> pa' = pa
     else n \<noteq> 0 \<and> pm_run s e fos pm' pa' (insert (unat z, bits pa + unat (get_order pa n)) A) \<and>
       block_in (lo pa) (hi pa) (unat z, bits pa + unat (get_order pa n)) \<and>
       unat n \<le> 2 ^ (bits pa + unat (get_order pa n)) \<and>
       (get_order pa n \<noteq> 0 \<longrightarrow> 2 ^ (bits pa + unat (get_order pa n)) < 2 * unat n)" by blast
  show ?thesis
  proof (cases "z = NULL")
    case True
    then show ?thesis using 1 2 by (simp add: pa_allocz_def)
  next
    case False
    let ?p = "(unat z, bits pa + unat (get_order pa n))" and ?pm = "zero_range z n pm'"
    have 3: "pm_run s e fos pm' pa' (insert ?p A)" "block_in (lo pa) (hi pa) ?p"
      "unat n \<le> 2 ^ (bits pa + unat (get_order pa n))" using 2 False by simp_all
    have "pm_run s e fos ?pm pa' (insert ?p A)"
      using run_write [OF 3(1) zero_range_client [of z n pm'], of "unat z" "bits pa + unat (get_order pa n)"] 3(3)
      by simp
    moreover have "pm_bytes ?pm (z + of_nat i) = 0" if i: "i < unat n" for i
    proof -
      have "unat z + unat n \<le> hi pa" using 3(2,3) by (simp add: block_in_def)
      then have "unat z + i < 2 ^ 64" using i unat_word_bound [of "end_addr pa"] by linarith
      then have "unat (z + of_nat i) = unat z + i" by (simp add: unat_add_noov unat_of_nat_small)
      then show ?thesis using i by (simp add: zero_range_def in_range_def)
    qed
    ultimately show ?thesis using 1 False by (simp add: pa_allocz_def)
  qed
qed

theorem allocz_zeroes_witness:
  "\<exists>pm pa z pm' pa'. pm_run 0x100000 0x200000 4096 pm pa {} \<and> pa_allocz pm pa 5000 = Some (z, pm', pa') \<and>
    (z = NULL \<or> pm_bytes pm' (z + 4999) = 0)"
proof -
  have b: "(12 :: nat) \<le> 30" by simp
  from ex_run obtain pm pa where r: "pm_run 0x100000 0x200000 4096 pm pa {}" by blast
  have "unat (5000 :: usize) < 2 ^ 31" by simp
  from allocz_zeroes [OF ex_zone(1,4) b r this] obtain z pm' pa' where
    1: "pa_allocz pm pa 5000 = Some (z, pm', pa')"
    and 2: "if z = NULL then pm' = pm \<and> pa' = pa
     else pm_run 0x100000 0x200000 4096 pm' pa' (insert (unat z, bits pa + unat (get_order pa 5000)) {}) \<and>
       (\<forall>i < unat (5000 :: usize). pm_bytes pm' (z + of_nat i) = 0)" by blast
  have "z = NULL \<or> pm_bytes pm' (z + 4999) = 0"
  proof (cases "z = NULL")
    case False
    with 2 have "\<forall>i < unat (5000 :: usize). pm_bytes pm' (z + of_nat i) = 0" by simp
    then have "pm_bytes pm' (z + of_nat 4999) = 0" by (rule allE [of _ 4999]) simp
    then show ?thesis by simp
  qed simp
  with 1 r show ?thesis by blast
qed

text \<open>
  \<^verbatim>\<open>get_order_size\<close> shifts the \<^verbatim>\<open>int\<close> 1: a zone whose largest block has 2 GiB would
  be given the sign-extended \<open>0xffffffff80000000\<close> as that block's size, and the order above it size 1.
\<close>

theorem order_size_int_shift:
  assumes "bits pa + unat order = 31 + k" and "k < 2"
  shows "get_order_size pa order = (if k = 0 then 0xffffffff80000000 else 1)"
proof -
  have "int_shl1 31 = 0xffffffff80000000" "int_shl1 32 = 1" by code_simp+
  moreover have "k = 0 \<or> k = 1" using assms(2) by auto
  ultimately show ?thesis using assms(1) by (auto simp: get_order_size_def add.commute)
qed

theorem order_size_int_shift_witness:
  "get_order_size (new_pallocator\<lparr>fo_bits := 15\<rparr>) 16 = 0xffffffff80000000"
  using order_size_int_shift [of "new_pallocator\<lparr>fo_bits := 15\<rparr>" 16 0] by simp

end
