(* ===== verification/Str.thy ===== *)
theory Str
  imports Bits "HOL-Library.Signed_Division"
begin

text \<open>
  Strings, memory blocks and numbers: \<^verbatim>\<open>src/util/string.cpp\<close>. Memory is a map from
  addresses to bytes; a \<^verbatim>\<open>char\<close> is a byte. A loop that may not end, like the search
  for a terminator, has an optional result, and so has a computation that may be undefined.
\<close>

type_synonym bytes = "ptr \<Rightarrow> u8"

abbreviation ch :: "char \<Rightarrow> u8" where "ch \<equiv> of_char"

section \<open>Definitions\<close>

lemma unat_incr: "i < (n :: usize) \<Longrightarrow> unat (i + 1) = Suc (unat i)"
  using unat_add_noov [of i 1] unat_word_bound [of n] by (simp add: word_less_nat_alt)

function memcpy_loop :: "ptr \<Rightarrow> ptr \<Rightarrow> usize \<Rightarrow> usize \<Rightarrow> bytes \<Rightarrow> bytes" where
  "memcpy_loop dest src n i m =
     (if i < n then memcpy_loop dest src n (i + 1) (m(dest + i := m (src + i))) else m)"
  by pat_completeness auto

termination
  by (relation "measure (\<lambda>(d, s, n, i, m). unat n - unat i)") (auto simp: unat_incr word_less_nat_alt)

definition memcpy :: "ptr \<Rightarrow> ptr \<Rightarrow> usize \<Rightarrow> bytes \<Rightarrow> ptr \<times> bytes" where
  "memcpy dest src n m = (dest, memcpy_loop dest src n 0 m)"

function memset_loop :: "ptr \<Rightarrow> usize \<Rightarrow> u8 \<Rightarrow> usize \<Rightarrow> bytes \<Rightarrow> bytes" where
  "memset_loop s n c i m = (if i < n then memset_loop s n c (i + 1) (m(s + i := c)) else m)"
  by pat_completeness auto

termination
  by (relation "measure (\<lambda>(s, n, c, i, m). unat n - unat i)") (auto simp: unat_incr word_less_nat_alt)

definition memset :: "ptr \<Rightarrow> usize \<Rightarrow> u8 \<Rightarrow> bytes \<Rightarrow> bytes" where
  "memset s n c m = memset_loop s n c 0 m"

partial_function (option) strlen_loop :: "bytes \<Rightarrow> ptr \<Rightarrow> usize \<Rightarrow> usize option" where
  "strlen_loop m str out = (if m (str + out) \<noteq> 0 then strlen_loop m str (out + 1) else Some out)"

definition strlen :: "bytes \<Rightarrow> ptr \<Rightarrow> usize option" where
  "strlen m str = strlen_loop m str 0"

partial_function (option) strcmp_loop :: "bytes \<Rightarrow> ptr \<Rightarrow> ptr \<Rightarrow> usize \<Rightarrow> i32 option" where
  "strcmp_loop m str1 str2 i =
     (if m (str1 + i) \<noteq> 0 \<and> m (str2 + i) \<noteq> 0 then
        let temp = m (str1 + i) - m (str2 + i)
        in if temp \<noteq> 0 then Some (scast temp) else strcmp_loop m str1 str2 (i + 1)
      else Some 0)"

definition strcmp :: "bytes \<Rightarrow> ptr \<Rightarrow> ptr \<Rightarrow> i32 option" where
  "strcmp m str1 str2 = strcmp_loop m str1 str2 0"

partial_function (option) strncmp_loop :: "bytes \<Rightarrow> ptr \<Rightarrow> ptr \<Rightarrow> usize \<Rightarrow> usize \<Rightarrow> i32 option" where
  "strncmp_loop m str1 str2 n i =
     (if m (str1 + i) \<noteq> 0 \<and> m (str2 + i) \<noteq> 0 \<and> i < n then
        let temp = m (str1 + i) - m (str2 + i)
        in if temp \<noteq> 0 then Some (scast temp) else strncmp_loop m str1 str2 n (i + 1)
      else Some 0)"

definition strncmp :: "bytes \<Rightarrow> ptr \<Rightarrow> ptr \<Rightarrow> usize \<Rightarrow> i32 option" where
  "strncmp m str1 str2 n = strncmp_loop m str1 str2 n 0"

function revstr_loop :: "ptr \<Rightarrow> usize \<Rightarrow> usize \<Rightarrow> bytes \<Rightarrow> bytes" where
  "revstr_loop str n i m =
     (if i < n div 2 then
        let temp = m (str + i); m = m(str + i := m (str + (n - i - 1))); m = m(str + (n - i - 1) := temp)
        in revstr_loop str n (i + 1) m
      else m)"
  by pat_completeness auto

termination
  by (relation "measure (\<lambda>(s, n, i, m). unat (n div 2) - unat i)") (auto simp: unat_incr word_less_nat_alt)

definition revstr :: "ptr \<Rightarrow> bytes \<Rightarrow> bytes option" where
  "revstr str m = do { n \<leftarrow> strlen m str; Some (revstr_loop str n 0 m) }"

text \<open>The \<^verbatim>\<open>switch\<close> on the digits; other characters make \<^verbatim>\<open>atoi\<close> return 0.\<close>

definition digit_of :: "u8 \<Rightarrow> int option" where
  "digit_of c = (if ch CHR ''0'' \<le> c \<and> c \<le> ch CHR ''9'' then Some (uint (c - ch CHR ''0'')) else None)"

definition int_range :: "int \<Rightarrow> int option" where
  "int_range x = (if - (2 ^ 31) \<le> x \<and> x < 2 ^ 31 then Some x else None)"

text \<open>Signed overflow is undefined. \<^verbatim>\<open>num\<close> is not negative after the conversion of a small power.\<close>

partial_function (option) atoi_loop :: "bytes \<Rightarrow> ptr \<Rightarrow> usize \<Rightarrow> int \<Rightarrow> int \<Rightarrow> u32 option" where
  "atoi_loop m str i out num =
     (if m (str + i) = 0 then Some (word_of_int out)
      else case digit_of (m (str + i)) of
        None \<Rightarrow> Some 0
      | Some d \<Rightarrow> do {
          x \<leftarrow> int_range (d * num);
          out \<leftarrow> int_range (out + x);
          atoi_loop m str (i + 1) out (num sdiv 10)
        })"

definition atoi :: "bytes \<Rightarrow> ptr \<Rightarrow> u32 option" where
  "atoi m str = do {
     n \<leftarrow> strlen m str;
     atoi_loop m str 0 0 (sint (ucast (powi_isize 10 (n - 1)) :: i32))
   }"

definition itoc :: "u32 \<Rightarrow> u8" where
  "itoc num = (if num < 16 then map ch ''0123456789abcdef'' ! unat num else 0)"

text \<open>The loop for \<open>i\<close> from 20 down to 0; the first argument is \<open>i + 1\<close>.\<close>

fun itoa_loop :: "nat \<Rightarrow> ptr \<Rightarrow> u64 \<Rightarrow> usize \<Rightarrow> bool \<Rightarrow> bytes \<Rightarrow> usize \<times> bytes" where
  "itoa_loop 0 str_out num out_i flag m = (out_i, m)"
| "itoa_loop (Suc i) str_out num out_i flag m =
     (let n1 = powu_usize 10 (of_nat i); n2 = num div n1
      in if n2 \<noteq> 0 then itoa_loop i str_out (num - n1 * n2) (out_i + 1) True (m(str_out + out_i := itoc (ucast n2)))
         else if flag then itoa_loop i str_out num (out_i + 1) flag (m(str_out + out_i := ch CHR ''0''))
         else itoa_loop i str_out num out_i flag m)"

definition itoa :: "ptr \<Rightarrow> u64 \<Rightarrow> bytes \<Rightarrow> bytes" where
  "itoa str_out num m =
     (let (out_i, m) = itoa_loop 21 str_out num 0 False m;
          (out_i, m) = (if out_i = 0 then (out_i + 1, m(str_out + out_i := ch CHR ''0'')) else (out_i, m))
      in m(str_out + out_i := 0))"

fun itoa_hex_loop :: "nat \<Rightarrow> ptr \<Rightarrow> u64 \<Rightarrow> bytes \<Rightarrow> bytes" where
  "itoa_hex_loop 0 str_out num m = m"
| "itoa_hex_loop (Suc i) str_out num m =
     itoa_hex_loop i str_out (drop_bit 4 num) (m(str_out + of_nat i := itoc (ucast (num mod 16))))"

definition itoa_hex :: "ptr \<Rightarrow> u64 \<Rightarrow> bytes \<Rightarrow> bytes" where
  "itoa_hex str_out num m = (itoa_hex_loop 16 str_out num m)(str_out + 16 := 0)"

section \<open>Bytes in memory\<close>

definition bytes_at :: "bytes \<Rightarrow> ptr \<Rightarrow> u8 list \<Rightarrow> bool" where
  "bytes_at m p xs \<longleftrightarrow> (\<forall>i < length xs. m (p + of_nat i) = xs ! i)"

text \<open>A terminated string.\<close>

definition cstr :: "bytes \<Rightarrow> ptr \<Rightarrow> u8 list \<Rightarrow> bool" where
  "cstr m p xs \<longleftrightarrow> bytes_at m p (xs @ [0]) \<and> 0 \<notin> set xs \<and> length xs < 2 ^ 64"

definition span :: "ptr \<Rightarrow> nat \<Rightarrow> ptr set" where
  "span p n = {p + of_nat i | i. i < n}"

lemma all_less_add: "(\<forall>i < (n :: nat) + k. P i) \<longleftrightarrow> (\<forall>i < n. P i) \<and> (\<forall>j < k. P (n + j))"
proof (intro iffI conjI allI impI)
  fix i assume a: "(\<forall>i < n. P i) \<and> (\<forall>j < k. P (n + j))" "i < n + k"
  show "P i"
  proof (cases "i < n")
    case False
    then have "i - n < k" "i = n + (i - n)" using a(2) by auto
    then show ?thesis using a(1) by metis
  qed (use a in simp)
qed auto

lemma bytes_at_append: "bytes_at m p (xs @ ys) \<longleftrightarrow> bytes_at m p xs \<and> bytes_at m (p + of_nat (length xs)) ys"
  unfolding bytes_at_def by (simp add: all_less_add nth_append add.assoc)

lemma cstr_nth: "cstr m p xs \<Longrightarrow> i < length xs \<Longrightarrow> m (p + of_nat i) = xs ! i \<and> xs ! i \<noteq> 0"
  unfolding cstr_def bytes_at_append by (auto simp: bytes_at_def dest: nth_mem)

lemma cstr_end: "cstr m p xs \<Longrightarrow> m (p + of_nat (length xs)) = 0"
  unfolding cstr_def bytes_at_append by (simp add: bytes_at_def)

lemma bytes_at_cong: "bytes_at m p xs \<Longrightarrow> (\<And>i. i < length xs \<Longrightarrow> m' (p + of_nat i) = m (p + of_nat i)) \<Longrightarrow> bytes_at m' p xs"
  by (simp add: bytes_at_def)

lemma offset_inj: "i < 2 ^ 64 \<Longrightarrow> j < 2 ^ 64 \<Longrightarrow> p + of_nat i = (p :: ptr) + of_nat j \<longleftrightarrow> i = j"
  by (metis add_left_imp_eq unat_of_nat_small)

lemma less_of_nat: "n < 2 ^ 64 \<Longrightarrow> i < 2 ^ 64 \<Longrightarrow> (of_nat i :: usize) < of_nat n \<longleftrightarrow> i < n"
  by (simp add: word_less_nat_alt unat_of_nat_small)

declare memcpy_loop.simps [simp del] memset_loop.simps [simp del] revstr_loop.simps [simp del]

section \<open>Blocks\<close>

text \<open>The addresses a loop at offset \<open>i\<close> has still to visit.\<close>

definition rest_span :: "ptr \<Rightarrow> nat \<Rightarrow> nat \<Rightarrow> ptr set" where
  "rest_span p i n = {p + of_nat j | j. i \<le> j \<and> j < n}"

lemma rest_span_0: "rest_span p 0 n = span p n"
  by (simp add: rest_span_def span_def)

lemma rest_span_end: "n \<le> i \<Longrightarrow> rest_span p i n = {}"
  by (auto simp: rest_span_def)

lemma rest_span_step: "i < n \<Longrightarrow> rest_span p i n = insert (p + of_nat i) (rest_span p (Suc i) n)"
  by (auto simp: rest_span_def Suc_le_eq le_less)

lemma rest_span_notin: "i < n \<Longrightarrow> n < 2 ^ 64 \<Longrightarrow> p + of_nat i \<notin> rest_span p (Suc i) n"
proof
  assume i: "i < n" "n < 2 ^ 64" and "p + of_nat i \<in> rest_span p (Suc i) n"
  then obtain j where j: "p + of_nat i = p + of_nat j" "Suc i \<le> j" "j < n" by (auto simp: rest_span_def)
  then have "i = j" using offset_inj [of i j p] i by simp
  with j(2) show False by simp
qed

lemma memset_loop_spec:
  "memset_loop s n c i m = (\<lambda>a. if a \<in> rest_span s (unat i) (unat n) then c else m a)"
proof (induction s n c i m rule: memset_loop.induct)
  case (1 s n c i m)
  show ?case
  proof (cases "i < n")
    case True
    then have "unat i < unat n" by (simp add: word_less_nat_alt)
    note st = rest_span_step [OF this, of s]
    have u: "memset_loop s n c i m = memset_loop s n c (i + 1) (m(s + i := c))"
      using True by (subst memset_loop.simps) (rule if_P)
    show ?thesis unfolding u 1 [OF True] unat_incr [OF True] using st by (auto simp: fun_eq_iff)
  next
    case False
    then have "rest_span s (unat i) (unat n) = {}" by (intro rest_span_end) (simp add: word_less_nat_alt)
    then show ?thesis using False by (subst memset_loop.simps) simp
  qed
qed

lemma memcpy_loop_spec:
  assumes "\<And>j k. unat i \<le> j \<Longrightarrow> j < k \<Longrightarrow> k < unat n \<Longrightarrow> dest + of_nat j \<noteq> src + of_nat k"
  shows "memcpy_loop dest src n i m = (\<lambda>a. if a \<in> rest_span dest (unat i) (unat n) then m (src + (a - dest)) else m a)"
  using assms
proof (induction dest src n i m rule: memcpy_loop.induct)
  case (1 dest src n i m)
  show ?case
  proof (cases "i < n")
    case True
    then have i: "unat i < unat n" by (simp add: word_less_nat_alt)
    let ?m = "m(dest + i := m (src + i))"
    have IH: "memcpy_loop dest src n (i + 1) ?m =
        (\<lambda>a. if a \<in> rest_span dest (Suc (unat i)) (unat n) then ?m (src + (a - dest)) else ?m a)"
    proof -
      have "\<And>j k. unat (i + 1) \<le> j \<Longrightarrow> j < k \<Longrightarrow> k < unat n \<Longrightarrow> dest + of_nat j \<noteq> src + of_nat k"
        by (rule 1(2)) (simp_all add: unat_incr [OF True])
      from 1(1) [OF True this] show ?thesis unfolding unat_incr [OF True] .
    qed
    have "dest + i \<notin> rest_span dest (Suc (unat i)) (unat n)"
      using rest_span_notin [OF i, of dest] unat_word_bound [of n] by simp
    moreover have "src + (a - dest) \<noteq> dest + i" if "a \<in> rest_span dest (Suc (unat i)) (unat n)" for a
    proof -
      from that obtain k where k: "a = dest + of_nat k" "unat i < k" "k < unat n" by (auto simp: rest_span_def)
      have "dest + of_nat (unat i) \<noteq> src + of_nat k" by (rule 1(2)) (use k in simp_all)
      then show ?thesis using k(1) by simp
    qed
    moreover have u: "memcpy_loop dest src n i m = memcpy_loop dest src n (i + 1) ?m"
      using True by (subst memcpy_loop.simps) (rule if_P)
    ultimately show ?thesis unfolding u IH using rest_span_step [OF i, of dest] by (auto simp: fun_eq_iff)
  next
    case False
    then have "rest_span dest (unat i) (unat n) = {}" by (intro rest_span_end) (simp add: word_less_nat_alt)
    then show ?thesis using False by (subst memcpy_loop.simps) simp
  qed
qed

text \<open>A forward copy is right unless the destination starts inside the source.\<close>

lemma forward_safe:
  assumes "unat src + unat (n :: usize) \<le> 2 ^ 64" "unat dest + unat n \<le> 2 ^ 64"
    and "unat dest \<le> unat src \<or> unat src + unat n \<le> unat dest" and "j < k" "k < unat n"
  shows "dest + of_nat j \<noteq> (src :: ptr) + of_nat k"
proof -
  have "unat (dest + of_nat j) = unat dest + j" "unat (src + of_nat k) = unat src + k"
    using assms unat_word_bound [of n] by (simp_all add: unat_add_noov unat_of_nat_small)
  then show ?thesis using assms by auto
qed

section \<open>Strings\<close>

lemma cstr_Nil: "cstr m p [] \<longleftrightarrow> m p = 0"
  by (simp add: cstr_def bytes_at_def)

lemma bytes_at_Cons: "bytes_at m p (x # xs) \<longleftrightarrow> m p = x \<and> bytes_at m (p + 1) xs"
  using bytes_at_append [of m p "[x]" xs] by (simp add: bytes_at_def)

lemma cstr_Cons: "cstr m p (x # xs) \<Longrightarrow> m p = x \<and> x \<noteq> 0 \<and> cstr m (p + 1) xs"
  by (simp add: cstr_def bytes_at_Cons)

lemma strlen_loop_spec: "cstr m (p + of_nat i) xs \<Longrightarrow> strlen_loop m p (of_nat i) = Some (of_nat (i + length xs))"
proof (induction xs arbitrary: i)
  case Nil
  then show ?case by (subst strlen_loop.simps) (simp add: cstr_Nil)
next
  case (Cons x xs)
  have "m (p + of_nat i) \<noteq> 0" "cstr m (p + of_nat (Suc i)) xs"
    using cstr_Cons [OF Cons.prems] by (simp_all add: ac_simps)
  with Cons.IH [OF this(2)] show ?case by (subst strlen_loop.simps) (simp add: add.commute)
qed

lemma strlen_spec: "cstr m p xs \<Longrightarrow> strlen m p = Some (of_nat (length xs))"
  using strlen_loop_spec [of m p 0 xs] by (simp add: strlen_def)

text \<open>What \<^verbatim>\<open>strcmp\<close> computes: the first difference inside the common length.\<close>

fun cmp_str :: "u8 list \<Rightarrow> u8 list \<Rightarrow> i32" where
  "cmp_str (x # xs) (y # ys) = (if x \<noteq> y then scast (x - y) else cmp_str xs ys)"
| "cmp_str _ _ = 0"

lemma strcmp_loop_spec:
  "cstr m (p + of_nat i) xs \<Longrightarrow> cstr m (q + of_nat i) ys \<Longrightarrow> strcmp_loop m p q (of_nat i) = Some (cmp_str xs ys)"
proof (induction xs ys arbitrary: i rule: cmp_str.induct)
  case (1 x xs y ys)
  have h: "m (p + of_nat i) = x" "x \<noteq> 0" "cstr m (p + of_nat (Suc i)) xs"
    "m (q + of_nat i) = y" "y \<noteq> 0" "cstr m (q + of_nat (Suc i)) ys"
    using cstr_Cons [OF "1.prems"(1)] cstr_Cons [OF "1.prems"(2)] by (simp_all add: ac_simps)
  show ?case
  proof (cases "x = y")
    case True
    with "1.IH" [OF _ h(3,6)] h show ?thesis by (subst strcmp_loop.simps) (simp add: add.commute)
  next
    case False
    with h show ?thesis by (subst strcmp_loop.simps) simp
  qed
qed (subst strcmp_loop.simps, simp add: cstr_Nil)+

lemma sint_scast8: "sint (scast (x :: u8) :: i32) = sint x"
proof -
  have "- (2 ^ 31) \<le> sint x" "sint x < 2 ^ 31"
    using sint_greater_eq [of x] sint_lt [of x] by simp_all
  then show ?thesis by (simp add: signed_scast_eq signed_take_bit_int_eq_self)
qed

lemma scast_nz: "scast (x :: u8) = (0 :: i32) \<longleftrightarrow> x = 0"
  by (metis sint_scast8 signed_0 signed_eq_0_iff)

lemma cmp_str_zero: "cmp_str xs ys = 0 \<longleftrightarrow> take (min (length xs) (length ys)) xs = take (min (length xs) (length ys)) ys"
  by (induction xs ys rule: cmp_str.induct) (auto simp: scast_nz)

text \<open>The loop exchanges the ends and works inwards.\<close>

lemma revstr_loop_spec:
  assumes n: "n < 2 ^ 64"
  shows "i \<le> n \<Longrightarrow> revstr_loop p (of_nat n) (of_nat i) m =
    (\<lambda>a. if a \<in> rest_span p i (n - i) then m (p + of_nat (n - 1) - (a - p)) else m a)"
proof (induction "n div 2 - i" arbitrary: i m)
  case 0
  have "\<not> (of_nat i :: usize) < of_nat n div 2"
    using 0 n by (simp add: word_less_nat_alt unat_div unat_of_nat_small)
  then have u: "revstr_loop p (of_nat n) (of_nat i) m = m" by (subst revstr_loop.simps) (rule if_not_P)
  have id: "p + of_nat (n - 1) - (a - p) = a" if "a \<in> rest_span p i (n - i)" for a
  proof -
    from that obtain j where j: "a = p + of_nat j" "i \<le> j" "j < n - i" by (auto simp: rest_span_def)
    then have "n - 1 = j + j" using 0 by linarith
    then show ?thesis using j(1) by simp
  qed
  show ?case unfolding u by (rule ext) (simp only: id if_cancel cong: if_cong)
next
  case (Suc k)
  then have i: "i < n div 2" "i < n - i" "Suc i \<le> n" "i < n" by auto
  have c: "(of_nat i :: usize) < of_nat n div 2"
    using i(1) n by (simp add: word_less_nat_alt unat_div unat_of_nat_small)
  let ?e = "n - 1 - i"
  have e: "of_nat n - of_nat i - 1 = (of_nat ?e :: usize)" using i(4) by (simp add: of_nat_diff)
  let ?m = "m(p + of_nat i := m (p + of_nat ?e), p + of_nat ?e := m (p + of_nat i))"
  have u: "revstr_loop p (of_nat n) (of_nat i) m = revstr_loop p (of_nat n) (of_nat (Suc i)) ?m"
    using c by (subst revstr_loop.simps) (simp add: Let_def e add.commute)
  have IH: "revstr_loop p (of_nat n) (of_nat (Suc i)) ?m =
      (\<lambda>a. if a \<in> rest_span p (Suc i) (n - Suc i) then ?m (p + of_nat (n - 1) - (a - p)) else ?m a)"
    using Suc.hyps(2) i by (intro Suc.hyps(1)) auto
  have d: "p + of_nat i \<noteq> p + of_nat ?e" using i n offset_inj [of i ?e p] by auto
  have "(if a \<in> rest_span p (Suc i) (n - Suc i) then ?m (p + of_nat (n - 1) - (a - p)) else ?m a) =
      (if a \<in> rest_span p i (n - i) then m (p + of_nat (n - 1) - (a - p)) else m a)" for a
  proof (cases "a \<in> rest_span p i (n - i)")
    case True
    then obtain j where j: "a = p + of_nat j" "i \<le> j" "j < n - i" by (auto simp: rest_span_def)
    have b: "p + of_nat (n - 1) - (a - p) = p + of_nat (n - 1 - j)"
      using j i(4) by (simp add: of_nat_diff)
    have inj: "p + of_nat x = p + of_nat y \<longleftrightarrow> x = y" if "x < n" "y < n" for x y
      using that n by (intro offset_inj) simp_all
    have mem: "a \<in> rest_span p (Suc i) (n - Suc i) \<longleftrightarrow> Suc i \<le> j \<and> j < n - Suc i"
      using j inj i by (auto simp: rest_span_def)
    consider "j = i" | "j = ?e" "j \<noteq> i" | "Suc i \<le> j" "j < n - Suc i" using j by linarith
    then show ?thesis
    proof cases
      case 1
      then show ?thesis unfolding b if_P [OF True] using mem j(1) d by simp
    next
      case 2
      have "\<not> j < n - Suc i" "n - 1 - j = i" using 2(1) i by auto
      then show ?thesis unfolding b if_P [OF True] using mem j(1) 2 by simp
    next
      case 3
      have "n - 1 - j \<noteq> i" "n - 1 - j \<noteq> ?e" using 3 i by auto
      then have "?m (p + of_nat (n - 1 - j)) = m (p + of_nat (n - 1 - j))"
        using inj [of "n - 1 - j" i] inj [of "n - 1 - j" ?e] i by auto
      then show ?thesis unfolding b if_P [OF True] using mem 3 by simp
    qed
  next
    case False
    have 1: "p + of_nat i \<in> rest_span p i (n - i)"
      unfolding rest_span_def mem_Collect_eq by (rule exI [of _ i]) (use i in auto)
    have "i \<le> ?e" "?e < n - i" using i by auto
    then have 2: "p + of_nat ?e \<in> rest_span p i (n - i)"
      unfolding rest_span_def mem_Collect_eq by (intro exI [of _ ?e] conjI refl)
    have 3: "rest_span p (Suc i) (n - Suc i) \<subseteq> rest_span p i (n - i)"
      unfolding rest_span_def by force
    have "a \<noteq> p + of_nat i" "a \<noteq> p + of_nat ?e" "a \<notin> rest_span p (Suc i) (n - Suc i)"
      using False 1 2 3 by blast+
    then show ?thesis using False by (simp only: if_False fun_upd_apply simp_thms)
  qed
  then show ?case unfolding u IH by (rule ext)
qed

section \<open>Decimal numbers\<close>

fun dec :: "nat \<Rightarrow> nat list" where
  "dec n = (if n < 10 then [n] else dec (n div 10) @ [n mod 10])"

declare dec.simps [simp del]

definition dec_str :: "nat \<Rightarrow> u8 list" where
  "dec_str n = map (\<lambda>d. of_nat (48 + d)) (dec n)"

definition dec_val :: "nat list \<Rightarrow> nat" where
  "dec_val ds = foldl (\<lambda>a d. 10 * a + d) 0 ds"

lemma dec_val_append: "dec_val (ds @ [d]) = 10 * dec_val ds + d"
  by (simp add: dec_val_def)

lemma dec_val_Cons: "dec_val (d # ds) = d * 10 ^ length ds + dec_val ds"
proof (induction ds rule: rev_induct)
  case (snoc x xs)
  then show ?case using dec_val_append [of "d # xs" x] by (simp add: dec_val_append)
qed (simp add: dec_val_def)

lemma dec_val_dec: "dec_val (dec n) = n"
proof (induction n rule: dec.induct)
  case (1 n)
  then show ?case by (subst dec.simps) (simp add: dec_val_append, simp add: dec_val_def)
qed

lemma dec_digits: "d \<in> set (dec n) \<Longrightarrow> d < 10"
proof (induction n rule: dec.induct)
  case (1 n)
  show ?case
  proof (cases "n < 10")
    case True
    then show ?thesis using "1.prems" by (subst (asm) dec.simps) simp
  next
    case False
    then show ?thesis using "1.prems" "1.IH" by (subst (asm) dec.simps) auto
  qed
qed

text \<open>The \<open>k\<close> lowest digits.\<close>

definition pad :: "nat \<Rightarrow> nat \<Rightarrow> nat list" where
  "pad k n = map (\<lambda>j. n div 10 ^ j mod 10) (rev [0..<k])"

lemma length_pad [simp]: "length (pad k n) = k" by (simp add: pad_def)

lemma pad_0 [simp]: "pad 0 n = []" by (simp add: pad_def)

lemma pad_Suc: "pad (Suc k) n = (n div 10 ^ k mod 10) # pad k n" by (simp add: pad_def)

lemma pad_mod: "k \<le> i \<Longrightarrow> pad k (n mod 10 ^ i) = pad k n"
proof -
  assume k: "k \<le> i"
  have "n mod 10 ^ i div 10 ^ j mod 10 = n div 10 ^ j mod 10" if j: "j < k" for j
  proof -
    have "(10 :: nat) ^ i = 10 ^ j * 10 ^ (i - j)" using j k by (simp flip: power_add)
    then have "n mod 10 ^ i div 10 ^ j = n div 10 ^ j mod 10 ^ (i - j)" by (simp add: div_mult2_eq mod_mult2_eq)
    moreover have "(10 :: nat) dvd 10 ^ (i - j)" using j k by (simp add: dvd_power)
    ultimately show ?thesis by (simp add: mod_mod_cancel)
  qed
  then show ?thesis by (simp add: pad_def)
qed

lemma pad_snoc: "pad (Suc k) n = pad k (n div 10) @ [n mod 10]"
proof (induction k)
  case (Suc k)
  have "n div 10 ^ Suc k mod 10 = n div 10 div 10 ^ k mod 10" by (simp add: div_mult2_eq)
  then show ?case using Suc pad_Suc [of "Suc k" n] pad_Suc [of k "n div 10"] by simp
qed (simp add: pad_def)

lemma dec_pad: "10 ^ k \<le> n \<Longrightarrow> n < 10 ^ Suc k \<Longrightarrow> dec n = pad (Suc k) n"
proof (induction k arbitrary: n)
  case 0
  then show ?case by (subst dec.simps) (simp add: pad_Suc)
next
  case (Suc k)
  have "10 ^ Suc k div 10 \<le> n div 10" using Suc.prems(1) by (rule div_le_mono)
  then have 1: "10 ^ k \<le> n div 10" by simp
  have 2: "n div 10 < 10 ^ Suc k" by (rule less_mult_imp_div_less) (use Suc.prems(2) in simp)
  have "(10 :: nat) * 1 \<le> 10 * 10 ^ k" by (rule mult_le_mono2) simp
  then have 3: "\<not> n < 10" using Suc.prems(1) unfolding power_Suc by linarith
  have "dec n = dec (n div 10) @ [n mod 10]" using 3 by (subst dec.simps) simp
  also have "\<dots> = pad (Suc (Suc k)) n" unfolding Suc.IH [OF 1 2] pad_snoc [of "Suc k"] ..
  finally show ?case .
qed

text \<open>What the loop of \<^verbatim>\<open>itoa\<close> prints from place \<open>k - 1\<close> down.\<close>

definition emit :: "nat \<Rightarrow> nat \<Rightarrow> bool \<Rightarrow> nat list" where
  "emit k n flag = (if flag then pad k n else if n = 0 then [] else dec n)"

lemma emit_Suc:
  assumes "n < 10 ^ Suc k"
  shows "emit (Suc k) n flag =
    (if n div 10 ^ k \<noteq> 0 then (n div 10 ^ k) # emit k (n mod 10 ^ k) True
     else if flag then 0 # emit k n True else emit k n False)"
proof (cases "n div 10 ^ k = 0")
  case True
  then have "n < 10 ^ k" by (simp add: div_eq_0_iff)
  with True show ?thesis by (simp add: emit_def pad_Suc)
next
  case False
  then have k: "10 ^ k \<le> n" by (metis div_less not_less)
  then have n: "n \<noteq> 0" by (metis le_zero_eq power_eq_0_iff zero_neq_numeral)
  have "n div 10 ^ k < 10" using assms by (simp add: less_mult_imp_div_less)
  then have "pad (Suc k) n = (n div 10 ^ k) # pad k (n mod 10 ^ k)" by (simp add: pad_Suc pad_mod)
  then show ?thesis using False n dec_pad [OF k assms] by (simp add: emit_def)
qed

section \<open>Printing and reading numbers\<close>

fun write_at :: "ptr \<Rightarrow> u8 list \<Rightarrow> bytes \<Rightarrow> bytes" where
  "write_at p [] m = m"
| "write_at p (x # xs) m = write_at (p + 1) xs (m(p := x))"

lemma write_at_append: "write_at p (xs @ ys) m = write_at (p + of_nat (length xs)) ys (write_at p xs m)"
  by (induction xs arbitrary: p m) (simp_all add: ac_simps)

lemma write_at_other: "a \<notin> span p (length xs) \<Longrightarrow> write_at p xs m a = m a"
proof (induction xs arbitrary: p m)
  case (Cons x xs)
  have "a \<noteq> p" "a \<notin> span (p + 1) (length xs)"
  proof -
    have "p + of_nat 0 \<in> span p (length (x # xs))" unfolding span_def mem_Collect_eq
      by (intro exI [of _ 0] conjI refl) simp
    then show "a \<noteq> p" using Cons.prems by auto
    show "a \<notin> span (p + 1) (length xs)"
    proof
      assume "a \<in> span (p + 1) (length xs)"
      then obtain i where "a = p + 1 + of_nat i" "i < length xs" by (auto simp: span_def)
      then have "a = p + of_nat (Suc i)" "Suc i < length (x # xs)" by simp_all
      with Cons.prems show False unfolding span_def by blast
    qed
  qed
  with Cons.IH show ?case by simp
qed simp

lemma write_at_read: "length xs < 2 ^ 64 \<Longrightarrow> bytes_at (write_at p xs m) p xs"
proof (induction xs rule: rev_induct)
  case (snoc x xs)
  let ?m = "write_at p xs m"
  have "bytes_at ?m p xs" using snoc by simp
  then have "bytes_at (?m(p + of_nat (length xs) := x)) p xs"
    by (rule bytes_at_cong) (use snoc.prems offset_inj [of _ "length xs" p] in auto)
  then show ?case by (simp add: write_at_append bytes_at_append) (simp add: bytes_at_def)
qed (simp add: bytes_at_def)

lemma pow_loop_eq: "pow_loop a n out = out * a ^ n"
  by (induction n arbitrary: out) (simp_all add: mult.assoc power_commutes)

lemma ten_pow_bound: "i \<le> 19 \<Longrightarrow> (10 :: nat) ^ i < 2 ^ 64"
proof -
  assume "i \<le> 19"
  then have "(10 :: nat) ^ i \<le> 10 ^ 19" by (intro power_increasing) simp_all
  then show ?thesis by (rule le_less_trans) simp
qed

lemma powu_ten: "i \<le> 19 \<Longrightarrow> unat (powu_usize 10 (of_nat i)) = 10 ^ i"
proof -
  assume i: "i \<le> 19"
  then have "i < 2 ^ 64" by (rule le_less_trans) simp
  then have "powu_usize 10 (of_nat i) = of_nat (10 ^ i)"
    by (simp add: powu_usize_def pow_loop_eq unat_of_nat_small)
  then show ?thesis using ten_pow_bound [OF i] by (simp only: unat_of_nat_small)
qed

abbreviation dchar :: "nat \<Rightarrow> u8" where "dchar d \<equiv> of_nat (48 + d)"

lemma itoc_digit: "d < 10 \<Longrightarrow> itoc (of_nat d) = dchar d"
proof -
  assume "d < 10"
  then have "d = 0 \<or> d = 1 \<or> d = 2 \<or> d = 3 \<or> d = 4 \<or> d = 5 \<or> d = 6 \<or> d = 7 \<or> d = 8 \<or> d = 9" by presburger
  then show ?thesis by (elim disjE) (simp_all add: itoc_def)
qed

lemma itoa_loop_spec:
  "k \<le> 20 \<Longrightarrow> unat num < 10 ^ k \<Longrightarrow> itoa_loop k p num oi flag m =
    (oi + of_nat (length (emit k (unat num) flag)), write_at (p + oi) (map dchar (emit k (unat num) flag)) m)"
proof (induction k arbitrary: num oi flag m)
  case 0
  then show ?case by (simp add: emit_def)
next
  case (Suc k)
  let ?n1 = "powu_usize 10 (of_nat k)"
  have n1: "unat ?n1 = 10 ^ k" using Suc.prems by (intro powu_ten) simp
  let ?n2 = "num div ?n1"
  have n2: "unat ?n2 = unat num div 10 ^ k" by (simp add: unat_div n1)
  have d: "unat ?n2 < 10" unfolding n2 using Suc.prems(2) by (simp add: less_mult_imp_div_less)
  have rem: "num - ?n1 * ?n2 = num mod ?n1" by (simp add: minus_mult_div_eq_mod)
  have r: "unat (num mod ?n1) = unat num mod 10 ^ k" by (simp add: unat_mod n1)
  have "ucast ?n2 = (of_nat (unat ?n2) :: u32)" by simp
  then have c: "itoc (ucast ?n2) = dchar (unat num div 10 ^ k)" using itoc_digit [OF d] n2 by metis
  note e = emit_Suc [OF Suc.prems(2), of flag]
  have z: "?n2 \<noteq> 0 \<longleftrightarrow> unat num div 10 ^ k \<noteq> 0" unfolding n2 [symmetric] by (simp add: unat_eq_zero)
  show ?case
  proof (cases "?n2 \<noteq> 0")
    case True
    have "unat (num mod ?n1) < 10 ^ k" by (simp add: r)
    from Suc.IH [OF _ this] Suc.prems(1) True show ?thesis
      unfolding itoa_loop.simps Let_def rem c e using z by (simp add: r ac_simps)
  next
    case False
    then have s: "unat num < 10 ^ k" using z by (simp add: div_eq_0_iff)
    have zero: "ch CHR ''0'' = dchar 0" by simp
    show ?thesis
      using False z Suc.IH [OF _ s] Suc.prems(1) unfolding itoa_loop.simps Let_def e zero
      by (simp add: ac_simps)
  qed
qed

lemma dec_nonempty [simp]: "dec n \<noteq> []"
  by (subst dec.simps) simp

lemma dec_length: "n \<noteq> 0 \<Longrightarrow> 10 ^ (length (dec n) - 1) \<le> n"
proof (induction n rule: dec.induct)
  case (1 n)
  show ?case
  proof (cases "n < 10")
    case True
    then have "dec n = [n]" by (subst dec.simps) simp
    then show ?thesis using "1.prems" by simp
  next
    case False
    then have "n div 10 \<noteq> 0" by (simp add: div_eq_0_iff)
    with "1.IH" False have IH: "10 ^ (length (dec (n div 10)) - 1) \<le> n div 10" by blast
    have l: "length (dec n) - 1 = Suc (length (dec (n div 10)) - 1)" using False by (subst dec.simps) simp
    have "10 ^ (length (dec n) - 1) = 10 * (10 :: nat) ^ (length (dec (n div 10)) - 1)" by (simp only: l power_Suc)
    also have "\<dots> \<le> n" using IH by linarith
    finally show ?thesis .
  qed
qed

lemma dec_length_word: "n < 2 ^ 64 \<Longrightarrow> length (dec n) \<le> 20"
proof (cases "n = 0")
  case True
  then show ?thesis by (subst dec.simps) simp
next
  case False
  assume "n < 2 ^ 64"
  then have "(10 :: nat) ^ (length (dec n) - 1) < 10 ^ 20" using dec_length [OF False] by simp
  then have "length (dec n) - 1 < 20" by (rule power_less_imp_less_exp [rotated]) simp
  then show ?thesis by simp
qed

lemma itoa_spec:
  assumes "num < 7766279631452241920"
  shows "itoa p num m = write_at p (dec_str (unat num) @ [0]) m"
proof -
  have p20: "powu_usize 10 (of_nat 20) = 7766279631452241920" by (simp add: powu_usize_def pow_loop_eq)
  have z: "num div powu_usize 10 (of_nat 20) = 0"
    unfolding p20 using assms by (simp add: word_arith_nat_div word_less_nat_alt)
  have t: "itoa_loop 21 p num 0 False m = itoa_loop 20 p num 0 False m"
    using z itoa_loop.simps(2) [of 20 p num 0 False m] by (simp add: Let_def numeral_eq_Suc)
  have "unat num < 10 ^ 20" using unat_word_bound [of num] by (rule less_trans) simp
  from itoa_loop_spec [OF _ this, of p 0 False m] have
    l: "itoa_loop 21 p num 0 False m = (of_nat (length (emit 20 (unat num) False)),
      write_at p (map dchar (emit 20 (unat num) False)) m)" unfolding t by simp
  show ?thesis
  proof (cases "num = 0")
    case True
    have "dec 0 = [0]" by (subst dec.simps) simp
    then show ?thesis using True l by (simp add: itoa_def emit_def dec_str_def)
  next
    case False
    have len: "length (dec (unat num)) \<le> 20" using unat_word_bound by (rule dec_length_word)
    then have "unat (of_nat (length (dec (unat num))) :: usize) = length (dec (unat num))"
      by (intro unat_of_nat_small) simp
    then have "(of_nat (length (dec (unat num))) :: usize) \<noteq> 0" by (metis dec_nonempty length_0_conv unat_0)
    then show ?thesis using False by (simp add: itoa_def l emit_def dec_str_def write_at_append unat_eq_zero)
  qed
qed

lemma dchar_nz: "d < 10 \<Longrightarrow> dchar d \<noteq> 0"
proof -
  assume "d < 10"
  then have "unat (dchar d) = 48 + d" by (simp add: unsigned_of_nat take_bit_nat_eq_self del: of_nat_add)
  then show ?thesis by (metis add_is_0 unat_0 zero_neq_numeral)
qed

lemma itoa_cstr:
  assumes "num < 7766279631452241920"
  shows "cstr (itoa p num m) p (dec_str (unat num))"
proof -
  have "length (dec (unat num)) \<le> 20" using unat_word_bound by (rule dec_length_word)
  then have l: "length (dec_str (unat num) @ [0]) < 2 ^ 64" "length (dec_str (unat num)) < 2 ^ 64"
    by (simp_all add: dec_str_def)
  from write_at_read [OF l(1)] have "bytes_at (itoa p num m) p (dec_str (unat num) @ [0])"
    unfolding itoa_spec [OF assms] .
  moreover have "0 \<notin> set (dec_str (unat num))"
    using dchar_nz dec_digits unfolding dec_str_def by (metis (no_types, lifting) imageE list.set_map)
  ultimately show ?thesis using l(2) by (simp add: cstr_def)
qed

lemma digit_of_dchar: "d < 10 \<Longrightarrow> digit_of (dchar d) = Some (int d)"
proof -
  assume "d < 10"
  then have "d = 0 \<or> d = 1 \<or> d = 2 \<or> d = 3 \<or> d = 4 \<or> d = 5 \<or> d = 6 \<or> d = 7 \<or> d = 8 \<or> d = 9" by presburger
  then show ?thesis by (elim disjE) (simp_all add: digit_of_def)
qed

lemma int_range_ok: "x < 2 ^ 31 \<Longrightarrow> int_range (int x) = Some (int x)"
  by (simp add: int_range_def)

lemma atoi_loop_spec:
  assumes "\<And>d. d \<in> set ds \<Longrightarrow> d < 10" "cstr m (p + of_nat i) (map dchar ds)" "ds \<noteq> [] \<Longrightarrow> num = 10 ^ (length ds - 1)"
    and "acc + dec_val ds < 2 ^ 31"
  shows "atoi_loop m p (of_nat i) (int acc) num = Some (of_nat (acc + dec_val ds))"
  using assms
proof (induction ds arbitrary: i acc num)
  case Nil
  then show ?case by (subst atoi_loop.simps) (simp add: cstr_Nil dec_val_def)
next
  case (Cons d ds)
  have d: "d < 10" using Cons.prems(1) by simp
  have c: "m (p + of_nat i) = dchar d" "dchar d \<noteq> 0" "cstr m (p + of_nat (Suc i)) (map dchar ds)"
    using cstr_Cons [of m "p + of_nat i" "dchar d" "map dchar ds"] Cons.prems(2) by (simp_all add: ac_simps)
  have num: "num = int (10 ^ length ds)" using Cons.prems(3) by simp
  have v: "dec_val (d # ds) = d * 10 ^ length ds + dec_val ds" by (rule dec_val_Cons)
  have x: "int d * num = int (d * 10 ^ length ds)" by (simp add: num)
  have r1: "int_range (int d * num) = Some (int (d * 10 ^ length ds))"
    unfolding x by (rule int_range_ok) (use Cons.prems(4) v in linarith)
  have r2: "int_range (int acc + int (d * 10 ^ length ds)) = Some (int (acc + d * 10 ^ length ds))"
    unfolding of_nat_add [symmetric] by (rule int_range_ok) (use Cons.prems(4) v in linarith)
  have dv: "ds \<noteq> [] \<Longrightarrow> num sdiv 10 = 10 ^ (length ds - 1)"
    by (cases ds) (simp_all add: num signed_divide_int_def)
  have bound: "acc + d * 10 ^ length ds + dec_val ds < 2 ^ 31" using Cons.prems(4) v by linarith
  have "atoi_loop m p (of_nat (Suc i)) (int (acc + d * 10 ^ length ds)) (num sdiv 10) =
      Some (of_nat (acc + d * 10 ^ length ds + dec_val ds))"
    by (rule Cons.IH [OF _ c(3) dv bound]) (use Cons.prems(1) in simp)
  moreover have "(of_nat i :: usize) + 1 = of_nat (Suc i)" by simp
  ultimately show ?case
    using c(1,2) r1 r2 unfolding v by (subst atoi_loop.simps) (simp only: digit_of_dchar [OF d] option.case if_False bind.bind_lunit add.assoc)
qed

lemma powi_ten: "k \<le> 9 \<Longrightarrow> sint (ucast (powi_isize 10 (of_nat k)) :: i32) = 10 ^ k"
proof -
  assume k: "k \<le> 9"
  have "k < 2 ^ 64" by (rule le_less_trans [OF k]) simp
  then have p: "powi_isize 10 (of_nat k) = of_nat (10 ^ k)"
    by (simp add: powi_isize_def pow_loop_eq unat_of_nat_small)
  have "(10 :: nat) ^ k \<le> 10 ^ 9" using k by (intro power_increasing) simp_all
  then have b: "(10 :: nat) ^ k \<le> 1000000000" by simp
  have "ucast (of_nat (10 ^ k) :: 64 word) = (of_nat (10 ^ k) :: i32)"
    using b by (simp add: unsigned_of_nat take_bit_nat_eq_self del: of_nat_power)
  moreover have "signed_take_bit 31 (int (10 ^ k)) = int (10 ^ k)"
    by (rule signed_take_bit_int_eq_self) (use b in \<open>simp_all flip: of_nat_power\<close>)
  ultimately show ?thesis unfolding p by (simp add: signed_of_nat del: of_nat_power)
qed

lemma atoi_dec:
  assumes n: "n < 2 ^ 31" and c: "cstr m p (dec_str n)"
  shows "atoi m p = Some (of_nat n)"
proof -
  obtain k where len: "length (dec n) = Suc k" by (cases "length (dec n)") simp_all
  have k: "k \<le> 9"
  proof (cases "n = 0")
    case True
    then have "dec n = [0]" by (subst dec.simps) simp
    with len show ?thesis by simp
  next
    case False
    have "(10 :: nat) ^ k < 10 ^ 10" using dec_length [OF False] n len by simp
    then have "k < 10" by (rule power_less_imp_less_exp [rotated]) simp
    then show ?thesis by simp
  qed
  have s: "strlen m p = Some (of_nat (Suc k))" using strlen_spec [OF c] by (simp add: dec_str_def len)
  have e: "(of_nat (Suc k) :: usize) - 1 = of_nat k" by simp
  have "atoi_loop m p (of_nat 0) (int 0) (10 ^ k) = Some (of_nat (0 + dec_val (dec n)))"
    by (rule atoi_loop_spec) (use c dec_digits n len in \<open>simp_all add: dec_str_def dec_val_dec\<close>)
  then show ?thesis by (simp add: atoi_def s e powi_ten [OF k] dec_val_dec del: of_nat_Suc)
qed

text \<open>Hexadecimal digits, most significant first.\<close>

definition hexc :: "nat \<Rightarrow> u8" where "hexc d = map ch ''0123456789abcdef'' ! d"

definition hex_str :: "nat \<Rightarrow> u8 list" where
  "hex_str n = map (\<lambda>j. hexc (n div 16 ^ (15 - j) mod 16)) [0..<16]"

definition hex_digit :: "u8 \<Rightarrow> nat" where
  "hex_digit c = (if c \<le> ch CHR ''9'' then unat (c - ch CHR ''0'') else unat (c - ch CHR ''a'') + 10)"

definition hex_val :: "u8 list \<Rightarrow> nat" where
  "hex_val xs = foldl (\<lambda>a c. 16 * a + hex_digit c) 0 xs"

lemma hex_cases: "d < 16 \<Longrightarrow> d = 0 \<or> d = 1 \<or> d = 2 \<or> d = 3 \<or> d = 4 \<or> d = 5 \<or> d = 6 \<or> d = 7 \<or>
    d = 8 \<or> d = 9 \<or> d = 10 \<or> d = 11 \<or> d = 12 \<or> d = 13 \<or> d = 14 \<or> d = (15 :: nat)"
  by presburger

lemma hex_digit_hexc: "d < 16 \<Longrightarrow> hex_digit (hexc d) = d \<and> hexc d \<noteq> 0"
  by (drule hex_cases) (elim disjE; simp add: hexc_def hex_digit_def)

lemma span_notin:
  assumes "n \<le> k" "k < 2 ^ 64"
  shows "p + of_nat k \<notin> span p n"
proof
  assume "p + of_nat k \<in> span p n"
  then obtain i where i: "p + of_nat k = p + of_nat i" "i < n" by (auto simp: span_def)
  then have "k = i" using offset_inj [of k i p] assms by simp
  with i(2) assms(1) show False by simp
qed

lemma itoa_hex_loop_spec:
  assumes "k \<le> 16"
  shows "(j < k \<longrightarrow> itoa_hex_loop k p num m (p + of_nat j) = hexc (unat num div 16 ^ (k - 1 - j) mod 16)) \<and>
    (a \<notin> span p k \<longrightarrow> itoa_hex_loop k p num m a = m a)"
  using assms
proof (induction k arbitrary: num m a j)
  case 0
  then show ?case by simp
next
  case (Suc k)
  let ?m = "m(p + of_nat k := itoc (ucast (num mod 16)))"
  have u: "itoa_hex_loop (Suc k) p num m = itoa_hex_loop k p (drop_bit 4 num) ?m" by simp
  have d: "unat (drop_bit 4 num) = unat num div 16" by (simp add: drop_bit_eq_div unat_div)
  have "unat (num mod 16) = unat num mod 16" by (simp add: unat_mod)
  then have "unat (ucast (num mod 16) :: u32) = unat num mod 16"
    by (simp add: unsigned_ucast_eq take_bit_nat_eq_self)
  then have c: "itoc (ucast (num mod 16)) = hexc (unat num mod 16)"
    by (simp add: itoc_def hexc_def word_less_nat_alt)
  have k: "k \<notin> {..<k}" by simp
  have notin: "p + of_nat k \<notin> span p k"
    by (rule span_notin) (use Suc.prems in simp_all)
  have inc: "span p k \<subseteq> span p (Suc k)" "p + of_nat k \<in> span p (Suc k)" unfolding span_def by force+
  have "itoa_hex_loop (Suc k) p num m (p + of_nat j) = hexc (unat num div 16 ^ (Suc k - 1 - j) mod 16)" if "j < Suc k"
  proof (cases "j = k")
    case True
    have "itoa_hex_loop k p (drop_bit 4 num) ?m (p + of_nat k) = ?m (p + of_nat k)"
      using Suc.IH [of 0 "drop_bit 4 num" ?m "p + of_nat k"] Suc_leD [OF Suc.prems] notin by blast
    then show ?thesis unfolding u True c by simp
  next
    case False
    then have "Suc k - 1 - j = Suc (k - 1 - j)" and "j < k" using that by auto
    have "itoa_hex_loop k p (drop_bit 4 num) ?m (p + of_nat j) = hexc (unat num div 16 div 16 ^ (k - 1 - j) mod 16)"
      using Suc.IH [of j "drop_bit 4 num" ?m] Suc_leD [OF Suc.prems] \<open>j < k\<close> unfolding d by blast
    then show ?thesis unfolding u \<open>Suc k - 1 - j = _\<close> power_Suc div_mult2_eq .
  qed
  moreover have "itoa_hex_loop (Suc k) p num m a = m a" if "a \<notin> span p (Suc k)"
  proof -
    have "itoa_hex_loop k p (drop_bit 4 num) ?m a = ?m a"
      using Suc.IH [of 0 "drop_bit 4 num" ?m a] Suc_leD [OF Suc.prems] that inc by blast
    moreover have "a \<noteq> p + of_nat k" using that inc by blast
    ultimately show ?thesis unfolding u by simp
  qed
  ultimately show ?case by blast
qed

lemma hex_val_hex_str: "n < 2 ^ 64 \<Longrightarrow> hex_val (hex_str n) = n"
proof -
  assume n: "n < 2 ^ 64"
  have g: "foldl (\<lambda>a c. 16 * a + hex_digit c) 0 (map (\<lambda>j. hexc (n div 16 ^ (15 - j) mod 16)) [0..<k]) = n div 16 ^ (16 - k)"
    if "k \<le> 16" for k
    using that
  proof (induction k)
    case 0
    then show ?case using n by simp
  next
    case (Suc k)
    have e: "16 - k = Suc (15 - k)" using Suc.prems by simp
    have "n div 16 ^ (16 - k) = n div 16 ^ (15 - k) div 16" unfolding e power_Suc2 div_mult2_eq ..
    then show ?case using Suc hex_digit_hexc by simp
  qed
  show ?thesis unfolding hex_val_def hex_str_def using g [of 16] by simp
qed

lemma itoa_hex_cstr: "cstr (itoa_hex p num m) p (hex_str (unat num))"
proof -
  have at: "itoa_hex_loop 16 p num m (p + of_nat j) = hex_str (unat num) ! j" if "j < 16" for j
    using itoa_hex_loop_spec [of 16 j p num m] that by (simp add: hex_str_def)
  have len: "length (hex_str (unat num)) = 16" by (simp add: hex_str_def)
  have "bytes_at (itoa_hex p num m) p (hex_str (unat num) @ [0])"
    unfolding bytes_at_def
  proof (intro allI impI)
    fix i assume i: "i < length (hex_str (unat num) @ [0])"
    then have "i \<le> 16" by (simp add: len)
    moreover have "p + of_nat i = p + of_nat 16 \<longleftrightarrow> i = 16" using \<open>i \<le> 16\<close> by (intro offset_inj) simp_all
    ultimately show "itoa_hex p num m (p + of_nat i) = (hex_str (unat num) @ [0]) ! i"
      using at [of i] by (auto simp: itoa_hex_def nth_append len)
  qed
  moreover have "0 \<notin> set (hex_str (unat num))" using hex_digit_hexc by (fastforce simp: hex_str_def)
  ultimately show ?thesis by (simp add: cstr_def len)
qed

section \<open>Properties\<close>

text \<open>
  C39: printing a number and reading it back. For a number below 2 to the 31, \<^verbatim>\<open>atoi\<close>
  of what \<^verbatim>\<open>itoa\<close> wrote is that number, and no signed operation on the way overflows.
\<close>

theorem number_roundtrip:
  assumes "num < 0x80000000"
  shows "atoi (itoa p num m) p = Some (ucast num)"
proof -
  have n: "unat num < 2 ^ 31" using assms by (simp add: word_less_nat_alt)
  have "num < 7766279631452241920" using assms by (rule less_trans) simp
  from atoi_dec [OF n itoa_cstr [OF this]] show ?thesis by simp
qed

theorem number_roundtrip_witness: "atoi (itoa 4096 1234567890 (\<lambda>a. 0)) 4096 = Some 1234567890"
  using number_roundtrip [of 1234567890 4096 "\<lambda>a. 0"] by simp

text \<open>
  C40: \<^verbatim>\<open>itoa\<close> writes the decimal digits of a number below 7766279631452241920 and a
  terminator, nothing else; from that number on, which is 10 to the 20 modulo 2 to the 64, its first
  division is by the wrapped power, and it prints 10 to the 20 instead, 21 digits.
\<close>

theorem itoa_decimal:
  "(num < 7766279631452241920 \<longrightarrow> itoa p num m = write_at p (dec_str (unat num) @ [0]) m \<and> dec_val (dec (unat num)) = unat num) \<and>
    itoa p 7766279631452241920 m = write_at p (dec_str (10 ^ 20) @ [0]) m"
proof (intro conjI impI)
  assume "num < 7766279631452241920"
  then show "itoa p num m = write_at p (dec_str (unat num) @ [0]) m" by (rule itoa_spec)
  show "dec_val (dec (unat num)) = unat num" by (rule dec_val_dec)
next
  let ?n = "7766279631452241920 :: u64"
  have p20: "powu_usize 10 (of_nat 20) = ?n" by (simp add: powu_usize_def pow_loop_eq)
  have one: "?n div ?n = 1" "itoc (ucast (1 :: u64)) = dchar 1" by (simp_all add: itoc_def)
  have "itoa_loop (Suc 20) p ?n 0 False m = itoa_loop 20 p 0 1 True (m(p := dchar 1))"
    unfolding itoa_loop.simps Let_def p20 one by simp
  also have "\<dots> = (1 + of_nat (length (pad 20 0)), write_at (p + 1) (map dchar (pad 20 0)) (m(p := dchar 1)))"
    using itoa_loop_spec [of 20 0 p 1 True "m(p := dchar 1)"] by (simp add: emit_def)
  finally have l: "itoa_loop 21 p ?n 0 False m = (21, write_at (p + 1) (map dchar (pad 20 0)) (m(p := dchar 1)))"
    by simp
  have "dec (10 ^ 20) = pad (Suc 20) (10 ^ 20)" by (rule dec_pad) simp_all
  also have "\<dots> = 1 # pad 20 (10 ^ 20 mod 10 ^ 20)" unfolding pad_Suc pad_mod [OF order_refl] by simp
  finally have d: "dec_str (10 ^ 20) = dchar 1 # map dchar (pad 20 0)" by (simp add: dec_str_def)
  have len: "length (dec_str (10 ^ 20)) = 21" unfolding d by simp
  have a: "write_at p (dec_str (10 ^ 20) @ [0]) m = (write_at p (dec_str (10 ^ 20)) m)(p + 21 := 0)"
    unfolding write_at_append len by simp
  have b: "write_at p (dec_str (10 ^ 20)) m = write_at (p + 1) (map dchar (pad 20 0)) (m(p := dchar 1))"
    unfolding d by simp
  have "itoa p ?n m = (write_at (p + 1) (map dchar (pad 20 0)) (m(p := dchar 1)))(p + 21 := 0)"
    by (simp add: itoa_def l)
  then show "itoa p ?n m = write_at p (dec_str (10 ^ 20) @ [0]) m" by (simp only: a b)
qed

theorem itoa_decimal_witness: "itoa 4096 42 (\<lambda>a. 0) = write_at 4096 [52, 50, 0] (\<lambda>a. 0)"
proof -
  have "dec 42 = [4, 2]" by (simp add: dec.simps [of 42] dec.simps [of 4])
  then show ?thesis using itoa_decimal [of 42 4096 "\<lambda>a. 0"] by (simp add: dec_str_def)
qed

text \<open>
  \<^verbatim>\<open>itoa_hex\<close> writes 16 hexadecimal digits whose value is the number, and the
  terminator behind them: 17 bytes.
\<close>

theorem itoa_hex_roundtrip:
  "cstr (itoa_hex p num m) p (hex_str (unat num)) \<and> length (hex_str (unat num)) = 16 \<and>
    hex_val (hex_str (unat num)) = unat num \<and> itoa_hex p num m (p + 16) = 0"
  using itoa_hex_cstr hex_val_hex_str [OF unat_word_bound] by (simp add: hex_str_def itoa_hex_def)

text \<open>
  \<^verbatim>\<open>strcmp\<close> compares only the common length of two strings. It always returns, and
  the result is 0 exactly when they agree there, so a string equals every extension of it.
\<close>

theorem strcmp_common_prefix:
  assumes "cstr m p xs" and "cstr m q ys"
  shows "\<exists>r. strcmp m p q = Some r \<and>
    (r = 0 \<longleftrightarrow> take (min (length xs) (length ys)) xs = take (min (length xs) (length ys)) ys)"
  using strcmp_loop_spec [of m p 0 xs q ys] assms cmp_str_zero by (simp add: strcmp_def)

theorem strcmp_common_prefix_witness:
  "strcmp (write_at 16 [97, 98, 0] (write_at 32 [97, 98, 99, 0] (\<lambda>a. 0))) 16 32 = Some 0"
proof -
  let ?m = "write_at 16 [97, 98, 0] (write_at 32 [97, 98, 99, 0] (\<lambda>a. 0))"
  have "cstr ?m 16 [97, 98]" "cstr ?m 32 [97, 98, 99]"
    by (simp_all add: cstr_def bytes_at_Cons) (simp_all add: bytes_at_def)
  from strcmp_common_prefix [OF this] show ?thesis by auto
qed

text \<open>
  \<^verbatim>\<open>memcpy\<close> copies. Without wrap-around, and unless the destination starts inside
  the source, the destination holds the old bytes of the source afterwards, nothing else changes,
  and the destination is returned.
\<close>

theorem memcpy_copies:
  assumes "unat src + unat n \<le> 2 ^ 64" and "unat dest + unat n \<le> 2 ^ 64"
    and "unat dest \<le> unat src \<or> unat src + unat n \<le> unat dest"
  shows "memcpy dest src n m = (dest, \<lambda>a. if a \<in> span dest (unat n) then m (src + (a - dest)) else m a)"
  using memcpy_loop_spec [of 0 n dest src m] forward_safe [OF assms] by (simp add: memcpy_def rest_span_0)

theorem memcpy_copies_witness: "snd (memcpy 32 16 3 (\<lambda>a. ucast a)) 33 = (17 :: u8)"
proof -
  have "(33 :: ptr) \<in> span 32 3" unfolding span_def by (intro CollectI exI [of _ 1]) simp
  then show ?thesis using memcpy_copies [of 16 3 32 "\<lambda>a. ucast a"] by simp
qed

text \<open>
  \<^verbatim>\<open>revstr\<close> always returns and reverses a string in place.
\<close>
theorem revstr_reverses:
  assumes c: "cstr m p xs"
  shows "\<exists>m'. revstr p m = Some m' \<and> cstr m' p (rev xs) \<and> (\<forall>a. a \<notin> span p (length xs) \<longrightarrow> m' a = m a)"
proof -
  let ?n = "length xs"
  have n: "?n < 2 ^ 64" using c by (simp add: cstr_def)
  let ?m = "revstr_loop p (of_nat ?n) (of_nat 0) m"
  have sp: "?m = (\<lambda>a. if a \<in> span p ?n then m (p + of_nat (?n - 1) - (a - p)) else m a)"
    using revstr_loop_spec [OF n, of 0 p m] by (simp add: rest_span_0)
  have at: "?m (p + of_nat i) = rev xs ! i" if i: "i < ?n" for i
  proof -
    have "p + of_nat i \<in> span p ?n" using i by (auto simp: span_def)
    moreover have "p + of_nat (?n - 1) - (p + of_nat i - p) = p + of_nat (?n - 1 - i)" using i by (simp add: of_nat_diff)
    moreover have "m (p + of_nat (?n - 1 - i)) = xs ! (?n - 1 - i)" using cstr_nth [OF c, of "?n - 1 - i"] i by simp
    ultimately show ?thesis unfolding sp using i by (simp only: if_True rev_nth) simp
  qed
  have e: "?m (p + of_nat ?n) = 0"
    unfolding sp using span_notin [OF order_refl n] cstr_end [OF c] by simp
  have "bytes_at ?m p (rev xs)" using at by (simp add: bytes_at_def)
  then have "cstr ?m p (rev xs)" using e c by (simp add: cstr_def bytes_at_append) (simp add: bytes_at_def)
  moreover have "\<forall>a. a \<notin> span p ?n \<longrightarrow> ?m a = m a" unfolding sp by simp
  moreover have "revstr p m = Some ?m" by (simp add: revstr_def strlen_spec [OF c])
  ultimately show ?thesis by blast
qed

theorem revstr_reverses_witness:
  "\<exists>m'. revstr 16 (write_at 16 [97, 98, 0] (\<lambda>a. 0)) = Some m' \<and> cstr m' 16 [98, 97]"
proof -
  have "cstr (write_at 16 [97, 98, 0] (\<lambda>a. 0)) 16 [97, 98]"
    by (simp add: cstr_def bytes_at_Cons) (simp add: bytes_at_def)
  from revstr_reverses [OF this] show ?thesis by auto
qed

end
