(* ===== verification/Mem.thy ===== *)
theory Mem
  imports Pmem_Init Str
begin

text \<open>
  The memory manager, \<^verbatim>\<open>src/mem/mem.cpp\<close>, with \<^verbatim>\<open>pallocator::realloc\<close> of
  \<^verbatim>\<open>src/mem/pmem.cpp\<close>, which calls back into it, and the multiboot table it reads,
  \<^verbatim>\<open>src/mb2.cpp\<close>. The state is the memory, the array of allocators and the globals of the
  file; a panic is \<^term>\<open>None\<close>.
\<close>

unbundle bit_operations_syntax

section \<open>Multiboot information\<close>

definition rd32 :: "bytes \<Rightarrow> ptr \<Rightarrow> u32" where
  "rd32 m a = ucast (m a) OR push_bit 8 (ucast (m (a + 1))) OR push_bit 16 (ucast (m (a + 2))) OR push_bit 24 (ucast (m (a + 3)))"

definition rd64 :: "bytes \<Rightarrow> ptr \<Rightarrow> u64" where
  "rd64 m a = ucast (rd32 m a) OR push_bit 32 (ucast (rd32 m (a + 4)))"

fun wr_bytes :: "nat \<Rightarrow> ptr \<Rightarrow> u64 \<Rightarrow> bytes \<Rightarrow> bytes" where
  "wr_bytes 0 a v m = m"
| "wr_bytes (Suc k) a v m = wr_bytes k (a + 1) (drop_bit 8 v) (m(a := ucast v))"

definition wr64 :: "ptr \<Rightarrow> u64 \<Rightarrow> bytes \<Rightarrow> bytes" where
  "wr64 = wr_bytes 8"

definition MB2_MEM_MAP :: u8 where "MB2_MEM_MAP = 6"

partial_function (option) mb2_get_loop :: "bytes \<Rightarrow> ptr \<Rightarrow> u32 \<Rightarrow> usize \<Rightarrow> usize \<Rightarrow> ptr option" where
  "mb2_get_loop m mb2 type i b_i =
     (if rd32 m (mb2 + 4 * i) = type then Some (mb2 + 4 * i)
      else if rd32 m (mb2 + 4 * i) = 0 then Some NULL
      else
        let b_i = b_i + ucast (rd32 m (mb2 + 4 * (i + 1)));
            b_i = align_up b_i 8
        in mb2_get_loop m mb2 type (b_i div 4) b_i)"

definition mb2_get :: "bytes \<Rightarrow> ptr \<Rightarrow> u8 \<Rightarrow> ptr option" where
  "mb2_get m mb2_table type = mb2_get_loop m mb2_table (ucast type) 2 8"

section \<open>State\<close>

definition MAX_MEM_NODES :: usize where "MAX_MEM_NODES = 4"
definition FIRST_ORDER_SIZE :: usize where "FIRST_ORDER_SIZE = PAGE_SIZE * 8"
definition BUDDY_ALLOC_MIN_SIZE :: usize where "BUDDY_ALLOC_MIN_SIZE = FIRST_ORDER_SIZE * 2"

record mm =
  mm_pm :: pmem
  allocators :: "pallocator list"
  allocator_len :: usize
  text_start :: usize
  kernel_end :: usize
  kernel_vma :: usize

definition put_node :: "nat \<Rightarrow> pmem \<Rightarrow> pallocator \<Rightarrow> mm \<Rightarrow> mm" where
  "put_node i pm pa s = s\<lparr>mm_pm := pm, allocators := (allocators s)[i := pa]\<rparr>"

lemma put_node_simps [simp]:
  "allocator_len (put_node i pm pa s) = allocator_len s" "mm_pm (put_node i pm pa s) = pm"
  "allocators (put_node i pm pa s) = (allocators s)[i := pa]"
  by (simp_all add: put_node_def)

section \<open>Allocation\<close>

text \<open>The loop the four allocating functions share: the first allocator that can serve the call does.\<close>

function first_node :: "(pmem \<Rightarrow> pallocator \<Rightarrow> (ptr \<times> pmem \<times> pallocator) option) \<Rightarrow> nat \<Rightarrow> mm \<Rightarrow> (ptr \<times> mm) option" where
  "first_node f i s =
     (if i < unat (allocator_len s) then do {
        (out, pm, pa) \<leftarrow> f (mm_pm s) (allocators s ! i);
        if out \<noteq> NULL then Some (out, put_node i pm pa s) else first_node f (i + 1) (put_node i pm pa s)
      } else Some (NULL, s))"
  by pat_completeness auto
termination by (relation "measure (\<lambda>(f, i, s). unat (allocator_len s) - i)") auto

declare first_node.simps [simp del]

definition mem_alloc :: "usize \<Rightarrow> mm \<Rightarrow> (ptr \<times> mm) option" where
  "mem_alloc n = first_node (\<lambda>pm pa. pa_alloc pm pa n) 0"

definition mem_allocz :: "usize \<Rightarrow> mm \<Rightarrow> (ptr \<times> mm) option" where
  "mem_allocz n = first_node (\<lambda>pm pa. pa_allocz pm pa n) 0"

definition mem_oalloc :: "u8 \<Rightarrow> mm \<Rightarrow> (ptr \<times> mm) option" where
  "mem_oalloc n = first_node (\<lambda>pm pa. pa_oalloc pm pa n) 0"

definition mem_oallocz :: "u8 \<Rightarrow> mm \<Rightarrow> (ptr \<times> mm) option" where
  "mem_oallocz n = first_node (\<lambda>pm pa. pa_oallocz pm pa n) 0"

text \<open>The allocator whose range holds an address.\<close>

function owner :: "usize \<Rightarrow> nat \<Rightarrow> mm \<Rightarrow> nat option" where
  "owner m i s =
     (if i < unat (allocator_len s) then
        if m \<ge> start_addr (allocators s ! i) \<and> m < end_addr (allocators s ! i) then Some i else owner m (i + 1) s
      else None)"
  by pat_completeness auto
termination by (relation "measure (\<lambda>(m, i, s). unat (allocator_len s) - i)") auto

declare owner.simps [simp del]

definition mem_free :: "ptr \<Rightarrow> mm \<Rightarrow> mm option" where
  "mem_free m s = (case owner m 0 s of
     None \<Rightarrow> Some s
   | Some i \<Rightarrow> do { (pm, pa) \<leftarrow> pa_free (mm_pm s) (allocators s ! i) m; Some (put_node i pm pa s) })"

fun sum_free :: "pallocator list \<Rightarrow> usize \<Rightarrow> usize" where
  "sum_free [] out = out"
| "sum_free (pa # pas) out = sum_free pas (out + free_space pa)"

definition mem_get_free_space :: "mm \<Rightarrow> usize" where
  "mem_get_free_space s = sum_free (take (unat (allocator_len s)) (allocators s)) 0"

definition mem_get_order :: "usize \<Rightarrow> mm \<Rightarrow> u8" where
  "mem_get_order n s = get_order (allocators s ! 0) n"

definition mem_get_order_size :: "u8 \<Rightarrow> mm \<Rightarrow> usize" where
  "mem_get_order_size order s = get_order_size (allocators s ! 0) order"

section \<open>Resizing\<close>

text \<open>\<^verbatim>\<open>memcpy (dest, src, n)\<close> of disjoint ranges, field by field as in \<open>zero_range\<close>.\<close>

definition copy_range :: "ptr \<Rightarrow> ptr \<Rightarrow> usize \<Rightarrow> pmem \<Rightarrow> pmem" where
  "copy_range dest src n pm = pm\<lparr>
     pm_nodes := (\<lambda>y. \<lparr>n_prev = (if in_range dest n (unat y) 8 then n_prev (pm_nodes pm (src + (y - dest))) else n_prev (pm_nodes pm y)),
       n_next = (if in_range dest n (unat y + 8) 8 then n_next (pm_nodes pm (src + (y - dest))) else n_next (pm_nodes pm y))\<rparr>),
     pm_zone_n := (\<lambda>y. if in_range dest n (unat y + 16) 8 then pm_zone_n pm (src + (y - dest)) else pm_zone_n pm y),
     pm_meta := (\<lambda>y. if in_range dest n (unat y) 1 then pm_meta pm (src + (y - dest)) else pm_meta pm y),
     pm_bytes := (\<lambda>y. if in_range dest n (unat y) 1 then pm_bytes pm (src + (y - dest)) else pm_bytes pm y)\<rparr>"

lemma u8_pred: "(n :: u8) < k \<Longrightarrow> unat (k - 1) < unat k"
proof -
  assume "n < k"
  then have "k \<noteq> 0" by auto
  then show ?thesis by (simp add: unat_minus_one unat_gt_0)
qed

lemma u8_succ: "(k :: u8) < n \<Longrightarrow> unat n - unat (k + 1) < unat n - unat k"
proof -
  assume k: "k < n"
  have "unat n < 256" using unsigned_less [where 'a = nat, of n] by simp
  with k have "unat (k + 1) = unat k + 1" by (simp add: unat_word_ariths word_less_nat_alt)
  with k show ?thesis by (simp add: word_less_nat_alt)
qed

function shrink_loop :: "ptr \<Rightarrow> u8 \<Rightarrow> u8 \<Rightarrow> pmem \<Rightarrow> pallocator \<Rightarrow> (pmem \<times> pallocator) option" where
  "shrink_loop zone order n_order pm pa =
     (if order > n_order then do {
        n \<leftarrow> get_zone_n zone pm;
        pm \<leftarrow> set_zone_n zone (drop_bit 1 n) pm;
        n \<leftarrow> get_zone_n zone pm;
        let zone2 = zone XOR n;
        pm \<leftarrow> set_zone_n zone2 n pm;
        let order = order - 1;
        (pm, pa) \<leftarrow> lists_append (unat order) zone2 pm pa;
        let pm = set_meta (get_meta pa zone2) \<lparr>m_alloced = False, m_order = ucast order\<rparr> pm;
        shrink_loop zone order n_order pm pa
      } else Some (pm, pa))"
  by pat_completeness auto
termination by (relation "measure (\<lambda>(zone, order, n_order, pm, pa). unat order)") (auto simp: u8_pred)

function grow_loop :: "ptr \<Rightarrow> usize \<Rightarrow> u8 \<Rightarrow> u8 \<Rightarrow> pmem \<Rightarrow> pallocator \<Rightarrow> (usize \<times> pmem \<times> pallocator) option" where
  "grow_loop m len order n_order pm pa =
     (if order < n_order then do {
        (pm, pa) \<leftarrow> lists_remove_p (unat order) (m XOR len) pm pa;
        grow_loop m (push_bit 1 len) (order + 1) n_order pm pa
      } else Some (len, pm, pa))"
  by pat_completeness auto
termination by (relation "measure (\<lambda>(m, len, order, n_order, pm, pa). unat n_order - unat order)") (auto simp: u8_succ)

declare shrink_loop.simps [simp del] grow_loop.simps [simp del]

text \<open>\<^verbatim>\<open>pallocator::realloc\<close> of the \<open>i\<close>th allocator.\<close>

definition pa_realloc_move :: "nat \<Rightarrow> usize \<Rightarrow> usize \<Rightarrow> usize \<Rightarrow> mm \<Rightarrow> (ptr \<times> mm) option" where
  "pa_realloc_move i m len n s = do {
     (out, pm, pa) \<leftarrow> pa_alloc (mm_pm s) (allocators s ! i) n;
     let s = put_node i pm pa s;
     (out, s) \<leftarrow> (if out = NULL then mem_alloc n s else Some (out, s));
     if out = NULL then Some (NULL, s)
     else do {
       let s = s\<lparr>mm_pm := copy_range out m len (mm_pm s)\<rparr>;
       (pm, pa) \<leftarrow> pa_free (mm_pm s) (allocators s ! i) m;
       Some (out, put_node i pm pa s)
     }
   }"

definition pa_realloc :: "nat \<Rightarrow> ptr \<Rightarrow> usize \<Rightarrow> mm \<Rightarrow> (ptr \<times> mm) option" where
  "pa_realloc i m n s =
     (let pm = mm_pm s; pa = allocators s ! i
      in if m < start_addr pa \<or> m \<ge> end_addr pa then Some (NULL, s)
         else
           let meta = get_meta pa m
           in if \<not> m_alloced (pm_meta pm meta) then Some (NULL, s)
              else
                let order = ucast (m_order (pm_meta pm meta)); n_order = get_order pa n
                in if n_order > max_order pa then Some (NULL, s)
                   else
                     let len = get_order_size pa order; m = align_down m len
                     in if n_order = order then Some (m, s)
                        else if n_order < order then do {
                          (pm, pa) \<leftarrow> lists_remove_p (unat order) m pm pa;
                          (pm, pa) \<leftarrow> shrink_loop m order n_order pm pa;
                          let pm = set_meta meta ((pm_meta pm meta)\<lparr>m_order := ucast n_order\<rparr>) pm;
                          Some (m, put_node i pm pa s)
                        }
                        else do {
                          space \<leftarrow> get_space pm pa (m + len);
                          if n \<le> space \<and> align_of m \<ge> get_order_size pa n_order then do {
                            (len, pm, pa) \<leftarrow> grow_loop m (get_order_size pa order) order n_order pm pa;
                            pm \<leftarrow> set_zone_n m len pm;
                            let pm = set_meta meta ((pm_meta pm meta)\<lparr>m_order := ucast n_order\<rparr>) pm;
                            Some (m, put_node i pm pa s)
                          }
                          else pa_realloc_move i m len n s
                        })"

definition pa_orealloc :: "nat \<Rightarrow> ptr \<Rightarrow> u8 \<Rightarrow> mm \<Rightarrow> (ptr \<times> mm) option" where
  "pa_orealloc i m order s =
     (let pa = allocators s ! i
      in if order > max_order pa then Some (NULL, s) else pa_realloc i m (get_order_size pa order) s)"

definition mem_realloc :: "ptr \<Rightarrow> usize \<Rightarrow> mm \<Rightarrow> (ptr \<times> mm) option" where
  "mem_realloc m n s = (case owner m 0 s of None \<Rightarrow> Some (NULL, s) | Some i \<Rightarrow> pa_realloc i m n s)"

definition mem_orealloc :: "ptr \<Rightarrow> u8 \<Rightarrow> mm \<Rightarrow> (ptr \<times> mm) option" where
  "mem_orealloc m n s = (case owner m 0 s of None \<Rightarrow> Some (NULL, s) | Some i \<Rightarrow> pa_orealloc i m n s)"

section \<open>Initialisation\<close>

definition init_node :: "nat \<Rightarrow> usize \<Rightarrow> usize \<Rightarrow> mm \<Rightarrow> mm option" where
  "init_node i start end' s = do {
     (pm, pa) \<leftarrow> pallocator_init start end' PAGE_SIZE (mm_pm s) (allocators s ! i);
     Some (put_node i pm pa s)
   }"

definition init_allocator :: "nat \<Rightarrow> usize \<Rightarrow> usize \<Rightarrow> mm \<Rightarrow> (u8 \<times> mm) option" where
  "init_allocator i addr len s = do {
     let out = 0;
     let f = True;
     (out, f, s) \<leftarrow>
       (if text_start s \<ge> addr \<and> text_start s < addr + len then
          if text_start s - addr \<ge> BUDDY_ALLOC_MIN_SIZE
          then do { s \<leftarrow> init_node i addr (text_start s - 1) s; Some (out + 1, False, s) }
          else Some (out, False, s)
        else Some (out, f, s));
     (out, f, s) \<leftarrow>
       (if kernel_end s \<ge> addr \<and> kernel_end s < addr + len then
          if (addr + len - 1) - kernel_end s \<ge> BUDDY_ALLOC_MIN_SIZE
          then do { s \<leftarrow> init_node i (kernel_end s + 1) (addr + len - 1) s; Some (out + 1, False, s) }
          else Some (out, False, s)
        else Some (out, f, s));
     if f then do { s \<leftarrow> init_node i addr (addr + len - 1) s; Some (1, s) } else Some (out, s)
   }"

definition upd_bytes :: "(bytes \<Rightarrow> bytes) \<Rightarrow> mm \<Rightarrow> mm" where
  "upd_bytes g s = s\<lparr>mm_pm := (mm_pm s)\<lparr>pm_bytes := g (pm_bytes (mm_pm s))\<rparr>\<rparr>"

text \<open>The entries of the memory map, 24 bytes each: address, length and type.\<close>

partial_function (option) mem_init_loop :: "ptr \<Rightarrow> usize \<Rightarrow> usize \<Rightarrow> mm \<Rightarrow> mm option" where
  "mem_init_loop mmap len i s =
     (if \<not> (i < len \<and> allocator_len s < MAX_MEM_NODES) then Some s
      else
        let e = mmap + 24 * i; m = pm_bytes (mm_pm s)
        in if rd32 m (e + 16) \<noteq> 1 \<or> rd64 m (e + 8) < BUDDY_ALLOC_MIN_SIZE then mem_init_loop mmap len (i + 1) s
           else do {
             let s = upd_bytes (wr64 e (rd64 m e + kernel_vma s)) s;
             let m = pm_bytes (mm_pm s);
             (k, s) \<leftarrow> init_allocator (unat (allocator_len s)) (rd64 m e) (rd64 m (e + 8)) s;
             let s = s\<lparr>allocator_len := allocator_len s + ucast k\<rparr>;
             if allocator_len s > MAX_MEM_NODES then None else mem_init_loop mmap len (i + 1) s
           })"

text \<open>The addresses of the linker's symbols are arguments.\<close>

definition mem_init :: "usize \<Rightarrow> usize \<Rightarrow> usize \<Rightarrow> ptr \<Rightarrow> mm \<Rightarrow> (ptr \<times> mm) option" where
  "mem_init TEXT_START KERNEL_END KERNEL_VMA mb2_table s = do {
     let s = s\<lparr>text_start := TEXT_START, kernel_end := KERNEL_END, kernel_vma := KERNEL_VMA\<rparr>;
     let m = pm_bytes (mm_pm s);
     let dest = align_up (kernel_end s) 8;
     let s = upd_bytes (\<lambda>m. snd (memcpy dest mb2_table (ucast (rd32 m mb2_table)) m)) s;
     let m = pm_bytes (mm_pm s);
     let s = s\<lparr>kernel_end := kernel_end s + ucast (rd32 m dest)\<rparr>;
     mmap_header \<leftarrow> mb2_get m dest MB2_MEM_MAP;
     if mmap_header = NULL then None
     else do {
       let len = ucast ((rd32 m (mmap_header + 4) - 16) div 24);
       s \<leftarrow> mem_init_loop (mmap_header + 16) len 0 s;
       Some (dest, s)
     }
   }"

section \<open>Independent nodes\<close>

text \<open>
  Several allocators live in one memory. The contract: what one allocator represents depends
  only on its own zone. Then an operation that changes memory in one zone keeps all the others.
\<close>

locale zoned =
  fixes rep :: "'m \<Rightarrow> 'a \<Rightarrow> 'x \<Rightarrow> bool"
    and zone :: "'a \<Rightarrow> ptr \<Rightarrow> bool"
    and off :: "'a \<Rightarrow> 'm \<Rightarrow> 'm \<Rightarrow> bool"
  assumes rep_frame: "rep m a x \<Longrightarrow> off b m m' \<Longrightarrow> (\<And>y. zone a y \<Longrightarrow> \<not> zone b y) \<Longrightarrow> rep m' a x"
begin

lemma nodes_upd:
  assumes r: "\<forall>j < n. rep m (as ! j) (xs j)"
    and d: "\<forall>j < n. \<forall>k < n. j \<noteq> k \<longrightarrow> (\<forall>y. zone (as ! j) y \<longrightarrow> \<not> zone (as ! k) y)"
    and i: "i < n" "n \<le> length as" and new: "rep m' a' x'" "off (as ! i) m m'" "zone a' = zone (as ! i)"
  shows "\<forall>j < n. rep m' (as[i := a'] ! j) ((xs(i := x')) j)"
    and "\<forall>j < n. \<forall>k < n. j \<noteq> k \<longrightarrow> (\<forall>y. zone (as[i := a'] ! j) y \<longrightarrow> \<not> zone (as[i := a'] ! k) y)"
proof -
  have z: "zone (as[i := a'] ! j) = zone (as ! j)" for j using new(3) i by (cases "j = i") simp_all
  show "\<forall>j < n. \<forall>k < n. j \<noteq> k \<longrightarrow> (\<forall>y. zone (as[i := a'] ! j) y \<longrightarrow> \<not> zone (as[i := a'] ! k) y)"
    unfolding z by (rule d)
  show "\<forall>j < n. rep m' (as[i := a'] ! j) ((xs(i := x')) j)"
  proof (intro allI impI)
    fix j assume j: "j < n"
    show "rep m' (as[i := a'] ! j) ((xs(i := x')) j)"
    proof (cases "j = i")
      case True
      then show ?thesis using new(1) i by simp
    next
      case False
      have "rep m' (as ! j) (xs j)" by (rule rep_frame [OF _ new(2)]) (use r d j i False in auto)
      then show ?thesis using False by simp
    qed
  qed
qed

end

text \<open>A node with the blocks it has handed out.\<close>

definition node_ok :: "pmem \<Rightarrow> pallocator \<Rightarrow> block set \<Rightarrow> bool" where
  "node_ok pm pa A \<longleftrightarrow> (\<exists>xss. pa_rep pm pa xss A \<and> coalesced (free_of (bits pa) xss))"

lemma node_frame:
  assumes "node_ok pm pa A" "zone_off pb pm pm'" "\<And>y. in_zone pa y \<Longrightarrow> \<not> in_zone pb y"
  shows "node_ok pm' pa A"
proof -
  from assms(1) obtain xss where r: "pa_rep pm pa xss A" and co: "coalesced (free_of (bits pa) xss)"
    by (auto simp: node_ok_def)
  have fam: "family list_rep (pm_nodes pm) (lists pa) xss 39" and ok: "blocks_ok pm pa xss A"
    using r by (simp_all add: pa_rep_def)
  note ok' = blocks_okD [OF ok]
  have same: "pm_nodes pm' y = pm_nodes pm y" "pm_zone_n pm' y = pm_zone_n pm y" "pm_meta pm' y = pm_meta pm y"
    if "in_zone pa y" for y using assms(2,3) that by (auto simp: zone_off_def)
  have meta: "pm_meta pm' (get_meta pa a) = pm_meta pm (get_meta pa a)" if "lo pa \<le> unat a" "unat a < hi pa" for a
    using same(3) meta_in_zone [OF ok'(1) that] .
  have "family list_rep (pm_nodes pm') (lists pa) xss 39"
    using fam by (rule kl.family_cong) (use free_in_zone [OF ok] same(1) in blast)
  moreover have "blocks_ok pm' pa xss A"
    unfolding blocks_ok_def
  proof (intro conjI allI impI ballI)
    fix k x assume "k < 39" "x \<in> set (xss k)"
    then show "pm_zone_n pm' x = 2 ^ (bits pa + k)" using ok'(4) same(2) free_in_zone [OF ok] by simp
  next
    fix a :: usize and k assume a: "(unat a, k) \<in> A"
    then show "bits pa \<le> k" using ok'(5) by blast
    have "(unat a, k) \<in> free_of (bits pa) xss \<union> A" using a by simp
    then show "m_order (pm_meta pm' (get_meta pa a)) = of_nat (k - bits pa)"
      using meta tile_head(1,2) [OF ok] ok'(6) [OF a] by auto
  next
    fix a :: usize assume "lo pa \<le> unat a \<and> unat a < hi pa \<and> 2 ^ bits pa dvd unat a"
    then show "m_alloced (pm_meta pm' (get_meta pa a)) = (\<exists>k. (unat a, k) \<in> A)" using meta ok'(7) by simp
  qed (use ok'(1-3) in auto)
  ultimately show ?thesis using co unfolding node_ok_def pa_rep_def by blast
qed

interpretation nodes: zoned node_ok in_zone zone_off
  by unfold_locales (rule node_frame)

definition same_zone :: "pallocator \<Rightarrow> pallocator \<Rightarrow> bool" where
  "same_zone pa pa' \<longleftrightarrow> start_addr pa' = start_addr pa \<and> end_addr pa' = end_addr pa \<and> fo_bits pa' = fo_bits pa"

lemma same_zone_refl [simp]: "same_zone pa pa" by (simp add: same_zone_def)

lemma same_zone_in: "same_zone pa pa' \<Longrightarrow> in_zone pa' = in_zone pa"
  by (simp add: same_zone_def in_zone_def fun_eq_iff)

text \<open>There is room for a block of an order: an aligned block of the range that meets no held block.\<close>

definition room :: "pallocator \<Rightarrow> block set \<Rightarrow> u8 \<Rightarrow> bool" where
  "room pa A order \<longleftrightarrow> (\<exists>a. block_in (lo pa) (hi pa) (a, bits pa + unat order) \<and>
     (\<forall>q \<in> A. region q \<inter> region (a, bits pa + unat order) = {}))"

definition order_bits :: "pallocator \<Rightarrow> usize \<Rightarrow> nat" where
  "order_bits pa n = bits pa + unat (get_order pa n)"

lemma node_alloc:
  assumes ok: "node_ok pm pa A" and n: "unat n < 2 ^ 31"
  shows "if n \<noteq> 0 \<and> room pa A (get_order pa n)
    then \<exists>z pm' pa'. pa_alloc pm pa n = Some (z, pm', pa') \<and> z \<noteq> NULL \<and> same_zone pa pa' \<and> zone_off pa pm pm' \<and>
      node_ok pm' pa' (insert (unat z, order_bits pa n) A) \<and> (unat z, order_bits pa n) \<notin> A \<and> unat n \<le> 2 ^ order_bits pa n \<and>
      pm_bytes pm' = pm_bytes pm
    else pa_alloc pm pa n = Some (NULL, pm, pa)"
proof -
  from ok obtain xss where i: "pa_rep pm pa xss A" "coalesced (free_of (bits pa) xss)" by (auto simp: node_ok_def)
  let ?o = "get_order pa n"
  show ?thesis
  proof (cases "n \<noteq> 0 \<and> room pa A ?o")
    case True
    then have al: "pa_alloc pm pa n = pa_oalloc pm pa ?o" by (simp add: pa_alloc_def)
    from oalloc_fits [OF i, of ?o] True obtain z pm' ls xs' where
      1: "pa_oalloc pm pa ?o = Some (z, pm', pa\<lparr>lists := ls, free_space := free_space pa - get_order_size pa ?o\<rparr>)"
        "z \<noteq> NULL" "pa_rep pm' (pa\<lparr>lists := ls\<rparr>) xs' (insert (unat z, bits pa + unat ?o) A)"
        "(unat z, bits pa + unat ?o) \<notin> A" "coalesced (free_of (bits pa) xs')" "zone_off pa pm pm'"
        "pm_bytes pm' = pm_bytes pm"
      unfolding room_def by blast
    have g: "geom pa" using i(1) by (simp add: pa_rep_def blocks_ok_def)
    have "block_in (lo pa) (hi pa) (unat z, bits pa + unat ?o)"
      using held_block(1) [OF 1(3), of "(unat z, bits pa + unat ?o)"] by simp
    then have "unat ?o \<le> maxo pa" using geomD(12) [OF g] by fastforce
    moreover have "0 < unat n" using True by (simp add: unat_gt_0)
    ultimately have "unat n \<le> 2 ^ order_bits pa n" using get_order_size_bounds(1) [OF g _ n] by (simp add: order_bits_def)
    moreover have "node_ok pm' (pa\<lparr>lists := ls, free_space := free_space pa - get_order_size pa ?o\<rparr>) (insert (unat z, order_bits pa n) A)"
      using 1(3,5) by (auto simp: node_ok_def pa_rep_def order_bits_def)
    moreover have "(unat z, order_bits pa n) \<notin> A" using 1(4) by (simp add: order_bits_def)
    ultimately show ?thesis using True al 1(1,2,6,7) by (simp add: same_zone_def)
  next
    case False
    then have "pa_alloc pm pa n = Some (NULL, pm, pa)"
      using oalloc_full [OF i, of ?o] by (auto simp: pa_alloc_def room_def)
    with False show ?thesis by simp
  qed
qed

lemma node_free:
  assumes "node_ok pm pa A"
  shows "\<exists>pm' pa'. pa_free pm pa p = Some (pm', pa') \<and> same_zone pa pa' \<and> zone_off pa pm pm' \<and>
    node_ok pm' pa' {q \<in> A. \<not> (fst q \<le> unat p \<and> unat p < fst q + 2 ^ bits pa)} \<and> pm_bytes pm' = pm_bytes pm"
proof -
  from assms obtain xss where i: "pa_rep pm pa xss A" "coalesced (free_of (bits pa) xss)" by (auto simp: node_ok_def)
  from pa_free_all [OF i, of p] obtain pm' ls xss' where
    "pa_free pm pa p = Some (pm', pa\<lparr>lists := ls\<rparr>)"
    "pa_rep pm' (pa\<lparr>lists := ls\<rparr>) xss' {q \<in> A. \<not> (fst q \<le> unat p \<and> unat p < fst q + 2 ^ bits pa)}"
    "coalesced (free_of (bits pa) xss')" "zone_off pa pm pm'" "pm_bytes pm' = pm_bytes pm" by blast
  then show ?thesis by (intro exI [of _ pm'] exI [of _ "pa\<lparr>lists := ls\<rparr>"]) (auto simp: node_ok_def same_zone_def)
qed

section \<open>The manager's invariant\<close>

definition mm_ok :: "mm \<Rightarrow> (nat \<Rightarrow> block set) \<Rightarrow> bool" where
  "mm_ok s A \<longleftrightarrow> unat (allocator_len s) \<le> length (allocators s) \<and>
     (\<forall>i < unat (allocator_len s). node_ok (mm_pm s) (allocators s ! i) (A i)) \<and>
     (\<forall>i < unat (allocator_len s). \<forall>j < unat (allocator_len s). i \<noteq> j \<longrightarrow>
        (\<forall>y. in_zone (allocators s ! i) y \<longrightarrow> \<not> in_zone (allocators s ! j) y))"

lemma mm_okD: "mm_ok s A \<Longrightarrow> i < unat (allocator_len s) \<Longrightarrow> node_ok (mm_pm s) (allocators s ! i) (A i)"
  by (simp add: mm_ok_def)

lemma mm_ok_put:
  assumes ok: "mm_ok s A" and i: "i < unat (allocator_len s)"
    and new: "node_ok pm' pa' B" "zone_off (allocators s ! i) (mm_pm s) pm'" "same_zone (allocators s ! i) pa'"
  shows "mm_ok (put_node i pm' pa' s) (A(i := B))"
proof -
  have a: "\<forall>j < unat (allocator_len s). node_ok (mm_pm s) (allocators s ! j) (A j)"
    and b: "\<forall>j < unat (allocator_len s). \<forall>k < unat (allocator_len s). j \<noteq> k \<longrightarrow>
        (\<forall>y. in_zone (allocators s ! j) y \<longrightarrow> \<not> in_zone (allocators s ! k) y)"
    and c: "unat (allocator_len s) \<le> length (allocators s)"
    using ok unfolding mm_ok_def by blast+
  note u = nodes.nodes_upd [OF a b i c new(1,2) same_zone_in [OF new(3)]]
  show ?thesis unfolding mm_ok_def put_node_simps length_list_update using u c by blast
qed

lemma put_node_same: "i < length (allocators s) \<Longrightarrow> put_node i (mm_pm s) (allocators s ! i) s = s"
  by (simp add: put_node_def)

text \<open>The node a call would be served by.\<close>

definition fits :: "usize \<Rightarrow> mm \<Rightarrow> (nat \<Rightarrow> block set) \<Rightarrow> nat \<Rightarrow> bool" where
  "fits n s A i \<longleftrightarrow> i < unat (allocator_len s) \<and> n \<noteq> 0 \<and> room (allocators s ! i) (A i) (get_order (allocators s ! i) n)"

lemma first_node_spec:
  assumes ok: "mm_ok s A" and n: "unat n < 2 ^ 31" and i: "i \<le> unat (allocator_len s)"
  shows "if \<exists>j \<ge> i. fits n s A j
    then \<exists>z j pm' pa'. first_node (\<lambda>pm pa. pa_alloc pm pa n) i s = Some (z, put_node j pm' pa' s) \<and> z \<noteq> NULL \<and>
      i \<le> j \<and> fits n s A j \<and> (\<forall>k. i \<le> k \<and> k < j \<longrightarrow> \<not> fits n s A k) \<and> same_zone (allocators s ! j) pa' \<and>
      mm_ok (put_node j pm' pa' s) (A(j := insert (unat z, order_bits (allocators s ! j) n) (A j))) \<and>
      (unat z, order_bits (allocators s ! j) n) \<notin> A j \<and> unat n \<le> 2 ^ order_bits (allocators s ! j) n \<and>
      pm_bytes pm' = pm_bytes (mm_pm s)
    else first_node (\<lambda>pm pa. pa_alloc pm pa n) i s = Some (NULL, s)"
  using i
proof (induction "unat (allocator_len s) - i" arbitrary: i)
  case 0
  then have "\<not> fits n s A j" if "i \<le> j" for j using that by (simp add: fits_def)
  moreover have "first_node (\<lambda>pm pa. pa_alloc pm pa n) i s = Some (NULL, s)" using 0 by (subst first_node.simps) simp
  ultimately show ?case by auto
next
  case (Suc d)
  let ?pa = "allocators s ! i"
  have il: "i < unat (allocator_len s)" using Suc.hyps(2) by simp
  then have len: "i < length (allocators s)" and nok: "node_ok (mm_pm s) ?pa (A i)" using ok by (simp_all add: mm_ok_def)
  note al = node_alloc [OF nok n]
  show ?case
  proof (cases "fits n s A i")
    case True
    then have "n \<noteq> 0 \<and> room ?pa (A i) (get_order ?pa n)" by (simp add: fits_def)
    from al [unfolded if_P [OF this]] obtain z pm' pa' where
      1: "pa_alloc (mm_pm s) ?pa n = Some (z, pm', pa')" "z \<noteq> NULL" "same_zone ?pa pa'" "zone_off ?pa (mm_pm s) pm'"
        "node_ok pm' pa' (insert (unat z, order_bits ?pa n) (A i))" "(unat z, order_bits ?pa n) \<notin> A i"
        "unat n \<le> 2 ^ order_bits ?pa n" "pm_bytes pm' = pm_bytes (mm_pm s)" by blast
    have "first_node (\<lambda>pm pa. pa_alloc pm pa n) i s = Some (z, put_node i pm' pa' s)"
      using il 1(1,2) by (subst first_node.simps) simp
    moreover have "mm_ok (put_node i pm' pa' s) (A(i := insert (unat z, order_bits ?pa n) (A i)))"
      using ok il 1(5,4,3) by (rule mm_ok_put)
    moreover have "\<exists>j \<ge> i. fits n s A j" using True by blast
    ultimately show ?thesis using True 1(2,3,6-8) by (simp only: if_True) (metis leD order_refl)
  next
    case False
    then have "\<not> (n \<noteq> 0 \<and> room ?pa (A i) (get_order ?pa n))" using il by (simp add: fits_def)
    note al [unfolded if_not_P [OF this]]
    then have st: "first_node (\<lambda>pm pa. pa_alloc pm pa n) i s = first_node (\<lambda>pm pa. pa_alloc pm pa n) (i + 1) s"
      using il by (subst first_node.simps) (simp add: put_node_same [OF len])
    have iff: "(\<exists>j \<ge> i. fits n s A j) \<longleftrightarrow> (\<exists>j \<ge> i + 1. fits n s A j)"
      using False by (metis Suc_eq_plus1 Suc_leD le_neq_implies_less Suc_le_eq)
    have le: "(i \<le> k \<and> k < j \<longrightarrow> \<not> fits n s A k) \<longleftrightarrow> (i + 1 \<le> k \<and> k < j \<longrightarrow> \<not> fits n s A k)" for j k
      using False by (cases "k = i") auto
    have "d = unat (allocator_len s) - (i + 1)" "i + 1 \<le> unat (allocator_len s)" using Suc.hyps(2) il by simp_all
    from Suc.hyps(1) [OF this] show ?thesis
      unfolding st iff le by (simp split: if_splits) (meson Suc_leD)
  qed
qed

lemma owner_spec:
  "case owner p i s of
     Some j \<Rightarrow> i \<le> j \<and> j < unat (allocator_len s) \<and> start_addr (allocators s ! j) \<le> p \<and> p < end_addr (allocators s ! j)
   | None \<Rightarrow> \<forall>j. i \<le> j \<and> j < unat (allocator_len s) \<longrightarrow> \<not> (start_addr (allocators s ! j) \<le> p \<and> p < end_addr (allocators s ! j))"
proof (induction p i s rule: owner.induct)
  case (1 m i s)
  let ?in = "\<lambda>j. start_addr (allocators s ! j) \<le> m \<and> m < end_addr (allocators s ! j)"
  show ?case
  proof (cases "i < unat (allocator_len s) \<and> \<not> ?in i")
    case True
    then have o: "owner m i s = owner m (i + 1) s" by (subst owner.simps) auto
    have le: "(i \<le> j \<and> j < unat (allocator_len s) \<longrightarrow> \<not> ?in j) \<longleftrightarrow> (i + 1 \<le> j \<and> j < unat (allocator_len s) \<longrightarrow> \<not> ?in j)" for j
      using True by (cases "j = i") auto
    from "1.IH" True show ?thesis unfolding o le by (auto split: option.splits)
  next
    case False
    then show ?thesis by (subst owner.simps) (auto split: option.splits)
  qed
qed

section \<open>Properties\<close>

lemma held_in_node: "node_ok pm pa A \<Longrightarrow> q \<in> A \<Longrightarrow> block_in (lo pa) (hi pa) q"
  unfolding node_ok_def using held_block(1) by blast

lemma held_in_zone:
  assumes "node_ok pm pa A" "q \<in> A" "unat (y :: ptr) \<in> region q"
  shows "in_zone pa y"
  using held_in_node [OF assms(1,2)] assms(3) by (cases q) (auto simp: block_in_def region_def intro: in_zone_range)

lemma held_disjoint:
  assumes ok: "mm_ok s A" and i: "i < unat (allocator_len s)" "q \<in> A i" and j: "j < unat (allocator_len s)" "q' \<in> A j"
    and ne: "i \<noteq> j \<or> q \<noteq> q'"
  shows "region q \<inter> region q' = {}"
proof (cases "i = j")
  case True
  from ok i(1) have "node_ok (mm_pm s) (allocators s ! i) (A i)" by (simp add: mm_ok_def)
  then show ?thesis using held_block(2) i(2) j(2) True ne unfolding node_ok_def by blast
next
  case False
  have no: "node_ok (mm_pm s) (allocators s ! i) (A i)" "node_ok (mm_pm s) (allocators s ! j) (A j)"
    using ok i j by (simp_all add: mm_ok_def)
  show ?thesis
  proof (rule ccontr)
    assume "region q \<inter> region q' \<noteq> {}"
    then obtain c where c: "c \<in> region q" "c \<in> region q'" by blast
    have "c < hi (allocators s ! i)" using held_in_node [OF no(1) i(2)] c(1) by (cases q) (auto simp: block_in_def region_def)
    then have "unat (of_nat c :: ptr) = c" using unat_word_bound [of "end_addr (allocators s ! i)"] by (intro unat_of_nat_small) linarith
    then have "in_zone (allocators s ! i) (of_nat c)" "in_zone (allocators s ! j) (of_nat c)"
      using held_in_zone [OF no(1) i(2), of "of_nat c"] held_in_zone [OF no(2) j(2), of "of_nat c"] c by auto
    then show False using ok i(1) j(1) False unfolding mm_ok_def by blast
  qed
qed

text \<open>
  C7: \<open>mem::alloc\<close> over all memory nodes. In every state where the nodes are well-formed and
  have disjoint zones, the call does not fault. It takes the block from the first node that has
  room for the order the size needs; the block holds \<open>n\<close> bytes, lies in that node and meets no
  block held in any node, and the state stays well-formed with it held. It fails exactly when no
  node has room, or for 0 bytes, and then changes nothing.
\<close>
theorem mem_alloc_correct:
  assumes "mm_ok s A" and "unat n < 2 ^ 31"
  shows "\<exists>z s'. mem_alloc n s = Some (z, s') \<and>
    (if \<exists>j. fits n s A j then \<exists>i k. z \<noteq> NULL \<and> fits n s A i \<and> (\<forall>j < i. \<not> fits n s A j) \<and>
       mm_ok s' (A(i := insert (unat z, k) (A i))) \<and> unat n \<le> 2 ^ k \<and>
       block_in (lo (allocators s ! i)) (hi (allocators s ! i)) (unat z, k) \<and>
       (\<forall>j q. j < unat (allocator_len s) \<longrightarrow> q \<in> A j \<longrightarrow> region q \<inter> region (unat z, k) = {})
     else z = NULL \<and> s' = s)"
proof (cases "\<exists>j. fits n s A j")
  case False
  then show ?thesis using first_node_spec [OF assms, of 0] by (simp add: mem_alloc_def)
next
  case True
  then have "\<exists>j \<ge> 0. fits n s A j" by simp
  from first_node_spec [OF assms, of 0, unfolded if_P [OF this]] obtain z i pm' pa' where
    1: "mem_alloc n s = Some (z, put_node i pm' pa' s)" "z \<noteq> NULL" "fits n s A i" "\<forall>k < i. \<not> fits n s A k"
      "same_zone (allocators s ! i) pa'"
      "mm_ok (put_node i pm' pa' s) (A(i := insert (unat z, order_bits (allocators s ! i) n) (A i)))"
      "(unat z, order_bits (allocators s ! i) n) \<notin> A i" "unat n \<le> 2 ^ order_bits (allocators s ! i) n"
    by (auto simp: mem_alloc_def)
  let ?k = "order_bits (allocators s ! i) n" and ?s = "put_node i pm' pa' s"
  have i: "i < unat (allocator_len s)" using 1(3) by (simp add: fits_def)
  then have "node_ok pm' (allocators ?s ! i) (insert (unat z, ?k) (A i))" using 1(6) unfolding mm_ok_def by (metis fun_upd_same put_node_simps(1,2))
  then have "block_in (lo (allocators ?s ! i)) (hi (allocators ?s ! i)) (unat z, ?k)" by (rule held_in_node) simp
  moreover have "i < length (allocators s)" using i assms(1) by (simp add: mm_ok_def)
  ultimately have b: "block_in (lo (allocators s ! i)) (hi (allocators s ! i)) (unat z, ?k)"
    using 1(5) by (simp add: same_zone_def)
  have d: "region q \<inter> region (unat z, ?k) = {}" if "j < unat (allocator_len s)" "q \<in> A j" for j q
  proof (rule held_disjoint [OF 1(6)])
    show "q \<in> (A(i := insert (unat z, ?k) (A i))) j" "j \<noteq> i \<or> q \<noteq> (unat z, ?k)" using that 1(7) by auto
  qed (use that i in simp_all)
  show ?thesis unfolding if_P [OF True]
    by (rule exI, rule exI, rule conjI [OF 1(1)], rule exI [of _ i], rule exI [of _ ?k]) (use 1 b d in auto)
qed

text \<open>What a free does to the held blocks of all nodes.\<close>

lemma free_spec:
  assumes ok: "mm_ok s A"
  shows "\<exists>s'. mem_free p s = Some s' \<and> pm_bytes (mm_pm s') = pm_bytes (mm_pm s) \<and>
    mm_ok s' (\<lambda>i. {q \<in> A i. \<not> (fst q \<le> unat p \<and> unat p < fst q + 2 ^ bits (allocators s ! i))})"
proof -
  let ?n = "unat (allocator_len s)"
  let ?B = "\<lambda>i. {q \<in> A i. \<not> (fst q \<le> unat p \<and> unat p < fst q + 2 ^ bits (allocators s ! i))}"
  have nok: "node_ok (mm_pm s) (allocators s ! j) (A j)" if "j < ?n" for j using ok that by (simp add: mm_ok_def)
  have same: "?B j = A j" if j: "j < ?n" and out: "\<not> (lo (allocators s ! j) \<le> unat p \<and> unat p < hi (allocators s ! j))" for j
  proof -
    from nok [OF j] obtain xss where r: "pa_rep (mm_pm s) (allocators s ! j) xss (A j)" by (auto simp: node_ok_def)
    have "\<not> (fst q \<le> unat p \<and> unat p < fst q + 2 ^ bits (allocators s ! j))" if q: "q \<in> A j" for q
    proof
      assume "fst q \<le> unat p \<and> unat p < fst q + 2 ^ bits (allocators s ! j)"
      then have "unat p \<in> region q" using held_granule [OF r q] by blast
      with held_in_node [OF nok [OF j] q] out show False by (cases q) (auto simp: block_in_def region_def)
    qed
    then show ?thesis by blast
  qed
  show ?thesis
  proof (cases "owner p 0 s")
    case None
    with owner_spec [where p = p and i = 0 and s = s] have "?B j = A j" if "j < ?n" for j
      using same [OF that] that by (auto simp: word_le_nat_alt word_less_nat_alt)
    then have "mm_ok s ?B = mm_ok s A" by (simp add: mm_ok_def)
    then show ?thesis using None ok by (simp add: mem_free_def)
  next
    case (Some i)
    with owner_spec [where p = p and i = 0 and s = s] have i: "i < ?n" "start_addr (allocators s ! i) \<le> p" "p < end_addr (allocators s ! i)" by auto
    from node_free [OF nok [OF i(1)], of p] obtain pm' pa' where
      f: "pa_free (mm_pm s) (allocators s ! i) p = Some (pm', pa')" "same_zone (allocators s ! i) pa'"
        "zone_off (allocators s ! i) (mm_pm s) pm'" "node_ok pm' pa' (?B i)" "pm_bytes pm' = pm_bytes (mm_pm s)" by blast
    have "mm_ok (put_node i pm' pa' s) (A(i := ?B i))" using ok i(1) f(4,3,2) by (rule mm_ok_put)
    moreover have "?B j = (A(i := ?B i)) j" if "j < ?n" for j
    proof (cases "j = i")
      case False
      have "in_zone (allocators s ! i) p" using i(2,3) by (intro in_zone_range) (simp_all add: word_le_nat_alt word_less_nat_alt)
      then have "\<not> in_zone (allocators s ! j) p" using ok that i(1) False unfolding mm_ok_def by blast
      then have "\<not> (lo (allocators s ! j) \<le> unat p \<and> unat p < hi (allocators s ! j))" using in_zone_range by blast
      with same [OF that] False show ?thesis by simp
    qed simp
    ultimately have "mm_ok (put_node i pm' pa' s) ?B" by (simp add: mm_ok_def)
    then show ?thesis using Some f(1,5) by (simp add: mem_free_def)
  qed
qed

text \<open>
  C8: \<open>mem::free\<close> does not fault for any pointer. A pointer into the first granule of a held
  block gives that block back and no other; any other pointer changes no node's held blocks.
\<close>
theorem mem_free_correct:
  assumes "mm_ok s A"
  shows "\<exists>s'. mem_free p s = Some s' \<and>
    mm_ok s' (\<lambda>i. {q \<in> A i. \<not> (fst q \<le> unat p \<and> unat p < fst q + 2 ^ bits (allocators s ! i))})"
  using free_spec [OF assms] by blast

text \<open>A write inside a held block of one node keeps every node.\<close>

lemma mm_ok_client:
  assumes ok: "mm_ok s A" and i: "i < unat (allocator_len s)" and w: "client_write p n (mm_pm s) pm'"
    and c: "(c, k) \<in> A i" "c \<le> unat p" "unat p + unat n \<le> c + 2 ^ k" and n: "0 < unat n"
  shows "mm_ok (s\<lparr>mm_pm := pm'\<rparr>) A"
proof -
  have "node_ok pm' (allocators s ! j) (A j)" if j: "j < unat (allocator_len s)" for j
  proof -
    have nj: "node_ok (mm_pm s) (allocators s ! j) (A j)" and ni: "node_ok (mm_pm s) (allocators s ! i) (A i)"
      using ok i j by (simp_all add: mm_ok_def)
    from nj obtain xss where r: "pa_rep (mm_pm s) (allocators s ! j) xss (A j)"
      "coalesced (free_of (bits (allocators s ! j)) xss)" by (auto simp: node_ok_def)
    have "pa_rep pm' (allocators s ! j) xss (A j)"
    proof (cases "j = i")
      case True
      with c(1) have "(c, k) \<in> A j" by simp
      with r(1) w show ?thesis using c(2,3) by (rule client_write_rep)
    next
      case False
      have bok: "blocks_ok (mm_pm s) (allocators s ! j) xss (A j)" using r(1) by (simp add: pa_rep_def)
      note g = blocks_okD(1) [OF bok]
      have out: "\<not> in_zone (allocators s ! j) y" if "unat p \<le> unat y" "unat y < unat p + unat n" for y
      proof -
        have "unat y \<in> region (c, k)" using that c by (simp add: region_def)
        from held_in_zone [OF ni c(1) this] show ?thesis using ok i j False unfolding mm_ok_def by blast
      qed
      have far: "apart p n y m" if z: "\<And>x :: ptr. y \<le> unat x \<Longrightarrow> unat x < y + m \<Longrightarrow> in_zone (allocators s ! j) x" and m: "y < 2 ^ 64" "0 < m" for y m
      proof (rule ccontr)
        assume "\<not> apart p n y m"
        then have a: "unat p < y + m" "y < unat p + unat n" by (auto simp: apart_def)
        obtain x :: ptr where x: "unat x = max y (unat p)"
          using m(1) unat_word_bound [of p] unat_of_nat_small [of "max y (unat p)"] by (metis max_def)
        show False using out [of x] z [of x] a x m(2) n by (auto simp: max_def split: if_splits)
      qed
      show ?thesis
      proof (rule client_rep [OF r(1) w])
        fix x q assume x: "q < 39" "x \<in> set (xss q)"
        have b: "block_in (lo (allocators s ! j)) (hi (allocators s ! j)) (unat x, bits (allocators s ! j) + q)"
          by (rule free_block_in [OF bok x])
        have "(2 :: nat) ^ 12 \<le> 2 ^ (bits (allocators s ! j) + q)" using geomD(1) [OF g] by (intro power_increasing) auto
        with b have xb: "lo (allocators s ! j) \<le> unat x" "unat x + 4096 \<le> hi (allocators s ! j)" by (auto simp: block_in_def)
        have x64: "unat x + 16 < 2 ^ 64" using xb(2) unat_word_bound [of "end_addr (allocators s ! j)"] by linarith
        show "apart p n (unat x) 16 \<and> apart p n (unat x + 16) 8"
          by (intro conjI far in_zone_range) (use xb x64 in auto)
      next
        fix a :: usize assume a: "lo (allocators s ! j) \<le> unat a" "unat a < hi (allocators s ! j)"
        show "apart p n (unat (get_meta (allocators s ! j) a)) 1"
        proof (rule far)
          fix x :: ptr assume "unat (get_meta (allocators s ! j) a) \<le> unat x" "unat x < unat (get_meta (allocators s ! j) a) + 1"
          then have "unat x = unat (get_meta (allocators s ! j) a)" by linarith
          then have "x = get_meta (allocators s ! j) a" by (rule word_unat_eq_iff [THEN iffD2])
          then show "in_zone (allocators s ! j) x" using meta_in_zone [OF g a] by simp
        qed (rule unat_word_bound, simp)
      qed
    qed
    with r(2) show ?thesis by (auto simp: node_ok_def)
  qed
  then show ?thesis using ok by (simp add: mm_ok_def)
qed

lemma copy_range_client: "client_write dest n pm (copy_range dest src n pm)"
  by (auto simp: client_write_def copy_range_def apart_def in_range_def)

lemma copy_range_bytes:
  assumes "i < unat n" "unat dest + unat n \<le> 2 ^ 64"
  shows "pm_bytes (copy_range dest src n pm) (dest + of_nat i) = pm_bytes pm (src + of_nat i)"
proof -
  have "i < 2 ^ 64" using assms(1) unat_word_bound [of n] by linarith
  then have "unat (of_nat i :: ptr) = i" by (rule unat_of_nat_small)
  then have "unat (dest + of_nat i) = unat dest + i" using assms by (subst unat_add_noov) simp_all
  with assms(1) show ?thesis by (simp add: copy_range_def in_range_def)
qed

text \<open>The metadata of a held block.\<close>

lemma held_meta:
  fixes m :: ptr
  assumes "node_ok pm pa A" "(unat m, k) \<in> A"
  shows "lo pa \<le> unat m" "unat m < hi pa" "bits pa \<le> k" "k \<le> bits pa + maxo pa" "m_alloced (pm_meta pm (get_meta pa m))"
    "unat (ucast (m_order (pm_meta pm (get_meta pa m))) :: u8) = k - bits pa"
    "get_order_size pa (ucast (m_order (pm_meta pm (get_meta pa m)))) = 2 ^ k"
    "align_down m (2 ^ k) = m" "unat (2 ^ k :: usize) = 2 ^ k" "unat m + 2 ^ k \<le> hi pa"
proof -
  from assms(1) obtain xss where r: "pa_rep pm pa xss A" by (auto simp: node_ok_def)
  have ok: "blocks_ok pm pa xss A" using r by (simp add: pa_rep_def)
  note ok' = blocks_okD [OF ok] and g = geomD [OF blocks_okD(1) [OF ok]]
  have T: "(unat m, k) \<in> free_of (bits pa) xss \<union> A" using assms(2) by simp
  note h = tile_head [OF ok T]
  show "lo pa \<le> unat m" "unat m < hi pa" "bits pa \<le> k" "k \<le> bits pa + maxo pa" "unat m + 2 ^ k \<le> hi pa" using h by blast+
  show "m_alloced (pm_meta pm (get_meta pa m))" using ok'(7) [OF h(1-3)] assms(2) by blast
  have "m_order (pm_meta pm (get_meta pa m)) = of_nat (k - bits pa)" using ok'(6) [OF assms(2)] .
  moreover have "k - bits pa < 39" using h(7) g(4) by linarith
  ultimately show o: "unat (ucast (m_order (pm_meta pm (get_meta pa m))) :: u8) = k - bits pa"
    by (simp add: unsigned_ucast_eq unsigned_of_nat take_bit_nat_eq_self)
  show "get_order_size pa (ucast (m_order (pm_meta pm (get_meta pa m)))) = 2 ^ k"
    using order_size [OF ok'(1), of "ucast (m_order (pm_meta pm (get_meta pa m)))"] o h(4,7) by simp
  have k64: "k < 64" using h(7) g(2) by linarith
  then show "unat (2 ^ k :: usize) = 2 ^ k" by (rule unat_exp64)
  have "unat (align_down m (2 ^ k)) = unat m div 2 ^ k * 2 ^ k" by (rule unat_align_down)
  also have "\<dots> = unat m" using h(5) by simp
  finally show "align_down m (2 ^ k) = m" by (simp only: unat_inj)
qed

text \<open>The allocator of a held block, and what \<open>realloc\<close> does with it.\<close>

lemma owner_held:
  assumes ok: "mm_ok s A" and i: "i < unat (allocator_len s)" and m: "(unat m, k) \<in> A i"
  shows "owner m 0 s = Some i"
proof -
  have nok: "node_ok (mm_pm s) (allocators s ! i) (A i)" using ok i by (simp add: mm_ok_def)
  note hm = held_meta [OF nok m]
  have z: "in_zone (allocators s ! i) m" using hm(1,2) by (rule in_zone_range)
  show ?thesis
  proof (cases "owner m 0 s")
    case None
    with owner_spec [where p = m and i = 0 and s = s] i hm(1,2) show ?thesis
      by (auto simp: word_le_nat_alt word_less_nat_alt)
  next
    case (Some j)
    with owner_spec [where p = m and i = 0 and s = s]
    have j: "j < unat (allocator_len s)" "in_zone (allocators s ! j) m"
      by (auto simp: word_le_nat_alt word_less_nat_alt intro: in_zone_range)
    with ok i z have "j = i" unfolding mm_ok_def by blast
    with Some show ?thesis by simp
  qed
qed

lemma realloc_held:
  fixes pa and i :: nat and s :: mm and m :: ptr
  defines "pa \<equiv> allocators s ! i"
  defines "order \<equiv> ucast (m_order (pm_meta (mm_pm s) (get_meta pa m))) :: u8"
  assumes ok: "mm_ok s A" and i: "i < unat (allocator_len s)" and m: "(unat m, k) \<in> A i"
  shows "unat order = k - bits pa" and "bits pa \<le> k"
    and "order_bits pa n < k \<Longrightarrow> mem_realloc m n s = do {
      (pm, pa') \<leftarrow> lists_remove_p (k - bits pa) m (mm_pm s) pa;
      (pm, pa') \<leftarrow> shrink_loop m order (get_order pa n) pm pa';
      Some (m, put_node i (set_meta (get_meta pa m) ((pm_meta pm (get_meta pa m))\<lparr>m_order := ucast (get_order pa n)\<rparr>) pm) pa' s)}"
    and "order_bits pa n = k \<Longrightarrow> mem_realloc m n s = Some (m, s)"
    and "k < order_bits pa n \<Longrightarrow> get_order pa n \<le> max_order pa \<Longrightarrow> get_space (mm_pm s) pa (m + 2 ^ k) = Some sp \<Longrightarrow>
      sp < n \<or> align_of m < get_order_size pa (get_order pa n) \<Longrightarrow> mem_realloc m n s = pa_realloc_move i m (2 ^ k) n s"
proof -
  have nok: "node_ok (mm_pm s) pa (A i)" using ok i by (simp add: mm_ok_def pa_def)
  note hm = held_meta [OF nok m]
  show o: "unat order = k - bits pa" and b: "bits pa \<le> k" using hm(6,3) by (simp_all add: order_def)
  have inr: "\<not> (m < start_addr pa \<or> m \<ge> end_addr pa)" using hm(1,2) by (simp add: word_le_nat_alt word_less_nat_alt)
  have own: "mem_realloc m n s = pa_realloc i m n s" using owner_held [OF ok i m] by (simp add: mem_realloc_def)
  have mo: "order \<le> max_order pa" using o b hm(4) by (simp add: word_le_nat_alt)
  show "mem_realloc m n s = do {
      (pm, pa') \<leftarrow> lists_remove_p (k - bits pa) m (mm_pm s) pa;
      (pm, pa') \<leftarrow> shrink_loop m order (get_order pa n) pm pa';
      Some (m, put_node i (set_meta (get_meta pa m) ((pm_meta pm (get_meta pa m))\<lparr>m_order := ucast (get_order pa n)\<rparr>) pm) pa' s)}"
    if "order_bits pa n < k"
  proof -
    have lt: "get_order pa n < order" using that o b by (simp add: order_bits_def word_less_nat_alt)
    with mo have "\<not> max_order pa < get_order pa n" "get_order pa n \<noteq> order" by auto
    with lt show ?thesis unfolding own pa_realloc_def pa_def [symmetric]
      using inr hm(5) o [symmetric] hm(7,8) by (simp add: order_def [symmetric] Let_def)
  qed
  show "mem_realloc m n s = Some (m, s)" if "order_bits pa n = k"
  proof -
    have "get_order pa n = order" using that o b by (simp add: order_bits_def word_unat_eq_iff)
    moreover have "\<not> max_order pa < order" using mo by simp
    ultimately show ?thesis unfolding own pa_realloc_def pa_def [symmetric]
      using inr hm(5) hm(7,8) by (simp add: order_def [symmetric] Let_def del: not_less not_le)
  qed
  show "mem_realloc m n s = pa_realloc_move i m (2 ^ k) n s" if "k < order_bits pa n" "get_order pa n \<le> max_order pa"
    "get_space (mm_pm s) pa (m + 2 ^ k) = Some sp" "sp < n \<or> align_of m < get_order_size pa (get_order pa n)"
  proof -
    have lt: "order < get_order pa n" using that(1) o b by (simp add: order_bits_def word_less_nat_alt)
    then have "\<not> max_order pa < get_order pa n" "get_order pa n \<noteq> order" "\<not> get_order pa n < order"
      "\<not> (n \<le> sp \<and> align_of m \<ge> get_order_size pa (get_order pa n))" using that(2,4) by auto
    with that(3) show ?thesis unfolding own pa_realloc_def pa_def [symmetric]
      using inr hm(5) hm(7,8) by (auto simp: order_def [symmetric] Let_def)
  qed
qed

text \<open>The block a move goes to: the node's own allocator is asked first, then all of them.\<close>

lemma move_alloc:
  assumes ok: "mm_ok s A" and i: "i < unat (allocator_len s)" and n: "unat n < 2 ^ 31"
  shows "if \<exists>j. fits n s A j
    then \<exists>z j pm' pa'. pa_realloc_move i m len n s =
        (let s = (put_node j pm' pa' s)\<lparr>mm_pm := copy_range z m len pm'\<rparr>
         in do { (pm, pa) \<leftarrow> pa_free (mm_pm s) (allocators s ! i) m; Some (z, put_node i pm pa s) }) \<and>
      z \<noteq> NULL \<and> fits n s A j \<and> same_zone (allocators s ! j) pa' \<and>
      mm_ok (put_node j pm' pa' s) (A(j := insert (unat z, order_bits (allocators s ! j) n) (A j))) \<and>
      (unat z, order_bits (allocators s ! j) n) \<notin> A j \<and> unat n \<le> 2 ^ order_bits (allocators s ! j) n \<and>
      pm_bytes pm' = pm_bytes (mm_pm s)
    else pa_realloc_move i m len n s = Some (NULL, s)"
proof -
  let ?pa = "allocators s ! i"
  have nok: "node_ok (mm_pm s) ?pa (A i)" and len: "i < length (allocators s)" using ok i by (simp_all add: mm_ok_def)
  note al = node_alloc [OF nok n]
  show ?thesis
  proof (cases "fits n s A i")
    case True
    then have "n \<noteq> 0 \<and> room ?pa (A i) (get_order ?pa n)" by (simp add: fits_def)
    from al [unfolded if_P [OF this]] obtain z pm' pa' where
      1: "pa_alloc (mm_pm s) ?pa n = Some (z, pm', pa')" "z \<noteq> NULL" "same_zone ?pa pa'" "zone_off ?pa (mm_pm s) pm'"
        "node_ok pm' pa' (insert (unat z, order_bits ?pa n) (A i))" "(unat z, order_bits ?pa n) \<notin> A i"
        "unat n \<le> 2 ^ order_bits ?pa n" "pm_bytes pm' = pm_bytes (mm_pm s)" by blast
    have "mm_ok (put_node i pm' pa' s) (A(i := insert (unat z, order_bits ?pa n) (A i)))"
      using ok i 1(5,4,3) by (rule mm_ok_put)
    moreover have "\<exists>j. fits n s A j" using True by blast
    moreover have "pa_realloc_move i m len n s =
        (let s = (put_node i pm' pa' s)\<lparr>mm_pm := copy_range z m len pm'\<rparr>
         in do { (pm, pa) \<leftarrow> pa_free (mm_pm s) (allocators s ! i) m; Some (z, put_node i pm pa s) })"
      using 1(1,2) by (simp add: pa_realloc_move_def Let_def)
    ultimately show ?thesis using True 1(2,3,6-8) by (simp only: if_True) blast
  next
    case False
    then have "\<not> (n \<noteq> 0 \<and> room ?pa (A i) (get_order ?pa n))" using i by (simp add: fits_def)
    note al = al [unfolded if_not_P [OF this]]
    have mv: "pa_realloc_move i m len n s = do {
       (out, s) \<leftarrow> mem_alloc n s;
       if out = NULL then Some (NULL, s)
       else do {
         let s = s\<lparr>mm_pm := copy_range out m len (mm_pm s)\<rparr>;
         (pm, pa) \<leftarrow> pa_free (mm_pm s) (allocators s ! i) m;
         Some (out, put_node i pm pa s)
       } }"
      using al by (simp add: pa_realloc_move_def put_node_same [OF len] Let_def)
    show ?thesis
    proof (cases "\<exists>j. fits n s A j")
      case none: False
      then show ?thesis using first_node_spec [OF ok n, of 0] by (simp add: mv mem_alloc_def)
    next
      case some: True
      then have "\<exists>j \<ge> 0. fits n s A j" by simp
      from first_node_spec [OF ok n, of 0, unfolded if_P [OF this]] obtain z j pm' pa' where
        1: "mem_alloc n s = Some (z, put_node j pm' pa' s)" "z \<noteq> NULL" "fits n s A j" "same_zone (allocators s ! j) pa'"
          "mm_ok (put_node j pm' pa' s) (A(j := insert (unat z, order_bits (allocators s ! j) n) (A j)))"
          "(unat z, order_bits (allocators s ! j) n) \<notin> A j" "unat n \<le> 2 ^ order_bits (allocators s ! j) n"
          "pm_bytes pm' = pm_bytes (mm_pm s)"
        by (auto simp: mem_alloc_def)
      have "pa_realloc_move i m len n s =
        (let s = (put_node j pm' pa' s)\<lparr>mm_pm := copy_range z m len pm'\<rparr>
         in do { (pm, pa) \<leftarrow> pa_free (mm_pm s) (allocators s ! i) m; Some (z, put_node i pm pa s) })"
        using 1(1,2) by (simp add: mv Let_def)
      then show ?thesis unfolding if_P [OF some] using 1(2-8) by blast
    qed
  qed
qed

lemma held_first_granule:
  assumes "node_ok pm pa A" "(unat (m :: ptr), k) \<in> A"
  shows "{q \<in> A. \<not> (fst q \<le> unat m \<and> unat m < fst q + 2 ^ bits pa)} = A - {(unat m, k)}"
proof -
  from assms(1) obtain xss where r: "pa_rep pm pa xss A" by (auto simp: node_ok_def)
  have "q = (unat m, k)" if q: "q \<in> A" "fst q \<le> unat m" "unat m < fst q + 2 ^ bits pa" for q
  proof (rule ccontr)
    assume "q \<noteq> (unat m, k)"
    then have "region q \<inter> region (unat m, k) = {}" using held_block(2) [OF r assms(2) q(1)] by blast
    moreover have "unat m \<in> region q" using held_granule [OF r q] .
    moreover have "unat m \<in> region (unat m, k)" by (simp add: region_def)
    ultimately show False by blast
  qed
  moreover have "fst (unat m, k) \<le> unat m \<and> unat m < fst (unat m, k) + 2 ^ bits pa" by simp
  ultimately show ?thesis by blast
qed

lemma size_above:
  assumes "node_ok pm pa A" "k < order_bits pa n" "get_order pa n \<le> max_order pa" "bits pa \<le> k" "unat n < 2 ^ 31" "0 < unat n"
  shows "2 ^ k < unat n"
proof -
  from assms(1) have g: "geom pa" by (auto simp: node_ok_def pa_rep_def blocks_ok_def)
  have "get_order pa n \<noteq> 0" using assms(2,4) by (auto simp: order_bits_def)
  with get_order_size_bounds(2) [OF g assms(6,5)] assms(3) have "(2 :: nat) ^ order_bits pa n < 2 * unat n"
    by (simp add: order_bits_def word_le_nat_alt)
  moreover have "(2 :: nat) ^ Suc k \<le> 2 ^ order_bits pa n" using assms(2) by (intro power_increasing) auto
  ultimately show ?thesis by simp
qed

text \<open>
  C9: \<open>mem::realloc\<close> of a held block to a size of a larger order, where the space behind the
  block does not suffice or the block is not aligned for the order. With room for \<open>n\<close> bytes in
  some node the call returns a fresh block that holds \<open>n\<close> bytes and starts with the contents of
  the old one, which is given back; without room it returns \<open>NULL\<close> and changes nothing.
\<close>
theorem realloc_moves:
  assumes ok: "mm_ok s A" and i: "i < unat (allocator_len s)" and m: "(unat m, k) \<in> A i" and n: "unat n < 2 ^ 31"
    and up: "k < order_bits (allocators s ! i) n" "get_order (allocators s ! i) n \<le> max_order (allocators s ! i)"
    and sp: "get_space (mm_pm s) (allocators s ! i) (m + 2 ^ k) = Some sp"
      "sp < n \<or> align_of m < get_order_size (allocators s ! i) (get_order (allocators s ! i) n)"
  shows "\<exists>z s'. mem_realloc m n s = Some (z, s') \<and>
    (if \<exists>j. fits n s A j then \<exists>j k'. z \<noteq> NULL \<and> fits n s A j \<and> unat n \<le> 2 ^ k' \<and> (unat z, k') \<notin> A j \<and>
       mm_ok s' ((A(j := insert (unat z, k') (A j)))(i := (A(j := insert (unat z, k') (A j))) i - {(unat m, k)})) \<and>
       (\<forall>b < 2 ^ k. pm_bytes (mm_pm s') (z + of_nat b) = pm_bytes (mm_pm s) (m + of_nat b))
     else z = NULL \<and> s' = s)"
proof -
  let ?pa = "allocators s ! i"
  have len: "i < length (allocators s)" and nok: "node_ok (mm_pm s) ?pa (A i)" using ok i by (simp_all add: mm_ok_def)
  note hm = held_meta [OF nok m]
  note mv = realloc_held(5) [OF ok i m up sp]
  note ma = move_alloc [OF ok i n, of m "2 ^ k"]
  show ?thesis
  proof (cases "\<exists>j. fits n s A j")
    case False
    with ma show ?thesis unfolding mv by simp
  next
    case True
    from ma [unfolded if_P [OF True]] obtain z j pm' pa' where
      1: "pa_realloc_move i m (2 ^ k) n s = (let s = (put_node j pm' pa' s)\<lparr>mm_pm := copy_range z m (2 ^ k) pm'\<rparr>
         in do { (pm, pa) \<leftarrow> pa_free (mm_pm s) (allocators s ! i) m; Some (z, put_node i pm pa s) })"
      "z \<noteq> NULL" "fits n s A j" "same_zone (allocators s ! j) pa'"
      "mm_ok (put_node j pm' pa' s) (A(j := insert (unat z, order_bits (allocators s ! j) n) (A j)))"
      "(unat z, order_bits (allocators s ! j) n) \<notin> A j" "unat n \<le> 2 ^ order_bits (allocators s ! j) n"
      "pm_bytes pm' = pm_bytes (mm_pm s)" by blast
    let ?k' = "order_bits (allocators s ! j) n" and ?s1 = "put_node j pm' pa' s"
    let ?A = "A(j := insert (unat z, ?k') (A j))" and ?pm = "copy_range z m (2 ^ k) pm'"
    let ?s2 = "?s1\<lparr>mm_pm := ?pm\<rparr>"
    have j: "j < unat (allocator_len ?s1)" using 1(3) by (simp add: fits_def)
    have zb: "(unat z, ?k') \<in> ?A j" by simp
    have "0 < unat n" using 1(3) by (simp add: fits_def unat_gt_0)
    with size_above [OF nok up hm(3) n] 1(7) have kn: "2 ^ k \<le> (2 :: nat) ^ ?k'" by linarith
    have ok2: "mm_ok ?s2 ?A"
      by (rule mm_ok_client [OF 1(5) j _ zb, where p = z and n = "2 ^ k"]) (use kn hm(9) in \<open>simp_all add: copy_range_client\<close>)
    then have nok2: "node_ok ?pm (allocators ?s2 ! i) (?A i)" using i by (simp add: mm_ok_def)
    have bi: "bits (allocators ?s2 ! i) = bits ?pa" using 1(4) len by (cases "i = j") (simp_all add: same_zone_def)
    have mi: "(unat m, k) \<in> ?A i" using m by auto
    from node_free [OF nok2, of m] held_first_granule [OF nok2 mi] obtain pm2 pa2 where
      f: "pa_free ?pm (allocators ?s2 ! i) m = Some (pm2, pa2)" "same_zone (allocators ?s2 ! i) pa2"
        "zone_off (allocators ?s2 ! i) ?pm pm2" "node_ok pm2 pa2 (?A i - {(unat m, k)})" "pm_bytes pm2 = pm_bytes ?pm" by auto
    have re: "mem_realloc m n s = Some (z, put_node i pm2 pa2 ?s2)" unfolding mv 1(1) using f(1) by (simp add: Let_def)
    have "mm_ok (put_node i pm2 pa2 ?s2) (?A(i := ?A i - {(unat m, k)}))"
      using mm_ok_put [OF ok2 _ f(4) _ f(2)] f(3) i by simp
    moreover have "pm_bytes pm2 (z + of_nat b) = pm_bytes (mm_pm s) (m + of_nat b)" if "b < 2 ^ k" for b
    proof -
      have "node_ok (mm_pm ?s1) (allocators ?s1 ! j) (?A j)" using 1(5) j by (rule mm_okD)
      from held_meta(10) [OF this zb] have "unat z + 2 ^ ?k' \<le> hi (allocators ?s1 ! j)" .
      then have "unat z + unat (2 ^ k :: usize) \<le> 2 ^ 64"
        using kn hm(9) unat_word_bound [of "end_addr (allocators ?s1 ! j)"] by linarith
      then show ?thesis using copy_range_bytes [of b "2 ^ k" z m pm'] that hm(9) f(5) 1(8) by simp
    qed
    ultimately show ?thesis unfolding re if_P [OF True] using 1(2,3,6,7)
      by (intro exI [of _ z] exI [of _ "put_node i pm2 pa2 ?s2"] conjI refl exI [of _ j] exI [of _ ?k']) simp_all
  qed
qed

text \<open>
  \<open>mem::realloc\<close> to a size of a smaller order unlinks the held block from the free list of its
  order, where it is not linked: what it takes for links are the first words of the client's
  data. When the list has two blocks and the data begins with a zero word, the call faults.
\<close>
lemma realloc_shrink_faults:
  assumes ok: "mm_ok s A" and i: "i < unat (allocator_len s)" and m: "(unat m, k) \<in> A i"
    and down: "order_bits (allocators s ! i) n < k"
    and two: "2 \<le> l_len (lists (allocators s ! i) (k - bits (allocators s ! i)))"
    and data: "n_prev (pm_nodes (mm_pm s) m) = NULL"
  shows "mem_realloc m n s = None"
proof -
  let ?pa = "allocators s ! i" and ?o = "k - bits (allocators s ! i)"
  have nok: "node_ok (mm_pm s) ?pa (A i)" using ok i by (rule mm_okD)
  note hm = held_meta [OF nok m]
  from nok obtain xss where r: "pa_rep (mm_pm s) ?pa xss (A i)" by (auto simp: node_ok_def)
  then have ok': "blocks_ok (mm_pm s) ?pa xss (A i)" and fam: "family list_rep (pm_nodes (mm_pm s)) (lists ?pa) xss 39"
    by (simp_all add: pa_rep_def)
  have o: "?o < 39" using hm(4) geomD(4) [OF blocks_okD(1) [OF ok']] by linarith
  have l: "list_rep (pm_nodes (mm_pm s)) (lists ?pa ?o) (xss ?o)" using fam o by (simp add: family_def)
  have len: "l_len (lists ?pa ?o) \<noteq> 0" "l_len (lists ?pa ?o) - 1 \<noteq> 0"
  proof -
    have "l_len (lists ?pa ?o) \<noteq> 0 \<and> l_len (lists ?pa ?o) \<noteq> 1"
      by (rule ccontr) (use two in \<open>auto simp: word_le_nat_alt\<close>)
    then show "l_len (lists ?pa ?o) \<noteq> 0" "l_len (lists ?pa ?o) - 1 \<noteq> 0" by simp_all
  qed
  have "m \<notin> set (xss ?o)"
  proof
    assume "m \<in> set (xss ?o)"
    then have "(unat m, bits ?pa + ?o) \<in> free_of (bits ?pa) xss" using o by (simp only: in_free_of)
    then show False using blocks_okD(3) [OF ok'] m hm(3) by auto
  qed
  moreover have "xss ?o \<noteq> []" using l len(1) by (auto simp: list_rep_def)
  ultimately have "m \<noteq> l_start (lists ?pa ?o)" "m \<noteq> l_end (lists ?pa ?o)" using l by (auto simp: list_rep_def)
  moreover have "m \<noteq> 0" using hm(1) geomD(8) [OF blocks_okD(1) [OF ok']] by auto
  ultimately have "lists_remove_p ?o m (mm_pm s) ?pa = None"
    using len data o by (simp add: lists_remove_p_def get_list_def MAX_SUPPORTED_MEM_BITS_def list_remove_p_def get_prev_def get_next_def set_next_def Let_def)
  then show ?thesis unfolding realloc_held(3) [OF ok i m down] by simp
qed

section \<open>The tags of the multiboot table\<close>

text \<open>
  The tags of the table \<open>t\<close> from offset \<open>b\<close> on, as pairs of a type and a size; each tag starts
  at a multiple of 8 and a tag of type 0 ends the table.
\<close>

fun tags_at :: "bytes \<Rightarrow> ptr \<Rightarrow> nat \<Rightarrow> (u32 \<times> nat) list \<Rightarrow> bool" where
  "tags_at m t b [] \<longleftrightarrow> b < 2 ^ 63 \<and> rd32 m (t + of_nat b) = 0"
| "tags_at m t b ((ty, sz) # tags) \<longleftrightarrow> b < 2 ^ 63 \<and> rd32 m (t + of_nat b) = ty \<and> ty \<noteq> 0 \<and>
     unat (rd32 m (t + of_nat (b + 4))) = sz \<and> tags_at m t ((b + sz + 7) div 8 * 8) tags"

fun tag_offset :: "nat \<Rightarrow> u32 \<Rightarrow> (u32 \<times> nat) list \<Rightarrow> nat option" where
  "tag_offset b type [] = None"
| "tag_offset b type ((ty, sz) # tags) = (if ty = type then Some b else tag_offset ((b + sz + 7) div 8 * 8) type tags)"

lemma of_nat_unat_id: "(of_nat (unat x) :: usize) = x"
  by (simp flip: unat_inj)

lemma offset_word:
  assumes "8 dvd b" "b < 2 ^ 63"
  shows "4 * (of_nat b div 4 :: usize) = of_nat b" "4 * (of_nat b div 4 + 1 :: usize) = of_nat (b + 4)"
    "align_up (of_nat b + ucast (s :: u32)) 8 = (of_nat ((b + unat s + 7) div 8 * 8) :: usize)"
proof -
  have b: "unat (of_nat b :: usize) = b" using assms(2) by (intro unat_of_nat_small) simp
  have "unat (of_nat b div 4 :: usize) = b div 4" by (simp add: unat_div_distrib b)
  then have "(of_nat b div 4 :: usize) = of_nat (b div 4)" by (metis of_nat_unat_id)
  then have "4 * (of_nat b div 4 :: usize) = of_nat (4 * (b div 4))" by simp
  also have "4 * (b div 4) = b" using assms(1) by (intro dvd_mult_div_cancel) (auto elim: dvd_trans [rotated])
  finally show 4: "4 * (of_nat b div 4 :: usize) = of_nat b" .
  then show "4 * (of_nat b div 4 + 1 :: usize) = of_nat (b + 4)" by (simp add: distrib_left)
  have s: "unat s < 2 ^ 32" using unsigned_less [where 'a = nat, of s] by simp
  have u: "unat (ucast s :: usize) = unat s" using s by (simp add: unsigned_ucast_eq take_bit_nat_eq_self)
  have a: "unat (of_nat b + ucast s :: usize) = b + unat s" using s assms(2) b u by (subst unat_add_noov) simp_all
  have "unat (align_up (of_nat b + ucast s) (2 ^ 3)) = (b + unat s + (2 ^ 3 - 1)) div 2 ^ 3 * 2 ^ 3"
    unfolding a [symmetric] by (rule unat_align_up) (use a s assms(2) in simp_all)
  moreover have "unat (of_nat ((b + unat s + 7) div 8 * 8) :: usize) = (b + unat s + 7) div 8 * 8"
    by (rule unat_of_nat_small) (use s assms(2) div_times_less_eq_dividend [of "b + unat s + 7" 8] in simp)
  ultimately show "align_up (of_nat b + ucast s) 8 = (of_nat ((b + unat s + 7) div 8 * 8) :: usize)"
    by (simp flip: unat_inj)
qed

lemma mb2_get_loop_spec:
  assumes "tags_at m t b tags" "8 dvd b" "type \<noteq> 0"
  shows "mb2_get_loop m t type (of_nat b div 4) (of_nat b) =
    Some (case tag_offset b type tags of None \<Rightarrow> NULL | Some b' \<Rightarrow> t + of_nat b')"
  using assms(1,2)
proof (induction tags arbitrary: b)
  case Nil
  then show ?case using assms(3) offset_word [of b] by (subst mb2_get_loop.simps) simp
next
  case (Cons tg tags)
  obtain ty sz where tg: "tg = (ty, sz)" by force
  let ?b = "(b + sz + 7) div 8 * 8"
  from Cons.prems have h: "b < 2 ^ 63" "rd32 m (t + of_nat b) = ty" "ty \<noteq> 0" "unat (rd32 m (t + of_nat (b + 4))) = sz"
    "tags_at m t ?b tags" by (simp_all add: tg)
  note w = offset_word [OF Cons.prems(2) h(1)]
  have "8 dvd ?b" by simp
  note ih = Cons.IH [OF h(5) this]
  have st: "align_up (of_nat b + ucast (rd32 m (t + of_nat (b + 4)))) 8 = (of_nat ?b :: usize)"
    unfolding w(3) h(4) ..
  show ?case
  proof (cases "ty = type")
    case True
    then show ?thesis using h(2) by (subst mb2_get_loop.simps) (simp add: tg w(1))
  next
    case False
    then have "mb2_get_loop m t type (of_nat b div 4) (of_nat b) = mb2_get_loop m t type (of_nat ?b div 4) (of_nat ?b)"
      using h(2,3) by (subst mb2_get_loop.simps) (simp only: Let_def w(1,2) st if_False)
    then show ?thesis unfolding ih using False by (simp add: tg)
  qed
qed

text \<open>
  C10: \<open>mb2::get\<close> on a table of tags, each aligned to 8 bytes and the last of type 0, returns: the
  address of the first tag of the type it looks for, or \<open>NULL\<close> when there is none.
\<close>
theorem mb2_get_correct:
  assumes "tags_at m t 8 tags" "type \<noteq> 0"
  shows "mb2_get m t type = Some (case tag_offset 8 (ucast type) tags of None \<Rightarrow> NULL | Some b \<Rightarrow> t + of_nat b)"
proof -
  have "ucast type \<noteq> (0 :: u32)"
  proof
    assume "ucast type = (0 :: u32)"
    then have "unat (ucast type :: u32) = 0" by simp
    moreover have "unat type < 256" using unsigned_less [where 'a = nat, of type] by simp
    ultimately show False using assms(2) unat_gt_0 [of type] by (simp add: unsigned_ucast_eq take_bit_nat_eq_self)
  qed
  from mb2_get_loop_spec [OF assms(1) _ this] show ?thesis by (simp add: mb2_get_def)
qed

definition ex_mb2 :: bytes where
  "ex_mb2 a = (if a = 0x1008 then 1 else if a = 0x101C then 8 else if a = 0x100C then 13 else if a = 0x1018 then 6 else 0)"

theorem mb2_get_correct_witness:
  "mb2_get ex_mb2 0x1000 6 = Some 0x1018"
proof -
  have "tags_at ex_mb2 0x1000 8 [(1, 13), (6, 8)]"
    by (simp add: ex_mb2_def rd32_def)
  from mb2_get_correct [OF this, where type = 6] show ?thesis by simp
qed

section \<open>Examples\<close>

lemma node_oalloc:
  assumes "node_ok pm pa A" "room pa A order"
  shows "\<exists>z pm' pa'. pa_oalloc pm pa order = Some (z, pm', pa') \<and> same_zone pa pa' \<and> max_order pa' = max_order pa \<and>
    node_ok pm' pa' (insert (unat z, bits pa + unat order) A) \<and> (unat z, bits pa + unat order) \<notin> A"
proof -
  from assms(1) obtain xss where i: "pa_rep pm pa xss A" "coalesced (free_of (bits pa) xss)" by (auto simp: node_ok_def)
  from oalloc_fits [OF i, of order] assms(2) obtain z pm' ls xs' where
    1: "pa_oalloc pm pa order = Some (z, pm', pa\<lparr>lists := ls, free_space := free_space pa - get_order_size pa order\<rparr>)"
      "pa_rep pm' (pa\<lparr>lists := ls\<rparr>) xs' (insert (unat z, bits pa + unat order) A)"
      "(unat z, bits pa + unat order) \<notin> A" "coalesced (free_of (bits pa) xs')"
    unfolding room_def by blast
  then have "node_ok pm' (pa\<lparr>lists := ls, free_space := free_space pa - get_order_size pa order\<rparr>) (insert (unat z, bits pa + unat order) A)"
    by (auto simp: node_ok_def pa_rep_def)
  with 1(1,3) show ?thesis by (simp add: same_zone_def)
qed

lemma maxo_ge: "node_ok pm pa A \<Longrightarrow> block_in (lo pa) (hi pa) (a, j) \<Longrightarrow> j \<le> bits pa + maxo pa"
  using geomD(12) by (auto simp: node_ok_def pa_rep_def blocks_ok_def)

text \<open>Six pages from 1 MiB on: a block of four pages that is free and one of two pages that is held.\<close>

lemma ex_node:
  "\<exists>pm pa. node_ok pm pa {} \<and> bits pa = 12 \<and> lo pa = 0x100000 \<and> hi pa = 0x106000"
proof -
  have z: "zone_ok 12 0x100000 0x107000" "init_end 12 0x100000 0x107000 = 0x106000"
    by (simp_all add: zone_ok_def init_end_def align_up_def align_down_def PAGE_SIZE_def)
  have "(12 :: nat) \<le> 30" by simp
  from pallocator_init_spec [OF z(1) ex_zone(4) this] obtain pm pa xss where
    "pa_rep pm pa xss {}" "coalesced (free_of (bits pa) xss)" "bits pa = 12"
    "start_addr pa = align_up 0x100000 (2 ^ 12)" "end_addr pa = init_end 12 0x100000 0x107000"
    by blast
  then show ?thesis unfolding z(2) ex_zone(3) by (intro exI [of _ pm] exI [of _ pa]) (auto simp: node_ok_def)
qed

lemma ex_held:
  "\<exists>pm pa. node_ok pm pa {(0x104000, 13)} \<and> bits pa = 12 \<and> lo pa = 0x100000 \<and> hi pa = 0x106000 \<and> 2 \<le> maxo pa"
proof -
  from ex_node obtain pm0 pa0 where
    0: "node_ok pm0 pa0 {}" "bits pa0 = 12" "lo pa0 = 0x100000" "hi pa0 = 0x106000" by blast
  have "room pa0 {} 2" unfolding room_def using 0(2-4) by (intro exI [of _ "0x100000"]) (simp add: block_in_def)
  from node_oalloc [OF 0(1) this] obtain z1 :: ptr and pm1 pa1 where
    1: "same_zone pa0 pa1" "max_order pa1 = max_order pa0" "node_ok pm1 pa1 {(unat z1, 14)}" using 0(2) by auto
  have e1: "bits pa1 = 12" "lo pa1 = 0x100000" "hi pa1 = 0x106000" using 1(1) 0(2-4) by (simp_all add: same_zone_def)
  have "block_in (lo pa1) (hi pa1) (unat z1, 14)" using held_in_node [OF 1(3)] by simp
  then have "unat z1 = 0x100000" using e1 by (auto simp: block_in_def elim!: dvdE)
  with 1(3) have n1: "node_ok pm1 pa1 {(0x100000, 14)}" by simp
  have "room pa1 {(0x100000, 14)} 1" unfolding room_def using e1
    by (intro exI [of _ "0x104000"]) (auto simp: block_in_def region_def)
  from node_oalloc [OF n1 this] obtain z2 :: ptr and pm2 pa2 where
    2: "same_zone pa1 pa2" "max_order pa2 = max_order pa1" "node_ok pm2 pa2 {(unat z2, 13), (0x100000, 14)}" using e1 by auto
  have e2: "bits pa2 = 12" "lo pa2 = 0x100000" "hi pa2 = 0x106000" using 2(1) e1 by (simp_all add: same_zone_def)
  have b: "block_in (lo pa2) (hi pa2) (unat z2, 13)" using held_in_node [OF 2(3)] by simp
  from 2(3) obtain xss where r: "pa_rep pm2 pa2 xss {(unat z2, 13), (0x100000, 14)}" by (auto simp: node_ok_def)
  have "region (0x100000, 14) \<inter> region (unat z2, 13) = {}" using held_block(2) [OF r] by simp
  moreover have "unat z2 \<in> region (unat z2, 13)" by (simp add: region_def)
  ultimately have "unat z2 \<notin> region (0x100000, 14)" by blast
  then have "\<not> unat z2 < 0x104000" using b e2 by (simp add: region_def block_in_def)
  then have "unat z2 = 0x104000" using b e2 by (auto simp: block_in_def elim!: dvdE)
  with 2(3) have n2: "node_ok pm2 pa2 {(0x104000, 13), (0x100000, 14)}" by simp
  from node_free [OF n2, of "0x100000"] obtain pm3 pa3 where
    3: "same_zone pa2 pa3" "node_ok pm3 pa3 {q \<in> {(0x104000, 13), (0x100000, 14)}. \<not> (fst q \<le> unat (0x100000 :: ptr) \<and> unat (0x100000 :: ptr) < fst q + 2 ^ bits pa2)}"
    by blast
  have "{q \<in> {(0x104000, 13), (0x100000, 14)}. \<not> (fst q \<le> unat (0x100000 :: ptr) \<and> unat (0x100000 :: ptr) < fst q + 2 ^ bits pa2)} = {(0x104000, 13 :: nat)}"
    using e2 by auto
  with 3(2) have n3: "node_ok pm3 pa3 {(0x104000, 13)}" by simp
  have e3: "bits pa3 = 12" "lo pa3 = 0x100000" "hi pa3 = 0x106000" using 3(1) e2 by (simp_all add: same_zone_def)
  have "2 \<le> maxo pa3" using maxo_ge [OF n3, of "0x100000" 14] e3 by (simp add: block_in_def)
  with n3 e3 show ?thesis by blast
qed

lemma mem_free_len: "mem_free p s = Some s' \<Longrightarrow> allocator_len s' = allocator_len s"
  by (auto simp: mem_free_def split: option.splits prod.splits bind_splits)

lemma mm_ok_eq: "mm_ok s A \<Longrightarrow> (\<And>i. i < unat (allocator_len s) \<Longrightarrow> A i = B i) \<Longrightarrow> mm_ok s B"
  by (simp add: mm_ok_def)

definition one_node :: "pmem \<Rightarrow> pallocator \<Rightarrow> mm" where
  "one_node pm pa = \<lparr>mm_pm = pm, allocators = [pa], allocator_len = 1, text_start = 0, kernel_end = 0, kernel_vma = 0\<rparr>"

lemma one_node_ok: "node_ok pm pa A \<Longrightarrow> mm_ok (one_node pm pa) (\<lambda>_. A)"
  by (simp add: mm_ok_def one_node_def)

lemma ex_order: "bits pa = 12 \<Longrightarrow> get_order pa 0x4000 = 2"
proof -
  assume "bits pa = 12"
  then have "fo_bits pa = 12" by (simp add: word_unat_eq_iff)
  moreover have "log2_up 0x4000 = 14"
    by (simp add: log2_up_def log2_def bsr_unique [of 14] int_shl1_def align_up_def)
  ultimately show ?thesis by (simp add: get_order_def)
qed

lemma ex_room:
  assumes "bits pa = 12" "lo pa = 0x100000" "hi pa = 0x106000"
  shows "fits 0x4000 (one_node pm pa) (\<lambda>_. {(0x104000, 13)}) 0"
  using assms ex_order [OF assms(1)]
  by (auto simp: fits_def one_node_def room_def block_in_def region_def intro!: exI [of _ "0x100000"])

theorem mem_alloc_correct_witness:
  "\<exists>s A z s' k. mm_ok s A \<and> mem_alloc 0x4000 s = Some (z, s') \<and> z \<noteq> NULL \<and> block_in 0x100000 0x106000 (unat z, k)"
proof -
  from ex_held obtain pm pa where
    h: "node_ok pm pa {(0x104000, 13)}" "bits pa = 12" "lo pa = 0x100000" "hi pa = 0x106000" by blast
  let ?s = "one_node pm pa" and ?A = "\<lambda>_ :: nat. {(0x104000 :: nat, 13 :: nat)}"
  have f: "\<exists>j. fits 0x4000 ?s ?A j" using ex_room [OF h(2-4)] by blast
  have n: "unat (0x4000 :: usize) < 2 ^ 31" by simp
  from mem_alloc_correct [OF one_node_ok [OF h(1)] n, unfolded if_P [OF f]] obtain z s' i k where
    1: "mem_alloc 0x4000 ?s = Some (z, s')" "z \<noteq> NULL" "fits 0x4000 ?s ?A i"
      "block_in (lo (allocators ?s ! i)) (hi (allocators ?s ! i)) (unat z, k)" by (elim exE conjE) (rule that)
  have "i = 0" using 1(3) by (simp add: fits_def one_node_def)
  with 1(4) h(3,4) have "block_in 0x100000 0x106000 (unat z, k)" by (simp add: one_node_def)
  with 1(1,2) one_node_ok [OF h(1)] show ?thesis by blast
qed

theorem mem_free_correct_witness:
  "\<exists>s s'. mm_ok s (\<lambda>_. {(0x104000, 13)}) \<and> mem_free 0x104FFF s = Some s' \<and> mm_ok s' (\<lambda>_. {})"
proof -
  from ex_held obtain pm pa where h: "node_ok pm pa {(0x104000, 13)}" "bits pa = 12" by blast
  from mem_free_correct [OF one_node_ok [OF h(1)], of "0x104FFF"] obtain s' where
    s': "mem_free 0x104FFF (one_node pm pa) = Some s'"
      "mm_ok s' (\<lambda>i. {q \<in> {(0x104000, 13)}. \<not> (fst q \<le> unat (0x104FFF :: ptr) \<and>
        unat (0x104FFF :: ptr) < fst q + 2 ^ bits (allocators (one_node pm pa) ! i))})" by blast
  have le: "unat (allocator_len s') \<le> 1" using mem_free_len [OF s'(1)] by (simp add: one_node_def)
  have "mm_ok s' (\<lambda>_. {})"
  proof (rule mm_ok_eq [OF s'(2)])
    fix i assume "i < unat (allocator_len s')"
    with le have "i = 0" by linarith
    then have "allocators (one_node pm pa) ! i = pa" by (simp add: one_node_def)
    with h(2) show "{q \<in> {(0x104000, 13)}. \<not> (fst q \<le> unat (0x104FFF :: ptr) \<and>
        unat (0x104FFF :: ptr) < fst q + 2 ^ bits (allocators (one_node pm pa) ! i))} = {}" by auto
  qed
  with s'(1) one_node_ok [OF h(1)] show ?thesis by blast
qed

theorem realloc_moves_witness:
  "\<exists>s z s'. mm_ok s (\<lambda>_. {(0x104000, 13)}) \<and> mem_realloc 0x104000 0x4000 s = Some (z, s') \<and> z \<noteq> NULL \<and>
    pm_bytes (mm_pm s') z = pm_bytes (mm_pm s) 0x104000"
proof -
  from ex_held obtain pm pa where
    h: "node_ok pm pa {(0x104000, 13)}" "bits pa = 12" "lo pa = 0x100000" "hi pa = 0x106000" "2 \<le> maxo pa" by blast
  let ?s = "one_node pm pa" and ?A = "\<lambda>_ :: nat. {(0x104000 :: nat, 13 :: nat)}"
  have f: "\<exists>j. fits 0x4000 ?s ?A j" using ex_room [OF h(2-4)] by blast
  have n: "unat (0x4000 :: usize) < 2 ^ 31" by simp
  have pa: "allocators ?s ! 0 = pa" "mm_pm ?s = pm" by (simp_all add: one_node_def)
  have "end_addr pa = 0x106000" using h(4) by (simp add: word_unat_eq_iff)
  then have sp: "get_space (mm_pm ?s) (allocators ?s ! 0) (0x104000 + 2 ^ 13) = Some 0" unfolding pa by (simp add: get_space_def)
  have i: "0 < unat (allocator_len ?s)" by (simp add: one_node_def)
  have m: "(unat (0x104000 :: ptr), 13) \<in> ?A 0" by simp
  have up: "13 < order_bits (allocators ?s ! 0) 0x4000" "get_order (allocators ?s ! 0) 0x4000 \<le> max_order (allocators ?s ! 0)"
    unfolding pa order_bits_def ex_order [OF h(2)] using h(2,5) by (simp_all add: word_le_nat_alt)
  have "(0 :: usize) < 0x4000 \<or> align_of 0x104000 < get_order_size (allocators ?s ! 0) (get_order (allocators ?s ! 0) 0x4000)" by simp
  from realloc_moves [OF one_node_ok [OF h(1)] i m n up sp this, unfolded if_P [OF f]] obtain z s' where
    "mem_realloc 0x104000 0x4000 ?s = Some (z, s')" "z \<noteq> NULL"
    "\<forall>b < 2 ^ 13. pm_bytes (mm_pm s') (z + of_nat b) = pm_bytes (mm_pm ?s) (0x104000 + of_nat b)" by blast
  moreover from this(3) have "pm_bytes (mm_pm s') (z + of_nat 0) = pm_bytes (mm_pm ?s) (0x104000 + of_nat 0)"
    by (rule allE [of _ 0]) simp
  ultimately show ?thesis using one_node_ok [OF h(1)] by (intro exI [of _ ?s] exI [of _ z] exI [of _ s']) simp
qed

end
