(* ===== verification/Mem_Words.thy ===== *)
theory Mem_Words
  imports Mem
begin

text \<open>
  Words in the byte memory: what a word read sees of byte writes, word writes, \<open>memcpy\<close> and
  \<open>memset\<close>. The kernel heap and the page tables keep their data in words.
\<close>

unbundle bit_operations_syntax

lemma span_step: "span p (Suc n) = insert p (span (p + 1) n)"
proof (intro set_eqI iffI)
  fix a assume "a \<in> span p (Suc n)"
  then obtain i where "i < Suc n" "a = p + of_nat i" by (auto simp: span_def)
  then show "a \<in> insert p (span (p + 1) n)" by (cases i) (auto simp: span_def add.assoc)
next
  fix a assume "a \<in> insert p (span (p + 1) n)"
  then show "a \<in> span p (Suc n)"
  proof
    assume "a = p"
    then show ?thesis by (auto simp: span_def intro!: exI [of _ 0])
  next
    assume "a \<in> span (p + 1) n"
    then obtain i where "i < n" "a = p + 1 + of_nat i" by (auto simp: span_def)
    then show ?thesis by (auto simp: span_def add.assoc intro!: exI [of _ "Suc i"])
  qed
qed

lemma span_0 [simp]: "span p 0 = {}" by (simp add: span_def)

lemma in_span_iff:
  assumes "unat p + n \<le> 2 ^ 64"
  shows "a \<in> span p n \<longleftrightarrow> unat p \<le> unat a \<and> unat a < unat p + n"
proof
  assume "a \<in> span p n"
  then obtain i where i: "i < n" "a = p + of_nat i" by (auto simp: span_def)
  then have "unat a = unat p + i" using assms by (subst i(2), subst unat_add_noov) (simp_all add: unat_of_nat_small)
  with i(1) show "unat p \<le> unat a \<and> unat a < unat p + n" by simp
next
  assume a: "unat p \<le> unat a \<and> unat a < unat p + n"
  then have "of_nat (unat a - unat p) = a - p" by (simp flip: unat_inj add: unat_sub word_le_nat_alt unat_of_nat_small)
  then have "a = p + of_nat (unat a - unat p)" by simp
  moreover have "unat a - unat p < n" using a by linarith
  ultimately show "a \<in> span p n" unfolding span_def by blast
qed

lemma span_disjoint:
  assumes "unat p + m \<le> unat q \<or> unat q + n \<le> unat p" "unat p + m \<le> 2 ^ 64" "unat q + n \<le> 2 ^ 64"
  shows "span p m \<inter> span q n = {}"
  using assms(1) by (auto simp: in_span_iff [OF assms(2)] in_span_iff [OF assms(3)])

section \<open>Reading and writing a word\<close>

lemma rd64_cong: "(\<And>b. b \<in> span a 8 \<Longrightarrow> m b = m' b) \<Longrightarrow> rd64 m a = rd64 m' a"
  by (simp add: rd64_def rd32_def span_step numeral_nat add.assoc)

lemma wr_bytes_other: "b \<notin> span a k \<Longrightarrow> wr_bytes k a v m b = m b"
  by (induction k a v m rule: wr_bytes.induct) (auto simp: span_step)

lemma wr_bytes_read:
  "i < k \<Longrightarrow> k < 2 ^ 64 \<Longrightarrow> wr_bytes k a v m (a + of_nat i) = ucast (drop_bit (8 * i) v)"
proof (induction k arbitrary: a v m i)
  case (Suc k)
  show ?case
  proof (cases i)
    case 0
    have "a \<notin> span (a + 1) k"
    proof
      assume "a \<in> span (a + 1) k"
      then obtain j where "j < k" "a = a + of_nat (Suc j)" by (auto simp: span_def)
      then show False using offset_inj [of 0 "Suc j" a] Suc.prems by simp
    qed
    with 0 show ?thesis by (simp add: wr_bytes_other)
  next
    case (Suc j)
    have "a + of_nat (Suc j) = a + 1 + of_nat j" by simp
    with Suc.IH [of j "a + 1" "drop_bit 8 v" "m(a := ucast v)"] Suc Suc.prems show ?thesis
      by (simp only: wr_bytes.simps) (simp add: algebra_simps)
  qed
qed simp

lemma not_bit8: "8 \<le> n \<Longrightarrow> \<not> bit (x :: u8) n"
  using bit_imp_le_length [of x n] by auto

lemma not_bit32: "32 \<le> n \<Longrightarrow> \<not> bit (x :: u32) n"
  using bit_imp_le_length [of x n] by auto

lemma bit_rd32:
  assumes "i < 4" "j < 8"
  shows "bit (rd32 m a) (8 * i + j) = bit (m (a + of_nat i)) j"
proof -
  have "i = 0 \<or> i = 1 \<or> i = 2 \<or> i = 3" using assms(1) by auto
  then show ?thesis using assms(2)
    by (elim disjE) (simp_all add: rd32_def bit_or_iff bit_push_bit_iff bit_ucast_iff not_bit8)
qed

lemma bit_rd64:
  assumes "i < 8" "j < 8"
  shows "bit (rd64 m a) (8 * i + j) = bit (m (a + of_nat i)) j"
proof (cases "i < 4")
  case True
  with bit_rd32 [OF True assms(2)] assms show ?thesis
    by (simp add: rd64_def bit_or_iff bit_push_bit_iff bit_ucast_iff)
next
  case False
  then obtain k where k: "i = k + 4" "k < 4" using assms(1) by (metis add.commute le_add_diff_inverse less_diff_conv not_less add_less_imp_less_right numeral_Bit0)
  with bit_rd32 [OF k(2) assms(2), of m "a + 4"] assms show ?thesis
    by (simp add: rd64_def bit_or_iff bit_push_bit_iff bit_ucast_iff not_bit32 algebra_simps)
qed

lemma rd64_wr64_same [simp]: "rd64 (wr64 a v m) a = v"
proof (rule bit_word_eqI)
  fix n assume "n < LENGTH(64)"
  then have i: "n div 8 < 8" "n mod 8 < 8" by auto
  have "wr64 a v m (a + of_nat (n div 8)) = ucast (drop_bit (8 * (n div 8)) v)"
    unfolding wr64_def using i(1) by (rule wr_bytes_read) simp
  with bit_rd64 [OF i, of "wr64 a v m" a] i(2) show "bit (rd64 (wr64 a v m) a) n = bit v n"
    by (simp add: bit_ucast_iff bit_drop_bit_eq)
qed

lemma wr64_other: "b \<notin> span a 8 \<Longrightarrow> wr64 a v m b = m b"
  by (simp add: wr64_def wr_bytes_other)

lemma rd64_wr64_other: "span b 8 \<inter> span a 8 = {} \<Longrightarrow> rd64 (wr64 a v m) b = rd64 m b"
  by (rule rd64_cong) (auto intro: wr64_other)

lemma rd64_shift:
  assumes "\<And>i. i < 8 \<Longrightarrow> m (a + of_nat i) = m' (b + of_nat i)"
  shows "rd64 m a = rd64 m' b"
  using assms [of 0] assms [of 1] assms [of 2] assms [of 3] assms [of 4] assms [of 5] assms [of 6] assms [of 7]
  by (simp add: rd64_def rd32_def add.assoc)

lemma rd64_zero: "(\<And>b. b \<in> span a 8 \<Longrightarrow> m b = 0) \<Longrightarrow> rd64 m a = 0"
  by (simp add: rd64_def rd32_def span_step numeral_nat add.assoc)

section \<open>\<open>memset\<close> and \<open>memcpy\<close>\<close>

lemma memset_eq: "memset s n c m = (\<lambda>a. if a \<in> span s (unat n) then c else m a)"
  by (simp add: memset_def memset_loop_spec rest_span_0)

lemma memcpy_forward:
  assumes "unat src + unat n \<le> 2 ^ 64" "unat dest + unat n \<le> 2 ^ 64" "unat dest + unat n \<le> unat src \<or> unat src + unat n \<le> unat dest"
  shows "snd (memcpy dest src n m) = (\<lambda>a. if a \<in> span dest (unat n) then m (src + (a - dest)) else m a)"
proof -
  have "dest + of_nat j \<noteq> src + of_nat k" if "j < k" "k < unat n" for j k
  proof
    assume e: "dest + of_nat j = src + of_nat k"
    have "dest + of_nat j \<in> span dest (unat n)" "src + of_nat k \<in> span src (unat n)" using that by (auto simp: span_def)
    then show False using e span_disjoint [OF assms(3,2,1)] by auto
  qed
  then show ?thesis by (simp add: memcpy_def memcpy_loop_spec rest_span_0)
qed

end
