(* ===== verification/Kmem.thy ===== *)
theory Kmem
  imports Mem_Words
begin

text \<open>
  The kernel heap, \<^verbatim>\<open>src/mem/kmem.cpp\<close>: a list of free chunks in memory from
  \<^verbatim>\<open>mem::alloc\<close>. A \<^verbatim>\<open>kmem_chunk\<close> at \<open>a\<close> has its \<^verbatim>\<open>next\<close> in the word at \<open>a\<close> and its
  \<^verbatim>\<open>size\<close> in the word at \<open>a + 8\<close>; \<open>ms\<close> is the address of the static chunk
  \<^verbatim>\<open>mem_start\<close>. \<^term>\<open>None\<close> is an access through \<open>NULL\<close> or a loop that never ends.
\<close>

unbundle bit_operations_syntax

section \<open>Operations\<close>

definition MEM_CHUNK_SIZE :: usize where "MEM_CHUNK_SIZE = 16"
definition INITIAL_PAGE_COUNT :: usize where "INITIAL_PAGE_COUNT = 8"
definition PAGE_REALLOC_COUNT :: usize where "PAGE_REALLOC_COUNT = 8"

definition get_word :: "ptr \<Rightarrow> mm \<Rightarrow> usize option" where
  "get_word a s = (if a < 16 then None else Some (rd64 (pm_bytes (mm_pm s)) a))"

definition set_word :: "ptr \<Rightarrow> usize \<Rightarrow> mm \<Rightarrow> mm option" where
  "set_word a v s = (if a < 16 then None else Some (upd_bytes (wr64 a v) s))"

definition c_next :: "ptr \<Rightarrow> mm \<Rightarrow> ptr option" where "c_next c s = get_word c s"
definition c_size :: "ptr \<Rightarrow> mm \<Rightarrow> usize option" where "c_size c s = get_word (c + 8) s"
definition set_c_next :: "ptr \<Rightarrow> ptr \<Rightarrow> mm \<Rightarrow> mm option" where "set_c_next c v s = set_word c v s"
definition set_c_size :: "ptr \<Rightarrow> usize \<Rightarrow> mm \<Rightarrow> mm option" where "set_c_size c v s = set_word (c + 8) v s"

definition grow_heap :: "ptr \<Rightarrow> usize \<Rightarrow> mm \<Rightarrow> (ptr \<times> mm) option" where
  "grow_heap ms page_count s = do {
     (head, s) \<leftarrow> mem_alloc page_count s;
     s \<leftarrow> set_c_next ms head s;
     s \<leftarrow> set_c_size ms 0 s;
     s \<leftarrow> set_c_next head NULL s;
     s \<leftarrow> set_c_size head (page_count * PAGE_SIZE) s;
     Some (head, s)
   }"

definition kmem_init :: "ptr \<Rightarrow> mm \<Rightarrow> mm option" where
  "kmem_init ms s = do { (_, s) \<leftarrow> grow_heap ms INITIAL_PAGE_COUNT s; Some s }"

definition kalloc_take :: "ptr \<Rightarrow> usize \<Rightarrow> ptr \<Rightarrow> ptr \<Rightarrow> mm \<Rightarrow> (ptr \<times> mm) option" where
  "kalloc_take ms n prev i s = do {
     size \<leftarrow> c_size i s;
     s \<leftarrow> set_c_size i (size - n) s;
     size \<leftarrow> c_size i s;
     next \<leftarrow> c_next i s;
     s \<leftarrow>
       (if size = 0 then
          if prev = ms \<and> next = NULL then do { (_, s) \<leftarrow> grow_heap ms PAGE_REALLOC_COUNT s; Some s }
          else set_c_next prev next s
        else do {
          let new_addr = i + n;
          let s = upd_bytes (\<lambda>m. snd (memcpy new_addr i MEM_CHUNK_SIZE m)) s;
          set_c_next prev new_addr s
        });
     Some (i, upd_bytes (memset i n 0) s)
   }"

partial_function (option) kalloc_loop :: "ptr \<Rightarrow> usize \<Rightarrow> ptr \<Rightarrow> ptr \<Rightarrow> mm \<Rightarrow> (ptr \<times> mm) option" where
  "kalloc_loop ms n prev i s = do {
     size \<leftarrow> c_size i s;
     if size \<ge> n then kalloc_take ms n prev i s
     else do {
       next \<leftarrow> c_next i s;
       if next = NULL then grow_heap ms (max PAGE_REALLOC_COUNT n) s
       else kalloc_loop ms n i next s
     }
   }"

definition kalloc :: "ptr \<Rightarrow> usize \<Rightarrow> mm \<Rightarrow> (ptr \<times> mm) option" where
  "kalloc ms n s =
     (if n = 0 then Some (NULL, s)
      else do {
        let n = align_up n MEM_CHUNK_SIZE;
        i \<leftarrow> c_next ms s;
        kalloc_loop ms n ms i s
      })"

definition kfree_link :: "usize \<Rightarrow> usize \<Rightarrow> ptr \<Rightarrow> ptr \<Rightarrow> mm \<Rightarrow> mm option" where
  "kfree_link addr_ptr n prev i s = do {
     next \<leftarrow> c_next prev s;
     size \<leftarrow> c_size prev s;
     if next + size > addr_ptr \<or> addr_ptr + n > i then Some s
     else do {
       s \<leftarrow>
         (if addr_ptr + n = i then do {
            next \<leftarrow> c_next i s;
            s \<leftarrow> set_c_next addr_ptr next s;
            size \<leftarrow> c_size i s;
            set_c_size addr_ptr (size + n) s
          }
          else do {
            s \<leftarrow> set_c_next addr_ptr i s;
            set_c_size addr_ptr n s
          });
       size \<leftarrow> c_size prev s;
       if prev + size = addr_ptr then do {
         next \<leftarrow> c_next addr_ptr s;
         s \<leftarrow> set_c_next prev next s;
         add \<leftarrow> c_size addr_ptr s;
         size \<leftarrow> c_size prev s;
         set_c_size prev (size + add) s
       }
       else set_c_next prev addr_ptr s
     }
   }"

partial_function (option) kfree_loop :: "usize \<Rightarrow> usize \<Rightarrow> ptr \<Rightarrow> ptr \<Rightarrow> mm \<Rightarrow> mm option" where
  "kfree_loop addr_ptr n prev i s =
     (if i > addr_ptr then kfree_link addr_ptr n prev i s
      else do {
        next \<leftarrow> c_next i s;
        if next = NULL then do {
          s \<leftarrow> set_c_next i addr_ptr s;
          s \<leftarrow> set_c_next addr_ptr NULL s;
          set_c_size addr_ptr n s
        }
        else kfree_loop addr_ptr n i next s
      })"

definition kfree :: "ptr \<Rightarrow> ptr \<Rightarrow> usize \<Rightarrow> mm \<Rightarrow> mm option" where
  "kfree ms addr n s =
     (if n = 0 then Some s
      else do {
        let n = align_up n MEM_CHUNK_SIZE;
        i \<leftarrow> c_next ms s;
        kfree_loop (align_down addr MEM_CHUNK_SIZE) n ms i s
      })"

definition kmem_resize_move :: "ptr \<Rightarrow> ptr \<Rightarrow> usize \<Rightarrow> usize \<Rightarrow> mm \<Rightarrow> (ptr \<times> mm) option" where
  "kmem_resize_move ms addr orig n s = do {
     (out, s) \<leftarrow> kalloc ms n s;
     if out = NULL then Some (NULL, s)
     else do {
       let s = upd_bytes (\<lambda>m. snd (memcpy out addr orig m)) s;
       s \<leftarrow> kfree ms addr orig s;
       Some (out, s)
     }
   }"

text \<open>After the expansion in place the loop goes on.\<close>

partial_function (option) krealloc_loop ::
  "ptr \<Rightarrow> ptr \<Rightarrow> usize \<Rightarrow> usize \<Rightarrow> ptr \<Rightarrow> ptr \<Rightarrow> mm \<Rightarrow> (ptr \<times> mm) option" where
  "krealloc_loop ms addr orig n prev i s =
     (let addr_ptr = align_down addr MEM_CHUNK_SIZE; diff = n - orig
      in do {
        size \<leftarrow> (if i > addr_ptr then c_size i s else Some 0);
        if i > addr_ptr \<and> \<not> (size \<ge> diff \<and> i = addr_ptr + orig) then kmem_resize_move ms addr orig n s
        else do {
          s \<leftarrow> (if i > addr_ptr then do {
                 s \<leftarrow> set_c_size i (size - diff) s;
                 let new_addr = i + diff;
                 let s = upd_bytes (\<lambda>m. snd (memcpy new_addr i MEM_CHUNK_SIZE m)) s;
                 set_c_next prev new_addr s
               } else Some s);
          next \<leftarrow> c_next i s;
          if next = NULL then kmem_resize_move ms addr orig n s
          else krealloc_loop ms addr orig n i next s
        }
      })"

definition krealloc :: "ptr \<Rightarrow> ptr \<Rightarrow> usize \<Rightarrow> usize \<Rightarrow> mm \<Rightarrow> (ptr \<times> mm) option" where
  "krealloc ms addr orig n s =
     (let orig = max (align_up orig MEM_CHUNK_SIZE) MEM_CHUNK_SIZE;
          n = max (align_up n MEM_CHUNK_SIZE) MEM_CHUNK_SIZE
      in if orig = n then Some (addr, s)
         else if orig > n then do {
           s \<leftarrow> kfree ms (addr + n) (orig - n) s;
           Some (if n = 0 then NULL else addr, s)
         }
         else do {
           i \<leftarrow> c_next ms s;
           krealloc_loop ms addr orig n ms i s
         })"

text \<open>The operators of \<^verbatim>\<open>src/cxx.cpp\<close>. The language calls \<^verbatim>\<open>delete\<close> only for a pointer that is not \<open>NULL\<close>.\<close>

definition op_new :: "ptr \<Rightarrow> usize \<Rightarrow> mm \<Rightarrow> (ptr \<times> mm) option" where "op_new ms n = kalloc ms n"
definition op_new_array :: "ptr \<Rightarrow> usize \<Rightarrow> mm \<Rightarrow> (ptr \<times> mm) option" where "op_new_array ms n = kalloc ms n"
definition op_delete :: "ptr \<Rightarrow> ptr \<Rightarrow> usize \<Rightarrow> mm \<Rightarrow> mm option" where "op_delete ms p n s = (if p = NULL then Some s else kfree ms p n s)"
definition op_delete_array :: "ptr \<Rightarrow> ptr \<Rightarrow> usize \<Rightarrow> mm \<Rightarrow> mm option" where
  "op_delete_array ms p n s = (if p = NULL then Some s else kfree ms p n s)"

section \<open>The free list\<close>

lemma pm_bytes_upd [simp]: "pm_bytes (mm_pm (upd_bytes f s)) = f (pm_bytes (mm_pm s))"
  by (simp add: upd_bytes_def)

lemma upd_bytes_twice [simp]: "upd_bytes f (upd_bytes g s) = upd_bytes (\<lambda>m. f (g m)) s"
  by (simp add: upd_bytes_def)

text \<open>The memory manager does not look at the bytes.\<close>

lemma node_ok_bytes [simp]: "node_ok (pm\<lparr>pm_bytes := b\<rparr>) pa A = node_ok pm pa A"
  by (simp add: node_ok_def pa_rep_def blocks_ok_def)

lemma mm_ok_bytes [simp]: "mm_ok (upd_bytes f s) A = mm_ok s A"
  by (simp add: mm_ok_def upd_bytes_def)

type_synonym chunk = "ptr \<times> usize"

fun chunks_at :: "bytes \<Rightarrow> ptr \<Rightarrow> chunk list \<Rightarrow> ptr \<Rightarrow> bool" where
  "chunks_at m a [] e \<longleftrightarrow> a = e"
| "chunks_at m a ((b, sz) # xs) e \<longleftrightarrow> a = b \<and> rd64 m (b + 8) = sz \<and> chunks_at m (rd64 m b) xs e"

definition away :: "chunk \<Rightarrow> chunk \<Rightarrow> bool" where
  "away c d \<longleftrightarrow> unat (fst c) + max 16 (unat (snd c)) \<le> unat (fst d) \<or> unat (fst d) + max 16 (unat (snd d)) \<le> unat (fst c)"

definition chunk_ok :: "chunk \<Rightarrow> bool" where
  "chunk_ok c \<longleftrightarrow> 16 \<le> unat (fst c) \<and> unat (fst c) + max 16 (unat (snd c)) \<le> 2 ^ 64"

definition heap_ok :: "ptr \<Rightarrow> bytes \<Rightarrow> chunk list \<Rightarrow> bool" where
  "heap_ok ms m xs \<longleftrightarrow> chunks_at m ms ((ms, 0) # xs) NULL \<and> sorted_wrt away ((ms, 0) # xs) \<and>
     (\<forall>c \<in> set ((ms, 0) # xs). chunk_ok c) \<and> (\<forall>c \<in> set xs. 16 dvd unat (fst c) \<and> 16 dvd unat (snd c) \<and> snd c \<noteq> 0)"

fun first_fit :: "usize \<Rightarrow> chunk list \<Rightarrow> (ptr \<times> chunk list) option" where
  "first_fit n [] = None"
| "first_fit n ((a, m) # xs) =
     (if n \<le> m then Some (a, if m = n then xs else (a + n, m - n) # xs)
      else map_option (\<lambda>(z, ys). (z, (a, m) # ys)) (first_fit n xs))"

lemma chunks_at_append: "chunks_at m a (xs @ ys) e \<longleftrightarrow> (\<exists>b. chunks_at m a xs b \<and> chunks_at m b ys e)"
  by (induction m a xs e rule: chunks_at.induct) auto

lemma chunks_at_cong:
  "chunks_at m a xs e \<Longrightarrow> (\<And>c. c \<in> set xs \<Longrightarrow> rd64 m' (fst c) = rd64 m (fst c) \<and> rd64 m' (fst c + 8) = rd64 m (fst c + 8)) \<Longrightarrow>
   chunks_at m' a xs e"
proof (induction m a xs e rule: chunks_at.induct)
  case (2 m a b sz xs e)
  have "rd64 m' b = rd64 m b \<and> rd64 m' (b + 8) = rd64 m (b + 8)" using "2.prems"(2) [of "(b, sz)"] by simp
  with 2 show ?case by simp
qed simp

text \<open>The bytes of a chunk, and of its header.\<close>

definition body :: "chunk \<Rightarrow> ptr set" where "body c = span (fst c) (max 16 (unat (snd c)))"

lemma body_iff: "chunk_ok c \<Longrightarrow> a \<in> body c \<longleftrightarrow> unat (fst c) \<le> unat a \<and> unat a < unat (fst c) + max 16 (unat (snd c))"
  by (simp add: body_def in_span_iff chunk_ok_def)

lemma away_disjoint: "chunk_ok c \<Longrightarrow> chunk_ok d \<Longrightarrow> away c d \<Longrightarrow> body c \<inter> body d = {}"
  unfolding body_def by (rule span_disjoint) (auto simp: away_def chunk_ok_def)

lemma header:
  assumes "chunk_ok c"
  shows "unat (fst c + 8) = unat (fst c) + 8" "span (fst c) 8 \<subseteq> body c" "span (fst c + 8) 8 \<subseteq> body c"
    "span (fst c) 8 \<inter> span (fst c + 8) 8 = {}" "\<not> fst c < 16" "\<not> fst c + 8 < 16"
proof -
  have b: "16 \<le> unat (fst c)" "unat (fst c) + 16 \<le> 2 ^ 64" using assms by (auto simp: chunk_ok_def)
  show u: "unat (fst c + 8) = unat (fst c) + 8" using b by (subst unat_add_noov) simp_all
  show "span (fst c) 8 \<subseteq> body c" "span (fst c + 8) 8 \<subseteq> body c"
    using b u by (auto simp: body_iff [OF assms] in_span_iff)
  show "span (fst c) 8 \<inter> span (fst c + 8) 8 = {}" by (rule span_disjoint) (use b u in simp_all)
  show "\<not> fst c < 16" "\<not> fst c + 8 < 16" using b u by (simp_all add: word_less_nat_alt)
qed

lemma word_off_body:
  assumes "chunk_ok c" "\<And>b. b \<in> body c \<Longrightarrow> m' b = m b"
  shows "rd64 m' (fst c) = rd64 m (fst c)" "rd64 m' (fst c + 8) = rd64 m (fst c + 8)"
  using header(2,3) [OF assms(1)] assms(2) by (auto intro!: rd64_cong)

text \<open>
  The step all changes of the list are made of: the chunk \<open>p\<close> gets a new successor, and
  everything after it may change.
\<close>

lemma relink:
  assumes c: "chunks_at m a (ps @ [p]) e" and ok: "\<And>c. c \<in> set (ps @ [p]) \<Longrightarrow> chunk_ok c"
    and same: "\<And>c b. c \<in> set ps \<Longrightarrow> b \<in> body c \<Longrightarrow> m' b = m b"
    and w: "rd64 m' (fst p) = w" "rd64 m' (fst p + 8) = rd64 m (fst p + 8)"
  shows "chunks_at m' a (ps @ [p]) w"
proof -
  from c obtain b where 1: "chunks_at m a ps b" "chunks_at m b [p] e" by (auto simp: chunks_at_append)
  have "chunks_at m' a ps b" using 1(1)
  proof (rule chunks_at_cong)
    fix c assume "c \<in> set ps"
    with word_off_body [of c m' m] ok same show "rd64 m' (fst c) = rd64 m (fst c) \<and> rd64 m' (fst c + 8) = rd64 m (fst c + 8)"
      by simp
  qed
  moreover have "chunks_at m' b [p] w" using 1(2) w by (cases p) auto
  ultimately show ?thesis by (auto simp: chunks_at_append)
qed

lemma get_word_eq [simp]: "\<not> a < 16 \<Longrightarrow> get_word a s = Some (rd64 (pm_bytes (mm_pm s)) a)"
  "\<not> a < 16 \<Longrightarrow> set_word a v s = Some (upd_bytes (wr64 a v) s)"
  by (simp_all add: get_word_def set_word_def)

lemma chunk_words:
  assumes "chunk_ok c"
  shows "c_next (fst c) s = Some (rd64 (pm_bytes (mm_pm s)) (fst c))" "c_size (fst c) s = Some (rd64 (pm_bytes (mm_pm s)) (fst c + 8))"
    "set_c_next (fst c) v s = Some (upd_bytes (wr64 (fst c) v) s)" "set_c_size (fst c) v s = Some (upd_bytes (wr64 (fst c + 8) v) s)"
  using header(5,6) [OF assms] by (simp_all add: c_next_def c_size_def set_c_next_def set_c_size_def)

lemma scan_step:
  assumes "chunks_at m a (c # xs) NULL" "\<And>d. d \<in> set (c # xs) \<Longrightarrow> chunk_ok d"
  shows "a = fst c" "rd64 m (fst c + 8) = snd c" "chunks_at m (rd64 m (fst c)) xs NULL"
    "rd64 m (fst c) = (case xs of [] \<Rightarrow> NULL | d # _ \<Rightarrow> fst d)" "rd64 m (fst c) = NULL \<longleftrightarrow> xs = []"
proof -
  obtain b sz where c: "c = (b, sz)" by force
  then show 1: "a = fst c" "rd64 m (fst c + 8) = snd c" and 3: "chunks_at m (rd64 m (fst c)) xs NULL" using assms(1) by simp_all
  show 4: "rd64 m (fst c) = (case xs of [] \<Rightarrow> NULL | d # _ \<Rightarrow> fst d)" using 3 by (cases xs) auto
  have "fst d \<noteq> NULL" if "d \<in> set xs" for d using assms(2) [of d] that by (auto simp: chunk_ok_def)
  with 4 show "rd64 m (fst c) = NULL \<longleftrightarrow> xs = []" by (auto split: list.splits)
qed

lemma kalloc_scan:
  assumes "chunks_at (pm_bytes (mm_pm s)) a (us @ c # vs) NULL" "\<And>d. d \<in> set (us @ c # vs) \<Longrightarrow> chunk_ok d"
    "\<And>d. d \<in> set us \<Longrightarrow> snd d < n" "n \<le> snd c"
  shows "kalloc_loop ms n prev a s = kalloc_take ms n (last (prev # map fst us)) (fst c) s"
  using assms
proof (induction us arbitrary: prev a)
  case Nil
  note st = scan_step [of "pm_bytes (mm_pm s)" a c vs, OF Nil(1) [simplified] Nil(2) [simplified]]
  have "chunk_ok c" using Nil(2) by simp
  then show ?case using Nil(4) st(1,2) chunk_words(2) by (subst kalloc_loop.simps) simp
next
  case (Cons u us)
  let ?m = "pm_bytes (mm_pm s)"
  have ok: "chunk_ok d" if "d \<in> set (u # us @ c # vs)" for d using Cons.prems(2) that by simp
  have ch: "chunks_at ?m a (u # us @ c # vs) NULL" using Cons.prems(1) by simp
  note st = scan_step [OF ch ok]
  have "chunk_ok u" using ok by simp
  moreover have "\<not> n \<le> snd u" using Cons.prems(3) [of u] by simp
  moreover have "rd64 ?m (fst u) \<noteq> NULL" using st(5) by simp
  ultimately have "kalloc_loop ms n prev a s = kalloc_loop ms n (fst u) (rd64 ?m (fst u)) s"
    using st(1,2) chunk_words(1,2) by (subst kalloc_loop.simps) simp
  also have "\<dots> = kalloc_take ms n (last (fst u # map fst us)) (fst c) s"
    by (rule Cons.IH [OF st(3)]) (use Cons.prems ok in auto)
  finally show ?case by simp
qed

lemma kalloc_scan_none:
  assumes "chunks_at (pm_bytes (mm_pm s)) a us NULL" "\<And>d. d \<in> set us \<Longrightarrow> chunk_ok d"
    "\<And>d. d \<in> set us \<Longrightarrow> snd d < n" "us \<noteq> []"
  shows "kalloc_loop ms n prev a s = grow_heap ms (max PAGE_REALLOC_COUNT n) s"
  using assms
proof (induction us arbitrary: prev a)
  case (Cons u us)
  let ?m = "pm_bytes (mm_pm s)"
  note st = scan_step [OF Cons.prems(1,2)]
  have "chunk_ok u" "\<not> n \<le> snd u" using Cons.prems(2,3) [of u] by simp_all
  then have e: "kalloc_loop ms n prev a s = (if rd64 ?m (fst u) = NULL then grow_heap ms (max PAGE_REALLOC_COUNT n) s
      else kalloc_loop ms n (fst u) (rd64 ?m (fst u)) s)"
    using st(1,2) chunk_words(1,2) by (subst kalloc_loop.simps) simp
  show ?case
  proof (cases "us = []")
    case False
    have "kalloc_loop ms n (fst u) (rd64 ?m (fst u)) s = grow_heap ms (max PAGE_REALLOC_COUNT n) s"
      by (rule Cons.IH [OF st(3)]) (use Cons.prems False in auto)
    with e show ?thesis by simp
  qed (use e st(5) in simp)
qed simp

lemma heap_okD:
  assumes "heap_ok ms m (us @ c # vs)"
  shows "chunks_at m ms (((ms, 0) # us) @ c # vs) NULL" "\<And>d. d \<in> set ((ms, 0) # us @ c # vs) \<Longrightarrow> chunk_ok d"
    "\<And>d. d \<in> set ((ms, 0) # us) \<Longrightarrow> away d c" "\<And>d. d \<in> set vs \<Longrightarrow> away c d"
    "\<And>d e. d \<in> set ((ms, 0) # us) \<Longrightarrow> e \<in> set vs \<Longrightarrow> away d e"
    "\<And>d. d \<in> set (us @ c # vs) \<Longrightarrow> 16 dvd unat (fst d) \<and> 16 dvd unat (snd d) \<and> snd d \<noteq> 0"
  using assms by (auto simp: heap_ok_def sorted_wrt_append)

text \<open>A chunk \<open>c\<close> of the list is replaced by chunks \<open>ds\<close> inside of it.\<close>

lemma heap_relink:
  assumes h: "heap_ok ms m (us @ c # vs)" and p: "(ms, 0) # us = ps @ [p]"
    and out: "\<And>b. b \<notin> span (fst p) 8 \<Longrightarrow> b \<notin> body c \<Longrightarrow> m' b = m b"
    and ds: "chunks_at m' (rd64 m' (fst p)) ds (rd64 m (fst c))"
    and dok: "\<And>d. d \<in> set ds \<Longrightarrow> chunk_ok d \<and> 16 dvd unat (fst d) \<and> 16 dvd unat (snd d) \<and> snd d \<noteq> 0 \<and>
      unat (fst c) \<le> unat (fst d) \<and> unat (fst d) + max 16 (unat (snd d)) \<le> unat (fst c) + max 16 (unat (snd c))"
    and sd: "sorted_wrt away ds"
  shows "heap_ok ms m' (us @ ds @ vs)"
proof -
  note H = heap_okD [OF h]
  have inp: "p \<in> set ((ms, 0) # us)" "set ps \<subseteq> set ((ms, 0) # us)" unfolding p by auto
  have okp: "chunk_ok p" and okc: "chunk_ok c" using H(2) [of p] H(2) [of c] inp(1) by auto
  have S: "sorted_wrt away (ps @ [p] @ c # vs)" using h p by (simp add: heap_ok_def flip: append_Cons append_assoc)
  have far: "m' b = m b" if "d \<in> set ps \<or> d \<in> set vs" "b \<in> body d" for d b
  proof (rule out)
    have okd: "chunk_ok d" using that(1) inp(2) H(2) [of d] by auto
    have "away d p \<or> away p d" "away d c \<or> away c d" using that(1) S by (auto simp: sorted_wrt_append)
    then have "body d \<inter> body p = {}" "body d \<inter> body c = {}"
      using away_disjoint [OF okd okp] away_disjoint [OF okp okd] away_disjoint [OF okd okc] away_disjoint [OF okc okd] by blast+
    then show "b \<notin> span (fst p) 8" "b \<notin> body c" using that(2) header(2) [OF okp] by blast+
  qed
  have "away p c" using H(3) inp(1) by blast
  then have bd: "body p \<inter> body c = {}" using away_disjoint okp okc by blast
  have psz: "rd64 m' (fst p + 8) = rd64 m (fst p + 8)"
    by (rule rd64_cong, rule out) (use header(3,4) [OF okp] bd in blast)+
  obtain e where e: "chunks_at m ms (ps @ [p]) e" "chunks_at m e (c # vs) NULL"
    using H(1) unfolding p by (auto simp: chunks_at_append simp del: append_assoc)
  have "chunks_at m' ms (ps @ [p]) (rd64 m' (fst p))"
  proof (rule relink [OF e(1)])
    fix d b assume "d \<in> set ps" "b \<in> body d"
    then show "m' b = m b" using far by blast
  qed (use inp H(2) psz in auto)
  moreover have "chunks_at m' (rd64 m (fst c)) vs NULL"
  proof (rule chunks_at_cong)
    show "chunks_at m (rd64 m (fst c)) vs NULL" using e(2) by (cases c) auto
    fix d assume d: "d \<in> set vs"
    have "chunk_ok d" using d H(2) [of d] by simp
    from word_off_body [OF this] far d show "rd64 m' (fst d) = rd64 m (fst d) \<and> rd64 m' (fst d + 8) = rd64 m (fst d + 8)" by blast
  qed
  then have "chunks_at m' (rd64 m' (fst p)) (ds @ vs) NULL" using ds chunks_at_append by blast
  ultimately have "chunks_at m' ms ((ps @ [p]) @ ds @ vs) NULL" using chunks_at_append by blast
  then have "chunks_at m' ms (((ms, 0) # us) @ ds @ vs) NULL" unfolding p .
  then have "chunks_at m' ms ((ms, 0) # us @ ds @ vs) NULL" by (simp only: append_Cons)
  moreover have "sorted_wrt away ((ms, 0) # us @ ds @ vs)"
  proof -
    have in1: "away x d" if "d \<in> set ds" "away x c" for x d using dok [OF that(1)] that(2) by (auto simp: away_def)
    have in2: "away d x" if "d \<in> set ds" "away c x" for x d using dok [OF that(1)] that(2) by (auto simp: away_def)
    have "sorted_wrt away (((ms, 0) # us) @ ds @ vs)" unfolding sorted_wrt_append
      using h sd in1 in2 H(3-5) by (auto simp: heap_ok_def sorted_wrt_append)
    then show ?thesis by simp
  qed
  ultimately show ?thesis using H(2,6) dok unfolding heap_ok_def by auto
qed

lemma upd_bytes_const: "upd_bytes f s = upd_bytes (\<lambda>_. f (pm_bytes (mm_pm s))) s"
  by (simp add: upd_bytes_def)

text \<open>Taking all of a chunk, and taking its front.\<close>

lemma take_exact:
  assumes okp: "chunk_ok p" and okc: "chunk_ok (z, n)" and bd: "body p \<inter> body (z, n) = {}"
    and m: "m = pm_bytes (mm_pm s)" "rd64 m (z + 8) = n" and other: "\<not> (fst p = ms \<and> rd64 m z = NULL)" and n: "16 \<le> unat n"
  shows "\<exists>m'. kalloc_take ms n (fst p) z s = Some (z, upd_bytes (\<lambda>_. m') s) \<and> rd64 m' (fst p) = rd64 m z \<and>
    (\<forall>b \<in> span z (unat n). m' b = 0) \<and> (\<forall>b. b \<notin> span (fst p) 8 \<longrightarrow> b \<notin> body (z, n) \<longrightarrow> m' b = m b)"
proof -
  note w = chunk_words [OF okc, simplified] and wp = chunk_words [OF okp] and hc = header [OF okc, simplified] and hp = header [OF okp]
  let ?m' = "memset z n 0 (wr64 (fst p) (rd64 m z) (wr64 (z + 8) 0 m))"
  have z: "rd64 (wr64 (z + 8) 0 m) z = rd64 m z" using hc(4) by (rule rd64_wr64_other)
  have "kalloc_take ms n (fst p) z s = Some (z, upd_bytes (\<lambda>_. ?m') s)"
    using other by (auto simp: kalloc_take_def w wp z m(2) simp flip: m(1)) (simp_all add: m(1) upd_bytes_def Let_def)
  moreover have bz: "span z (unat n) = body (z, n)" using n by (simp add: body_def)
  then have "rd64 ?m' (fst p) = rd64 (wr64 (fst p) (rd64 m z) (wr64 (z + 8) 0 m)) (fst p)"
    using bd hp(2) by (intro rd64_cong) (auto simp: memset_eq)
  then have "rd64 ?m' (fst p) = rd64 m z" by simp
  moreover have "?m' b = 0" if "b \<in> span z (unat n)" for b using that by (simp add: memset_eq)
  moreover have "?m' b = m b" if "b \<notin> span (fst p) 8" "b \<notin> body (z, n)" for b
  proof -
    have "b \<notin> span (z + 8) 8" using that(2) hc(3) by blast
    with that show ?thesis by (simp add: memset_eq bz wr64_other)
  qed
  ultimately show ?thesis by blast
qed

lemma take_split:
  assumes okp: "chunk_ok p" and okc: "chunk_ok (z, sz)" and bd: "body p \<inter> body (z, sz) = {}"
    and m: "m = pm_bytes (mm_pm s)" "rd64 m (z + 8) = sz" and n: "16 \<le> unat n" "n < sz" "unat n + 16 \<le> unat sz"
  shows "\<exists>m'. kalloc_take ms n (fst p) z s = Some (z, upd_bytes (\<lambda>_. m') s) \<and> rd64 m' (fst p) = z + n \<and>
    rd64 m' (z + n) = rd64 m z \<and> rd64 m' (z + n + 8) = sz - n \<and>
    (\<forall>b \<in> span z (unat n). m' b = 0) \<and> (\<forall>b. b \<notin> span (fst p) 8 \<longrightarrow> b \<notin> body (z, sz) \<longrightarrow> m' b = m b)"
proof -
  note w = chunk_words [OF okc, simplified] and wp = chunk_words [OF okp] and hc = header [OF okc, simplified] and hp = header [OF okp]
  let ?m1 = "wr64 (z + 8) (sz - n) m"
  let ?m2 = "snd (memcpy (z + n) z MEM_CHUNK_SIZE ?m1)"
  let ?m3 = "wr64 (fst p) (z + n) ?m2"
  let ?m' = "memset z n 0 ?m3"
  have zb: "unat z + unat sz \<le> 2 ^ 64" using okc by (simp add: chunk_ok_def max_def split: if_splits)
  have zn: "unat (z + n) = unat z + unat n" using zb n(3) by (subst unat_add_noov) simp_all
  have zn8: "unat (z + n + 8) = unat z + unat n + 8" using zb n(3) zn by (subst unat_add_noov) simp_all
  have m1: "rd64 ?m1 z = rd64 m z" using hc(4) by (rule rd64_wr64_other)
  have m2: "?m2 = (\<lambda>a. if a \<in> span (z + n) 16 then ?m1 (z + (a - (z + n))) else ?m1 a)"
    using memcpy_forward [of z MEM_CHUNK_SIZE "z + n" ?m1] zb zn n(1,3) by (simp add: MEM_CHUNK_SIZE_def)
  have inb: "span (z + n) 16 \<subseteq> body (z, sz)" "span z (unat n) \<subseteq> body (z, sz)" "span (z + n) 8 \<subseteq> span (z + n) 16"
    "span (z + n + 8) 8 \<subseteq> span (z + n) 16"
    using zb zn zn8 n(3) by (auto simp: body_iff [OF okc] in_span_iff)
  have apart: "span (z + n) 16 \<inter> span z (unat n) = {}" using zb zn n(3) by (intro span_disjoint) simp_all
  have ne: "sz - n \<noteq> 0" using n(2) by auto
  have "kalloc_take ms n (fst p) z s = Some (z, upd_bytes (\<lambda>_. ?m') s)"
    using ne by (auto simp: kalloc_take_def w wp m(2) simp flip: m(1)) (simp_all add: m(1) upd_bytes_def Let_def)
  moreover have "rd64 ?m' (fst p) = rd64 ?m3 (fst p)"
    using bd hp(2) inb(2) by (intro rd64_cong) (auto simp: memset_eq)
  then have "rd64 ?m' (fst p) = z + n" by simp
  moreover have hd: "?m' b = ?m2 b" if "b \<in> span (z + n) 16" for b
  proof -
    have "b \<notin> span z (unat n)" "b \<notin> span (fst p) 8" using that apart inb(1) bd hp(2) by blast+
    then show ?thesis by (simp add: memset_eq wr64_other)
  qed
  have "rd64 ?m' (z + n) = rd64 ?m2 (z + n)" by (rule rd64_cong, rule hd) (use inb(3) in blast)
  moreover have in16: "i < 16 \<Longrightarrow> z + n + of_nat i \<in> span (z + n) 16" for i by (auto simp: span_def)
  have "rd64 ?m2 (z + n) = rd64 ?m1 z"
    by (rule rd64_shift) (use in16 in \<open>simp add: m2\<close>)
  then have "rd64 ?m2 (z + n) = rd64 m z" using m1 by simp
  moreover have "rd64 ?m' (z + n + 8) = rd64 ?m2 (z + n + 8)" by (rule rd64_cong, rule hd) (use inb(4) in blast)
  moreover have "rd64 ?m2 (z + n + 8) = rd64 ?m1 (z + 8)"
  proof (rule rd64_shift)
    fix i :: nat assume "i < 8"
    then have "z + n + of_nat (i + 8) \<in> span (z + n) 16" by (intro in16) simp
    moreover have "z + n + 8 + of_nat i = z + n + of_nat (i + 8)" by simp
    moreover have "z + (z + n + of_nat (i + 8) - (z + n)) = z + 8 + of_nat i" by simp
    ultimately show "?m2 (z + n + 8 + of_nat i) = ?m1 (z + 8 + of_nat i)" unfolding m2 by presburger
  qed
  then have "rd64 ?m2 (z + n + 8) = sz - n" by simp
  moreover have "?m' b = 0" if "b \<in> span z (unat n)" for b using that by (simp add: memset_eq)
  moreover have "?m' b = m b" if "b \<notin> span (fst p) 8" "b \<notin> body (z, sz)" for b
  proof -
    have "b \<notin> span z (unat n)" "b \<notin> span (z + n) 16" "b \<notin> span (z + 8) 8" using that(2) inb(1,2) hc(3) by blast+
    with that(1) show ?thesis by (simp add: memset_eq wr64_other m2)
  qed
  ultimately show ?thesis by (intro exI [of _ ?m']) simp
qed

lemma first_fit_Some:
  "first_fit n xs = Some (z, ys) \<Longrightarrow> \<exists>us sz vs. xs = us @ (z, sz) # vs \<and> (\<forall>u \<in> set us. snd u < n) \<and> n \<le> sz \<and>
    ys = us @ (if sz = n then [] else [(z + n, sz - n)]) @ vs"
proof (induction n xs arbitrary: ys rule: first_fit.induct)
  case (2 n a m xs)
  show ?case
  proof (cases "n \<le> m")
    case True
    with 2(2) show ?thesis by (intro exI [of _ "[]"]) (auto split: if_splits)
  next
    case False
    with 2(2) obtain ys' where y: "first_fit n xs = Some (z, ys')" "ys = (a, m) # ys'" by auto
    from 2(1) [OF False y(1)] obtain us sz vs where
      "xs = us @ (z, sz) # vs" "\<forall>u \<in> set us. snd u < n" "n \<le> sz" "ys' = us @ (if sz = n then [] else [(z + n, sz - n)]) @ vs" by blast
    with y(2) False show ?thesis by (intro exI [of _ "(a, m) # us"] exI [of _ sz] exI [of _ vs]) auto
  qed
qed simp

lemma first_fit_None: "first_fit n xs = None \<Longrightarrow> u \<in> set xs \<Longrightarrow> snd u < n"
  by (induction n xs rule: first_fit.induct) (auto split: if_splits)

lemma kalloc_list:
  assumes h: "heap_ok ms m xs" and m: "m = pm_bytes (mm_pm s)" and f: "first_fit n xs = Some (z, ys)" "ys \<noteq> []"
    and n: "n \<noteq> 0" "16 dvd unat n"
  shows "\<exists>m'. kalloc_loop ms n ms (rd64 m ms) s = Some (z, upd_bytes (\<lambda>_. m') s) \<and> heap_ok ms m' ys \<and>
    (\<forall>b \<in> span z (unat n). m' b = 0) \<and> (\<forall>b. (\<forall>c \<in> set ((ms, 0) # xs). b \<notin> body c) \<longrightarrow> m' b = m b)"
proof -
  from first_fit_Some [OF f(1)] obtain us sz vs where
    x: "xs = us @ (z, sz) # vs" "\<forall>u \<in> set us. snd u < n" "n \<le> sz" "ys = us @ (if sz = n then [] else [(z + n, sz - n)]) @ vs" by blast
  obtain ps p where p: "(ms, 0) # us = ps @ [p]" by (metis append_butlast_last_id list.distinct(1))
  have fp: "fst p = last (ms # map fst us)" using arg_cong [OF p, of "\<lambda>l. last (map fst l)"] by simp
  note H = heap_okD [OF h [unfolded x(1)]]
  have okc: "chunk_ok (z, sz)" and okp: "chunk_ok p" using H(2) [of "(z, sz)"] H(2) [of p] arg_cong [OF p, of set] by auto
  have "p \<in> set ((ms, 0) # us)" unfolding p by simp
  then have bd: "body p \<inter> body (z, sz) = {}" and pin: "p \<in> set ((ms, 0) # xs)" using H(3) okp okc away_disjoint x(1) by auto
  have c0: "chunks_at m (rd64 m ms) (us @ (z, sz) # vs) NULL" using H(1) by simp
  have hsz: "rd64 m (z + 8) = sz" using c0 by (auto simp: chunks_at_append)
  have nx: "rd64 m z = (case vs of [] \<Rightarrow> NULL | d # _ \<Rightarrow> fst d)"
    using c0 by (cases vs) (auto simp: chunks_at_append)
  have n16: "16 \<le> unat n" using n by (auto dest: dvd_imp_le simp: unat_gt_0)
  have sc: "kalloc_loop ms n ms (rd64 m ms) s = kalloc_take ms n (fst p) z s"
    using kalloc_scan [OF c0 [unfolded m], of n ms ms] H(2) x(2,3) fp m by simp
  have frame: "m' b = m b"
    if "\<forall>b. b \<notin> span (fst p) 8 \<longrightarrow> b \<notin> body (z, sz) \<longrightarrow> m' b = m b" "\<forall>c \<in> set ((ms, 0) # xs). b \<notin> body c" for m' :: bytes and b
  proof -
    have "b \<notin> body p" "b \<notin> body (z, sz)" using that(2) pin x(1) by auto
    then show ?thesis using that(1) header(2) [OF okp] by blast
  qed
  show ?thesis
  proof (cases "sz = n")
    case True
    have other: "\<not> (fst p = ms \<and> rd64 m z = NULL)"
    proof
      assume a: "fst p = ms \<and> rd64 m z = NULL"
      have "fst d \<noteq> NULL" if "d \<in> set vs" for d using H(2) [of d] that by (auto simp: chunk_ok_def)
      then have "vs = []" using nx a by (cases vs) auto
      then have "us \<noteq> []" using f(2) x(4) True by auto
      then have "p \<in> set us" using p by (metis last_ConsR last_in_set last_snoc)
      then have "away (ms, 0) p" using h by (auto simp: heap_ok_def x(1))
      with a show False by (auto simp: away_def)
    qed
    from take_exact [OF okp okc [unfolded True] bd [unfolded True] m hsz [unfolded True] other n16] True obtain m' where
      1: "kalloc_take ms n (fst p) z s = Some (z, upd_bytes (\<lambda>_. m') s)" "rd64 m' (fst p) = rd64 m z"
        "\<forall>b \<in> span z (unat n). m' b = 0" "\<forall>b. b \<notin> span (fst p) 8 \<longrightarrow> b \<notin> body (z, sz) \<longrightarrow> m' b = m b" by auto
    have "heap_ok ms m' (us @ [] @ vs)"
      by (rule heap_relink [OF h [unfolded x(1)] p]) (use 1(2,4) in auto)
    then show ?thesis using 1(1,3) sc x(4) True frame [OF 1(4)] by (intro exI [of _ m']) simp
  next
    case False
    then have lt: "n < sz" using x(3) by simp
    have "16 dvd unat sz" "16 dvd unat z" using H(6) [of "(z, sz)"] by simp_all
    have sub: "unat (sz - n) = unat sz - unat n" using x(3) by (simp add: unat_sub word_le_nat_alt)
    have d: "16 dvd unat (sz - n)" unfolding sub using \<open>16 dvd unat sz\<close> n(2) by (rule dvd_diff_nat)
    have "unat n < unat sz" using lt by (simp add: word_less_nat_alt)
    then have r: "unat n + 16 \<le> unat sz" using dvd_imp_le [OF d] sub by simp
    from take_split [OF okp okc bd m hsz n16 lt r, of ms] obtain m' where
      1: "kalloc_take ms n (fst p) z s = Some (z, upd_bytes (\<lambda>_. m') s)" "rd64 m' (fst p) = z + n"
        "rd64 m' (z + n) = rd64 m z" "rd64 m' (z + n + 8) = sz - n"
        "\<forall>b \<in> span z (unat n). m' b = 0" "\<forall>b. b \<notin> span (fst p) 8 \<longrightarrow> b \<notin> body (z, sz) \<longrightarrow> m' b = m b" by blast
    have zb: "unat z + unat sz \<le> 2 ^ 64" "16 \<le> unat z" using okc r by (auto simp: chunk_ok_def)
    have zn: "unat (z + n) = unat z + unat n" using zb r by (subst unat_add_noov) simp_all
    have "heap_ok ms m' (us @ [(z + n, sz - n)] @ vs)"
    proof (rule heap_relink [OF h [unfolded x(1)] p])
      show "chunks_at m' (rd64 m' (fst p)) [(z + n, sz - n)] (rd64 m (fst (z, sz)))" using 1(2-4) by simp
      fix c assume "c \<in> set [(z + n, sz - n)]"
      then have c: "c = (z + n, sz - n)" by simp
      have "sz - n \<noteq> 0" using lt by auto
      then show "chunk_ok c \<and> 16 dvd unat (fst c) \<and> 16 dvd unat (snd c) \<and> snd c \<noteq> 0 \<and>
        unat (fst (z, sz)) \<le> unat (fst c) \<and> unat (fst c) + max 16 (unat (snd c)) \<le> unat (fst (z, sz)) + max 16 (unat (snd (z, sz)))"
        using zn zb r sub d \<open>16 dvd unat z\<close> n(2) n16 by (simp add: c chunk_ok_def)
    qed (use 1(6) in auto)
    then show ?thesis using 1(1,5) sc x(4) False frame [OF 1(6)] by (intro exI [of _ m']) simp
  qed
qed

definition round16 :: "usize \<Rightarrow> usize" where "round16 n = align_up n MEM_CHUNK_SIZE"

lemma unat_round16:
  assumes "unat n + 15 < 2 ^ 64"
  shows "unat (round16 n) = (unat n + 15) div 16 * 16" "16 dvd unat (round16 n)" "n \<noteq> 0 \<Longrightarrow> round16 n \<noteq> 0"
    "unat n \<le> unat (round16 n)"
proof -
  show 1: "unat (round16 n) = (unat n + 15) div 16 * 16"
    using unat_align_up [where a = n and k = 4] assms by (simp add: round16_def MEM_CHUNK_SIZE_def)
  then show "16 dvd unat (round16 n)" by simp
  show le: "unat n \<le> unat (round16 n)" unfolding 1 by simp
  show "n \<noteq> 0 \<Longrightarrow> round16 n \<noteq> 0" using le by (auto simp: word_unat_eq_iff)
qed

lemma kalloc_spec:
  assumes "heap_ok ms (pm_bytes (mm_pm s)) xs" and "first_fit (round16 n) xs = Some (z, ys)" and "ys \<noteq> []"
    and "n \<noteq> 0" and "unat n < 2 ^ 63"
  shows "\<exists>m'. kalloc ms n s = Some (z, upd_bytes (\<lambda>_. m') s) \<and> heap_ok ms m' ys \<and>
    (\<forall>b \<in> span z (unat (round16 n)). m' b = 0) \<and>
    (\<forall>b. (\<forall>c \<in> set ((ms, 0) # xs). b \<notin> body c) \<longrightarrow> m' b = pm_bytes (mm_pm s) b)"
proof -
  have n: "unat n + 15 < 2 ^ 64" using assms(5) by simp
  have "chunk_ok (ms, 0)" using assms(1) by (simp add: heap_ok_def)
  note w = chunk_words(1) [OF this, simplified]
  have "kalloc ms n s = kalloc_loop ms (round16 n) ms (rd64 (pm_bytes (mm_pm s)) ms) s"
    using assms(4) by (simp add: kalloc_def round16_def w)
  with kalloc_list [OF assms(1) refl assms(2,3) unat_round16(3) [OF n assms(4)] unat_round16(2) [OF n]]
  show ?thesis by simp
qed

lemma first_fit_bodies:
  assumes h: "heap_ok ms m xs" and f: "first_fit n xs = Some (z, ys)" and n: "16 dvd unat n"
  shows "\<Union> (body ` set ys) \<subseteq> \<Union> (body ` set xs)" "\<not> z < 16"
proof -
  from first_fit_Some [OF f] obtain us sz vs where
    x: "xs = us @ (z, sz) # vs" "n \<le> sz" "ys = us @ (if sz = n then [] else [(z + n, sz - n)]) @ vs" by blast
  have c: "chunk_ok (z, sz)" "16 dvd unat sz" using h x(1) by (auto simp: heap_ok_def)
  then show "\<not> z < 16" by (simp add: chunk_ok_def word_less_nat_alt)
  have "body (z + n, sz - n) \<subseteq> body (z, sz)" if ne: "sz \<noteq> n"
  proof -
    have le: "unat n \<le> unat sz" using x(2) by (simp add: word_le_nat_alt)
    have ss: "unat (sz - n) = unat sz - unat n" using x(2) by (simp add: unat_sub)
    have "unat sz \<noteq> unat n" using ne by simp
    then have "0 < unat (sz - n)" unfolding ss using le by linarith
    moreover have "16 dvd unat (sz - n)" unfolding ss using c(2) n by (rule dvd_diff_nat)
    ultimately have m: "16 \<le> unat (sz - n)" by (auto dest: dvd_imp_le)
    have "unat z + unat n < 2 ^ 64" using c(1) m unfolding ss chunk_ok_def fst_conv snd_conv by linarith
    then have zn: "unat (z + n) = unat z + unat n" by (subst unat_add_noov) simp_all
    have c2: "chunk_ok (z + n, sz - n)" using c(1) m ss zn le by (simp add: chunk_ok_def)
    show ?thesis using m ss zn le by (auto simp: body_iff [OF c(1)] body_iff [OF c2])
  qed
  then show "\<Union> (body ` set ys) \<subseteq> \<Union> (body ` set xs)" unfolding x(1,3) by (auto split: if_splits)
qed

text \<open>
  C11: \<open>kalloc\<close> is first fit. On a free list of disjoint chunks, of which one holds \<open>n\<close> bytes (and
  is not the whole list), the call returns the address of the first one that does, with \<open>n\<close>
  rounded up to 16 zero bytes; what is left of that chunk stays on the list in its place, and no
  byte outside the free chunks and \<open>mem_start\<close> changes.
\<close>
theorem kalloc_first_fit:
  assumes "heap_ok ms (pm_bytes (mm_pm s)) xs" and "first_fit (round16 n) xs = Some (z, ys)" and "ys \<noteq> []"
    and "n \<noteq> 0" and "unat n < 2 ^ 63"
  shows "\<exists>m'. kalloc ms n s = Some (z, upd_bytes (\<lambda>_. m') s) \<and> heap_ok ms m' ys \<and>
    (\<forall>b \<in> span z (unat (round16 n)). m' b = 0) \<and>
    (\<forall>b. (\<forall>c \<in> set ((ms, 0) # xs). b \<notin> body c) \<longrightarrow> m' b = pm_bytes (mm_pm s) b)"
  using assms by (rule kalloc_spec)

section \<open>Freeing\<close>

lemma kfree_scan:
  assumes "chunks_at (pm_bytes (mm_pm s)) a (us @ c # vs) NULL" "\<And>d. d \<in> set (us @ c # vs) \<Longrightarrow> chunk_ok d"
    "\<And>d. d \<in> set us \<Longrightarrow> \<not> fst d > q" "q < fst c"
  shows "kfree_loop q n prev a s = kfree_link q n (last (prev # map fst us)) (fst c) s"
  using assms
proof (induction us arbitrary: prev a)
  case Nil
  then show ?case by (subst kfree_loop.simps) (cases c, simp)
next
  case (Cons u us)
  let ?m = "pm_bytes (mm_pm s)"
  have ok: "chunk_ok d" if "d \<in> set (u # us @ c # vs)" for d using Cons.prems(2) that by simp
  have ch: "chunks_at ?m a (u # us @ c # vs) NULL" using Cons.prems(1) by simp
  note st = scan_step [OF ch ok]
  have "chunk_ok u" "\<not> fst u > q" using ok Cons.prems(3) by simp_all
  moreover have "rd64 ?m (fst u) \<noteq> NULL" using st(5) by simp
  ultimately have "kfree_loop q n prev a s = kfree_loop q n (fst u) (rd64 ?m (fst u)) s"
    using st(1) chunk_words(1) by (subst kfree_loop.simps) simp
  also have "\<dots> = kfree_link q n (last (fst u # map fst us)) (fst c) s"
    by (rule Cons.IH [OF st(3)]) (use Cons.prems ok in auto)
  finally show ?case by simp
qed

lemma kfree_scan_end:
  assumes "chunks_at (pm_bytes (mm_pm s)) a (us @ [u]) NULL" "\<And>d. d \<in> set (us @ [u]) \<Longrightarrow> chunk_ok d"
    "\<And>d. d \<in> set (us @ [u]) \<Longrightarrow> \<not> fst d > q"
  shows "kfree_loop q n prev a s = do {
      s \<leftarrow> set_c_next (fst u) q s;
      s \<leftarrow> set_c_next q NULL s;
      set_c_size q n s }"
  using assms
proof (induction us arbitrary: prev a)
  case Nil
  have ch: "chunks_at (pm_bytes (mm_pm s)) a [u] NULL" using Nil(1) by simp
  note st = scan_step [OF ch] 
  have "chunk_ok u" "\<not> fst u > q" using Nil(2,3) by simp_all
  then show ?case using st Nil(2) chunk_words(1) by (subst kfree_loop.simps) simp
next
  case (Cons v us)
  let ?m = "pm_bytes (mm_pm s)"
  have ok: "chunk_ok d" if "d \<in> set (v # us @ [u])" for d using Cons.prems(2) that by simp
  have ch: "chunks_at ?m a (v # us @ [u]) NULL" using Cons.prems(1) by simp
  note st = scan_step [OF ch ok]
  have "chunk_ok v" "\<not> fst v > q" using ok Cons.prems(3) by simp_all
  moreover have "rd64 ?m (fst v) \<noteq> NULL" using st(5) by simp
  ultimately have "kfree_loop q n prev a s = kfree_loop q n (fst v) (rd64 ?m (fst v)) s"
    using st(1) chunk_words(1) by (subst kfree_loop.simps) simp
  also have "\<dots> = do { s \<leftarrow> set_c_next (fst u) q s; s \<leftarrow> set_c_next q NULL s; set_c_size q n s }"
    by (rule Cons.IH [OF st(3)]) (use Cons.prems ok in auto)
  finally show ?case .
qed

text \<open>The check of \<open>kfree\<close> adds the size of the previous chunk to the address of the next one.\<close>

lemma kfree_link_idle:
  assumes "chunk_ok p" "rd64 (pm_bytes (mm_pm s)) (fst p) = i" "rd64 (pm_bytes (mm_pm s)) (fst p + 8) = sz"
    "q < i" "unat i + unat sz < 2 ^ 64"
  shows "kfree_link q n (fst p) i s = Some s"
proof -
  have "q < i + sz" using assms(4,5) by (simp add: word_less_nat_alt unat_add_noov)
  then show ?thesis using assms(2,3) chunk_words(1,2) [OF assms(1)] by (simp add: kfree_link_def)
qed

lemma kfree_append:
  assumes h: "heap_ok ms m (us @ [u])" and q: "chunk_ok q" "16 dvd unat (fst q)" "16 dvd unat (snd q)" "snd q \<noteq> 0"
    and far: "\<And>c. c \<in> set ((ms, 0) # us @ [u]) \<Longrightarrow> away c q"
  shows "heap_ok ms (wr64 (fst q + 8) (snd q) (wr64 (fst q) NULL (wr64 (fst u) (fst q) m))) (us @ [u, q])"
    (is "heap_ok ms ?m' _")
proof -
  have H: "chunks_at m ms (((ms, 0) # us) @ [u]) NULL" "\<And>d. d \<in> set ((ms, 0) # us @ [u]) \<Longrightarrow> chunk_ok d"
    "\<And>d. d \<in> set ((ms, 0) # us) \<Longrightarrow> away d u"
    using h by (auto simp: heap_ok_def sorted_wrt_append)
  note hq = header [OF q(1)]
  have bq: "body c \<inter> body q = {}" if "c \<in> set ((ms, 0) # us @ [u])" for c using far H(2) that q(1) away_disjoint by blast
  have u: "chunk_ok u" using H(2) by simp
  note hu = header [OF u]
  have same: "?m' b = m b" if "b \<notin> body q" "b \<notin> span (fst u) 8" for b
  proof -
    have "b \<notin> span (fst q) 8" "b \<notin> span (fst q + 8) 8" using that hq(2,3) by blast+
    with that(2) show ?thesis by (simp add: wr64_other)
  qed
  have uq: "body u \<inter> body q = {}" using bq by simp
  have "rd64 ?m' (fst u) = rd64 (wr64 (fst q) NULL (wr64 (fst u) (fst q) m)) (fst u)"
    by (rule rd64_wr64_other) (use uq hu(2) hq(3) in blast)
  also have "\<dots> = rd64 (wr64 (fst u) (fst q) m) (fst u)"
    by (rule rd64_wr64_other) (use uq hu(2) hq(2) in blast)
  finally have un: "rd64 ?m' (fst u) = fst q" by simp
  have us': "rd64 ?m' (fst u + 8) = rd64 m (fst u + 8)"
    by (rule rd64_cong, rule same) (use uq hu(3,4) in blast)+
  have "chunks_at ?m' ms (((ms, 0) # us) @ [u]) (fst q)"
  proof (rule relink [OF H(1)])
    fix c b assume c: "c \<in> set ((ms, 0) # us)" "b \<in> body c"
    have "chunk_ok c" using c(1) H(2) [of c] by auto
    then have "body c \<inter> body u = {}" using away_disjoint H(3) [OF c(1)] u by blast
    moreover have "body c \<inter> body q = {}" using bq [of c] c(1) by auto
    ultimately show "?m' b = m b" using c(2) hu(2) by (intro same) blast+
  qed (use H(2) un us' in auto)
  moreover have "chunks_at ?m' (fst q) [q] NULL"
  proof -
    have "rd64 ?m' (fst q) = rd64 (wr64 (fst q) NULL (wr64 (fst u) (fst q) m)) (fst q)"
      by (rule rd64_wr64_other) (rule hq(4))
    then show ?thesis by (cases q) simp
  qed
  ultimately have "chunks_at ?m' ms ((((ms, 0) # us) @ [u]) @ [q]) NULL" using chunks_at_append by blast
  then have "chunks_at ?m' ms ((ms, 0) # us @ [u, q]) NULL" by simp
  moreover have "sorted_wrt away ((ms, 0) # us @ [u, q])"
  proof -
    have "sorted_wrt away ((((ms, 0) # us) @ [u]) @ [q])" unfolding sorted_wrt_append
      using h far by (auto simp: heap_ok_def sorted_wrt_append)
    then show ?thesis by simp
  qed
  ultimately show ?thesis using h q unfolding heap_ok_def by auto
qed

lemma kfree_spec:
  assumes h: "heap_ok ms (pm_bytes (mm_pm s)) xs" "xs \<noteq> []"
    and nowrap: "\<And>c d. c \<in> set xs \<Longrightarrow> d \<in> set xs \<Longrightarrow> unat (fst c) + unat (snd d) < 2 ^ 64"
    and q: "chunk_ok (q, round16 n)" "16 dvd unat q" "n \<noteq> 0" "unat n < 2 ^ 63"
    and far: "\<And>c. c \<in> set ((ms, 0) # xs) \<Longrightarrow> away c (q, round16 n)"
  shows "\<exists>m'. kfree ms q n s = Some (upd_bytes (\<lambda>_. m') s) \<and>
    (if \<exists>c \<in> set xs. q < fst c then m' = pm_bytes (mm_pm s)
     else heap_ok ms m' (xs @ [(q, round16 n)]) \<and> (\<forall>b. (\<forall>c \<in> set ((ms, 0) # xs @ [(q, round16 n)]). b \<notin> body c) \<longrightarrow> m' b = pm_bytes (mm_pm s) b))"
proof -
  let ?m = "pm_bytes (mm_pm s)"
  have n: "unat n + 15 < 2 ^ 64" using q(4) by simp
  have "unat (align_down q (2 ^ 4)) = unat q div 2 ^ 4 * 2 ^ 4" by (rule unat_align_down)
  then have "unat (align_down q 16) = unat q" using q(2) by simp
  then have al: "align_down q 16 = q" by simp
  have ok: "\<And>d. d \<in> set ((ms, 0) # xs) \<Longrightarrow> chunk_ok d" using h(1) by (auto simp: heap_ok_def)
  have okm: "chunk_ok (ms, 0)" using ok by simp
  have c0: "chunks_at ?m (rd64 ?m ms) xs NULL" using h(1) by (simp add: heap_ok_def)
  have kf: "kfree ms q n s = kfree_loop q (round16 n) ms (rd64 ?m ms) s"
    using q(3) chunk_words(1) [OF okm, simplified] al by (simp add: kfree_def round16_def MEM_CHUNK_SIZE_def)
  show ?thesis
  proof (cases "\<exists>c \<in> set xs. q < fst c")
    case True
    then obtain us c vs where x: "xs = us @ c # vs" "q < fst c" "\<forall>d \<in> set us. \<not> q < fst d"
      using split_list_first_prop [of xs "\<lambda>c. q < fst c"] by blast
    obtain ps p where p: "(ms, 0) # us = ps @ [p]" by (metis append_butlast_last_id list.distinct(1))
    have fp: "fst p = last (ms # map fst us)" using arg_cong [OF p, of "\<lambda>l. last (map fst l)"] by simp
    have pin: "p \<in> set ((ms, 0) # us)" unfolding p by simp
    then have okp: "chunk_ok p" using ok [of p] x(1) by auto
    have "chunks_at ?m ms ((ps @ [p]) @ c # vs) NULL" using h(1) x(1) by (simp add: heap_ok_def flip: p)
    then have pw: "rd64 ?m (fst p) = fst c" "rd64 ?m (fst p + 8) = snd p"
      by (cases p, cases c, auto simp: chunks_at_append)+
    have "unat (fst c) + unat (snd p) < 2 ^ 64" using pin nowrap [of c p] x(1) unat_word_bound [of "fst c"] by auto
    from kfree_link_idle [OF okp pw x(2) this] have "kfree_link q (round16 n) (fst p) (fst c) s = Some s" .
    moreover have "kfree_loop q (round16 n) ms (rd64 ?m ms) s = kfree_link q (round16 n) (fst p) (fst c) s"
      unfolding fp by (rule kfree_scan [OF c0 [unfolded x(1)]]) (use ok x in auto)
    moreover have "upd_bytes (\<lambda>_. ?m) s = s" by (simp add: upd_bytes_def)
    ultimately show ?thesis unfolding if_P [OF True] using kf by (intro exI [of _ ?m]) simp
  next
    case False
    obtain us u where x: "xs = us @ [u]" using h(2) by (metis append_butlast_last_id)
    have oku: "chunk_ok u" using ok x by simp
    let ?m' = "wr64 (q + 8) (round16 n) (wr64 q NULL (wr64 (fst u) q ?m))"
    note r = unat_round16 [OF n]
    have "kfree_loop q (round16 n) ms (rd64 ?m ms) s = do {
        s \<leftarrow> set_c_next (fst u) q s; s \<leftarrow> set_c_next q NULL s; set_c_size q (round16 n) s }"
      by (rule kfree_scan_end [OF c0 [unfolded x]]) (use ok x False in auto)
    also have "\<dots> = Some (upd_bytes (\<lambda>_. ?m') s)"
      using chunk_words(3) [OF oku] chunk_words(3,4) [OF q(1), simplified] by (simp add: upd_bytes_def)
    finally have "kfree ms q n s = Some (upd_bytes (\<lambda>_. ?m') s)" using kf by simp
    moreover have "heap_ok ms ?m' (us @ [u, (q, round16 n)])"
      using kfree_append [OF h(1) [unfolded x] q(1)] q(2,3) r(2,3) far x by simp
    moreover have "?m' b = ?m b" if b: "\<forall>c \<in> set ((ms, 0) # xs @ [(q, round16 n)]). b \<notin> body c" for b
    proof -
      have "b \<notin> body u" "b \<notin> body (q, round16 n)" using b x by simp_all
      then have "b \<notin> span (fst u) 8" "b \<notin> span q 8" "b \<notin> span (q + 8) 8"
        using header(2) [OF oku] header(2,3) [OF q(1), simplified] by blast+
      then show ?thesis by (simp add: wr64_other)
    qed
    ultimately show ?thesis unfolding if_not_P [OF False] using x by (intro exI [of _ ?m']) simp
  qed
qed

text \<open>
  C12: \<open>kfree\<close>. A block that lies above every free chunk becomes the last chunk of the list. A
  block with a free chunk above it is never given back: the call returns without a change.
\<close>
theorem kfree_top_only:
  assumes "heap_ok ms (pm_bytes (mm_pm s)) xs" "xs \<noteq> []"
    and "\<And>c d. c \<in> set xs \<Longrightarrow> d \<in> set xs \<Longrightarrow> unat (fst c) + unat (snd d) < 2 ^ 64"
    and "chunk_ok (q, round16 n)" "16 dvd unat q" "n \<noteq> 0" "unat n < 2 ^ 63"
    and "\<And>c. c \<in> set ((ms, 0) # xs) \<Longrightarrow> away c (q, round16 n)"
  shows "\<exists>m'. kfree ms q n s = Some (upd_bytes (\<lambda>_. m') s) \<and>
    (if \<exists>c \<in> set xs. q < fst c then m' = pm_bytes (mm_pm s)
     else heap_ok ms m' (xs @ [(q, round16 n)]) \<and> (\<forall>b. (\<forall>c \<in> set ((ms, 0) # xs @ [(q, round16 n)]). b \<notin> body c) \<longrightarrow> m' b = pm_bytes (mm_pm s) b))"
  by (rule kfree_spec [OF assms])

section \<open>Growing\<close>

text \<open>The static chunk lies below all memory nodes, and there is room for the size \<open>grow_heap\<close> claims.\<close>

definition room_above :: "ptr \<Rightarrow> usize \<Rightarrow> mm \<Rightarrow> bool" where
  "room_above ms n s \<longleftrightarrow> 16 \<le> unat ms \<and> (\<forall>j < unat (allocator_len s).
     unat ms + 16 \<le> lo (allocators s ! j) \<and> hi (allocators s ! j) + unat n * 4096 \<le> 2 ^ 64)"

lemma heap_ok_single:
  assumes m: "rd64 m ms = z" "rd64 m (ms + 8) = 0" "rd64 m z = NULL" "rd64 m (z + 8) = sz"
    and z: "16 \<le> unat ms" "unat ms + 16 \<le> unat z" "unat z + unat sz \<le> 2 ^ 64" "16 \<le> unat sz" "16 dvd unat z" "16 dvd unat sz"
  shows "heap_ok ms m [(z, sz)]"
  using assms by (auto simp: heap_ok_def away_def chunk_ok_def)

lemma node_bits: "node_ok pm pa A \<Longrightarrow> 12 \<le> bits pa"
  by (auto simp: node_ok_def pa_rep_def blocks_ok_def geom_def)

lemma grow_heap_spec:
  assumes ok: "mm_ok s A" and n: "unat n < 2 ^ 31" and f: "fits n s A j" and ms: "room_above ms n s"
  shows "\<exists>z s' i. grow_heap ms n s = Some (z, s') \<and> fits n s A i \<and>
    mm_ok s' (A(i := insert (unat z, order_bits (allocators s ! i) n) (A i))) \<and>
    heap_ok ms (pm_bytes (mm_pm s')) [(z, n * PAGE_SIZE)] \<and> unat (n * PAGE_SIZE) = unat n * 4096"
proof -
  have "\<exists>j \<ge> 0. fits n s A j" using f by blast
  from first_node_spec [OF ok n, of 0, unfolded if_P [OF this]] obtain z i pm' pa' where
    1: "mem_alloc n s = Some (z, put_node i pm' pa' s)" "z \<noteq> NULL" "fits n s A i" "same_zone (allocators s ! i) pa'"
      "mm_ok (put_node i pm' pa' s) (A(i := insert (unat z, order_bits (allocators s ! i) n) (A i)))"
    by (auto simp: mem_alloc_def)
  let ?k = "order_bits (allocators s ! i) n" and ?s1 = "put_node i pm' pa' s"
  have i: "i < unat (allocator_len s)" and n0: "n \<noteq> 0" using 1(3) by (simp_all add: fits_def)
  have len: "i < length (allocators s)" using i ok by (simp add: mm_ok_def)
  have "node_ok (mm_pm ?s1) (allocators ?s1 ! i) ((A(i := insert (unat z, ?k) (A i))) i)"
    using 1(5) by (rule mm_okD) (simp add: i)
  then have nk: "node_ok pm' pa' (insert (unat z, ?k) (A i))" using len by simp
  have zi: "(unat z, ?k) \<in> insert (unat z, ?k) (A i)" by simp
  have "block_in (lo pa') (hi pa') (unat z, ?k)" using nk zi by (rule held_in_node)
  then have b: "lo pa' \<le> unat z" "unat z + 2 ^ ?k \<le> hi pa'" "2 ^ ?k dvd unat z" by (simp_all add: block_in_def)
  have "12 \<le> ?k" using held_meta(3) [OF nk zi] node_bits [OF nk] by simp
  then have "(2 :: nat) ^ 12 dvd 2 ^ ?k" by (rule le_imp_power_dvd)
  then have "2 ^ 12 dvd unat z" using b(3) by (rule dvd_trans)
  with b(1,2)
  have z: "lo (allocators s ! i) \<le> unat z" "unat z \<le> hi (allocators s ! i)" "2 ^ 12 dvd unat z"
    using 1(4) by (auto simp: same_zone_def)
  then have z16: "16 dvd unat z" by (auto elim: dvd_trans [rotated])
  have ms': "16 \<le> unat ms" "unat ms + 16 \<le> unat z" "unat z + unat n * 4096 \<le> 2 ^ 64" using ms i z(1,2) by (auto simp: room_above_def intro: order_trans)
  have big: "unat n * 4096 < 2 ^ 64" using n by simp
  then have sz: "unat (n * PAGE_SIZE) = unat n * 4096" by (simp add: PAGE_SIZE_def unat_word_ariths)
  have n1: "1 \<le> unat n" using n0 by (simp add: unat_gt_0 Suc_leI)
  have okm: "chunk_ok (ms, 0)" and okz: "chunk_ok (z, n * PAGE_SIZE)" using ms' n1 sz by (auto simp: chunk_ok_def)
  have dis: "body (ms, 0) \<inter> body (z, n * PAGE_SIZE) = {}" by (rule away_disjoint [OF okm okz]) (use ms'(2) in \<open>simp add: away_def\<close>)
  note hm = header [OF okm, simplified] and hz = header [OF okz, simplified]
  let ?m = "wr64 (z + 8) (n * PAGE_SIZE) (wr64 z NULL (wr64 (ms + 8) 0 (wr64 ms z (pm_bytes pm'))))"
  have g: "grow_heap ms n s = Some (z, upd_bytes (\<lambda>_. ?m) ?s1)"
    using 1(1) chunk_words(3,4) [OF okm, simplified] chunk_words(3,4) [OF okz, simplified]
    by (simp add: grow_heap_def) (simp add: upd_bytes_def)
  have e: "span ms 8 \<inter> span z 8 = {}" "span ms 8 \<inter> span (z + 8) 8 = {}" "span (ms + 8) 8 \<inter> span z 8 = {}"
    "span (ms + 8) 8 \<inter> span (z + 8) 8 = {}" using dis hm(2,3) hz(2,3) by blast+
  have "heap_ok ms ?m [(z, n * PAGE_SIZE)]"
  proof (rule heap_ok_single)
    show "rd64 ?m ms = z" using e hm(4) by (simp add: rd64_wr64_other Int_commute)
    show "rd64 ?m (ms + 8) = 0" using e by (simp add: rd64_wr64_other)
    show "rd64 ?m z = NULL" using hz(4) by (simp add: rd64_wr64_other)
  qed (use ms' n1 z16 sz in simp_all)
  then show ?thesis using g 1(3,5) sz by (intro exI [of _ z] exI [of _ "upd_bytes (\<lambda>_. ?m) ?s1"] exI [of _ i]) simp
qed

lemma kalloc_front:
  assumes h: "heap_ok ms (pm_bytes (mm_pm s)) [(z, sz)]" and n: "n \<noteq> 0" "unat n < 2 ^ 63" "round16 n < sz"
  shows "\<exists>s'. kalloc ms n s = Some (z, s')"
proof -
  have n': "unat n + 15 < 2 ^ 64" using n(2) by simp
  have "chunk_ok (ms, 0)" using h by (simp add: heap_ok_def)
  note w = chunk_words(1) [OF this, simplified]
  have k: "kalloc ms n s = kalloc_loop ms (round16 n) ms (rd64 (pm_bytes (mm_pm s)) ms) s"
    using n(1) by (simp add: kalloc_def round16_def w)
  have "first_fit (round16 n) [(z, sz)] = Some (z, [(z + round16 n, sz - round16 n)])" using n(3) by auto
  from kalloc_list [OF h refl this _ unat_round16(3) [OF n' n(1)] unat_round16(2) [OF n']] k show ?thesis by auto
qed

text \<open>
  C13: \<open>kalloc\<close> when no free chunk holds \<open>n\<close> bytes. The new chunk it gets from \<open>mem::alloc\<close> becomes
  the whole free list, and its address is what the call returns, so the block is handed out while it
  is free: the next \<open>kalloc\<close>, of any size that rounds up to less than the chunk, returns the same
  address once more.
  All chunks that were free before are lost.
\<close>
theorem kalloc_exhausted:
  assumes ok: "mm_ok s A" and h: "heap_ok ms (pm_bytes (mm_pm s)) xs" "xs \<noteq> []"
    and no: "first_fit (round16 n) xs = None" and n: "n \<noteq> 0" "unat n < 2 ^ 30"
    and K: "K = max PAGE_REALLOC_COUNT (round16 n)" and f: "fits K s A j" and ms: "room_above ms K s"
  shows "\<exists>z s' i k. kalloc ms n s = Some (z, s') \<and> mm_ok s' (A(i := insert (unat z, k) (A i))) \<and>
    heap_ok ms (pm_bytes (mm_pm s')) [(z, K * PAGE_SIZE)] \<and>
    (\<forall>n'. n' \<noteq> 0 \<longrightarrow> unat n' < 2 ^ 63 \<longrightarrow> round16 n' < K * PAGE_SIZE \<longrightarrow> (\<exists>s''. kalloc ms n' s' = Some (z, s'')))"
proof -
  have n': "unat n + 15 < 2 ^ 64" using n(2) by simp
  have okm: "chunk_ok (ms, 0)" using h by (simp add: heap_ok_def)
  have "kalloc ms n s = kalloc_loop ms (round16 n) ms (rd64 (pm_bytes (mm_pm s)) ms) s"
    using n(1) by (simp add: kalloc_def round16_def chunk_words(1) [OF okm, simplified])
  also have "\<dots> = grow_heap ms K s" unfolding K
  proof (rule kalloc_scan_none [OF _ _ _ h(2)])
    show "chunks_at (pm_bytes (mm_pm s)) (rd64 (pm_bytes (mm_pm s)) ms) xs NULL" using h(1) by (simp add: heap_ok_def)
  qed (use h(1) first_fit_None [OF no] in \<open>auto simp: heap_ok_def\<close>)
  finally have k: "kalloc ms n s = grow_heap ms K s" .
  have "unat (round16 n) \<le> unat n + 15" unfolding unat_round16(1) [OF n'] by (rule div_times_less_eq_dividend)
  then have "unat K < 2 ^ 31" unfolding K using n(2) by (auto simp: max_def PAGE_REALLOC_COUNT_def)
  from grow_heap_spec [OF ok this f ms] obtain z s' i where
    1: "grow_heap ms K s = Some (z, s')" "mm_ok s' (A(i := insert (unat z, order_bits (allocators s ! i) K) (A i)))"
      "heap_ok ms (pm_bytes (mm_pm s')) [(z, K * PAGE_SIZE)]" by blast
  have "\<exists>s''. kalloc ms n' s' = Some (z, s'')" if "n' \<noteq> 0" "unat n' < 2 ^ 63" "round16 n' < K * PAGE_SIZE" for n'
    using 1(3) that by (rule kalloc_front)
  with 1 k show ?thesis
    by (intro exI [of _ z] exI [of _ s'] exI [of _ i] exI [of _ "order_bits (allocators s ! i) K"]) simp
qed

text \<open>
  \<open>kmem_init\<close> asks \<open>mem::alloc\<close> for 8 bytes, which is one granule, and puts it on the free list
  as a chunk of 8 pages: up to 7 pages that belong to other holders are handed out by \<open>kalloc\<close>.
\<close>
theorem kmem_init_overclaims:
  assumes ok: "mm_ok s A" and f: "fits INITIAL_PAGE_COUNT s A j" and ms: "room_above ms INITIAL_PAGE_COUNT s"
  shows "\<exists>z s' i. kmem_init ms s = Some s' \<and> mm_ok s' (A(i := insert (unat z, bits (allocators s ! i)) (A i))) \<and>
    heap_ok ms (pm_bytes (mm_pm s')) [(z, 8 * PAGE_SIZE)]"
proof -
  have "unat INITIAL_PAGE_COUNT < 2 ^ 31" by (simp add: INITIAL_PAGE_COUNT_def)
  from grow_heap_spec [OF ok this f ms] obtain z s' i where
    1: "grow_heap ms INITIAL_PAGE_COUNT s = Some (z, s')" "fits INITIAL_PAGE_COUNT s A i"
      "mm_ok s' (A(i := insert (unat z, order_bits (allocators s ! i) INITIAL_PAGE_COUNT) (A i)))"
      "heap_ok ms (pm_bytes (mm_pm s')) [(z, INITIAL_PAGE_COUNT * PAGE_SIZE)]" by blast
  have "node_ok (mm_pm s) (allocators s ! i) (A i)" using ok 1(2) by (simp add: mm_ok_def fits_def)
  then have "12 \<le> bits (allocators s ! i)" by (rule node_bits)
  moreover have "log2_up INITIAL_PAGE_COUNT = 3"
    by (simp add: INITIAL_PAGE_COUNT_def log2_up_def log2_def bsr_unique [of 3] int_shl1_def align_up_def)
  ultimately have "order_bits (allocators s ! i) INITIAL_PAGE_COUNT = bits (allocators s ! i)"
    by (auto simp: order_bits_def get_order_def word_le_nat_alt)
  with 1 show ?thesis
    by (intro exI [of _ z] exI [of _ s'] exI [of _ i]) (simp add: kmem_init_def INITIAL_PAGE_COUNT_def)
qed

section \<open>Resizing\<close>

lemma krealloc_scan:
  assumes "chunks_at (pm_bytes (mm_pm s)) a us NULL" "\<And>d. d \<in> set us \<Longrightarrow> chunk_ok d"
    "\<And>d. d \<in> set us \<Longrightarrow> fst d > align_down addr MEM_CHUNK_SIZE \<Longrightarrow> n - orig \<le> snd d \<Longrightarrow>
       fst d \<noteq> align_down addr MEM_CHUNK_SIZE + orig" "us \<noteq> []"
  shows "krealloc_loop ms addr orig n prev a s = kmem_resize_move ms addr orig n s"
  using assms
proof (induction us arbitrary: prev a)
  case (Cons u us)
  let ?m = "pm_bytes (mm_pm s)" and ?q = "align_down addr MEM_CHUNK_SIZE"
  note st = scan_step [OF Cons.prems(1,2)]
  have oku: "chunk_ok u" using Cons.prems(2) by simp
  note w = chunk_words(1,2) [OF oku]
  show ?case
  proof (cases "fst u > ?q")
    case True
    then have "\<not> (n - orig \<le> snd u \<and> fst u = ?q + orig)" using Cons.prems(3) [of u] by auto
    with True show ?thesis using st(1,2) w by (subst krealloc_loop.simps) (auto simp: Let_def)
  next
    case False
    then have e: "krealloc_loop ms addr orig n prev a s = (if rd64 ?m (fst u) = NULL then kmem_resize_move ms addr orig n s
        else krealloc_loop ms addr orig n (fst u) (rd64 ?m (fst u)) s)"
      using st(1) w by (subst krealloc_loop.simps) (simp add: Let_def)
    show ?thesis
    proof (cases "us = []")
      case False
      have "krealloc_loop ms addr orig n (fst u) (rd64 ?m (fst u)) s = kmem_resize_move ms addr orig n s"
        by (rule Cons.IH [OF st(3)]) (use Cons.prems False in auto)
      with e show ?thesis by simp
    qed (use e st(5) in simp)
  qed
qed simp

text \<open>
  C14: \<open>krealloc\<close> is the same function as: nothing for an equal size, freeing the tail for a smaller
  one, and otherwise \<open>kmem_resize_move\<close>, whatever the chunks are between which the block lies,
  unless a free chunk of sufficient size starts right behind it.
\<close>
theorem krealloc_equiv:
  assumes h: "heap_ok ms (pm_bytes (mm_pm s)) xs" "xs \<noteq> []"
    and o: "orig' = max (round16 orig) MEM_CHUNK_SIZE" and n: "n' = max (round16 n) MEM_CHUNK_SIZE"
    and gap: "\<And>c. c \<in> set xs \<Longrightarrow> n' - orig' \<le> snd c \<Longrightarrow> fst c \<noteq> align_down addr MEM_CHUNK_SIZE + orig'"
  shows "krealloc ms addr orig n s =
    (if n' = orig' then Some (addr, s)
     else if n' < orig' then map_option (Pair addr) (kfree ms (addr + n') (orig' - n') s)
     else kmem_resize_move ms addr orig' n' s)"
proof -
  have okm: "chunk_ok (ms, 0)" using h by (simp add: heap_ok_def)
  have c0: "chunks_at (pm_bytes (mm_pm s)) (rd64 (pm_bytes (mm_pm s)) ms) xs NULL" using h(1) by (simp add: heap_ok_def)
  have "krealloc_loop ms addr orig' n' ms (rd64 (pm_bytes (mm_pm s)) ms) s = kmem_resize_move ms addr orig' n' s"
    by (rule krealloc_scan [OF c0]) (use h gap in \<open>auto simp: heap_ok_def\<close>)
  moreover have "n' \<noteq> 0" unfolding n by (auto simp: max_def MEM_CHUNK_SIZE_def)
  ultimately show ?thesis
    using chunk_words(1) [OF okm, simplified]
    by (auto simp: krealloc_def Let_def round16_def [symmetric] o [symmetric] n [symmetric] map_option_case split: Option.bind_splits option.splits)
qed

section \<open>Examples\<close>

definition ex_heap :: "usize \<Rightarrow> bytes" where
  "ex_heap sz = wr64 0x2008 sz (wr64 0x1000 0x2000 (\<lambda>_. 0))"

lemma ex_heap_ok: "16 \<le> unat sz \<Longrightarrow> unat sz < 2 ^ 32 \<Longrightarrow> 16 dvd unat sz \<Longrightarrow> heap_ok 0x1000 (ex_heap sz) [(0x2000, sz)]"
proof (rule heap_ok_single)
  have z: "rd64 (\<lambda>_. 0) a = 0" for a by (rule rd64_zero) simp
  show "rd64 (ex_heap sz) 0x1000 = 0x2000" "rd64 (ex_heap sz) (0x1000 + 8) = 0" "rd64 (ex_heap sz) 0x2000 = NULL"
    by (simp_all add: ex_heap_def rd64_wr64_other span_disjoint z)
  show "rd64 (ex_heap sz) (0x2000 + 8) = sz" by (simp add: ex_heap_def)
qed simp_all

definition ex_mm :: "bytes \<Rightarrow> mm" where
  "ex_mm m = upd_bytes (\<lambda>_. m) (one_node undefined undefined)"

lemma ex_mm_bytes [simp]: "pm_bytes (mm_pm (ex_mm m)) = m" by (simp add: ex_mm_def)

lemma ex_round: "round16 20 = 32" "round16 16 = 16" "round16 0x100 = 0x100" by (simp_all add: round16_def MEM_CHUNK_SIZE_def align_up_def)

theorem kalloc_first_fit_witness:
  "\<exists>m'. kalloc 0x1000 20 (ex_mm (ex_heap 0x100)) = Some (0x2000, upd_bytes (\<lambda>_. m') (ex_mm (ex_heap 0x100))) \<and>
    heap_ok 0x1000 m' [(0x2020, 0xE0)]"
proof -
  have h: "heap_ok 0x1000 (pm_bytes (mm_pm (ex_mm (ex_heap 0x100)))) [(0x2000, 0x100)]" using ex_heap_ok [of "0x100"] by simp
  have "first_fit (round16 20) [(0x2000, 0x100)] = Some (0x2000, [(0x2020, 0xE0)])" by (simp add: ex_round)
  from kalloc_first_fit [OF h this] show ?thesis by auto
qed

theorem kfree_top_only_witness:
  "\<exists>m'. kfree 0x1000 0x3000 20 (ex_mm (ex_heap 0x100)) = Some (upd_bytes (\<lambda>_. m') (ex_mm (ex_heap 0x100))) \<and>
    heap_ok 0x1000 m' [(0x2000, 0x100), (0x3000, 32)]"
proof -
  have h: "heap_ok 0x1000 (pm_bytes (mm_pm (ex_mm (ex_heap 0x100)))) [(0x2000, 0x100)]" using ex_heap_ok [of "0x100"] by simp
  have nw: "unat (fst c) + unat (snd d) < 2 ^ 64"
    if "c \<in> set [(0x2000, 0x100) :: chunk]" "d \<in> set [(0x2000, 0x100) :: chunk]" for c d using that by simp
  have q: "chunk_ok (0x3000, round16 20)" by (simp add: ex_round chunk_ok_def)
  have far: "away c (0x3000, round16 20)" if "c \<in> set ((0x1000, 0) # [(0x2000, 0x100)])" for c
    using that by (auto simp: ex_round away_def)
  from kfree_top_only [OF h _ nw q _ _ _ far] show ?thesis by (auto simp: ex_round)
qed

lemma ex_fits:
  assumes "bits pa = 12" "lo pa = 0x100000" "hi pa = 0x106000" and n: "0 < unat n" "unat n \<le> 4096"
  shows "fits n (one_node pm pa) (\<lambda>_. {(0x104000, 13)}) 0"
proof -
  have "unat (log2_up n) \<le> 12"
  proof (rule ccontr)
    assume a: "\<not> unat (log2_up n) \<le> 12"
    have "unat n < 2 ^ 31" using n by simp
    from unat_log2_up(2) [OF n(1) this] a have "2 ^ (unat (log2_up n) - 1) < unat n" by simp
    moreover have "(2 :: nat) ^ 12 \<le> 2 ^ (unat (log2_up n) - 1)" using a by (intro power_increasing) auto
    ultimately show False using n(2) by simp
  qed
  then have t: "log2_up n \<le> 12" by (simp add: word_le_nat_alt)
  have fb: "fo_bits pa = 12" using assms(1) by (simp add: word_unat_eq_iff)
  have "get_order pa n = 0" using t unfolding get_order_def fb by (auto simp: Let_def)
  then show ?thesis using assms n
    by (auto simp: fits_def one_node_def room_def block_in_def region_def intro!: exI [of _ "0x100000"])
qed

definition ex_node_heap :: "pmem \<Rightarrow> pallocator \<Rightarrow> mm" where
  "ex_node_heap pm pa = upd_bytes (\<lambda>_. ex_heap 16) (one_node pm pa)"

lemma ex_node_heap_simps [simp]:
  "fits n (ex_node_heap pm pa) = fits n (one_node pm pa)" "room_above ms n (ex_node_heap pm pa) = room_above ms n (one_node pm pa)"
  by (simp_all add: ex_node_heap_def upd_bytes_def fits_def room_above_def fun_eq_iff)

theorem kalloc_exhausted_witness:
  "\<exists>s z s' s''. mm_ok s (\<lambda>_. {(0x104000, 13)}) \<and> kalloc 0x1000 20 s = Some (z, s') \<and> kalloc 0x1000 100 s' = Some (z, s'')"
proof -
  from ex_held obtain pm pa where
    h: "node_ok pm pa {(0x104000, 13)}" "bits pa = 12" "lo pa = 0x100000" "hi pa = 0x106000" by blast
  let ?s = "ex_node_heap pm pa" and ?K = "max PAGE_REALLOC_COUNT (round16 20)"
  have ok: "mm_ok ?s (\<lambda>_. {(0x104000, 13)})" using one_node_ok [OF h(1)] by (simp add: ex_node_heap_def)
  have hp: "heap_ok 0x1000 (pm_bytes (mm_pm ?s)) [(0x2000, 16)]" using ex_heap_ok [of 16] by (simp add: ex_node_heap_def)
  have K: "?K = 32" by (simp add: ex_round PAGE_REALLOC_COUNT_def)
  have no: "first_fit (round16 20) [(0x2000, 16)] = None" by (simp add: ex_round)
  have f: "fits 32 ?s (\<lambda>_. {(0x104000, 13)}) 0" using ex_fits [OF h(2-4), of 32] by simp
  have ms: "room_above 0x1000 32 ?s" unfolding ex_node_heap_simps using h(3,4) by (simp add: room_above_def one_node_def)
  have z: "round16 100 < 32 * PAGE_SIZE" by (simp add: round16_def MEM_CHUNK_SIZE_def align_up_def PAGE_SIZE_def)
  from kalloc_exhausted [OF ok hp _ no _ _ K [symmetric] f ms] obtain z' s' where
    1: "kalloc 0x1000 20 ?s = Some (z', s')"
      "\<forall>n'. n' \<noteq> 0 \<longrightarrow> unat n' < 2 ^ 63 \<longrightarrow> round16 n' < 32 * PAGE_SIZE \<longrightarrow> (\<exists>s''. kalloc 0x1000 n' s' = Some (z', s''))" by auto
  from 1(2) have "\<exists>s''. kalloc 0x1000 100 s' = Some (z', s'')" using z by simp
  with ok 1(1) show ?thesis by blast
qed


theorem kmem_init_overclaims_witness:
  "\<exists>s z s'. mm_ok s (\<lambda>_. {(0x104000, 13)}) \<and> kmem_init 0x1000 s = Some s' \<and>
    heap_ok 0x1000 (pm_bytes (mm_pm s')) [(z, 8 * PAGE_SIZE)]"
proof -
  from ex_held obtain pm pa where
    h: "node_ok pm pa {(0x104000, 13)}" "bits pa = 12" "lo pa = 0x100000" "hi pa = 0x106000" by blast
  let ?s = "one_node pm pa"
  have f: "fits INITIAL_PAGE_COUNT ?s (\<lambda>_. {(0x104000, 13)}) 0" using ex_fits [OF h(2-4), of 8] by (simp add: INITIAL_PAGE_COUNT_def)
  have ms: "room_above 0x1000 INITIAL_PAGE_COUNT ?s" using h(3,4) by (simp add: room_above_def one_node_def INITIAL_PAGE_COUNT_def)
  from kmem_init_overclaims [OF one_node_ok [OF h(1)] f ms] one_node_ok [OF h(1)] show ?thesis by blast
qed

theorem krealloc_equiv_witness:
  "krealloc 0x1000 0x4000 16 0x100 (ex_mm (ex_heap 0x100)) = kmem_resize_move 0x1000 0x4000 16 0x100 (ex_mm (ex_heap 0x100))"
proof -
  have h: "heap_ok 0x1000 (pm_bytes (mm_pm (ex_mm (ex_heap 0x100)))) [(0x2000, 0x100)]" using ex_heap_ok [of "0x100"] by simp
  have o: "16 = max (round16 16) MEM_CHUNK_SIZE" and n: "0x100 = max (round16 0x100) MEM_CHUNK_SIZE"
    by (simp_all add: ex_round MEM_CHUNK_SIZE_def)
  have gap: "fst c \<noteq> align_down 0x4000 MEM_CHUNK_SIZE + 16" if "c \<in> set [(0x2000, 0x100) :: chunk]" for c
    using that by (simp add: align_down_def MEM_CHUNK_SIZE_def)
  from krealloc_equiv [OF h _ o n gap] show ?thesis by simp
qed

end
