(* ===== verification/Array_List.thy ===== *)
theory Array_List
  imports Kmem
begin

text \<open>
  The array list of pointers, \<^verbatim>\<open>include/util/array_list.hpp\<close>: a block of the kernel heap with
  \<open>capacity\<close> words, of which the first \<open>len\<close> are the elements. The template argument enters only
  through the size of an element that \<^verbatim>\<open>delete\<close> frees.
\<close>

unbundle bit_operations_syntax

section \<open>Operations\<close>

definition ARRAY_LIST_INTIAL_CAPACITY :: usize where "ARRAY_LIST_INTIAL_CAPACITY = 8"

record array_list =
  al_len :: usize
  al_capacity :: usize
  al_list :: ptr
  al_free_members :: bool

definition al_new :: "ptr \<Rightarrow> bool \<Rightarrow> mm \<Rightarrow> (array_list \<times> mm) option" where
  "al_new ms free_members s = do {
     (p, s) \<leftarrow> kalloc ms (ARRAY_LIST_INTIAL_CAPACITY * 8) s;
     if p = NULL then None
     else Some (\<lparr>al_len = 0, al_capacity = ARRAY_LIST_INTIAL_CAPACITY, al_list = p, al_free_members = free_members\<rparr>, s)
   }"

function al_delete_loop :: "ptr \<Rightarrow> usize \<Rightarrow> array_list \<Rightarrow> usize \<Rightarrow> mm \<Rightarrow> mm option" where
  "al_delete_loop ms size_T a i s =
     (if i < al_len a then do {
        p \<leftarrow> get_word (al_list a + 8 * i) s;
        s \<leftarrow> op_delete ms p size_T s;
        al_delete_loop ms size_T a (i + 1) s
      } else Some s)"
  by pat_completeness auto
termination by (relation "measure (\<lambda>(ms, size_T, a, i, s). unat (al_len a) - unat i)") (auto simp: unat_incr word_less_nat_alt)

definition al_delete :: "ptr \<Rightarrow> usize \<Rightarrow> array_list \<Rightarrow> mm \<Rightarrow> mm option" where
  "al_delete ms size_T a s = do {
     s \<leftarrow> (if al_free_members a then al_delete_loop ms size_T a 0 s else Some s);
     kfree ms (al_list a) (al_capacity a * 8) s
   }"

text \<open>\<^verbatim>\<open>for (usize j = len; j > i; j --) list[j] = list[j - 1];\<close>\<close>

function shift_up :: "ptr \<Rightarrow> usize \<Rightarrow> usize \<Rightarrow> mm \<Rightarrow> mm option" where
  "shift_up p i j s =
     (if j > i then do {
        v \<leftarrow> get_word (p + 8 * (j - 1)) s;
        s \<leftarrow> set_word (p + 8 * j) v s;
        shift_up p i (j - 1) s
      } else Some s)"
  by pat_completeness auto
termination
proof (relation "measure (\<lambda>(p, i, j, s). unat j)")
  fix p i j :: usize and s v s'
  assume "i < j"
  then have "j \<noteq> 0" by auto
  then show "((p, i, j - 1, s'), p, i, j, s) \<in> measure (\<lambda>(p, i, j, s). unat j)" by (simp add: unat_minus_one unat_gt_0)
qed simp

text \<open>\<^verbatim>\<open>for (; i < len; i ++) list[i] = list[i + 1];\<close>\<close>

function shift_down :: "ptr \<Rightarrow> usize \<Rightarrow> usize \<Rightarrow> mm \<Rightarrow> mm option" where
  "shift_down p i len s =
     (if i < len then do {
        v \<leftarrow> get_word (p + 8 * (i + 1)) s;
        s \<leftarrow> set_word (p + 8 * i) v s;
        shift_down p (i + 1) len s
      } else Some s)"
  by pat_completeness auto
termination by (relation "measure (\<lambda>(p, i, len, s). unat len - unat i)") (auto simp: unat_incr word_less_nat_alt)

declare shift_up.simps [simp del] shift_down.simps [simp del] al_delete_loop.simps [simp del]

definition al_insert :: "ptr \<Rightarrow> ptr \<Rightarrow> usize \<Rightarrow> array_list \<Rightarrow> mm \<Rightarrow> (bool \<times> array_list \<times> mm) option" where
  "al_insert ms v i a s =
     (if al_list a = NULL then Some (False, a, s)
      else if i > al_len a then Some (False, a, s)
      else if i < al_capacity a then do {
        s \<leftarrow> set_word (al_list a + 8 * i) v s;
        Some (True, a\<lparr>al_len := al_len a + 1\<rparr>, s)
      }
      else do {
        (p, s) \<leftarrow> krealloc ms (al_list a) (al_capacity a * 8) (push_bit 1 (al_capacity a) * 8) s;
        if p = NULL then Some (False, a, s)
        else do {
          let a = a\<lparr>al_list := p, al_capacity := push_bit 1 (al_capacity a)\<rparr>;
          s \<leftarrow> shift_up p i (al_len a) s;
          s \<leftarrow> set_word (p + 8 * i) v s;
          Some (True, a\<lparr>al_len := al_len a + 1\<rparr>, s)
        }
      })"

definition al_push :: "ptr \<Rightarrow> ptr \<Rightarrow> array_list \<Rightarrow> mm \<Rightarrow> (bool \<times> array_list \<times> mm) option" where
  "al_push ms v a s = al_insert ms v (al_len a) a s"

definition al_remove :: "ptr \<Rightarrow> usize \<Rightarrow> array_list \<Rightarrow> mm \<Rightarrow> (ptr \<times> array_list \<times> mm) option" where
  "al_remove ms i a s =
     (if i \<ge> al_len a then Some (NULL, a, s)
      else do {
        out \<leftarrow> get_word (al_list a + 8 * i) s;
        let a = a\<lparr>al_len := al_len a - 1\<rparr>;
        s \<leftarrow> shift_down (al_list a) i (al_len a) s;
        if al_len a \<le> drop_bit 2 (al_capacity a) then do {
          (p, s) \<leftarrow> krealloc ms (al_list a) (al_capacity a * 8) (drop_bit 1 (al_capacity a) * 8) s;
          Some (out, a\<lparr>al_list := p, al_capacity := drop_bit 1 (al_capacity a)\<rparr>, s)
        }
        else Some (out, a, s)
      })"

definition al_pop :: "ptr \<Rightarrow> array_list \<Rightarrow> mm \<Rightarrow> (ptr \<times> array_list \<times> mm) option" where
  "al_pop ms a s = al_remove ms (al_len a - 1) a s"

definition al_get :: "usize \<Rightarrow> array_list \<Rightarrow> mm \<Rightarrow> ptr option" where
  "al_get i a s = (if i \<ge> al_len a then Some NULL else get_word (al_list a + 8 * i) s)"

definition al_set :: "usize \<Rightarrow> ptr \<Rightarrow> array_list \<Rightarrow> mm \<Rightarrow> (bool \<times> mm) option" where
  "al_set i v a s =
     (if i \<ge> al_len a then Some (False, s)
      else do { s \<leftarrow> set_word (al_list a + 8 * i) v s; Some (True, s) })"

section \<open>The list it stores\<close>

definition slot :: "ptr \<Rightarrow> nat \<Rightarrow> ptr" where "slot p j = p + 8 * of_nat j"

definition slots_ok :: "ptr \<Rightarrow> nat \<Rightarrow> bool" where "slots_ok p n \<longleftrightarrow> 16 \<le> unat p \<and> unat p + 8 * n \<le> 2 ^ 64"

definition al_rep :: "bytes \<Rightarrow> array_list \<Rightarrow> ptr list \<Rightarrow> bool" where
  "al_rep m a xs \<longleftrightarrow> slots_ok (al_list a) (unat (al_capacity a)) \<and> unat (al_len a) = length xs \<and>
     length xs \<le> unat (al_capacity a) \<and> (\<forall>j < length xs. rd64 m (slot (al_list a) j) = xs ! j)"

lemma slot:
  assumes "slots_ok p n" "j < n"
  shows "unat (slot p j) = unat p + 8 * j" "\<not> slot p j < 16" "p + 8 * of_nat j = slot p j"
proof -
  have a: "unat p + 8 * j < 2 ^ 64" "16 \<le> unat p" using assms by (auto simp: slots_ok_def)
  have "unat (of_nat (8 * j) :: ptr) = 8 * j" by (rule unat_of_nat_small) (use a in simp)
  then show u: "unat (slot p j) = unat p + 8 * j" using a unfolding slot_def
    by (subst unat_add_noov) (simp_all)
  show "\<not> slot p j < 16" using u a by (simp add: word_less_nat_alt)
qed (simp add: slot_def)

lemma slots_disjoint:
  assumes "slots_ok p n" "j < n" "k < n" "j \<noteq> k"
  shows "span (slot p j) 8 \<inter> span (slot p k) 8 = {}"
proof (rule span_disjoint)
  show "unat (slot p j) + 8 \<le> unat (slot p k) \<or> unat (slot p k) + 8 \<le> unat (slot p j)"
    using assms(4) slot(1) [OF assms(1,2)] slot(1) [OF assms(1,3)] by linarith
qed (use assms slot(1) [OF assms(1,2)] slot(1) [OF assms(1,3)] in \<open>auto simp: slots_ok_def\<close>)

lemma rd_slot:
  assumes "slots_ok p n" "j < n" "k < n"
  shows "rd64 (wr64 (slot p j) v m) (slot p k) = (if k = j then v else rd64 m (slot p k))"
  using slots_disjoint [OF assms(1,3,2)] by (auto intro: rd64_wr64_other)

lemma shift_down_spec:
  assumes ok: "slots_ok p n" and i: "unat i + k = unat len" and len: "unat len < n"
  shows "\<exists>m'. shift_down p i len s = Some (upd_bytes (\<lambda>_. m') s) \<and>
    (\<forall>j < n. rd64 m' (slot p j) = rd64 (pm_bytes (mm_pm s)) (slot p (if unat i \<le> j \<and> j < unat len then Suc j else j)))"
  using i
proof (induction k arbitrary: i s)
  case 0
  then have "\<not> i < len" by (simp add: word_less_nat_alt)
  then have "shift_down p i len s = Some (upd_bytes (\<lambda>_. pm_bytes (mm_pm s)) s)"
    by (subst shift_down.simps) (simp add: upd_bytes_def)
  with 0 show ?case by auto
next
  case (Suc k)
  let ?m = "pm_bytes (mm_pm s)"
  have lt: "i < len" using Suc.prems by (simp add: word_less_nat_alt)
  then have i1: "unat (i + 1) = Suc (unat i)" by (rule unat_incr)
  have s0: "p + 8 * i = slot p (unat i)" and s1: "p + 8 * (i + 1) = slot p (Suc (unat i))"
    by (simp_all add: slot_def algebra_simps)
  have n: "unat i < n" "Suc (unat i) < n" using Suc.prems len by simp_all
  let ?v = "rd64 ?m (slot p (Suc (unat i)))"
  let ?s = "upd_bytes (wr64 (slot p (unat i)) ?v) s"
  have st: "shift_down p i len s = shift_down p (i + 1) len ?s"
  proof -
    have "get_word (p + 8 * (i + 1)) s = Some ?v" "set_word (p + 8 * i) ?v s = Some ?s"
      unfolding s0 s1 using slot(2) [OF ok n(1)] slot(2) [OF ok n(2)] by simp_all
    with lt show ?thesis by (subst shift_down.simps) simp
  qed
  from Suc.IH [of "i + 1" ?s] Suc.prems i1 obtain m' where
    1: "shift_down p (i + 1) len ?s = Some (upd_bytes (\<lambda>_. m') ?s)"
      "\<forall>j < n. rd64 m' (slot p j) = rd64 (pm_bytes (mm_pm ?s)) (slot p (if Suc (unat i) \<le> j \<and> j < unat len then Suc j else j))"
    by auto
  have "rd64 m' (slot p j) = rd64 ?m (slot p (if unat i \<le> j \<and> j < unat len then Suc j else j))" if j: "j < n" for j
  proof -
    have "(if Suc (unat i) \<le> j \<and> j < unat len then Suc j else j) < n" using j len by auto
    with 1(2) j have "rd64 m' (slot p j) = (if (if Suc (unat i) \<le> j \<and> j < unat len then Suc j else j) = unat i then ?v
        else rd64 ?m (slot p (if Suc (unat i) \<le> j \<and> j < unat len then Suc j else j)))"
      by (simp only: pm_bytes_upd rd_slot [OF ok n(1)])
    then show ?thesis using Suc.prems by (auto split: if_splits)
  qed
  with 1(1) show ?case unfolding st by (intro exI [of _ m']) simp
qed

lemma al_repD:
  assumes "al_rep m a xs"
  shows "slots_ok (al_list a) (unat (al_capacity a))" "unat (al_len a) = length xs" "length xs \<le> unat (al_capacity a)"
    "j < length xs \<Longrightarrow> rd64 m (slot (al_list a) j) = xs ! j" "al_list a \<noteq> NULL"
  using assms by (auto simp: al_rep_def slots_ok_def)

lemma index_slot: "p + 8 * i = slot p (unat i)"
  by (simp add: slot_def)

lemma al_insert_overwrites:
  assumes r: "al_rep (pm_bytes (mm_pm s)) a xs" and i: "unat i < length xs" and lt: "length xs < unat (al_capacity a)"
  shows "\<exists>s'. al_insert ms v i a s = Some (True, a\<lparr>al_len := al_len a + 1\<rparr>, s') \<and>
    al_rep (pm_bytes (mm_pm s')) (a\<lparr>al_len := al_len a + 1\<rparr>) (xs[unat i := v] @ [rd64 (pm_bytes (mm_pm s)) (slot (al_list a) (length xs))])"
proof -
  let ?m = "pm_bytes (mm_pm s)" and ?p = "al_list a" and ?n = "unat (al_capacity a)"
  note R = al_repD [OF r]
  have nf: "\<not> slot ?p (unat i) < 16" using slot(2) [OF R(1)] i R(3) by simp
  have "al_len a < al_capacity a" using lt R(2) by (simp add: word_less_nat_alt)
  then have l1: "unat (al_len a + 1) = Suc (length xs)" using unat_incr [of "al_len a" "al_capacity a"] R(2) by simp
  have ix: "i < al_capacity a" "\<not> al_len a < i" using i lt R(2) by (simp_all add: word_less_nat_alt)
  have "al_insert ms v i a s = Some (True, a\<lparr>al_len := al_len a + 1\<rparr>, upd_bytes (wr64 (slot ?p (unat i)) v) s)"
    using R(5) ix nf by (simp add: al_insert_def index_slot)
  moreover have "al_rep (wr64 (slot ?p (unat i)) v ?m) (a\<lparr>al_len := al_len a + 1\<rparr>) (xs[unat i := v] @ [rd64 ?m (slot ?p (length xs))])"
    using r i lt l1 rd_slot [OF R(1), of "unat i"] by (auto simp: al_rep_def nth_append nth_list_update less_Suc_eq)
  ultimately show ?thesis by simp
qed

lemma al_push_appends:
  assumes r: "al_rep (pm_bytes (mm_pm s)) a xs" and lt: "al_len a < al_capacity a"
  shows "\<exists>s'. al_push ms v a s = Some (True, a\<lparr>al_len := al_len a + 1\<rparr>, s') \<and>
    al_rep (pm_bytes (mm_pm s')) (a\<lparr>al_len := al_len a + 1\<rparr>) (xs @ [v])"
proof -
  let ?m = "pm_bytes (mm_pm s)" and ?p = "al_list a" and ?n = "unat (al_capacity a)"
  note R = al_repD [OF r]
  have l: "length xs < ?n" using lt R(2) by (simp add: word_less_nat_alt)
  have l1: "unat (al_len a + 1) = Suc (length xs)" using unat_incr [OF lt] R(2) by simp
  have ix: "?p + 8 * al_len a = slot ?p (length xs)" using index_slot [of ?p "al_len a"] R(2) by simp
  have "al_push ms v a s = Some (True, a\<lparr>al_len := al_len a + 1\<rparr>, upd_bytes (wr64 (slot ?p (length xs)) v) s)"
    using R(5) lt slot(2) [OF R(1) l] by (simp add: al_push_def al_insert_def ix)
  moreover have "al_rep (wr64 (slot ?p (length xs)) v ?m) (a\<lparr>al_len := al_len a + 1\<rparr>) (xs @ [v])"
    using r l l1 rd_slot [OF R(1) l] by (auto simp: al_rep_def nth_append less_Suc_eq)
  ultimately show ?thesis by simp
qed

lemma al_remove_removes:
  assumes r: "al_rep (pm_bytes (mm_pm s)) a xs" and i: "unat i < length xs" and c: "unat (al_capacity a) div 4 < length xs - 1"
  shows "\<exists>s'. al_remove ms i a s = Some (xs ! unat i, a\<lparr>al_len := al_len a - 1\<rparr>, s') \<and>
    al_rep (pm_bytes (mm_pm s')) (a\<lparr>al_len := al_len a - 1\<rparr>) (take (unat i) xs @ drop (Suc (unat i)) xs)"
proof -
  let ?m = "pm_bytes (mm_pm s)" and ?p = "al_list a" and ?n = "unat (al_capacity a)"
  note R = al_repD [OF r]
  have nf: "\<not> slot ?p (unat i) < 16" using slot(2) [OF R(1)] i R(3) by simp
  have ge: "i \<ge> al_len a \<longleftrightarrow> \<not> unat i < length xs" using R(2) by (auto simp: word_le_nat_alt)
  have l1: "unat (al_len a - 1) = length xs - 1"
  proof -
    have "al_len a \<noteq> 0" using i R(2) by auto
    then show ?thesis using R(2) by (simp add: unat_minus_one)
  qed
  have "unat (drop_bit 2 (al_capacity a)) = ?n div 4" by (simp add: drop_bit_eq_div unat_div_distrib)
  then have ns: "\<not> al_len a - 1 \<le> drop_bit 2 (al_capacity a)" using c l1 by (simp add: word_le_nat_alt)
  have "unat i + (length xs - 1 - unat i) = unat (al_len a - 1)" "unat (al_len a - 1) < ?n" using i l1 R(3) by simp_all
  from shift_down_spec [OF R(1) this, of s] obtain m' where
    1: "shift_down ?p i (al_len a - 1) s = Some (upd_bytes (\<lambda>_. m') s)"
      "\<forall>j < ?n. rd64 m' (slot ?p j) = rd64 ?m (slot ?p (if unat i \<le> j \<and> j < unat (al_len a - 1) then Suc j else j))" by blast
  have "al_remove ms i a s = Some (xs ! unat i, a\<lparr>al_len := al_len a - 1\<rparr>, upd_bytes (\<lambda>_. m') s)"
    using ns 1(1) i nf R(4) [OF i] by (simp add: al_remove_def ge index_slot Let_def)
  moreover have "al_rep m' (a\<lparr>al_len := al_len a - 1\<rparr>) (take (unat i) xs @ drop (Suc (unat i)) xs)"
    using r i l1 1(2) by (auto simp: al_rep_def nth_append min_def)
  ultimately show ?thesis by simp
qed

text \<open>
  C15: the array list keeps a list, while the block is neither grown nor halved. Reading, writing,
  appending below the capacity and removing above a quarter of it do what they do on lists. \<open>insert\<close>
  at the index of an element, below the capacity, does not: it overwrites the element, and the word
  that lies behind the list becomes its last element. Out of range, reading, writing, inserting and
  removing return \<open>NULL\<close> or false and change nothing.
\<close>
theorem array_list_refines:
  assumes r: "al_rep (pm_bytes (mm_pm s)) a xs"
  shows "al_get i a s = Some (if unat i < length xs then xs ! unat i else NULL) \<and>
    (\<exists>s'. al_set i v a s = Some (unat i < length xs, s') \<and>
      al_rep (pm_bytes (mm_pm s')) a (xs[unat i := v]) \<and> (length xs \<le> unat i \<longrightarrow> s' = s)) \<and>
    (length xs < unat i \<longrightarrow> al_insert ms v i a s = Some (False, a, s)) \<and>
    (length xs \<le> unat i \<longrightarrow> al_remove ms i a s = Some (NULL, a, s)) \<and>
    (unat i < length xs \<longrightarrow> length xs < unat (al_capacity a) \<longrightarrow>
      (\<exists>s'. al_insert ms v i a s = Some (True, a\<lparr>al_len := al_len a + 1\<rparr>, s') \<and>
      al_rep (pm_bytes (mm_pm s')) (a\<lparr>al_len := al_len a + 1\<rparr>) (xs[unat i := v] @ [rd64 (pm_bytes (mm_pm s)) (slot (al_list a) (length xs))]))) \<and>
    (al_len a < al_capacity a \<longrightarrow> (\<exists>s'. al_push ms v a s = Some (True, a\<lparr>al_len := al_len a + 1\<rparr>, s') \<and>
      al_rep (pm_bytes (mm_pm s')) (a\<lparr>al_len := al_len a + 1\<rparr>) (xs @ [v]))) \<and>
    (unat i < length xs \<longrightarrow> unat (al_capacity a) div 4 < length xs - 1 \<longrightarrow>
      (\<exists>s'. al_remove ms i a s = Some (xs ! unat i, a\<lparr>al_len := al_len a - 1\<rparr>, s') \<and>
      al_rep (pm_bytes (mm_pm s')) (a\<lparr>al_len := al_len a - 1\<rparr>) (take (unat i) xs @ drop (Suc (unat i)) xs)))"
proof (intro conjI impI)
  let ?m = "pm_bytes (mm_pm s)" and ?p = "al_list a"
  note R = al_repD [OF r]
  have ge: "i \<ge> al_len a \<longleftrightarrow> \<not> unat i < length xs" using R(2) by (auto simp: word_le_nat_alt)
  have nf: "\<not> slot ?p (unat i) < 16" if "unat i < length xs" using slot(2) [OF R(1)] that R(3) by simp
  show "al_get i a s = Some (if unat i < length xs then xs ! unat i else NULL)"
    using R(4) nf by (simp add: al_get_def ge index_slot)
  show "\<exists>s'. al_set i v a s = Some (unat i < length xs, s') \<and> al_rep (pm_bytes (mm_pm s')) a (xs[unat i := v]) \<and>
      (length xs \<le> unat i \<longrightarrow> s' = s)"
  proof (cases "unat i < length xs")
    case True
    have "al_rep (wr64 (slot ?p (unat i)) v ?m) a (xs[unat i := v])"
      using r True rd_slot [OF R(1), of "unat i"] R(3) by (auto simp: al_rep_def nth_list_update)
    then show ?thesis using True nf [OF True] by (simp add: al_set_def ge index_slot)
  qed (simp add: al_set_def ge r list_update_beyond not_less)
  show "al_insert ms v i a s = Some (False, a, s)" if "length xs < unat i"
    using that R(2) by (simp add: al_insert_def word_less_nat_alt)
  show "al_remove ms i a s = Some (NULL, a, s)" if "length xs \<le> unat i" using that by (simp add: al_remove_def ge)
qed (use al_insert_overwrites [OF r] al_push_appends [OF r] al_remove_removes [OF r] in blast)+

text \<open>
  the capacity that \<open>remove\<close> halves can reach 0: popping the only element of a list of capacity 1
  leaves 0, which doubling does not change, while the block keeps 16 bytes. From then on every
  \<open>push\<close> succeeds without growing the block; the third one writes behind it.
\<close>
theorem capacity_decays:
  assumes r: "al_rep (pm_bytes (mm_pm s)) a [x]" and c: "al_capacity a = 1"
  shows "\<exists>b s'. al_pop ms a s = Some (x, b, s') \<and> al_capacity b = 0 \<and> al_list b = al_list a \<and>
    (\<forall>n s. \<not> al_list a + 8 * n < 16 \<longrightarrow>
      al_push ms v (b\<lparr>al_len := n\<rparr>) s = Some (True, b\<lparr>al_len := n + 1\<rparr>, upd_bytes (wr64 (al_list a + 8 * n) v) s))"
proof -
  note R = al_repD [OF r]
  have l: "al_len a = 1" using R(2) by (simp add: word_unat_eq_iff)
  have "\<not> slot (al_list a) 0 < 16" using slot(2) [OF R(1), of 0] c by simp
  then have g: "get_word (al_list a) s = Some x" using R(4) [of 0] by (simp add: slot_def)
  have sd: "shift_down (al_list a) 0 0 s = Some s" by (subst shift_down.simps) simp
  have k: "krealloc ms p 8 0 s = Some (p, s)" "krealloc ms p 0 0 s = Some (p, s)" for p s
    by (simp_all add: krealloc_def MEM_CHUNK_SIZE_def align_up_def)
  let ?b = "a\<lparr>al_len := 0, al_capacity := 0\<rparr>"
  have "al_pop ms a s = Some (x, ?b, s)"
    using l c g sd k(1) by (simp add: al_pop_def al_remove_def Let_def)
  moreover have "al_push ms v (?b\<lparr>al_len := n\<rparr>) s =
      Some (True, ?b\<lparr>al_len := n + 1\<rparr>, upd_bytes (wr64 (al_list a + 8 * n) v) s)" if "\<not> al_list a + 8 * n < 16" for n s
  proof -
    have "shift_up (al_list a) n n s = Some s" by (subst shift_up.simps) simp
    then show ?thesis using R(5) that k(2) by (simp add: al_push_def al_insert_def Let_def)
  qed
  ultimately show ?thesis by (intro exI [of _ ?b] exI [of _ s]) simp
qed

section \<open>Examples\<close>

definition ex_array :: "usize \<Rightarrow> usize \<Rightarrow> array_list" where
  "ex_array len cap = \<lparr>al_len = len, al_capacity = cap, al_list = 0x2000, al_free_members = False\<rparr>"

lemma ex_array_rep: "1 \<le> unat cap \<Longrightarrow> unat cap \<le> 8 \<Longrightarrow> al_rep (wr64 0x2000 5 (\<lambda>_. 0)) (ex_array 1 cap) [5]"
  by (simp add: al_rep_def ex_array_def slots_ok_def slot_def)

theorem array_list_refines_witness:
  "al_get 0 (ex_array 1 8) (ex_mm (wr64 0x2000 5 (\<lambda>_. 0))) = Some 5"
  using array_list_refines [of "ex_mm (wr64 0x2000 5 (\<lambda>_. 0))" "ex_array 1 8" "[5]" 0] ex_array_rep [of 8] by simp

theorem capacity_decays_witness:
  "\<exists>b s'. al_pop 0x1000 (ex_array 1 1) (ex_mm (wr64 0x2000 5 (\<lambda>_. 0))) = Some (5, b, s') \<and> al_capacity b = 0"
proof -
  have r: "al_rep (pm_bytes (mm_pm (ex_mm (wr64 0x2000 5 (\<lambda>_. 0))))) (ex_array 1 1) [5]" using ex_array_rep [of 1] by simp
  have c: "al_capacity (ex_array 1 1) = 1" by (simp add: ex_array_def)
  from capacity_decays [OF r c, where ms = "0x1000"] show ?thesis by blast
qed

end
