(* ===== verification/Paging.thy ===== *)
theory Paging
  imports Array_List
begin

text \<open>
  Page tables, the paging half of \<^verbatim>\<open>src/mem/vmem.cpp\<close>: entries, the counter hidden in their
  ignored bits, mapping and unmapping. A table is 512 words of the byte memory; the tables come
  from the memory manager. \<^term>\<open>None\<close> is an access through \<open>NULL\<close> or a fault of the memory manager.
\<close>

unbundle bit_operations_syntax

type_synonym i16 = "16 word"

section \<open>Entries\<close>

definition V_PRESENT :: usize where "V_PRESENT = 1"
definition V_WRITE :: usize where "V_WRITE = push_bit 1 1"
definition V_USER :: usize where "V_USER = push_bit 2 1"
definition V_XD :: usize where "V_XD = push_bit 63 1"
definition V_ALL_PERMISSIONS :: usize where "V_ALL_PERMISSIONS = V_WRITE OR V_USER"

definition PAGE_DATA_POS :: usize where "PAGE_DATA_POS = 0xf80ffffffffff1ff"
definition PAGE_ADDR_POS :: usize where "PAGE_ADDR_POS = 0x0000fffffffff000"
definition PAGE_FLAGS_POS :: usize where "PAGE_FLAGS_POS = 0x80000000000001fe"
definition PAGE_LEVELS :: nat where "PAGE_LEVELS = 4"
definition PAGE_ENTRIES :: usize where "PAGE_ENTRIES = 512"
definition PAGE_TABLE_BITS :: nat where "PAGE_TABLE_BITS = 9"

definition page_counter_get :: "usize \<Rightarrow> usize" where
  "page_counter_get c = push_bit 3 (get_bits c 52 58) OR get_bits c 9 11"

definition page_counter_add :: "usize \<Rightarrow> i16 \<Rightarrow> usize" where
  "page_counter_add c n =
     (let temp = (push_bit 3 (get_bits c 52 58) OR get_bits c 9 11) + scast n;
          temp2 = c AND PAGE_DATA_POS
      in push_bit 52 (get_bits temp 3 9) OR push_bit 9 (get_bits temp 0 2) OR temp2)"

definition page_entry :: "ptr \<Rightarrow> u16 \<Rightarrow> mm \<Rightarrow> usize option" where
  "page_entry table i s = get_word (table + 8 * ucast i) s"

definition set_page_entry :: "ptr \<Rightarrow> u16 \<Rightarrow> usize \<Rightarrow> mm \<Rightarrow> mm option" where
  "set_page_entry table i v s = set_word (table + 8 * ucast i) v s"

definition count_page :: "ptr \<Rightarrow> i16 \<Rightarrow> mm \<Rightarrow> mm option" where
  "count_page table n s = do { c \<leftarrow> page_entry table 0 s; set_page_entry table 0 (page_counter_add c n) s }"

definition page_set :: "ptr \<Rightarrow> u16 \<Rightarrow> usize \<Rightarrow> usize \<Rightarrow> mm \<Rightarrow> (usize \<times> mm) option" where
  "page_set table i n flags s =
     (let n = n AND PAGE_ADDR_POS; flags = flags AND PAGE_FLAGS_POS
      in if i = 0 then do {
           e \<leftarrow> page_entry table i s;
           let c_value = e AND NOT PAGE_DATA_POS;
           s \<leftarrow> set_page_entry table i (n OR flags OR c_value OR V_PRESENT) s;
           Some (n, s)
         }
         else do {
           s \<leftarrow> set_page_entry table i (n OR flags OR V_PRESENT) s;
           Some (n, s)
         })"

definition page_unset :: "ptr \<Rightarrow> u16 \<Rightarrow> mm \<Rightarrow> mm option" where
  "page_unset table i s =
     (if i = 0 then do {
        e \<leftarrow> page_entry table i s;
        let c_value = e AND NOT PAGE_DATA_POS;
        set_page_entry table i (c_value AND NOT V_PRESENT) s
      }
      else set_page_entry table i 0 s)"

definition present :: "usize \<Rightarrow> bool" where "present e \<longleftrightarrow> e AND V_PRESENT \<noteq> 0"

section \<open>Mapping\<close>

lemma u16_up: "(i :: u16) < 512 \<Longrightarrow> 512 - unat (i + 1) < 512 - unat i"
proof -
  assume i: "i < 512"
  then have "unat i < 512" by (simp add: word_less_nat_alt)
  then have "unat (i + 1) = unat i + 1" by (simp add: unat_word_ariths)
  with \<open>unat i < 512\<close> show ?thesis by simp
qed

text \<open>
  The loop of \<^verbatim>\<open>map_internal_recurse\<close> at a level and an index, with the virtual address and the
  number of pages that the code passes by reference. The recursive call reads the next index
  off the address and shifts it.
\<close>

function map_loop :: "usize \<Rightarrow> usize \<Rightarrow> usize \<Rightarrow> nat \<Rightarrow> ptr \<Rightarrow> u16 \<Rightarrow> usize \<Rightarrow> usize \<Rightarrow> mm \<Rightarrow> (bool \<times> usize \<times> usize \<times> mm) option" where
  "map_loop phys_addr flags start_page_n level table i virt_addr page_n s =
     (if page_n = 0 then Some (True, virt_addr, page_n, s)
      else if \<not> i < 512 then Some (level < PAGE_LEVELS - 1, virt_addr, page_n, s)
      else if level > 0 then do {
        e \<leftarrow> page_entry table i s;
        (p, s) \<leftarrow>
          (if \<not> present e then do {
             (temp, s) \<leftarrow> mem_allocz PAGE_SIZE s;
             if temp = 0 then Some (None, s)
             else do {
               (p, s) \<leftarrow> page_set table i (temp - kernel_vma s) V_ALL_PERMISSIONS s;
               s \<leftarrow> count_page table 1 s;
               Some (Some p, s)
             }
           }
           else Some (Some (e AND PAGE_ADDR_POS), s));
        if p = None then Some (False, virt_addr, page_n, s)
        else do {
          (temp_b, virt_addr, page_n, s) \<leftarrow>
            map_loop phys_addr flags start_page_n (level - 1) (the p + kernel_vma s)
              (ucast (get_bits virt_addr 39 47)) (push_bit 9 virt_addr) page_n s;
          if \<not> temp_b then Some (False, virt_addr, page_n, s)
          else map_loop phys_addr flags start_page_n level table (i + 1) virt_addr page_n s
        }
      }
      else do {
        e \<leftarrow> page_entry table i s;
        s \<leftarrow> (if \<not> present e then count_page table 1 s else Some s);
        (_, s) \<leftarrow> page_set table i (phys_addr + PAGE_SIZE * (start_page_n - page_n) - kernel_vma s) flags s;
        map_loop phys_addr flags start_page_n level table (i + 1) virt_addr (page_n - 1) s
      })"
  by pat_completeness auto
termination
  by (relation "measures [\<lambda>(_, _, _, level, _). level, \<lambda>(_, _, _, _, _, i, _). 512 - unat i]") (auto simp: u16_up)

declare map_loop.simps [simp del]

definition map_internal_recurse ::
  "usize \<Rightarrow> usize \<Rightarrow> usize \<Rightarrow> usize \<Rightarrow> nat \<Rightarrow> ptr \<Rightarrow> usize \<Rightarrow> mm \<Rightarrow> (bool \<times> usize \<times> usize \<times> mm) option" where
  "map_internal_recurse phys_addr virt_addr start_page_n page_n page_level page_table flags s =
     (let i = ucast (get_bits virt_addr 39 47); virt_addr = push_bit 9 virt_addr
      in map_loop phys_addr flags start_page_n page_level page_table i virt_addr page_n s)"

section \<open>Unmapping\<close>

function unmap_loop :: "nat \<Rightarrow> ptr \<Rightarrow> u16 \<Rightarrow> usize \<Rightarrow> usize \<Rightarrow> mm \<Rightarrow> (bool \<times> usize \<times> usize \<times> mm) option" where
  "unmap_loop level table i virt_addr page_n s =
     (if page_n = 0 then Some (False, virt_addr, page_n, s)
      else if \<not> i < 512 then Some (False, virt_addr, page_n, s)
      else do {
        e \<leftarrow> page_entry table i s;
        (virt_addr, page_n, s) \<leftarrow>
          (if level > 0 then
             if \<not> present e then
               let page_n_sub = int_shl1 (PAGE_TABLE_BITS * level);
                   page_n = (if page_n_sub \<ge> page_n then 0 else page_n - page_n_sub)
               in Some (push_bit (PAGE_TABLE_BITS * level) virt_addr, page_n, s)
             else do {
               (b, virt_addr, page_n, s) \<leftarrow>
                 unmap_loop (level - 1) ((PAGE_ADDR_POS AND e) + kernel_vma s)
                   (ucast (get_bits virt_addr 39 47)) (push_bit 9 virt_addr) page_n s;
               if b then do {
                 e \<leftarrow> page_entry table i s;
                 s \<leftarrow> mem_free ((e AND PAGE_ADDR_POS) + kernel_vma s) s;
                 s \<leftarrow> count_page table (-1) s;
                 Some (virt_addr, page_n, s)
               }
               else Some (virt_addr, page_n, s)
             }
           else do {
             s \<leftarrow> (if present e then count_page table (-1) s else Some s);
             s \<leftarrow> page_unset table i s;
             Some (virt_addr, page_n - 1, s)
           });
        e \<leftarrow> page_entry table i s;
        if page_counter_get e = 0 then
          let page_n_sub = PAGE_ENTRIES - ucast i - 1;
              page_n = (if page_n_sub \<ge> page_n then 0 else page_n - page_n_sub)
          in Some (True, virt_addr, page_n, s)
        else unmap_loop level table (i + 1) virt_addr page_n s
      })"
  by pat_completeness auto
termination
  by (relation "measures [\<lambda>(level, _). level, \<lambda>(_, _, i, _). 512 - unat i]") (auto simp: u16_up)

declare unmap_loop.simps [simp del]

definition unmap_internal_recurse :: "usize \<Rightarrow> usize \<Rightarrow> nat \<Rightarrow> ptr \<Rightarrow> mm \<Rightarrow> (bool \<times> usize \<times> usize \<times> mm) option" where
  "unmap_internal_recurse virt_addr page_n page_level page_table s =
     (let i = ucast (get_bits virt_addr 39 47); virt_addr = push_bit 9 virt_addr
      in unmap_loop page_level page_table i virt_addr page_n s)"

definition unmap_internal :: "usize \<Rightarrow> usize \<Rightarrow> usize \<Rightarrow> mm \<Rightarrow> mm option" where
  "unmap_internal pml4_table virt_addr n s = do {
     let n = align_up n PAGE_SIZE div PAGE_SIZE;
     let virt_addr = virt_addr AND PAGE_ADDR_POS;
     (_, _, _, s) \<leftarrow> unmap_internal_recurse virt_addr n (PAGE_LEVELS - 1) pml4_table s;
     Some s
   }"

text \<open>On failure the address and the number of pages are what the recursion left of them.\<close>

definition map_internal :: "usize \<Rightarrow> usize \<Rightarrow> usize \<Rightarrow> usize \<Rightarrow> usize \<Rightarrow> mm \<Rightarrow> (bool \<times> mm) option" where
  "map_internal pml4_table phys_addr virt_addr n flags s = do {
     let n = align_up n PAGE_SIZE div PAGE_SIZE;
     let virt_addr = virt_addr AND PAGE_ADDR_POS;
     (status, virt_addr, n, s) \<leftarrow>
       map_internal_recurse phys_addr virt_addr n n (PAGE_LEVELS - 1) pml4_table flags s;
     if \<not> status then do { s \<leftarrow> unmap_internal pml4_table virt_addr n s; Some (False, s) }
     else Some (True, s)
   }"

definition translate :: "usize \<Rightarrow> usize \<Rightarrow> mm \<Rightarrow> ptr option" where
  "translate pml4_table virt_addr s = do {
     let pml4_t = (pml4_table AND PAGE_ADDR_POS) + kernel_vma s;
     let pml4_i = get_bits virt_addr 39 47;
     e \<leftarrow> get_word (pml4_t + 8 * pml4_i) s;
     if \<not> present e then Some NULL else do {
       let pdp_t = (e AND PAGE_ENTRIES) + kernel_vma s;
       let pdp_i = get_bits virt_addr 30 38;
       e \<leftarrow> get_word (pdp_t + 8 * pdp_i) s;
       if \<not> present e then Some NULL else do {
         let pd_t = (e AND PAGE_ENTRIES) + kernel_vma s;
         let pd_i = get_bits virt_addr 21 29;
         e \<leftarrow> get_word (pd_t + 8 * pd_i) s;
         if \<not> present e then Some NULL else do {
           let page_t = (e AND PAGE_ENTRIES) + kernel_vma s;
           let page_i = get_bits virt_addr 12 20;
           e \<leftarrow> get_word (page_t + 8 * page_i) s;
           if \<not> present e then Some NULL else Some ((e AND PAGE_ENTRIES) + kernel_vma s)
         }
       }
     }
   }"

section \<open>The page counter\<close>

lemma bit_get_bits:
  assumes "unat h < 63"
  shows "bit (get_bits n l h) j \<longleftrightarrow> j + unat l \<le> unat h \<and> bit n (j + unat l)"
proof -
  have h: "h \<noteq> 63" "unat (h + 1) = Suc (unat h)" using assms by (auto simp: unat_word_ariths)
  have "(push_bit (Suc (unat h)) 1 :: u64) - 1 = mask (Suc (unat h))" by (simp add: mask_eq_exp_minus_1)
  then show ?thesis using h assms
    by (auto simp: get_bits_def bit_drop_bit_eq bit_and_iff bit_mask_iff Let_def add.commute)
qed

lemma bit_page_counter_get: "bit (page_counter_get c) j \<longleftrightarrow> (j < 3 \<and> bit c (j + 9)) \<or> (3 \<le> j \<and> j < 10 \<and> bit c (j + 49))"
  by (auto simp: page_counter_get_def bit_or_iff bit_push_bit_iff bit_get_bits add.commute [of j])

lemma data_pos_hole: "j < 64 \<Longrightarrow> bit PAGE_DATA_POS j \<longleftrightarrow> j < 9 \<or> (12 \<le> j \<and> j < 52) \<or> 59 \<le> j"
proof -
  assume "j < 64"
  then have "j \<in> set [0..<64]" by simp
  moreover have "\<forall>j \<in> set [0..<64]. bit PAGE_DATA_POS j \<longleftrightarrow> j < 9 \<or> (12 \<le> j \<and> j < 52) \<or> 59 \<le> j"
    by (simp add: PAGE_DATA_POS_def upt_rec)
  ultimately show ?thesis by blast
qed

lemma bit_page_counter_add:
  assumes "j < 64"
  shows "bit (page_counter_add c n) j \<longleftrightarrow>
    (if 9 \<le> j \<and> j < 12 then bit (page_counter_get c + scast n) (j - 9)
     else if 52 \<le> j \<and> j < 59 then bit (page_counter_get c + scast n) (j - 49) else bit c j)"
proof -
  have b: "bit (page_counter_add c n) j \<longleftrightarrow>
      (52 \<le> j \<and> j < 59 \<and> bit (page_counter_get c + scast n) (j - 49)) \<or>
      (9 \<le> j \<and> j < 12 \<and> bit (page_counter_get c + scast n) (j - 9)) \<or> (bit c j \<and> bit PAGE_DATA_POS j)"
    using assms unfolding page_counter_add_def page_counter_get_def [symmetric] Let_def
    by (auto simp: bit_or_iff bit_and_iff bit_push_bit_iff bit_get_bits)
  consider "9 \<le> j" "j < 12" | "52 \<le> j" "j < 59" | "\<not> (9 \<le> j \<and> j < 12)" "\<not> (52 \<le> j \<and> j < 59)" by blast
  then show ?thesis
  proof cases
    case 3
    then have "j < 9 \<or> (12 \<le> j \<and> j < 52) \<or> 59 \<le> j" by linarith
    then show ?thesis using 3 unfolding b data_pos_hole [OF assms] by auto
  qed (simp_all add: b data_pos_hole [OF assms])
qed

lemma page_counter_add_data: "page_counter_add c n AND PAGE_DATA_POS = c AND PAGE_DATA_POS"
  by (rule bit_word_eqI) (auto simp: bit_and_iff bit_page_counter_add data_pos_hole)

lemma page_counter_get_add: "page_counter_get (page_counter_add c n) = take_bit 10 (page_counter_get c + scast n)"
  by (rule bit_word_eqI) (auto simp: bit_page_counter_get bit_page_counter_add bit_take_bit_iff)

text \<open>Which bits of an entry are the counter's.\<close>

lemma page_counter_data: "page_counter_get (c AND NOT PAGE_DATA_POS) = page_counter_get c"
  by (rule bit_word_eqI) (auto simp: bit_page_counter_get bit_and_iff bit_not_iff data_pos_hole)

text \<open>What \<open>page_set\<close> stores: the data, and in entry 0 the counter that was there.\<close>

definition set_value :: "usize \<Rightarrow> usize \<Rightarrow> usize" where
  "set_value n flags = (n AND PAGE_ADDR_POS) OR (flags AND PAGE_FLAGS_POS) OR V_PRESENT"

lemma set_value_data [simp]: "set_value n flags AND PAGE_DATA_POS = set_value n flags"
proof -
  have "PAGE_ADDR_POS AND PAGE_DATA_POS = PAGE_ADDR_POS" "PAGE_FLAGS_POS AND PAGE_DATA_POS = PAGE_FLAGS_POS" "V_PRESENT AND PAGE_DATA_POS = V_PRESENT"
    by (simp_all add: PAGE_ADDR_POS_def PAGE_FLAGS_POS_def PAGE_DATA_POS_def V_PRESENT_def)
  then show ?thesis by (simp add: set_value_def bit.conj_disj_distrib2 and.assoc)
qed

lemma keep_counter:
  "(set_value n flags OR (c AND NOT PAGE_DATA_POS)) AND PAGE_DATA_POS = set_value n flags"
  "page_counter_get (set_value n flags OR (c AND NOT PAGE_DATA_POS)) = page_counter_get c"
proof -
  have h: "bit (set_value n flags) j \<Longrightarrow> bit PAGE_DATA_POS j" for j
    using set_value_data [of n flags] by (metis bit_and_iff)
  show "(set_value n flags OR (c AND NOT PAGE_DATA_POS)) AND PAGE_DATA_POS = set_value n flags"
    by (rule bit_word_eqI) (use h in \<open>auto simp: bit_and_iff bit_or_iff bit_not_iff\<close>)
  have "\<not> bit (set_value n flags) j" if "j < 64" "\<not> bit PAGE_DATA_POS j" for j using h that by blast
  then show "page_counter_get (set_value n flags OR (c AND NOT PAGE_DATA_POS)) = page_counter_get c"
    by (intro bit_word_eqI) (auto simp: bit_page_counter_get bit_or_iff bit_and_iff bit_not_iff data_pos_hole)
qed

lemma present_data: "present (e AND PAGE_DATA_POS) = present e" "present (set_value n flags)"
proof -
  have p: "present e \<longleftrightarrow> bit e 0" for e
    by (simp add: present_def V_PRESENT_def and_one_eq bit_0 odd_iff_mod_2_eq_one)
  show "present (e AND PAGE_DATA_POS) = present e" by (simp add: p bit_and_iff data_pos_hole)
  show "present (set_value n flags)" by (simp add: p set_value_def bit_or_iff V_PRESENT_def)
qed

text \<open>
  C18: the page counter. Adding to the counter of an entry changes it modulo 1024 and nothing else of
  the entry, and a value from \<open>page_set\<close> keeps it: the address, the flags and the counter do not
  overlap.
\<close>
theorem page_counter_roundtrip:
  "page_counter_get (page_counter_add c n) = (page_counter_get c + scast n) mod 1024 \<and>
   page_counter_add c n AND PAGE_DATA_POS = c AND PAGE_DATA_POS \<and>
   page_counter_get (set_value a flags OR (c AND NOT PAGE_DATA_POS)) = page_counter_get c \<and>
   (set_value a flags OR (c AND NOT PAGE_DATA_POS)) AND PAGE_ADDR_POS = a AND PAGE_ADDR_POS"
proof (intro conjI)
  show "page_counter_get (page_counter_add c n) = (page_counter_get c + scast n) mod 1024"
    unfolding page_counter_get_add by (simp add: take_bit_eq_mod)
  have "((set_value a flags OR (c AND NOT PAGE_DATA_POS)) AND PAGE_DATA_POS) AND PAGE_ADDR_POS = set_value a flags AND PAGE_ADDR_POS"
    unfolding keep_counter(1) ..
  moreover have "PAGE_DATA_POS AND PAGE_ADDR_POS = PAGE_ADDR_POS" "PAGE_FLAGS_POS AND PAGE_ADDR_POS = 0" "V_PRESENT AND PAGE_ADDR_POS = 0"
    by (simp_all add: PAGE_ADDR_POS_def PAGE_FLAGS_POS_def PAGE_DATA_POS_def V_PRESENT_def)
  ultimately show "(set_value a flags OR (c AND NOT PAGE_DATA_POS)) AND PAGE_ADDR_POS = a AND PAGE_ADDR_POS"
    by (simp add: and.assoc) (simp add: set_value_def bit.conj_disj_distrib2 and.assoc)
qed (rule page_counter_add_data, rule keep_counter)

section \<open>Fresh tables\<close>

text \<open>Clearing the block is the same after the search for a node as inside it.\<close>

lemma first_node_map:
  "first_node (\<lambda>pm pa. do { (z, pm, pa) \<leftarrow> f pm pa; if z = NULL then Some (NULL, pm, pa) else Some (z, g z pm, pa) }) i s =
   do { (z, s) \<leftarrow> first_node f i s; if z = NULL then Some (NULL, s) else Some (z, s\<lparr>mm_pm := g z (mm_pm s)\<rparr>) }"
  (is "first_node ?F i s = _")
proof (induction f i s rule: first_node.induct)
  case (1 f i s)
  let ?F = "\<lambda>pm pa. do { (z, pm, pa) \<leftarrow> f pm pa; if z = NULL then Some (NULL, pm, pa) else Some (z, g z pm, pa) }"
  show ?case
  proof (cases "i < unat (allocator_len s)")
    case False
    then show ?thesis by (subst (1 2) first_node.simps) simp
  next
    case True
    show ?thesis
    proof (cases "f (mm_pm s) (allocators s ! i)")
      case None
      with True show ?thesis by (subst (1 2) first_node.simps) simp
    next
      case (Some r)
      obtain z pm pa where r: "r = (z, pm, pa)" by (cases r)
      show ?thesis
      proof (cases "z = NULL")
        case True
        from "1.IH" [OF \<open>i < unat (allocator_len s)\<close>] True Some r
        have "first_node ?F (i + 1) (put_node i pm pa s) = do { (z, s) \<leftarrow> first_node f (i + 1) (put_node i pm pa s);
            if z = NULL then Some (NULL, s) else Some (z, s\<lparr>mm_pm := g z (mm_pm s)\<rparr>) }" by auto
        then show ?thesis using \<open>i < unat (allocator_len s)\<close> True Some r by (subst (1 2) first_node.simps) simp
      next
        case False
        then show ?thesis using \<open>i < unat (allocator_len s)\<close> Some r by (subst (1 2) first_node.simps) (simp add: put_node_def)
      qed
    qed
  qed
qed

lemma mem_allocz_eq:
  "mem_allocz n s = do { (z, s) \<leftarrow> mem_alloc n s; if z = NULL then Some (NULL, s) else Some (z, s\<lparr>mm_pm := zero_range z n (mm_pm s)\<rparr>) }"
  unfolding mem_allocz_def mem_alloc_def pa_allocz_def by (rule first_node_map)

definition page_ok :: "usize \<Rightarrow> ptr \<Rightarrow> bool" where
  "page_ok v p \<longleftrightarrow> 16 \<le> unat p \<and> unat v \<le> unat p \<and> unat p + 4096 \<le> unat v + 2 ^ 48 \<and> unat p + 4096 \<le> 2 ^ 64 \<and> 4096 dvd unat p"

text \<open>The pages a set of tables needs from the memory manager, and the state in which it holds them.\<close>

definition holds :: "mm \<Rightarrow> ptr set \<Rightarrow> bool" where
  "holds s H \<longleftrightarrow> (\<exists>A. mm_ok s A \<and> (\<forall>p \<in> H. \<exists>i < unat (allocator_len s). \<exists>k \<ge> 12. (unat p, k) \<in> A i)) \<and>
     (\<forall>j < unat (allocator_len s). unat (kernel_vma s) \<le> lo (allocators s ! j) \<and> hi (allocators s ! j) \<le> unat (kernel_vma s) + 2 ^ 48)"

text \<open>What the page tables rely on, with a count of the pages the manager can still give.\<close>

locale page_source =
  fixes holds :: "mm \<Rightarrow> ptr set \<Rightarrow> bool" and spare :: "mm \<Rightarrow> nat \<Rightarrow> bool" and allocz :: "mm \<Rightarrow> (ptr \<times> mm) option"
  assumes page: "holds s H \<Longrightarrow> p \<in> H \<Longrightarrow> page_ok (kernel_vma s) p"
    and apart: "holds s H \<Longrightarrow> p \<in> H \<Longrightarrow> q \<in> H \<Longrightarrow> p \<noteq> q \<Longrightarrow> span p 4096 \<inter> span q 4096 = {}"
    and writes: "holds s H \<Longrightarrow> holds (upd_bytes f s) H"
    and returns: "holds s H \<Longrightarrow> \<exists>z s'. allocz s = Some (z, s')"
    and fails: "holds s H \<Longrightarrow> allocz s = Some (NULL, s') \<Longrightarrow> s' = s"
    and fresh: "holds s H \<Longrightarrow> allocz s = Some (z, s') \<Longrightarrow> z \<noteq> NULL \<Longrightarrow> z \<notin> H \<and> holds s' (insert z H) \<and>
      kernel_vma s' = kernel_vma s \<and>
      (\<forall>b. pm_bytes (mm_pm s') b = (if b \<in> span z 4096 then 0 else pm_bytes (mm_pm s) b))"
    and spare_writes: "spare s m \<Longrightarrow> spare (upd_bytes f s) m"
    and spare_takes: "spare s m \<Longrightarrow> allocz s = Some (z, s') \<Longrightarrow> (z = NULL \<longrightarrow> m = 0) \<and> spare s' (m - 1)"
begin

lemma slots: "holds s H \<Longrightarrow> p \<in> H \<Longrightarrow> slots_ok p 512"
  using page [of s H p] by (simp add: page_ok_def slots_ok_def)

lemma slot_in_page:
  assumes "holds s H" "p \<in> H" "i < 512"
  shows "span (slot p i) 8 \<subseteq> span p 4096"
proof -
  have u: "unat (slot p i) = unat p + 8 * i" using slot(1) [OF slots [OF assms(1,2)] assms(3)] .
  have b: "unat p + 4096 \<le> 2 ^ 64" using page [OF assms(1,2)] by (simp add: page_ok_def)
  show ?thesis using u b assms(3) by (auto simp: in_span_iff)
qed

lemma write_entry:
  assumes "holds s H" "p \<in> H" "q \<in> H" "i < 512" "j < 512"
  shows "rd64 (wr64 (slot p i) v m) (slot q j) = (if q = p \<and> j = i then v else rd64 m (slot q j))"
proof (cases "q = p")
  case True
  then show ?thesis using rd_slot [OF slots [OF assms(1,2)] assms(4,5)] by simp
next
  case False
  then have "span (slot q j) 8 \<inter> span (slot p i) 8 = {}"
    using slot_in_page [OF assms(1,3,5)] slot_in_page [OF assms(1,2,4)] apart [OF assms(1,3,2)] by blast
  then show ?thesis using False rd64_wr64_other by simp
qed

lemma fresh_table:
  assumes "holds s H" "allocz s = Some (z, s')" "z \<noteq> NULL" "i < 512"
  shows "rd64 (pm_bytes (mm_pm s')) (slot z i) = 0"
    "p \<in> H \<Longrightarrow> rd64 (pm_bytes (mm_pm s')) (slot p i) = rd64 (pm_bytes (mm_pm s)) (slot p i)"
proof -
  note f = fresh [OF assms(1-3)]
  then have h: "holds s' (insert z H)" and b: "\<And>b. pm_bytes (mm_pm s') b = (if b \<in> span z 4096 then 0 else pm_bytes (mm_pm s) b)" by blast+
  show "rd64 (pm_bytes (mm_pm s')) (slot z i) = 0"
    by (rule rd64_zero) (use slot_in_page [OF h _ assms(4), of z] b in auto)
  show "rd64 (pm_bytes (mm_pm s')) (slot p i) = rd64 (pm_bytes (mm_pm s)) (slot p i)" if p: "p \<in> H"
  proof (rule rd64_cong)
    fix c assume "c \<in> span (slot p i) 8"
    then have "c \<in> span p 4096" using slot_in_page [OF assms(1) p assms(4)] by blast
    moreover have "p \<noteq> z" using f p by blast
    then have "span p 4096 \<inter> span z 4096 = {}" using apart [OF h, of p z] p by simp
    ultimately show "pm_bytes (mm_pm s') c = pm_bytes (mm_pm s) c" using b by auto
  qed
qed

end

lemma held_region: "(unat (p :: ptr), k) \<in> A \<Longrightarrow> node_ok pm pa A \<Longrightarrow> 12 \<le> k \<Longrightarrow> span p 4096 \<subseteq> {c. unat c \<in> region (unat p, k)}"
proof -
  assume a: "(unat p, k) \<in> A" "node_ok pm pa A" "12 \<le> k"
  have "(2 :: nat) ^ 12 \<le> 2 ^ k" using a(3) by (intro power_increasing) auto
  moreover have "unat p + 2 ^ k \<le> 2 ^ 64" using held_meta(10) [OF a(2,1)] unat_word_bound [of "end_addr pa"] by linarith
  ultimately show ?thesis by (auto simp: in_span_iff region_def)
qed


lemma holds_page:
  assumes h: "holds s H" and p: "p \<in> H"
  shows "page_ok (kernel_vma s) p"
proof -
  from h p obtain A i k where A: "mm_ok s A" "i < unat (allocator_len s)" "12 \<le> k" "(unat p, k) \<in> A i"
    and r: "unat (kernel_vma s) \<le> lo (allocators s ! i)" "hi (allocators s ! i) \<le> unat (kernel_vma s) + 2 ^ 48"
    unfolding holds_def by blast
  have nok: "node_ok (mm_pm s) (allocators s ! i) (A i)" using A(1,2) by (rule mm_okD)
  have b: "lo (allocators s ! i) \<le> unat p" "unat p + 2 ^ k \<le> hi (allocators s ! i)" "2 ^ k dvd unat p"
    using held_in_node [OF nok A(4)] by (auto simp: block_in_def)
  have "(2 :: nat) ^ 12 dvd 2 ^ k" using A(3) by (rule le_imp_power_dvd)
  then have "2 ^ 12 dvd unat p" using b(3) by (rule dvd_trans)
  then have d: "4096 dvd unat p" by simp
  have e: "(2 :: nat) ^ 12 \<le> 2 ^ k" using A(3) by (intro power_increasing) auto
  have "0 < lo (allocators s ! i)" using nok by (auto simp: node_ok_def pa_rep_def blocks_ok_def geom_def)
  then have "4096 \<le> unat p" using b(1) d by (intro dvd_imp_le) linarith+
  then show ?thesis using b(1,2) d e r unat_word_bound [of "end_addr (allocators s ! i)"] by (simp add: page_ok_def)
qed

lemma holds_apart:
  assumes h: "holds s H" and p: "p \<in> H" and q: "q \<in> H" "p \<noteq> q"
  shows "span p 4096 \<inter> span q 4096 = {}"
proof -
  from h obtain A where A: "mm_ok s A" "\<forall>p \<in> H. \<exists>i < unat (allocator_len s). \<exists>k \<ge> 12. (unat p, k) \<in> A i" unfolding holds_def by blast
  from A(2) p q(1) obtain i k j l where
    1: "i < unat (allocator_len s)" "12 \<le> k" "(unat p, k) \<in> A i" and 2: "j < unat (allocator_len s)" "12 \<le> l" "(unat q, l) \<in> A j" by meson
  have "region (unat p, k) \<inter> region (unat q, l) = {}"
    using A(1) 1(1,3) 2(1,3) by (rule held_disjoint) (use q(2) in auto)
  then show ?thesis
    using held_region [OF 1(3) mm_okD [OF A(1) 1(1)] 1(2)] held_region [OF 2(3) mm_okD [OF A(1) 2(1)] 2(2)] by blast
qed

lemma holds_writes: "holds s H \<Longrightarrow> holds (upd_bytes f s) H"
proof -
  have "allocators (upd_bytes f s) = allocators s" "allocator_len (upd_bytes f s) = allocator_len s" "kernel_vma (upd_bytes f s) = kernel_vma s"
    by (simp_all add: upd_bytes_def)
  then show "holds s H \<Longrightarrow> holds (upd_bytes f s) H" by (simp add: holds_def)
qed

text \<open>One page from the manager, in terms of the blocks that are held.\<close>

lemma allocz_page:
  assumes A: "mm_ok s A"
  shows "if \<exists>j. fits PAGE_SIZE s A j
    then \<exists>z i s' k. mem_allocz PAGE_SIZE s = Some (z, s') \<and> z \<noteq> NULL \<and> i < unat (allocator_len s) \<and>
      k = order_bits (allocators s ! i) PAGE_SIZE \<and> 12 \<le> k \<and> mm_ok s' (A(i := insert (unat z, k) (A i))) \<and> (unat z, k) \<notin> A i \<and>
      kernel_vma s' = kernel_vma s \<and> allocator_len s' = allocator_len s \<and> (\<forall>j. same_zone (allocators s ! j) (allocators s' ! j)) \<and>
      pm_bytes (mm_pm s') = (\<lambda>b. if in_range z PAGE_SIZE (unat b) 1 then 0 else pm_bytes (mm_pm s) b)
    else mem_allocz PAGE_SIZE s = Some (NULL, s)"
proof (cases "\<exists>j. fits PAGE_SIZE s A j")
  case False
  have n: "unat PAGE_SIZE < 2 ^ 31" by (simp add: PAGE_SIZE_def)
  have "mem_alloc PAGE_SIZE s = Some (NULL, s)" using first_node_spec [OF A n, of 0] False by (simp add: mem_alloc_def)
  with False show ?thesis by (simp add: mem_allocz_eq)
next
  case True
  then have f: "\<exists>j \<ge> 0. fits PAGE_SIZE s A j" by auto
  have n: "unat PAGE_SIZE < 2 ^ 31" "unat PAGE_SIZE = 4096" by (simp_all add: PAGE_SIZE_def)
  from first_node_spec [OF A n(1), of 0, unfolded if_P [OF f]] obtain z i pm' pa' where
    1: "mem_alloc PAGE_SIZE s = Some (z, put_node i pm' pa' s)" "z \<noteq> NULL" "fits PAGE_SIZE s A i" "same_zone (allocators s ! i) pa'"
      "mm_ok (put_node i pm' pa' s) (A(i := insert (unat z, order_bits (allocators s ! i) PAGE_SIZE) (A i)))"
      "(unat z, order_bits (allocators s ! i) PAGE_SIZE) \<notin> A i" "unat PAGE_SIZE \<le> 2 ^ order_bits (allocators s ! i) PAGE_SIZE"
      "pm_bytes pm' = pm_bytes (mm_pm s)"
    by (auto simp: mem_alloc_def)
  let ?k = "order_bits (allocators s ! i) PAGE_SIZE" and ?s1 = "put_node i pm' pa' s"
  let ?A = "A(i := insert (unat z, ?k) (A i))" and ?s = "?s1\<lparr>mm_pm := zero_range z PAGE_SIZE pm'\<rparr>"
  have i: "i < unat (allocator_len s)" using 1(3) by (simp add: fits_def)
  have len: "i < length (allocators s)" using i A(1) by (simp add: mm_ok_def)
  have ok': "mm_ok ?s ?A"
    by (rule mm_ok_client [OF 1(5), where p = z and n = PAGE_SIZE and i = i and c = "unat z" and k = ?k])
      (use i 1(7) n in \<open>simp_all add: zero_range_client\<close>)
  have k: "12 \<le> ?k"
  proof (rule ccontr)
    assume "\<not> 12 \<le> ?k"
    then have "(2 :: nat) ^ ?k < 2 ^ 12" by (intro power_strict_increasing) auto
    then show False using 1(7) n(2) by simp
  qed
  have same: "same_zone (allocators s ! j) (allocators ?s ! j)" for j
    using 1(4) len by (cases "i = j") simp_all
  have "kernel_vma ?s = kernel_vma s" "allocator_len ?s = allocator_len s"
    "pm_bytes (mm_pm ?s) = (\<lambda>b. if in_range z PAGE_SIZE (unat b) 1 then 0 else pm_bytes (mm_pm s) b)"
    using 1(8) by (simp_all add: put_node_def zero_range_def fun_eq_iff)
  moreover have "mem_allocz PAGE_SIZE s = Some (z, ?s)" using 1(1,2) by (simp add: mem_allocz_eq put_node_def)
  ultimately show ?thesis unfolding if_P [OF True] using 1(2,6) i k ok' same
    by (intro exI [of _ z] exI [of _ i] exI [of _ ?s] exI [of _ ?k]) simp
qed

lemma holds_allocz:
  assumes h: "holds s H"
  shows "\<exists>z s'. mem_allocz PAGE_SIZE s = Some (z, s') \<and> (if z = NULL then s' = s else z \<notin> H \<and> holds s' (insert z H) \<and>
    kernel_vma s' = kernel_vma s \<and> (\<forall>b. pm_bytes (mm_pm s') b = (if b \<in> span z 4096 then 0 else pm_bytes (mm_pm s) b)))"
proof -
  from h obtain A where A: "mm_ok s A" "\<forall>p \<in> H. \<exists>i < unat (allocator_len s). \<exists>k \<ge> 12. (unat p, k) \<in> A i"
    and K: "\<forall>j < unat (allocator_len s). unat (kernel_vma s) \<le> lo (allocators s ! j) \<and> hi (allocators s ! j) \<le> unat (kernel_vma s) + 2 ^ 48"
    unfolding holds_def by blast
  show ?thesis
  proof (cases "\<exists>j. fits PAGE_SIZE s A j")
    case False
    from allocz_page [OF A(1), unfolded if_not_P [OF this]] show ?thesis by simp
  next
    case True
    from allocz_page [OF A(1), unfolded if_P [OF this]] obtain z i s' k where
      1: "mem_allocz PAGE_SIZE s = Some (z, s')" "z \<noteq> NULL" "i < unat (allocator_len s)" "12 \<le> k" "mm_ok s' (A(i := insert (unat z, k) (A i)))"
        "(unat z, k) \<notin> A i" "kernel_vma s' = kernel_vma s" "allocator_len s' = allocator_len s" "\<And>j. same_zone (allocators s ! j) (allocators s' ! j)"
        "pm_bytes (mm_pm s') = (\<lambda>b. if in_range z PAGE_SIZE (unat b) 1 then 0 else pm_bytes (mm_pm s) b)" by blast
    let ?A = "A(i := insert (unat z, k) (A i))"
    have held: "\<exists>i < unat (allocator_len s'). \<exists>k \<ge> 12. (unat p, k) \<in> ?A i" if "p \<in> insert z H" for p
    proof (cases "p = z")
      case True
      then show ?thesis using 1(3,4,8) by (intro exI [of _ i]) auto
    next
      case False
      with that A(2) obtain j l where "j < unat (allocator_len s)" "12 \<le> l" "(unat p, l) \<in> A j" by blast
      then show ?thesis using 1(8) by (intro exI [of _ j]) auto
    qed
    have same: "lo (allocators s' ! j) = lo (allocators s ! j)" "hi (allocators s' ! j) = hi (allocators s ! j)" for j
      using 1(9) [of j] by (simp_all add: same_zone_def)
    have h': "holds s' (insert z H)" unfolding holds_def using 1(5,7,8) held K same by (intro conjI exI [of _ ?A]) auto
    have zin: "(unat z, k) \<in> ?A i" by simp
    have "z \<notin> H"
    proof
      assume "z \<in> H"
      with A(2) obtain j l where j: "j < unat (allocator_len s)" "(unat z, l) \<in> A j" by blast
      have "region (unat z, l) \<inter> region (unat z, k) = {}"
        by (rule held_disjoint [OF 1(5) _ _ _ zin, of j]) (use j 1(3,6,8) in auto)
      moreover have "unat z \<in> region (unat z, l)" "unat z \<in> region (unat z, k)" by (simp_all add: region_def)
      ultimately show False by blast
    qed
    moreover have "pm_bytes (mm_pm s') b = (if b \<in> span z 4096 then 0 else pm_bytes (mm_pm s) b)" for b
    proof -
      have "unat z + 4096 \<le> 2 ^ 64" using holds_page [OF h', of z] by (simp add: page_ok_def)
      then show ?thesis using 1(10) by (auto simp: in_range_def in_span_iff PAGE_SIZE_def)
    qed
    ultimately show ?thesis using 1(1,2,7) h' by (intro exI [of _ z] exI [of _ s']) simp
  qed
qed

section \<open>Pages left\<close>

text \<open>
  The pages a node and the manager can still hand out when the blocks of \<open>A\<close> are held: the bytes
  that no block covers, in units of the node's smallest block, which is at least a page.
\<close>

definition pages_free :: "pallocator \<Rightarrow> block set \<Rightarrow> nat" where
  "pages_free pa A = (hi pa - lo pa - (\<Sum>q \<in> A. 2 ^ snd q)) div 2 ^ bits pa"

definition pages_left :: "mm \<Rightarrow> (nat \<Rightarrow> block set) \<Rightarrow> nat" where
  "pages_left s A = (\<Sum>i < unat (allocator_len s). pages_free (allocators s ! i) (A i))"

definition spare :: "mm \<Rightarrow> nat \<Rightarrow> bool" where
  "spare s m \<longleftrightarrow> (\<exists>A. mm_ok s A \<and> m \<le> pages_left s A)"

lemma tiling_size:
  assumes t: "tiling s e B"
  shows "finite B" "(\<Sum>q \<in> B. 2 ^ snd q) = e - s"
proof -
  have r: "region q \<subseteq> {s ..< e}" if "q \<in> B" for q using tiling_in [OF t that] by (auto simp: region_def block_in_def)
  have self: "fst q \<in> region q" for q by (simp add: region_def)
  have "inj_on fst B"
  proof (rule inj_onI)
    fix p q assume "p \<in> B" "q \<in> B" "fst p = fst q"
    then show "p = q" using tiling_unique [OF t, of p q "fst p"] self [of p] self [of q] by simp
  qed
  moreover have "fst ` B \<subseteq> {s ..< e}" using r self by blast
  ultimately show fin: "finite B" using finite_subset inj_on_finite by blast
  have "(\<Union>q \<in> B. region q) = {s ..< e}" using r t by (auto simp: tiling_def)
  moreover have "card (\<Union>q \<in> B. region q) = (\<Sum>q \<in> B. card (region q))"
    by (rule card_UN_disjoint) (use fin t in \<open>auto simp: region_def tiling_def\<close>)
  ultimately show "(\<Sum>q \<in> B. 2 ^ snd q) = e - s" by (simp add: region_def)
qed

lemma page_order:
  assumes "12 \<le> bits pa"
  shows "get_order pa PAGE_SIZE = 0" "order_bits pa PAGE_SIZE = bits pa"
proof -
  have l: "unat (log2_up 4096) = 12"
  proof -
    have "unat (log2_up (4096 :: usize)) \<le> 12 \<and> 12 \<le> unat (log2_up (4096 :: usize))"
    proof (intro conjI)
      show "unat (log2_up (4096 :: usize)) \<le> 12"
      proof (rule ccontr)
        assume a: "\<not> ?thesis"
        have "2 ^ (unat (log2_up (4096 :: usize)) - 1) < unat (4096 :: usize)" by (rule unat_log2_up(2)) (use a in simp_all)
        moreover have "(2 :: nat) ^ 12 \<le> 2 ^ (unat (log2_up (4096 :: usize)) - 1)" using a by (intro power_increasing) auto
        ultimately show False by simp
      qed
      show "12 \<le> unat (log2_up (4096 :: usize))"
      proof (rule ccontr)
        assume a: "\<not> ?thesis"
        have "unat (4096 :: usize) \<le> 2 ^ unat (log2_up (4096 :: usize))" by (rule unat_log2_up(1)) simp_all
        moreover have "(2 :: nat) ^ unat (log2_up (4096 :: usize)) < 2 ^ 12" using a by (intro power_strict_increasing) auto
        ultimately show False by simp
      qed
    qed
    then show ?thesis by simp
  qed
  show "get_order pa PAGE_SIZE = 0"
  proof (cases "bits pa = 12")
    case True
    then have "fo_bits pa = log2_up 4096" using l by (simp only: word_unat_eq_iff)
    then show ?thesis by (simp add: get_order_def PAGE_SIZE_def Let_def)
  next
    case False
    then show ?thesis using assms l by (simp add: get_order_def PAGE_SIZE_def Let_def word_le_nat_alt)
  qed
  then show "order_bits pa PAGE_SIZE = bits pa" by (simp add: order_bits_def)
qed

lemma node_page:
  assumes "node_ok pm pa A"
  shows "12 \<le> bits pa" "finite A" "0 < pages_free pa A \<Longrightarrow> room pa A 0"
proof -
  from assms obtain xss where r: "blocks_ok pm pa xss A" by (auto simp: node_ok_def pa_rep_def)
  let ?F = "free_of (bits pa) xss"
  have t: "tiling (lo pa) (hi pa) (?F \<union> A)" and d: "?F \<inter> A = {}" and g: "geom pa" using r by (simp_all add: blocks_ok_def)
  show "12 \<le> bits pa" using g by (simp add: geom_def)
  note z = tiling_size [OF t]
  show A: "finite A" using z(1) by simp
  have F: "finite ?F" using z(1) by simp
  show "room pa A 0" if p: "0 < pages_free pa A"
  proof -
    have "(\<Sum>q \<in> ?F. 2 ^ snd q) + (\<Sum>q \<in> A. 2 ^ snd q) = hi pa - lo pa" using z(2) sum.union_disjoint [OF F A d, of "\<lambda>q. (2 :: nat) ^ snd q"] by linarith
    moreover have "0 < hi pa - lo pa - (\<Sum>q \<in> A. 2 ^ snd q)" by (rule ccontr) (use p in \<open>simp add: pages_free_def\<close>)
    ultimately have "(\<Sum>q \<in> ?F. 2 ^ snd q) \<noteq> (0 :: nat)" by linarith
    then obtain c k where q: "(c, k) \<in> ?F" by (metis all_not_in_conv sum.empty surj_pair)
    then have k: "bits pa \<le> k" by (auto simp: free_of_def)
    have b: "block_in (lo pa) (hi pa) (c, k)" using tiling_in [OF t] q by blast
    have "(2 :: nat) ^ bits pa dvd 2 ^ k" "(2 :: nat) ^ bits pa \<le> 2 ^ k" using k by (simp_all add: le_imp_power_dvd)
    moreover have "(2 :: nat) ^ k dvd c" "lo pa \<le> c" "c + 2 ^ k \<le> hi pa" using b by (simp_all add: block_in_def)
    ultimately have "(2 :: nat) ^ bits pa dvd c" "lo pa \<le> c" "c + 2 ^ bits pa \<le> hi pa" by (blast intro: dvd_trans, linarith+)
    then have "block_in (lo pa) (hi pa) (c, bits pa)" by (simp add: block_in_def)
    moreover have "region q \<inter> region (c, bits pa) = {}" if "q \<in> A" for q
    proof -
      have "q \<noteq> (c, k)" using that q d by blast
      moreover have "q \<in> ?F \<union> A" "(c, k) \<in> ?F \<union> A" using that q by blast+
      ultimately have "region q \<inter> region (c, k) = {}" using t unfolding tiling_def by blast
      then show ?thesis using region_mono [OF k, of c] by blast
    qed
    ultimately show ?thesis unfolding room_def by (intro exI [of _ c]) simp
  qed
qed

lemma pages_free_insert:
  assumes "finite A" "(c, bits pa) \<notin> A"
  shows "pages_free pa A \<le> pages_free pa (insert (c, bits pa) A) + 1"
proof -
  let ?x = "hi pa - lo pa - (\<Sum>q \<in> A. 2 ^ snd q)" and ?b = "(2 :: nat) ^ bits pa"
  have "pages_free pa (insert (c, bits pa) A) = (?x - ?b) div ?b" using assms by (simp add: pages_free_def ac_simps)
  moreover have "?x div ?b \<le> (?x - ?b) div ?b + 1"
  proof (cases "?b \<le> ?x")
    case True
    then show ?thesis by (subst le_div_geq) simp_all
  qed simp
  ultimately show ?thesis by (simp add: pages_free_def)
qed

lemma spare_writes: "spare s m \<Longrightarrow> spare (upd_bytes f s) m"
proof -
  have "allocators (upd_bytes f s) = allocators s" "allocator_len (upd_bytes f s) = allocator_len s" by (simp_all add: upd_bytes_def)
  then show "spare s m \<Longrightarrow> spare (upd_bytes f s) m" by (simp add: spare_def pages_left_def)
qed

lemma spare_takes:
  assumes "spare s m" "mem_allocz PAGE_SIZE s = Some (z, s')"
  shows "z = NULL \<Longrightarrow> m = 0" "spare s' (m - 1)"
proof -
  from assms(1) obtain A where A: "mm_ok s A" "m \<le> pages_left s A" unfolding spare_def by blast
  have "(z = NULL \<longrightarrow> m = 0) \<and> spare s' (m - 1)"
  proof (cases "\<exists>j. fits PAGE_SIZE s A j")
    case False
    have "pages_free (allocators s ! i) (A i) = 0" if "i < unat (allocator_len s)" for i
    proof -
      note np = node_page [OF mm_okD [OF A(1) that]]
      have "\<not> fits PAGE_SIZE s A i" using False by blast
      then have "\<not> room (allocators s ! i) (A i) 0" using that page_order(1) [OF np(1)] by (simp add: fits_def PAGE_SIZE_def)
      then show ?thesis using np(3) by auto
    qed
    then have "m = 0" using A(2) by (simp add: pages_left_def)
    moreover have "s' = s" using allocz_page [OF A(1), unfolded if_not_P [OF False]] assms(2) by simp
    ultimately show ?thesis using assms(1) by simp
  next
    case True
    from allocz_page [OF A(1), unfolded if_P [OF this]] assms(2) obtain i k where
      1: "z \<noteq> NULL" "i < unat (allocator_len s)" "k = order_bits (allocators s ! i) PAGE_SIZE" "mm_ok s' (A(i := insert (unat z, k) (A i)))"
        "(unat z, k) \<notin> A i" "allocator_len s' = allocator_len s" "\<And>j. same_zone (allocators s ! j) (allocators s' ! j)" by auto
    let ?A = "A(i := insert (unat z, k) (A i))" and ?I = "{..< unat (allocator_len s)}"
    note np = node_page [OF mm_okD [OF A(1) 1(2)]]
    have k: "k = bits (allocators s ! i)" using 1(3) page_order(2) [OF np(1)] by simp
    have same: "pages_free (allocators s' ! j) X = pages_free (allocators s ! j) X" for j X
      using 1(7) [of j] by (simp add: same_zone_def pages_free_def)
    have i: "i \<in> ?I" using 1(2) by simp
    have "pages_left s A = pages_free (allocators s ! i) (A i) + (\<Sum>j \<in> ?I - {i}. pages_free (allocators s ! j) (A j))"
      unfolding pages_left_def by (rule sum.remove) (use i in simp_all)
    moreover have "pages_left s' ?A = pages_free (allocators s ! i) (insert (unat z, k) (A i)) + (\<Sum>j \<in> ?I - {i}. pages_free (allocators s ! j) (A j))"
      unfolding pages_left_def 1(6) same by (subst sum.remove [OF _ i]) simp_all
    ultimately have "m - 1 \<le> pages_left s' ?A" using A(2) pages_free_insert [OF np(2)] 1(5) unfolding k by fastforce
    then show ?thesis using 1(1,4) unfolding spare_def by blast
  qed
  then show "z = NULL \<Longrightarrow> m = 0" "spare s' (m - 1)" by simp_all
qed

interpretation pages: page_source holds spare "mem_allocz PAGE_SIZE"
proof
  fix s H p q and f and z s' and m
  show "holds s H \<Longrightarrow> p \<in> H \<Longrightarrow> page_ok (kernel_vma s) p" by (rule holds_page)
  show "holds s H \<Longrightarrow> p \<in> H \<Longrightarrow> q \<in> H \<Longrightarrow> p \<noteq> q \<Longrightarrow> span p 4096 \<inter> span q 4096 = {}" by (rule holds_apart)
  show "holds s H \<Longrightarrow> holds (upd_bytes f s) H" by (rule holds_writes)
  show "holds s H \<Longrightarrow> \<exists>z s'. mem_allocz PAGE_SIZE s = Some (z, s')" using holds_allocz by blast
  show "holds s H \<Longrightarrow> mem_allocz PAGE_SIZE s = Some (NULL, s') \<Longrightarrow> s' = s" using holds_allocz [of s H] by auto
  show "holds s H \<Longrightarrow> mem_allocz PAGE_SIZE s = Some (z, s') \<Longrightarrow> z \<noteq> NULL \<Longrightarrow> z \<notin> H \<and> holds s' (insert z H) \<and>
      kernel_vma s' = kernel_vma s \<and> (\<forall>b. pm_bytes (mm_pm s') b = (if b \<in> span z 4096 then 0 else pm_bytes (mm_pm s) b))"
    using holds_allocz [of s H] by auto
  show "spare s m \<Longrightarrow> spare (upd_bytes f s) m" by (rule spare_writes)
  show "spare s m \<Longrightarrow> mem_allocz PAGE_SIZE s = Some (z, s') \<Longrightarrow> (z = NULL \<longrightarrow> m = 0) \<and> spare s' (m - 1)"
    using spare_takes by blast
qed

text \<open>
  \<open>translate\<close> cannot return a frame. It masks the entries with the number of entries, 512, where
  the address mask is meant, so of every entry one bit of the page counter is left: for every
  memory and address it faults or returns \<open>NULL\<close> or one of two addresses at the start of the kernel.
\<close>
theorem translate_no_frame:
  "translate pml4 va s \<in> {None, Some NULL, Some (kernel_vma s), Some (kernel_vma s + 0x200)}"
proof -
  have "e AND PAGE_ENTRIES = 0 \<or> e AND PAGE_ENTRIES = 0x200" for e :: usize
  proof -
    have P: "PAGE_ENTRIES = push_bit 9 1" by (simp add: PAGE_ENTRIES_def)
    have b: "bit PAGE_ENTRIES n \<longleftrightarrow> n = 9" for n unfolding P bit_push_bit_iff bit_1_iff by auto
    have "e AND PAGE_ENTRIES = (if bit e 9 then PAGE_ENTRIES else 0)"
      by (rule bit_word_eqI) (auto simp: bit_and_iff b)
    then show ?thesis by (simp add: PAGE_ENTRIES_def)
  qed
  then have *: "(e AND PAGE_ENTRIES) + kernel_vma s \<in> {kernel_vma s, kernel_vma s + 0x200}" for e
    by (metis add.commute add.right_neutral insertCI)
  show ?thesis
  proof (cases "translate pml4 va s")
    case (Some r)
    then have "r = NULL \<or> (\<exists>e. r = (e AND PAGE_ENTRIES) + kernel_vma s)"
      by (auto simp: translate_def Let_def bind_eq_Some_conv split: if_splits)
    then have "r = NULL \<or> r \<in> {kernel_vma s, kernel_vma s + 0x200}" using * by fast
    with Some show ?thesis by auto
  qed simp
qed

end
