(* ===== verification/Page_Map.thy ===== *)
theory Page_Map
  imports Paging
begin

text \<open>
  What \<open>map_internal\<close> makes of the translation. The tables of an address space are a tree of pages
  of the memory manager (\<open>tree\<close>, \<open>tables\<close>), a processor reads them as \<open>walk_table\<close> does, and one run of
  the loop over a table either fills the table, or maps all pages, or stops with the memory
  manager empty (\<open>map_run\<close>, by induction on the level and on the entries left in the table).
\<close>

unbundle bit_operations_syntax

section \<open>Trees of tables\<close>

text \<open>
  The data of an entry without the counter, the table it leads to, the translation a processor
  finds, and the tables below a table. The page numbers of a table at level \<open>l\<close> count the pages
  it covers; at the root only the entries below \<open>e\<close> are looked at.
\<close>

definition entry :: "bytes \<Rightarrow> ptr \<Rightarrow> nat \<Rightarrow> usize" where
  "entry m p i = rd64 m (slot p i) AND PAGE_DATA_POS"

definition child :: "usize \<Rightarrow> usize \<Rightarrow> ptr" where
  "child v e = (e AND PAGE_ADDR_POS) + v"

fun walk_table :: "bytes \<Rightarrow> usize \<Rightarrow> nat \<Rightarrow> ptr \<Rightarrow> nat \<Rightarrow> usize option" where
  "walk_table m v 0 p k = (if present (entry m p k) then Some (entry m p k) else None)"
| "walk_table m v (Suc l) p k =
     (let e = entry m p (k div 512 ^ Suc l)
      in if present e then walk_table m v l (child v e) (k mod 512 ^ Suc l) else None)"

fun tables :: "bytes \<Rightarrow> usize \<Rightarrow> nat \<Rightarrow> nat \<Rightarrow> ptr \<Rightarrow> ptr set" where
  "tables m v 0 e p = {p}"
| "tables m v (Suc l) e p =
     insert p (\<Union>i \<in> {i. i < e \<and> present (entry m p i)}. tables m v l 512 (child v (entry m p i)))"

fun tree :: "bytes \<Rightarrow> usize \<Rightarrow> nat \<Rightarrow> nat \<Rightarrow> ptr \<Rightarrow> bool" where
  "tree m v 0 e p \<longleftrightarrow> True"
| "tree m v (Suc l) e p \<longleftrightarrow>
     (\<forall>i < e. present (entry m p i) \<longrightarrow>
        tree m v l 512 (child v (entry m p i)) \<and> p \<notin> tables m v l 512 (child v (entry m p i))) \<and>
     (\<forall>i < e. \<forall>j < e. i \<noteq> j \<longrightarrow> present (entry m p i) \<longrightarrow> present (entry m p j) \<longrightarrow>
        tables m v l 512 (child v (entry m p i)) \<inter> tables m v l 512 (child v (entry m p j)) = {})"

lemma tables_cong:
  assumes "\<And>q i. q \<in> tables m v l e p \<Longrightarrow> i < 512 \<Longrightarrow> entry m' q i = entry m q i" "e \<le> 512"
  shows "tables m' v l e p = tables m v l e p"
  using assms
proof (induction m v l e p rule: tables.induct)
  case (2 m v l e p)
  have en: "entry m' p i = entry m p i" if "i < e" for i using 2(2) [of p i] 2(3) that by simp
  have "tables m' v l 512 (child v (entry m p i)) = tables m v l 512 (child v (entry m p i))"
    if "i < e" "present (entry m p i)" for i
    by (rule 2(1)) (use that 2(2) in auto)
  with en show ?case by auto
qed simp

lemma tree_cong:
  assumes "\<And>q i. q \<in> tables m v l e p \<Longrightarrow> i < 512 \<Longrightarrow> entry m' q i = entry m q i" "e \<le> 512"
  shows "tree m' v l e p = tree m v l e p"
  using assms
proof (induction m v l e p rule: tree.induct)
  case (2 m v l e p)
  have en: "entry m' p i = entry m p i" if "i < e" for i using 2(2) [of p i] 2(3) that by simp
  have t: "tables m' v l 512 (child v (entry m p i)) = tables m v l 512 (child v (entry m p i))"
    if "i < e" "present (entry m p i)" for i
    by (rule tables_cong) (use that 2(2) in auto)
  have "tree m' v l 512 (child v (entry m p i)) = tree m v l 512 (child v (entry m p i))"
    if "i < e" "present (entry m p i)" for i
    by (rule 2(1)) (use that 2(2) in auto)
  with en t show ?case by auto
qed simp

lemma walk_cong:
  assumes "\<And>q i. q \<in> tables m v l e p \<Longrightarrow> i < 512 \<Longrightarrow> entry m' q i = entry m q i" "k < e * 512 ^ l" "e \<le> 512"
  shows "walk_table m' v l p k = walk_table m v l p k"
  using assms
proof (induction m v l p k arbitrary: e rule: walk_table.induct)
  case (1 m v p k)
  then show ?case by simp
next
  case (2 m v l p k)
  let ?i = "k div 512 ^ Suc l"
  have i: "?i < e" using 2(3) by (intro less_mult_imp_div_less)
  then have en: "entry m' p ?i = entry m p ?i" using 2(2) [of p ?i] 2(4) by simp
  show ?case
  proof (cases "present (entry m p ?i)")
    case True
    have "walk_table m' v l (child v (entry m p ?i)) (k mod 512 ^ Suc l) = walk_table m v l (child v (entry m p ?i)) (k mod 512 ^ Suc l)"
      by (rule 2(1) [OF refl True, of 512]) (use 2(2) i True in auto)
    with en show ?thesis by (simp add: Let_def del: power_Suc)
  qed (use en in \<open>simp add: Let_def del: power_Suc\<close>)
qed

text \<open>How the tree below a table may grow.\<close>

definition grown :: "bytes \<Rightarrow> ptr set \<Rightarrow> bytes \<Rightarrow> ptr set \<Rightarrow> usize \<Rightarrow> nat \<Rightarrow> nat \<Rightarrow> ptr \<Rightarrow> bool" where
  "grown m H m' H' v l e p \<longleftrightarrow> H \<subseteq> H' \<and> tree m' v l e p \<and> tables m' v l e p \<subseteq> H' \<and>
     tables m' v l e p \<inter> H \<subseteq> tables m v l e p \<and> (\<forall>q \<in> H - tables m v l e p. \<forall>j < 512. entry m' q j = entry m q j)"

lemma grown_refl: "tree m v l e p \<Longrightarrow> tables m v l e p \<subseteq> H \<Longrightarrow> grown m H m H v l e p"
  by (auto simp: grown_def)

lemma grown_trans:
  assumes 1: "grown m H m1 H1 v l e p" and 2: "grown m1 H1 m2 H2 v l e p"
  shows "grown m H m2 H2 v l e p"
proof -
  have a: "H \<subseteq> H1" "tables m1 v l e p \<inter> H \<subseteq> tables m v l e p" "\<And>q j. q \<in> H \<Longrightarrow> q \<notin> tables m v l e p \<Longrightarrow> j < 512 \<Longrightarrow> entry m1 q j = entry m q j"
    using 1 unfolding grown_def by blast+
  have b: "H1 \<subseteq> H2" "tree m2 v l e p" "tables m2 v l e p \<subseteq> H2" "tables m2 v l e p \<inter> H1 \<subseteq> tables m1 v l e p"
    "\<And>q j. q \<in> H1 \<Longrightarrow> q \<notin> tables m1 v l e p \<Longrightarrow> j < 512 \<Longrightarrow> entry m2 q j = entry m1 q j"
    using 2 unfolding grown_def by blast+
  have "entry m2 q j = entry m q j" if "q \<in> H" "q \<notin> tables m v l e p" "j < 512" for q j
    using a(1,2) that a(3) [OF that] b(5) [of q j] by auto
  then show ?thesis unfolding grown_def using a(1,2) b(1-4) by blast
qed

lemma self_in_tables: "p \<in> tables m v l e p" by (cases l) auto

lemma grown_child:
  assumes t: "tree m v (Suc l) e p" and H: "tables m v (Suc l) e p \<subseteq> H" and e: "e \<le> 512"
    and i: "i < e" "present (entry m p i)" and g: "grown m H m' H' v l 512 (child v (entry m p i))"
  shows "grown m H m' H' v (Suc l) e p"
    "k < e * 512 ^ Suc l \<Longrightarrow> walk_table m' v (Suc l) p k =
      (if k div 512 ^ Suc l = i then walk_table m' v l (child v (entry m p i)) (k mod 512 ^ Suc l) else walk_table m v (Suc l) p k)"
proof -
  let ?c = "\<lambda>j. child v (entry m p j)"
  have T: "\<And>j. j < e \<Longrightarrow> present (entry m p j) \<Longrightarrow> tree m v l 512 (?c j) \<and> p \<notin> tables m v l 512 (?c j)"
    "\<And>j k. j < e \<Longrightarrow> k < e \<Longrightarrow> j \<noteq> k \<Longrightarrow> present (entry m p j) \<Longrightarrow> present (entry m p k) \<Longrightarrow>
      tables m v l 512 (?c j) \<inter> tables m v l 512 (?c k) = {}"
    using t by (simp_all del: One_nat_def)
  have Hj: "tables m v l 512 (?c j) \<subseteq> H" if "j < e" "present (entry m p j)" for j using H that by auto
  have pH: "p \<in> H" using H by auto
  have G: "H \<subseteq> H'" "tree m' v l 512 (?c i)" "tables m' v l 512 (?c i) \<subseteq> H'" "tables m' v l 512 (?c i) \<inter> H \<subseteq> tables m v l 512 (?c i)"
    "\<And>q j. q \<in> H \<Longrightarrow> q \<notin> tables m v l 512 (?c i) \<Longrightarrow> j < 512 \<Longrightarrow> entry m' q j = entry m q j"
    using g unfolding grown_def by blast+
  have ep: "entry m' p j = entry m p j" if "j < 512" for j using G(5) [OF pH] T(1) [OF i] that by blast
  have same: "entry m' q k = entry m q k" if "j < e" "present (entry m p j)" "j \<noteq> i" "q \<in> tables m v l 512 (?c j)" "k < 512" for j q k
    using G(5) [of q k] Hj [OF that(1,2)] T(2) [OF that(1) i(1) that(3,2) i(2)] that(4,5) by blast
  have tj: "tables m' v l 512 (?c j) = tables m v l 512 (?c j)" "tree m' v l 512 (?c j) = tree m v l 512 (?c j)"
    if "j < e" "present (entry m p j)" "j \<noteq> i" for j
    using tables_cong [of m v l 512 "?c j" m'] tree_cong [of m v l 512 "?c j" m'] same [OF that] by blast+
  have en: "entry m' p j = entry m p j" if "j < e" for j using ep e that by simp
  have tree': "tree m' v (Suc l) e p"
  proof -
    have "tree m' v l 512 (?c j) \<and> p \<notin> tables m' v l 512 (?c j)" if "j < e" "present (entry m p j)" for j
    proof (cases "j = i")
      case True
      then show ?thesis using G(2,4) T(1) [OF i] pH by blast
    next
      case False
      then show ?thesis using tj [OF that False] T(1) [OF that] by simp
    qed
    moreover have "tables m' v l 512 (?c j) \<inter> tables m' v l 512 (?c k) = {}"
      if jk: "j < e" "k < e" "j \<noteq> k" "present (entry m p j)" "present (entry m p k)" for j k
    proof -
      have *: "tables m' v l 512 (?c i) \<inter> tables m' v l 512 (?c n) = {}" if n: "n < e" "present (entry m p n)" "n \<noteq> i" for n
        using G(4) T(2) [OF n(1) i(1) n(3,2) i(2)] Hj [OF n(1,2)] tj(1) [OF n] by blast
      show ?thesis
        using *[of j] *[of k] tj(1) [of j] tj(1) [of k] T(2) [OF jk] jk by (cases "j = i"; cases "k = i") auto
    qed
    ultimately show ?thesis using en by auto
  qed
  moreover have tb: "tables m' v (Suc l) e p \<subseteq> insert p (tables m' v l 512 (?c i) \<union> (\<Union>j \<in> {j. j < e \<and> present (entry m p j) \<and> j \<noteq> i}. tables m v l 512 (?c j)))"
  proof
    fix x assume "x \<in> tables m' v (Suc l) e p"
    then consider "x = p" | j where "j < e" "present (entry m p j)" "x \<in> tables m' v l 512 (?c j)" using en by auto
    then show "x \<in> insert p (tables m' v l 512 (?c i) \<union> (\<Union>j \<in> {j. j < e \<and> present (entry m p j) \<and> j \<noteq> i}. tables m v l 512 (?c j)))"
    proof cases
      case 2
      then show ?thesis using tj(1) [OF 2(1,2)] by (cases "j = i") auto
    qed simp
  qed
  have "tables m' v (Suc l) e p \<subseteq> H'" using tb G(1,3) pH Hj by blast
  moreover have "tables m' v (Suc l) e p \<inter> H \<subseteq> tables m v (Suc l) e p"
  proof
    fix x assume x: "x \<in> tables m' v (Suc l) e p \<inter> H"
    have "tables m v l 512 (?c j) \<subseteq> tables m v (Suc l) e p" if "j < e" "present (entry m p j)" for j using that by auto
    then show "x \<in> tables m v (Suc l) e p" using x tb G(4) i self_in_tables [of p m v "Suc l" e] by blast
  qed
  moreover have "tables m v l 512 (?c i) \<subseteq> tables m v (Suc l) e p" using i by auto
  then have "\<forall>q \<in> H - tables m v (Suc l) e p. \<forall>j < 512. entry m' q j = entry m q j" using G(5) by blast
  ultimately show "grown m H m' H' v (Suc l) e p" unfolding grown_def using G(1) by blast
  show "walk_table m' v (Suc l) p k =
      (if k div 512 ^ Suc l = i then walk_table m' v l (child v (entry m p i)) (k mod 512 ^ Suc l) else walk_table m v (Suc l) p k)"
    if k: "k < e * 512 ^ Suc l"
  proof (cases "k div 512 ^ Suc l = i")
    case True
    with en [OF i(1)] i(2) show ?thesis by (simp add: Let_def del: power_Suc)
  next
    case False
    let ?j = "k div 512 ^ Suc l"
    have j: "?j < e" using k by (intro less_mult_imp_div_less)
    show ?thesis
    proof (cases "present (entry m p ?j)")
      case True
      have "walk_table m' v l (?c ?j) (k mod 512 ^ Suc l) = walk_table m v l (?c ?j) (k mod 512 ^ Suc l)"
        by (rule walk_cong [of m v l 512]) (use same [OF j True False] in auto)
      with False en [OF j] show ?thesis by (simp add: Let_def del: power_Suc)
    qed (use False en [OF j] in \<open>simp add: Let_def del: power_Suc\<close>)
  qed
qed

lemma grown_fresh:
  assumes t: "tree m v (Suc l) e p" and H: "tables m v (Suc l) e p \<subseteq> H" and e: "e \<le> 512" and i: "i < e" "\<not> present (entry m p i)"
    and z: "z \<notin> H" "\<And>j. j < 512 \<Longrightarrow> entry m' z j = 0" and ei: "present (entry m' p i)" "child v (entry m' p i) = z"
    and same: "\<And>q j. q \<in> H \<Longrightarrow> j < 512 \<Longrightarrow> \<not> (q = p \<and> j = i) \<Longrightarrow> entry m' q j = entry m q j"
  shows "grown m H m' (insert z H) v (Suc l) e p"
    "k < e * 512 ^ Suc l \<Longrightarrow> walk_table m' v (Suc l) p k = walk_table m v (Suc l) p k"
    "tables m' v l 512 z = {z}" "tree m' v l 512 z"
proof -
  let ?c = "\<lambda>j. child v (entry m p j)"
  have np: "\<not> present 0" by (simp add: present_def)
  show tz: "tables m' v l 512 z = {z}" using z(2) np by (cases l) auto
  show trz: "tree m' v l 512 z" using z(2) np by (cases l) auto
  have pH: "p \<in> H" using H by auto
  have en: "entry m' p j = entry m p j" if "j < e" "j \<noteq> i" for j using same [OF pH] that e by simp
  have T: "\<And>j. j < e \<Longrightarrow> present (entry m p j) \<Longrightarrow> tree m v l 512 (?c j) \<and> p \<notin> tables m v l 512 (?c j)"
    "\<And>j k. j < e \<Longrightarrow> k < e \<Longrightarrow> j \<noteq> k \<Longrightarrow> present (entry m p j) \<Longrightarrow> present (entry m p k) \<Longrightarrow>
      tables m v l 512 (?c j) \<inter> tables m v l 512 (?c k) = {}"
    using t by (simp_all del: One_nat_def)
  have Hj: "tables m v l 512 (?c j) \<subseteq> H" if "j < e" "present (entry m p j)" for j using H that by auto
  have sj: "entry m' q k = entry m q k" if "j < e" "present (entry m p j)" "q \<in> tables m v l 512 (?c j)" "k < 512" for j q k
    using same [of q k] Hj [OF that(1,2)] T(1) [OF that(1,2)] that(3,4) by blast
  have tj: "tables m' v l 512 (?c j) = tables m v l 512 (?c j)" "tree m' v l 512 (?c j) = tree m v l 512 (?c j)"
    if "j < e" "present (entry m p j)" for j
    using tables_cong [of m v l 512 "?c j" m'] tree_cong [of m v l 512 "?c j" m'] sj [OF that] by blast+
  have tb: "tables m' v (Suc l) e p = insert z (tables m v (Suc l) e p)"
  proof -
    have "(\<Union>j \<in> {j. j < e \<and> present (entry m' p j)}. tables m' v l 512 (child v (entry m' p j))) =
        insert z (\<Union>j \<in> {j. j < e \<and> present (entry m p j)}. tables m v l 512 (?c j))"
    proof -
      have "{j. j < e \<and> present (entry m' p j)} = insert i {j. j < e \<and> present (entry m p j)}" 
      proof (rule set_eqI)
        fix j show "j \<in> {j. j < e \<and> present (entry m' p j)} \<longleftrightarrow> j \<in> insert i {j. j < e \<and> present (entry m p j)}"
          using en [of j] ei(1) i by (cases "j = i") auto
      qed
      moreover have "tables m' v l 512 (child v (entry m' p j)) = tables m v l 512 (?c j)" if "j < e" "present (entry m p j)" for j
        using en [OF that(1)] tj(1) [OF that] i(2) that(2) by (cases "j = i") auto
      ultimately show ?thesis using tz ei(2) by auto
    qed
    then show ?thesis by auto
  qed
  have "tree m' v (Suc l) e p"
  proof -
    have "tree m' v l 512 (child v (entry m' p j)) \<and> p \<notin> tables m' v l 512 (child v (entry m' p j))" if "j < e" "present (entry m' p j)" for j
    proof (cases "j = i")
      case True
      then show ?thesis using ei(2) tz trz z(1) pH by auto
    next
      case False
      then show ?thesis using en [OF that(1) False] that tj T(1) by simp
    qed
    moreover have "tables m' v l 512 (child v (entry m' p j)) \<inter> tables m' v l 512 (child v (entry m' p k)) = {}"
      if jk: "j < e" "k < e" "j \<noteq> k" "present (entry m' p j)" "present (entry m' p k)" for j k
    proof -
      have *: "{z} \<inter> tables m' v l 512 (child v (entry m' p n)) = {}" if n: "n < e" "n \<noteq> i" "present (entry m' p n)" for n
        using en [OF n(1,2)] tj(1) Hj n z(1) by auto
      show ?thesis
        using *[of j] *[of k] tz ei(2) en [of j] en [of k] tj(1) [of j] tj(1) [of k] T(2) [OF jk(1,2,3)] jk
        by (cases "j = i"; cases "k = i") auto
    qed
    ultimately show ?thesis by simp
  qed
  then show "grown m H m' (insert z H) v (Suc l) e p"
    unfolding grown_def tb using H z(1) same self_in_tables [of p m v "Suc l" e] by auto
  show "walk_table m' v (Suc l) p k = walk_table m v (Suc l) p k" if k: "k < e * 512 ^ Suc l"
  proof -
    let ?j = "k div 512 ^ Suc l"
    have j: "?j < e" using k by (intro less_mult_imp_div_less)
    show ?thesis
    proof (cases "?j = i")
      case True
      have "walk_table m' v l z n = None" if "n < 512 ^ Suc l" for n
      proof (cases l)
        case 0
        with z(2) [of n] np that show ?thesis by simp
      next
        case (Suc l')
        have "n div 512 ^ Suc l' < 512" using that Suc by (intro less_mult_imp_div_less) simp
        then show ?thesis using z(2) np Suc by (simp del: power_Suc)
      qed
      with True ei i(2) show ?thesis by (simp add: Let_def del: power_Suc)
    next
      case False
      show ?thesis
      proof (cases "present (entry m p ?j)")
        case True
        have "walk_table m' v l (?c ?j) (k mod 512 ^ Suc l) = walk_table m v l (?c ?j) (k mod 512 ^ Suc l)"
          by (rule walk_cong [of m v l 512]) (use sj [OF j True] in auto)
        with en [OF j False] show ?thesis by (simp add: Let_def del: power_Suc)
      qed (use en [OF j False] in \<open>simp add: Let_def del: power_Suc\<close>)
    qed
  qed
qed

section \<open>Reading and writing one table\<close>

abbreviation mem_of :: "mm \<Rightarrow> bytes" where "mem_of s \<equiv> pm_bytes (mm_pm s)"

lemma upd_bytes_fields [simp]:
  "mem_of (upd_bytes f s) = f (mem_of s)" "kernel_vma (upd_bytes f s) = kernel_vma s"
  by (simp_all add: upd_bytes_def)

lemma page_entry_slot:
  assumes "holds s H" "p \<in> H" "unat i < 512"
  shows "page_entry p i s = Some (rd64 (mem_of s) (slot p (unat i)))"
    "set_page_entry p i v s = Some (upd_bytes (wr64 (slot p (unat i)) v) s)"
proof -
  have "(ucast i :: u64) = of_nat (unat i)" by (simp add: unsigned_ucast_eq word_unat_eq_iff)
  then have "p + 8 * ucast i = slot p (unat i)" by (simp add: slot_def)
  moreover have "\<not> slot p (unat i) < 16" using slot(2) [OF pages.slots [OF assms(1,2)] assms(3)] .
  ultimately show "page_entry p i s = Some (rd64 (mem_of s) (slot p (unat i)))"
    "set_page_entry p i v s = Some (upd_bytes (wr64 (slot p (unat i)) v) s)"
    by (simp_all add: page_entry_def set_page_entry_def get_word_def set_word_def)
qed

text \<open>A write of an entry, in the terms of entries without counters.\<close>

definition writes :: "mm \<Rightarrow> ptr set \<Rightarrow> ptr \<Rightarrow> nat \<Rightarrow> usize \<Rightarrow> mm \<Rightarrow> bool" where
  "writes s H p i w s' \<longleftrightarrow> holds s' H \<and> kernel_vma s' = kernel_vma s \<and> (\<forall>m. spare s m \<longrightarrow> spare s' m) \<and>
     (\<forall>q \<in> H. \<forall>j < 512. entry (mem_of s') q j = (if q = p \<and> j = i then w else entry (mem_of s) q j))"

lemma write_writes:
  assumes "holds s H" "p \<in> H" "i < 512"
  shows "writes s H p i (v AND PAGE_DATA_POS) (upd_bytes (wr64 (slot p i) v) s)"
  unfolding writes_def entry_def using assms pages.writes [OF assms(1)] pages.spare_writes pages.write_entry [OF assms(1,2) _ assms(3)] by simp

lemma page_set_writes:
  assumes "holds s H" "p \<in> H" "unat i < 512"
  shows "\<exists>s'. page_set p i n flags s = Some (n AND PAGE_ADDR_POS, s') \<and> writes s H p (unat i) (set_value n flags) s'"
proof -
  note pe = page_entry_slot [OF assms]
  show ?thesis
  proof (cases "i = 0")
    case True
    let ?c = "rd64 (mem_of s) (slot p (unat i))"
    have "(n AND PAGE_ADDR_POS) OR (flags AND PAGE_FLAGS_POS) OR (?c AND NOT PAGE_DATA_POS) OR V_PRESENT = set_value n flags OR (?c AND NOT PAGE_DATA_POS)"
      by (simp add: set_value_def ac_simps)
    then have "page_set p i n flags s = Some (n AND PAGE_ADDR_POS, upd_bytes (wr64 (slot p (unat i)) (set_value n flags OR (?c AND NOT PAGE_DATA_POS))) s)"
      using True pe by (simp add: page_set_def Let_def)
    moreover have "writes s H p (unat i) (set_value n flags) (upd_bytes (wr64 (slot p (unat i)) (set_value n flags OR (?c AND NOT PAGE_DATA_POS))) s)"
      using write_writes [OF assms, of "set_value n flags OR (?c AND NOT PAGE_DATA_POS)"] unfolding keep_counter(1) .
    ultimately show ?thesis by blast
  next
    case False
    then have "page_set p i n flags s = Some (n AND PAGE_ADDR_POS, upd_bytes (wr64 (slot p (unat i)) (set_value n flags)) s)"
      using pe by (simp add: page_set_def Let_def set_value_def)
    moreover have "writes s H p (unat i) (set_value n flags) (upd_bytes (wr64 (slot p (unat i)) (set_value n flags)) s)"
      using write_writes [OF assms, of "set_value n flags"] by simp
    ultimately show ?thesis by blast
  qed
qed

lemma count_page_writes:
  assumes "holds s H" "p \<in> H"
  shows "\<exists>s'. count_page p n s = Some s' \<and> writes s H p 0 (entry (mem_of s) p 0) s'"
proof -
  have z: "unat (0 :: u16) < 512" by simp
  note pe = page_entry_slot [OF assms z]
  let ?v = "page_counter_add (rd64 (mem_of s) (slot p 0)) n"
  have "count_page p n s = Some (upd_bytes (wr64 (slot p 0) ?v) s)" using pe by (simp add: count_page_def)
  moreover have "writes s H p 0 (entry (mem_of s) p 0) (upd_bytes (wr64 (slot p 0) ?v) s)"
    using write_writes [OF assms, of 0 ?v] by (simp add: page_counter_add_data entry_def)
  ultimately show ?thesis by blast
qed

lemma writes_trans_count:
  assumes "writes s H p 0 (entry (mem_of s) p 0) s1" "writes s1 H p i w s2"
  shows "writes s H p i w s2"
  using assms by (auto simp: writes_def)

lemma writes_count_trans:
  assumes "writes s H p i w s1" "writes s1 H p 0 (entry (mem_of s1) p 0) s2" "p \<in> H"
  shows "writes s H p i w s2"
  using assms by (auto simp: writes_def)

lemma raw_entry:
  "present (rd64 m (slot p i)) = present (entry m p i)" "rd64 m (slot p i) AND PAGE_ADDR_POS = entry m p i AND PAGE_ADDR_POS"
proof -
  show "present (rd64 m (slot p i)) = present (entry m p i)" by (simp add: entry_def present_data)
  have "PAGE_DATA_POS AND PAGE_ADDR_POS = PAGE_ADDR_POS" by (simp add: PAGE_DATA_POS_def PAGE_ADDR_POS_def)
  then show "rd64 m (slot p i) AND PAGE_ADDR_POS = entry m p i AND PAGE_ADDR_POS" by (simp add: entry_def and.assoc)
qed

text \<open>The address of a page survives the mask of an entry.\<close>

lemma page_addr_mask:
  assumes "x < 2 ^ 48" "4096 dvd unat (x :: u64)"
  shows "x AND PAGE_ADDR_POS = x"
proof (rule bit_word_eqI)
  fix j assume j: "j < LENGTH(64)"
  have P: "bit PAGE_ADDR_POS j \<longleftrightarrow> 12 \<le> j \<and> j < 48"
  proof -
    have "j \<in> set [0..<64]" using j by simp
    moreover have "\<forall>j \<in> set [0..<64]. bit PAGE_ADDR_POS j \<longleftrightarrow> 12 \<le> j \<and> j < 48" by (simp add: PAGE_ADDR_POS_def upt_rec)
    ultimately show ?thesis by blast
  qed
  have "unat x < 2 ^ 48" using assms(1) by (simp add: word_less_nat_alt)
  then have "unat (take_bit 48 x) = unat x" unfolding unsigned_take_bit_eq by (rule take_bit_nat_eq_self)
  then have lt: "take_bit 48 x = x" by simp
  have "unat (take_bit 12 x) = 0" using assms(2) unfolding unsigned_take_bit_eq unfolding take_bit_eq_mod by simp
  then have al: "take_bit 12 x = 0" by (simp only: unsigned_eq_0_iff)
  have "\<not> bit x j" if "j < 12" using al that by (metis bit_0_eq bit_take_bit_iff bot_apply bot_bool_def)
  moreover have "\<not> bit x j" if "48 \<le> j" using lt that by (metis bit_take_bit_iff not_le)
  ultimately show "bit (x AND PAGE_ADDR_POS) j = bit x j" using P by (auto simp: bit_and_iff not_le)
qed

lemma child_set_value:
  assumes "page_ok v z" "4096 dvd unat v"
  shows "(z - v) AND PAGE_ADDR_POS = z - v" "child v (set_value (z - v) f) = z"
proof -
  have le: "unat v \<le> unat z" and b: "unat z + 4096 \<le> unat v + 2 ^ 48" and d: "4096 dvd unat z" using assms by (simp_all add: page_ok_def)
  have u: "unat (z - v) = unat z - unat v" using le by (simp add: unat_sub word_le_nat_alt)
  have "unat (z - v) < 2 ^ 48" using u le b by linarith
  then have "z - v < 2 ^ 48" by (simp add: word_less_nat_alt)
  moreover have "4096 dvd unat (z - v)" using u d assms(2) by (simp add: dvd_diff_nat)
  ultimately show m: "(z - v) AND PAGE_ADDR_POS = z - v" by (rule page_addr_mask)
  have "PAGE_FLAGS_POS AND PAGE_ADDR_POS = 0" "V_PRESENT AND PAGE_ADDR_POS = 0"
    by (simp_all add: PAGE_ADDR_POS_def PAGE_FLAGS_POS_def V_PRESENT_def)
  then have "set_value (z - v) f AND PAGE_ADDR_POS = z - v" using m
    by (simp add: set_value_def bit.conj_disj_distrib2 and.assoc)
  then show "child v (set_value (z - v) f) = z" by (simp add: child_def)
qed

section \<open>The digits of the address\<close>

text \<open>
  A table at level \<open>l\<close> finds the page number inside its next entry, \<open>low\<close>, at the top of the 48
  bits of the shifted address.
\<close>

definition va_at :: "nat \<Rightarrow> nat \<Rightarrow> usize \<Rightarrow> bool" where
  "va_at l low va \<longleftrightarrow> low < 512 ^ l \<and> unat va mod 2 ^ 48 = low * 2 ^ (48 - 9 * l)"

lemma get_bits_top: "unat (get_bits va 39 47) = unat va mod 2 ^ 48 div 2 ^ 39"
proof -
  have "get_bits va 39 47 = drop_bit 39 (take_bit 48 va)"
  proof (rule bit_word_eqI)
    fix n
    have "bit (get_bits va 39 47) n \<longleftrightarrow> n + 39 \<le> 47 \<and> bit va (n + 39)" using bit_get_bits [of 47 va 39 n] by simp
    moreover have "bit (drop_bit 39 (take_bit 48 va)) n \<longleftrightarrow> 39 + n < 48 \<and> bit va (39 + n)" by (simp only: bit_drop_bit_eq bit_take_bit_iff o_apply)
    ultimately show "bit (get_bits va 39 47) n = bit (drop_bit 39 (take_bit 48 va)) n" by (auto simp: add.commute)
  qed
  then have "unat (get_bits va 39 47) = drop_bit 39 (take_bit 48 (unat va))" by (simp add: unsigned_drop_bit_eq unsigned_take_bit_eq)
  then show ?thesis by (simp only: drop_bit_eq_div take_bit_eq_mod)
qed

lemma small_level: "(l :: nat) < 4 \<Longrightarrow> (l = 0 \<Longrightarrow> P) \<Longrightarrow> (l = 1 \<Longrightarrow> P) \<Longrightarrow> (l = 2 \<Longrightarrow> P) \<Longrightarrow> (l = 3 \<Longrightarrow> P) \<Longrightarrow> P"
  by linarith

lemma va_at_step:
  assumes va: "va_at (Suc l) low va" and l: "l < 4"
  shows "unat (ucast (get_bits va 39 47) :: u16) = low div 512 ^ l" "va_at l (low mod 512 ^ l) (push_bit 9 va)"
proof -
  have p: "(2 :: nat) ^ 39 = 512 ^ l * 2 ^ (39 - 9 * l)" "(2 :: nat) ^ 48 = 512 ^ l * 2 ^ (48 - 9 * l)"
    using l by (elim small_level; simp)+
  have e: "48 - 9 * Suc l = 39 - 9 * l" by simp
  have m: "unat va mod 2 ^ 48 = low * 2 ^ (39 - 9 * l)" and low: "low < 512 * 512 ^ l" using va unfolding va_at_def e by simp_all
  have "low * 2 ^ (39 - 9 * l) div 2 ^ 39 = low div 512 ^ l" unfolding p(1) by simp
  then have u: "unat (get_bits va 39 47) = low div 512 ^ l" using get_bits_top [of va] m by simp
  moreover have "low div 512 ^ l < 512" using low by (intro less_mult_imp_div_less)
  ultimately show "unat (ucast (get_bits va 39 47) :: u16) = low div 512 ^ l"
    by (simp add: unsigned_ucast_eq take_bit_nat_eq_self_iff)
  have "unat (push_bit 9 va) mod 2 ^ 48 = (unat va * 512) mod 2 ^ 48"
  proof -
    have "unat (push_bit 9 va) = take_bit LENGTH(64) (push_bit 9 (unat va))" by (simp only: unsigned_push_bit_eq)
    also have "\<dots> = unat va * 2 ^ 9 mod 2 ^ 64" by (simp add: take_bit_eq_mod push_bit_eq_mult)
    finally have "unat (push_bit 9 va) mod 2 ^ 48 = unat va * 2 ^ 9 mod 2 ^ 64 mod 2 ^ 48" by (rule arg_cong)
    also have "\<dots> = unat va * 2 ^ 9 mod 2 ^ 48" by (rule mod_mod_cancel) (simp add: le_imp_power_dvd)
    finally show ?thesis by simp
  qed
  also have "\<dots> = (unat va mod 2 ^ 48) * 512 mod 2 ^ 48" by (simp add: mod_mult_left_eq)
  also have "\<dots> = low * 2 ^ (48 - 9 * l) mod (512 ^ l * 2 ^ (48 - 9 * l))"
  proof -
    have "(2 :: nat) ^ (39 - 9 * l) * 512 = 2 ^ (48 - 9 * l)" using l by (elim small_level; simp)
    then have "unat va mod 2 ^ 48 * 512 = low * 2 ^ (48 - 9 * l)" unfolding m by (simp only: mult.assoc)
    then show ?thesis unfolding p(2) by (rule arg_cong)
  qed
  also have "\<dots> = (low mod 512 ^ l) * 2 ^ (48 - 9 * l)" by simp
  finally show "va_at l (low mod 512 ^ l) (push_bit 9 va)" by (simp add: va_at_def)
qed

section \<open>Mapping\<close>

text \<open>
  What mapping a run of pages makes of the translation: inside the run the new pages, or the old
  ones when mapping gave up; outside it nothing changes.
\<close>

definition updated :: "(nat \<Rightarrow> usize) \<Rightarrow> bool \<Rightarrow> nat \<Rightarrow> nat \<Rightarrow> (nat \<Rightarrow> usize option) \<Rightarrow> (nat \<Rightarrow> usize option) \<Rightarrow> nat \<Rightarrow> bool" where
  "updated G b a c W W' K \<longleftrightarrow> (\<forall>k < K. if a \<le> k \<and> k < a + c then W' k = Some (G k) \<or> \<not> b \<and> W' k = W k else W' k = W k)"

lemma updated_none: "(\<And>k. k < K \<Longrightarrow> W' k = W k) \<Longrightarrow> c = 0 \<or> \<not> b \<Longrightarrow> updated G b a c W W' K"
  by (auto simp: updated_def)

lemma updated_trans:
  assumes "updated G True a c W W1 K" "updated G b (a + c) d W1 W2 K"
  shows "updated G b a (c + d) W W2 K"
  unfolding updated_def
proof (intro allI impI)
  fix k assume k: "k < K"
  have 1: "if a \<le> k \<and> k < a + c then W1 k = Some (G k) else W1 k = W k" using assms(1) k by (auto simp: updated_def)
  have 2: "if a + c \<le> k \<and> k < a + c + d then W2 k = Some (G k) \<or> \<not> b \<and> W2 k = W1 k else W2 k = W1 k" using assms(2) k by (auto simp: updated_def)
  show "if a \<le> k \<and> k < a + (c + d) then W2 k = Some (G k) \<or> \<not> b \<and> W2 k = W k else W2 k = W k"
    using 1 2 by (auto split: if_splits)
qed

lemma updated_wider: "updated G False a c W W' K \<Longrightarrow> c \<le> d \<Longrightarrow> updated G False a d W W' K"
  unfolding updated_def by (auto split: if_splits)

lemma updated_child:
  assumes u: "updated (\<lambda>k. G (i * M + k)) b a c w w' M" and c: "a + c \<le> M" "0 < M"
    and W: "\<And>k. k < K \<Longrightarrow> W' k = (if k div M = i then w' (k mod M) else W k)"
      "\<And>k. k < K \<Longrightarrow> k div M = i \<Longrightarrow> W k = w (k mod M)"
  shows "updated G b (i * M + a) c W W' K"
  unfolding updated_def
proof (intro allI impI)
  fix k assume k: "k < K"
  have d: "k = k div M * M + k mod M" by simp
  have m: "k mod M < M" using c by simp
  show "if i * M + a \<le> k \<and> k < i * M + a + c then W' k = Some (G k) \<or> \<not> b \<and> W' k = W k else W' k = W k"
  proof (cases "k div M = i")
    case True
    with d have e: "k = i * M + k mod M" by simp
    have "if a \<le> k mod M \<and> k mod M < a + c then w' (k mod M) = Some (G k) \<or> \<not> b \<and> w' (k mod M) = w (k mod M) else w' (k mod M) = w (k mod M)"
      using u m e unfolding updated_def by metis
    moreover have "i * M + a \<le> k \<longleftrightarrow> a \<le> k mod M" "k < i * M + a + c \<longleftrightarrow> k mod M < a + c" using e by linarith+
    ultimately show ?thesis using W [OF k] True by simp
  next
    case False
    have "(i * M + a \<le> k \<and> k < i * M + a + c) = False"
    proof (rule iffI)
      assume "i * M + a \<le> k \<and> k < i * M + a + c"
      then have "k div M = i" using c by (intro div_nat_eqI) (auto simp: mult.commute)
      with False show False ..
    qed simp
    then show ?thesis using W(1) [OF k] False by (simp only: if_False)
  qed
qed

text \<open>
  How many tables below level \<open>l\<close> the pages \<open>a\<close> to \<open>a + c - 1\<close> pass through: at each level below
  one for every group of pages that a table there covers.
\<close>

definition tables_for :: "nat \<Rightarrow> nat \<Rightarrow> nat \<Rightarrow> nat" where
  "tables_for l a c = (\<Sum>j \<in> {1..l}. card ((\<lambda>k. k div 512 ^ j) ` {a ..< a + c}))"

lemma tables_for_none [simp]: "tables_for 0 a c = 0" "tables_for l a 0 = 0"
  by (simp_all add: tables_for_def)

lemma tables_for_pos: "0 < c \<Longrightarrow> 0 < tables_for (Suc l) a c"
proof -
  assume "0 < c"
  then have "card ((\<lambda>k. k div 512 ^ Suc l) ` {a ..< a + c}) \<noteq> 0" by simp
  moreover have "card ((\<lambda>k. k div 512 ^ Suc l) ` {a ..< a + c}) \<le> tables_for (Suc l) a c"
    unfolding tables_for_def by (rule member_le_sum) auto
  ultimately show ?thesis by linarith
qed

lemma tables_for_mono: "c \<le> d \<Longrightarrow> tables_for l a c \<le> tables_for l a d"
  unfolding tables_for_def by (intro sum_mono card_mono image_mono) auto

lemma tables_for_split:
  assumes "512 ^ l dvd a + c"
  shows "tables_for l a c + tables_for l (a + c) d = tables_for l a (c + d)"
proof -
  have "card ((\<lambda>k. k div 512 ^ j) ` {a ..< a + (c + d)}) = card ((\<lambda>k. k div 512 ^ j) ` {a ..< a + c}) + card ((\<lambda>k. k div 512 ^ j) ` {a + c ..< a + c + d})"
    if "j \<in> {1..l}" for j
  proof -
    let ?f = "\<lambda>k :: nat. k div 512 ^ j"
    have "512 ^ j dvd a + c" using that assms by (auto intro: dvd_trans le_imp_power_dvd)
    then obtain q where q: "a + c = 512 ^ j * q" ..
    have "?f x < q" if "x < a + c" for x using that q by (simp add: less_mult_imp_div_less mult.commute)
    moreover have "q \<le> ?f y" if "a + c \<le> y" for y using that q div_le_mono [of "a + c" y "512 ^ j"] by simp
    ultimately have "?f ` {a ..< a + c} \<inter> ?f ` {a + c ..< a + c + d} = {}" by fastforce
    moreover have "{a ..< a + (c + d)} = {a ..< a + c} \<union> {a + c ..< a + c + d}" by auto
    ultimately show ?thesis by (simp add: image_Un card_Un_disjoint)
  qed
  then show ?thesis unfolding tables_for_def sum.distrib [symmetric] by (intro sum.cong) simp_all
qed

lemma tables_for_child:
  assumes "0 < c" "low + c \<le> 512 ^ Suc l"
  shows "tables_for (Suc l) (i * 512 ^ Suc l + low) c = Suc (tables_for l low c)"
proof -
  let ?M = "(512 :: nat) ^ Suc l" and ?a = "i * 512 ^ Suc l + low"
  have sh: "{?a ..< ?a + c} = (\<lambda>k. i * ?M + k) ` {low ..< low + c}" by (simp add: ac_simps del: power_Suc)
  have "card ((\<lambda>k. k div 512 ^ j) ` {?a ..< ?a + c}) = card ((\<lambda>k. k div 512 ^ j) ` {low ..< low + c})" if "j \<in> {1..l}" for j
  proof -
    have "512 ^ j dvd ?M" using that by (intro le_imp_power_dvd) simp
    then obtain q where "?M = 512 ^ j * q" ..
    then have dv: "(i * ?M + k) div 512 ^ j = i * q + k div 512 ^ j" for k
    proof -
      have "i * ?M + k = (i * q) * 512 ^ j + k" unfolding \<open>?M = 512 ^ j * q\<close> by (simp add: ac_simps)
      then show ?thesis by (simp only: div_mult_self3 [of "512 ^ j"] power_not_zero zero_neq_numeral [symmetric] not_False_eq_True)
    qed
    have "(\<lambda>k. k div 512 ^ j) ` {?a ..< ?a + c} = (\<lambda>k. i * q + k) ` (\<lambda>k. k div 512 ^ j) ` {low ..< low + c}"
      unfolding sh image_image dv by (rule refl)
    then show ?thesis by (simp add: card_image del: power_Suc)
  qed
  moreover have "(\<lambda>k. k div ?M) ` {?a ..< ?a + c} = {i}"
  proof -
    have "k div ?M = i" if "k \<in> {?a ..< ?a + c}" for k
      by (rule div_nat_eqI) (use that assms(2) in \<open>simp_all add: mult.commute del: power_Suc\<close>)
    then have "(\<lambda>k. k div ?M) ` {?a ..< ?a + c} = (\<lambda>_. i) ` {?a ..< ?a + c}" by (rule image_cong [OF refl])
    then show ?thesis using assms(1) by (simp add: image_constant_conv del: power_Suc)
  qed
  ultimately show ?thesis unfolding tables_for_def by (simp add: sum.nat_ivl_Suc' del: power_Suc)
qed

lemma spare_le: "spare s m \<Longrightarrow> k \<le> m \<Longrightarrow> spare s k" unfolding spare_def by (meson le_trans)

text \<open>The value a run stores for page \<open>k\<close> of the table.\<close>

definition page_at :: "usize \<Rightarrow> usize \<Rightarrow> usize \<Rightarrow> usize \<Rightarrow> nat \<Rightarrow> usize" where
  "page_at phys v flags b k = set_value (phys + PAGE_SIZE * (of_nat k + b) - v) flags"

text \<open>
  What the loop over a table at level \<open>l\<close> does when the next page is number \<open>a\<close> of the table:
  it maps \<open>n\<close> pages, or all up to the end of the table, or runs out of memory.
\<close>

definition run_post ::
  "usize \<Rightarrow> usize \<Rightarrow> usize \<Rightarrow> mm \<Rightarrow> ptr set \<Rightarrow> nat \<Rightarrow> nat \<Rightarrow> ptr \<Rightarrow> nat \<Rightarrow> usize \<Rightarrow> bool \<Rightarrow> usize \<Rightarrow> usize \<Rightarrow> mm \<Rightarrow> ptr set \<Rightarrow> bool" where
  "run_post phys flags N s H l e p a n b va' n' s' H' \<longleftrightarrow>
     holds s' H' \<and> kernel_vma s' = kernel_vma s \<and> grown (mem_of s) H (mem_of s') H' (kernel_vma s) l e p \<and>
     updated (page_at phys (kernel_vma s) flags (N - n - of_nat a)) b a (min (unat n) (e * 512 ^ l - a))
       (walk_table (mem_of s) (kernel_vma s) l p) (walk_table (mem_of s') (kernel_vma s) l p) (e * 512 ^ l) \<and>
     (b \<longrightarrow> unat n' = unat n - (e * 512 ^ l - a) \<and> (n' \<noteq> 0 \<longrightarrow> unat va' mod 2 ^ 48 = 0)) \<and>
     (\<not> b \<longrightarrow> mem_allocz PAGE_SIZE s' = Some (NULL, s')) \<and>
     (\<forall>m. spare s m \<longrightarrow> (let t = tables_for l a (min (unat n) (e * 512 ^ l - a)) in if b then spare s' (m - t) else m < t))"

definition run_pre :: "mm \<Rightarrow> ptr set \<Rightarrow> nat \<Rightarrow> nat \<Rightarrow> ptr \<Rightarrow> u16 \<Rightarrow> nat \<Rightarrow> usize \<Rightarrow> usize \<Rightarrow> bool" where
  "run_pre s H l e p i low va n \<longleftrightarrow>
     holds s H \<and> 4096 dvd unat (kernel_vma s) \<and> tree (mem_of s) (kernel_vma s) l e p \<and> tables (mem_of s) (kernel_vma s) l e p \<subseteq> H \<and>
     e \<le> 512 \<and> va_at l low va \<and> unat i * 512 ^ l + low \<le> e * 512 ^ l \<and>
     (e = 512 \<and> l < 3 \<or> unat i * 512 ^ l + low + unat n \<le> e * 512 ^ l)"

lemma run_post_stop:
  assumes "run_pre s H l e p i low va n" "n = 0 \<or> \<not> i < 512"
  shows "run_post phys flags N s H l e p (unat i * 512 ^ l + low) n True va n s H"
proof -
  have pre: "holds s H" "tree (mem_of s) (kernel_vma s) l e p" "tables (mem_of s) (kernel_vma s) l e p \<subseteq> H" "e \<le> 512" "va_at l low va"
    "unat i * 512 ^ l + low \<le> e * 512 ^ l" using assms(1) unfolding run_pre_def by blast+
  let ?a = "unat i * 512 ^ l + low"
  have full: "e * 512 ^ l - ?a = 0 \<and> low = 0" if "\<not> i < 512"
  proof -
    have "512 \<le> unat i" using that by (simp add: word_less_nat_alt)
    then have "e * 512 ^ l \<le> unat i * 512 ^ l" using pre(4) by (intro mult_le_mono1) linarith
    with pre(6) show ?thesis by linarith
  qed
  have "min (unat n) (e * 512 ^ l - ?a) = 0" "unat n = unat n - (e * 512 ^ l - ?a)" using assms(2) full by auto
  moreover have "unat va mod 2 ^ 48 = 0" if "n \<noteq> 0" using pre(5) full that assms(2) by (auto simp: va_at_def)
  ultimately show ?thesis unfolding run_post_def
    using pre(1) grown_refl [OF pre(2,3)] by (auto intro!: updated_none)
qed

text \<open>The table behind an entry, a fresh one if there is none.\<close>

definition next_table :: "ptr \<Rightarrow> u16 \<Rightarrow> mm \<Rightarrow> (usize option \<times> mm) option" where
  "next_table table i s = do {
     e \<leftarrow> page_entry table i s;
     (if \<not> present e then do {
        (temp, s) \<leftarrow> mem_allocz PAGE_SIZE s;
        if temp = 0 then Some (None, s)
        else do {
          (p, s) \<leftarrow> page_set table i (temp - kernel_vma s) V_ALL_PERMISSIONS s;
          s \<leftarrow> count_page table 1 s;
          Some (Some p, s)
        }
      }
      else Some (Some (e AND PAGE_ADDR_POS), s))
   }"

lemma map_loop_table:
  assumes "n \<noteq> 0" "i < 512"
  shows "map_loop phys flags N (Suc l) p i va n s = do {
    (q, s) \<leftarrow> next_table p i s;
    if q = None then Some (False, va, n, s)
    else do {
      (t, va, n, s) \<leftarrow> map_loop phys flags N l (the q + kernel_vma s) (ucast (get_bits va 39 47)) (push_bit 9 va) n s;
      if \<not> t then Some (False, va, n, s) else map_loop phys flags N (Suc l) p (i + 1) va n s
    }
  }"
  using assms unfolding map_loop.simps [of phys flags N "Suc l" p i va n s] diff_Suc_1 by (simp add: next_table_def)

lemma map_loop_stop:
  "map_loop phys flags N l p i va 0 s = Some (True, va, 0, s)"
  "\<not> i < 512 \<Longrightarrow> l < 3 \<Longrightarrow> map_loop phys flags N l p i va n s = Some (True, va, n, s)"
  by (subst map_loop.simps; simp add: PAGE_LEVELS_def)+

lemma writes_entry:
  assumes "writes s H p i w s1" "q \<in> H" "j < 512"
  shows "entry (mem_of s1) q j = (if q = p \<and> j = i then w else entry (mem_of s) q j)"
  using assms unfolding writes_def by blast

lemma map_loop_page:
  assumes h: "holds s H" "p \<in> H" and i: "unat i < 512" and n: "n \<noteq> 0"
  shows "\<exists>s1. map_loop phys flags N 0 p i va n s = map_loop phys flags N 0 p (i + 1) va (n - 1) s1 \<and>
    writes s H p (unat i) (set_value (phys + PAGE_SIZE * (N - n) - kernel_vma s) flags) s1"
proof -
  note pe = page_entry_slot(1) [OF h i]
  let ?e = "rd64 (mem_of s) (slot p (unat i))"
  let ?v = "phys + PAGE_SIZE * (N - n) - kernel_vma s"
  have i': "i < 512" using i by (simp add: word_less_nat_alt)
  obtain s0 where s0: "(if \<not> present ?e then count_page p 1 s else Some s) = Some s0" "holds s0 H" "kernel_vma s0 = kernel_vma s"
    "\<And>w s2. writes s0 H p (unat i) w s2 \<Longrightarrow> writes s H p (unat i) w s2"
  proof (cases "present ?e")
    case True
    then show ?thesis using that [of s] h(1) by simp
  next
    case False
    obtain s0 where "count_page p 1 s = Some s0" "writes s H p 0 (entry (mem_of s) p 0) s0" using count_page_writes [OF h] by blast
    with False show ?thesis using that [of s0] writes_trans_count [of s H p s0] by (simp add: writes_def)
  qed
  obtain s1 where s1: "page_set p i ?v flags s0 = Some (?v AND PAGE_ADDR_POS, s1)" "writes s0 H p (unat i) (set_value ?v flags) s1"
    using page_set_writes [OF s0(2) h(2) i] by blast
  have "map_loop phys flags N 0 p i va n s = map_loop phys flags N 0 p (i + 1) va (n - 1) s1"
    using n i' pe s0(1,3) s1(1) by (subst map_loop.simps) (simp split del: if_split)
  then show ?thesis using s0(4) [OF s1(2)] by blast
qed

lemma next_table_cases:
  assumes h: "holds s H" and v: "4096 dvd unat (kernel_vma s)" and t: "tree (mem_of s) (kernel_vma s) (Suc l) e p"
    and H: "tables (mem_of s) (kernel_vma s) (Suc l) e p \<subseteq> H" and e: "e \<le> 512" and i: "unat i < e"
  obtains (full) "next_table p i s = Some (None, s)" "mem_allocz PAGE_SIZE s = Some (NULL, s)" "\<And>m. spare s m \<Longrightarrow> m = 0"
  | (table) q s1 H1 where "next_table p i s = Some (Some q, s1)" "holds s1 H1" "kernel_vma s1 = kernel_vma s"
      "grown (mem_of s) H (mem_of s1) H1 (kernel_vma s) (Suc l) e p"
      "\<forall>k < e * 512 ^ Suc l. walk_table (mem_of s1) (kernel_vma s) (Suc l) p k = walk_table (mem_of s) (kernel_vma s) (Suc l) p k"
      "present (entry (mem_of s1) p (unat i))" "child (kernel_vma s) (entry (mem_of s1) p (unat i)) = q + kernel_vma s"
      "\<forall>m. spare s m \<longrightarrow> spare s1 (m - 1)"
proof -
  let ?v = "kernel_vma s"
  have pH: "p \<in> H" using H self_in_tables [of p "mem_of s" ?v "Suc l" e] by blast
  have i': "unat i < 512" using i e by simp
  note pe = page_entry_slot(1) [OF h pH i']
  show ?thesis
  proof (cases "present (entry (mem_of s) p (unat i))")
    case True
    then have "next_table p i s = Some (Some (entry (mem_of s) p (unat i) AND PAGE_ADDR_POS), s)"
      using pe by (simp add: next_table_def raw_entry)
    then show ?thesis by (rule table) (use h True grown_refl [OF t H] spare_le in \<open>auto simp: child_def\<close>)
  next
    case False
    then have np: "\<not> present (rd64 (mem_of s) (slot p (unat i)))" by (simp add: raw_entry)
    from pages.returns [OF h] obtain z s0 where z: "mem_allocz PAGE_SIZE s = Some (z, s0)" by blast
    show ?thesis
    proof (cases "z = NULL")
      case True
      with z pages.fails [OF h] have "mem_allocz PAGE_SIZE s = Some (NULL, s)" by auto
      moreover have "m = 0" if "spare s m" for m using pages.spare_takes [OF that z] True by simp
      ultimately show ?thesis by (intro full) (use pe np in \<open>simp_all add: next_table_def\<close>)
    next
      case nz: False
      note f = pages.fresh [OF h z nz]
      let ?H = "insert z H"
      have h0: "holds s0 ?H" "kernel_vma s0 = ?v" "z \<notin> H" using f by blast+
      have ok: "page_ok ?v z" using pages.page [OF h0(1), of z] h0(2) by simp
      note cs = child_set_value [OF ok v]
      obtain s1 where s1: "page_set p i (z - ?v) V_ALL_PERMISSIONS s0 = Some ((z - ?v) AND PAGE_ADDR_POS, s1)"
        "writes s0 ?H p (unat i) (set_value (z - ?v) V_ALL_PERMISSIONS) s1"
        using page_set_writes [OF h0(1) _ i'] pH by blast
      have h1: "holds s1 ?H" using s1(2) by (simp add: writes_def)
      obtain s2 where s2: "count_page p 1 s1 = Some s2" "writes s1 ?H p 0 (entry (mem_of s1) p 0) s2"
        using count_page_writes [OF h1] pH by blast
      have w: "writes s0 ?H p (unat i) (set_value (z - ?v) V_ALL_PERMISSIONS) s2"
        by (rule writes_count_trans [OF s1(2) s2(2)]) (use pH in simp)
      have h2: "holds s2 ?H" "kernel_vma s2 = ?v" using w h0(2) by (simp_all add: writes_def)
      have e0: "entry (mem_of s0) q j = entry (mem_of s) q j" if "q \<in> H" "j < 512" for q j
        using pages.fresh_table(2) [OF h z nz that(2,1)] by (simp add: entry_def)
      have ez: "entry (mem_of s0) z j = 0" if "j < 512" for j
        using pages.fresh_table(1) [OF h z nz that] by (simp add: entry_def)
      have zp: "z \<noteq> p" using h0(3) pH by blast
      have ei: "entry (mem_of s2) p (unat i) = set_value (z - ?v) V_ALL_PERMISSIONS" using writes_entry [OF w _ i'] pH by simp
      have same: "entry (mem_of s2) q j = entry (mem_of s) q j" if "q \<in> H" "j < 512" "\<not> (q = p \<and> j = unat i)" for q j
        using writes_entry [OF w _ that(2), of q] e0 [OF that(1,2)] that(1,3) by auto
      have z2: "entry (mem_of s2) z j = 0" if "j < 512" for j using writes_entry [OF w _ that, of z] ez [OF that] zp by simp
      have pr: "present (entry (mem_of s2) p (unat i))" "child ?v (entry (mem_of s2) p (unat i)) = z"
        unfolding ei using cs(2) by (simp_all add: present_data)
      note g = grown_fresh [OF t H e i False h0(3) z2 pr same]
      have nt: "next_table p i s = Some (Some (z - ?v), s2)"
        using pe np z nz h0(2) s1(1) s2(1) cs(1) by (simp add: next_table_def)
      have "spare s2 (m - 1)" if "spare s m" for m using pages.spare_takes [OF that z] w by (simp add: writes_def)
      then show ?thesis by (intro table [OF nt]) (use h2 g(1,2) pr in simp_all)
    qed
  qed
qed

lemma run_post_zero:
  assumes "holds s H" "tree (mem_of s) (kernel_vma s) l e p" "tables (mem_of s) (kernel_vma s) l e p \<subseteq> H"
  shows "run_post phys flags N s H l e p a 0 True va 0 s H"
  using assms(1) grown_refl [OF assms(2,3)] by (auto simp: run_post_def intro: updated_none)

lemma run_post_trans:
  assumes g: "grown (mem_of s) H (mem_of s1) H1 (kernel_vma s) l e p" and v: "kernel_vma s1 = kernel_vma s"
    and u: "updated (page_at phys (kernel_vma s) flags (N - n - of_nat a)) True a c
      (walk_table (mem_of s) (kernel_vma s) l p) (walk_table (mem_of s1) (kernel_vma s) l p) (e * 512 ^ l)"
    and c: "c \<le> unat n" "a + c \<le> e * 512 ^ l" and n1: "n1 = n - of_nat c" and d: "n1 = 0 \<or> 512 ^ l dvd a + c"
    and sp: "\<And>m. spare s m \<Longrightarrow> spare s1 (m - tables_for l a c)"
    and r: "run_post phys flags N s1 H1 l e p (a + c) n1 b va' n' s' H'"
  shows "run_post phys flags N s H l e p a n b va' n' s' H'"
proof -
  let ?v = "kernel_vma s" and ?K = "e * 512 ^ l"
  have "unat (of_nat c :: usize) = c" by (rule unat_of_nat_small) (use c unat_word_bound [of n] in linarith)
  then have un: "unat n1 = unat n - c" unfolding n1 using c(1) by (simp add: unat_sub word_le_nat_alt)
  have G: "N - n1 - of_nat (a + c) = N - n - of_nat a" unfolding n1 by (simp add: algebra_simps)
  have m: "min (unat n) (?K - a) = c + min (unat n1) (?K - (a + c))" using c un by linarith
  have r': "holds s' H'" "kernel_vma s' = ?v" "grown (mem_of s1) H1 (mem_of s') H' ?v l e p"
    "updated (page_at phys ?v flags (N - n - of_nat a)) b (a + c) (min (unat n1) (?K - (a + c)))
       (walk_table (mem_of s1) ?v l p) (walk_table (mem_of s') ?v l p) ?K"
    "b \<longrightarrow> unat n' = unat n1 - (?K - (a + c)) \<and> (n' \<noteq> 0 \<longrightarrow> unat va' mod 2 ^ 48 = 0)"
    "\<not> b \<longrightarrow> mem_allocz PAGE_SIZE s' = Some (NULL, s')"
    "\<And>m. spare s1 m \<Longrightarrow> (let t = tables_for l (a + c) (min (unat n1) (?K - (a + c))) in if b then spare s' (m - t) else m < t)"
    using r unfolding run_post_def v G by blast+
  let ?t = "tables_for l a c" and ?u = "tables_for l (a + c) (min (unat n1) (?K - (a + c)))"
  have t: "?t + ?u \<le> tables_for l a (c + min (unat n1) (?K - (a + c)))"
  proof (cases "n1 = 0")
    case True
    then show ?thesis by simp
  next
    case False
    then show ?thesis using d tables_for_split [of l a c] by simp
  qed
  have "if b then spare s' (m - tables_for l a (c + min (unat n1) (?K - (a + c))))
      else m < tables_for l a (c + min (unat n1) (?K - (a + c)))" if m: "spare s m" for m
  proof (cases b)
    case True
    with r'(7) [OF sp [OF m]] have "spare s' (m - ?t - ?u)" by simp
    then have "spare s' (m - tables_for l a (c + min (unat n1) (?K - (a + c))))" by (rule spare_le) (use t in linarith)
    then show ?thesis using True by simp
  next
    case False
    with r'(7) [OF sp [OF m]] have "m - ?t < ?u" by simp
    then show ?thesis using False t by simp
  qed
  moreover have "unat n1 - (?K - (a + c)) = unat n - (?K - a)" using c un by linarith
  ultimately show ?thesis unfolding run_post_def m Let_def
    using r'(1,2) grown_trans [OF g r'(3)] updated_trans [OF u r'(4)] r'(5,6) by (simp del: One_nat_def)
qed

lemma u16_next: "unat i < 512 \<Longrightarrow> unat ((i :: u16) + 1) = Suc (unat i)"
  by (simp add: unat_word_ariths)

lemma run_page:
  assumes pre: "run_pre s H 0 e p i low va n" and n: "n \<noteq> 0" and i: "i < 512"
    and w: "writes s H p (unat i) (set_value (phys + PAGE_SIZE * (N - n) - kernel_vma s) flags) s1"
  shows "run_pre s1 H 0 e p (i + 1) 0 va (n - 1)"
    "run_post phys flags N s1 H 0 e p (Suc (unat i)) (n - 1) b va' n' s' H' \<Longrightarrow> run_post phys flags N s H 0 e p (unat i) n b va' n' s' H'"
proof -
  have P: "holds s H" "4096 dvd unat (kernel_vma s)" "p \<in> H" "e \<le> 512" "va_at 0 low va" "unat i + low \<le> e" "e = 512 \<or> unat i + low + unat n \<le> e"
    using pre unfolding run_pre_def by auto
  have low: "low = 0" using P(5) by (simp add: va_at_def)
  have i': "unat i < 512" using i by (simp add: word_less_nat_alt)
  have un: "unat n \<noteq> 0" using n by (simp add: unat_eq_0)
  have ie: "unat i < e" using P(7) i' un by auto
  have n1: "unat (n - 1) = unat n - 1" using un by (simp add: unat_minus_one n)
  have s1: "holds s1 H" "kernel_vma s1 = kernel_vma s" using w by (simp_all add: writes_def)
  show "run_pre s1 H 0 e p (i + 1) 0 va (n - 1)"
    unfolding run_pre_def using P(2-5,7) s1 ie n1 low u16_next [OF i'] un by auto
  have g: "grown (mem_of s) H (mem_of s1) H (kernel_vma s) 0 e p"
    unfolding grown_def using P(3) writes_entry [OF w] by auto
  have u: "updated (page_at phys (kernel_vma s) flags (N - n - of_nat (unat i))) True (unat i) 1
      (walk_table (mem_of s) (kernel_vma s) 0 p) (walk_table (mem_of s1) (kernel_vma s) 0 p) (e * 512 ^ 0)"
    unfolding updated_def
  proof (intro allI impI)
    fix k assume "k < e * 512 ^ 0"
    then have k: "k < 512" using P(4) by simp
    show "if unat i \<le> k \<and> k < unat i + 1
      then walk_table (mem_of s1) (kernel_vma s) 0 p k = Some (page_at phys (kernel_vma s) flags (N - n - of_nat (unat i)) k) \<or>
        \<not> True \<and> walk_table (mem_of s1) (kernel_vma s) 0 p k = walk_table (mem_of s) (kernel_vma s) 0 p k
      else walk_table (mem_of s1) (kernel_vma s) 0 p k = walk_table (mem_of s) (kernel_vma s) 0 p k"
      using writes_entry [OF w P(3) k] by (auto simp: page_at_def present_data)
  qed
  show "run_post phys flags N s H 0 e p (unat i) n b va' n' s' H'"
    if "run_post phys flags N s1 H 0 e p (Suc (unat i)) (n - 1) b va' n' s' H'"
    by (rule run_post_trans [OF g s1(2) u]) (use un ie that w in \<open>auto simp: writes_def\<close>)
qed

lemma tree_child:
  assumes "tree m v (Suc l) e p" "tables m v (Suc l) e p \<subseteq> H" "i < e" "present (entry m p i)"
  shows "tree m v l 512 (child v (entry m p i))" "tables m v l 512 (child v (entry m p i)) \<subseteq> H"
  using assms by auto

text \<open>One table is filled, then the next entry is at turn.\<close>

lemma run_child:
  assumes pre: "run_pre s H (Suc l) e p i low va n" and n: "n \<noteq> 0" and i: "unat i < e"
    and h1: "kernel_vma s1 = kernel_vma s" and g1: "grown (mem_of s) H (mem_of s1) H1 (kernel_vma s) (Suc l) e p"
    and w1: "\<forall>k < e * 512 ^ Suc l. walk_table (mem_of s1) (kernel_vma s) (Suc l) p k = walk_table (mem_of s) (kernel_vma s) (Suc l) p k"
    and c: "present (entry (mem_of s1) p (unat i))" "child (kernel_vma s) (entry (mem_of s1) p (unat i)) = q"
    and sp1: "\<forall>m. spare s m \<longrightarrow> spare s1 (m - 1)"
    and r: "run_post phys flags N s1 H1 l 512 q low n b va2 n2 s2 H2"
  defines "a \<equiv> unat i * 512 ^ Suc l + low"
  shows "\<not> b \<Longrightarrow> run_post phys flags N s H (Suc l) e p a n False va2 n2 s2 H2"
    "b \<Longrightarrow> n2 = 0 \<Longrightarrow> run_post phys flags N s H (Suc l) e p a n True va2 0 s2 H2"
    "b \<Longrightarrow> n2 \<noteq> 0 \<Longrightarrow> run_pre s2 H2 (Suc l) e p (i + 1) 0 va2 n2"
    "b \<Longrightarrow> n2 \<noteq> 0 \<Longrightarrow> run_post phys flags N s2 H2 (Suc l) e p (unat (i + 1) * 512 ^ Suc l + 0) n2 b' va' n' s' H' \<Longrightarrow>
       run_post phys flags N s H (Suc l) e p a n b' va' n' s' H'"
proof -
  let ?v = "kernel_vma s" and ?M = "(512 :: nat) ^ Suc l"
  let ?K = "e * ?M" and ?c = "min (unat n) (?M - low)"
  have P: "4096 dvd unat ?v" "e \<le> 512" "low < ?M" "a \<le> ?K" "e = 512 \<and> Suc l < 3 \<or> a + unat n \<le> ?K"
    using pre unfolding run_pre_def va_at_def a_def by blast+
  have t1: "tree (mem_of s1) ?v (Suc l) e p" "tables (mem_of s1) ?v (Suc l) e p \<subseteq> H1" using g1 unfolding grown_def by blast+
  have R: "holds s2 H2" "kernel_vma s2 = ?v" "grown (mem_of s1) H1 (mem_of s2) H2 ?v l 512 q"
    "updated (page_at phys ?v flags (N - n - of_nat low)) b low ?c (walk_table (mem_of s1) ?v l q) (walk_table (mem_of s2) ?v l q) ?M"
    "b \<longrightarrow> unat n2 = unat n - (?M - low) \<and> (n2 \<noteq> 0 \<longrightarrow> unat va2 mod 2 ^ 48 = 0)"
    "\<not> b \<longrightarrow> mem_allocz PAGE_SIZE s2 = Some (NULL, s2)"
    "\<And>m. spare s1 m \<Longrightarrow> if b then spare s2 (m - tables_for l low ?c) else m < tables_for l low ?c"
    using r unfolding run_post_def h1 power_Suc Let_def by blast+
  note gc = grown_child [OF t1 P(2) i c(1), unfolded c(2), OF R(3)]
  have g: "grown (mem_of s) H (mem_of s2) H2 ?v (Suc l) e p" using grown_trans [OF g1 gc(1)] .
  have M: "0 < ?M" by simp
  have iM: "unat i * ?M + ?M \<le> ?K" using mult_le_mono1 [of "Suc (unat i)" e ?M] i by simp
  have G: "page_at phys ?v flags (N - n - of_nat low) = (\<lambda>k. page_at phys ?v flags (N - n - of_nat a) (unat i * ?M + k))"
    unfolding page_at_def a_def by (rule ext) (simp add: algebra_simps)
  have low: "low + ?c \<le> ?M" using P(3) by linarith
  have u: "updated (page_at phys ?v flags (N - n - of_nat a)) b a ?c (walk_table (mem_of s) ?v (Suc l) p) (walk_table (mem_of s2) ?v (Suc l) p) ?K"
    unfolding a_def
  proof (rule updated_child [OF R(4) [unfolded G a_def] low M])
    fix k assume k: "k < ?K"
    show "walk_table (mem_of s2) ?v (Suc l) p k = (if k div ?M = unat i then walk_table (mem_of s2) ?v l q (k mod ?M) else walk_table (mem_of s) ?v (Suc l) p k)"
      using gc(2) [OF k] w1 [rule_format, OF k] by (simp only:)
    show "walk_table (mem_of s) ?v (Suc l) p k = walk_table (mem_of s1) ?v l q (k mod ?M)" if "k div ?M = unat i"
      using w1 [rule_format, OF k] that c by (simp add: Let_def del: power_Suc)
  qed
  have ac: "a + ?c \<le> ?K" using iM low unfolding a_def by linarith
  have "0 < ?c" using n P(3) by (simp add: unat_gt_0)
  then have tc: "tables_for (Suc l) a ?c = Suc (tables_for l low ?c)" unfolding a_def using low by (rule tables_for_child)
  have sp: "spare s2 (m - tables_for (Suc l) a ?c)" if "b" "spare s m" for m using R(7) [OF sp1 [rule_format, OF that(2)]] that(1) tc by simp
  show "run_post phys flags N s H (Suc l) e p a n False va2 n2 s2 H2" if b: "\<not> b"
  proof -
    have "?c \<le> min (unat n) (?K - a)" using ac by linarith
    with u b have "updated (page_at phys ?v flags (N - n - of_nat a)) False a (min (unat n) (?K - a))
      (walk_table (mem_of s) ?v (Suc l) p) (walk_table (mem_of s2) ?v (Suc l) p) ?K" using updated_wider by simp
    moreover have "m < tables_for (Suc l) a (min (unat n) (?K - a))" if "spare s m" for m
    proof -
      have "m < tables_for (Suc l) a ?c" using R(7) [OF sp1 [rule_format, OF that]] b tc by simp
      then show ?thesis using tables_for_mono [OF \<open>?c \<le> min (unat n) (?K - a)\<close>] by (rule less_le_trans)
    qed
    ultimately show ?thesis unfolding run_post_def using R(1,2) g R(6) b by simp
  qed
  have n2: "n2 = n - of_nat ?c" "unat n2 = unat n - ?c" if b
  proof -
    have "unat (of_nat ?c :: usize) = ?c" by (rule unat_of_nat_small) (use unat_word_bound [of n] in linarith)
    moreover have "of_nat ?c \<le> n" using calculation by (simp add: word_le_nat_alt)
    ultimately have "unat (n - of_nat ?c) = unat n - ?c" by (simp add: unat_sub)
    moreover show "unat n2 = unat n - ?c" using R(5) that by linarith
    ultimately show "n2 = n - of_nat ?c" by (simp add: word_unat_eq_iff)
  qed
  have u': "updated (page_at phys ?v flags (N - n - of_nat a)) True a ?c (walk_table (mem_of s) ?v (Suc l) p) (walk_table (mem_of s2) ?v (Suc l) p) ?K" if b
    using u that by simp
  have t2: "tree (mem_of s2) ?v (Suc l) e p" "tables (mem_of s2) ?v (Suc l) e p \<subseteq> H2" using g unfolding grown_def by blast+
  have cn: "?c \<le> unat n" by simp
  show "run_post phys flags N s H (Suc l) e p a n True va2 0 s2 H2" if "b" "n2 = 0"
    by (rule run_post_trans [OF g R(2) u' cn ac n2(1) _ sp], rule that(1), rule that(1))
      (use run_post_zero [of s2 H2 "Suc l" e p] R(1,2) t2 that in simp_all)
  have full: "?c = ?M - low" "a + ?c = unat (i + 1) * ?M + 0" if "b" "n2 \<noteq> 0"
  proof -
    have "unat n2 \<noteq> 0" using that(2) by (simp add: unat_eq_0)
    then show e: "?c = ?M - low" using n2(2) [OF that(1)] by linarith
    have "unat i < 512" using i P(2) by simp
    then have "unat (i + 1) * ?M = unat i * ?M + ?M" by (simp add: u16_next)
    then show "a + ?c = unat (i + 1) * ?M + 0" unfolding e a_def using P(3) by linarith
  qed
  show "run_pre s2 H2 (Suc l) e p (i + 1) 0 va2 n2" if b: "b" "n2 \<noteq> 0"
  proof -
    have "va_at (Suc l) 0 va2" using R(5) b by (simp add: va_at_def)
    moreover have "unat (i + 1) * ?M + 0 \<le> ?K" using full(2) [OF b] ac by linarith
    moreover have "e = 512 \<and> Suc l < 3 \<or> unat (i + 1) * ?M + 0 + unat n2 \<le> ?K" using P(5) full(2) [OF b] n2(2) [OF b(1)] cn by linarith
    ultimately show ?thesis unfolding run_pre_def R(2) using R(1) P(1,2) t2 by blast
  qed
  show "run_post phys flags N s H (Suc l) e p a n b' va' n' s' H'"
    if "b" "n2 \<noteq> 0" "run_post phys flags N s2 H2 (Suc l) e p (unat (i + 1) * ?M + 0) n2 b' va' n' s' H'"
    by (rule run_post_trans [OF g R(2) u' cn ac n2(1) _ sp], rule that(1), rule that(1))
      (use that full(2) [OF that(1,2)] in simp_all)
qed

lemma run_child_pre:
  assumes pre: "run_pre s H (Suc l) e p i low va n" and l: "Suc l < 4" and i: "unat i < e"
    and h1: "holds s1 H1" "kernel_vma s1 = kernel_vma s" and g1: "grown (mem_of s) H (mem_of s1) H1 (kernel_vma s) (Suc l) e p"
    and c: "present (entry (mem_of s1) p (unat i))" "child (kernel_vma s) (entry (mem_of s1) p (unat i)) = q"
  shows "run_pre s1 H1 l 512 q (ucast (get_bits va 39 47)) (low mod 512 ^ l) (push_bit 9 va) n"
    "unat (ucast (get_bits va 39 47) :: u16) * 512 ^ l + low mod 512 ^ l = low"
proof -
  let ?v = "kernel_vma s"
  have va: "va_at (Suc l) low va" and v: "4096 dvd unat ?v" using pre by (simp_all add: run_pre_def)
  have t1: "tree (mem_of s1) ?v (Suc l) e p" "tables (mem_of s1) ?v (Suc l) e p \<subseteq> H1" using g1 unfolding grown_def by blast+
  note tc = tree_child [OF t1 i c(1), unfolded c(2)]
  have l': "l < 4" "l < 3" using l by simp_all
  note st = va_at_step [OF va l'(1)]
  show e: "unat (ucast (get_bits va 39 47) :: u16) * 512 ^ l + low mod 512 ^ l = low" unfolding st(1) by (rule div_mult_mod_eq)
  have "low \<le> 512 * 512 ^ l" using va by (simp add: va_at_def)
  then show "run_pre s1 H1 l 512 q (ucast (get_bits va 39 47)) (low mod 512 ^ l) (push_bit 9 va) n"
    unfolding run_pre_def h1(2) e using h1(1) v tc st(2) l'(2) by blast
qed

lemma map_run:
  assumes "l < 4" "run_pre s H l e p i low va n"
  shows "\<exists>b va' n' s' H'. map_loop phys flags N l p i va n s = Some (b, va', n', s') \<and>
    run_post phys flags N s H l e p (unat i * 512 ^ l + low) n b va' n' s' H'"
  using assms
proof (induction l arbitrary: s H e p i low va n)
  case 0
  then show ?case
  proof (induction "512 - unat i" arbitrary: i low va n s rule: less_induct)
    case less
    note pre = less.prems(2)
    show ?case
    proof (cases "n = 0 \<or> \<not> i < 512")
      case True
      have "map_loop phys flags N 0 p i va n s = Some (True, va, n, s)" using True map_loop_stop by auto
      with run_post_stop [OF pre True] show ?thesis by blast
    next
      case False
      then have n: "n \<noteq> 0" and i: "i < 512" by auto
      have i': "unat i < 512" using i by (simp add: word_less_nat_alt)
      have h: "holds s H" "p \<in> H" and low: "low = 0" using pre by (auto simp: run_pre_def va_at_def)
      obtain s1 where s1: "map_loop phys flags N 0 p i va n s = map_loop phys flags N 0 p (i + 1) va (n - 1) s1"
        "writes s H p (unat i) (set_value (phys + PAGE_SIZE * (N - n) - kernel_vma s) flags) s1"
        using map_loop_page [OF h i' n] by blast
      note rp = run_page [OF pre n i s1(2)]
      have "512 - unat (i + 1) < 512 - unat i" using u16_up [OF i] .
      from less.hyps [OF this _ rp(1)] obtain b va' n' s' H' where
        "map_loop phys flags N 0 p (i + 1) va (n - 1) s1 = Some (b, va', n', s')"
        "run_post phys flags N s1 H 0 e p (unat (i + 1) * 512 ^ 0 + 0) (n - 1) b va' n' s' H'" by auto
      moreover from this(2) have "run_post phys flags N s H 0 e p (unat i) n b va' n' s' H'"
        by (intro rp(2)) (simp add: u16_next [OF i'])
      ultimately show ?thesis using s1(1) low by auto
    qed
  qed
next
  case (Suc l)
  note IH = Suc.IH
  have l: "Suc l < 4" using Suc.prems(1) .
  from Suc.prems(2) show ?case
  proof (induction "512 - unat i" arbitrary: i low va n s H rule: less_induct)
    case less
    note pre = less.prems
    show ?case
    proof (cases "n = 0 \<or> \<not> i < 512")
      case True
      have "map_loop phys flags N (Suc l) p i va n s = Some (True, va, n, s)"
      proof (cases "n = 0")
        case False
        have "Suc l < 3"
        proof (rule ccontr)
          assume "\<not> Suc l < 3"
          then have "unat i * 512 ^ Suc l + low + unat n \<le> e * 512 ^ Suc l" "e \<le> 512" using pre by (simp_all add: run_pre_def)
          moreover have "512 \<le> unat i" using True False by (simp add: word_less_nat_alt)
          then have "e * 512 ^ Suc l \<le> unat i * 512 ^ Suc l" using \<open>e \<le> 512\<close> by (intro mult_le_mono1) linarith
          moreover have "unat n \<noteq> 0" using False by (simp add: unat_eq_0)
          ultimately show False by linarith
        qed
        with True False show ?thesis by (intro map_loop_stop(2)) auto
      qed (simp add: map_loop_stop)
      with run_post_stop [OF pre True] show ?thesis by blast
    next
      case False
      then have n: "n \<noteq> 0" and i: "i < 512" by auto
      have i': "unat i < 512" using i by (simp add: word_less_nat_alt)
      have P: "holds s H" "4096 dvd unat (kernel_vma s)" "tree (mem_of s) (kernel_vma s) (Suc l) e p"
        "tables (mem_of s) (kernel_vma s) (Suc l) e p \<subseteq> H" "e \<le> 512" "e = 512 \<or> unat i * 512 ^ Suc l + low + unat n \<le> e * 512 ^ Suc l"
        using pre unfolding run_pre_def by blast+
      have ie: "unat i < e"
      proof (rule ccontr)
        assume "\<not> unat i < e"
        then have "e \<noteq> 512" using i' by linarith
        moreover have "e * 512 ^ Suc l \<le> unat i * 512 ^ Suc l" using \<open>\<not> unat i < e\<close> by (intro mult_le_mono1) simp
        moreover have "unat n \<noteq> 0" using n by (simp add: unat_eq_0)
        ultimately show False using P(6) by linarith
      qed
      note ml = map_loop_table [OF n i, of phys flags N l p va s]
      from P(1-5) ie show ?thesis
      proof (cases rule: next_table_cases)
        case full
        let ?a = "unat i * 512 ^ Suc l + low"
        have "low < 512 ^ Suc l" using pre by (simp add: run_pre_def va_at_def)
        moreover have "Suc (unat i) * 512 ^ Suc l \<le> e * 512 ^ Suc l" using ie by (intro mult_le_mono1) simp
        ultimately have "0 < min (unat n) (e * 512 ^ Suc l - ?a)" using n by (simp add: unat_gt_0)
        then have "0 < tables_for (Suc l) ?a (min (unat n) (e * 512 ^ Suc l - ?a))" by (rule tables_for_pos)
        then have "m < tables_for (Suc l) ?a (min (unat n) (e * 512 ^ Suc l - ?a))" if "spare s m" for m using full(3) [OF that] by simp
        then have "run_post phys flags N s H (Suc l) e p ?a n False va n s H"
          unfolding run_post_def using P(1) grown_refl [OF P(3,4)] full(2) by (auto simp: Let_def intro!: updated_none simp del: power_Suc)
        then show ?thesis using ml full(1) by auto
      next
        case (table q s1 H1)
        note cp = run_child_pre [OF pre l ie table(2,3,4,6,7)]
        have l': "l < 4" using l by simp
        from IH [OF l' cp(1)] obtain b va2 n2 s2 H2 where
          r: "map_loop phys flags N l (q + kernel_vma s) (ucast (get_bits va 39 47)) (push_bit 9 va) n s1 = Some (b, va2, n2, s2)"
          "run_post phys flags N s1 H1 l 512 (q + kernel_vma s) low n b va2 n2 s2 H2" unfolding cp(2) by blast
        note rc = run_child [OF pre n ie table(3-7) table(8) r(2)]
        have ml': "map_loop phys flags N (Suc l) p i va n s =
          (if \<not> b then Some (False, va2, n2, s2) else map_loop phys flags N (Suc l) p (i + 1) va2 n2 s2)"
          unfolding ml using table(1,3) r(1) by simp
        consider "\<not> b" | "b" "n2 = 0" | "b" "n2 \<noteq> 0" by blast
        then show ?thesis
        proof cases
          case 1
          then show ?thesis using ml' rc(1) by auto
        next
          case 2
          then show ?thesis using ml' rc(2) map_loop_stop(1) by auto
        next
          case 3
          have "512 - unat (i + 1) < 512 - unat i" using u16_up [OF i] .
          from less.hyps [OF this rc(3) [OF 3]] obtain b' va' n' s' H' where
            r': "map_loop phys flags N (Suc l) p (i + 1) va2 n2 s2 = Some (b', va', n', s')"
            "run_post phys flags N s2 H2 (Suc l) e p (unat (i + 1) * 512 ^ Suc l + 0) n2 b' va' n' s' H'" by blast
          have "map_loop phys flags N (Suc l) p i va n s = Some (b', va', n', s')" using ml' 3 r'(1) by simp
          with rc(4) [OF 3 r'(2)] show ?thesis by blast
        qed
      qed
    qed
  qed
qed

section \<open>The address space\<close>

text \<open>
  The lower part of an address space, below the entry of the root that the kernel shares, its
  page numbers and the entry a processor finds for a page.
\<close>

definition space_ok :: "mm \<Rightarrow> ptr set \<Rightarrow> ptr \<Rightarrow> bool" where
  "space_ok s H pml4 \<longleftrightarrow> holds s H \<and> 4096 dvd unat (kernel_vma s) \<and> tree (mem_of s) (kernel_vma s) 3 511 pml4 \<and>
     tables (mem_of s) (kernel_vma s) 3 511 pml4 \<subseteq> H"

definition page_of :: "usize \<Rightarrow> nat" where "page_of va = unat (va AND PAGE_ADDR_POS) div 4096"

definition pages_in :: "usize \<Rightarrow> nat" where "pages_in n = unat (align_up n PAGE_SIZE div PAGE_SIZE)"

definition lookup :: "mm \<Rightarrow> ptr \<Rightarrow> nat \<Rightarrow> usize option" where
  "lookup s pml4 k = walk_table (mem_of s) (kernel_vma s) 3 pml4 k"

lemma va_at_root: "va_at 4 (page_of va) (va AND PAGE_ADDR_POS)"
proof -
  let ?x = "va AND PAGE_ADDR_POS"
  have le: "?x \<le> PAGE_ADDR_POS" by (rule word_and_le1)
  have "unat PAGE_ADDR_POS < 2 ^ 48" by (simp add: PAGE_ADDR_POS_def)
  with le have lt: "unat ?x < 2 ^ 48" by (simp add: word_le_nat_alt)
  have "take_bit 12 ?x = va AND take_bit 12 PAGE_ADDR_POS" by (simp add: take_bit_and take_bit_eq_mask and.left_commute and.assoc)
  also have "take_bit 12 PAGE_ADDR_POS = 0" by (simp add: PAGE_ADDR_POS_def)
  finally have "take_bit 12 ?x = 0" by simp
  then have "take_bit 12 (unat ?x) = 0" unfolding unsigned_take_bit_eq [symmetric] by simp
  then have d: "unat ?x mod 4096 = 0" by (simp add: take_bit_eq_mod)
  have "unat ?x div 4096 < 512 ^ 4" using lt by (intro less_mult_imp_div_less) simp
  moreover have "unat ?x mod 2 ^ 48 = unat ?x div 4096 * 2 ^ (48 - 9 * 4)" using lt d by (simp add: minus_mod_eq_div_mult [symmetric])
  ultimately show ?thesis by (simp add: va_at_def page_of_def)
qed

lemma map_internal_eq:
  "map_internal pml4 phys virt n flags s = do {
     (b, va, m, s) \<leftarrow> map_loop phys flags (of_nat (pages_in n)) 3 pml4 (ucast (get_bits (virt AND PAGE_ADDR_POS) 39 47))
       (push_bit 9 (virt AND PAGE_ADDR_POS)) (of_nat (pages_in n)) s;
     if \<not> b then do { s \<leftarrow> unmap_internal pml4 va m s; Some (False, s) } else Some (True, s)
   }"
  by (simp add: map_internal_def map_internal_recurse_def pages_in_def PAGE_LEVELS_def Let_def)

lemma map_internal_spec:
  assumes "space_ok s H pml4" and "page_of virt + pages_in n \<le> 511 * 512 ^ 3"
  shows "\<exists>b va m s' H'. map_internal_recurse phys (virt AND PAGE_ADDR_POS) (of_nat (pages_in n)) (of_nat (pages_in n)) (PAGE_LEVELS - 1) pml4 flags s =
       Some (b, va, m, s') \<and> space_ok s' H' pml4 \<and> H \<subseteq> H' \<and>
     (\<forall>k < 511 * 512 ^ 3. if page_of virt \<le> k \<and> k < page_of virt + pages_in n
        then lookup s' pml4 k = Some (set_value (phys + PAGE_SIZE * of_nat (k - page_of virt) - kernel_vma s) flags) \<or>
          \<not> b \<and> lookup s' pml4 k = lookup s pml4 k
        else lookup s' pml4 k = lookup s pml4 k) \<and>
     map_internal pml4 phys virt n flags s = (if b then Some (True, s') else do { s \<leftarrow> unmap_internal pml4 va m s'; Some (False, s) }) \<and>
     (\<not> b \<longrightarrow> mem_allocz PAGE_SIZE s' = Some (NULL, s')) \<and>
     (spare s (tables_for 3 (page_of virt) (pages_in n)) \<longrightarrow> b)"
proof -
  let ?va = "virt AND PAGE_ADDR_POS" and ?a = "page_of virt" and ?N = "of_nat (pages_in n) :: usize"
  let ?i = "ucast (get_bits ?va 39 47) :: u16"
  have va: "va_at (Suc 3) ?a ?va" using va_at_root [of virt] by simp
  note st = va_at_step [OF va]
  have a: "unat ?i * 512 ^ 3 + ?a mod 512 ^ 3 = ?a" using st(1) div_mult_mod_eq by simp
  have N: "unat ?N = pages_in n" by (simp add: pages_in_def)
  have pre: "run_pre s H 3 511 pml4 ?i (?a mod 512 ^ 3) (push_bit 9 ?va) ?N"
    unfolding run_pre_def a N using assms st(2) by (simp add: space_ok_def)
  have l: "(3 :: nat) < 4" by simp
  from map_run [OF l pre, unfolded a] obtain b va' n' s' H' where
    m: "map_loop phys flags ?N 3 pml4 ?i (push_bit 9 ?va) ?N s = Some (b, va', n', s')"
    and r: "run_post phys flags ?N s H 3 511 pml4 ?a ?N b va' n' s' H'" by blast
  have c: "min (pages_in n) (511 * 512 ^ 3 - ?a) = pages_in n" using assms(2) by linarith
  have R: "holds s' H'" "kernel_vma s' = kernel_vma s" "grown (mem_of s) H (mem_of s') H' (kernel_vma s) 3 511 pml4"
    "updated (page_at phys (kernel_vma s) flags (?N - ?N - of_nat ?a)) b ?a (pages_in n) (lookup s pml4) (lookup s' pml4) (511 * 512 ^ 3)"
    "\<not> b \<longrightarrow> mem_allocz PAGE_SIZE s' = Some (NULL, s')"
    "\<And>m. spare s m \<Longrightarrow> if b then spare s' (m - tables_for 3 ?a (pages_in n)) else m < tables_for 3 ?a (pages_in n)"
    using r unfolding run_post_def N c lookup_def Let_def by simp_all
  have "space_ok s' H' pml4" "H \<subseteq> H'" using R(1-3) assms(1) by (simp_all add: space_ok_def grown_def)
  moreover have "map_internal_recurse phys ?va ?N ?N (PAGE_LEVELS - 1) pml4 flags s = Some (b, va', n', s')"
    using m by (simp add: map_internal_recurse_def Let_def PAGE_LEVELS_def)
  moreover have "map_internal pml4 phys virt n flags s = (if b then Some (True, s') else do { s \<leftarrow> unmap_internal pml4 va' n' s'; Some (False, s) })"
    using m by (simp add: map_internal_eq)
  moreover have "page_at phys (kernel_vma s) flags (?N - ?N - of_nat ?a) k = set_value (phys + PAGE_SIZE * of_nat (k - ?a) - kernel_vma s) flags"
    if "?a \<le> k" for k using that by (simp add: page_at_def of_nat_diff)
  then have "\<forall>k < 511 * 512 ^ 3. if ?a \<le> k \<and> k < ?a + pages_in n
      then lookup s' pml4 k = Some (set_value (phys + PAGE_SIZE * of_nat (k - ?a) - kernel_vma s) flags) \<or> \<not> b \<and> lookup s' pml4 k = lookup s pml4 k
      else lookup s' pml4 k = lookup s pml4 k"
    using R(4) unfolding updated_def by (metis (no_types, lifting))
  moreover have "b" if "spare s (tables_for 3 ?a (pages_in n))" using R(6) [OF that] by (cases b) simp_all
  ultimately show ?thesis using R(5) by blast
qed

text \<open>With the pages for its tables it succeeds.\<close>

lemma map_internal_maps:
  assumes "space_ok s H pml4" and "page_of virt + pages_in n \<le> 511 * 512 ^ 3" and "spare s (tables_for 3 (page_of virt) (pages_in n))"
  obtains s' H' where "map_internal pml4 phys virt n flags s = Some (True, s')" "space_ok s' H' pml4" "H \<subseteq> H'"
    "\<forall>k < 511 * 512 ^ 3. lookup s' pml4 k = (if page_of virt \<le> k \<and> k < page_of virt + pages_in n
       then Some (set_value (phys + PAGE_SIZE * of_nat (k - page_of virt) - kernel_vma s) flags) else lookup s pml4 k)"
proof -
  from map_internal_spec [OF assms(1,2), of phys flags] assms(3) obtain b va m s' H' where b: "b"
    and m: "space_ok s' H' pml4" "H \<subseteq> H'"
      "map_internal pml4 phys virt n flags s = (if b then Some (True, s') else do { s \<leftarrow> unmap_internal pml4 va m s'; Some (False, s) })"
    and l: "\<forall>k < 511 * 512 ^ 3. if page_of virt \<le> k \<and> k < page_of virt + pages_in n
        then lookup s' pml4 k = Some (set_value (phys + PAGE_SIZE * of_nat (k - page_of virt) - kernel_vma s) flags) \<or>
          \<not> b \<and> lookup s' pml4 k = lookup s pml4 k
        else lookup s' pml4 k = lookup s pml4 k" by blast
  have 1: "map_internal pml4 phys virt n flags s = Some (True, s')" "space_ok s' H' pml4" "H \<subseteq> H'"
    using m b by simp_all
  have 2: "\<forall>k < 511 * 512 ^ 3. if page_of virt \<le> k \<and> k < page_of virt + pages_in n
        then lookup s' pml4 k = Some (set_value (phys + PAGE_SIZE * of_nat (k - page_of virt) - kernel_vma s) flags)
        else lookup s' pml4 k = lookup s pml4 k" using l by (simp only: b simp_thms)
  have "\<forall>k < 511 * 512 ^ 3. lookup s' pml4 k = (if page_of virt \<le> k \<and> k < page_of virt + pages_in n
       then Some (set_value (phys + PAGE_SIZE * of_nat (k - page_of virt) - kernel_vma s) flags) else lookup s pml4 k)"
    using 2 by presburger
  with 1 show thesis by (rule that)
qed

text \<open>
  C17: mapping a run of pages. In an address space whose tables are pages of the memory manager,
  for pages below the kernel's half, \<open>map_internal_recurse\<close> returns and the tables stay a tree of
  the manager's pages. The processor then finds for each page of the run the given frame and flags,
  or what it found before if the recursion gave up, and for every other page what it found before.
  It gives up only when the memory manager has no page left, and never when the manager starts
  with a page for each table that the run passes through. When it succeeds it is all of
  \<open>map_internal\<close>, which returns true. When it gives up \<open>map_internal\<close> goes on with \<open>unmap_internal\<close>
  on the address and count that are left; the outcome of that clean-up is not part of the claim.
\<close>
theorem map_internal_correct:
  assumes "space_ok s H pml4" and "page_of virt + pages_in n \<le> 511 * 512 ^ 3"
  shows "\<exists>b va m s' H'. map_internal_recurse phys (virt AND PAGE_ADDR_POS) (of_nat (pages_in n)) (of_nat (pages_in n)) (PAGE_LEVELS - 1) pml4 flags s =
       Some (b, va, m, s') \<and> space_ok s' H' pml4 \<and> H \<subseteq> H' \<and>
     (\<forall>k < 511 * 512 ^ 3. if page_of virt \<le> k \<and> k < page_of virt + pages_in n
        then lookup s' pml4 k = Some (set_value (phys + PAGE_SIZE * of_nat (k - page_of virt) - kernel_vma s) flags) \<or>
          \<not> b \<and> lookup s' pml4 k = lookup s pml4 k
        else lookup s' pml4 k = lookup s pml4 k) \<and>
     map_internal pml4 phys virt n flags s = (if b then Some (True, s') else do { s \<leftarrow> unmap_internal pml4 va m s'; Some (False, s) }) \<and>
     (\<not> b \<longrightarrow> mem_allocz PAGE_SIZE s' = Some (NULL, s')) \<and>
     (spare s (tables_for 3 (page_of virt) (pages_in n)) \<longrightarrow> b)"
  using assms by (rule map_internal_spec)

section \<open>Example\<close>

definition ex_tables :: "pmem \<Rightarrow> pallocator \<Rightarrow> mm" where
  "ex_tables pm pa = upd_bytes (\<lambda>_ _. 0) (one_node pm pa)"

lemma ex_space: 
  assumes "node_ok pm pa {(0x104000, 13)}" "lo pa = 0x100000" "hi pa = 0x106000"
  shows "space_ok (ex_tables pm pa) {0x104000} 0x104000" "lookup (ex_tables pm pa) 0x104000 k = None"
proof -
  let ?s = "ex_tables pm pa"
  have b: "mem_of ?s = (\<lambda>_. 0)" "kernel_vma ?s = 0" "allocator_len ?s = 1" "allocators ?s = [pa]"
    by (simp_all add: ex_tables_def upd_bytes_def one_node_def)
  have e: "entry (\<lambda>_. 0) p i = 0" "\<not> present 0" for p i by (simp_all add: entry_def rd64_zero present_def)
  have "mm_ok ?s (\<lambda>_. {(0x104000, 13)})" using one_node_ok [OF assms(1)] by (simp add: ex_tables_def)
  then have "holds ?s {0x104000}" unfolding holds_def using assms(2,3) b(2-4) by (intro conjI exI [of _ "\<lambda>_. {(0x104000, 13)}"]) auto
  then show "space_ok ?s {0x104000} 0x104000" using e by (simp add: space_ok_def b numeral_3_eq_3)
  show "lookup ?s 0x104000 k = None" using e by (simp add: lookup_def b numeral_3_eq_3)
qed

lemma ex_spare:
  assumes "node_ok pm pa {(0x104000, 13)}" "bits pa = 12" "lo pa = 0x100000" "hi pa = 0x106000" "m \<le> 4"
  shows "spare (ex_tables pm pa) m"
proof -
  let ?s = "ex_tables pm pa"
  have b: "allocator_len ?s = 1" "allocators ?s = [pa]" by (simp_all add: ex_tables_def upd_bytes_def one_node_def)
  have "mm_ok ?s (\<lambda>_. {(0x104000, 13)})" using one_node_ok [OF assms(1)] by (simp add: ex_tables_def)
  moreover have "pages_left ?s (\<lambda>_. {(0x104000, 13)}) = 4" using assms(2-4) by (simp add: pages_left_def pages_free_def b lessThan_Suc)
  ultimately show ?thesis using assms(5) unfolding spare_def by metis
qed

lemma tables_for_one: "tables_for 3 a 1 = 3"
proof -
  have "{a ..< a + 1} = {a}" by auto
  then show ?thesis by (simp add: tables_for_def)
qed

theorem map_internal_correct_witness:
  "\<exists>s s' H'. space_ok s {0x104000} 0x104000 \<and> map_internal 0x104000 0x5000 0x7000 4096 V_WRITE s = Some (True, s') \<and>
     space_ok s' H' 0x104000 \<and> lookup s' 0x104000 7 = Some (set_value 0x5000 V_WRITE) \<and> lookup s' 0x104000 8 = None"
proof -
  from ex_held obtain pm pa where
    h: "node_ok pm pa {(0x104000, 13)}" "bits pa = 12" "lo pa = 0x100000" "hi pa = 0x106000" by blast
  let ?s = "ex_tables pm pa"
  note sp = ex_space [OF h(1,3,4)]
  have v: "kernel_vma ?s = 0" by (simp add: ex_tables_def upd_bytes_def one_node_def)
  have p: "page_of 0x7000 = 7" "pages_in 4096 = 1"
    by (simp_all add: page_of_def pages_in_def PAGE_ADDR_POS_def PAGE_SIZE_def align_up_def)
  have bd: "page_of 0x7000 + pages_in 4096 \<le> 511 * 512 ^ 3" by (simp add: p)
  have "spare ?s (tables_for 3 (page_of 0x7000) (pages_in 4096))"
    unfolding p tables_for_one by (rule ex_spare [OF h]) simp
  with map_internal_correct [OF sp(1) bd, of "0x5000" V_WRITE] obtain b va n s' H' where b: "b" and ok: "space_ok s' H' 0x104000"
    and mi: "map_internal 0x104000 0x5000 0x7000 4096 V_WRITE ?s =
      (if b then Some (True, s') else do { s \<leftarrow> unmap_internal 0x104000 va n s'; Some (False, s) })"
    and l: "\<forall>k < 511 * 512 ^ 3. if page_of 0x7000 \<le> k \<and> k < page_of 0x7000 + pages_in 4096
      then lookup s' 0x104000 k = Some (set_value (0x5000 + PAGE_SIZE * of_nat (k - page_of 0x7000) - kernel_vma ?s) V_WRITE) \<or>
        \<not> b \<and> lookup s' 0x104000 k = lookup ?s 0x104000 k
      else lookup s' 0x104000 k = lookup ?s 0x104000 k" by blast
  have m: "map_internal 0x104000 0x5000 0x7000 4096 V_WRITE ?s = Some (True, s')" "space_ok s' H' 0x104000" using mi ok b by simp_all
  have "lookup s' 0x104000 7 = Some (set_value 0x5000 V_WRITE)" "lookup s' 0x104000 8 = None"
    using l [rule_format, of 7] l [rule_format, of 8] b p v sp(2) by simp_all
  with m sp(1) show ?thesis by blast
qed

end
