(* ===== verification/Vmem.thy ===== *)
theory Vmem
  imports Linked_List Page_Map
begin

text \<open>
  Address spaces, the zone half of \<^verbatim>\<open>src/mem/vmem.cpp\<close> and the classes of
  \<^verbatim>\<open>include/mem/vmem.hpp\<close>. An address space keeps its zones in an intrusive list that is meant to
  be sorted by address and to end with the zone of the kernel. The zones are objects of the kernel
  heap; their fields form a heap of records beside the node heap of the lists, the array lists and
  the physical allocations they hold are in the byte memory. \<^term>\<open>None\<close> is a \<open>NULL\<close> dereference, a
  failed assertion or a loop that does not return.
\<close>

unbundle bit_operations_syntax

section \<open>Data\<close>

datatype alloc_type = at_valloc | at_map | at_reserve | at_kernel

record virt_zone =
  z_virt_addr :: usize
  z_len :: usize
  z_type :: alloc_type
  z_allocations :: array_list
  z_flags :: usize
  z_phys_addr :: usize

text \<open>
  The state an operation sees: the memory manager with the byte memory, the node heap and the
  records of the zones, the members of the address space, whether it is the one of the running
  process, and the pages whose translation was flushed.
\<close>

record addr_space =
  as_mm :: mm
  as_nodes :: nodes
  as_zones :: "ptr \<Rightarrow> virt_zone"
  as_kernel_z :: ptr
  as_pml4 :: usize
  as_allocs :: linked_list
  as_current :: bool
  as_synced :: "usize list"
  kernel_pdp_table :: usize

definition MAX_MEM :: usize where "MAX_MEM = push_bit 48 1"

text \<open>The sizes of the classes: two links, four words, the type, and an array list of four words.\<close>

definition VIRT_ZONE_SIZE :: usize where "VIRT_ZONE_SIZE = 88"
definition PHYS_ALLOCATION_SIZE :: usize where "PHYS_ALLOCATION_SIZE = 16"

definition on_mm :: "(mm \<Rightarrow> mm option) \<Rightarrow> addr_space \<Rightarrow> addr_space option" where
  "on_mm f s = do { m \<leftarrow> f (as_mm s); Some (s\<lparr>as_mm := m\<rparr>) }"

definition with_mm :: "(mm \<Rightarrow> ('a \<times> mm) option) \<Rightarrow> addr_space \<Rightarrow> ('a \<times> addr_space) option" where
  "with_mm f s = do { (r, m) \<leftarrow> f (as_mm s); Some (r, s\<lparr>as_mm := m\<rparr>) }"

definition get_zone :: "ptr \<Rightarrow> addr_space \<Rightarrow> virt_zone option" where
  "get_zone p s = (if p = NULL then None else Some (as_zones s p))"

definition set_zone :: "ptr \<Rightarrow> virt_zone \<Rightarrow> addr_space \<Rightarrow> addr_space option" where
  "set_zone p z s = (if p = NULL then None else Some (s\<lparr>as_zones := (as_zones s)(p := z)\<rparr>))"

definition allocs_len :: "addr_space \<Rightarrow> usize" where "allocs_len s = l_len (as_allocs s)"

definition allocs_at :: "usize \<Rightarrow> addr_space \<Rightarrow> (ptr \<times> addr_space) option" where
  "allocs_at i s = do { (p, l) \<leftarrow> list_at (as_nodes s) (as_allocs s) i; Some (p, s\<lparr>as_allocs := l\<rparr>) }"

definition allocs_append :: "ptr \<Rightarrow> addr_space \<Rightarrow> addr_space option" where
  "allocs_append p s = do { (h, l) \<leftarrow> list_append (as_nodes s) (as_allocs s) p; Some (s\<lparr>as_nodes := h, as_allocs := l\<rparr>) }"

definition allocs_prepend :: "ptr \<Rightarrow> addr_space \<Rightarrow> addr_space option" where
  "allocs_prepend p s = do { (h, l) \<leftarrow> list_prepend (as_nodes s) (as_allocs s) p; Some (s\<lparr>as_nodes := h, as_allocs := l\<rparr>) }"

definition allocs_insert :: "usize \<Rightarrow> ptr \<Rightarrow> addr_space \<Rightarrow> addr_space option" where
  "allocs_insert i p s = do { (_, h, l) \<leftarrow> list_insert (as_nodes s) (as_allocs s) i p; Some (s\<lparr>as_nodes := h, as_allocs := l\<rparr>) }"

definition allocs_remove :: "usize \<Rightarrow> addr_space \<Rightarrow> addr_space option" where
  "allocs_remove i s = do { (_, h, l) \<leftarrow> list_remove (as_nodes s) (as_allocs s) i; Some (s\<lparr>as_nodes := h, as_allocs := l\<rparr>) }"

definition allocs_remove_p :: "ptr \<Rightarrow> addr_space \<Rightarrow> addr_space option" where
  "allocs_remove_p p s = do { (h, l) \<leftarrow> list_remove_p (as_nodes s) (as_allocs s) p; Some (s\<lparr>as_nodes := h, as_allocs := l\<rparr>) }"

text \<open>
  A new zone. The operator is not declared to return \<open>NULL\<close>, so the constructor runs unchecked; the
  heap clears the object before.
\<close>

definition new_zone :: "ptr \<Rightarrow> alloc_type \<Rightarrow> addr_space \<Rightarrow> (ptr \<times> addr_space) option" where
  "new_zone ms t s = do {
     (p, s) \<leftarrow> with_mm (op_new ms VIRT_ZONE_SIZE) s;
     if p = NULL then None
     else do {
       (a, s) \<leftarrow> with_mm (al_new ms True) s;
       s \<leftarrow> set_zone p \<lparr>z_virt_addr = 0, z_len = 0, z_type = t, z_allocations = a, z_flags = 0, z_phys_addr = 0\<rparr> s;
       Some (p, s\<lparr>as_nodes := (as_nodes s)(p := \<lparr>n_prev = NULL, n_next = NULL\<rparr>)\<rparr>)
     }
   }"

definition delete_zone :: "ptr \<Rightarrow> ptr \<Rightarrow> addr_space \<Rightarrow> addr_space option" where
  "delete_zone ms p s = do {
     z \<leftarrow> get_zone p s;
     s \<leftarrow> on_mm (al_delete ms PHYS_ALLOCATION_SIZE (z_allocations z)) s;
     on_mm (op_delete ms p VIRT_ZONE_SIZE) s
   }"

definition free_zone :: "ptr \<Rightarrow> ptr \<Rightarrow> addr_space \<Rightarrow> addr_space option" where
  "free_zone ms p s = on_mm (kfree ms p VIRT_ZONE_SIZE) s"

section \<open>Places\<close>

text \<open>The loop carries the zone it looked at last.\<close>

partial_function (option) insert_zone_loop :: "usize \<Rightarrow> ptr \<Rightarrow> ptr \<Rightarrow> addr_space \<Rightarrow> (bool \<times> addr_space) option" where
  "insert_zone_loop i current allocation s =
     (if i < allocs_len s then do {
        let last = current;
        (current, s) \<leftarrow> allocs_at i s;
        c \<leftarrow> get_zone current s;
        a \<leftarrow> get_zone allocation s;
        if z_virt_addr a \<ge> z_virt_addr c \<and> z_virt_addr a < z_virt_addr c + z_len c then Some (False, s)
        else if (last = NULL \<or> z_virt_addr a \<ge> z_virt_addr (as_zones s last) + z_len (as_zones s last)) \<and>
            z_virt_addr a + z_len a < z_virt_addr c then do {
          s \<leftarrow> allocs_insert i allocation s;
          Some (True, s)
        }
        else insert_zone_loop (i + 1) current allocation s
      }
      else do {
        a \<leftarrow> get_zone allocation s;
        if (current = NULL \<or> z_virt_addr a \<ge> z_virt_addr (as_zones s current) + z_len (as_zones s current)) \<and>
           z_virt_addr a + z_len a \<le> MAX_MEM then do {
          s \<leftarrow> allocs_append allocation s;
          Some (True, s)
        }
        else Some (False, s)
      })"

definition insert_virt_zone :: "ptr \<Rightarrow> addr_space \<Rightarrow> (bool \<times> addr_space) option" where
  "insert_virt_zone allocation s = insert_zone_loop 0 NULL allocation s"

text \<open>The loop that looks for a gap from the top; the index is signed.\<close>

partial_function (option) find_loop :: "isize \<Rightarrow> ptr \<Rightarrow> ptr \<Rightarrow> addr_space \<Rightarrow> (usize \<times> ptr \<times> addr_space) option" where
  "find_loop i current allocation s =
     (if sint i \<ge> 0 then do {
        let last = current;
        (current, s) \<leftarrow> allocs_at i s;
        c \<leftarrow> get_zone current s;
        l \<leftarrow> get_zone last s;
        a \<leftarrow> get_zone allocation s;
        let current_end = z_virt_addr c + z_len c;
        if z_virt_addr l - current_end \<ge> z_len a then do {
          s \<leftarrow> allocs_insert (i + 1) allocation s;
          Some (current_end, current, s)
        }
        else find_loop (i - 1) current allocation s
      }
      else Some (0, current, s))"

definition find_address :: "ptr \<Rightarrow> addr_space \<Rightarrow> (usize \<times> addr_space) option" where
  "find_address allocation s = do {
     let i = allocs_len s;
     (current, s) \<leftarrow> allocs_at (i - 1) s;
     c \<leftarrow> get_zone current s;
     a \<leftarrow> get_zone allocation s;
     if z_type c \<noteq> at_kernel then None else do {
       (addr, s) \<leftarrow>
         (if i = 1 \<and> z_virt_addr c - PAGE_SIZE \<ge> z_len a then do {
            s \<leftarrow> allocs_prepend allocation s;
            Some (PAGE_SIZE, s)
          }
          else if sint i > 1 then do {
            (addr, current, s) \<leftarrow> find_loop (i - 2) current allocation s;
            if addr = 0 \<and> current - PAGE_SIZE \<ge> z_len a then do {
              s \<leftarrow> allocs_prepend allocation s;
              Some (PAGE_SIZE, s)
            }
            else Some (addr, s)
          }
          else Some (0, s));
       if addr = 0 then Some (0, s)
       else do {
         a \<leftarrow> get_zone allocation s;
         s \<leftarrow> set_zone allocation (a\<lparr>z_virt_addr := addr\<rparr>) s;
         Some (addr, s)
       }
     }
   }"

partial_function (option) free_space_loop :: "usize \<Rightarrow> ptr \<Rightarrow> usize \<Rightarrow> addr_space \<Rightarrow> (usize \<times> addr_space) option" where
  "free_space_loop i current virt_addr s =
     (if i < allocs_len s then do {
        let last = current;
        (current, s) \<leftarrow> allocs_at i s;
        c \<leftarrow> get_zone current s;
        if virt_addr \<ge> z_virt_addr c \<and> virt_addr < z_virt_addr c + z_len c then Some (0, s)
        else if (last = NULL \<or> virt_addr \<ge> z_virt_addr (as_zones s last) + z_len (as_zones s last)) \<and> virt_addr < z_virt_addr c
        then Some (z_virt_addr c - virt_addr, s)
        else free_space_loop (i + 1) current virt_addr s
      }
      else Some (if current = NULL \<or> virt_addr \<ge> z_virt_addr (as_zones s current) + z_len (as_zones s current)
                 then MAX_MEM - virt_addr else 0, s))"

definition get_free_space :: "usize \<Rightarrow> addr_space \<Rightarrow> (usize \<times> addr_space) option" where
  "get_free_space virt_addr s = free_space_loop 0 NULL virt_addr s"

section \<open>Flushing\<close>

text \<open>The address wraps around like the sum it is compared with.\<close>

partial_function (option) sync_raw_loop :: "usize \<Rightarrow> usize \<Rightarrow> usize \<Rightarrow> addr_space \<Rightarrow> addr_space option" where
  "sync_raw_loop addr virt_addr n s =
     (if addr < virt_addr + n then sync_raw_loop (addr + PAGE_SIZE) virt_addr n (s\<lparr>as_synced := as_synced s @ [addr]\<rparr>)
      else Some s)"

definition sync_tlb_raw :: "usize \<Rightarrow> usize \<Rightarrow> addr_space \<Rightarrow> addr_space option" where
  "sync_tlb_raw virt_addr n s = sync_raw_loop virt_addr virt_addr n s"

partial_function (option) sync_loop :: "usize \<Rightarrow> usize \<Rightarrow> addr_space \<Rightarrow> addr_space option" where
  "sync_loop i virt_addr s =
     (if i < allocs_len s then do {
        (p, s) \<leftarrow> allocs_at i s;
        z \<leftarrow> get_zone p s;
        s \<leftarrow> (if (z_type z = at_valloc \<or> z_type z = at_map) \<and> z_virt_addr z = virt_addr
              then sync_tlb_raw (z_virt_addr z) (z_len z) s else Some s);
        sync_loop (i + 1) virt_addr s
      }
      else Some s)"

definition sync_tlb :: "usize \<Rightarrow> addr_space \<Rightarrow> addr_space option" where
  "sync_tlb virt_addr s = sync_loop 0 (align_down virt_addr PAGE_SIZE) s"

section \<open>Reserving\<close>

definition reserve :: "ptr \<Rightarrow> usize \<Rightarrow> addr_space \<Rightarrow> (ptr \<times> addr_space) option" where
  "reserve ms n s =
     (if n = 0 then Some (NULL, s)
      else do {
        (zone, s) \<leftarrow> new_zone ms at_reserve s;
        let n = align_up n PAGE_SIZE;
        z \<leftarrow> get_zone zone s;
        s \<leftarrow> set_zone zone (z\<lparr>z_len := n\<rparr>) s;
        (virt_addr, s) \<leftarrow> find_address zone s;
        if virt_addr = 0 then do { s \<leftarrow> delete_zone ms zone s; Some (NULL, s) }
        else Some (virt_addr, s)
      })"

definition reserve_at :: "ptr \<Rightarrow> usize \<Rightarrow> usize \<Rightarrow> addr_space \<Rightarrow> (bool \<times> addr_space) option" where
  "reserve_at ms virt_addr n s = do {
     (zone, s) \<leftarrow> new_zone ms at_reserve s;
     let virt_addr = align_down virt_addr PAGE_SIZE;
     let n = align_up n PAGE_SIZE;
     z \<leftarrow> get_zone zone s;
     s \<leftarrow> set_zone zone (z\<lparr>z_virt_addr := virt_addr, z_len := n\<rparr>) s;
     (b, s) \<leftarrow> insert_virt_zone zone s;
     if \<not> b then do { s \<leftarrow> delete_zone ms zone s; Some (False, s) }
     else Some (True, s)
   }"

partial_function (option) unreserve_loop :: "ptr \<Rightarrow> usize \<Rightarrow> usize \<Rightarrow> addr_space \<Rightarrow> addr_space option" where
  "unreserve_loop ms i virt_addr s =
     (if i < allocs_len s then do {
        (p, s) \<leftarrow> allocs_at i s;
        z \<leftarrow> get_zone p s;
        if z_virt_addr z = virt_addr \<and> z_type z = at_reserve then do {
          s \<leftarrow> allocs_remove i s;
          delete_zone ms p s
        }
        else unreserve_loop ms (i + 1) virt_addr s
      }
      else Some s)"

definition unreserve :: "ptr \<Rightarrow> usize \<Rightarrow> addr_space \<Rightarrow> addr_space option" where
  "unreserve ms virt_addr s = unreserve_loop ms 0 (align_down virt_addr PAGE_SIZE) s"

section \<open>Mapping\<close>

definition as_map_internal :: "usize \<Rightarrow> usize \<Rightarrow> usize \<Rightarrow> usize \<Rightarrow> addr_space \<Rightarrow> (bool \<times> addr_space) option" where
  "as_map_internal phys_addr virt_addr n flags s = with_mm (map_internal (as_pml4 s) phys_addr virt_addr n flags) s"

definition as_unmap_internal :: "usize \<Rightarrow> usize \<Rightarrow> addr_space \<Rightarrow> addr_space option" where
  "as_unmap_internal virt_addr n s = on_mm (unmap_internal (as_pml4 s) virt_addr n) s"

definition as_map :: "ptr \<Rightarrow> usize \<Rightarrow> usize \<Rightarrow> usize \<Rightarrow> addr_space \<Rightarrow> (ptr \<times> addr_space) option" where
  "as_map ms phys_addr n flags s =
     (if n = 0 then Some (NULL, s)
      else do {
        (zone, s) \<leftarrow> new_zone ms at_map s;
        let phys_addr = align_down phys_addr PAGE_SIZE;
        let n = align_up n PAGE_SIZE;
        z \<leftarrow> get_zone zone s;
        s \<leftarrow> set_zone zone (z\<lparr>z_phys_addr := phys_addr, z_len := n\<rparr>) s;
        (virt_addr, s) \<leftarrow> find_address zone s;
        if virt_addr = 0 then do { s \<leftarrow> free_zone ms zone s; Some (NULL, s) }
        else do {
          z \<leftarrow> get_zone zone s;
          (flag, s) \<leftarrow> as_map_internal phys_addr virt_addr (z_len z) flags s;
          if \<not> flag then do {
            s \<leftarrow> allocs_remove_p zone s;
            s \<leftarrow> free_zone ms zone s;
            Some (NULL, s)
          }
          else do {
            s \<leftarrow> (if as_current s then sync_tlb virt_addr s else Some s);
            Some (virt_addr, s)
          }
        }
      })"

definition as_map_at :: "ptr \<Rightarrow> usize \<Rightarrow> usize \<Rightarrow> usize \<Rightarrow> usize \<Rightarrow> addr_space \<Rightarrow> (bool \<times> addr_space) option" where
  "as_map_at ms phys_addr virt_addr n flags s =
     (if n = 0 then Some (False, s)
      else do {
        (zone, s) \<leftarrow> new_zone ms at_map s;
        let phys_addr = align_down phys_addr PAGE_SIZE;
        let virt_addr = align_down virt_addr PAGE_SIZE;
        let n = align_up n PAGE_SIZE;
        z \<leftarrow> get_zone zone s;
        s \<leftarrow> set_zone zone (z\<lparr>z_phys_addr := phys_addr, z_len := n, z_virt_addr := virt_addr\<rparr>) s;
        (b, s) \<leftarrow> insert_virt_zone zone s;
        if \<not> b then do { s \<leftarrow> delete_zone ms zone s; Some (False, s) }
        else do {
          (flag, s) \<leftarrow> as_map_internal phys_addr virt_addr n flags s;
          if \<not> flag then do {
            s \<leftarrow> allocs_remove_p zone s;
            s \<leftarrow> delete_zone ms zone s;
            Some (False, s)
          }
          else do {
            s \<leftarrow> (if as_current s then sync_tlb virt_addr s else Some s);
            Some (True, s)
          }
        }
      })"

partial_function (option) unmap_zone_loop :: "ptr \<Rightarrow> usize \<Rightarrow> usize \<Rightarrow> addr_space \<Rightarrow> (ptr \<times> addr_space) option" where
  "unmap_zone_loop ms i virt_addr s =
     (if i < allocs_len s then do {
        (p, s) \<leftarrow> allocs_at i s;
        z \<leftarrow> get_zone p s;
        if z_virt_addr z = virt_addr \<and> z_type z = at_map then do {
          let out = z_phys_addr z;
          s \<leftarrow> as_unmap_internal (z_virt_addr z) (z_len z) s;
          s \<leftarrow> allocs_remove i s;
          s \<leftarrow> free_zone ms p s;
          Some (out, s)
        }
        else unmap_zone_loop ms (i + 1) virt_addr s
      }
      else do {
        s \<leftarrow> (if as_current s then sync_tlb virt_addr s else Some s);
        Some (NULL, s)
      })"

definition as_unmap :: "ptr \<Rightarrow> usize \<Rightarrow> addr_space \<Rightarrow> (ptr \<times> addr_space) option" where
  "as_unmap ms virt_addr s = unmap_zone_loop ms 0 (align_down virt_addr PAGE_SIZE) s"

section \<open>Allocating\<close>

definition new_phys :: "ptr \<Rightarrow> usize \<Rightarrow> usize \<Rightarrow> addr_space \<Rightarrow> (ptr \<times> addr_space) option" where
  "new_phys ms addr len s = do {
     (p, s) \<leftarrow> with_mm (op_new ms PHYS_ALLOCATION_SIZE) s;
     s \<leftarrow> on_mm (set_word p addr) s;
     s \<leftarrow> on_mm (set_word (p + 8) len) s;
     Some (p, s)
   }"

definition phys_addr_of :: "ptr \<Rightarrow> addr_space \<Rightarrow> usize option" where "phys_addr_of p s = get_word p (as_mm s)"
definition phys_len_of :: "ptr \<Rightarrow> addr_space \<Rightarrow> usize option" where "phys_len_of p s = get_word (p + 8) (as_mm s)"

text \<open>The list of a zone is a member of the zone, so the loops carry it.\<close>

partial_function (option) collect_loop ::
  "ptr \<Rightarrow> usize \<Rightarrow> usize \<Rightarrow> array_list \<Rightarrow> addr_space \<Rightarrow> (usize \<times> array_list \<times> addr_space) option" where
  "collect_loop ms alloc_size n list s =
     (if n = 0 then Some (n, list, s)
      else if alloc_size < PAGE_SIZE then Some (n, list, s)
      else do {
        (mem, s) \<leftarrow> with_mm (mem_alloc alloc_size) s;
        if mem = NULL then collect_loop ms (drop_bit 1 alloc_size) n list s
        else do {
          (palloc, s) \<leftarrow> new_phys ms mem alloc_size s;
          (_, list, m) \<leftarrow> al_push ms palloc list (as_mm s);
          let s = s\<lparr>as_mm := m\<rparr>;
          collect_loop ms alloc_size (n - alloc_size) list s
        }
      })"

partial_function (option) give_back_loop :: "ptr \<Rightarrow> usize \<Rightarrow> array_list \<Rightarrow> addr_space \<Rightarrow> (array_list \<times> addr_space) option" where
  "give_back_loop ms save_len list s =
     (if save_len < al_len list then do {
        (palloc, list, m) \<leftarrow> al_pop ms list (as_mm s);
        let s = s\<lparr>as_mm := m\<rparr>;
        a \<leftarrow> phys_addr_of palloc s;
        s \<leftarrow> on_mm (mem_free a) s;
        give_back_loop ms save_len list s
      }
      else Some (list, s))"

definition collect_phys_zones :: "ptr \<Rightarrow> array_list \<Rightarrow> usize \<Rightarrow> addr_space \<Rightarrow> (bool \<times> array_list \<times> addr_space) option" where
  "collect_phys_zones ms list n s =
     (if n = 0 then Some (True, list, s)
      else do {
        let alloc_size = mem_get_order_size (mem_get_order n (as_mm s)) (as_mm s);
        let save_len = al_len list;
        (n, list, s) \<leftarrow> collect_loop ms alloc_size n list s;
        if n = 0 then Some (True, list, s)
        else do {
          (list, s) \<leftarrow> give_back_loop ms save_len list s;
          Some (False, list, s)
        }
      })"

partial_function (option) unmap_len_loop :: "usize \<Rightarrow> usize \<Rightarrow> array_list \<Rightarrow> addr_space \<Rightarrow> usize option" where
  "unmap_len_loop j unmap_len list s =
     (if j > 0 then do {
        zone2 \<leftarrow> al_get j list (as_mm s);
        len \<leftarrow> phys_len_of zone2 s;
        unmap_len_loop (j - 1) (unmap_len + len) list s
      }
      else Some unmap_len)"

partial_function (option) map_alloc_loop :: "usize \<Rightarrow> usize \<Rightarrow> usize \<Rightarrow> ptr \<Rightarrow> addr_space \<Rightarrow> (ptr \<times> addr_space) option" where
  "map_alloc_loop i virt_addr_copy virt_addr allocation s = do {
     z \<leftarrow> get_zone allocation s;
     if i < al_len (z_allocations z) then do {
       zone \<leftarrow> al_get i (z_allocations z) (as_mm s);
       addr \<leftarrow> phys_addr_of zone s;
       len \<leftarrow> phys_len_of zone s;
       (b, s) \<leftarrow> as_map_internal addr virt_addr_copy len (z_flags z) s;
       if \<not> b then
         if i = 0 then Some (NULL, s)
         else do {
           unmap_len \<leftarrow> unmap_len_loop (i - 1) 0 (z_allocations z) s;
           s \<leftarrow> as_unmap_internal virt_addr unmap_len s;
           Some (NULL, s)
         }
       else do {
         len \<leftarrow> phys_len_of zone s;
         map_alloc_loop (i + 1) (virt_addr_copy + len) virt_addr allocation s
       }
     }
     else Some (virt_addr, s)
   }"

definition map_alloc_data :: "ptr \<Rightarrow> addr_space \<Rightarrow> (ptr \<times> addr_space) option" where
  "map_alloc_data allocation s = do {
     (virt_addr, s) \<leftarrow> find_address allocation s;
     if virt_addr = 0 then Some (NULL, s)
     else map_alloc_loop 0 virt_addr virt_addr allocation s
   }"

definition as_alloc :: "ptr \<Rightarrow> usize \<Rightarrow> usize \<Rightarrow> addr_space \<Rightarrow> (ptr \<times> addr_space) option" where
  "as_alloc ms n flags s =
     (if n = 0 then Some (NULL, s)
      else if n > mem_get_free_space (as_mm s) then Some (NULL, s)
      else do {
        (allocation, s) \<leftarrow> new_zone ms at_valloc s;
        let n = align_up n PAGE_SIZE;
        z \<leftarrow> get_zone allocation s;
        (b, list, s) \<leftarrow> collect_phys_zones ms (z_allocations z) n s;
        s \<leftarrow> set_zone allocation (z\<lparr>z_len := n, z_flags := flags, z_allocations := list\<rparr>) s;
        if \<not> b then do { s \<leftarrow> delete_zone ms allocation s; Some (NULL, s) }
        else do {
          (out, s) \<leftarrow> map_alloc_data allocation s;
          if out = NULL then do {
            s \<leftarrow> allocs_remove_p allocation s;
            s \<leftarrow> delete_zone ms allocation s;
            Some (NULL, s)
          }
          else do {
            s \<leftarrow> (if as_current s then sync_tlb out s else Some s);
            Some (out, s)
          }
        }
      })"

partial_function (option) free_phys_loop :: "usize \<Rightarrow> usize \<Rightarrow> usize \<Rightarrow> array_list \<Rightarrow> addr_space \<Rightarrow> addr_space option" where
  "free_phys_loop j offset virt_addr list s =
     (if j < al_len list then do {
        temp \<leftarrow> al_get j list (as_mm s);
        len \<leftarrow> phys_len_of temp s;
        s \<leftarrow> as_unmap_internal (virt_addr + offset) len s;
        len \<leftarrow> phys_len_of temp s;
        addr \<leftarrow> phys_addr_of temp s;
        s \<leftarrow> on_mm (mem_free addr) s;
        free_phys_loop (j + 1) (offset + len) virt_addr list s
      }
      else Some s)"

partial_function (option) free_loop :: "ptr \<Rightarrow> usize \<Rightarrow> usize \<Rightarrow> addr_space \<Rightarrow> addr_space option" where
  "free_loop ms i virt_addr s =
     (if i < allocs_len s then do {
        (p, s) \<leftarrow> allocs_at i s;
        z \<leftarrow> get_zone p s;
        s \<leftarrow> (if z_virt_addr z = virt_addr \<and> z_type z = at_valloc then do {
                s \<leftarrow> free_phys_loop 0 0 virt_addr (z_allocations z) s;
                s \<leftarrow> allocs_remove i s;
                delete_zone ms p s
              }
              else Some s);
        free_loop ms (i + 1) virt_addr s
      }
      else Some s)"

definition as_free :: "ptr \<Rightarrow> ptr \<Rightarrow> addr_space \<Rightarrow> addr_space option" where
  "as_free ms mem s = do {
     let virt_addr = align_down mem PAGE_SIZE;
     s \<leftarrow> free_loop ms 0 virt_addr s;
     if as_current s then sync_tlb virt_addr s else Some s
   }"

text \<open>
  The unfinished \<^verbatim>\<open>realloc\<close> copies the list of the zone it finds; the copy shares the block, and
  leaving the scope destroys it.
\<close>

partial_function (option) realloc_loop :: "ptr \<Rightarrow> usize \<Rightarrow> usize \<Rightarrow> usize \<Rightarrow> addr_space \<Rightarrow> (ptr \<times> addr_space) option" where
  "realloc_loop ms i virt_addr n s =
     (if i < allocs_len s then do {
        (p, s) \<leftarrow> allocs_at i s;
        z \<leftarrow> get_zone p s;
        if z_virt_addr z = virt_addr \<and> z_type z = at_valloc then do {
          let old_size = z_len z;
          let allocs = z_allocations z;
          s \<leftarrow> on_mm (al_delete ms PHYS_ALLOCATION_SIZE allocs) s;
          if old_size = n then Some (virt_addr, s)
          else realloc_loop ms (i + 1) virt_addr n s
        }
        else realloc_loop ms (i + 1) virt_addr n s
      }
      else Some (NULL, s))"

definition as_realloc :: "ptr \<Rightarrow> ptr \<Rightarrow> usize \<Rightarrow> usize \<Rightarrow> addr_space \<Rightarrow> (ptr \<times> addr_space) option" where
  "as_realloc ms mem n flags s =
     (let virt_addr = align_down mem PAGE_SIZE
      in if virt_addr = 0 then as_alloc ms n flags s
         else if n = 0 then do { s \<leftarrow> as_free ms mem s; Some (NULL, s) }
         else realloc_loop ms 0 virt_addr (align_up n PAGE_SIZE) s)"

section \<open>Construction and destruction\<close>

text \<open>The members are constructed before the body runs; \<open>PDP_table\<close> is the address of the linker symbol.\<close>

definition new_kernel_zone :: "ptr \<Rightarrow> addr_space \<Rightarrow> addr_space option" where
  "new_kernel_zone ms s = do {
     (a, s) \<leftarrow> with_mm (al_new ms True) s;
     let v = kernel_vma (as_mm s);
     set_zone (as_kernel_z s) ((as_zones s (as_kernel_z s))
       \<lparr>z_type := at_kernel, z_virt_addr := v, z_phys_addr := v, z_len := MAX_MEM - v, z_allocations := a\<rparr>) s
   }"

definition as_new :: "ptr \<Rightarrow> usize \<Rightarrow> addr_space \<Rightarrow> addr_space option" where
  "as_new ms PDP_table s = do {
     s \<leftarrow> new_kernel_zone ms s;
     let s = s\<lparr>as_allocs := new_list\<rparr>;
     (pml4, s) \<leftarrow> with_mm (mem_allocz PAGE_SIZE) s;
     let s = s\<lparr>as_pml4 := pml4\<rparr>;
     let s = (if kernel_pdp_table s = 0 then s\<lparr>kernel_pdp_table := PDP_table\<rparr> else s);
     (_, s) \<leftarrow> insert_virt_zone (as_kernel_z s) s;
     let i = ucast (get_bits (kernel_vma (as_mm s)) 39 47);
     (_, s) \<leftarrow> with_mm (page_set (as_pml4 s) i (kernel_pdp_table s) V_WRITE) s;
     Some s
   }"

definition as_release :: "ptr \<Rightarrow> virt_zone \<Rightarrow> addr_space \<Rightarrow> addr_space option" where
  "as_release ms z s =
     (if z_type z = at_valloc then as_free ms (z_virt_addr z) s
      else if z_type z = at_map then do { (_, s) \<leftarrow> as_unmap ms (z_virt_addr z) s; Some s }
      else if z_type z = at_reserve then unreserve ms (z_virt_addr z) s
      else Some s)"

partial_function (option) as_delete_loop :: "ptr \<Rightarrow> usize \<Rightarrow> addr_space \<Rightarrow> addr_space option" where
  "as_delete_loop ms i s =
     (if i < allocs_len s then do {
        (p, s) \<leftarrow> allocs_at i s;
        z \<leftarrow> get_zone p s;
        s \<leftarrow> as_release ms z s;
        as_delete_loop ms (i + 1) s
      }
      else Some s)"

definition as_delete :: "ptr \<Rightarrow> addr_space \<Rightarrow> addr_space option" where
  "as_delete ms s = do {
     s \<leftarrow> as_delete_loop ms 0 s;
     s \<leftarrow> on_mm (mem_free (as_pml4 s)) s;
     z \<leftarrow> get_zone (as_kernel_z s) s;
     on_mm (al_delete ms PHYS_ALLOCATION_SIZE (z_allocations z)) s
   }"

end
