(* ===== verification/Vmem_Props.thy ===== *)
theory Vmem_Props
  imports Vmem
begin

text \<open>
  What the zone operations do: they stack the zones in order below the kernel's, and mapping makes
  the processor find the given frames. The insertions of the list leave a stale index cache, which
  the other operations run into.
\<close>

unbundle bit_operations_syntax

section \<open>Zones in order\<close>

text \<open>
  The zones of an address space below the kernel's, in the order of the list. After an insertion
  the index cache is stale in one way: the last node is cached under the index before its own.
\<close>

definition zstart :: "addr_space \<Rightarrow> ptr \<Rightarrow> nat" where "zstart s p = unat (z_virt_addr (as_zones s p))"
definition zend :: "addr_space \<Rightarrow> ptr \<Rightarrow> nat" where "zend s p = zstart s p + unat (z_len (as_zones s p))"

definition found :: "linked_list \<Rightarrow> ptr list \<Rightarrow> bool" where
  "found l ys \<longleftrightarrow> cache_ok l ys \<or> l_current l = last ys \<and> 2 \<le> length ys \<and> l_current_i l = of_nat (length ys - 2)"

definition zones_ok :: "addr_space \<Rightarrow> ptr list \<Rightarrow> bool" where
  "zones_ok s xs \<longleftrightarrow> list_rep (as_nodes s) (as_allocs s) (xs @ [as_kernel_z s]) \<and> found (as_allocs s) (xs @ [as_kernel_z s]) \<and>
     length xs < 2 ^ 29 \<and> z_type (as_zones s (as_kernel_z s)) = at_kernel \<and> 4096 \<le> zstart s (as_kernel_z s) \<and>
     sorted_wrt (\<lambda>p q. zend s p \<le> zstart s q) (xs @ [as_kernel_z s]) \<and> (\<forall>x \<in> set xs. 4096 \<le> zstart s x)"

definition zones_top :: "addr_space \<Rightarrow> ptr list \<Rightarrow> nat" where
  "zones_top s xs = (if xs = [] then 4096 else zend s (last xs))"

lemma found_last:
  assumes r: "list_rep h l ys" and f: "found l ys" and len: "length ys < 2 ^ 30" and ne: "ys \<noteq> []"
  shows "list_at h l (of_nat (length ys - 1)) = Some (last ys, l\<lparr>l_current := last ys, l_current_i := of_nat (length ys - 1)\<rparr>)"
proof (cases "cache_ok l ys")
  case True
  show ?thesis using list_at_spec [OF r True, of "length ys - 1"] len ne by (simp add: last_conv_nth)
next
  case False
  then have c: "l_current l = last ys" "2 \<le> length ys" "l_current_i l = of_nat (length ys - 2)" using f by (auto simp: found_def)
  have nn: "last ys \<noteq> NULL" using r ne last_in_set unfolding list_rep_def by metis
  have ll: "l_len l = of_nat (length ys)" "l_end l = last ys" using r ne by (auto simp: list_rep_def)
  have i: "\<not> l_len l \<le> of_nat (length ys - 1)" using len ne unfolding ll(1) word_le_nat_alt
    by (subst (1 2) unat_of_nat_small) (simp_all add: not_le)
  have m: "of_nat (length ys - 1) - of_nat (length ys - 2) = (1 :: usize)" "of_nat (length ys) - of_nat (length ys - 1) - 1 = (0 :: usize)"
    "of_nat (length ys) - 1 = (of_nat (length ys - 1) :: usize)"
    using c(2) by (simp_all add: of_nat_diff)
  show ?thesis unfolding list_at_def Let_def using nn i c(1,3) m
    by (simp only: if_False ll) (simp add: m walk_here)
qed

lemma unat_zend: "zend s p < 2 ^ 64 \<Longrightarrow> unat (z_virt_addr (as_zones s p) + z_len (as_zones s p)) = zend s p"
  unfolding zend_def zstart_def by (subst unat_add_noov) simp_all

text \<open>
  \<open>find_address\<close> looks from the top, so it stacks the zones: the new one begins where the highest
  one ends.
\<close>

lemma find_address_stacks:
  assumes ok: "zones_ok s xs" and a: "a \<notin> set (xs @ [as_kernel_z s])" "a \<noteq> NULL"
    and room: "zones_top s xs + unat (z_len (as_zones s a)) \<le> zstart s (as_kernel_z s)"
  shows "\<exists>addr h l. find_address a s =
      Some (addr, s\<lparr>as_nodes := h, as_allocs := l, as_zones := (as_zones s)(a := (as_zones s a)\<lparr>z_virt_addr := addr\<rparr>)\<rparr>) \<and>
      unat addr = zones_top s xs \<and> list_rep h l ((xs @ [a]) @ [as_kernel_z s]) \<and> found l ((xs @ [a]) @ [as_kernel_z s]) \<and>
      (xs \<noteq> [] \<longrightarrow> l_current l = as_kernel_z s \<and> l_current_i l = of_nat (length xs))"
proof -
  let ?k = "as_kernel_z s" and ?h = "as_nodes s" and ?l = "as_allocs s"
  let ?ys = "xs @ [?k]"
  have R: "list_rep ?h ?l ?ys" "found ?l ?ys" "length xs < 2 ^ 29" "z_type (as_zones s ?k) = at_kernel" "4096 \<le> zstart s ?k"
    "sorted_wrt (\<lambda>p q. zend s p \<le> zstart s q) ?ys" "\<forall>x \<in> set xs. 4096 \<le> zstart s x"
    using ok unfolding zones_ok_def by blast+
  have nn: "?k \<noteq> NULL" "\<forall>x \<in> set xs. x \<noteq> NULL" using R(1) by (auto simp: list_rep_def)
  have len: "length ?ys < 2 ^ 30" using R(3) by simp
  have ll: "l_len ?l = of_nat (length xs) + 1" using R(1) by (simp add: list_rep_def)
  let ?l1 = "?l\<lparr>l_current := ?k, l_current_i := of_nat (length xs)\<rparr>"
  have at1: "allocs_at (allocs_len s - 1) s = Some (?k, s\<lparr>as_allocs := ?l1\<rparr>)"
    using found_last [OF R(1,2) len] by (simp add: allocs_at_def allocs_len_def ll)
  have r1: "list_rep ?h ?l1 ?ys" "cache_ok ?l1 ?ys"
    using R(1) len by (auto simp: list_rep_def cache_ok_def unat_of_nat_small nth_append)
  let ?s1 = "s\<lparr>as_allocs := ?l1\<rparr>"
  have kl: "unat (z_virt_addr (as_zones s ?k)) = zstart s ?k" by (simp add: zstart_def)
  show ?thesis
  proof (cases "xs = []")
    case True
    have one: "allocs_len s = 1" using ll True by (simp add: allocs_len_def)
    obtain h l where pre: "list_prepend ?h ?l1 a = Some (h, l)" "list_rep h l (a # ?ys)" "cache_ok l (a # ?ys)"
      using list_prepend_spec [OF r1(1) a] True by (auto simp: cache_ok_def)
    have gap: "z_virt_addr (as_zones s ?k) - PAGE_SIZE \<ge> z_len (as_zones s a)"
      using room True R(5) by (simp add: word_le_nat_alt unat_sub kl PAGE_SIZE_def zones_top_def)
    have "find_address a s = Some (PAGE_SIZE, s\<lparr>as_nodes := h, as_allocs := l, as_zones := (as_zones s)(a := (as_zones s a)\<lparr>z_virt_addr := PAGE_SIZE\<rparr>)\<rparr>)"
      unfolding find_address_def Let_def using at1 one nn(1) a(2) R(4) gap pre(1)
      by (simp add: get_zone_def set_zone_def allocs_prepend_def PAGE_SIZE_def)
    then show ?thesis using pre(2,3) True by (auto simp: zones_top_def PAGE_SIZE_def found_def)
  next
    case False
    let ?n = "length xs"
    let ?b = "last xs"
    have n0: "0 < ?n" using False by simp
    have b: "?b \<in> set xs" "?b \<noteq> NULL" using False nn(2) by auto
    have lt: "?n - 1 < length ?ys" by simp
    have o: "of_nat (?n - 1) = (of_nat ?n - 1 :: usize)" using False by (cases xs) simp_all
    let ?l2 = "?l1\<lparr>l_current := ?b, l_current_i := of_nat (?n - 1)\<rparr>"
    have at2: "allocs_at (allocs_len s - 2) ?s1 = Some (?b, s\<lparr>as_allocs := ?l2\<rparr>)"
    proof -
      have "allocs_len s - 2 = of_nat (?n - 1)" unfolding o by (simp add: allocs_len_def ll)
      moreover have "?ys ! (?n - 1) = ?b" using False by (simp add: nth_append last_conv_nth)
      ultimately show ?thesis using list_at_spec [OF r1 _ lt] len by (simp add: allocs_at_def o [simplified])
    qed
    have r2: "list_rep ?h ?l2 ?ys" using R(1) by (simp add: list_rep_def)
    have e: "insert_pos (length ?ys) (?n - 1) ?n = ?n" using False by (cases xs) (simp_all add: insert_pos_def)
    have bn: "?ys ! (?n - 1) = ?b" using False by (simp add: nth_append last_conv_nth)
    obtain h l where ins: "list_insert ?h ?l2 (of_nat ?n) a = Some (True, h, l)" "list_rep h l (take ?n ?ys @ a # drop ?n ?ys)"
      "l_current l = ?ys ! ?n" "l_current_i l = of_nat ?n"
      using list_insert_position [OF r2, of ?n "?n - 1" a] lt len n0 a bn unfolding e by auto
    have be: "zend s ?b \<le> zstart s ?k" using R(6) b(1) by (simp add: sorted_wrt_append)
    have ub: "unat (z_virt_addr (as_zones s ?b) + z_len (as_zones s ?b)) = zend s ?b"
      by (rule unat_zend) (use be unat_word_bound [of "z_virt_addr (as_zones s ?k)"] kl in linarith)
    have pos: "4096 \<le> zend s ?b" using R(7) b(1) by (simp add: zend_def trans_le_add1)
    let ?e = "z_virt_addr (as_zones s ?b) + z_len (as_zones s ?b)"
    have gap: "z_virt_addr (as_zones s ?k) - ?e \<ge> z_len (as_zones s a)"
    proof -
      have "?e \<le> z_virt_addr (as_zones s ?k)" using be ub kl by (simp add: word_le_nat_alt)
      then have "unat (z_virt_addr (as_zones s ?k) - ?e) = zstart s ?k - zend s ?b" using ub kl by (simp add: unat_sub)
      moreover have "zend s ?b + unat (z_len (as_zones s a)) \<le> zstart s ?k" using room False by (simp add: zones_top_def)
      ultimately show ?thesis unfolding word_le_nat_alt by linarith
    qed
    have s0: "sint (allocs_len s - 2 :: isize) \<ge> 0" "sint (allocs_len s :: isize) > 1"
    proof -
      have "allocs_len s - 2 = of_nat (?n - 1) - of_nat 0" unfolding o by (simp add: allocs_len_def ll)
      then show "sint (allocs_len s - 2 :: isize) \<ge> 0" using sint_diff64 [of "?n - 1" 0] R(3) by simp
      have "allocs_len s = of_nat (?n + 1) - of_nat 0" by (simp add: allocs_len_def ll)
      then show "sint (allocs_len s :: isize) > 1" using sint_diff64 [of "?n + 1" 0] R(3) n0 by simp
    qed
    have i: "allocs_len s - 2 + 1 = of_nat ?n" by (simp add: allocs_len_def ll)
    have fl: "find_loop (allocs_len s - 2) ?k a ?s1 = Some (?e, ?b, s\<lparr>as_nodes := h, as_allocs := l\<rparr>)"
      using at2 b(2) nn(1) a(2) s0(1) gap ins(1)
      by (subst find_loop.simps) (simp add: get_zone_def allocs_insert_def i Let_def)
    have e0: "?e \<noteq> 0" using ub pos by auto
    have "allocs_len s \<noteq> 1" using s0(2) by auto
    then have "find_address a s = Some (?e, s\<lparr>as_nodes := h, as_allocs := l, as_zones := (as_zones s)(a := (as_zones s a)\<lparr>z_virt_addr := ?e\<rparr>)\<rparr>)"
      unfolding find_address_def Let_def using at1 fl nn(1) a(2) R(4) s0(2) e0
      by (simp add: get_zone_def set_zone_def)
    moreover have "list_rep h l ((xs @ [a]) @ [?k])" using ins(2) by simp
    moreover have "found l ((xs @ [a]) @ [?k])" using ins(3,4) by (simp add: found_def nth_append)
    moreover have "l_current l = ?k" "l_current_i l = of_nat ?n" using ins(3,4) by (simp_all add: nth_append)
    ultimately show ?thesis using ub False by (auto simp: zones_top_def)
  qed
qed

text \<open>A new zone, when the heap has room for it and for its list.\<close>

lemma round16_sizes: "round16 VIRT_ZONE_SIZE = 96" "round16 (ARRAY_LIST_INTIAL_CAPACITY * 8) = 64"
  by (simp_all add: round16_def VIRT_ZONE_SIZE_def ARRAY_LIST_INTIAL_CAPACITY_def MEM_CHUNK_SIZE_def align_up_def)

definition fresh_zone :: "alloc_type \<Rightarrow> ptr \<Rightarrow> virt_zone" where
  "fresh_zone t q = \<lparr>z_virt_addr = 0, z_len = 0, z_type = t,
     z_allocations = \<lparr>al_len = 0, al_capacity = ARRAY_LIST_INTIAL_CAPACITY, al_list = q, al_free_members = True\<rparr>, z_flags = 0, z_phys_addr = 0\<rparr>"

lemma new_zone_spec:
  assumes h: "heap_ok ms (mem_of (as_mm s)) cs" and f: "first_fit 96 cs = Some (p, cs1)" "cs1 \<noteq> []"
    and g: "first_fit 64 cs1 = Some (q, cs2)" "cs2 \<noteq> []"
  shows "\<exists>m. new_zone ms t s = Some (p, s\<lparr>as_mm := upd_bytes (\<lambda>_. m) (as_mm s), as_zones := (as_zones s)(p := fresh_zone t q),
      as_nodes := (as_nodes s)(p := \<lparr>n_prev = NULL, n_next = NULL\<rparr>)\<rparr>) \<and>
    heap_ok ms m cs2 \<and> (\<forall>b. (\<forall>c \<in> set ((ms, 0) # cs). b \<notin> body c) \<longrightarrow> m b = mem_of (as_mm s) b)" and "p \<noteq> NULL"
proof -
  have z: "VIRT_ZONE_SIZE \<noteq> 0" "unat VIRT_ZONE_SIZE < 2 ^ 63" "ARRAY_LIST_INTIAL_CAPACITY * 8 \<noteq> 0" "unat (ARRAY_LIST_INTIAL_CAPACITY * 8) < 2 ^ 63"
    by (simp_all add: VIRT_ZONE_SIZE_def ARRAY_LIST_INTIAL_CAPACITY_def)
  obtain m1 where 1: "kalloc ms VIRT_ZONE_SIZE (as_mm s) = Some (p, upd_bytes (\<lambda>_. m1) (as_mm s))" "heap_ok ms m1 cs1"
    "\<forall>b. (\<forall>c \<in> set ((ms, 0) # cs). b \<notin> body c) \<longrightarrow> m1 b = mem_of (as_mm s) b"
    using kalloc_spec [OF h _ f(2) z(1,2), unfolded round16_sizes, OF f(1)] by blast
  have h1: "heap_ok ms (mem_of (upd_bytes (\<lambda>_. m1) (as_mm s))) cs1" using 1(2) by simp
  obtain m2 where 2: "kalloc ms (ARRAY_LIST_INTIAL_CAPACITY * 8) (upd_bytes (\<lambda>_. m1) (as_mm s)) = Some (q, upd_bytes (\<lambda>_. m2) (upd_bytes (\<lambda>_. m1) (as_mm s)))"
    "heap_ok ms m2 cs2" "\<forall>b. (\<forall>c \<in> set ((ms, 0) # cs1). b \<notin> body c) \<longrightarrow> m2 b = m1 b"
    using kalloc_spec [OF h1 _ g(2) z(3,4), unfolded round16_sizes, OF g(1)] by auto
  have d: "16 dvd unat (96 :: usize)" "16 dvd unat (64 :: usize)" by simp_all
  have nn: "\<not> p < 16" "\<not> q < 16" using first_fit_bodies(2) [OF h f(1) d(1)] first_fit_bodies(2) [OF h1 g(1) d(2)] .
  then have pq: "p \<noteq> NULL" "q \<noteq> NULL" by auto
  show "p \<noteq> NULL" by (rule pq(1))
  have "m2 b = mem_of (as_mm s) b" if "\<forall>c \<in> set ((ms, 0) # cs). b \<notin> body c" for b
  proof -
    have "b \<notin> \<Union> (body ` set cs1)" using first_fit_bodies(1) [OF h f(1) d(1)] that by auto
    then have "m2 b = m1 b" using 2(3) that by auto
    also have "\<dots> = mem_of (as_mm s) b" using 1(3) that by blast
    finally show ?thesis .
  qed
  moreover have "new_zone ms t s = Some (p, s\<lparr>as_mm := upd_bytes (\<lambda>_. m2) (as_mm s), as_zones := (as_zones s)(p := fresh_zone t q),
      as_nodes := (as_nodes s)(p := \<lparr>n_prev = NULL, n_next = NULL\<rparr>)\<rparr>)"
    using 1(1) 2(1) pq by (simp add: new_zone_def with_mm_def op_new_def al_new_def set_zone_def fresh_zone_def)
  ultimately show "\<exists>m. new_zone ms t s = Some (p, s\<lparr>as_mm := upd_bytes (\<lambda>_. m) (as_mm s), as_zones := (as_zones s)(p := fresh_zone t q),
      as_nodes := (as_nodes s)(p := \<lparr>n_prev = NULL, n_next = NULL\<rparr>)\<rparr>) \<and>
    heap_ok ms m cs2 \<and> (\<forall>b. (\<forall>c \<in> set ((ms, 0) # cs). b \<notin> body c) \<longrightarrow> m b = mem_of (as_mm s) b)"
    using 2(2) by blast
qed

lemma sorted_wrt_same: "(\<And>x y. x \<in> set xs \<Longrightarrow> y \<in> set xs \<Longrightarrow> P x y = Q x y) \<Longrightarrow> sorted_wrt P xs = sorted_wrt Q xs"
  by (induction xs) auto

text \<open>The zone is outside the list, so it changes nothing there.\<close>

lemma zones_ok_off:
  assumes ok: "zones_ok s xs" and p: "p \<notin> set (xs @ [as_kernel_z s])"
  shows "zones_ok (s\<lparr>as_mm := m, as_nodes := (as_nodes s)(p := n), as_zones := (as_zones s)(p := z)\<rparr>) xs"
    "zones_top (s\<lparr>as_mm := m, as_nodes := (as_nodes s)(p := n), as_zones := (as_zones s)(p := z)\<rparr>) xs = zones_top s xs"
proof -
  let ?s = "s\<lparr>as_mm := m, as_nodes := (as_nodes s)(p := n), as_zones := (as_zones s)(p := z)\<rparr>"
  have same: "zstart ?s x = zstart s x" "zend ?s x = zend s x" if "x \<in> set (xs @ [as_kernel_z s])" for x
    using that p by (auto simp: zstart_def zend_def)
  have "list_rep (as_nodes ?s) (as_allocs ?s) (xs @ [as_kernel_z s])"
    by (rule list_rep_cong [where h = "as_nodes s"]) (use ok p in \<open>auto simp: zones_ok_def\<close>)
  moreover have "sorted_wrt (\<lambda>p q. zend ?s p \<le> zstart ?s q) (xs @ [as_kernel_z s]) = sorted_wrt (\<lambda>p q. zend s p \<le> zstart s q) (xs @ [as_kernel_z s])"
    by (rule sorted_wrt_same) (use same in auto)
  ultimately show "zones_ok ?s xs" using ok p same by (auto simp: zones_ok_def)
  show "zones_top ?s xs = zones_top s xs" using same by (auto simp: zones_top_def)
qed

lemma zones_ok_stack:
  assumes ok: "zones_ok s xs" and a: "a \<notin> set (xs @ [as_kernel_z s])" and len: "length xs + 1 < 2 ^ 29"
    and room: "zones_top s xs + unat (z_len (as_zones s a)) \<le> zstart s (as_kernel_z s)" and addr: "unat addr = zones_top s xs"
    and r: "list_rep h l ((xs @ [a]) @ [as_kernel_z s])" "found l ((xs @ [a]) @ [as_kernel_z s])"
  defines "s' \<equiv> s\<lparr>as_nodes := h, as_allocs := l, as_zones := (as_zones s)(a := (as_zones s a)\<lparr>z_virt_addr := addr\<rparr>)\<rparr>"
  shows "zones_ok s' (xs @ [a])" "zones_top s' (xs @ [a]) = zones_top s xs + unat (z_len (as_zones s a))"
proof -
  let ?k = "as_kernel_z s"
  have same: "zstart s' x = zstart s x" "zend s' x = zend s x" if "x \<in> set (xs @ [?k])" for x
    using that a by (auto simp: s'_def zstart_def zend_def)
  have az: "zstart s' a = zones_top s xs" "zend s' a = zones_top s xs + unat (z_len (as_zones s a))"
    using addr by (simp_all add: s'_def zstart_def zend_def)
  show "zones_top s' (xs @ [a]) = zones_top s xs + unat (z_len (as_zones s a))" using az by (simp add: zones_top_def)
  have S: "sorted_wrt (\<lambda>p q. zend s p \<le> zstart s q) (xs @ [?k])" and lo: "\<forall>x \<in> set xs. 4096 \<le> zstart s x" using ok by (simp_all add: zones_ok_def)
  have le: "zend s x \<le> zones_top s xs" if x: "x \<in> set xs" for x
  proof -
    have ne: "xs \<noteq> []" using x by auto
    then obtain ys y where xs: "xs = ys @ [y]" by (cases xs rule: rev_cases) auto
    show ?thesis
    proof (cases "x = y")
      case False
      then have "zend s x \<le> zstart s y" using S x xs by (auto simp: sorted_wrt_append)
      then show ?thesis using xs by (simp add: zones_top_def zend_def)
    qed (simp add: xs zones_top_def)
  qed
  have t4: "4096 \<le> zones_top s xs" using lo by (auto simp: zones_top_def zend_def trans_le_add1)
  have "sorted_wrt (\<lambda>p q. zend s' p \<le> zstart s' q) xs = sorted_wrt (\<lambda>p q. zend s p \<le> zstart s q) xs"
    by (rule sorted_wrt_same) (use same in auto)
  then have "sorted_wrt (\<lambda>p q. zend s' p \<le> zstart s' q) ((xs @ [a]) @ [?k])"
    using S same az le room by (simp add: sorted_wrt_append) 
  moreover have "\<forall>x \<in> set (xs @ [a]). 4096 \<le> zstart s' x" using lo same az t4 by simp
  moreover have "as_kernel_z s' = ?k" "as_nodes s' = h" "as_allocs s' = l" "z_type (as_zones s' ?k) = z_type (as_zones s ?k)"
    using a by (auto simp: s'_def)
  ultimately show "zones_ok s' (xs @ [a])" using ok r len same by (simp add: zones_ok_def)
qed

text \<open>Memory outside the tables does not matter to the translation.\<close>

lemma space_frame:
  assumes ok: "space_ok s H pml4" and m: "\<And>t b. t \<in> H \<Longrightarrow> b \<in> span t 4096 \<Longrightarrow> m b = mem_of s b"
  shows "space_ok (upd_bytes (\<lambda>_. m) s) H pml4" "(k :: nat) < 511 * 512 ^ 3 \<Longrightarrow> lookup (upd_bytes (\<lambda>_. m) s) pml4 k = lookup s pml4 k"
proof -
  let ?v = "kernel_vma s"
  have S: "holds s H" "4096 dvd unat ?v" "tree (mem_of s) ?v 3 511 pml4" "tables (mem_of s) ?v 3 511 pml4 \<subseteq> H" using ok by (simp_all add: space_ok_def)
  have e: "entry m q i = entry (mem_of s) q i" if "q \<in> tables (mem_of s) ?v 3 511 pml4" "i < 512" for q i
  proof -
    have q: "q \<in> H" using that S(4) by blast
    have "rd64 m (slot q i) = rd64 (mem_of s) (slot q i)"
      by (rule rd64_cong) (use pages.slot_in_page [OF S(1) q that(2)] m [OF q] in blast)
    then show ?thesis by (simp add: entry_def)
  qed
  have 512: "(511 :: nat) \<le> 512" by simp
  show "space_ok (upd_bytes (\<lambda>_. m) s) H pml4"
    using S pages.writes [OF S(1)] tables_cong [OF e 512] tree_cong [OF e 512] by (simp add: space_ok_def)
  show "k < 511 * 512 ^ 3 \<Longrightarrow> lookup (upd_bytes (\<lambda>_. m) s) pml4 k = lookup s pml4 k"
    using walk_cong [OF e _ 512, where k = k] by (simp add: lookup_def)
qed

section \<open>Mapping a zone\<close>

lemma PAGE_exp: "PAGE_SIZE = 2 ^ 12" by (simp add: PAGE_SIZE_def)

lemma page_count:
  assumes "unat (n :: usize) < 2 ^ 48"
  shows "unat (align_up n PAGE_SIZE) = 4096 * ((unat n + 4095) div 4096)" "pages_in (align_up n PAGE_SIZE) = (unat n + 4095) div 4096"
proof -
  have up: "unat (align_up m PAGE_SIZE) = 4096 * ((unat m + 4095) div 4096)" if "unat m < 2 ^ 49" for m :: usize
    unfolding PAGE_exp using unat_align_up [of 12 m] that by simp
  show 1: "unat (align_up n PAGE_SIZE) = 4096 * ((unat n + 4095) div 4096)" using assms by (intro up) simp
  have "unat (align_up n PAGE_SIZE) < 2 ^ 49" unfolding 1 using assms by simp
  then have "unat (align_up (align_up n PAGE_SIZE) PAGE_SIZE) = 4096 * ((4096 * ((unat n + 4095) div 4096) + 4095) div 4096)"
    unfolding 1 [symmetric] by (rule up)
  also have "\<dots> = 4096 * ((unat n + 4095) div 4096)" by simp
  finally show "pages_in (align_up n PAGE_SIZE) = (unat n + 4095) div 4096"
    unfolding pages_in_def by (simp add: unat_div_distrib PAGE_SIZE_def)
qed

lemma page_of_aligned: "unat a < 2 ^ 48 \<Longrightarrow> 4096 dvd unat a \<Longrightarrow> page_of a = unat a div 4096"
  unfolding page_of_def by (subst page_addr_mask) (simp_all add: word_less_nat_alt)

text \<open>
  C16: \<open>map\<close> on an address space that is not the running one. With room in the heap for the zone
  object and a free page for each table that the zone's pages pass through, \<open>map\<close> succeeds: the new
  zone is the highest one and begins where the highest one ended, the zones stay in order and
  disjoint, and afterwards the processor finds the given frames and flags for exactly the pages of
  the zone; every other translation is as before.
\<close>
theorem map_zone_correct:
  fixes n :: usize
  assumes "zones_ok s xs" and "length xs + 1 < 2 ^ 29" and "p \<notin> set (xs @ [as_kernel_z s])"
    and "heap_ok ms (mem_of (as_mm s)) cs" and "first_fit 96 cs = Some (p, cs1)" and "cs1 \<noteq> []"
    and "first_fit 64 cs1 = Some (q, cs2)" and "cs2 \<noteq> []"
    and "space_ok (as_mm s) H (as_pml4 s)" and "\<And>t c. t \<in> H \<Longrightarrow> c \<in> set ((ms, 0) # cs) \<Longrightarrow> span t 4096 \<inter> body c = {}"
    and "n \<noteq> 0" and "unat n < 2 ^ 48" and "zones_top s xs + 4096 * ((unat n + 4095) div 4096) \<le> 511 * 2 ^ 39"
    and "511 * 2 ^ 39 \<le> zstart s (as_kernel_z s)" and "4096 dvd zones_top s xs" and "\<not> as_current s"
    and "spare (as_mm s) (tables_for 3 (zones_top s xs div 4096) ((unat n + 4095) div 4096))"
  defines "N \<equiv> (unat n + 4095) div 4096" and "a \<equiv> zones_top s xs div 4096"
  shows "\<exists>s' H'. as_map ms phys n flags s = Some (of_nat (zones_top s xs), s') \<and> zones_ok s' (xs @ [p]) \<and>
       zones_top s' (xs @ [p]) = zones_top s xs + 4096 * N \<and> as_pml4 s' = as_pml4 s \<and> space_ok (as_mm s') H' (as_pml4 s) \<and>
       (\<forall>k < 511 * 512 ^ 3. lookup (as_mm s') (as_pml4 s) k =
         (if a \<le> k \<and> k < a + N
          then Some (set_value (align_down phys PAGE_SIZE + PAGE_SIZE * of_nat (k - a) - kernel_vma (as_mm s)) flags)
          else lookup (as_mm s) (as_pml4 s) k))"
proof -
  note N = page_count [OF assms(12), folded N_def]
  let ?n = "align_up n PAGE_SIZE" and ?phys = "align_down phys PAGE_SIZE" and ?T = "zones_top s xs"
  obtain m where m: "new_zone ms at_map s = Some (p, s\<lparr>as_mm := upd_bytes (\<lambda>_. m) (as_mm s), as_zones := (as_zones s)(p := fresh_zone at_map q),
      as_nodes := (as_nodes s)(p := \<lparr>n_prev = NULL, n_next = NULL\<rparr>)\<rparr>)"
    "\<forall>b. (\<forall>c \<in> set ((ms, 0) # cs). b \<notin> body c) \<longrightarrow> m b = mem_of (as_mm s) b" using new_zone_spec(1) [OF assms(4-8), where t = at_map] by blast
  have p: "p \<noteq> NULL" by (rule new_zone_spec(2) [OF assms(4-8)])
  let ?mm = "upd_bytes (\<lambda>_. m) (as_mm s)" and ?z = "(fresh_zone at_map q)\<lparr>z_phys_addr := ?phys, z_len := ?n\<rparr>"
  let ?s2 = "s\<lparr>as_mm := ?mm, as_nodes := (as_nodes s)(p := \<lparr>n_prev = NULL, n_next = NULL\<rparr>), as_zones := (as_zones s)(p := ?z)\<rparr>"
  note off = zones_ok_off [OF assms(1,3), where m = ?mm and z = ?z and n = "\<lparr>n_prev = NULL, n_next = NULL\<rparr>"]
  have p2: "p \<notin> set (xs @ [as_kernel_z ?s2])" using assms(3) by simp
  have k2: "zstart ?s2 (as_kernel_z ?s2) = zstart s (as_kernel_z s)" using assms(3) by (auto simp: zstart_def)
  have room: "zones_top ?s2 xs + unat (z_len (as_zones ?s2 p)) \<le> zstart ?s2 (as_kernel_z ?s2)"
    unfolding off(2) k2 using assms(13,14) N(1) by (simp add: N_def)
  obtain addr h l where fa: "find_address p ?s2 = Some (addr, ?s2\<lparr>as_nodes := h, as_allocs := l,
      as_zones := (as_zones ?s2)(p := (as_zones ?s2 p)\<lparr>z_virt_addr := addr\<rparr>)\<rparr>)"
    "unat addr = zones_top ?s2 xs" "list_rep h l ((xs @ [p]) @ [as_kernel_z ?s2])" "found l ((xs @ [p]) @ [as_kernel_z ?s2])"
    using find_address_stacks [OF off(1) p2 p room] by blast
  let ?s3 = "?s2\<lparr>as_nodes := h, as_allocs := l, as_zones := (as_zones ?s2)(p := (as_zones ?s2 p)\<lparr>z_virt_addr := addr\<rparr>)\<rparr>"
  note st = zones_ok_stack [OF off(1) p2 assms(2) room fa(2-4)]
  have ua: "unat addr = ?T" using fa(2) off(2) by simp
  have addr: "addr = of_nat ?T" unfolding ua [symmetric] by simp
  have t4: "4096 \<le> ?T" using assms(1) by (auto simp: zones_top_def zones_ok_def zend_def trans_le_add1)
  have a0: "addr \<noteq> 0" using ua t4 by auto
  have "unat addr < 2 ^ 48" "4096 dvd unat addr" using assms(13,15) by (simp_all add: ua)
  then have pg: "page_of addr = a" by (simp add: page_of_aligned ua a_def)
  have sp: "space_ok ?mm H (as_pml4 s)" "\<And>k. k < 511 * 512 ^ 3 \<Longrightarrow> lookup ?mm (as_pml4 s) k = lookup (as_mm s) (as_pml4 s) k"
    by (rule space_frame [OF assms(9)], use assms(10) m(2) in blast)+
  have "a + N \<le> 511 * 512 ^ 3"
  proof -
    have "4096 * (a + N) \<le> 511 * 2 ^ 39" using assms(13,15) by (simp add: a_def N_def algebra_simps)
    then show ?thesis by simp
  qed
  then have bd: "page_of addr + pages_in ?n \<le> 511 * 512 ^ 3" unfolding pg N(2) .
  have am: "as_map ms phys n flags s = do {
      (flag, s) \<leftarrow> as_map_internal ?phys addr ?n flags ?s3;
      if \<not> flag then do { s \<leftarrow> allocs_remove_p p s; s \<leftarrow> free_zone ms p s; Some (NULL, s) }
      else do { s \<leftarrow> (if as_current s then sync_tlb addr s else Some s); Some (addr, s) } }"
    unfolding as_map_def using assms(11) m(1) p fa(1) a0 by (simp add: get_zone_def set_zone_def Let_def)
  have "spare ?mm (tables_for 3 (page_of addr) (pages_in ?n))"
    unfolding pg N(2) using spare_writes [OF assms(17), folded a_def N_def] .
  from map_internal_maps [OF sp(1) bd this, where phys = ?phys and flags = flags, unfolded pg N(2)] obtain s' H' where
    r: "map_internal (as_pml4 s) ?phys addr ?n flags ?mm = Some (True, s')" "space_ok s' H' (as_pml4 s)" "H \<subseteq> H'"
    and look: "\<forall>k < 511 * 512 ^ 3. lookup s' (as_pml4 s) k = (if a \<le> k \<and> k < a + N
        then Some (set_value (?phys + PAGE_SIZE * of_nat (k - a) - kernel_vma ?mm) flags) else lookup ?mm (as_pml4 s) k)" .
  have "as_map ms phys n flags s = Some (of_nat ?T, ?s3\<lparr>as_mm := s'\<rparr>)"
    unfolding am using r(1) assms(16) addr by (simp add: as_map_internal_def with_mm_def)
  moreover have "zones_ok (?s3\<lparr>as_mm := s'\<rparr>) (xs @ [p])" "zones_top (?s3\<lparr>as_mm := s'\<rparr>) (xs @ [p]) = ?T + 4096 * N"
    using st N(1) off(2) by (simp_all add: zones_ok_def zones_top_def zstart_def zend_def)
  moreover have "\<forall>k < 511 * 512 ^ 3. lookup s' (as_pml4 s) k = (if a \<le> k \<and> k < a + N
        then Some (set_value (?phys + PAGE_SIZE * of_nat (k - a) - kernel_vma (as_mm s)) flags) else lookup (as_mm s) (as_pml4 s) k)"
    using look sp(2) by (simp split: if_splits)
  ultimately show ?thesis using r(2) by (intro exI [of _ "?s3\<lparr>as_mm := s'\<rparr>"] exI [of _ H']) simp
qed

section \<open>The stale index\<close>

text \<open>The node that \<open>operator[]\<close> finds from the end, from the cached node, one back or one forward.\<close>

lemma list_at_end:
  assumes "l_current l \<noteq> NULL" and "i < l_len l" and "i = l_len l - 1" and "i - l_current_i l = 1"
  shows "list_at h l i = Some (l_end l, l\<lparr>l_current := l_end l, l_current_i := i\<rparr>)"
proof -
  have d: "l_len l - i - 1 = 0" "(l_len l \<le> i) = False" using assms(2,3) by (auto simp: not_le)
  show ?thesis unfolding list_at_def Let_def
    by (simp only: d if_False assms(1,4)) (simp add: walk_here flip: assms(3))
qed

lemma list_at_back:
  assumes c: "l_current l \<noteq> NULL" "l_current_i l = 1" and n: "1 < l_len l" "l_len l < 2 ^ 31"
    and p: "n_prev (h (l_current l)) = p" "p \<noteq> NULL"
  shows "list_at h l 0 = Some (p, l\<lparr>l_current := p, l_current_i := 0\<rparr>)"
proof -
  have u: "unat (l_len l) < 2 ^ 31" "1 < unat (l_len l)" using n by (simp_all add: word_less_nat_alt)
  have w: "walk h 0 (-1) 1 (l_current l) = Some p"
    using c p by (simp add: walk.simps heap_defs)
  have "l_len l - 1 = of_nat (unat (l_len l)) - of_nat 1" by simp
  then have de: "sint (l_len l - 1) = int (unat (l_len l)) - 1" using sint_diff64 [of "unat (l_len l)" 1] u by simp
  have "sint (abs_i32 (- 1)) = -1" by (subst abs_i32_neg) simp_all
  moreover have "sign_i32 (- 1) = -1" by (simp add: sign_i32_def)
  moreover have "\<not> sint (l_len l - 1) < - 1" using de u by linarith
  moreover have "(ucast (- 1 :: usize) :: i32) = - 1" by (rule bit_word_eqI) (simp add: bit_simps)
  moreover have "\<not> l_len l \<le> 0" using n by (auto simp: word_le_nat_alt word_less_nat_alt)
  ultimately show ?thesis using c w by (simp add: list_at_def Let_def)
qed

lemma list_at_next:
  assumes c: "l_current l \<noteq> NULL" "l_current_i l = 0" and n: "2 < l_len l" "l_len l < 2 ^ 31"
    and p: "n_next (h (l_current l)) = p" "p \<noteq> NULL"
  shows "list_at h l 1 = Some (p, l\<lparr>l_current := p, l_current_i := 1\<rparr>)"
proof -
  have u: "unat (l_len l) < 2 ^ 31" "2 < unat (l_len l)" using n by (simp_all add: word_less_nat_alt)
  have w: "walk h 1 1 0 (l_current l) = Some p"
    using c p by (simp add: walk.simps heap_defs)
  have "l_len l - 1 - 1 = of_nat (unat (l_len l)) - of_nat 2" by simp
  then have de: "sint (l_len l - 1 - 1) = int (unat (l_len l)) - 2" using sint_diff64 [of "unat (l_len l)" 2] u by simp
  moreover have "sign_i32 1 = 1" by (simp add: sign_i32_def)
  moreover have "\<not> sint (l_len l - 1 - 1) < 1" using de u by linarith
  moreover have "\<not> l_len l \<le> 1" using n by (auto simp: word_le_nat_alt word_less_nat_alt)
  ultimately show ?thesis using c w by (simp add: list_at_def Let_def)
qed

lemma zones_ok_recache:
  assumes "zones_ok s xs" and "cache_ok ((as_allocs s)\<lparr>l_current := c, l_current_i := i\<rparr>) (xs @ [as_kernel_z s])"
  shows "zones_ok (s\<lparr>as_allocs := (as_allocs s)\<lparr>l_current := c, l_current_i := i\<rparr>\<rparr>) xs"
  using assms by (simp add: zones_ok_def list_rep_def found_def zstart_def zend_def)

text \<open>
  a zone is lost. When a second zone has been put behind the first, the list caches the
  kernel's zone under index 1, where the new zone is now. Index 0 then gives the second zone, and
  \<open>unreserve\<close> of the first finds nothing: it returns without a change of the zones, which are still
  all in the list.
\<close>
theorem unreserve_lost:
  assumes "zones_ok s [x]" and "z_type (as_zones s x) = at_reserve" and "b \<notin> {x, as_kernel_z s, NULL}"
    and "zend s x + unat (z_len (as_zones s b)) \<le> zstart s (as_kernel_z s)"
    and "zstart s x < zend s x" and "4096 dvd zstart s x"
  shows "\<exists>addr s1 s2 s3. find_address b s = Some (addr, s1) \<and> zones_ok s1 [x, b] \<and> allocs_at 0 s1 = Some (b, s2) \<and>
    unreserve ms (z_virt_addr (as_zones s x)) s1 = Some s3 \<and> zones_ok s3 [x, b] \<and> as_zones s3 = as_zones s1"
proof -
  let ?k = "as_kernel_z s"
  have b: "b \<notin> set ([x] @ [?k])" "b \<noteq> NULL" using assms(3) by auto
  have room: "zones_top s [x] + unat (z_len (as_zones s b)) \<le> zstart s ?k" using assms(4) by (simp add: zones_top_def)
  obtain addr h l where fa: "find_address b s = Some (addr, s\<lparr>as_nodes := h, as_allocs := l,
      as_zones := (as_zones s)(b := (as_zones s b)\<lparr>z_virt_addr := addr\<rparr>)\<rparr>)"
    "unat addr = zones_top s [x]" "list_rep h l (([x] @ [b]) @ [?k])" "found l (([x] @ [b]) @ [?k])"
    "l_current l = ?k" "l_current_i l = 1"
    using find_address_stacks [OF assms(1) b room] by auto
  let ?s1 = "s\<lparr>as_nodes := h, as_allocs := l, as_zones := (as_zones s)(b := (as_zones s b)\<lparr>z_virt_addr := addr\<rparr>)\<rparr>"
  have ok1: "zones_ok ?s1 ([x] @ [b])"
    by (rule zones_ok_stack(1) [OF assms(1) b(1) _ room fa(2-4)]) simp
  have L: "n_next (h b) = ?k" "n_prev (h ?k) = b" "l_len l = 3" "l_end l = ?k" "?k \<noteq> NULL" "?k \<noteq> b"
    using fa(3) by (auto simp: list_rep_def)
  have c: "l_current l \<noteq> NULL" "l_current_i l = 1" using fa(5,6) L(5) by simp_all
  let ?l2 = "l\<lparr>l_current := b, l_current_i := 0\<rparr>" and ?l3 = "l\<lparr>l_current := ?k, l_current_i := 1\<rparr>" and ?l4 = "l\<lparr>l_current := ?k, l_current_i := 2\<rparr>"
  have at0: "list_at h l 0 = Some (b, ?l2)" 
  proof (rule list_at_back [OF c])
    show "1 < l_len l" "l_len l < 2 ^ 31" unfolding L(3) by simp_all
    show "n_prev (h (l_current l)) = b" unfolding fa(5) by (rule L(2))
  qed (rule b(2))
  have at1: "list_at h ?l2 1 = Some (?k, ?l3)" 
  proof -
    have "list_at h ?l2 1 = Some (?k, ?l2\<lparr>l_current := ?k, l_current_i := 1\<rparr>)"
    proof (rule list_at_next)
      show "2 < l_len ?l2" "l_len ?l2 < 2 ^ 31" by (simp_all add: L(3))
      show "n_next (h (l_current ?l2)) = ?k" by (simp add: L(1))
    qed (simp_all add: b(2) L(5))
    then show ?thesis by simp
  qed
  have at2: "list_at h ?l3 2 = Some (?k, ?l4)" 
  proof -
    have "list_at h ?l3 2 = Some (l_end ?l3, ?l3\<lparr>l_current := l_end ?l3, l_current_i := 2\<rparr>)"
      by (rule list_at_end) (simp_all add: L(3,5))
    then show ?thesis by (simp add: L(4))
  qed
  have kz: "z_type (as_zones s ?k) = at_kernel" using assms(1) by (simp add: zones_ok_def)
  have va: "z_virt_addr (as_zones s x) \<noteq> addr"
    using fa(2) assms(5) by (auto simp: zones_top_def zstart_def)
  let ?va = "z_virt_addr (as_zones s x)"
  have l3: "unreserve_loop ms 3 ?va (?s1\<lparr>as_allocs := ?l4\<rparr>) = Some (?s1\<lparr>as_allocs := ?l4\<rparr>)"
    by (subst unreserve_loop.simps) (simp add: allocs_len_def L(3))
  have l2: "unreserve_loop ms 2 ?va (?s1\<lparr>as_allocs := ?l3\<rparr>) = unreserve_loop ms 3 ?va (?s1\<lparr>as_allocs := ?l4\<rparr>)"
    by (subst unreserve_loop.simps) (simp add: allocs_len_def allocs_at_def at2 get_zone_def kz L(3,5,6))
  have l1: "unreserve_loop ms 1 ?va (?s1\<lparr>as_allocs := ?l2\<rparr>) = unreserve_loop ms 2 ?va (?s1\<lparr>as_allocs := ?l3\<rparr>)"
    by (subst unreserve_loop.simps) (simp add: allocs_len_def allocs_at_def at1 get_zone_def kz L(3,5,6))
  have l0: "unreserve_loop ms 0 ?va ?s1 = unreserve_loop ms 1 ?va (?s1\<lparr>as_allocs := ?l2\<rparr>)"
    by (subst unreserve_loop.simps) (simp add: allocs_len_def allocs_at_def at0 get_zone_def va [symmetric] L(3) b(2))
  have "align_down ?va PAGE_SIZE = ?va" unfolding PAGE_exp by (rule align_down_id) (use assms(6) in \<open>simp add: zstart_def\<close>)
  then have un: "unreserve ms ?va ?s1 = Some (?s1\<lparr>as_allocs := ?l4\<rparr>)" using l0 l1 l2 l3 by (simp only: unreserve_def)
  have ok3: "zones_ok (?s1\<lparr>as_allocs := ?l4\<rparr>) ([x] @ [b])"
    using zones_ok_recache [OF ok1, where c = ?k and i = 2] L(3) by (simp add: cache_ok_def)
  show ?thesis
  proof (intro exI conjI)
    show "find_address b s = Some (addr, ?s1)" by (rule fa(1))
    show "zones_ok ?s1 [x, b]" using ok1 by simp
    show "allocs_at 0 ?s1 = Some (b, ?s1\<lparr>as_allocs := ?l2\<rparr>)" using at0 by (simp add: allocs_at_def)
    show "unreserve ms ?va ?s1 = Some (?s1\<lparr>as_allocs := ?l4\<rparr>)" by (rule un)
    show "zones_ok (?s1\<lparr>as_allocs := ?l4\<rparr>) [x, b]" using ok3 by simp
    show "as_zones (?s1\<lparr>as_allocs := ?l4\<rparr>) = as_zones ?s1" by simp
  qed
qed

text \<open>
  placing a zone at an address above the only zone faults. \<open>insert_virt_zone\<close>, on which
  \<open>reserve_at\<close> and \<open>map_at\<close> rest, inserts at the index it has just looked up; \<open>insert\<close> then takes the
  first node for the one at index 1 and writes through its \<open>prev\<close> pointer, which is \<open>NULL\<close> for a
  zone that was put at the start of the list.
\<close>
theorem reserve_at_faults:
  assumes "zones_ok s [x]" and "cache_ok (as_allocs s) [x, as_kernel_z s]" and "n_prev (as_nodes s x) = NULL"
    and "a \<notin> {x, as_kernel_z s, NULL}" and "zend s x \<le> zstart s a" and "zend s a < zstart s (as_kernel_z s)"
  shows "insert_virt_zone a s = None"
proof -
  let ?k = "as_kernel_z s" and ?h = "as_nodes s" and ?l = "as_allocs s"
  let ?l1 = "?l\<lparr>l_current := x, l_current_i := 0\<rparr>" and ?l2 = "?l\<lparr>l_current := ?k, l_current_i := 1\<rparr>"
  have r: "list_rep ?h ?l [x, ?k]" using assms(1) by (simp add: zones_ok_def)
  then have nn: "x \<noteq> NULL" "?k \<noteq> NULL" "l_len ?l = 2" by (auto simp: list_rep_def)
  have at0: "list_at ?h ?l 0 = Some (x, ?l1)" using list_at_spec [OF r assms(2), of 0] by simp
  have r1: "list_rep ?h ?l1 [x, ?k]" "cache_ok ?l1 [x, ?k]" using r by (simp_all add: list_rep_def cache_ok_def)
  have at1: "list_at ?h ?l1 1 = Some (?k, ?l2)" using list_at_spec [OF r1, of 1] by simp
  have r2: "list_rep ?h ?l2 [x, ?k]" using r by (simp add: list_rep_def)
  have ins: "list_insert ?h ?l2 1 a = None"
    by (rule list_insert_at_one_faults [OF r2]) (use assms(3) in simp_all)
  have u: "unat (z_virt_addr (as_zones s p)) = zstart s p" for p by (simp add: zstart_def)
  have bd: "zend s x < 2 ^ 64" "zend s a < 2 ^ 64"
    using assms(5,6) unat_word_bound [of "z_virt_addr (as_zones s ?k)"] unat_word_bound [of "z_virt_addr (as_zones s a)"]
    by (simp_all add: u)
  note ue = unat_zend [OF bd(1)] unat_zend [OF bd(2)]
  have c0: "\<not> z_virt_addr (as_zones s a) < z_virt_addr (as_zones s x) + z_len (as_zones s x)"
    "\<not> z_virt_addr (as_zones s a) + z_len (as_zones s a) < z_virt_addr (as_zones s x)"
    "z_virt_addr (as_zones s a) \<ge> z_virt_addr (as_zones s x) + z_len (as_zones s x)"
    using assms(5) unfolding word_less_nat_alt word_le_nat_alt ue u by (simp_all add: zend_def)
  have c1: "\<not> z_virt_addr (as_zones s a) \<ge> z_virt_addr (as_zones s ?k)"
    "z_virt_addr (as_zones s a) + z_len (as_zones s a) < z_virt_addr (as_zones s ?k)"
    using assms(6) unfolding word_less_nat_alt word_le_nat_alt ue u by (simp_all add: zend_def)
  have "insert_zone_loop 1 x a (s\<lparr>as_allocs := ?l1\<rparr>) = None"
    by (subst insert_zone_loop.simps)
      (use assms(4) in \<open>simp add: allocs_len_def nn allocs_at_def at1 get_zone_def Let_def c0(3) c1 allocs_insert_def ins\<close>)
  moreover have "insert_zone_loop 0 NULL a s = insert_zone_loop 1 x a (s\<lparr>as_allocs := ?l1\<rparr>)"
    by (subst insert_zone_loop.simps)
      (use assms(4) in \<open>simp add: allocs_len_def nn allocs_at_def at0 get_zone_def Let_def c0(1,2)\<close>)
  ultimately show ?thesis by (simp add: insert_virt_zone_def)
qed

section \<open>Examples\<close>

definition ex_zone :: "alloc_type \<Rightarrow> usize \<Rightarrow> usize \<Rightarrow> virt_zone" where
  "ex_zone t a n = \<lparr>z_virt_addr = a, z_len = n, z_type = t, z_allocations = \<lparr>al_len = 0, al_capacity = 0, al_list = 0, al_free_members = True\<rparr>,
     z_flags = 0, z_phys_addr = 0\<rparr>"

text \<open>A list \<open>xs\<close> of zones, the last one the kernel's, at the addresses \<open>0x5000\<close> (zone), \<open>0x6000\<close> (new) and \<open>0x7000\<close> (kernel).\<close>

definition ex_space_of :: "mm \<Rightarrow> ptr list \<Rightarrow> addr_space" where
  "ex_space_of m xs = \<lparr>as_mm = m,
     as_nodes = (\<lambda>_. \<lparr>n_prev = NULL, n_next = NULL\<rparr>)(0x5000 := \<lparr>n_prev = NULL, n_next = 0x7000\<rparr>, 0x7000 := \<lparr>n_prev = 0x5000, n_next = NULL\<rparr>),
     as_zones = (\<lambda>_. ex_zone at_reserve 0 0)(0x5000 := ex_zone at_reserve 0x1000 0x1000, 0x6000 := ex_zone at_reserve 0x8000 0x1000,
       0x7000 := ex_zone at_kernel 0xffffff8000000000 0),
     as_kernel_z = 0x7000, as_pml4 = 0x104000,
     as_allocs = \<lparr>l_len = of_nat (length xs), l_start = hd xs, l_end = 0x7000, l_current = NULL, l_current_i = 0\<rparr>,
     as_current = False, as_synced = [], kernel_pdp_table = 0\<rparr>"

lemma ex_zones_ok: "zones_ok (ex_space_of m [0x5000, 0x7000]) [0x5000]" "zones_ok (ex_space_of m [0x7000]) []"
  by (simp_all add: zones_ok_def ex_space_of_def ex_zone_def list_rep_def found_def cache_ok_def zstart_def zend_def)

theorem unreserve_lost_witness:
  "\<exists>addr s1 s2 s3. find_address 0x6000 (ex_space_of (ex_mm (\<lambda>_. 0)) [0x5000, 0x7000]) = Some (addr, s1) \<and> allocs_at 0 s1 = Some (0x6000, s2) \<and>
    unreserve 0x100 0x1000 s1 = Some s3 \<and> zones_ok s3 [0x5000, 0x6000]"
proof -
  let ?s = "ex_space_of (ex_mm (\<lambda>_. 0)) [0x5000, 0x7000]"
  have f: "as_kernel_z ?s = 0x7000" "as_zones ?s 0x5000 = ex_zone at_reserve 0x1000 0x1000" "as_zones ?s 0x6000 = ex_zone at_reserve 0x8000 0x1000"
    "zstart ?s 0x7000 = 0xffffff8000000000" "zstart ?s 0x5000 = 0x1000" "zend ?s 0x5000 = 0x2000"
    by (simp_all add: ex_space_of_def ex_zone_def zstart_def zend_def)
  have "z_type (as_zones ?s 0x5000) = at_reserve" "z_virt_addr (as_zones ?s 0x5000) = 0x1000" by (simp_all add: f ex_zone_def)
  with unreserve_lost [OF ex_zones_ok(1) [of "ex_mm (\<lambda>_. 0)"], where b = "0x6000" and ms = "0x100"] f show ?thesis
    by (simp add: ex_zone_def) blast
qed

theorem reserve_at_faults_witness:
  "insert_virt_zone 0x6000 (ex_space_of (ex_mm (\<lambda>_. 0)) [0x5000, 0x7000]) = None"
  by (rule reserve_at_faults [OF ex_zones_ok(1)])
    (simp_all add: ex_space_of_def ex_zone_def zstart_def zend_def cache_ok_def)

definition ex_map_mm :: "pmem \<Rightarrow> pallocator \<Rightarrow> mm" where
  "ex_map_mm pm pa = upd_bytes (\<lambda>_. ex_heap 0x200) (ex_tables pm pa)"

theorem map_zone_correct_witness:
  "\<exists>s s'. zones_ok s [] \<and> as_map 0x1000 0x9000 5000 V_WRITE s = Some (0x1000, s') \<and> zones_ok s' [0x2000] \<and>
    lookup (as_mm s') (as_pml4 s') 2 = Some (set_value 0xA000 V_WRITE)"
proof -
  from ex_held obtain pm pa where
    h: "node_ok pm pa {(0x104000, 13)}" "bits pa = 12" "lo pa = 0x100000" "hi pa = 0x106000" by blast
  let ?m = "ex_map_mm pm pa" and ?H = "{0x104000 :: ptr}" and ?cs = "[(0x2000 :: ptr, 0x200 :: usize)]"
  let ?s = "ex_space_of ?m [0x7000]"
  have f: "as_mm ?s = ?m" "as_pml4 ?s = 0x104000" "as_kernel_z ?s = 0x7000" "\<not> as_current ?s" "zstart ?s 0x7000 = 0xffffff8000000000"
    by (simp_all add: ex_space_of_def ex_zone_def zstart_def)
  have mb: "mem_of ?m = ex_heap 0x200" "kernel_vma ?m = 0" by (simp_all add: ex_map_mm_def ex_tables_def upd_bytes_def one_node_def)
  have z: "ex_heap 0x200 b = mem_of (ex_tables pm pa) b" if "t \<in> ?H" "b \<in> span t 4096" for t b
  proof -
    have "b \<notin> span 0x2008 8" "b \<notin> span 0x1000 8" using that by (auto simp: in_span_iff)
    then show ?thesis by (simp add: ex_heap_def wr64_other ex_tables_def)
  qed
  have sp: "space_ok ?m ?H 0x104000" unfolding ex_map_mm_def using ex_space(1) [OF h(1,3,4)] z by (rule space_frame(1))
  have hp: "heap_ok 0x1000 (mem_of ?m) ?cs" unfolding mb(1) by (rule ex_heap_ok) simp_all
  have ff: "first_fit 96 ?cs = Some (0x2000, [(0x2060, 0x1A0)])" "first_fit 64 [(0x2060 :: ptr, 0x1A0 :: usize)] = Some (0x2060, [(0x20A0, 0x160)])" by simp_all
  have ap: "span t 4096 \<inter> body c = {}" if "t \<in> ?H" "c \<in> set ((0x1000, 0) # ?cs)" for t c
    using that by (auto simp: body_def in_span_iff)
  have N: "(unat (5000 :: usize) + 4095) div 4096 = 2" "zones_top ?s [] = 4096" by (simp_all add: zones_top_def)
  have ad: "align_down 0x9000 PAGE_SIZE = 0x9000" by (simp add: align_down_def PAGE_SIZE_def)
  have c: "length ([] :: ptr list) + 1 < 2 ^ 29" "(0x2000 :: ptr) \<notin> set ([] @ [as_kernel_z ?s])" "[(0x2060 :: ptr, 0x1A0 :: usize)] \<noteq> []"
    "[(0x20A0 :: ptr, 0x160 :: usize)] \<noteq> []" "(5000 :: usize) \<noteq> 0" "unat (5000 :: usize) < 2 ^ 48"
    "zones_top ?s [] + 4096 * ((unat (5000 :: usize) + 4095) div 4096) \<le> 511 * 2 ^ 39" "511 * 2 ^ 39 \<le> zstart ?s (as_kernel_z ?s)" "4096 dvd zones_top ?s []"
    unfolding N by (simp_all add: f)
  have hp': "heap_ok 0x1000 (mem_of (as_mm ?s)) ?cs" and sp': "space_ok (as_mm ?s) ?H (as_pml4 ?s)" using hp sp f by simp_all
  have "tables_for 3 1 2 = 3"
  proof -
    have "{1 ..< 1 + 2 :: nat} = {1, 2}" "{1 .. 3 :: nat} = {1, 2, 3}" by auto
    then show ?thesis by (simp add: tables_for_def)
  qed
  then have "spare (as_mm ?s) (tables_for 3 (zones_top ?s [] div 4096) ((unat (5000 :: usize) + 4095) div 4096))"
    unfolding N f unfolding ex_map_mm_def using ex_spare [OF h, of 3] by (simp add: spare_writes)
  note mz = map_zone_correct [OF ex_zones_ok(2) c(1,2) hp' ff(1) c(3) ff(2) c(4) sp' ap c(5-9) f(4) this, where phys = "0x9000" and flags = V_WRITE,
      unfolded N ad f mb(2)]
  then obtain s' where
    yes: "as_map 0x1000 0x9000 5000 V_WRITE ?s = Some (of_nat 4096, s')" "zones_ok s' ([] @ [0x2000])" "as_pml4 s' = 0x104000"
      "\<forall>k < 511 * 512 ^ 3. lookup (as_mm s') 0x104000 k = (if 4096 div 4096 \<le> k \<and> k < 4096 div 4096 + 2
        then Some (set_value (0x9000 + PAGE_SIZE * of_nat (k - 4096 div 4096) - 0) V_WRITE) else lookup ?m 0x104000 k)" by blast
  have "lookup (as_mm s') (as_pml4 s') 2 = Some (set_value 0xA000 V_WRITE)"
    using yes(4) [rule_format, of 2] yes(3) by (simp add: PAGE_SIZE_def)
  moreover have "as_map 0x1000 0x9000 5000 V_WRITE ?s = Some (0x1000, s')" "zones_ok s' [0x2000]" using yes(1,2) by simp_all
  ultimately show ?thesis using ex_zones_ok(2) [of ?m] by blast
qed

end
