(* ===== verification/Sched.thy ===== *)
theory Sched
  imports Linked_List
begin

text \<open>
  The scheduler: \<^verbatim>\<open>src/sched/thread.cpp\<close>, \<^verbatim>\<open>include/sched/thread.hpp\<close> and the interrupt
  counter of \<^verbatim>\<open>src/arch/x64/common.cpp\<close>. Threads hang in the lists \<^verbatim>\<open>t_list\<close> and in the
  waiting lists of semaphores through one node heap. \<^verbatim>\<open>int_sched\<close> is the software interrupt
  of the kernel: when it switches, the caller's remaining code runs only when its thread is
  resumed, so every operation that may switch returns whether it did, and the state at the switch.
  The clock and the memory of a new thread come from other components and are arguments.
\<close>

section \<open>Data\<close>

record registers =
  r_rax :: usize
  r_rbx :: usize
  r_rcx :: usize
  r_rdx :: usize
  r_rbp :: usize
  r_rsp :: usize
  r_kernel_rsp :: usize
  r_call_save_rsp :: usize
  r_rdi :: usize
  r_rsi :: usize
  r_r8 :: usize
  r_r9 :: usize
  r_r10 :: usize
  r_r11 :: usize
  r_r12 :: usize
  r_r13 :: usize
  r_r14 :: usize
  r_r15 :: usize
  r_rflags :: usize
  r_rip :: usize
  r_cs :: u16
  r_ss :: u16

definition user_regs :: registers where
  "user_regs = \<lparr>r_rax = 0, r_rbx = 0, r_rcx = 0, r_rdx = 0, r_rbp = 0, r_rsp = 0, r_kernel_rsp = 0,
     r_call_save_rsp = 0, r_rdi = 0, r_rsi = 0, r_r8 = 0, r_r9 = 0, r_r10 = 0, r_r11 = 0, r_r12 = 0,
     r_r13 = 0, r_r14 = 0, r_r15 = 0, r_rflags = 0x3202, r_rip = 0, r_cs = 0x23, r_ss = 0x1b\<rparr>"

definition superuser_regs :: registers where
  "superuser_regs = \<lparr>r_rax = 0, r_rbx = 0, r_rcx = 0, r_rdx = 0, r_rbp = 0, r_rsp = 0, r_kernel_rsp = 0,
     r_call_save_rsp = 0, r_rdi = 0, r_rsi = 0, r_r8 = 0, r_r9 = 0, r_r10 = 0, r_r11 = 0, r_r12 = 0,
     r_r13 = 0, r_r14 = 0, r_r15 = 0, r_rflags = 0x202, r_rip = 0, r_cs = 0x23, r_ss = 0x1b\<rparr>"

definition kernel_regs :: registers where
  "kernel_regs = \<lparr>r_rax = 0, r_rbx = 0, r_rcx = 0, r_rdx = 0, r_rbp = 0, r_rsp = 0, r_kernel_rsp = 0,
     r_call_save_rsp = 0, r_rdi = 0, r_rsi = 0, r_r8 = 0, r_r9 = 0, r_r10 = 0, r_r11 = 0, r_r12 = 0,
     r_r13 = 0, r_r14 = 0, r_r15 = 0, r_rflags = 0x202, r_rip = 0, r_cs = 0x08, r_ss = 0x10\<rparr>"

record thread =
  th_regs :: registers
  th_time :: u64
  th_state :: u8
  th_proc :: ptr
  th_stack_start :: usize
  th_stack_size :: usize
  th_kstack_start :: usize
  th_kstack_size :: usize
  th_sleep_time :: u64
  th_process_alive :: bool
  th_name :: "string option"

record semaphore =
  sem_max_thr_c :: usize
  sem_thr_c :: usize
  sem_waiting :: linked_list

text \<open>The scheduler reads the user id and the page table root of a process.\<close>

record proc_view =
  pv_uid :: u8
  pv_cr3 :: usize

text \<open>
  The globals of \<^verbatim>\<open>thread.cpp\<close> and \<^verbatim>\<open>common.cpp\<close>, the objects they point to, the
  registers of the CPU, and the values \<^verbatim>\<open>time_nsec\<close> and \<^verbatim>\<open>time_nsec_nolatch\<close> read.
\<close>

record sched =
  s_nodes :: nodes
  t_list :: "nat \<Rightarrow> linked_list"
  s_threads :: "ptr \<Rightarrow> thread"
  s_sems :: "ptr \<Rightarrow> semaphore"
  s_procs :: "ptr \<Rightarrow> proc_view"
  thread_c :: ptr
  thread_post_c :: u32
  thread_post_flag :: bool
  nsec_last :: u64
  irq_c :: u32
  init_done :: bool
  cpu :: registers
  cr3 :: usize
  clock :: u64
  clock_nolatch :: u64

definition STACK_INITIAL_SIZE :: usize where "STACK_INITIAL_SIZE = push_bit 18 1"
definition KSTACK_SIZE :: usize where "KSTACK_SIZE = push_bit 18 1"
definition THREAD_TIME_SLICE :: u64 where "THREAD_TIME_SLICE = 5000000"

abbreviation T_RUNNING :: nat where "T_RUNNING \<equiv> 0"
abbreviation T_READY :: nat where "T_READY \<equiv> 1"
abbreviation T_DESTROY :: nat where "T_DESTROY \<equiv> 2"
abbreviation T_SLEEP :: nat where "T_SLEEP \<equiv> 3"
definition T_REASON_MAX :: usize where "T_REASON_MAX = 3"
definition T_SEMAPHORE_WAIT :: usize where "T_SEMAPHORE_WAIT = 128"

definition set_thread :: "ptr \<Rightarrow> (thread \<Rightarrow> thread) \<Rightarrow> sched \<Rightarrow> sched" where
  "set_thread t f s = s\<lparr>s_threads := (s_threads s)(t := f (s_threads s t))\<rparr>"

definition set_sem :: "ptr \<Rightarrow> (semaphore \<Rightarrow> semaphore) \<Rightarrow> sched \<Rightarrow> sched" where
  "set_sem q f s = s\<lparr>s_sems := (s_sems s)(q := f (s_sems s q))\<rparr>"

section \<open>Interrupt flag\<close>

text \<open>Bit 9 of \<^verbatim>\<open>rflags\<close>.\<close>

definition cli :: "sched \<Rightarrow> sched" where
  "cli s = s\<lparr>cpu := (cpu s)\<lparr>r_rflags := r_rflags (cpu s) AND NOT 0x200\<rparr>\<rparr>"

definition sti :: "sched \<Rightarrow> sched" where
  "sti s = s\<lparr>cpu := (cpu s)\<lparr>r_rflags := r_rflags (cpu s) OR 0x200\<rparr>\<rparr>"

definition sti_safe :: "sched \<Rightarrow> sched" where
  "sti_safe s = (let s = s\<lparr>irq_c := max (irq_c s) 1 - 1\<rparr> in if irq_c s = 0 then sti s else s)"

definition cli_safe :: "sched \<Rightarrow> sched" where
  "cli_safe s = cli (s\<lparr>irq_c := irq_c s + 1\<rparr>)"

definition lock :: "sched \<Rightarrow> sched" where "lock s = cli_safe s"

definition unlock :: "sched \<Rightarrow> sched" where "unlock s = sti_safe s"

definition lock_all :: "sched \<Rightarrow> sched" where
  "lock_all s = (let s = lock s in s\<lparr>thread_post_c := thread_post_c s + 1\<rparr>)"

section \<open>Thread lists\<close>

definition tl_append :: "nat \<Rightarrow> ptr \<Rightarrow> sched \<Rightarrow> sched option" where
  "tl_append i t s = (if i < 16 then do {
      (h, l) \<leftarrow> list_append (s_nodes s) (t_list s i) t;
      Some (s\<lparr>s_nodes := h, t_list := (t_list s)(i := l)\<rparr>)
    } else None)"

definition tl_remove_p :: "nat \<Rightarrow> ptr \<Rightarrow> sched \<Rightarrow> sched option" where
  "tl_remove_p i t s = (if i < 16 then do {
      (h, l) \<leftarrow> list_remove_p (s_nodes s) (t_list s i) t;
      Some (s\<lparr>s_nodes := h, t_list := (t_list s)(i := l)\<rparr>)
    } else None)"

definition tl_pop_start :: "nat \<Rightarrow> sched \<Rightarrow> (ptr \<times> sched) option" where
  "tl_pop_start i s = (if i < 16 then do {
      (z, l) \<leftarrow> list_pop_start (s_nodes s) (t_list s i);
      Some (z, s\<lparr>t_list := (t_list s)(i := l)\<rparr>)
    } else None)"

definition tl_at :: "nat \<Rightarrow> usize \<Rightarrow> sched \<Rightarrow> (ptr \<times> sched) option" where
  "tl_at i k s = (if i < 16 then do {
      (z, l) \<leftarrow> list_at (s_nodes s) (t_list s i) k;
      Some (z, s\<lparr>t_list := (t_list s)(i := l)\<rparr>)
    } else None)"

text \<open>\<^verbatim>\<open>state\<close> is a \<^verbatim>\<open>u8\<close>, the argument a \<^verbatim>\<open>usize\<close>.\<close>

definition move_to :: "ptr \<Rightarrow> usize \<Rightarrow> sched \<Rightarrow> sched option" where
  "move_to t state_list s =
     (if t = NULL then None
      else if ucast (th_state (s_threads s t)) = state_list then Some s
      else do {
        s \<leftarrow> (if (ucast (th_state (s_threads s t)) :: usize) \<noteq> T_SEMAPHORE_WAIT
              then tl_remove_p (unat (th_state (s_threads s t))) t s else Some s);
        let s = set_thread t (\<lambda>x. x\<lparr>th_state := ucast state_list\<rparr>) s;
        if state_list \<noteq> T_SEMAPHORE_WAIT then tl_append (unat state_list) t s else Some s
      })"

section \<open>The scheduler\<close>

definition update_time :: "sched \<Rightarrow> sched" where
  "update_time s = (let nsec_current = clock s;
     s = set_thread (thread_c s) (\<lambda>x. x\<lparr>th_time := th_time x + (nsec_current - nsec_last s)\<rparr>) s
     in s\<lparr>nsec_last := nsec_current\<rparr>)"

definition update_time_to :: "u64 \<Rightarrow> sched \<Rightarrow> sched" where
  "update_time_to nsec s = (let nsec_current = nsec;
     s = set_thread (thread_c s) (\<lambda>x. x\<lparr>th_time := th_time x + (nsec_current - nsec_last s)\<rparr>) s
     in s\<lparr>nsec_last := nsec_current\<rparr>)"

definition schedule :: "sched \<Rightarrow> (registers option \<times> sched) option" where
  "schedule s =
     (if thread_post_c s \<noteq> 0 then Some (None, s\<lparr>thread_post_flag := True\<rparr>)
      else if l_len (t_list s T_READY) \<noteq> 0 then do {
        let s = update_time s;
        let proc_c_save = th_proc (s_threads s (thread_c s));
        s \<leftarrow> (if th_state (s_threads s (thread_c s)) = 0 then move_to (thread_c s) 1 s else Some s);
        (t, s) \<leftarrow> tl_pop_start T_READY s;
        let s = s\<lparr>thread_c := t\<rparr>;
        s \<leftarrow> tl_append T_RUNNING (thread_c s) s;
        let s = set_thread (thread_c s) (\<lambda>x. x\<lparr>th_state := 0\<rparr>) s;
        let p = th_proc (s_threads s (thread_c s));
        let s = (if p \<noteq> proc_c_save then s\<lparr>cr3 := pv_cr3 (s_procs s p)\<rparr> else s);
        Some (Some (th_regs (s_threads s (thread_c s))), s)
      }
      else Some (None, s))"

definition sched_int_handler :: "u16 \<Rightarrow> registers \<Rightarrow> sched \<Rightarrow> (registers option \<times> sched) option" where
  "sched_int_handler cs regs s =
     (if cs AND 3 \<noteq> 0 then Some (None, s)
      else schedule (set_thread (thread_c s) (\<lambda>x. x\<lparr>th_regs := regs\<rparr>) s))"

text \<open>
  \<^verbatim>\<open>int INT_SCHED\<close> and the return from its handler: the registers are those of the
  thread switched to, or the interrupted ones.
\<close>

definition int_sched :: "sched \<Rightarrow> (bool \<times> sched) option" where
  "int_sched s = do {
     (out, s) \<leftarrow> sched_int_handler (r_cs (cpu s)) (cpu s) s;
     case out of None \<Rightarrow> Some (False, s) | Some r \<Rightarrow> Some (True, s\<lparr>cpu := r\<rparr>)
   }"

text \<open>The code after a possible switch runs at once only without one.\<close>

definition finish :: "(sched \<Rightarrow> sched) \<Rightarrow> bool \<times> sched \<Rightarrow> bool \<times> sched" where
  "finish k r = (if fst r then r else (False, k (snd r)))"

definition unlock_all :: "sched \<Rightarrow> (bool \<times> sched) option" where
  "unlock_all s =
     (let s = s\<lparr>thread_post_c := max (thread_post_c s) 1 - 1\<rparr>
      in if thread_post_c s = 0 \<and> thread_post_flag s
         then map_option (finish unlock) (int_sched (s\<lparr>thread_post_flag := False\<rparr>))
         else Some (False, unlock s))"

section \<open>Blocking\<close>

definition block :: "ptr \<Rightarrow> u8 \<Rightarrow> sched \<Rightarrow> (bool \<times> sched) option" where
  "block t st s = do {
     s \<leftarrow> move_to t (ucast st) (lock s);
     r \<leftarrow> (if t = thread_c s then int_sched s else Some (False, s));
     Some (finish unlock r)
   }"

definition unblock :: "ptr \<Rightarrow> sched \<Rightarrow> (bool \<times> sched) option" where
  "unblock t s = do {
     s \<leftarrow> move_to t 1 (lock s);
     r \<leftarrow> (if l_len (t_list s T_READY) = 1 then int_sched s else Some (False, s));
     Some (finish unlock r)
   }"

definition nsleep_until :: "ptr \<Rightarrow> u64 \<Rightarrow> sched \<Rightarrow> (bool \<times> sched) option" where
  "nsleep_until t time s =
     (if time \<le> clock s then Some (False, s)
      else block t 3 (set_thread t (\<lambda>x. x\<lparr>th_sleep_time := time\<rparr>) s))"

definition nsleep :: "ptr \<Rightarrow> u64 \<Rightarrow> sched \<Rightarrow> (bool \<times> sched) option" where
  "nsleep t time s = nsleep_until t (clock s + time) s"

definition sleep :: "ptr \<Rightarrow> u64 \<Rightarrow> sched \<Rightarrow> (bool \<times> sched) option" where
  "sleep t time s = nsleep t (time * 1000000000) s"

definition sys_thread_block :: "usize \<Rightarrow> usize \<Rightarrow> sched \<Rightarrow> (bool \<times> sched) option" where
  "sys_thread_block reason nsec s =
     (if reason > T_REASON_MAX \<or> reason = 0 then Some (False, s)
      else if reason = 3 then nsleep_until (thread_c s) nsec s
      else block (thread_c s) (ucast reason) s)"

section \<open>The timer\<close>

text \<open>\<^verbatim>\<open>i --\<close> after an unblock and the loop's \<^verbatim>\<open>i ++\<close> leave the index where it is.\<close>

partial_function (option) wake_loop :: "u64 \<Rightarrow> usize \<Rightarrow> sched \<Rightarrow> (bool \<times> sched) option" where
  "wake_loop nsec i s =
     (if \<not> i < l_len (t_list s T_SLEEP) then Some (False, s)
      else do {
        (temp, s) \<leftarrow> tl_at T_SLEEP i s;
        if temp = NULL then None
        else if th_sleep_time (s_threads s temp) \<le> nsec then do {
          (t, s) \<leftarrow> tl_at T_SLEEP i s;
          (switched, s) \<leftarrow> unblock t s;
          if switched then Some (True, s) else wake_loop nsec i s
        }
        else wake_loop nsec (i + 1) s
      })"

text \<open>
  The part of the handler after \<^verbatim>\<open>unlock_all\<close>, which may run long after the rest: the
  time \<open>nsec\<close> is the one read at the start. The result is what the handler returns.
\<close>

definition time_slice_end :: "u64 \<Rightarrow> sched \<Rightarrow> (registers option \<times> sched) option" where
  "time_slice_end nsec s =
     (if nsec - nsec_last s \<ge> THREAD_TIME_SLICE then do {
        (out, s) \<leftarrow> schedule (lock s);
        Some (out, unlock s)
      }
      else Some (None, s))"

text \<open>The result says whether the handler itself was switched away from, and what it returns.\<close>

definition sched_time_handler :: "registers \<Rightarrow> sched \<Rightarrow> (bool \<times> registers option \<times> sched) option" where
  "sched_time_handler regs s = do {
     let s = set_thread (thread_c s) (\<lambda>x. x\<lparr>th_regs := regs\<rparr>) s;
     let nsec = clock_nolatch s;
     (switched, s) \<leftarrow> wake_loop nsec 0 (lock_all s);
     if switched then Some (True, None, s)
     else do {
       (switched, s) \<leftarrow> unlock_all s;
       if switched then Some (True, None, s)
       else do {
         (out, s) \<leftarrow> time_slice_end nsec s;
         Some (False, out, s)
       }
     }
   }"

text \<open>
  The timer interrupt: the gate clears the interrupt flag and loads the kernel code segment, the
  handler runs (\<open>kregs\<close> are the other registers inside it), and the return loads the
  registers it chose or the saved ones.
\<close>

definition timer_interrupt :: "registers \<Rightarrow> sched \<Rightarrow> sched option" where
  "timer_interrupt kregs s = do {
     (switched, out, s') \<leftarrow> sched_time_handler (cpu s) (cli (s\<lparr>cpu := kregs\<lparr>r_cs := 8\<rparr>\<rparr>));
     if switched then Some s'
     else Some (s'\<lparr>cpu := (case out of None \<Rightarrow> cpu s | Some r \<Rightarrow> r)\<rparr>)
   }"

section \<open>Semaphores\<close>

definition sem_append :: "ptr \<Rightarrow> ptr \<Rightarrow> sched \<Rightarrow> sched option" where
  "sem_append q t s = do {
     (h, l) \<leftarrow> list_append (s_nodes s) (sem_waiting (s_sems s q)) t;
     Some (set_sem q (\<lambda>x. x\<lparr>sem_waiting := l\<rparr>) (s\<lparr>s_nodes := h\<rparr>))
   }"

definition sem_pop_start :: "ptr \<Rightarrow> sched \<Rightarrow> (ptr \<times> sched) option" where
  "sem_pop_start q s = do {
     (z, l) \<leftarrow> list_pop_start (s_nodes s) (sem_waiting (s_sems s q));
     Some (z, set_sem q (\<lambda>x. x\<lparr>sem_waiting := l\<rparr>) s)
   }"

definition sem_new :: "usize \<Rightarrow> semaphore" where
  "sem_new n = \<lparr>sem_max_thr_c = n, sem_thr_c = 0, sem_waiting = new_list\<rparr>"

definition sem_lock :: "ptr \<Rightarrow> sched \<Rightarrow> (bool \<times> sched) option" where
  "sem_lock q s =
     (let s = lock s
      in if sem_thr_c (s_sems s q) < sem_max_thr_c (s_sems s q)
         then Some (False, unlock (set_sem q (\<lambda>x. x\<lparr>sem_thr_c := sem_thr_c x + 1\<rparr>) s))
         else do {
           s \<leftarrow> move_to (thread_c s) T_SEMAPHORE_WAIT s;
           s \<leftarrow> sem_append q (thread_c s) s;
           r \<leftarrow> int_sched s;
           Some (finish unlock r)
         })"

definition sem_try_lock :: "ptr \<Rightarrow> sched \<Rightarrow> bool \<times> sched" where
  "sem_try_lock q s =
     (let s = lock s
      in if sem_thr_c (s_sems s q) < sem_max_thr_c (s_sems s q)
         then (True, unlock (set_sem q (\<lambda>x. x\<lparr>sem_thr_c := sem_thr_c x + 1\<rparr>) s))
         else (False, unlock s))"

definition sem_unlock :: "ptr \<Rightarrow> sched \<Rightarrow> (bool \<times> sched) option" where
  "sem_unlock q s =
     (let s = lock s
      in if l_len (sem_waiting (s_sems s q)) \<noteq> 0
         then do {
           (t, s) \<leftarrow> sem_pop_start q s;
           r \<leftarrow> unblock t s;
           Some (finish unlock r)
         }
         else if sem_thr_c (s_sems s q) \<noteq> 0
         then Some (False, unlock (set_sem q (\<lambda>x. x\<lparr>sem_thr_c := sem_thr_c x - 1\<rparr>) s))
         else Some (False, unlock s))"

text \<open>The loops of \<^verbatim>\<open>reset_ready\<close> and \<^verbatim>\<open>reset_destroy\<close>; the semaphore is deleted afterwards.\<close>

partial_function (option) reset_ready_loop :: "ptr \<Rightarrow> sched \<Rightarrow> (bool \<times> sched) option" where
  "reset_ready_loop q s =
     (if l_len (sem_waiting (s_sems s q)) = 0 then Some (False, s)
      else do {
        (t, s) \<leftarrow> sem_pop_start q s;
        (switched, s) \<leftarrow> unblock t s;
        if switched then Some (True, s) else reset_ready_loop q s
      })"

definition sem_reset_ready :: "ptr \<Rightarrow> sched \<Rightarrow> (bool \<times> sched) option" where
  "sem_reset_ready q s = map_option (finish unlock) (reset_ready_loop q (lock s))"

partial_function (option) reset_destroy_loop :: "ptr \<Rightarrow> sched \<Rightarrow> sched option" where
  "reset_destroy_loop q s =
     (if l_len (sem_waiting (s_sems s q)) = 0 then Some s
      else do {
        (t, s) \<leftarrow> sem_pop_start q s;
        s \<leftarrow> move_to t 2 s;
        reset_destroy_loop q s
      })"

definition sem_reset_destroy :: "ptr \<Rightarrow> sched \<Rightarrow> sched option" where
  "sem_reset_destroy q s = map_option unlock (reset_destroy_loop q (lock s))"

section \<open>New threads and the cleaner\<close>

text \<open>
  \<^verbatim>\<open>thread::init\<close> for a thread object at \<open>t\<close>: \<open>stack\<close> and \<open>kstack\<close> are what the memory
  manager returned, \<open>added\<close> is the answer of \<^verbatim>\<open>proc.add_thread\<close>, which is asserted.
\<close>

definition thread_init ::
  "ptr \<Rightarrow> ptr \<Rightarrow> string option \<Rightarrow> usize \<Rightarrow> usize \<Rightarrow> usize \<Rightarrow> usize \<Rightarrow> bool \<Rightarrow> sched \<Rightarrow> sched option" where
  "thread_init t proc name stack_size func stack kstack added s =
     (let uid = pv_uid (s_procs s proc);
          regs = (if uid = 0 then kernel_regs else if uid = 1 then superuser_regs else user_regs);
          s = set_thread t (\<lambda>x. x\<lparr>th_proc := proc, th_stack_size := stack_size, th_process_alive := True,
                th_name := name, th_regs := regs\<rparr>) s
      in do {
        s \<leftarrow> (if init_done s then
               let regs = (if uid \<noteq> 0 then regs\<lparr>r_kernel_rsp := kstack + KSTACK_SIZE\<rparr> else regs);
                   regs = regs\<lparr>r_rsp := stack + stack_size - 8, r_rip := func\<rparr>;
                   s = set_thread t (\<lambda>x. x\<lparr>th_stack_start := stack,
                         th_kstack_size := (if uid \<noteq> 0 then KSTACK_SIZE else 0),
                         th_kstack_start := (if uid \<noteq> 0 then kstack else 0), th_regs := regs\<rparr>) s
               in do {
                 s \<leftarrow> tl_append T_READY t (lock s);
                 Some (unlock (set_thread t (\<lambda>x. x\<lparr>th_state := 1\<rparr>) s))
               }
             else do {
               s \<leftarrow> tl_append T_RUNNING t (set_thread t (\<lambda>x. x\<lparr>th_stack_start := 0\<rparr>) s);
               Some ((set_thread t (\<lambda>x. x\<lparr>th_state := 0\<rparr>) (s\<lparr>thread_c := t\<rparr>))\<lparr>init_done := True\<rparr>)
             });
        if added then Some s else None
      })"

text \<open>
  One round of \<^verbatim>\<open>thread_cleaner\<close>: the threads it deletes, in order. \<^verbatim>\<open>panic\<close> does not return.
\<close>

partial_function (option) cleaner_round :: "ptr list \<Rightarrow> sched \<Rightarrow> (ptr list \<times> sched) option" where
  "cleaner_round del s =
     (let s = lock s
      in if l_len (t_list s T_DESTROY) = 0 then Some (del, unlock s)
         else do {
           (temp, s) \<leftarrow> tl_pop_start T_DESTROY s;
           let s = unlock s;
           if th_stack_size (s_threads s temp) = 0 then None
           else cleaner_round (del @ [temp]) s
         })"

end
