(* ===== verification/Interrupts.thy ===== *)
theory Interrupts
  imports Sched
begin

text \<open>
  Interrupts and the devices behind them: the descriptor tables and the dispatch of
  \<^verbatim>\<open>src/int/int.cpp\<close> and \<^verbatim>\<open>src/gdt.cpp\<close>, the interrupt controllers (\<^verbatim>\<open>src/int/pic.cpp\<close>) and the
  timer (\<^verbatim>\<open>src/time/pit.cpp\<close>). Handlers are addresses of functions; what a handler does is an
  argument of the dispatch, \<open>call\<close>. The ports are a log of what was written and read, and a
  device answers a read from the log.
\<close>

unbundle bit_operations_syntax

section \<open>Data\<close>

datatype port_event = Port_Out u16 u8 | Port_In u16 u8

type_synonym device = "port_event list \<Rightarrow> u16 \<Rightarrow> u8"

record int_data =
  d_rip :: u64
  d_cs :: u64
  d_rflags :: u64
  d_rsp :: u64
  d_ss :: u64

record idt_e =
  p1 :: u16
  gdt_select :: u16
  ist :: u8
  idt_attr :: u8
  p2 :: u16
  p3 :: u32
  idt_zero :: u32

record pit_data =
  elapsed_time :: u64
  pit_reset :: u16
  nano_reset :: u64

datatype int_handler_type = ht_normal | ht_first | ht_reg

text \<open>
  The tables, the words of \<^verbatim>\<open>kdata::data\<close> and of the task state segment that a switch sets, the
  timer, the ports, and the scheduler.
\<close>

record int_state =
  int_handlers :: "u8 \<Rightarrow> u8 \<Rightarrow> ptr"
  is_idt :: "u8 \<Rightarrow> idt_e"
  is_idtr :: "u16 \<times> ptr"
  kdata_call_rsp :: usize
  kdata_call_save_rsp :: usize
  tss_rsp0 :: usize
  is_pit :: pit_data
  is_ports :: "port_event list"
  is_sched :: sched

text \<open>
  What a handler does: whether it was switched away from, so that another thread runs and the rest of
  the interrupt waits for the interrupted one, its answer, and the state, then that at the switch.
\<close>

type_synonym handler_call =
  "ptr \<Rightarrow> int_data \<Rightarrow> u64 \<Rightarrow> registers option \<Rightarrow> int_state \<Rightarrow> (bool \<times> registers option \<times> int_state) option"

definition MAX_HANDLERS :: u8 where "MAX_HANDLERS = 16"
definition PICM_OFFSET :: u8 where "PICM_OFFSET = 32"
definition PICS_OFFSET :: u8 where "PICS_OFFSET = 40"
definition IRQ_TIMER :: u8 where "IRQ_TIMER = PICM_OFFSET"
definition IRQ_KEYBOARD :: u8 where "IRQ_KEYBOARD = PICM_OFFSET + 1"
definition INT_SCHED :: u8 where "INT_SCHED = 128"

definition outp :: "u16 \<Rightarrow> u8 \<Rightarrow> int_state \<Rightarrow> int_state" where
  "outp port v s = s\<lparr>is_ports := is_ports s @ [Port_Out port v]\<rparr>"

definition inp :: "device \<Rightarrow> u16 \<Rightarrow> int_state \<Rightarrow> u8 \<times> int_state" where
  "inp dev port s = (let v = dev (is_ports s) port in (v, s\<lparr>is_ports := is_ports s @ [Port_In port v]\<rparr>))"

section \<open>Interrupt controllers\<close>

definition PICM_COMMAND :: u16 where "PICM_COMMAND = 0x20"
definition PICM_DATA :: u16 where "PICM_DATA = 0x21"
definition PICS_COMMAND :: u16 where "PICS_COMMAND = 0xa0"
definition PICS_DATA :: u16 where "PICS_DATA = 0xa1"
definition PIC_EOI :: u8 where "PIC_EOI = 0x20"
definition ICW1_ICW4 :: u8 where "ICW1_ICW4 = 0x01"
definition ICW1_INIT :: u8 where "ICW1_INIT = 0x10"
definition ICW4_8086 :: u8 where "ICW4_8086 = 0x01"

text \<open>\<^verbatim>\<open>io_wait\<close> writes whatever is in \<^verbatim>\<open>al\<close> to an unused port; it is left out.\<close>

definition pic_remap :: "device \<Rightarrow> u8 \<Rightarrow> u8 \<Rightarrow> int_state \<Rightarrow> int_state" where
  "pic_remap dev m_offset s_offset s =
     (let (s1, s) = inp dev PICM_DATA s;
          (s2, s) = inp dev PICS_DATA s;
          s = outp PICM_COMMAND (ICW1_INIT OR ICW1_ICW4) s;
          s = outp PICS_COMMAND (ICW1_INIT OR ICW1_ICW4) s;
          s = outp PICM_DATA m_offset s;
          s = outp PICS_DATA s_offset s;
          s = outp PICM_DATA 4 s;
          s = outp PICS_DATA 2 s;
          s = outp PICM_DATA ICW4_8086 s;
          s = outp PICS_DATA ICW4_8086 s;
          s = outp PICM_DATA s1 s
      in outp PICS_DATA s2 s)"

text \<open>The difference is an \<^verbatim>\<open>int\<close>.\<close>

definition pic_eoi :: "u8 \<Rightarrow> int_state \<Rightarrow> int_state" where
  "pic_eoi irq s =
     (let s = (if int (unat irq) - int (unat PICM_OFFSET) > 7 then outp PICS_COMMAND PIC_EOI s else s)
      in outp PICM_COMMAND PIC_EOI s)"

section \<open>Handlers\<close>

lemma u8_up: "(i :: u8) < 16 \<Longrightarrow> 16 - unat (i + 1) < 16 - unat i"
proof -
  assume i: "i < 16"
  then have "unat i < 16" by (simp add: word_less_nat_alt)
  then have "unat (i + 1) = unat i + 1" by (simp add: unat_word_ariths)
  with \<open>unat i < 16\<close> show ?thesis by simp
qed

function find_slot :: "u8 \<Rightarrow> u8 \<Rightarrow> int_state \<Rightarrow> u8 option" where
  "find_slot vec i s =
     (if int_handlers s vec i \<noteq> NULL then if i \<ge> MAX_HANDLERS - 1 then None else find_slot vec (i + 1) s
      else Some i)"
  by pat_completeness auto
termination
  by (relation "measure (\<lambda>(_, i, _). 16 - unat i)") (auto simp: MAX_HANDLERS_def not_le intro!: u8_up elim: order.strict_trans)

declare find_slot.simps [simp del]

definition set_handler :: "u8 \<Rightarrow> u8 \<Rightarrow> ptr \<Rightarrow> int_state \<Rightarrow> int_state" where
  "set_handler vec i h s = s\<lparr>int_handlers := (int_handlers s)(vec := (int_handlers s vec)(i := h))\<rparr>"

definition reg_int_handler :: "u8 \<Rightarrow> ptr \<Rightarrow> int_handler_type \<Rightarrow> int_state \<Rightarrow> bool \<times> int_state" where
  "reg_int_handler vec handler ty s =
     (if ty = ht_first then
        if int_handlers s vec 0 \<noteq> NULL then (False, s) else (True, set_handler vec 0 handler s)
      else if ty = ht_reg then
        if int_handlers s vec (MAX_HANDLERS - 1) \<noteq> NULL then (False, s)
        else (True, set_handler vec (MAX_HANDLERS - 1) handler s)
      else case find_slot vec 1 s of None \<Rightarrow> (False, s) | Some i \<Rightarrow> (True, set_handler vec i handler s))"

function rem_loop :: "u8 \<Rightarrow> ptr \<Rightarrow> u8 \<Rightarrow> int_state \<Rightarrow> int_state" where
  "rem_loop vec handler i s =
     (if i < MAX_HANDLERS then
        let s = (if int_handlers s vec i = handler then set_handler vec i NULL s else s)
        in rem_loop vec handler (i + 1) s
      else s)"
  by pat_completeness auto
termination by (relation "measure (\<lambda>(_, _, i, _). 16 - unat i)") (auto simp: MAX_HANDLERS_def u8_up)

declare rem_loop.simps [simp del]

definition rem_int_handler :: "u8 \<Rightarrow> ptr \<Rightarrow> int_state \<Rightarrow> int_state" where
  "rem_int_handler vec handler s = rem_loop vec handler 0 s"

section \<open>Dispatch\<close>

function run_handlers :: "handler_call \<Rightarrow> u8 \<Rightarrow> int_data \<Rightarrow> u64 \<Rightarrow> u8 \<Rightarrow> int_state \<Rightarrow> (bool \<times> int_state) option" where
  "run_handlers call vec data error i s =
     (if i < MAX_HANDLERS then do {
        (away, s) \<leftarrow> (if int_handlers s vec i \<noteq> NULL then do {
                (away, _, s) \<leftarrow> call (int_handlers s vec i) data error None s;
                Some (away, s)
              }
              else Some (False, s));
        if away then Some (True, s) else run_handlers call vec data error (i + 1) s
      }
      else Some (False, s))"
  by pat_completeness auto
termination by (relation "measure (\<lambda>(_, _, _, _, i, _). 16 - unat i)") (auto simp: MAX_HANDLERS_def u8_up)

declare run_handlers.simps [simp del]

definition int_handler :: "handler_call \<Rightarrow> u8 \<Rightarrow> int_data \<Rightarrow> int_state \<Rightarrow> (bool \<times> int_state) option" where
  "int_handler call vec data s = run_handlers call vec data 0 0 s"

definition int_handler_e :: "handler_call \<Rightarrow> u8 \<Rightarrow> int_data \<Rightarrow> u64 \<Rightarrow> int_state \<Rightarrow> (bool \<times> int_state) option" where
  "int_handler_e call vec data error s = run_handlers call vec data error 0 s"

definition irq_handler :: "handler_call \<Rightarrow> u8 \<Rightarrow> int_data \<Rightarrow> int_state \<Rightarrow> (bool \<times> int_state) option" where
  "irq_handler call vec data s = do {
     (away, s) \<leftarrow> run_handlers call vec data 0 0 s;
     Some (away, if away then s else pic_eoi vec s)
   }"

text \<open>The handlers of the vectors that may switch threads get the saved registers; the last one answers.\<close>

function run_c_handlers ::
  "handler_call \<Rightarrow> u8 \<Rightarrow> int_data \<Rightarrow> u64 \<Rightarrow> registers \<Rightarrow> u8 \<Rightarrow> registers option \<Rightarrow> int_state \<Rightarrow>
   (bool \<times> registers option \<times> int_state) option" where
  "run_c_handlers call vec data error regs i out s =
     (if i < MAX_HANDLERS then do {
        (away, out, s) \<leftarrow>
          (if int_handlers s vec i \<noteq> NULL then
             if i = MAX_HANDLERS - 1 then call (int_handlers s vec i) data error (Some regs) s
             else do { (away, _, s) \<leftarrow> call (int_handlers s vec i) data error (Some regs) s; Some (away, out, s) }
           else Some (False, out, s));
        if away then Some (True, None, s) else run_c_handlers call vec data error regs (i + 1) out s
      }
      else Some (False, out, s))"
  by pat_completeness auto
termination by (relation "measure (\<lambda>(_, _, _, _, _, i, _, _). 16 - unat i)") (auto simp: MAX_HANDLERS_def u8_up)

declare run_c_handlers.simps [simp del]

text \<open>An answer is loaded by the entry code, its stacks are those of the next system call and interrupt. The prints are left out.\<close>

definition load_stacks :: "registers option \<Rightarrow> int_state \<Rightarrow> int_state" where
  "load_stacks out s = (case out of None \<Rightarrow> s
     | Some r \<Rightarrow> s\<lparr>kdata_call_rsp := r_kernel_rsp r, kdata_call_save_rsp := r_call_save_rsp r, tss_rsp0 := r_kernel_rsp r\<rparr>)"

definition c_int_handler :: "handler_call \<Rightarrow> u8 \<Rightarrow> int_data \<Rightarrow> u64 \<Rightarrow> registers \<Rightarrow> int_state \<Rightarrow> (bool \<times> registers option \<times> int_state) option" where
  "c_int_handler call vec data error regs s =
     (let c = th_regs (s_threads (is_sched s) (thread_c (is_sched s)));
          regs = (if r_cs regs AND 3 \<noteq> 0 then regs\<lparr>r_kernel_rsp := r_kernel_rsp c, r_call_save_rsp := r_call_save_rsp c\<rparr> else regs)
      in do {
        (away, out, s) \<leftarrow> run_c_handlers call vec data error regs 0 None s;
        if away then Some (True, None, s) else Some (False, out, load_stacks out s)
      })"

text \<open>
  Which function the macros make for a vector; a vector without one has no gate. The assembly entry
  of vector 32 sends the end of interrupt after the handlers.
\<close>

definition error_vectors :: "u8 set" where "error_vectors = {8, 10, 11, 12, 13, 14, 17, 30}"

definition interrupt :: "handler_call \<Rightarrow> u8 \<Rightarrow> int_data \<Rightarrow> u64 \<Rightarrow> registers \<Rightarrow> int_state \<Rightarrow> (bool \<times> registers option \<times> int_state) option" where
  "interrupt call vec data error regs s =
     (if vec = 32 then do {
        (away, out, s) \<leftarrow> c_int_handler call vec data 0 regs s;
        Some (away, out, if away then s else pic_eoi vec s)
      }
      else if vec = 128 then c_int_handler call vec data 0 regs s
      else if vec \<in> error_vectors then map_option (\<lambda>(away, s). (away, None, s)) (int_handler_e call vec data error s)
      else if vec < 32 then map_option (\<lambda>(away, s). (away, None, s)) (int_handler call vec data s)
      else if vec < 48 then map_option (\<lambda>(away, s). (away, None, s)) (irq_handler call vec data s)
      else None)"

text \<open>
  The timer vector from the point where its scheduler handler, in the last slot, was switched away
  from: the rest of \<^verbatim>\<open>unlock_all\<close> and of the handler, the answer, and the end of the interrupt.
\<close>

definition resume_timer :: "u64 \<Rightarrow> int_state \<Rightarrow> (registers option \<times> int_state) option" where
  "resume_timer nsec s = do {
     (out, c) \<leftarrow> time_slice_end nsec (unlock (is_sched s));
     Some (out, pic_eoi IRQ_TIMER (load_stacks out (s\<lparr>is_sched := c\<rparr>)))
   }"

section \<open>The interrupt descriptor table\<close>

definition idt_add_entry :: "u8 \<Rightarrow> usize \<Rightarrow> u8 \<Rightarrow> int_state \<Rightarrow> int_state" where
  "idt_add_entry vec func attr s = s\<lparr>is_idt := (is_idt s)(vec :=
     \<lparr>p1 = ucast (get_bits func 0 15), gdt_select = 8, ist = 0, idt_attr = attr, p2 = ucast (get_bits func 16 31),
      p3 = ucast (get_bits func 32 63), idt_zero = 0\<rparr>)\<rparr>"

definition vectors :: "u8 list" where "vectors = map of_nat [0..<48] @ [128]"

text \<open>\<open>entry\<close> gives the addresses of the handler functions, \<open>idt\<close> that of the table of 256 entries of 16 bytes.\<close>

definition idt_init :: "ptr \<Rightarrow> (u8 \<Rightarrow> usize) \<Rightarrow> int_state \<Rightarrow> int_state" where
  "idt_init idt entry s =
     fold (\<lambda>vec. idt_add_entry vec (entry vec) (if vec = 17 then 0b10001111 else 0b10001110)) vectors
       (s\<lparr>is_idtr := (16 * 256 - 1, idt)\<rparr>)"

section \<open>The timer\<close>

definition PIT_CHANNEL_0 :: u16 where "PIT_CHANNEL_0 = 0x40"
definition PIT_COMMAND :: u16 where "PIT_COMMAND = 0x43"
definition NANOSEC_PER_CLOCK :: u64 where "NANOSEC_PER_CLOCK = 838"

definition timer_irq_handler :: "int_state \<Rightarrow> registers option \<times> int_state" where
  "timer_irq_handler s = (let p = is_pit s in (None, s\<lparr>is_pit := p\<lparr>elapsed_time := elapsed_time p + nano_reset p\<rparr>\<rparr>))"

definition set_pit_reset :: "u16 \<Rightarrow> int_state \<Rightarrow> int_state" where
  "set_pit_reset v s =
     (let s = outp PIT_COMMAND 0b00110110 s;
          s = outp PIT_CHANNEL_0 (ucast (get_bits (ucast v) 0 7)) s;
          s = outp PIT_CHANNEL_0 (ucast (get_bits (ucast v) 8 15)) s
      in s\<lparr>is_pit := (is_pit s)\<lparr>pit_reset := v, nano_reset := NANOSEC_PER_CLOCK * ucast v\<rparr>\<rparr>)"

text \<open>\<open>handler\<close> is the address of \<^verbatim>\<open>timer_irq_handler\<close>; \<^term>\<open>None\<close> is the panic.\<close>

definition time_init :: "ptr \<Rightarrow> int_state \<Rightarrow> int_state option" where
  "time_init handler s =
     (let s = set_pit_reset 0xffff s; (b, s) = reg_int_handler IRQ_TIMER handler ht_first s
      in if \<not> b then None else Some s)"

definition time_nsec :: "device \<Rightarrow> int_state \<Rightarrow> u64 \<times> int_state" where
  "time_nsec dev s =
     (let s = outp PIT_COMMAND 0 s;
          (low, s) = inp dev PIT_CHANNEL_0 s;
          (high, s) = inp dev PIT_CHANNEL_0 s
      in (elapsed_time (is_pit s) + NANOSEC_PER_CLOCK * (push_bit 8 (ucast high) OR ucast low), s))"

definition time_sec :: "device \<Rightarrow> int_state \<Rightarrow> u64 \<times> int_state" where
  "time_sec dev s = (let (n, s) = time_nsec dev s in ((n + 500000000) div 1000000000, s))"

definition time_nsec_nolatch :: "int_state \<Rightarrow> u64" where "time_nsec_nolatch s = elapsed_time (is_pit s)"

definition time_sec_nolatch :: "int_state \<Rightarrow> u64" where "time_sec_nolatch s = (time_nsec_nolatch s + 500000000) div 1000000000"

section \<open>The segment descriptor table\<close>

type_synonym u4 = "4 word"

record gdt_e =
  g_limit_1 :: u16
  g_base_1 :: u16
  g_base_2 :: u8
  g_access :: u8
  g_limit_2 :: u4
  g_flags :: u4
  g_base_3 :: u8

record tss_e =
  t_limit_1 :: u16
  t_base_1 :: u16
  t_base_2 :: u8
  t_acces :: u8
  t_limit_2 :: u4
  t_flags :: u4
  t_base_3 :: u8
  t_base_4 :: u32
  t_zero :: u32

record gdt =
  gdt_entries :: "u8 \<Rightarrow> gdt_e"
  gdt_tss :: tss_e
  tss_iomap :: u16
  gdt_loaded :: "u16 \<times> ptr"
  tr_loaded :: u16
  data_segments :: u16

definition gdt_add_entry :: "u8 \<Rightarrow> u32 \<Rightarrow> u32 \<Rightarrow> u8 \<Rightarrow> u8 \<Rightarrow> gdt \<Rightarrow> gdt" where
  "gdt_add_entry index base limit access flags g = g\<lparr>gdt_entries := (gdt_entries g)(index :=
     \<lparr>g_limit_1 = ucast (get_bits (ucast limit) 0 15), g_base_1 = ucast (get_bits (ucast base) 0 15),
      g_base_2 = ucast (get_bits (ucast base) 16 23), g_access = access, g_limit_2 = ucast (get_bits (ucast limit) 16 19),
      g_flags = ucast (0x0f AND flags), g_base_3 = ucast (get_bits (ucast base) 24 31)\<rparr>)\<rparr>"

text \<open>The arguments are the addresses of the two objects; the table has five entries of 8 bytes and one of 16.\<close>

definition gdt_init :: "ptr \<Rightarrow> usize \<Rightarrow> gdt \<Rightarrow> gdt" where
  "gdt_init gdt_addr tss_addr g =
     (let g = gdt_add_entry 0 0 0 0 0 g;
          g = gdt_add_entry 1 0 0xffffffff 0x9a 0x0a g;
          g = gdt_add_entry 2 0 0xffffffff 0x92 0x0a g;
          g = gdt_add_entry 3 0 0xffffffff 0xf2 0x0a g;
          g = gdt_add_entry 4 0 0xffffffff 0xfa 0x0a g
      in g\<lparr>gdt_tss := (gdt_tss g)\<lparr>t_limit_1 := 104, t_base_1 := ucast (get_bits tss_addr 0 15), t_base_2 := ucast (get_bits tss_addr 16 23),
             t_acces := 0x89, t_limit_2 := 0, t_flags := 0, t_base_3 := ucast (get_bits tss_addr 24 31), t_base_4 := ucast (get_bits tss_addr 32 63)\<rparr>,
           tss_iomap := 104, gdt_loaded := (5 * 8 + 16 - 1, gdt_addr), tr_loaded := 0x28, data_segments := 16\<rparr>)"

end
