(* ===== verification/Sched_Props.thy ===== *)
theory Sched_Props
  imports Sched
begin

text \<open>
  Correctness of the scheduler: the invariant of the thread lists and semaphores, what every
  operation does to them, and its preservation along every run of the kernel.
\<close>

section \<open>The invariant\<close>

text \<open>
  The 16 thread lists and the waiting lists of the semaphores \<open>sids\<close>, as one array of lists
  \<open>xss\<close> over the shared node heap. A thread is in the list its state names, the waiting threads
  of a semaphore have the state \<^verbatim>\<open>T_SEMAPHORE_WAIT\<close>, and threads wait only at full semaphores.
\<close>

definition all_lists :: "sched \<Rightarrow> ptr list \<Rightarrow> nat \<Rightarrow> linked_list" where
  "all_lists s sids i = (if i < 16 then t_list s i
     else if i - 16 < length sids then sem_waiting (s_sems s (sids ! (i - 16))) else new_list)"

definition fam :: "sched \<Rightarrow> ptr list \<Rightarrow> (nat \<Rightarrow> ptr list) \<Rightarrow> bool" where
  "fam s sids xss \<longleftrightarrow> distinct sids \<and> family list_rep (s_nodes s) (all_lists s sids) xss (16 + length sids)"

definition list_state :: "nat \<Rightarrow> u8" where
  "list_state i = (if i < 16 then of_nat i else 128)"

definition states_ok :: "sched \<Rightarrow> ptr list \<Rightarrow> (nat \<Rightarrow> ptr list) \<Rightarrow> bool" where
  "states_ok s sids xss \<longleftrightarrow>
     (\<forall>i < 16 + length sids. \<forall>t \<in> set (xss i). th_state (s_threads s t) = list_state i)"

definition sems_ok :: "sched \<Rightarrow> ptr list \<Rightarrow> (nat \<Rightarrow> ptr list) \<Rightarrow> bool" where
  "sems_ok s sids xss \<longleftrightarrow> (\<forall>j < length sids.
     sem_thr_c (s_sems s (sids ! j)) \<le> sem_max_thr_c (s_sems s (sids ! j)) \<and>
     (xss (16 + j) \<noteq> [] \<longrightarrow> sem_thr_c (s_sems s (sids ! j)) = sem_max_thr_c (s_sems s (sids ! j))))"

definition sched_ok :: "sched \<Rightarrow> ptr list \<Rightarrow> (nat \<Rightarrow> ptr list) \<Rightarrow> bool" where
  "sched_ok s sids xss \<longleftrightarrow> fam s sids xss \<and> states_ok s sids xss \<and> sems_ok s sids xss"

lemma fam_cong:
  "s_nodes s' = s_nodes s \<Longrightarrow> t_list s' = t_list s \<Longrightarrow> (\<And>q. sem_waiting (s_sems s' q) = sem_waiting (s_sems s q)) \<Longrightarrow>
    fam s' sids xss = fam s sids xss"
proof -
  assume "s_nodes s' = s_nodes s" "t_list s' = t_list s" "\<And>q. sem_waiting (s_sems s' q) = sem_waiting (s_sems s q)"
  moreover from this have "all_lists s' sids = all_lists s sids" by (simp add: all_lists_def fun_eq_iff)
  ultimately show ?thesis by (simp add: fam_def)
qed

lemma fam_upd [simp]:
  "fam (set_thread t f s) = fam s" "fam (s\<lparr>cpu := c\<rparr>) = fam s" "fam (s\<lparr>irq_c := n\<rparr>) = fam s"
  "fam (s\<lparr>thread_c := t\<rparr>) = fam s" "fam (s\<lparr>thread_post_c := n\<rparr>) = fam s" "fam (s\<lparr>thread_post_flag := b\<rparr>) = fam s"
  "fam (s\<lparr>nsec_last := m\<rparr>) = fam s" "fam (s\<lparr>cr3 := m\<rparr>) = fam s" "fam (s\<lparr>s_threads := th\<rparr>) = fam s"
  by (intro ext fam_cong; simp add: set_thread_def)+

lemma all_lists_tl:
  "i < 16 \<Longrightarrow> all_lists (s\<lparr>s_nodes := h, t_list := (t_list s)(i := l)\<rparr>) sids = (all_lists s sids)(i := l)"
  by (simp add: all_lists_def fun_eq_iff)

lemma all_lists_sem:
  assumes "distinct sids" "j < length sids" "sids ! j = q"
  shows "all_lists (set_sem q (\<lambda>x. x\<lparr>sem_waiting := l\<rparr>) (s\<lparr>s_nodes := h\<rparr>)) sids = (all_lists s sids)(16 + j := l)"
  using assms nth_eq_iff_index_eq [OF assms(1) _ assms(2)]
  by (auto simp: all_lists_def set_sem_def fun_eq_iff)

text \<open>The index caches: only the removal of the cached thread clears one.\<close>

definition caches :: "nat \<Rightarrow> ptr \<Rightarrow> (nat \<Rightarrow> linked_list) \<Rightarrow> (nat \<Rightarrow> linked_list) \<Rightarrow> bool" where
  "caches i t tls tls' \<longleftrightarrow> (\<forall>k < 16. l_current_i (tls' k) = l_current_i (tls k) \<and>
     l_current (tls' k) = (if k = i \<and> l_current (tls k) = t then NULL else l_current (tls k)))"

lemma tl_append_fam:
  assumes f: "fam s sids xss" and i: "i < 16" and t: "t \<notin> members xss (16 + length sids)" "t \<noteq> NULL"
  shows "\<exists>h tls. tl_append i t s = Some (s\<lparr>s_nodes := h, t_list := tls\<rparr>) \<and>
    fam (s\<lparr>s_nodes := h, t_list := tls\<rparr>) sids (xss(i := xss i @ [t])) \<and> caches 16 t (t_list s) tls"
proof -
  have i': "i < 16 + length sids" using i by simp
  have fa: "family list_rep (s_nodes s) (all_lists s sids) xss (16 + length sids)" using f by (simp add: fam_def)
  have ali: "all_lists s sids i = t_list s i" using i by (simp add: all_lists_def)
  from kl.family_app [OF fa i' t] obtain h l where
    1: "list_append (s_nodes s) (t_list s i) t = Some (h, l)"
      "family list_rep h ((all_lists s sids)(i := l)) (xss(i := xss i @ [t])) (16 + length sids)"
    unfolding ali by blast
  have "list_rep (s_nodes s) (t_list s i) (xss i)" using familyD [OF fa i'] ali by simp
  moreover have "t \<notin> set (xss i)" using t(1) i' by (auto simp: members_def)
  ultimately have "l_current l = l_current (t_list s i)" "l_current_i l = l_current_i (t_list s i)"
    using list_append_spec [of "s_nodes s" "t_list s i" "xss i" t] t(2) 1(1) by auto
  then have "caches 16 t (t_list s) ((t_list s)(i := l))" using i by (simp add: caches_def)
  then show ?thesis
    using 1 f i by (intro exI [of _ h] exI [of _ "(t_list s)(i := l)"])
      (simp add: tl_append_def fam_def all_lists_tl)
qed

lemma tl_remove_p_fam:
  assumes f: "fam s sids xss" and i: "i < 16" and t: "t \<in> set (xss i)"
  shows "\<exists>h tls. tl_remove_p i t s = Some (s\<lparr>s_nodes := h, t_list := tls\<rparr>) \<and>
    fam (s\<lparr>s_nodes := h, t_list := tls\<rparr>) sids (xss(i := remove1 t (xss i))) \<and> caches i t (t_list s) tls"
proof -
  have i': "i < 16 + length sids" using i by simp
  have fa: "family list_rep (s_nodes s) (all_lists s sids) xss (16 + length sids)" using f by (simp add: fam_def)
  have ali: "all_lists s sids i = t_list s i" using i by (simp add: all_lists_def)
  from kl.family_remp [OF fa i' t] obtain h l where
    1: "list_remove_p (s_nodes s) (t_list s i) t = Some (h, l)"
      "family list_rep h ((all_lists s sids)(i := l)) (xss(i := remove1 t (xss i))) (16 + length sids)"
    unfolding ali by blast
  have "list_rep (s_nodes s) (t_list s i) (xss i)" using familyD [OF fa i'] ali by simp
  from list_remove_p_spec [OF this t] 1(1)
  have "l_current l = (if l_current (t_list s i) = t then NULL else l_current (t_list s i))"
    "l_current_i l = l_current_i (t_list s i)" by auto
  then have "caches i t (t_list s) ((t_list s)(i := l))" by (simp add: caches_def)
  then show ?thesis
    using 1 f i by (intro exI [of _ h] exI [of _ "(t_list s)(i := l)"])
      (simp add: tl_remove_p_def fam_def all_lists_tl)
qed

lemma tl_pop_start_fam:
  assumes f: "fam s sids xss" and i: "i < 16" and ne: "xss i = t # ts"
  shows "\<exists>tls. tl_pop_start i s = Some (t, s\<lparr>t_list := tls\<rparr>) \<and>
    fam (s\<lparr>t_list := tls\<rparr>) sids (xss(i := ts)) \<and> caches i t (t_list s) tls"
proof -
  have i': "i < 16 + length sids" using i by simp
  have fa: "family list_rep (s_nodes s) (all_lists s sids) xss (16 + length sids)" using f by (simp add: fam_def)
  have ali: "all_lists s sids i = t_list s i" using i by (simp add: all_lists_def)
  from kl.family_popf [OF fa i'] ne obtain l where
    1: "list_pop_start (s_nodes s) (t_list s i) = Some (t, l)"
      "family list_rep (s_nodes s) ((all_lists s sids)(i := l)) (xss(i := ts)) (16 + length sids)"
    unfolding ali by auto
  have "list_rep (s_nodes s) (t_list s i) (xss i)" using familyD [OF fa i'] ali by simp
  from list_pop_start_spec [OF this] ne 1(1)
  have "l_current l = (if l_current (t_list s i) = t then NULL else l_current (t_list s i))"
    "l_current_i l = l_current_i (t_list s i)" by auto
  then have "caches i t (t_list s) ((t_list s)(i := l))" by (simp add: caches_def)
  moreover have "all_lists (s\<lparr>t_list := (t_list s)(i := l)\<rparr>) sids = (all_lists s sids)(i := l)"
    using all_lists_tl [OF i, where s = s and h = "s_nodes s" and l = l and sids = sids] by simp
  ultimately show ?thesis
    using 1 f i by (intro exI [of _ "(t_list s)(i := l)"]) (simp add: tl_pop_start_def fam_def)
qed

lemma fam_distinct: "fam s sids xss \<Longrightarrow> i < 16 + length sids \<Longrightarrow> distinct (xss i) \<and> NULL \<notin> set (xss i)"
proof -
  assume "fam s sids xss" "i < 16 + length sids"
  then have "list_rep (s_nodes s) (all_lists s sids i) (xss i)"
    using familyD [of list_rep "s_nodes s" "all_lists s sids" xss "16 + length sids" i] by (simp add: fam_def)
  then show ?thesis by (simp add: list_rep_def)
qed

lemma fam_len: "fam s sids xss \<Longrightarrow> i < 16 \<Longrightarrow> unat (l_len (t_list s i)) = length (xss i)"
proof -
  assume "fam s sids xss" "i < 16"
  then have "list_rep (s_nodes s) (t_list s i) (xss i)"
    using familyD [of list_rep "s_nodes s" "all_lists s sids" xss "16 + length sids" i]
    by (simp add: fam_def all_lists_def)
  then show ?thesis by (rule list_rep_len)
qed

lemma fam_len_0: "fam s sids xss \<Longrightarrow> i < 16 \<Longrightarrow> l_len (t_list s i) = 0 \<longleftrightarrow> xss i = []"
  using fam_len [of s sids xss i] by (metis length_0_conv unat_eq_zero)

lemma fam_disjoint:
  "fam s sids xss \<Longrightarrow> i < 16 + length sids \<Longrightarrow> j < 16 + length sids \<Longrightarrow> t \<in> set (xss i) \<Longrightarrow> t \<in> set (xss j) \<Longrightarrow> i = j"
  by (auto simp: fam_def dest: family_disjoint)

text \<open>A thread taken off its list is in none.\<close>

lemma removed_notin:
  assumes f: "fam s sids xss" and i: "i < 16 + length sids" and t: "t \<in> set (xss i)"
  shows "t \<notin> members (xss(i := remove1 t (xss i))) (16 + length sids)"
proof -
  have "t \<notin> set (remove1 t (xss i))" using fam_distinct [OF f i] by simp
  then show ?thesis using fam_disjoint [OF f _ i _ t] i by (auto simp: members_upd)
qed

subsection \<open>Moving threads\<close>

lemma small_state: "i < 16 \<Longrightarrow> unat (of_nat i :: u8) = i" "i < 16 \<Longrightarrow> unat (of_nat i :: usize) = i"
proof -
  assume i: "i < 16"
  then have "i < 2 ^ 64" by (rule less_trans) simp
  then show "unat (of_nat i :: usize) = i" by (rule unat_of_nat_small)
  from i show "unat (of_nat i :: u8) = i" by (simp add: unsigned_of_nat take_bit_nat_eq_self)
qed

lemma state_conv:
  assumes "i < 16"
  shows "(ucast (of_nat i :: u8) :: usize) = of_nat i" "(ucast (of_nat i :: usize) :: u8) = of_nat i"
    "(of_nat i :: usize) \<noteq> T_SEMAPHORE_WAIT" "j < 16 \<Longrightarrow> (of_nat i :: usize) = of_nat j \<longleftrightarrow> i = j"
proof -
  have "i < 2 ^ 64" using assms by (rule less_trans) simp
  then have b: "take_bit 64 i = i" by (rule take_bit_nat_eq_self)
  have "unat (ucast (of_nat i :: u8) :: usize) = unat (of_nat i :: usize)"
    using assms b by (simp add: unsigned_ucast_eq small_state)
  then show "(ucast (of_nat i :: u8) :: usize) = of_nat i" by (simp only: unat_inj)
  have "unat (ucast (of_nat i :: usize) :: u8) = unat (of_nat i :: u8)"
    using assms by (simp add: unsigned_ucast_eq small_state take_bit_nat_eq_self)
  then show "(ucast (of_nat i :: usize) :: u8) = of_nat i" by (rule unsigned_word_eqI)
  show "(of_nat i :: usize) \<noteq> T_SEMAPHORE_WAIT"
    using assms small_state(2) [of i] unat_of_nat_small [of 128] by (auto simp: T_SEMAPHORE_WAIT_def)
  show "(of_nat i :: usize) = of_nat j \<longleftrightarrow> i = j" if "j < 16"
    using assms that small_state(2) by metis
qed

lemma move_to_list:
  assumes f: "fam s sids xss" and ij: "i < 16" "j < 16" "i \<noteq> j" and t: "t \<in> set (xss i)"
    and st: "th_state (s_threads s t) = of_nat i"
  shows "\<exists>h tls. move_to t (of_nat j) s =
      Some (set_thread t (\<lambda>x. x\<lparr>th_state := of_nat j\<rparr>) (s\<lparr>s_nodes := h, t_list := tls\<rparr>)) \<and>
    fam (s\<lparr>s_nodes := h, t_list := tls\<rparr>) sids (xss(i := remove1 t (xss i), j := xss j @ [t])) \<and>
    caches i t (t_list s) tls"
proof -
  have i': "i < 16 + length sids" using ij by simp
  have t0: "t \<noteq> NULL" using fam_distinct [OF f i'] t by auto
  from tl_remove_p_fam [OF f ij(1) t] obtain h tls where
    1: "tl_remove_p i t s = Some (s\<lparr>s_nodes := h, t_list := tls\<rparr>)"
      "fam (s\<lparr>s_nodes := h, t_list := tls\<rparr>) sids (xss(i := remove1 t (xss i)))" "caches i t (t_list s) tls" by blast
  let ?s = "set_thread t (\<lambda>x. x\<lparr>th_state := of_nat j\<rparr>) (s\<lparr>s_nodes := h, t_list := tls\<rparr>)"
  have "fam ?s sids (xss(i := remove1 t (xss i)))" using 1(2) by simp
  from tl_append_fam [OF this ij(2) removed_notin [OF f i' t] t0] obtain h2 tls2 where
    2: "tl_append j t ?s = Some (?s\<lparr>s_nodes := h2, t_list := tls2\<rparr>)"
      "fam (?s\<lparr>s_nodes := h2, t_list := tls2\<rparr>) sids (xss(i := remove1 t (xss i), j := xss j @ [t]))"
      "caches 16 t tls tls2" using ij(3) by (auto simp: set_thread_def)
  have "caches i t (t_list s) tls2" using 1(3) 2(3) ij(1) by (auto simp: caches_def)
  moreover have "fam (s\<lparr>s_nodes := h2, t_list := tls2\<rparr>) sids (xss(i := remove1 t (xss i), j := xss j @ [t]))"
    using 2(2) by (rule fam_cong [THEN iffD1, rotated 3]) (simp_all add: set_thread_def)
  ultimately show ?thesis
    using 1(1) 2(1) st t0 ij
    by (intro exI [of _ h2] exI [of _ tls2])
      (simp add: move_to_def state_conv small_state Let_def, simp add: set_thread_def)
qed

subsection \<open>The index cache of the sleeping threads\<close>

text \<open>The invariant of the lists, with the index cache of the one list that is walked.\<close>

definition base :: "sched \<Rightarrow> ptr list \<Rightarrow> (nat \<Rightarrow> ptr list) \<Rightarrow> bool" where
  "base s sids xss \<longleftrightarrow> fam s sids xss \<and> states_ok s sids xss \<and> cache_ok (t_list s T_SLEEP) (xss T_SLEEP)"

lemma cache_ok_append: "cache_ok l xs \<Longrightarrow> cache_ok l (xs @ ys)"
  by (auto simp: cache_ok_def nth_append)

lemma cache_ok_eq: "l_current l' = l_current l \<Longrightarrow> l_current_i l' = l_current_i l \<Longrightarrow> cache_ok l' xs = cache_ok l xs"
  by (simp add: cache_ok_def)

lemma caches_ok:
  assumes "caches i t (t_list s) tls" "cache_ok (t_list s 3) xs"
    and "i = 3 \<Longrightarrow> l_current (t_list s 3) \<in> {t, NULL}" and "xs' = xs @ ys \<or> i = 3"
  shows "cache_ok (tls 3) xs'"
proof (cases "i = 3")
  case True
  then show ?thesis using assms(1,3) by (auto simp: caches_def cache_ok_def)
next
  case False
  with assms(1) have "cache_ok (tls 3) xs"
    using cache_ok_eq [of "tls 3" "t_list s 3"] assms(2) by (simp add: caches_def)
  with False assms(4) cache_ok_append [OF this] show ?thesis by simp
qed

subsection \<open>Moving a thread, in full\<close>

definition moved :: "ptr \<Rightarrow> u8 \<Rightarrow> nodes \<Rightarrow> (nat \<Rightarrow> linked_list) \<Rightarrow> sched \<Rightarrow> sched" where
  "moved t st h tls s = set_thread t (\<lambda>x. x\<lparr>th_state := st\<rparr>) (s\<lparr>s_nodes := h, t_list := tls\<rparr>)"

lemma moved_simps [simp]:
  "t_list (moved t st h tls s) = tls" "s_sems (moved t st h tls s) = s_sems s"
  "s_procs (moved t st h tls s) = s_procs s" "thread_c (moved t st h tls s) = thread_c s"
  "thread_post_c (moved t st h tls s) = thread_post_c s" "thread_post_flag (moved t st h tls s) = thread_post_flag s"
  "nsec_last (moved t st h tls s) = nsec_last s" "irq_c (moved t st h tls s) = irq_c s"
  "init_done (moved t st h tls s) = init_done s" "cpu (moved t st h tls s) = cpu s"
  "cr3 (moved t st h tls s) = cr3 s" "clock (moved t st h tls s) = clock s"
  "clock_nolatch (moved t st h tls s) = clock_nolatch s" "s_nodes (moved t st h tls s) = h"
  "s_threads (moved t st h tls s) = (s_threads s)(t := (s_threads s t)\<lparr>th_state := st\<rparr>)"
  by (simp_all add: moved_def set_thread_def)

lemma fam_moved: "fam (moved t st h tls s) = fam (s\<lparr>s_nodes := h, t_list := tls\<rparr>)"
  by (simp add: moved_def)

definition a_move :: "nat \<Rightarrow> nat \<Rightarrow> ptr \<Rightarrow> (nat \<Rightarrow> ptr list) \<Rightarrow> nat \<Rightarrow> ptr list" where
  "a_move i j t xss = (if i = j then xss else xss(i := remove1 t (xss i), j := xss j @ [t]))"

lemma same_state: "th_state x = v \<Longrightarrow> x\<lparr>th_state := v\<rparr> = x"
  by (cases x) simp

lemma list_state_16: "i < 16 \<Longrightarrow> list_state i = of_nat i"
  by (simp add: list_state_def)

lemma states_okD: "states_ok s sids xss \<Longrightarrow> i < 16 + length sids \<Longrightarrow> t \<in> set (xss i) \<Longrightarrow>
    th_state (s_threads s t) = list_state i"
  by (simp add: states_ok_def)

lemma a_move_states:
  assumes f: "fam s sids xss" and st: "states_ok s sids xss" and ij: "i < 16 + length sids" "j < 16 + length sids" "i \<noteq> j"
    and t: "t \<in> set (xss i)"
    and s': "s_threads s' = (s_threads s)(t := (s_threads s t)\<lparr>th_state := list_state j\<rparr>)"
  shows "states_ok s' sids (xss(i := remove1 t (xss i), j := xss j @ [t]))"
  unfolding states_ok_def
proof (intro allI impI ballI)
  fix k x assume k: "k < 16 + length sids" and x: "x \<in> set ((xss(i := remove1 t (xss i), j := xss j @ [t])) k)"
  show "th_state (s_threads s' x) = list_state k"
  proof (cases "x = t")
    case True
    have "k = j"
    proof (rule ccontr)
      assume "k \<noteq> j"
      with x True ij fam_distinct [OF f ij(1)] have "k \<noteq> i" "t \<in> set (xss k)" by (auto split: if_splits)
      then show False using fam_disjoint [OF f k ij(1) _ t] by simp
    qed
    then show ?thesis using True s' by simp
  next
    case False
    then have "x \<in> set (xss k)" using x ij by (auto split: if_splits dest: notin_set_remove1)
    then show ?thesis using states_okD [OF st k] False s' by simp
  qed
qed

lemma move_to_spec:
  assumes b: "base s sids xss" and ij: "i < 16" "j < 16" and t: "t \<in> set (xss i)"
    and c: "i = 3 \<Longrightarrow> l_current (t_list s 3) \<in> {t, NULL}"
  shows "\<exists>h tls. move_to t (of_nat j) s = Some (moved t (of_nat j) h tls s) \<and>
    base (moved t (of_nat j) h tls s) sids (a_move i j t xss)"
proof -
  have f: "fam s sids xss" and so: "states_ok s sids xss" and co: "cache_ok (t_list s 3) (xss 3)"
    using b by (simp_all add: base_def)
  have st: "th_state (s_threads s t) = of_nat i"
    using states_okD [OF so _ t] ij list_state_16 by simp
  have t0: "t \<noteq> NULL" using fam_distinct [OF f, of i] t ij by auto
  show ?thesis
  proof (cases "i = j")
    case True
    have "moved t (of_nat j) (s_nodes s) (t_list s) s = s" using st True by (simp add: moved_def set_thread_def same_state)
    moreover have "move_to t (of_nat j) s = Some s" using st True t0 state_conv(1) [OF ij(1)] by (simp add: move_to_def)
    ultimately show ?thesis using True b by (intro exI [of _ "s_nodes s"] exI [of _ "t_list s"]) (simp add: a_move_def)
  next
    case False
    from move_to_list [OF f ij False t st] obtain h tls where
      1: "move_to t (of_nat j) s = Some (moved t (of_nat j) h tls s)"
        "fam (s\<lparr>s_nodes := h, t_list := tls\<rparr>) sids (xss(i := remove1 t (xss i), j := xss j @ [t]))"
        "caches i t (t_list s) tls" unfolding moved_def by blast
    have "states_ok (moved t (of_nat j) h tls s) sids (xss(i := remove1 t (xss i), j := xss j @ [t]))"
      using ij False by (intro a_move_states [OF f so _ _ _ t]) (simp_all add: list_state_16)
    moreover have "cache_ok (tls 3) ((xss(i := remove1 t (xss i), j := xss j @ [t])) 3)"
      using 1(3) co c by (rule caches_ok [where ys = "if j = 3 then [t] else []"]) (use False in auto)
    ultimately show ?thesis using 1 False
      by (intro exI [of _ h] exI [of _ tls]) (simp add: base_def fam_moved a_move_def)
  qed
qed
text \<open>Into and out of the waiting list of a semaphore.\<close>

lemma base_upd:
  "base s sids xss \<Longrightarrow> fam s' = fam s \<Longrightarrow> t_list s' = t_list s \<Longrightarrow>
    (\<And>t. th_state (s_threads s' t) = th_state (s_threads s t)) \<Longrightarrow> base s' sids xss"
  by (simp add: base_def states_ok_def)

lemma sem_append_fam:
  assumes f: "fam s sids xss" and j: "j < length sids" and t: "t \<notin> members xss (16 + length sids)" "t \<noteq> NULL"
  shows "\<exists>h l. sem_append (sids ! j) t s = Some (set_sem (sids ! j) (\<lambda>x. x\<lparr>sem_waiting := l\<rparr>) (s\<lparr>s_nodes := h\<rparr>)) \<and>
    fam (set_sem (sids ! j) (\<lambda>x. x\<lparr>sem_waiting := l\<rparr>) (s\<lparr>s_nodes := h\<rparr>)) sids (xss(16 + j := xss (16 + j) @ [t]))"
proof -
  have j': "16 + j < 16 + length sids" using j by simp
  have fa: "family list_rep (s_nodes s) (all_lists s sids) xss (16 + length sids)"
    and d: "distinct sids" using f by (simp_all add: fam_def)
  have al: "all_lists s sids (16 + j) = sem_waiting (s_sems s (sids ! j))" using j by (simp add: all_lists_def)
  from kl.family_app [OF fa j' t] obtain h l where
    1: "list_append (s_nodes s) (sem_waiting (s_sems s (sids ! j))) t = Some (h, l)"
      "family list_rep h ((all_lists s sids)(16 + j := l)) (xss(16 + j := xss (16 + j) @ [t])) (16 + length sids)"
    unfolding al by blast
  show ?thesis
    using 1 d by (intro exI [of _ h] exI [of _ l])
      (simp add: sem_append_def fam_def all_lists_sem [OF d j refl], simp add: set_sem_def)
qed

lemma sem_pop_fam:
  assumes f: "fam s sids xss" and j: "j < length sids" and ne: "xss (16 + j) = t # ts"
  shows "\<exists>l. sem_pop_start (sids ! j) s = Some (t, set_sem (sids ! j) (\<lambda>x. x\<lparr>sem_waiting := l\<rparr>) s) \<and>
    fam (set_sem (sids ! j) (\<lambda>x. x\<lparr>sem_waiting := l\<rparr>) s) sids (xss(16 + j := ts))"
proof -
  have j': "16 + j < 16 + length sids" using j by simp
  have fa: "family list_rep (s_nodes s) (all_lists s sids) xss (16 + length sids)"
    and d: "distinct sids" using f by (simp_all add: fam_def)
  have al: "all_lists s sids (16 + j) = sem_waiting (s_sems s (sids ! j))" using j by (simp add: all_lists_def)
  from kl.family_popf [OF fa j'] ne obtain l where
    1: "list_pop_start (s_nodes s) (sem_waiting (s_sems s (sids ! j))) = Some (t, l)"
      "family list_rep (s_nodes s) ((all_lists s sids)(16 + j := l)) (xss(16 + j := ts)) (16 + length sids)"
    unfolding al by auto
  have "all_lists (set_sem (sids ! j) (\<lambda>x. x\<lparr>sem_waiting := l\<rparr>) s) sids = (all_lists s sids)(16 + j := l)"
    using all_lists_sem [OF d j refl, where s = s and h = "s_nodes s" and l = l] by simp
  then show ?thesis
    using 1 d by (intro exI [of _ l]) (simp add: sem_pop_start_def fam_def, simp add: set_sem_def)
qed

lemma sem_head_free:
  assumes f: "fam s sids xss" and i: "i < 16 + length sids" and ne: "xss i = t # ts"
  shows "t \<notin> members (xss(i := ts)) (16 + length sids)" "t \<noteq> NULL"
proof -
  have "t \<in> set (xss i)" using ne by simp
  from removed_notin [OF f i this] ne show "t \<notin> members (xss(i := ts)) (16 + length sids)" by simp
  show "t \<noteq> NULL" using fam_distinct [OF f i] ne by auto
qed

lemma sem_pop_spec:
  assumes b: "base s sids xss" and j: "j < length sids" and ne: "xss (16 + j) = t # ts"
  shows "\<exists>l. sem_pop_start (sids ! j) s = Some (t, set_sem (sids ! j) (\<lambda>x. x\<lparr>sem_waiting := l\<rparr>) s) \<and>
    base (set_sem (sids ! j) (\<lambda>x. x\<lparr>sem_waiting := l\<rparr>) s) sids (xss(16 + j := ts))"
proof -
  have f: "fam s sids xss" using b by (simp add: base_def)
  from sem_pop_fam [where xss = xss, OF f j ne] obtain l where
    l: "sem_pop_start (sids ! j) s = Some (t, set_sem (sids ! j) (\<lambda>x. x\<lparr>sem_waiting := l\<rparr>) s)"
      "fam (set_sem (sids ! j) (\<lambda>x. x\<lparr>sem_waiting := l\<rparr>) s) sids (xss(16 + j := ts))"
    by blast
  have "states_ok (set_sem (sids ! j) (\<lambda>x. x\<lparr>sem_waiting := l\<rparr>) s) sids (xss(16 + j := ts))"
    unfolding states_ok_def
  proof (intro allI impI ballI)
    fix k x assume k: "k < 16 + length sids" "x \<in> set ((xss(16 + j := ts)) k)"
    then have "x \<in> set (xss k)" using ne by (auto split: if_splits)
    then show "th_state (s_threads (set_sem (sids ! j) (\<lambda>x. x\<lparr>sem_waiting := l\<rparr>) s) x) = list_state k"
      using b k by (simp add: base_def states_ok_def set_sem_def)
  qed
  with l b show ?thesis by (intro exI [of _ l]) (simp add: base_def, simp add: set_sem_def)
qed

lemma add_states:
  assumes st: "states_ok s sids xss" and j: "j < 16 + length sids" and t: "t \<notin> members xss (16 + length sids)"
    and s': "\<And>x. x \<noteq> t \<Longrightarrow> th_state (s_threads s' x) = th_state (s_threads s x)" "th_state (s_threads s' t) = list_state j"
  shows "states_ok s' sids (xss(j := xss j @ [t]))"
  unfolding states_ok_def
proof (intro allI impI ballI)
  fix k x assume k: "k < 16 + length sids" "x \<in> set ((xss(j := xss j @ [t])) k)"
  show "th_state (s_threads s' x) = list_state k"
  proof (cases "x \<in> set (xss k)")
    case True
    then have "x \<noteq> t" using t k(1) by (auto simp: members_def)
    then show ?thesis using states_okD [OF st k(1) True] s' by simp
  next
    case False
    then show ?thesis using k s' by (auto split: if_splits)
  qed
qed

lemma wake_up_spec:
  assumes b: "base s sids xss" and j: "j < 16" and t: "t \<notin> members xss (16 + length sids)" "t \<noteq> NULL"
    and st: "th_state (s_threads s t) = 128"
  shows "\<exists>h tls. move_to t (of_nat j) s = Some (moved t (of_nat j) h tls s) \<and>
    base (moved t (of_nat j) h tls s) sids (xss(j := xss j @ [t]))"
proof -
  let ?s = "set_thread t (\<lambda>x. x\<lparr>th_state := of_nat j\<rparr>) s"
  have f: "fam ?s sids xss" using b by (simp add: base_def)
  from tl_append_fam [OF f j t] obtain h tls where
    1: "tl_append j t ?s = Some (?s\<lparr>s_nodes := h, t_list := tls\<rparr>)"
      "fam (?s\<lparr>s_nodes := h, t_list := tls\<rparr>) sids (xss(j := xss j @ [t]))" "caches 16 t (t_list ?s) tls" by blast
  have eq: "?s\<lparr>s_nodes := h, t_list := tls\<rparr> = moved t (of_nat j) h tls s" by (simp add: moved_def set_thread_def)
  have co: "cache_ok (t_list s 3) (xss 3)" using b by (simp add: base_def)
  have c3: "caches 16 t (t_list s) tls" using 1(3) by (simp add: set_thread_def)
  have u: "(ucast (th_state (s_threads s t)) :: usize) = T_SEMAPHORE_WAIT"
    using st by (simp add: T_SEMAPHORE_WAIT_def)
  have "move_to t (of_nat j) s = tl_append j t ?s"
    using t(2) state_conv(3) [OF j] unfolding move_to_def u small_state(2) [OF j] state_conv(2) [OF j]
    by (simp del: unat_inj)
  then have "move_to t (of_nat j) s = Some (moved t (of_nat j) h tls s)" using 1(1) eq by simp
  moreover have "states_ok (moved t (of_nat j) h tls s) sids (xss(j := xss j @ [t]))"
    using b j t(1) by (intro add_states [of s]) (simp_all add: base_def list_state_16)
  moreover have "cache_ok (tls 3) ((xss(j := xss j @ [t])) 3)"
    by (rule caches_ok [OF c3 co, where ys = "if j = 3 then [t] else []"]) simp_all
  ultimately show ?thesis using 1(2) eq by (intro exI [of _ h] exI [of _ tls]) (simp add: base_def)
qed

lemma sem_wait_spec:
  assumes b: "base s sids xss" and i: "i < 16" "i \<noteq> 3" and j: "j < length sids" and t: "t \<in> set (xss i)"
  shows "\<exists>h tls l. bind (move_to t T_SEMAPHORE_WAIT s) (sem_append (sids ! j) t) =
      Some (set_sem (sids ! j) (\<lambda>x. x\<lparr>sem_waiting := l\<rparr>) (moved t 128 h tls s)) \<and>
    base (set_sem (sids ! j) (\<lambda>x. x\<lparr>sem_waiting := l\<rparr>) (moved t 128 h tls s)) sids
      (xss(i := remove1 t (xss i), 16 + j := xss (16 + j) @ [t]))"
proof -
  have i': "i < 16 + length sids" "16 + j < 16 + length sids" "i \<noteq> 16 + j" using i j by simp_all
  have f: "fam s sids xss" and so: "states_ok s sids xss" and co: "cache_ok (t_list s 3) (xss 3)"
    using b by (simp_all add: base_def)
  have t0: "t \<noteq> NULL" using fam_distinct [OF f i'(1)] t by auto
  have st: "th_state (s_threads s t) = of_nat i" using states_okD [OF so i'(1) t] i list_state_16 by simp
  from tl_remove_p_fam [OF f i(1) t] obtain h tls where
    1: "tl_remove_p i t s = Some (s\<lparr>s_nodes := h, t_list := tls\<rparr>)"
      "fam (s\<lparr>s_nodes := h, t_list := tls\<rparr>) sids (xss(i := remove1 t (xss i)))" "caches i t (t_list s) tls" by blast
  have u: "(ucast T_SEMAPHORE_WAIT :: u8) = 128" by (simp add: T_SEMAPHORE_WAIT_def)
  have mv: "move_to t T_SEMAPHORE_WAIT s = Some (moved t 128 h tls s)"
    using t0 state_conv(3) [OF i(1)] 1(1)
    unfolding move_to_def st state_conv(1) [OF i(1)] small_state(1) [OF i(1)] u moved_def by simp
  have "fam (moved t 128 h tls s) sids (xss(i := remove1 t (xss i)))" using 1(2) by (simp add: fam_moved)
  from sem_append_fam [OF this j removed_notin [OF f i'(1) t] t0] obtain h2 l where
    2: "sem_append (sids ! j) t (moved t 128 h tls s) =
        Some (set_sem (sids ! j) (\<lambda>x. x\<lparr>sem_waiting := l\<rparr>) ((moved t 128 h tls s)\<lparr>s_nodes := h2\<rparr>))"
      "fam (set_sem (sids ! j) (\<lambda>x. x\<lparr>sem_waiting := l\<rparr>) ((moved t 128 h tls s)\<lparr>s_nodes := h2\<rparr>)) sids
        (xss(i := remove1 t (xss i), 16 + j := xss (16 + j) @ [t]))" using i'(3) by auto
  have eq: "(moved t 128 h tls s)\<lparr>s_nodes := h2\<rparr> = moved t 128 h2 tls s" by (simp add: moved_def set_thread_def)
  have "states_ok (set_sem (sids ! j) (\<lambda>x. x\<lparr>sem_waiting := l\<rparr>) (moved t 128 h2 tls s)) sids
        (xss(i := remove1 t (xss i), 16 + j := xss (16 + j) @ [t]))"
    by (rule a_move_states [OF f so i' t]) (simp add: set_sem_def list_state_def)
  moreover have "cache_ok (tls 3) ((xss(i := remove1 t (xss i), 16 + j := xss (16 + j) @ [t])) 3)"
    by (rule caches_ok [OF 1(3) co, where ys = "[]"]) (use i(2) in simp_all)
  ultimately show ?thesis using mv 2 eq i(2)
    by (intro exI [of _ h2] exI [of _ tls] exI [of _ l]) (simp add: base_def, simp add: set_sem_def)
qed
section \<open>Scheduling\<close>

text \<open>What no scheduling decision changes.\<close>

definition frame :: "sched \<Rightarrow> sched \<Rightarrow> bool" where
  "frame s s' \<longleftrightarrow> s_sems s' = s_sems s \<and> s_procs s' = s_procs s \<and> irq_c s' = irq_c s \<and>
     thread_post_c s' = thread_post_c s \<and> thread_post_flag s' = thread_post_flag s \<and>
     init_done s' = init_done s \<and> clock s' = clock s \<and> clock_nolatch s' = clock_nolatch s \<and> cpu s' = cpu s \<and>
     (\<forall>t. th_proc (s_threads s' t) = th_proc (s_threads s t) \<and>
        th_sleep_time (s_threads s' t) = th_sleep_time (s_threads s t) \<and>
        th_regs (s_threads s' t) = th_regs (s_threads s t))"

text \<open>The running thread, in the list of running threads unless it has just blocked, and its address space.\<close>

definition current_ok :: "sched \<Rightarrow> (nat \<Rightarrow> ptr list) \<Rightarrow> bool" where
  "current_ok s xss \<longleftrightarrow>
     xss T_RUNNING = (if th_state (s_threads s (thread_c s)) = 0 then [thread_c s] else []) \<and>
     cr3 s = pv_cr3 (s_procs s (th_proc (s_threads s (thread_c s))))"

text \<open>The round-robin step on the lists: the first ready thread runs, the running one queues up.\<close>

definition a_switch :: "(nat \<Rightarrow> ptr list) \<Rightarrow> nat \<Rightarrow> ptr list" where
  "a_switch xss = (if xss T_READY = [] then xss
     else xss(T_RUNNING := [hd (xss T_READY)], T_READY := tl (xss T_READY) @ xss T_RUNNING))"

definition a_next :: "ptr \<Rightarrow> (nat \<Rightarrow> ptr list) \<Rightarrow> ptr" where
  "a_next c xss = (if xss T_READY = [] then c else hd (xss T_READY))"

lemma ready_1: "(1 :: usize) = of_nat 1" by simp

lemma requeue_spec:
  assumes b: "base s sids xss" and c: "xss 0 = (if th_state (s_threads s (thread_c s)) = 0 then [thread_c s] else [])"
  shows "\<exists>s'. (if th_state (s_threads s (thread_c s)) = 0 then move_to (thread_c s) 1 s else Some s) = Some s' \<and>
    base s' sids (xss(0 := [], 1 := xss 1 @ xss 0)) \<and> frame s s' \<and> thread_c s' = thread_c s \<and>
    nsec_last s' = nsec_last s \<and> cr3 s' = cr3 s \<and> (\<forall>t. th_time (s_threads s' t) = th_time (s_threads s t))"
proof (cases "th_state (s_threads s (thread_c s)) = 0")
  case True
  with c have x0: "xss 0 = [thread_c s]" by simp
  from move_to_spec [OF b, of 0 1 "thread_c s"] x0 obtain h tls where
    "move_to (thread_c s) 1 s = Some (moved (thread_c s) 1 h tls s)"
    "base (moved (thread_c s) 1 h tls s) sids (xss(0 := [], 1 := xss 1 @ [thread_c s]))"
    by (auto simp: a_move_def)
  with True x0 show ?thesis by (simp add: frame_def)
next
  case False
  then have "xss(0 := [], 1 := xss 1 @ xss 0) = xss" using c by (simp add: fun_eq_iff)
  with False b show ?thesis by (simp add: frame_def)
qed

lemma pop_ready_spec:
  assumes b: "base s sids xss" and ne: "xss 1 = t # ts"
  shows "\<exists>tls. tl_pop_start T_READY s = Some (t, s\<lparr>t_list := tls\<rparr>) \<and>
    base (s\<lparr>t_list := tls\<rparr>) sids (xss(1 := ts))"
proof -
  have f: "fam s sids xss" using b by (simp add: base_def)
  from tl_pop_start_fam [where xss = xss, OF f _ ne] obtain tls where
    1: "tl_pop_start T_READY s = Some (t, s\<lparr>t_list := tls\<rparr>)" "fam (s\<lparr>t_list := tls\<rparr>) sids (xss(1 := ts))"
      "caches 1 t (t_list s) tls" by auto
  have "states_ok (s\<lparr>t_list := tls\<rparr>) sids (xss(1 := ts))"
    using b ne by (auto simp: base_def states_ok_def)
  moreover have "cache_ok (tls 3) (xss 3)"
    using b caches_ok [OF 1(3), of "xss 3" "xss 3" "[]"] by (simp add: base_def)
  ultimately show ?thesis using 1 by (intro exI [of _ tls]) (simp add: base_def)
qed

lemma append_running_spec:
  assumes b: "base s sids xss" and t: "t \<notin> members xss (16 + length sids)" "t \<noteq> NULL"
  shows "\<exists>h tls. tl_append T_RUNNING t s = Some (s\<lparr>s_nodes := h, t_list := tls\<rparr>) \<and>
    base (moved t 0 h tls s) sids (xss(0 := xss 0 @ [t]))"
proof -
  have f: "fam s sids xss" using b by (simp add: base_def)
  from tl_append_fam [OF f _ t, of 0] obtain h tls where
    1: "tl_append 0 t s = Some (s\<lparr>s_nodes := h, t_list := tls\<rparr>)"
      "fam (s\<lparr>s_nodes := h, t_list := tls\<rparr>) sids (xss(0 := xss 0 @ [t]))" "caches 16 t (t_list s) tls" by auto
  have "states_ok (moved t 0 h tls s) sids (xss(0 := xss 0 @ [t]))"
    using b t(1) by (intro add_states [of s]) (simp_all add: base_def list_state_16)
  moreover have "cache_ok (tls 3) (xss 3)"
    using b caches_ok [OF 1(3), of "xss 3" "xss 3" "[]"] by (simp add: base_def)
  ultimately show ?thesis using 1 by (intro exI [of _ h] exI [of _ tls]) (simp add: base_def fam_moved)
qed

lemma schedule_spec:
  assumes b: "base s sids xss" and c: "current_ok s xss" and p: "thread_post_c s = 0" and ne: "xss T_READY \<noteq> []"
  shows "\<exists>s'. schedule s = Some (Some (th_regs (s_threads s (hd (xss T_READY)))), s') \<and>
    base s' sids (a_switch xss) \<and> current_ok s' (a_switch xss) \<and> thread_c s' = hd (xss T_READY) \<and>
    frame s s' \<and> nsec_last s' = clock s \<and>
    (\<forall>t. th_time (s_threads s' t) = th_time (s_threads s t) + (if t = thread_c s then clock s - nsec_last s else 0))"
proof -
  obtain t ts where x1: "xss 1 = t # ts" using ne by (cases "xss 1") auto
  have l1: "l_len (t_list s T_READY) \<noteq> 0" using fam_len_0 [of s sids xss 1] b ne by (simp add: base_def)
  let ?s1 = "update_time s"
  have u: "thread_c ?s1 = thread_c s" "frame s ?s1" "nsec_last ?s1 = clock s" "cr3 ?s1 = cr3 s"
    "\<And>t. th_state (s_threads ?s1 t) = th_state (s_threads s t)"
    "\<And>t. th_time (s_threads ?s1 t) = th_time (s_threads s t) + (if t = thread_c s then clock s - nsec_last s else 0)"
    by (simp_all add: update_time_def set_thread_def frame_def Let_def)
  have b1: "base ?s1 sids xss"
    using b by (rule base_upd) (simp_all add: update_time_def Let_def, simp_all add: set_thread_def)
  have c1: "xss 0 = (if th_state (s_threads ?s1 (thread_c ?s1)) = 0 then [thread_c ?s1] else [])"
    using c by (simp add: current_ok_def u)
  from requeue_spec [OF b1 c1] obtain s2 where
    2: "(if th_state (s_threads ?s1 (thread_c ?s1)) = 0 then move_to (thread_c ?s1) 1 ?s1 else Some ?s1) = Some s2"
      "base s2 sids (xss(0 := [], 1 := xss 1 @ xss 0))" "frame ?s1 s2" "thread_c s2 = thread_c s"
      "nsec_last s2 = clock s" "cr3 s2 = cr3 s" "\<And>t. th_time (s_threads s2 t) = th_time (s_threads ?s1 t)"
    using u by auto
  let ?x2 = "xss(0 := [], 1 := xss 1 @ xss 0)"
  have x2: "?x2 1 = t # (ts @ xss 0)" using x1 by simp
  from pop_ready_spec [OF 2(2) x2] obtain tls where
    3: "tl_pop_start T_READY s2 = Some (t, s2\<lparr>t_list := tls\<rparr>)"
      "base (s2\<lparr>t_list := tls\<rparr>) sids (?x2(1 := ts @ xss 0))" by blast
  let ?s4 = "s2\<lparr>t_list := tls, thread_c := t\<rparr>"
  have b4: "base ?s4 sids (?x2(1 := ts @ xss 0))"
    using 3(2) by (rule base_upd) simp_all
  have "fam s2 sids ?x2" using 2(2) by (simp add: base_def)
  from sem_head_free [OF this, of 1, OF _ x2]
  have t: "t \<notin> members (?x2(1 := ts @ xss 0)) (16 + length sids)" "t \<noteq> NULL" by simp_all
  from append_running_spec [OF b4 t] obtain h tls' where
    5: "tl_append T_RUNNING t ?s4 = Some (?s4\<lparr>s_nodes := h, t_list := tls'\<rparr>)"
      "base (moved t 0 h tls' ?s4) sids (?x2(1 := ts @ xss 0, 0 := [t]))" by auto
  have x': "?x2(1 := ts @ xss 0, 0 := [t]) = a_switch xss"
    using x1 by (auto simp: a_switch_def)
  let ?s5 = "moved t 0 h tls' ?s4"
  let ?p = "th_proc (s_threads s t)"
  let ?s6 = "if ?p \<noteq> th_proc (s_threads s (thread_c s)) then ?s5\<lparr>cr3 := pv_cr3 (s_procs s ?p)\<rparr> else ?s5"
  have fr: "frame s ?s5" using u(2) 2(3) by (simp add: frame_def)
  have e5: "set_thread t (th_state_update (\<lambda>_. 0)) (s2\<lparr>thread_c := t, s_nodes := h, t_list := tls'\<rparr>) = ?s5"
    by (simp add: moved_def)
  have pr: "th_proc (s_threads ?s1 x) = th_proc (s_threads s x)" "th_proc (s_threads ?s5 x) = th_proc (s_threads s x)"
    "s_procs ?s5 = s_procs s" "th_regs (s_threads ?s6 x) = th_regs (s_threads s x)" for x
    using u(2) fr by (simp_all add: frame_def)
  have q: "th_proc (s_threads s2 t) = ?p" "th_regs (s_threads s2 t) = th_regs (s_threads s t)"
    using u(2) 2(3) by (simp_all add: frame_def)
  have "schedule s = Some (Some (th_regs (s_threads s t)), ?s6)"
    using p l1 2(1) 3(1) 5(1) pr u(1) q
    unfolding schedule_def Let_def by (simp add: e5)
  moreover have "base ?s6 sids (a_switch xss)"
    using 5(2) x' base_upd [of ?s5 sids "a_switch xss" "?s5\<lparr>cr3 := pv_cr3 (s_procs s ?p)\<rparr>"] by simp
  moreover have "current_ok ?s6 (a_switch xss)"
    using c pr x1 2(6) q by (simp add: current_ok_def a_switch_def)
  moreover have "frame s ?s6" using fr by (simp add: frame_def)
  ultimately show ?thesis using x1 2(5,7) u(6)
    by (intro exI [of _ ?s6]) simp
qed

section \<open>The operations that may switch\<close>

text \<open>The interrupt counter and flag are independent of the lists.\<close>

definition kernel :: "sched \<Rightarrow> bool" where "kernel s \<longleftrightarrow> r_cs (cpu s) AND 3 = 0"

definition frame2 :: "sched \<Rightarrow> sched \<Rightarrow> bool" where
  "frame2 s s' \<longleftrightarrow> s_procs s' = s_procs s \<and> thread_post_c s' = thread_post_c s \<and>
     init_done s' = init_done s \<and> clock s' = clock s \<and> clock_nolatch s' = clock_nolatch s \<and>
     (\<forall>t. th_proc (s_threads s' t) = th_proc (s_threads s t) \<and>
        th_sleep_time (s_threads s' t) = th_sleep_time (s_threads s t))"

lemma frame2_refl [simp]: "frame2 s s" by (simp add: frame2_def)

lemma frame2_trans: "frame2 s s' \<Longrightarrow> frame2 s' s'' \<Longrightarrow> frame2 s s''" by (simp add: frame2_def)

lemma frame_frame2: "frame s s' \<Longrightarrow> frame2 s s'" by (simp add: frame_def frame2_def)

lemma frame2_moved [simp]: "frame2 s (moved t st h tls s)" by (simp add: frame2_def)

lemma irq_simps [simp]:
  "s_nodes (lock s) = s_nodes s" "t_list (lock s) = t_list s" "s_threads (lock s) = s_threads s"
  "s_sems (lock s) = s_sems s" "s_procs (lock s) = s_procs s" "thread_c (lock s) = thread_c s"
  "thread_post_c (lock s) = thread_post_c s" "thread_post_flag (lock s) = thread_post_flag s"
  "nsec_last (lock s) = nsec_last s" "init_done (lock s) = init_done s" "cr3 (lock s) = cr3 s"
  "clock (lock s) = clock s" "clock_nolatch (lock s) = clock_nolatch s"
  "irq_c (lock s) = irq_c s + 1" "r_cs (cpu (lock s)) = r_cs (cpu s)"
  "s_nodes (unlock s) = s_nodes s" "t_list (unlock s) = t_list s" "s_threads (unlock s) = s_threads s"
  "s_sems (unlock s) = s_sems s" "s_procs (unlock s) = s_procs s" "thread_c (unlock s) = thread_c s"
  "thread_post_c (unlock s) = thread_post_c s" "thread_post_flag (unlock s) = thread_post_flag s"
  "nsec_last (unlock s) = nsec_last s" "init_done (unlock s) = init_done s" "cr3 (unlock s) = cr3 s"
  "clock (unlock s) = clock s" "clock_nolatch (unlock s) = clock_nolatch s"
  "irq_c (unlock s) = max (irq_c s) 1 - 1" "r_cs (cpu (unlock s)) = r_cs (cpu s)"
  by (simp_all add: lock_def unlock_def cli_safe_def sti_safe_def cli_def sti_def Let_def)

lemma base_irq [simp]: "base (lock s) = base s" "base (unlock s) = base s"
proof -
  have "fam (lock s) = fam s" "fam (unlock s) = fam s" by (intro ext fam_cong; simp)+
  then show "base (lock s) = base s" "base (unlock s) = base s"
    by (simp_all add: base_def states_ok_def fun_eq_iff)
qed

lemma other_irq [simp]:
  "current_ok (lock s) = current_ok s" "current_ok (unlock s) = current_ok s"
  "kernel (lock s) = kernel s" "kernel (unlock s) = kernel s"
  "frame2 s (lock s)" "frame2 s (unlock s)" "frame2 (lock s) s' = frame2 s s'" "frame2 s (unlock s') = frame2 s s'"
  by (simp_all add: current_ok_def kernel_def frame2_def fun_eq_iff)

text \<open>The lists between two operations, with no deferred switch.\<close>

definition ready_to_run :: "sched \<Rightarrow> ptr list \<Rightarrow> (nat \<Rightarrow> ptr list) \<Rightarrow> bool" where
  "ready_to_run s sids xss \<longleftrightarrow> base s sids xss \<and> current_ok s xss \<and> thread_post_c s = 0 \<and> \<not> thread_post_flag s"

lemma ready_irq [simp]: "ready_to_run (lock s) = ready_to_run s" "ready_to_run (unlock s) = ready_to_run s"
  by (simp_all add: ready_to_run_def fun_eq_iff)

lemma save_regs:
  assumes "ready_to_run s sids xss"
  shows "ready_to_run (set_thread t (\<lambda>x. x\<lparr>th_regs := r\<rparr>) s) sids xss"
proof -
  have "base (set_thread t (\<lambda>x. x\<lparr>th_regs := r\<rparr>) s) sids xss"
    by (rule base_upd [of s]) (use assms in \<open>simp_all add: ready_to_run_def set_thread_def\<close>)
  then show ?thesis using assms by (simp add: ready_to_run_def current_ok_def set_thread_def)
qed

text \<open>
  The software interrupt: with a ready thread it switches to the first one, loading its registers,
  and saves those of the caller; without one, the caller goes on.
\<close>

lemma int_sched_spec:
  assumes r: "ready_to_run s sids xss" and k: "kernel s"
  shows "\<exists>s'. int_sched s = Some (xss T_READY \<noteq> [], s') \<and> ready_to_run s' sids (a_switch xss) \<and>
    thread_c s' = a_next (thread_c s) xss \<and> frame2 s s' \<and> s_sems s' = s_sems s \<and> irq_c s' = irq_c s \<and>
    th_regs (s_threads s' (thread_c s)) = cpu s \<and> (xss T_READY = [] \<longrightarrow> cpu s' = cpu s) \<and>
    (\<forall>t. t \<noteq> thread_c s \<longrightarrow> th_regs (s_threads s' t) = th_regs (s_threads s t)) \<and>
    (xss T_READY \<noteq> [] \<longrightarrow> cpu s' = th_regs (s_threads s' (thread_c s')))"
proof -
  let ?s = "set_thread (thread_c s) (\<lambda>x. x\<lparr>th_regs := cpu s\<rparr>) s"
  have r0: "ready_to_run ?s sids xss" by (rule save_regs [OF r])
  have i: "int_sched s = bind (schedule ?s) (\<lambda>(out, s). case out of None \<Rightarrow> Some (False, s)
      | Some r \<Rightarrow> Some (True, s\<lparr>cpu := r\<rparr>))"
    using k by (simp add: int_sched_def sched_int_handler_def kernel_def)
  have fr: "frame2 s ?s" "thread_c ?s = thread_c s" "s_sems ?s = s_sems s" "irq_c ?s = irq_c s"
    "\<And>t. th_regs (s_threads ?s t) = (if t = thread_c s then cpu s else th_regs (s_threads s t))"
    by (simp_all add: frame2_def set_thread_def)
  show ?thesis
  proof (cases "xss 1 = []")
    case True
    have "l_len (t_list ?s T_READY) = 0" using fam_len_0 [of ?s sids xss 1] r0 True by (simp add: ready_to_run_def base_def)
    then have "schedule ?s = Some (None, ?s)" using r0 by (simp add: schedule_def ready_to_run_def)
    then have "int_sched s = Some (False, ?s)" by (simp add: i)
    then show ?thesis using True r0 fr by (simp add: a_switch_def a_next_def) (simp add: set_thread_def)
  next
    case False
    with schedule_spec [of ?s sids xss] r0 obtain s' where
      1: "schedule ?s = Some (Some (th_regs (s_threads ?s (hd (xss 1)))), s')" "base s' sids (a_switch xss)"
        "current_ok s' (a_switch xss)" "thread_c s' = hd (xss 1)" "frame ?s s'"
      by (auto simp: ready_to_run_def)
    let ?r = "th_regs (s_threads ?s (hd (xss 1)))"
    have "base (s'\<lparr>cpu := ?r\<rparr>) sids (a_switch xss)" using 1(2) by (rule base_upd) simp_all
    moreover have "thread_post_c s' = 0" "\<not> thread_post_flag s'" using 1(5) r0 by (simp_all add: frame_def ready_to_run_def)
    ultimately have "ready_to_run (s'\<lparr>cpu := ?r\<rparr>) sids (a_switch xss)"
      using 1(3) by (simp add: ready_to_run_def current_ok_def)
    moreover have "frame2 s s'" using frame2_trans [OF fr(1) frame_frame2 [OF 1(5)]] .
    then have "frame2 s (s'\<lparr>cpu := ?r\<rparr>)" by (simp add: frame2_def)
    moreover have "int_sched s = Some (True, s'\<lparr>cpu := ?r\<rparr>)" by (simp add: i 1(1))
    ultimately show ?thesis using 1(4,5) False fr by (auto simp: frame_def a_next_def)
  qed
qed
lemma current_ok_move:
  assumes b: "base s sids xss" and c: "current_ok s xss" and ij: "i < 16" "j < 16" "j \<noteq> 0" and t: "t \<in> set (xss i)"
  shows "current_ok (moved t (of_nat j) h tls s) (a_move i j t xss)"
proof -
  have nz: "(of_nat j :: u8) \<noteq> 0" using small_state(1) [OF ij(2)] ij(3) by (metis unsigned_0)
  have x0: "i = 0 \<Longrightarrow> t = thread_c s" using t c by (auto simp: current_ok_def split: if_splits)
  have st: "t = thread_c s \<Longrightarrow> th_state (s_threads s (thread_c s)) = of_nat i"
    using b ij(1) t states_okD [of s sids xss i t] by (simp add: base_def list_state_16)
  have nzi: "i \<noteq> 0 \<Longrightarrow> (of_nat i :: u8) \<noteq> 0" using small_state(1) [OF ij(1)] by (metis unsigned_0)
  show ?thesis
  proof (cases "t = thread_c s")
    case True
    show ?thesis
    proof (cases "i = 0")
      case i0: True
      with True st c have "xss 0 = [t]" by (simp add: current_ok_def)
      then show ?thesis using True c nz ij(3) i0 by (simp add: current_ok_def a_move_def)
    next
      case False
      with True st nzi c have "xss 0 = []" by (simp add: current_ok_def)
      then show ?thesis using True c nz ij(3) False by (simp add: current_ok_def a_move_def)
    qed
  next
    case False
    with x0 have "i \<noteq> 0" by blast
    then show ?thesis using False c ij(3) by (simp add: current_ok_def a_move_def)
  qed
qed

lemma ready_move:
  assumes r: "ready_to_run s sids xss" and ij: "i < 16" "j < 16" "j \<noteq> 0" and t: "t \<in> set (xss i)"
    and c: "i = 3 \<Longrightarrow> l_current (t_list s 3) \<in> {t, NULL}"
  shows "\<exists>s'. move_to t (of_nat j) s = Some s' \<and> ready_to_run s' sids (a_move i j t xss) \<and>
    thread_c s' = thread_c s \<and> frame2 s s' \<and> s_sems s' = s_sems s \<and> cpu s' = cpu s"
proof -
  have b: "base s sids xss" "current_ok s xss" using r by (simp_all add: ready_to_run_def)
  from move_to_spec [OF b(1) ij(1,2) t c] obtain h tls where
    "move_to t (of_nat j) s = Some (moved t (of_nat j) h tls s)"
    "base (moved t (of_nat j) h tls s) sids (a_move i j t xss)" by blast
  with current_ok_move [OF b ij t] r show ?thesis by (simp add: ready_to_run_def)
qed

text \<open>Blocking moves the thread; a thread that blocks itself gives up the CPU.\<close>

lemma block_spec:
  assumes r: "ready_to_run s sids xss" and k: "kernel s" and ij: "i < 16" "j < 16" "j \<noteq> 0" and t: "t \<in> set (xss i)"
    and c: "i = 3 \<Longrightarrow> l_current (t_list s 3) \<in> {t, NULL}"
  shows "\<exists>s'. block t (of_nat j) s = Some (t = thread_c s \<and> a_move i j t xss T_READY \<noteq> [], s') \<and>
    frame2 s s' \<and> s_sems s' = s_sems s \<and>
    ready_to_run s' sids (if t = thread_c s then a_switch (a_move i j t xss) else a_move i j t xss) \<and>
    thread_c s' = (if t = thread_c s then a_next t (a_move i j t xss) else thread_c s)"
proof -
  have "ready_to_run (lock s) sids xss" using r by simp
  from ready_move [OF this ij t] c obtain m where
    m: "move_to t (of_nat j) (lock s) = Some m" "ready_to_run m sids (a_move i j t xss)" "thread_c m = thread_c s"
      "frame2 s m" "s_sems m = s_sems s" "cpu m = cpu (lock s)" by auto
  have km: "kernel m" using k m(6) by (simp add: kernel_def)
  have u: "(ucast (of_nat j :: u8) :: usize) = of_nat j" by (rule state_conv(1) [OF ij(2)])
  show ?thesis
  proof (cases "t = thread_c s")
    case True
    from int_sched_spec [OF m(2) km] obtain s' where
      s': "int_sched m = Some (a_move i j t xss 1 \<noteq> [], s')" "ready_to_run s' sids (a_switch (a_move i j t xss))"
        "thread_c s' = a_next (thread_c m) (a_move i j t xss)" "frame2 m s'" "s_sems s' = s_sems m" by blast
    have f: "frame2 s s'" using frame2_trans [OF m(4) s'(4)] .
    show ?thesis using True m s' u f by (simp add: block_def finish_def)
  next
    case False
    then show ?thesis using m u by (simp add: block_def finish_def)
  qed
qed

text \<open>
  Waking switches only when the woken thread is the only ready one: then the running thread
  should be the idle one.
\<close>

lemma unblock_after:
  assumes m: "move_to t 1 (lock s) = Some m" "ready_to_run m sids xss" "frame2 s m" "s_sems m = s_sems s" and k: "kernel m"
  shows "\<exists>s'. unblock t s = Some (length (xss T_READY) = 1, s') \<and> frame2 s s' \<and> s_sems s' = s_sems s \<and>
    ready_to_run s' sids (if length (xss T_READY) = 1 then a_switch xss else xss) \<and>
    thread_c s' = (if length (xss T_READY) = 1 then hd (xss T_READY) else thread_c m)"
proof -
  have "unat (l_len (t_list m 1)) = length (xss 1)"
    using fam_len [of m sids xss 1] m(2) by (simp add: ready_to_run_def base_def)
  then have l: "l_len (t_list m 1) = 1 \<longleftrightarrow> length (xss 1) = 1" by (metis unat_1 unat_inj)
  show ?thesis
  proof (cases "length (xss 1) = 1")
    case True
    then have ne: "xss 1 \<noteq> []" by auto
    from int_sched_spec [OF m(2) k] ne obtain s' where
      s': "int_sched m = Some (True, s')" "ready_to_run s' sids (a_switch xss)"
        "thread_c s' = hd (xss 1)" "frame2 m s'" "s_sems s' = s_sems m" by (auto simp: a_next_def)
    have f: "frame2 s s'" using frame2_trans [OF m(3) s'(4)] .
    show ?thesis using m(1,4) s' True l f by (simp add: unblock_def finish_def)
  next
    case False
    then show ?thesis using m l by (simp add: unblock_def finish_def)
  qed
qed

text \<open>Sleeping until a time in the future.\<close>

lemma nsleep_until_spec:
  assumes r: "ready_to_run s sids xss" and k: "kernel s" and t: "t = thread_c s" "xss 0 = [t]"
  shows "\<exists>s'. nsleep_until t time s = Some (clock s < time \<and> xss T_READY \<noteq> [], s') \<and> s_sems s' = s_sems s \<and>
    ready_to_run s' sids (if clock s < time then a_switch (a_move 0 3 t xss) else xss) \<and>
    thread_c s' = (if clock s < time then a_next t xss else t) \<and>
    (\<forall>x. th_sleep_time (s_threads s' x) = (if clock s < time \<and> x = t then time else th_sleep_time (s_threads s x)))"
proof (cases "clock s < time")
  case False
  then have "time \<le> clock s" by simp
  with False show ?thesis using r t by (simp add: nsleep_until_def)
next
  case True
  let ?s = "set_thread t (\<lambda>x. x\<lparr>th_sleep_time := time\<rparr>) s"
  have "base ?s sids xss" by (rule base_upd [of s]) (use r in \<open>simp_all add: ready_to_run_def set_thread_def\<close>)
  then have r': "ready_to_run ?s sids xss" using r by (simp add: ready_to_run_def current_ok_def set_thread_def)
  have k': "kernel ?s" using k by (simp add: kernel_def set_thread_def)
  have c: "thread_c ?s = t" "s_sems ?s = s_sems s" using t by (simp_all add: set_thread_def)
  have x1: "a_move 0 3 t xss 1 = xss 1" by (simp add: a_move_def)
  from block_spec [OF r' k', of 0 3 t] t c x1 obtain s' where
    "block t 3 ?s = Some (xss 1 \<noteq> [], s')" "frame2 ?s s'" "s_sems s' = s_sems s"
    "ready_to_run s' sids (a_switch (a_move 0 3 t xss))" "thread_c s' = a_next t xss" by (auto simp: a_next_def)
  moreover have "\<not> time \<le> clock s" using True by simp
  ultimately show ?thesis using True by (simp add: nsleep_until_def frame2_def set_thread_def)
qed

declare One_nat_def [simp del]

lemma set_thread_simps [simp]:
  "t_list (set_thread t f s) = t_list s" "s_sems (set_thread t f s) = s_sems s" "s_nodes (set_thread t f s) = s_nodes s"
  "s_procs (set_thread t f s) = s_procs s" "thread_c (set_thread t f s) = thread_c s"
  "thread_post_c (set_thread t f s) = thread_post_c s" "thread_post_flag (set_thread t f s) = thread_post_flag s"
  "nsec_last (set_thread t f s) = nsec_last s" "irq_c (set_thread t f s) = irq_c s"
  "init_done (set_thread t f s) = init_done s" "cpu (set_thread t f s) = cpu s"
  "cr3 (set_thread t f s) = cr3 s" "clock (set_thread t f s) = clock s"
  "clock_nolatch (set_thread t f s) = clock_nolatch s"
  "s_threads (set_thread t f s) = (s_threads s)(t := f (s_threads s t))"
  by (simp_all add: set_thread_def)

section \<open>The timer\<close>

text \<open>While \<^verbatim>\<open>lock_all\<close> is held, a wake-up only records that a switch is due.\<close>

lemma unblock_deferred:
  assumes b: "base s sids xss" and c: "current_ok s xss" and p: "thread_post_c s \<noteq> 0" and k: "kernel s"
    and t: "t \<in> set (xss 3)" "l_current (t_list s 3) \<in> {t, NULL}"
  shows "\<exists>s'. unblock t s = Some (False, s') \<and> base s' sids (a_move 3 1 t xss) \<and> current_ok s' (a_move 3 1 t xss) \<and>
    kernel s' \<and> thread_c s' = thread_c s \<and> frame2 s s' \<and> s_sems s' = s_sems s \<and> nsec_last s' = nsec_last s \<and>
    thread_post_flag s' = (thread_post_flag s \<or> xss 1 = []) \<and>
    (xss 1 \<noteq> [] \<longrightarrow> (\<forall>x. th_regs (s_threads s' x) = th_regs (s_threads s x))) \<and>
    (\<forall>x. x \<noteq> thread_c s \<longrightarrow> th_regs (s_threads s' x) = th_regs (s_threads s x))"
proof -
  have b': "base (lock s) sids xss" using b by simp
  from move_to_spec [OF b', of 3 1 t] t obtain h tls where
    m: "move_to t 1 (lock s) = Some (moved t 1 h tls (lock s))" "base (moved t 1 h tls (lock s)) sids (a_move 3 1 t xss)"
    by auto
  let ?m = "moved t 1 h tls (lock s)"
  have cm: "current_ok ?m (a_move 3 1 t xss)"
    using current_ok_move [OF b', of 3 1 t h tls] c t(1) by simp
  have f: "frame2 s ?m" by (simp add: frame2_def)
  have x1: "a_move 3 1 t xss 1 = xss 1 @ [t]" by (simp add: a_move_def)
  have "unat (l_len (tls 1)) = Suc (length (xss 1))"
    using fam_len [of ?m sids "a_move 3 1 t xss" 1] m(2) by (simp add: base_def x1 del: One_nat_def)
  then have l: "l_len (tls 1) = 1 \<longleftrightarrow> xss 1 = []" by (metis length_0_conv nat.inject One_nat_def unat_1 unat_inj)
  let ?r = "set_thread (thread_c s) (\<lambda>x. x\<lparr>th_regs := cpu ?m\<rparr>) ?m"
  have km: "kernel ?m" using k by (simp add: kernel_def)
  have i: "int_sched ?m = Some (False, ?r\<lparr>thread_post_flag := True\<rparr>)"
    using km p by (simp add: int_sched_def sched_int_handler_def kernel_def schedule_def)
  have br: "base (?r\<lparr>thread_post_flag := True\<rparr>) sids (a_move 3 1 t xss)"
    by (rule base_upd [OF m(2)]) simp_all
  have cr: "current_ok (?r\<lparr>thread_post_flag := True\<rparr>) (a_move 3 1 t xss)"
    using cm by (simp add: current_ok_def set_thread_def)
  show ?thesis
  proof (cases "xss 1 = []")
    case True
    then have "unblock t s = Some (False, unlock (?r\<lparr>thread_post_flag := True\<rparr>))"
      using m(1) l i by (simp add: unblock_def finish_def)
    moreover have "frame2 s (?r\<lparr>thread_post_flag := True\<rparr>)" by (simp add: frame2_def set_thread_def)
    moreover have "kernel (?r\<lparr>thread_post_flag := True\<rparr>)" using km by (simp add: kernel_def set_thread_def)
    ultimately show ?thesis using True br cr
      by (intro exI [of _ "unlock (?r\<lparr>thread_post_flag := True\<rparr>)"]) (simp add: set_thread_def)
  next
    case False
    then show ?thesis using m l cm km f by (simp add: unblock_def finish_def)
  qed
qed

lemma tl_at_spec:
  assumes b: "base s sids xss" and i: "i < length (xss 3)" and n: "length (xss 3) < 2 ^ 31"
  shows "\<exists>tls. tl_at T_SLEEP (of_nat i) s = Some (xss 3 ! i, s\<lparr>t_list := tls\<rparr>) \<and>
    base (s\<lparr>t_list := tls\<rparr>) sids xss \<and> l_current (tls 3) = xss 3 ! i"
proof -
  have f: "family list_rep (s_nodes s) (all_lists s sids) xss (16 + length sids)" and d: "distinct sids"
    and co: "cache_ok (t_list s 3) (xss 3)" using b by (simp_all add: base_def fam_def)
  have r: "list_rep (s_nodes s) (t_list s 3) (xss 3)" using familyD [OF f, of 3] by (simp add: all_lists_def)
  let ?l = "(t_list s 3)\<lparr>l_current := xss 3 ! i, l_current_i := of_nat i\<rparr>"
  have a: "list_at (s_nodes s) (t_list s 3) (of_nat i) = Some (xss 3 ! i, ?l)"
    by (rule list_at_spec [OF r co n i])
  have rl: "list_rep (s_nodes s) ?l (xss 3)" using r by (simp add: list_rep_def)
  have "all_lists (s\<lparr>t_list := (t_list s)(3 := ?l)\<rparr>) sids = (all_lists s sids)(3 := ?l)"
    using all_lists_tl [where i = 3 and s = s and h = "s_nodes s" and l = ?l and sids = sids] by simp
  moreover have "family list_rep (s_nodes s) ((all_lists s sids)(3 := ?l)) xss (16 + length sids)"
    using f rl by (simp add: family_def)
  ultimately have "fam (s\<lparr>t_list := (t_list s)(3 := ?l)\<rparr>) sids xss" using d by (simp add: fam_def)
  moreover have "cache_ok ?l (xss 3)" using i n by (simp add: cache_ok_def unat_of_nat_small)
  ultimately have "base (s\<lparr>t_list := (t_list s)(3 := ?l)\<rparr>) sids xss"
    using b by (simp add: base_def states_ok_def)
  then show ?thesis using a by (intro exI [of _ "(t_list s)(3 := ?l)"]) (simp add: tl_at_def)
qed

definition due :: "u64 \<Rightarrow> sched \<Rightarrow> ptr \<Rightarrow> bool" where
  "due nsec s t \<longleftrightarrow> th_sleep_time (s_threads s t) \<le> nsec"

lemma due_frame: "frame2 s s' \<Longrightarrow> due nsec s' = due nsec s"
  by (simp add: frame2_def due_def fun_eq_iff)

lemma wake_loop_done:
  assumes b: "base s sids xss"
  shows "wake_loop nsec (of_nat (length (xss 3))) s = Some (False, s)"
proof -
  have "unat (l_len (t_list s 3)) = length (xss 3)" using fam_len [of s sids xss 3] b by (simp add: base_def)
  then have "l_len (t_list s 3) = of_nat (length (xss 3))" by (rule word_eq_of_nat)
  then show ?thesis by (subst wake_loop.simps) simp
qed

lemma wake_loop_here:
  assumes b: "base s sids xss" and i: "i < length (xss 3)" "length (xss 3) < 2 ^ 31" and nn: "xss 3 ! i \<noteq> NULL"
  shows "\<exists>tls. base (s\<lparr>t_list := tls\<rparr>) sids xss \<and> l_current (tls 3) = xss 3 ! i \<and>
    wake_loop nsec (of_nat i) s = (if due nsec s (xss 3 ! i)
      then bind (unblock (xss 3 ! i) (s\<lparr>t_list := tls\<rparr>)) (\<lambda>(switched, s). if switched then Some (True, s) else wake_loop nsec (of_nat i) s)
      else wake_loop nsec (of_nat (Suc i)) (s\<lparr>t_list := tls\<rparr>))"
proof -
  have "unat (l_len (t_list s 3)) = length (xss 3)" using fam_len [of s sids xss 3] b by (simp add: base_def)
  then have l: "of_nat i < l_len (t_list s 3)" using i by (simp add: word_less_nat_alt unat_of_nat_small)
  from tl_at_spec [OF b i] obtain tls where
    1: "tl_at T_SLEEP (of_nat i) s = Some (xss 3 ! i, s\<lparr>t_list := tls\<rparr>)" "base (s\<lparr>t_list := tls\<rparr>) sids xss"
      "l_current (tls 3) = xss 3 ! i" by blast
  from tl_at_spec [OF 1(2) i] obtain tls2 where
    2: "tl_at T_SLEEP (of_nat i) (s\<lparr>t_list := tls\<rparr>) = Some (xss 3 ! i, s\<lparr>t_list := tls2\<rparr>)" "base (s\<lparr>t_list := tls2\<rparr>) sids xss"
      "l_current (tls2 3) = xss 3 ! i" by auto
  have w: "wake_loop nsec (of_nat i) s = (if due nsec s (xss 3 ! i)
      then bind (unblock (xss 3 ! i) (s\<lparr>t_list := tls2\<rparr>)) (\<lambda>(switched, s). if switched then Some (True, s) else wake_loop nsec (of_nat i) s)
      else wake_loop nsec (of_nat i + 1) (s\<lparr>t_list := tls\<rparr>))"
    using l nn by (subst wake_loop.simps) (simp add: 1(1) 2(1) due_def)
  show ?thesis
  proof (cases "due nsec s (xss 3 ! i)")
    case True
    with w 2 show ?thesis by (intro exI [of _ tls2]) simp
  next
    case False
    with w 1 show ?thesis by (intro exI [of _ tls]) (simp add: add.commute)
  qed
qed

text \<open>The effect on the lists of waking what is due in the part \<open>vs\<close> of the sleepers \<open>us @ vs\<close>.\<close>

definition a_wake :: "(ptr \<Rightarrow> bool) \<Rightarrow> ptr list \<Rightarrow> ptr list \<Rightarrow> (nat \<Rightarrow> ptr list) \<Rightarrow> nat \<Rightarrow> ptr list" where
  "a_wake P us vs xss = xss(T_SLEEP := us @ filter (\<lambda>t. \<not> P t) vs, T_READY := xss T_READY @ filter P vs)"

text \<open>Every sleeper whose time has come is woken, in the order in which they went to sleep.\<close>

lemma wake_loop_spec:
  assumes "base s sids xss" "current_ok s xss" "thread_post_c s \<noteq> 0" "kernel s"
    and "xss 3 = us @ vs" "length (xss 3) < 2 ^ 31"
  shows "\<exists>s'. wake_loop nsec (of_nat (length us)) s = Some (False, s') \<and>
    base s' sids (a_wake (due nsec s) us vs xss) \<and>
    current_ok s' (a_wake (due nsec s) us vs xss) \<and>
    kernel s' \<and> thread_c s' = thread_c s \<and> frame2 s s' \<and> s_sems s' = s_sems s \<and> nsec_last s' = nsec_last s \<and>
    thread_post_flag s' = (thread_post_flag s \<or> xss 1 = [] \<and> filter (due nsec s) vs \<noteq> []) \<and>
    (xss 1 \<noteq> [] \<or> filter (due nsec s) vs = [] \<longrightarrow> (\<forall>x. th_regs (s_threads s' x) = th_regs (s_threads s x))) \<and>
    (\<forall>x. x \<noteq> thread_c s \<longrightarrow> th_regs (s_threads s' x) = th_regs (s_threads s x))"
  using assms
proof (induction vs arbitrary: s us xss)
  case Nil
  have x: "a_wake (due nsec s) us [] xss = xss"
    using Nil.prems(5) by (simp add: a_wake_def fun_eq_iff)
  have "wake_loop nsec (of_nat (length us)) s = Some (False, s)"
    using wake_loop_done [OF Nil.prems(1)] Nil.prems(5) by simp
  then show ?case unfolding x using Nil.prems by simp
next
  case (Cons v vs)
  have i: "length us < length (xss 3)" "xss 3 ! length us = v" using Cons.prems(5) by (simp_all add: nth_append)
  have f: "fam s sids xss" using Cons.prems(1) by (simp add: base_def)
  have dv: "distinct (us @ v # vs)" "v \<noteq> NULL" using fam_distinct [OF f, of 3] Cons.prems(5) by auto
  from wake_loop_here [OF Cons.prems(1) i(1) Cons.prems(6), of nsec] i(2) dv(2) obtain tls where
    t: "base (s\<lparr>t_list := tls\<rparr>) sids xss" "l_current (tls 3) = v"
    "wake_loop nsec (of_nat (length us)) s = (if due nsec s v
      then bind (unblock v (s\<lparr>t_list := tls\<rparr>)) (\<lambda>(switched, s). if switched then Some (True, s) else wake_loop nsec (of_nat (length us)) s)
      else wake_loop nsec (of_nat (Suc (length us))) (s\<lparr>t_list := tls\<rparr>))" by auto
  let ?s = "s\<lparr>t_list := tls\<rparr>"
  have s0: "current_ok ?s xss" "thread_post_c ?s \<noteq> 0" "kernel ?s" "frame2 s ?s"
    using Cons.prems by (simp_all add: current_ok_def kernel_def frame2_def)
  show ?case
  proof (cases "due nsec s v")
    case True
    have "v \<in> set (xss 3)" using Cons.prems(5) by simp
    from unblock_deferred [OF t(1) s0(1-3) this] t(2) obtain s1 where
      1: "unblock v ?s = Some (False, s1)" "base s1 sids (a_move 3 1 v xss)" "current_ok s1 (a_move 3 1 v xss)"
        "kernel s1" "thread_c s1 = thread_c s" "frame2 ?s s1" "s_sems s1 = s_sems s" "nsec_last s1 = nsec_last s"
        "thread_post_flag s1 = (thread_post_flag s \<or> xss 1 = [])"
        "xss 1 \<noteq> [] \<longrightarrow> (\<forall>x. th_regs (s_threads s1 x) = th_regs (s_threads s x))"
        "\<forall>x. x \<noteq> thread_c s \<longrightarrow> th_regs (s_threads s1 x) = th_regs (s_threads s x)" by auto
    have f1: "frame2 s s1" by (rule frame2_trans [OF s0(4) 1(6)])
    have d1: "due nsec s1 = due nsec s" "thread_post_c s1 \<noteq> 0"
      using due_frame [OF f1] f1 Cons.prems(3) by (simp_all add: frame2_def)
    have x: "a_move 3 1 v xss = xss(3 := us @ vs, 1 := xss 1 @ [v])"
      using Cons.prems(5) dv by (simp add: a_move_def remove1_append)
    have len: "length (a_move 3 1 v xss 3) < 2 ^ 31" "a_move 3 1 v xss 3 = us @ vs" using Cons.prems(5,6) by (simp_all add: x)
    from Cons.IH [OF 1(2,3) d1(2) 1(4) len(2,1), unfolded d1(1)] obtain s' where
      2: "wake_loop nsec (of_nat (length us)) s1 = Some (False, s')"
        "base s' sids (a_wake (due nsec s) us vs (a_move 3 1 v xss))"
        "current_ok s' (a_wake (due nsec s) us vs (a_move 3 1 v xss))"
        "kernel s'" "thread_c s' = thread_c s1" "frame2 s1 s'" "s_sems s' = s_sems s1" "nsec_last s' = nsec_last s1"
        "thread_post_flag s' = (thread_post_flag s1 \<or> a_move 3 1 v xss 1 = [] \<and> filter (due nsec s) vs \<noteq> [])"
        "a_move 3 1 v xss 1 \<noteq> [] \<or> filter (due nsec s) vs = [] \<longrightarrow> (\<forall>x. th_regs (s_threads s' x) = th_regs (s_threads s1 x))"
        "\<forall>x. x \<noteq> thread_c s1 \<longrightarrow> th_regs (s_threads s' x) = th_regs (s_threads s1 x)"
      by blast
    have x2: "a_wake (due nsec s) us vs (a_move 3 1 v xss)
      = a_wake (due nsec s) us (v # vs) xss"
      using True by (simp add: x a_wake_def fun_eq_iff)
    have x3: "a_move 3 1 v xss 1 \<noteq> []" by (simp add: x)
    have "frame2 s s'" by (rule frame2_trans [OF f1 2(6)])
    moreover have "wake_loop nsec (of_nat (length us)) s = Some (False, s')" using True t(3) 1(1) 2(1) by simp
    ultimately show ?thesis using 2(2-11) 1(5-11) True x3 unfolding x2
      by (intro exI [of _ s']) simp
  next
    case False
    have "wake_loop nsec (of_nat (length us)) s = wake_loop nsec (of_nat (length (us @ [v]))) ?s" using False t(3) by simp
    moreover have d1: "due nsec ?s = due nsec s" by (rule due_frame [OF s0(4)])
    moreover have x: "a_wake (due nsec s) (us @ [v]) vs xss = a_wake (due nsec s) us (v # vs) xss"
      using False by (simp add: a_wake_def)
    moreover have "xss 3 = (us @ [v]) @ vs" using Cons.prems(5) by simp
    from Cons.IH [OF t(1) s0(1-3) this Cons.prems(6), unfolded d1 x] obtain s' where
      2: "wake_loop nsec (of_nat (length (us @ [v]))) ?s = Some (False, s')"
        "base s' sids (a_wake (due nsec s) us (v # vs) xss)"
        "current_ok s' (a_wake (due nsec s) us (v # vs) xss)"
        "kernel s'" "thread_c s' = thread_c s" "frame2 ?s s'" "s_sems s' = s_sems s" "nsec_last s' = nsec_last s"
        "thread_post_flag s' = (thread_post_flag s \<or> xss 1 = [] \<and> filter (due nsec s) (v # vs) \<noteq> [])"
        "xss 1 \<noteq> [] \<or> filter (due nsec s) (v # vs) = [] \<longrightarrow> (\<forall>x. th_regs (s_threads s' x) = th_regs (s_threads s x))"
        "\<forall>x. x \<noteq> thread_c s \<longrightarrow> th_regs (s_threads s' x) = th_regs (s_threads s x)"
      using False by auto
    ultimately show ?thesis using frame2_trans [OF s0(4) 2(6)] by auto
  qed
qed

lemma unlock_all_spec:
  assumes b: "base s sids xss" and c: "current_ok s xss" and p: "thread_post_c s = 1" and k: "kernel s"
  shows "\<exists>s'. unlock_all s = Some (thread_post_flag s \<and> xss 1 \<noteq> [], s') \<and>
    ready_to_run s' sids (if thread_post_flag s then a_switch xss else xss) \<and>
    thread_c s' = (if thread_post_flag s then a_next (thread_c s) xss else thread_c s) \<and>
    frame2 (s\<lparr>thread_post_c := 0\<rparr>) s' \<and> s_sems s' = s_sems s \<and>
    (\<not> thread_post_flag s \<longrightarrow> s' = unlock (s\<lparr>thread_post_c := 0\<rparr>)) \<and>
    (\<forall>x. x \<noteq> thread_c s \<longrightarrow> th_regs (s_threads s' x) = th_regs (s_threads s x)) \<and>
    (thread_post_flag s \<and> xss 1 \<noteq> [] \<longrightarrow> th_regs (s_threads s' (thread_c s)) = cpu s \<and> cpu s' = th_regs (s_threads s' (thread_c s')))"
proof (cases "thread_post_flag s")
  case True
  let ?s = "s\<lparr>thread_post_c := 0, thread_post_flag := False\<rparr>"
  have "base ?s sids xss" by (rule base_upd [OF b]) simp_all
  then have r: "ready_to_run ?s sids xss" using c by (simp add: ready_to_run_def current_ok_def)
  have k': "kernel ?s" using k by (simp add: kernel_def)
  from int_sched_spec [OF r k'] obtain s' where
    1: "int_sched ?s = Some (xss 1 \<noteq> [], s')" "ready_to_run s' sids (a_switch xss)"
      "thread_c s' = a_next (thread_c s) xss" "frame2 ?s s'" "s_sems s' = s_sems s"
      "\<forall>x. x \<noteq> thread_c s \<longrightarrow> th_regs (s_threads s' x) = th_regs (s_threads s x)" "th_regs (s_threads s' (thread_c s)) = cpu s"
      "xss 1 \<noteq> [] \<longrightarrow> cpu s' = th_regs (s_threads s' (thread_c s'))" by auto
  have u: "unlock_all s = Some (finish unlock (xss 1 \<noteq> [], s'))"
    using True p 1(1) by (simp add: unlock_all_def)
  show ?thesis
  proof (cases "xss 1 = []")
    case e: True
    then show ?thesis using u 1 True by (simp add: finish_def) (simp add: frame2_def)
  next
    case False
    then show ?thesis using u 1 True by (simp add: finish_def frame2_def)
  qed
next
  case False
  have "base (s\<lparr>thread_post_c := 0\<rparr>) sids xss" by (rule base_upd [OF b]) simp_all
  then show ?thesis using False p c
    by (simp add: unlock_all_def ready_to_run_def current_ok_def)
qed

lemma time_slice_end_spec:
  assumes r: "ready_to_run s sids xss"
  shows "\<exists>s'. time_slice_end nsec s = Some
      (if nsec - nsec_last s \<ge> THREAD_TIME_SLICE \<and> xss 1 \<noteq> [] then Some (th_regs (s_threads s (hd (xss 1)))) else None, s') \<and>
    ready_to_run s' sids (if nsec - nsec_last s \<ge> THREAD_TIME_SLICE then a_switch xss else xss) \<and>
    thread_c s' = (if nsec - nsec_last s \<ge> THREAD_TIME_SLICE then a_next (thread_c s) xss else thread_c s) \<and>
    frame2 s s' \<and> s_sems s' = s_sems s \<and> (\<forall>x. th_regs (s_threads s' x) = th_regs (s_threads s x))"
proof (cases "nsec - nsec_last s \<ge> THREAD_TIME_SLICE")
  case False
  then show ?thesis using r by (simp add: time_slice_end_def)
next
  case True
  show ?thesis
  proof (cases "xss 1 = []")
    case e: True
    have "l_len (t_list s 1) = 0" using fam_len_0 [of s sids xss 1] r e by (simp add: ready_to_run_def base_def)
    then have "schedule (lock s) = Some (None, lock s)" using r by (simp add: schedule_def ready_to_run_def)
    then show ?thesis using True e r by (simp add: time_slice_end_def a_switch_def a_next_def)
  next
    case False
    have "ready_to_run (lock s) sids xss" using r by simp
    with schedule_spec [of "lock s" sids xss] False obtain s' where
      1: "schedule (lock s) = Some (Some (th_regs (s_threads s (hd (xss 1)))), s')" "base s' sids (a_switch xss)"
        "current_ok s' (a_switch xss)" "thread_c s' = hd (xss 1)" "frame (lock s) s'"
      by (auto simp: ready_to_run_def)
    have "frame2 s s'" "s_sems s' = s_sems s" "\<forall>x. th_regs (s_threads s' x) = th_regs (s_threads s x)"
      using 1(5) by (simp_all add: frame_def frame2_def)
    moreover have "ready_to_run s' sids (a_switch xss)" using 1(2,3,5) r by (simp add: ready_to_run_def frame_def)
    ultimately show ?thesis using 1(1,4) True False
      by (simp add: time_slice_end_def a_next_def)
  qed
qed

text \<open>The abstract timer tick: wake, then switch if a wake-up asks for it or the time slice is over.\<close>

definition tick_switches :: "sched \<Rightarrow> (nat \<Rightarrow> ptr list) \<Rightarrow> bool" where
  "tick_switches s xss \<longleftrightarrow> xss T_READY = [] \<and> filter (due (clock_nolatch s) s) (xss T_SLEEP) \<noteq> [] \<or>
     clock_nolatch s - nsec_last s \<ge> THREAD_TIME_SLICE"

definition a_tick :: "sched \<Rightarrow> (nat \<Rightarrow> ptr list) \<Rightarrow> nat \<Rightarrow> ptr list" where
  "a_tick s xss = (let ys = a_wake (due (clock_nolatch s) s) [] (xss T_SLEEP) xss
     in if tick_switches s xss then a_switch ys else ys)"

lemma timer_handler_spec:
  assumes r: "ready_to_run s sids xss" and k: "kernel s" and n: "length (xss 3) < 2 ^ 31"
  defines "ys \<equiv> a_wake (due (clock_nolatch s) s) [] (xss 3) xss"
  defines "w \<equiv> xss 1 = [] \<and> filter (due (clock_nolatch s) s) (xss 3) \<noteq> []"
  shows "\<exists>out s'. sched_time_handler regs s = Some (w, out, s') \<and> ready_to_run s' sids (a_tick s xss) \<and>
    thread_c s' = (if tick_switches s xss then a_next (thread_c s) ys else thread_c s) \<and>
    frame2 s s' \<and> s_sems s' = s_sems s \<and>
    (\<forall>x. x \<noteq> thread_c s \<longrightarrow> th_regs (s_threads s' x) = th_regs (s_threads s x)) \<and>
    (if w then r_cs (th_regs (s_threads s' (thread_c s))) AND 3 = 0 \<and> cpu s' = th_regs (s_threads s' (thread_c s'))
     else th_regs (s_threads s' (thread_c s)) = regs \<and>
       out = (if tick_switches s xss \<and> ys 1 \<noteq> [] then Some (th_regs (s_threads s' (thread_c s'))) else None))"
proof -
  let ?s = "set_thread (thread_c s) (\<lambda>x. x\<lparr>th_regs := regs\<rparr>) s"
  have r0: "ready_to_run ?s sids xss" by (rule save_regs [OF r])
  have la: "lock_all ?s = (lock ?s)\<lparr>thread_post_c := 1\<rparr>"
    using r by (simp add: lock_all_def Let_def ready_to_run_def)
  let ?l = "(lock ?s)\<lparr>thread_post_c := 1\<rparr>"
  have b: "base ?l sids xss"
    by (rule base_upd [of "lock ?s"]) (use r0 in \<open>simp_all add: ready_to_run_def\<close>)
  have c: "current_ok ?l xss" using r0 by (simp add: ready_to_run_def current_ok_def)
  have kl: "kernel ?l" using k by (simp add: kernel_def)
  have df: "due nsec ?l = due nsec s" for nsec by (simp add: due_def fun_eq_iff)
  have fl: "\<not> thread_post_flag ?l" "thread_post_c ?l \<noteq> 0" using r by (simp_all add: ready_to_run_def)
  let ?n = "clock_nolatch s"
  from wake_loop_spec [OF b c fl(2) kl, of "[]" "xss 3" ?n, unfolded df] n obtain s1 where
    1: "wake_loop ?n 0 ?l = Some (False, s1)" "base s1 sids ys" "current_ok s1 ys" "kernel s1"
      "thread_c s1 = thread_c s" "frame2 ?l s1" "s_sems s1 = s_sems s" "nsec_last s1 = nsec_last s"
      "thread_post_flag s1 = w" "\<not> w \<Longrightarrow> \<forall>x. th_regs (s_threads s1 x) = th_regs (s_threads ?s x)"
      "\<forall>x. x \<noteq> thread_c s \<longrightarrow> th_regs (s_threads s1 x) = th_regs (s_threads ?s x)"
    using fl by (auto simp: ys_def w_def)
  have p1: "thread_post_c s1 = 1" using 1(6) by (simp add: frame2_def)
  from unlock_all_spec [OF 1(2,3) p1 1(4)] 1(5,7,9) obtain s2 where
    2: "unlock_all s1 = Some (w \<and> ys 1 \<noteq> [], s2)" "ready_to_run s2 sids (if w then a_switch ys else ys)"
      "thread_c s2 = (if w then a_next (thread_c s) ys else thread_c s)" "frame2 (s1\<lparr>thread_post_c := 0\<rparr>) s2"
      "s_sems s2 = s_sems s" "\<not> w \<longrightarrow> s2 = unlock (s1\<lparr>thread_post_c := 0\<rparr>)"
      "\<forall>x. x \<noteq> thread_c s \<longrightarrow> th_regs (s_threads s2 x) = th_regs (s_threads s1 x)"
      "w \<and> ys 1 \<noteq> [] \<longrightarrow> th_regs (s_threads s2 (thread_c s)) = cpu s1 \<and> cpu s2 = th_regs (s_threads s2 (thread_c s2))" by auto
  have others: "\<forall>x. x \<noteq> thread_c s \<longrightarrow> th_regs (s_threads s2 x) = th_regs (s_threads s x)"
    using 1(11) 2(7) by simp
  have f2: "frame2 s s2" using 1(6) 2(4) r by (simp add: frame2_def ready_to_run_def)
  have wy: "w \<Longrightarrow> ys 1 \<noteq> []" by (simp add: w_def ys_def a_wake_def)
  have h: "sched_time_handler regs s = (if w then Some (True, None, s2)
      else bind (time_slice_end ?n s2) (\<lambda>(out, s). Some (False, out, s)))"
    using 1(1) 2(1) wy by (simp add: sched_time_handler_def la)
  show ?thesis
  proof (cases w)
    case True
    then have "tick_switches s xss" by (simp add: tick_switches_def w_def)
    moreover have "r_cs (cpu s1) AND 3 = 0" using 1(4) by (simp add: kernel_def)
    ultimately show ?thesis using True h 2 f2 wy others by (simp add: a_tick_def ys_def)
  next
    case False
    have n2: "nsec_last s2 = nsec_last s" using 2(6) False 1(8) by simp
    have ts: "tick_switches s xss \<longleftrightarrow> ?n - nsec_last s \<ge> THREAD_TIME_SLICE"
      using False unfolding tick_switches_def w_def by blast
    from time_slice_end_spec [of s2 sids ys ?n] 2(2) False obtain s3 where
      3: "time_slice_end ?n s2 = Some (if tick_switches s xss \<and> ys 1 \<noteq> [] then Some (th_regs (s_threads s2 (hd (ys 1)))) else None, s3)"
        "ready_to_run s3 sids (if tick_switches s xss then a_switch ys else ys)"
        "thread_c s3 = (if tick_switches s xss then a_next (thread_c s2) ys else thread_c s2)"
        "frame2 s2 s3" "s_sems s3 = s_sems s2" "\<forall>x. th_regs (s_threads s3 x) = th_regs (s_threads s2 x)"
      by (auto simp: n2 ts)
    have "frame2 s s3" by (rule frame2_trans [OF f2 3(4)])
    moreover have "th_regs (s_threads s3 (thread_c s)) = regs"
      using 3(6) 2(6) 1(10) False by simp
    ultimately show ?thesis using h 3 2(3,5) False others
      by (simp add: a_tick_def ys_def [symmetric] Let_def a_next_def)
  qed
qed

lemma ready_upd:
  assumes "ready_to_run s sids xss" "fam s' = fam s" "t_list s' = t_list s"
    "\<And>t. th_state (s_threads s' t) = th_state (s_threads s t)" "\<And>t. th_proc (s_threads s' t) = th_proc (s_threads s t)"
    "thread_c s' = thread_c s" "cr3 s' = cr3 s" "s_procs s' = s_procs s" "thread_post_c s' = thread_post_c s"
    "thread_post_flag s' = thread_post_flag s"
  shows "ready_to_run s' sids xss"
  using assms base_upd [of s sids xss s'] by (simp add: ready_to_run_def current_ok_def)

lemma timer_spec:
  assumes r: "ready_to_run s sids xss" and n: "length (xss 3) < 2 ^ 31"
  defines "ys \<equiv> a_wake (due (clock_nolatch s) s) [] (xss 3) xss"
  shows "\<exists>s'. timer_interrupt kregs s = Some s' \<and> ready_to_run s' sids (a_tick s xss) \<and>
    thread_c s' = (if tick_switches s xss then a_next (thread_c s) ys else thread_c s) \<and>
    frame2 s s' \<and> s_sems s' = s_sems s \<and>
    (\<forall>x. x \<noteq> thread_c s \<longrightarrow> th_regs (s_threads s' x) = th_regs (s_threads s x)) \<and>
    (if xss 1 = [] \<and> filter (due (clock_nolatch s) s) (xss 3) \<noteq> []
     then r_cs (th_regs (s_threads s' (thread_c s))) AND 3 = 0 else th_regs (s_threads s' (thread_c s)) = cpu s) \<and>
    cpu s' = (if tick_switches s xss \<and> ys 1 \<noteq> [] then th_regs (s_threads s' (thread_c s')) else cpu s)"
proof -
  let ?s = "cli (s\<lparr>cpu := kregs\<lparr>r_cs := 8\<rparr>\<rparr>)"
  have eq: "fam ?s = fam s" "s_threads ?s = s_threads s" "t_list ?s = t_list s" "thread_c ?s = thread_c s"
    "cr3 ?s = cr3 s" "s_procs ?s = s_procs s" "thread_post_c ?s = thread_post_c s" "s_sems ?s = s_sems s"
    "thread_post_flag ?s = thread_post_flag s" "clock_nolatch ?s = clock_nolatch s" "nsec_last ?s = nsec_last s"
    by (simp_all add: cli_def)
  have r': "ready_to_run ?s sids xss" by (rule ready_upd [OF r]) (simp_all add: eq)
  have k: "kernel ?s" by (simp add: kernel_def cli_def)
  have d: "due n ?s = due n s" for n by (simp add: due_def eq fun_eq_iff)
  have ts: "tick_switches ?s xss = tick_switches s xss" "a_tick ?s xss = a_tick s xss"
    by (simp_all add: tick_switches_def a_tick_def d eq)
  have fr: "frame2 s s' = frame2 ?s s'" for s' by (simp add: frame2_def cli_def)
  let ?w = "xss 1 = [] \<and> filter (due (clock_nolatch s) s) (xss 3) \<noteq> []"
  from timer_handler_spec [OF r' k n, of "cpu s", unfolded d eq ts, folded ys_def] obtain out s' where
    1: "sched_time_handler (cpu s) ?s = Some (?w, out, s')" "ready_to_run s' sids (a_tick s xss)"
      "thread_c s' = (if tick_switches s xss then a_next (thread_c s) ys else thread_c s)" "frame2 ?s s'"
      "s_sems s' = s_sems s" "\<forall>x. x \<noteq> thread_c s \<longrightarrow> th_regs (s_threads s' x) = th_regs (s_threads s x)"
      "if ?w then r_cs (th_regs (s_threads s' (thread_c s))) AND 3 = 0 \<and> cpu s' = th_regs (s_threads s' (thread_c s'))
       else th_regs (s_threads s' (thread_c s)) = cpu s \<and>
         out = (if tick_switches s xss \<and> ys 1 \<noteq> [] then Some (th_regs (s_threads s' (thread_c s'))) else None)"
    by blast
  show ?thesis
  proof (cases ?w)
    case True
    then have "ys 1 \<noteq> []" "tick_switches s xss" by (simp_all add: ys_def a_wake_def tick_switches_def)
    with True show ?thesis using 1 fr by (auto simp: timer_interrupt_def)
  next
    case False
    let ?t = "s'\<lparr>cpu := (case out of None \<Rightarrow> cpu s | Some r \<Rightarrow> r)\<rparr>"
    have "timer_interrupt kregs s = Some ?t" using False 1(1) by (auto simp: timer_interrupt_def)
    moreover have "ready_to_run ?t sids (a_tick s xss)" by (rule ready_upd [OF 1(2)]) simp_all
    moreover have "frame2 s ?t" using 1(4) by (simp add: fr) (simp add: frame2_def)
    ultimately show ?thesis using 1(3,5-7) False by (intro exI [of _ ?t]) auto
  qed
qed

section \<open>Semaphores\<close>

definition sem_frame :: "sched \<Rightarrow> sched \<Rightarrow> bool" where
  "sem_frame s s' \<longleftrightarrow> (\<forall>q. sem_thr_c (s_sems s' q) = sem_thr_c (s_sems s q) \<and>
     sem_max_thr_c (s_sems s' q) = sem_max_thr_c (s_sems s q))"

lemma sem_frame_simps [simp]: "s_sems s' = s_sems s \<Longrightarrow> sem_frame s s'"
  "sem_frame s (set_sem q (\<lambda>x. x\<lparr>sem_waiting := l\<rparr>) s') = sem_frame s s'"
  by (auto simp: sem_frame_def set_sem_def)

lemma set_sem_simps [simp]:
  "t_list (set_sem q f s) = t_list s" "s_threads (set_sem q f s) = s_threads s" "s_nodes (set_sem q f s) = s_nodes s"
  "s_procs (set_sem q f s) = s_procs s" "thread_c (set_sem q f s) = thread_c s"
  "thread_post_c (set_sem q f s) = thread_post_c s" "thread_post_flag (set_sem q f s) = thread_post_flag s"
  "nsec_last (set_sem q f s) = nsec_last s" "irq_c (set_sem q f s) = irq_c s"
  "init_done (set_sem q f s) = init_done s" "cpu (set_sem q f s) = cpu s"
  "cr3 (set_sem q f s) = cr3 s" "clock (set_sem q f s) = clock s"
  "clock_nolatch (set_sem q f s) = clock_nolatch s"
  "s_sems (set_sem q f s) = (s_sems s)(q := f (s_sems s q))"
  by (simp_all add: set_sem_def)

text \<open>A change of a counter leaves the lists alone.\<close>

lemma ready_count:
  assumes "ready_to_run s sids xss" "\<And>x. sem_waiting (f x) = sem_waiting x"
  shows "ready_to_run (set_sem q f s) sids xss"
  by (rule ready_upd [OF assms(1)]) (simp_all add: assms(2), intro ext fam_cong, simp_all add: assms(2))

lemma sem_lock_free:
  assumes r: "ready_to_run s sids xss" and free: "sem_thr_c (s_sems s q) < sem_max_thr_c (s_sems s q)"
  shows "\<exists>s'. sem_lock q s = Some (False, s') \<and> ready_to_run s' sids xss \<and> thread_c s' = thread_c s \<and> frame2 s s' \<and>
    s_sems s' = (s_sems s)(q := (s_sems s q)\<lparr>sem_thr_c := sem_thr_c (s_sems s q) + 1\<rparr>)"
proof -
  let ?s = "unlock (set_sem q (\<lambda>x. x\<lparr>sem_thr_c := sem_thr_c x + 1\<rparr>) (lock s))"
  have "ready_to_run (lock s) sids xss" using r by simp
  from ready_count [OF this, of "\<lambda>x. x\<lparr>sem_thr_c := sem_thr_c x + 1\<rparr>" q]
  have "ready_to_run ?s sids xss" by simp
  then show ?thesis using free by (simp add: sem_lock_def) (simp add: frame2_def)
qed

lemma move_to_thread_c: "move_to t x s = Some s' \<Longrightarrow> thread_c s' = thread_c s"
  by (auto simp: move_to_def tl_append_def tl_remove_p_def Let_def set_thread_def bind_eq_Some_conv split: if_splits prod.splits)

text \<open>A full semaphore queues the caller and gives up the CPU.\<close>

lemma sem_lock_full:
  assumes r: "ready_to_run s sids xss" and k: "kernel s" and x0: "xss 0 = [thread_c s]" and j: "j < length sids"
    and full: "sem_thr_c (s_sems s (sids ! j)) = sem_max_thr_c (s_sems s (sids ! j))"
  defines "ys \<equiv> xss(0 := [], 16 + j := xss (16 + j) @ [thread_c s])"
  shows "\<exists>s'. sem_lock (sids ! j) s = Some (xss 1 \<noteq> [], s') \<and> ready_to_run s' sids (a_switch ys) \<and>
    thread_c s' = a_next (thread_c s) xss \<and> frame2 s s' \<and> sem_frame s s'"
proof -
  let ?c = "thread_c s" and ?q = "sids ! j"
  have b: "base (lock s) sids xss" using r by (simp add: ready_to_run_def)
  from sem_wait_spec [OF b, of 0 j ?c] j x0 obtain h tls l where
    1: "bind (move_to ?c T_SEMAPHORE_WAIT (lock s)) (sem_append ?q ?c) =
        Some (set_sem ?q (\<lambda>x. x\<lparr>sem_waiting := l\<rparr>) (moved ?c 128 h tls (lock s)))"
      "base (set_sem ?q (\<lambda>x. x\<lparr>sem_waiting := l\<rparr>) (moved ?c 128 h tls (lock s))) sids ys"
    by (auto simp: ys_def)
  let ?m = "set_sem ?q (\<lambda>x. x\<lparr>sem_waiting := l\<rparr>) (moved ?c 128 h tls (lock s))"
  have m: "ready_to_run ?m sids ys"
    using 1(2) r x0 by (simp add: ready_to_run_def current_ok_def ys_def One_nat_def)
  have km: "kernel ?m" using k by (simp add: kernel_def)
  have y1: "ys 1 = xss 1" by (simp add: ys_def)
  from int_sched_spec [OF m km] obtain s' where
    2: "int_sched ?m = Some (xss 1 \<noteq> [], s')" "ready_to_run s' sids (a_switch ys)" "thread_c s' = a_next ?c xss"
      "frame2 ?m s'" "s_sems s' = s_sems ?m" by (auto simp: y1 a_next_def)
  obtain m0 where m0: "move_to ?c T_SEMAPHORE_WAIT (lock s) = Some m0" "sem_append ?q ?c m0 = Some ?m"
    using 1(1) by (auto simp: bind_eq_Some_conv)
  have "thread_c m0 = ?c" using move_to_thread_c [OF m0(1)] by simp
  then have "sem_lock ?q s = Some (finish unlock (xss 1 \<noteq> [], s'))"
    using full m0 2(1) by (simp add: sem_lock_def)
  moreover have "frame2 s s'" using 2(4) by (simp add: frame2_def)
  moreover have "sem_frame s s'" using 2(5) by (simp add: sem_frame_def)
  moreover have "sem_frame s (unlock s')" using 2(5) by (simp add: sem_frame_def)
  ultimately show ?thesis using 2(2,3) by (simp add: finish_def)
qed

lemma sem_try_lock_spec:
  assumes r: "ready_to_run s sids xss"
  shows "\<exists>s'. sem_try_lock q s = (sem_thr_c (s_sems s q) < sem_max_thr_c (s_sems s q), s') \<and> ready_to_run s' sids xss \<and>
    thread_c s' = thread_c s \<and> frame2 s s' \<and>
    s_sems s' = (if sem_thr_c (s_sems s q) < sem_max_thr_c (s_sems s q)
      then (s_sems s)(q := (s_sems s q)\<lparr>sem_thr_c := sem_thr_c (s_sems s q) + 1\<rparr>) else s_sems s)"
proof -
  have "ready_to_run (lock s) sids xss" using r by simp
  from ready_count [OF this, of "\<lambda>x. x\<lparr>sem_thr_c := sem_thr_c x + 1\<rparr>" q]
  show ?thesis using r by (simp add: sem_try_lock_def frame2_def)
qed

text \<open>Unlocking hands the semaphore to the thread that has waited longest, or frees a place.\<close>

lemma sem_unlock_wake:
  assumes r: "ready_to_run s sids xss" and k: "kernel s" and x0: "xss 0 = [thread_c s]" and j: "j < length sids" and w: "xss (16 + j) = t # ts"
  defines "ys \<equiv> xss(16 + j := ts, 1 := xss 1 @ [t])"
  shows "\<exists>s'. sem_unlock (sids ! j) s = Some (xss 1 = [], s') \<and>
    ready_to_run s' sids (if xss 1 = [] then a_switch ys else ys) \<and>
    thread_c s' = (if xss 1 = [] then t else thread_c s) \<and> frame2 s s' \<and> sem_frame s s'"
proof -
  let ?q = "sids ! j"
  have b: "base (lock s) sids xss" using r by (simp add: ready_to_run_def)
  from sem_pop_spec [where xss = xss, OF b j w] obtain l where
    1: "sem_pop_start ?q (lock s) = Some (t, set_sem ?q (\<lambda>x. x\<lparr>sem_waiting := l\<rparr>) (lock s))"
      "base (set_sem ?q (\<lambda>x. x\<lparr>sem_waiting := l\<rparr>) (lock s)) sids (xss(16 + j := ts))" by blast
  let ?p = "set_sem ?q (\<lambda>x. x\<lparr>sem_waiting := l\<rparr>) (lock s)"
  have f: "fam s sids xss" using r by (simp add: ready_to_run_def base_def)
  have tf: "t \<notin> members (xss(16 + j := ts)) (16 + length sids)" "t \<noteq> NULL"
    using sem_head_free [where xss = xss, OF f _ w] j by simp_all
  have tw: "t \<in> set (xss (16 + j))" using w by simp
  have st: "th_state (s_threads (lock ?p) t) = 128"
    using states_okD [of s sids xss "16 + j" t] tw r j by (simp add: ready_to_run_def base_def list_state_def)
  have tc: "t \<noteq> thread_c s" using fam_disjoint [OF f, of 0 "16 + j" t] tw j x0 by auto
  have "base (lock ?p) sids (xss(16 + j := ts))" using 1(2) by simp
  from wake_up_spec [OF this, of 1 t] tf st obtain h tls where
    2: "move_to t 1 (lock ?p) = Some (moved t 1 h tls (lock ?p))" "base (moved t 1 h tls (lock ?p)) sids ys"
    by (auto simp: ys_def)
  let ?m = "moved t 1 h tls (lock ?p)"
  have "current_ok ?m ys" using r tc by (simp add: ready_to_run_def current_ok_def ys_def)
  then have m: "ready_to_run ?m sids ys" using 2(2) r by (simp add: ready_to_run_def)
  have km: "kernel ?m" using k by (simp add: kernel_def)
  have fm: "frame2 ?p ?m" "s_sems ?m = s_sems ?p" by (simp_all add: frame2_def)
  have y1: "length (ys 1) = 1 \<longleftrightarrow> xss 1 = []" "xss 1 = [] \<Longrightarrow> hd (ys 1) = t" by (simp_all add: ys_def)
  from unblock_after [OF 2(1) m fm km] y1 obtain s' where
    3: "unblock t ?p = Some (xss 1 = [], s')" "frame2 ?p s'" "s_sems s' = s_sems ?p"
      "ready_to_run s' sids (if xss 1 = [] then a_switch ys else ys)" "thread_c s' = (if xss 1 = [] then t else thread_c s)"
    by (auto split: if_splits)
  have "l_len (sem_waiting (s_sems s ?q)) \<noteq> 0"
  proof -
    have "list_rep (s_nodes s) (sem_waiting (s_sems s ?q)) (t # ts)"
      using f familyD [of list_rep "s_nodes s" "all_lists s sids" xss "16 + length sids" "16 + j"] j w
      by (simp add: fam_def all_lists_def)
    then show ?thesis using list_rep_len_0 by blast
  qed
  then have "sem_unlock ?q s = Some (finish unlock (xss 1 = [], s'))"
    using 1(1) 3(1) by (simp add: sem_unlock_def)
  moreover have "frame2 s s'" using 3(2) by (simp add: frame2_def)
  moreover have "sem_frame s s'" "sem_frame s (unlock s')" using 3(3) by (simp_all add: sem_frame_def)
  ultimately show ?thesis using 3(4,5) by (cases "xss 1 = []") (simp_all add: finish_def)
qed

lemma sem_unlock_free:
  assumes r: "ready_to_run s sids xss" and j: "j < length sids" and w: "xss (16 + j) = []"
  shows "\<exists>s'. sem_unlock (sids ! j) s = Some (False, s') \<and> ready_to_run s' sids xss \<and>
    thread_c s' = thread_c s \<and> frame2 s s' \<and>
    s_sems s' = (if sem_thr_c (s_sems s (sids ! j)) = 0 then s_sems s
      else (s_sems s)(sids ! j := (s_sems s (sids ! j))\<lparr>sem_thr_c := sem_thr_c (s_sems s (sids ! j)) - 1\<rparr>))"
proof -
  have f: "fam s sids xss" using r by (simp add: ready_to_run_def base_def)
  have "list_rep (s_nodes s) (sem_waiting (s_sems s (sids ! j))) []"
    using f familyD [of list_rep "s_nodes s" "all_lists s sids" xss "16 + length sids" "16 + j"] j w
    by (simp add: fam_def all_lists_def)
  then have e: "l_len (sem_waiting (s_sems s (sids ! j))) = 0" using list_rep_len_0 by blast
  have "ready_to_run (lock s) sids xss" using r by simp
  from ready_count [OF this, of "\<lambda>x. x\<lparr>sem_thr_c := sem_thr_c x - 1\<rparr>" "sids ! j"]
  show ?thesis using r e by (simp add: sem_unlock_def frame2_def)
qed

section \<open>The kernel as a transition system\<close>

text \<open>
  The steps of the running thread and of the timer. \<open>idle\<close> is the boot thread, which halts in a
  loop and never blocks. Between two steps the CPU executes anything and the clock moves on;
  a thread that was switched away from in the middle of an operation finishes it when it runs
  again: what is left is \<^verbatim>\<open>unlock\<close> or the end of the timer handler.
\<close>

inductive sched_step :: "ptr \<Rightarrow> ptr list \<Rightarrow> sched \<Rightarrow> sched \<Rightarrow> bool" for idle sids where
  execute: "sched_step idle sids s (s\<lparr>cpu := c, clock := m, clock_nolatch := n\<rparr>)"
| rest_unlock: "sched_step idle sids s (unlock s)"
| rest_timer: "time_slice_end n s = Some (out, s') \<Longrightarrow> sched_step idle sids s s'"
| tick: "timer_interrupt kregs s = Some s' \<Longrightarrow> sched_step idle sids s s'"
| sys_block: "kernel s \<Longrightarrow> thread_c s \<noteq> idle \<Longrightarrow> sys_thread_block reason n s = Some (sw, s') \<Longrightarrow> sched_step idle sids s s'"
| sleep_call: "kernel s \<Longrightarrow> thread_c s \<noteq> idle \<Longrightarrow> nsleep (thread_c s) n s = Some (sw, s') \<Longrightarrow> sched_step idle sids s s'"
| sem_lock_call: "kernel s \<Longrightarrow> thread_c s \<noteq> idle \<Longrightarrow> q \<in> set sids \<Longrightarrow> sem_lock q s = Some (sw, s') \<Longrightarrow> sched_step idle sids s s'"
| sem_try_call: "kernel s \<Longrightarrow> q \<in> set sids \<Longrightarrow> sem_try_lock q s = (got, s') \<Longrightarrow> sched_step idle sids s s'"
| sem_unlock_call: "kernel s \<Longrightarrow> q \<in> set sids \<Longrightarrow> sem_unlock q s = Some (sw, s') \<Longrightarrow> sched_step idle sids s s'"

inductive sched_run :: "ptr \<Rightarrow> ptr list \<Rightarrow> sched \<Rightarrow> sched \<Rightarrow> bool" for idle sids where
  refl: "sched_run idle sids s s"
| step: "sched_run idle sids s s' \<Longrightarrow> sched_step idle sids s' s'' \<Longrightarrow> sched_run idle sids s s''"

text \<open>
  The invariant: the running list holds exactly the current thread, the idle thread can always
  run, and the threads are those in \<open>T\<close>, each in one list.
\<close>

definition sched_inv :: "ptr \<Rightarrow> ptr list \<Rightarrow> ptr set \<Rightarrow> sched \<Rightarrow> (nat \<Rightarrow> ptr list) \<Rightarrow> bool" where
  "sched_inv idle sids T s xss \<longleftrightarrow> ready_to_run s sids xss \<and> sems_ok s sids xss \<and> xss T_RUNNING = [thread_c s] \<and>
     idle \<in> set (xss T_RUNNING) \<union> set (xss T_READY) \<and> members xss (16 + length sids) = T"

lemma members_cong: "(\<Union>i < n. set (xss i)) = (\<Union>i < n. set (yss i)) \<Longrightarrow> members xss n = members yss n"
  by (simp add: members_def)

lemma members_split2:
  "i < n \<Longrightarrow> j < n \<Longrightarrow> i \<noteq> j \<Longrightarrow> members xss n = set (xss i) \<union> set (xss j) \<union> (\<Union>k \<in> {..<n} - {i, j}. set (xss k))"
proof -
  assume "i < n" "j < n" "i \<noteq> j"
  then have "{..<n} = insert i (insert j ({..<n} - {i, j}))" by auto
  from arg_cong [OF this, of "\<lambda>K. \<Union>k \<in> K. set (xss k)"] show ?thesis
    by (simp only: members_def UN_insert Un_assoc)
qed

lemma members_upd2:
  assumes "i < n" "j < n" "i \<noteq> j" "set a \<union> set b = set (xss i) \<union> set (xss j)"
  shows "members (xss(i := a, j := b)) n = members xss n"
proof -
  have "(\<Union>k \<in> {..<n} - {i, j}. set ((xss(i := a, j := b)) k)) = (\<Union>k \<in> {..<n} - {i, j}. set (xss k))" by auto
  then show ?thesis
    using assms members_split2 [OF assms(1-3), of xss] members_split2 [OF assms(1-3), of "xss(i := a, j := b)"] by simp
qed

lemma members_switch: "16 \<le> n \<Longrightarrow> members (a_switch xss) n = members xss n"
proof (cases "xss 1")
  case (Cons t ts)
  assume "16 \<le> n"
  then have "members (xss(0 := [t], 1 := ts @ xss 0)) n = members xss n"
    by (intro members_upd2) (use Cons in auto)
  then show ?thesis using Cons by (simp add: a_switch_def)
qed (simp add: a_switch_def)

lemma switch_other: "k \<noteq> 0 \<Longrightarrow> k \<noteq> 1 \<Longrightarrow> a_switch xss k = xss k"
  by (simp add: a_switch_def)

lemma a_switch_sems:
  assumes "sems_ok s sids ys" "sem_frame s s'" "\<And>j. xss (16 + j) = ys (16 + j)"
  shows "sems_ok s' sids xss"
  using assms by (simp add: sems_ok_def sem_frame_def)

text \<open>What a switch away from the current thread leaves: it may be in any list, or requeued.\<close>

lemma inv_switch:
  assumes r: "ready_to_run s' sids (a_switch ys)" and so: "sems_ok s sids ys" and sf: "sem_frame s s'"
    and m: "members ys (16 + length sids) = T" and id: "idle \<in> set (ys 0) \<union> set (ys 1)"
    and c: "ys 1 \<noteq> []" "thread_c s' = hd (ys 1)"
  shows "sched_inv idle sids T s' (a_switch ys)"
proof -
  have "sems_ok s' sids (a_switch ys)" by (rule a_switch_sems [OF so sf]) (simp add: switch_other)
  moreover have "idle \<in> set (a_switch ys 0) \<union> set (a_switch ys 1)"
    using id c(1) by (cases "ys 1") (auto simp: a_switch_def)
  moreover have "a_switch ys 0 = [thread_c s']" using c by (simp add: a_switch_def)
  moreover have "members (a_switch ys) (16 + length sids) = T" using m by (simp add: members_switch)
  ultimately show ?thesis using r by (simp add: sched_inv_def)
qed

lemma inv_stay:
  assumes r: "ready_to_run s' sids ys" and so: "sems_ok s sids ys" and sf: "sem_frame s s'"
    and m: "members ys (16 + length sids) = T" and id: "idle \<in> set (ys 0) \<union> set (ys 1)"
    and c: "ys 0 = [thread_c s']"
  shows "sched_inv idle sids T s' ys"
  using assms a_switch_sems [OF so sf, of ys] by (simp add: sched_inv_def)

lemma inv_facts:
  assumes "sched_inv idle sids T s xss"
  shows "ready_to_run s sids xss" "sems_ok s sids xss" "members xss (16 + length sids) = T"
    "idle \<in> set (xss 0) \<union> set (xss 1)" "xss 0 = [thread_c s]"
  using assms unfolding sched_inv_def by blast+

lemma word_dec_le: "(x :: usize) \<noteq> 0 \<Longrightarrow> x \<le> y \<Longrightarrow> x - 1 \<le> y"
  by (simp add: word_le_nat_alt unat_minus_one)

lemma inv_sleepers:
  assumes "sched_inv idle sids T s xss" "card T < 2 ^ 31"
  shows "length (xss 3) < 2 ^ 31"
proof -
  have f: "fam s sids xss" and m: "members xss (16 + length sids) = T"
    using assms(1) by (simp_all add: sched_inv_def ready_to_run_def base_def)
  have "finite T" "set (xss 3) \<subseteq> T" unfolding m [symmetric] by (auto simp: members_def intro!: bexI [of _ 3])
  then have "card (set (xss 3)) \<le> card T" by (intro card_mono)
  moreover have "distinct (xss 3)" using fam_distinct [OF f, of 3] by simp
  ultimately show ?thesis using assms(2) by (simp add: distinct_card)
qed

lemma inv_upd:
  assumes i: "sched_inv idle sids T s xss" and r: "ready_to_run s' sids xss" and c: "thread_c s' = thread_c s"
    and sf: "sem_frame s s'"
  shows "sched_inv idle sids T s' xss"
proof -
  have "sems_ok s sids xss" "members xss (16 + length sids) = T" "idle \<in> set (xss 0) \<union> set (xss 1)" "xss 0 = [thread_c s']"
    using inv_facts [OF i] c by simp_all
  then show ?thesis using inv_stay [OF r _ sf] by blast
qed

text \<open>The sleepers that wake up change lists, nothing else does.\<close>

lemma inv_tick:
  assumes i: "sched_inv idle sids T s xss" and n: "card T < 2 ^ 31"
  shows "\<exists>s' xss'. timer_interrupt kregs s = Some s' \<and> sched_inv idle sids T s' xss'"
proof -
  have r: "ready_to_run s sids xss" and so: "sems_ok s sids xss" and m: "members xss (16 + length sids) = T"
    and id: "idle \<in> set (xss 0) \<union> set (xss 1)" and x0: "xss 0 = [thread_c s]" by (rule inv_facts [OF i])+
  let ?ys = "a_wake (due (clock_nolatch s) s) [] (xss 3) xss"
  from timer_spec [OF r inv_sleepers [OF i n]] obtain s' where
    1: "timer_interrupt kregs s = Some s'" "ready_to_run s' sids (a_tick s xss)"
      "thread_c s' = (if tick_switches s xss then a_next (thread_c s) ?ys else thread_c s)" "s_sems s' = s_sems s" by blast
  have sy: "sems_ok s sids ?ys" by (rule a_switch_sems [OF so]) (simp_all add: a_wake_def)
  have my: "members ?ys (16 + length sids) = T" unfolding a_wake_def m [symmetric] by (rule members_upd2) auto
  have idy: "idle \<in> set (?ys 0) \<union> set (?ys 1)" using id by (auto simp: a_wake_def)
  have y0: "?ys 0 = [thread_c s]" using x0 by (simp add: a_wake_def)
  have sf: "sem_frame s s'" using 1(4) by simp
  show ?thesis
  proof (cases "tick_switches s xss \<and> ?ys 1 \<noteq> []")
    case True
    have "ready_to_run s' sids (a_switch ?ys)" using 1(2) True by (simp add: a_tick_def Let_def)
    from inv_switch [OF this sy sf my idy] True 1(1,3) show ?thesis by (auto simp: a_next_def)
  next
    case False
    have "ready_to_run s' sids ?ys" using 1(2) False by (auto simp: a_tick_def Let_def a_switch_def split: if_splits)
    moreover have "?ys 0 = [thread_c s']" using 1(3) False y0 by (auto simp: a_next_def)
    ultimately show ?thesis using inv_stay [OF _ sy sf my idy] 1(1) by blast
  qed
qed

lemma inv_slice:
  assumes i: "sched_inv idle sids T s xss"
  shows "\<exists>out s' xss'. time_slice_end n s = Some (out, s') \<and> sched_inv idle sids T s' xss'"
proof -
  have r: "ready_to_run s sids xss" and so: "sems_ok s sids xss" and m: "members xss (16 + length sids) = T"
    and id: "idle \<in> set (xss 0) \<union> set (xss 1)" and x0: "xss 0 = [thread_c s]" by (rule inv_facts [OF i])+
  let ?sl = "n - nsec_last s \<ge> THREAD_TIME_SLICE"
  from time_slice_end_spec [OF r, of n] obtain out s' where
    1: "time_slice_end n s = Some (out, s')" "ready_to_run s' sids (if ?sl then a_switch xss else xss)"
      "thread_c s' = (if ?sl then a_next (thread_c s) xss else thread_c s)" "s_sems s' = s_sems s" by blast
  have sf: "sem_frame s s'" using 1(4) by simp
  show ?thesis
  proof (cases "?sl \<and> xss 1 \<noteq> []")
    case True
    then have "ready_to_run s' sids (a_switch xss)" using 1(2) by simp
    from inv_switch [OF this so sf m id] True 1(1,3) show ?thesis by (auto simp: a_next_def)
  next
    case False
    have "ready_to_run s' sids xss" using 1(2) False by (auto simp: a_switch_def split: if_splits)
    moreover have "thread_c s' = thread_c s" using 1(3) False by (auto simp: a_next_def)
    ultimately show ?thesis using inv_upd [OF i _ _ sf] 1(1) by blast
  qed
qed

text \<open>A thread other than the idle one that gives up the CPU finds the idle thread ready.\<close>

lemma inv_ready:
  "sched_inv idle sids T s xss \<Longrightarrow> thread_c s \<noteq> idle \<Longrightarrow> idle \<in> set (xss 1)"
  by (auto simp: sched_inv_def)

lemma inv_block:
  assumes i: "sched_inv idle sids T s xss" and k: "kernel s" and c: "thread_c s \<noteq> idle" and j: "0 < j" "j < 16"
  shows "\<exists>s' xss'. block (thread_c s) (of_nat j) s = Some (True, s') \<and> sched_inv idle sids T s' xss' \<and>
    thread_c s' = hd (xss 1) \<and> frame2 s s'"
proof -
  have r: "ready_to_run s sids xss" and so: "sems_ok s sids xss" and m: "members xss (16 + length sids) = T"
    and id: "idle \<in> set (xss 1)" and x0: "xss 0 = [thread_c s]" using inv_facts [OF i] inv_ready [OF i c] by simp_all
  let ?ys = "a_move 0 j (thread_c s) xss"
  have ne: "?ys 1 \<noteq> []" "hd (?ys 1) = hd (xss 1)" using id j by (auto simp: a_move_def hd_append)
  from block_spec [OF r k, of 0 j "thread_c s"] j x0 ne obtain s' where
    1: "block (thread_c s) (of_nat j) s = Some (True, s')" "frame2 s s'" "s_sems s' = s_sems s"
      "ready_to_run s' sids (a_switch ?ys)" "thread_c s' = hd (xss 1)" by (auto simp: a_next_def)
  have "sems_ok s sids ?ys" by (rule a_switch_sems [OF so]) (use j in \<open>simp_all add: a_move_def\<close>)
  moreover have "members ?ys (16 + length sids) = T"
    unfolding m [symmetric] a_move_def if_not_P [OF less_imp_neq [OF j(1)]] by (rule members_upd2) (use j x0 in auto)
  moreover have "idle \<in> set (?ys 0) \<union> set (?ys 1)" using id j by (auto simp: a_move_def)
  moreover have "thread_c s' = hd (?ys 1)" using 1(5) ne by simp
  ultimately have "sched_inv idle sids T s' (a_switch ?ys)"
    using 1(3,4) ne by (intro inv_switch [of s' sids ?ys s T idle]) simp_all
  with 1 show ?thesis by blast
qed

lemma inv_nsleep_until:
  assumes i: "sched_inv idle sids T s xss" and k: "kernel s" and c: "thread_c s \<noteq> idle"
  shows "\<exists>s' xss'. nsleep_until (thread_c s) n s = Some (clock s < n, s') \<and> sched_inv idle sids T s' xss'"
proof (cases "clock s < n")
  case False
  then show ?thesis using i by (auto simp: nsleep_until_def)
next
  case True
  let ?s = "set_thread (thread_c s) (\<lambda>x. x\<lparr>th_sleep_time := n\<rparr>) s"
  have r: "ready_to_run s sids xss" using i by (simp add: sched_inv_def)
  have "ready_to_run ?s sids xss" by (rule ready_upd [OF r]) simp_all
  then have i': "sched_inv idle sids T ?s xss" using inv_upd [OF i, of ?s] by simp
  have "kernel ?s" using k by (simp add: kernel_def)
  from inv_block [OF i' this, of 3] c True show ?thesis by (auto simp: nsleep_until_def not_le)
qed

lemma inv_sem_lock:
  assumes i: "sched_inv idle sids T s xss" and k: "kernel s" and c: "thread_c s \<noteq> idle" and q: "q \<in> set sids"
  shows "\<exists>sw s' xss'. sem_lock q s = Some (sw, s') \<and> sched_inv idle sids T s' xss'"
proof -
  have r: "ready_to_run s sids xss" and so: "sems_ok s sids xss" and m: "members xss (16 + length sids) = T"
    and id: "idle \<in> set (xss 1)" and x0: "xss 0 = [thread_c s]" using inv_facts [OF i] inv_ready [OF i c] by simp_all
  have d: "distinct sids" using r by (simp add: ready_to_run_def base_def fam_def)
  obtain j where j: "j < length sids" "sids ! j = q" using q by (auto simp: in_set_conv_nth)
  show ?thesis
  proof (cases "sem_thr_c (s_sems s q) < sem_max_thr_c (s_sems s q)")
    case True
    from sem_lock_free [OF r True] obtain s' where
      1: "sem_lock q s = Some (False, s')" "ready_to_run s' sids xss" "thread_c s' = thread_c s"
        "s_sems s' = (s_sems s)(q := (s_sems s q)\<lparr>sem_thr_c := sem_thr_c (s_sems s q) + 1\<rparr>)" by blast
    have "xss (16 + j) = []" using so j True by (auto simp: sems_ok_def)
    moreover have "sem_thr_c (s_sems s q) + 1 \<le> sem_max_thr_c (s_sems s q)"
      using True by (rule inc_le)
    ultimately have "sems_ok s' sids xss"
      using so j d 1(4) by (auto simp: sems_ok_def nth_eq_iff_index_eq)
    then show ?thesis using i 1 by (auto simp: sched_inv_def)
  next
    case False
    then have full: "sem_thr_c (s_sems s (sids ! j)) = sem_max_thr_c (s_sems s (sids ! j))"
      using so j by (auto simp: sems_ok_def)
    let ?ys = "xss(0 := [], 16 + j := xss (16 + j) @ [thread_c s])"
    from sem_lock_full [OF r k x0 j(1) full] obtain s' where
      1: "sem_lock q s = Some (xss 1 \<noteq> [], s')" "ready_to_run s' sids (a_switch ?ys)"
        "thread_c s' = a_next (thread_c s) xss" "sem_frame s s'" unfolding j(2) by blast
    have so': "sems_ok s sids ?ys" using so full by (auto simp: sems_ok_def)
    have m': "members ?ys (16 + length sids) = T" unfolding m [symmetric] using j x0 by (intro members_upd2) auto
    have id': "idle \<in> set (?ys 0) \<union> set (?ys 1)" using id by simp
    have ne: "?ys 1 \<noteq> []" "thread_c s' = hd (?ys 1)" using id 1(3) by (auto simp: a_next_def)
    have "sched_inv idle sids T s' (a_switch ?ys)" by (rule inv_switch [OF 1(2) so' 1(4) m' id' ne])
    with 1(1) show ?thesis by blast
  qed
qed

lemma inv_sem_unlock:
  assumes i: "sched_inv idle sids T s xss" and k: "kernel s" and q: "q \<in> set sids"
  shows "\<exists>sw s' xss'. sem_unlock q s = Some (sw, s') \<and> sched_inv idle sids T s' xss'"
proof -
  have r: "ready_to_run s sids xss" and so: "sems_ok s sids xss" and m: "members xss (16 + length sids) = T"
    and id: "idle \<in> set (xss 0) \<union> set (xss 1)" and x0: "xss 0 = [thread_c s]" by (rule inv_facts [OF i])+
  have d: "distinct sids" using r by (simp add: ready_to_run_def base_def fam_def)
  obtain j where j: "j < length sids" "sids ! j = q" using q by (auto simp: in_set_conv_nth)
  show ?thesis
  proof (cases "xss (16 + j)")
    case Nil
    from sem_unlock_free [where xss = xss, OF r j(1) Nil] obtain s' where
      1: "sem_unlock q s = Some (False, s')" "ready_to_run s' sids xss" "thread_c s' = thread_c s"
        "s_sems s' = (if sem_thr_c (s_sems s q) = 0 then s_sems s
          else (s_sems s)(q := (s_sems s q)\<lparr>sem_thr_c := sem_thr_c (s_sems s q) - 1\<rparr>))" unfolding j(2) by blast
    have "sem_thr_c (s_sems s q) \<noteq> 0 \<Longrightarrow> sem_thr_c (s_sems s q) - 1 \<le> sem_max_thr_c (s_sems s q)"
      using so j word_dec_le by (auto simp: sems_ok_def)
    then have "sems_ok s' sids xss"
      using so j d Nil 1(4) by (auto simp: sems_ok_def nth_eq_iff_index_eq)
    then show ?thesis using i 1 by (auto simp: sched_inv_def)
  next
    case (Cons t ts)
    let ?ys = "xss(16 + j := ts, 1 := xss 1 @ [t])"
    from sem_unlock_wake [where xss = xss, OF r k x0 j(1) Cons] obtain s' where
      1: "sem_unlock q s = Some (xss 1 = [], s')" "ready_to_run s' sids (if xss 1 = [] then a_switch ?ys else ?ys)"
        "thread_c s' = (if xss 1 = [] then t else thread_c s)" "sem_frame s s'" unfolding j(2) by blast
    have so': "sems_ok s sids ?ys" using so Cons by (auto simp: sems_ok_def)
    have m': "members ?ys (16 + length sids) = T" unfolding m [symmetric] using j Cons by (intro members_upd2) auto
    have id': "idle \<in> set (?ys 0) \<union> set (?ys 1)" using id j by auto
    show ?thesis
    proof (cases "xss 1 = []")
      case True
      then have "ready_to_run s' sids (a_switch ?ys)" "?ys 1 \<noteq> []" "thread_c s' = hd (?ys 1)" using 1 by simp_all
      from inv_switch [OF this(1) so' 1(4) m' id' this(2,3)] 1(1) show ?thesis by blast
    next
      case False
      have "?ys 0 = [thread_c s']" using 1(3) False x0 by simp
      moreover have "ready_to_run s' sids ?ys" using 1(2) False by simp
      ultimately show ?thesis using inv_stay [OF _ so' 1(4) m' id'] 1(1) by blast
    qed
  qed
qed

section \<open>Properties\<close>

text \<open>
  A state for the witnesses: thread 16 runs, 64 (the idle thread) and 80 are ready, \<open>zs\<close> sleep
  until 5 and 144 waits at the full semaphore 4096.
\<close>

definition ex_xss :: "ptr list \<Rightarrow> nat \<Rightarrow> ptr list" where
  "ex_xss zs i = (if i = 0 then [16] else if i = 1 then [64, 80] else if i = 3 then zs
     else if i = 16 then [144] else [])"

definition ex_thread :: "u8 \<Rightarrow> thread" where
  "ex_thread st = \<lparr>th_regs = kernel_regs, th_time = 0, th_state = st, th_proc = 0, th_stack_start = 0,
     th_stack_size = STACK_INITIAL_SIZE, th_kstack_start = 0, th_kstack_size = 0, th_sleep_time = 5,
     th_process_alive = True, th_name = None\<rparr>"

definition ex_sched :: "ptr list \<Rightarrow> sched" where
  "ex_sched zs = \<lparr>s_nodes = ex_nodes, t_list = \<lambda>i. if i < 16 then ex_list (ex_xss zs i) else new_list,
     s_threads = \<lambda>t. ex_thread (if t = 16 then 0 else if t = 64 \<or> t = 80 then 1 else if t = 144 then 128 else 3),
     s_sems = \<lambda>q. \<lparr>sem_max_thr_c = 1, sem_thr_c = 1, sem_waiting = ex_list [144]\<rparr>,
     s_procs = \<lambda>p. \<lparr>pv_uid = 0, pv_cr3 = 0\<rparr>, thread_c = 16, thread_post_c = 0, thread_post_flag = False,
     nsec_last = 0, irq_c = 0, init_done = True, cpu = kernel_regs, cr3 = 0, clock = 1, clock_nolatch = 6000000\<rparr>"

lemma ex_inv:
  assumes z: "zs = [] \<or> zs = [112]"
  shows "sched_inv 64 [4096] (set ([16, 64, 80, 144] @ zs)) (ex_sched zs) (ex_xss zs)"
proof -
  have rep: "list_rep ex_nodes (ex_list (ex_xss zs i)) (ex_xss zs i)" for i
    using z by (auto simp: list_rep_def ex_list_def ex_nodes_def ex_xss_def)
  have al: "all_lists (ex_sched zs) [4096] i = ex_list (ex_xss zs i)" if "i < 17" for i
    using that by (cases "i = 16") (auto simp: all_lists_def ex_sched_def ex_xss_def)
  have dis: "set (ex_xss zs i) \<inter> set (ex_xss zs j) = {}" if "i \<noteq> j" for i j
    using z that by (auto simp: ex_xss_def)
  have "s_nodes (ex_sched zs) = ex_nodes" by (simp add: ex_sched_def)
  then have fam: "fam (ex_sched zs) [4096] (ex_xss zs)"
    by (simp add: fam_def family_def al rep dis)
  have states: "states_ok (ex_sched zs) [4096] (ex_xss zs)"
    unfolding states_ok_def
  proof (intro allI impI ballI)
    fix i t assume "i < 16 + length [4096 :: ptr]" "t \<in> set (ex_xss zs i)"
    then show "th_state (s_threads (ex_sched zs) t) = list_state i"
      using z by (auto simp: ex_xss_def ex_sched_def ex_thread_def list_state_def split: if_splits)
  qed
  have b: "base (ex_sched zs) [4096] (ex_xss zs)"
    using fam states by (simp add: base_def ex_sched_def cache_ok_def ex_list_def)
  have r: "ready_to_run (ex_sched zs) [4096] (ex_xss zs)"
    using b by (simp add: ready_to_run_def current_ok_def ex_sched_def ex_thread_def ex_xss_def)
  have "sems_ok (ex_sched zs) [4096] (ex_xss zs)" by (simp add: sems_ok_def ex_sched_def)
  moreover have "members (ex_xss zs) 17 = set ([16, 64, 80, 144] @ zs)"
  proof (intro equalityI subsetI)
    fix x assume "x \<in> members (ex_xss zs) 17"
    then show "x \<in> set ([16, 64, 80, 144] @ zs)" by (auto simp: members_def ex_xss_def split: if_splits)
  next
    fix x assume "x \<in> set ([16, 64, 80, 144] @ zs)"
    then have "x \<in> set (ex_xss zs 0) \<or> x \<in> set (ex_xss zs 1) \<or> x \<in> set (ex_xss zs 3) \<or> x \<in> set (ex_xss zs 16)"
      by (auto simp: ex_xss_def)
    then show "x \<in> members (ex_xss zs) 17" 
      by (elim disjE) (erule membersI [rotated], simp)+
  qed
  ultimately show ?thesis using r by (simp add: sched_inv_def ex_xss_def ex_sched_def)
qed

lemma ex_kernel: "kernel (ex_sched zs)"
  by (simp add: kernel_def ex_sched_def kernel_regs_def)

lemma inv_sys_block:
  assumes i: "sched_inv idle sids T s xss" and k: "kernel s" and c: "thread_c s \<noteq> idle"
  shows "\<exists>sw s' xss'. sys_thread_block reason n s = Some (sw, s') \<and> sched_inv idle sids T s' xss'"
proof (cases "reason > T_REASON_MAX \<or> reason = 0 \<or> reason = 3")
  case True
  then show ?thesis using inv_nsleep_until [OF i k c, of n] i by (auto simp: sys_thread_block_def)
next
  case False
  then have "unat reason \<le> 3" "unat reason \<noteq> 0" by (auto simp: T_REASON_MAX_def word_le_nat_alt unat_eq_zero not_less)
  then have j: "0 < unat reason" "unat reason < 16" by simp_all
  have "ucast reason = (of_nat (unat reason) :: u8)" by (metis of_nat_unat)
  moreover have "sys_thread_block reason n s = block (thread_c s) (ucast reason) s"
    using False by (simp add: sys_thread_block_def)
  ultimately show ?thesis using inv_block [OF i k c j] by auto
qed

lemma inv_step:
  assumes i: "sched_inv idle sids T s xss" and n: "card T < 2 ^ 31" and st: "sched_step idle sids s s'"
  shows "\<exists>xss'. sched_inv idle sids T s' xss'"
  using st
proof cases
  case (execute c m n)
  have r: "ready_to_run s sids xss" by (rule inv_facts [OF i])
  have "ready_to_run s' sids xss" unfolding execute by (rule ready_upd [OF r]) (simp_all, intro ext fam_cong, simp_all)
  with inv_upd [OF i this] execute show ?thesis by auto
next
  case rest_unlock
  then show ?thesis using inv_upd [OF i, of s'] inv_facts(1) [OF i] by auto
next
  case (rest_timer n out)
  then show ?thesis using inv_slice [OF i, of n] by auto
next
  case (tick kregs)
  then show ?thesis using inv_tick [OF i n, of kregs] by auto
next
  case (sys_block reason n sw)
  then show ?thesis using inv_sys_block [OF i sys_block(1,2), of reason n] by auto
next
  case (sleep_call n sw)
  then show ?thesis using inv_nsleep_until [OF i sleep_call(1,2), of "clock s + n"] by (auto simp: nsleep_def)
next
  case (sem_lock_call q sw)
  then show ?thesis using inv_sem_lock [OF i sem_lock_call(1-3)] by auto
next
  case (sem_try_call q got)
  have r: "ready_to_run s sids xss" and so: "sems_ok s sids xss" by (rule inv_facts [OF i])+
  have d: "distinct sids" using r by (simp add: ready_to_run_def base_def fam_def)
  obtain j where j: "j < length sids" "sids ! j = q" using sem_try_call(2) by (auto simp: in_set_conv_nth)
  from sem_try_lock_spec [OF r, of q] sem_try_call(3) have
    1: "ready_to_run s' sids xss" "thread_c s' = thread_c s" "s_sems s' = (if sem_thr_c (s_sems s q) < sem_max_thr_c (s_sems s q)
      then (s_sems s)(q := (s_sems s q)\<lparr>sem_thr_c := sem_thr_c (s_sems s q) + 1\<rparr>) else s_sems s)" by auto
  have "sem_thr_c (s_sems s q) < sem_max_thr_c (s_sems s q) \<Longrightarrow> xss (16 + j) = []" using so j by (auto simp: sems_ok_def)
  then have "sems_ok s' sids xss"
    using so j d 1(3) by (auto simp: sems_ok_def nth_eq_iff_index_eq inc_le)
  then show ?thesis using i 1 by (auto simp: sched_inv_def)
next
  case (sem_unlock_call q sw)
  then show ?thesis using inv_sem_unlock [OF i sem_unlock_call(1,2)] by auto
qed

lemma inv_run:
  "sched_run idle sids s s' \<Longrightarrow> card T < 2 ^ 31 \<Longrightarrow> sched_inv idle sids T s xss \<Longrightarrow> \<exists>xss'. sched_inv idle sids T s' xss'"
  by (induction rule: sched_run.induct) (blast dest: inv_step)+

text \<open>
  C19: the scheduler's invariant. Along every run of system calls, sleeps, semaphore operations,
  timer ticks and resumed operations, the thread lists and waiting lists stay well-formed and
  disjoint, every thread is in exactly the list its state names and none is lost, exactly the current
  thread is in the running list, the page table root is that of its process, the idle thread can
  run, and a semaphore never has more holders than places, nor waiters while a place is free.
\<close>

theorem sched_run_invariant:
  assumes "sched_inv idle sids T s xss" and "card T < 2 ^ 31" and "sched_run idle sids s s'"
  shows "\<exists>xss'. sched_inv idle sids T s' xss'"
  using inv_run [OF assms(3,2,1)] .

theorem sched_run_invariant_witness:
  "\<exists>xss'. sched_inv 64 [4096] {16, 64, 80, 144} (unlock (ex_sched [])) xss'"
proof -
  have "sched_inv 64 [4096] {16, 64, 80, 144} (ex_sched []) (ex_xss [])" using ex_inv [of "[]"] by simp
  moreover have "sched_run 64 [4096] (ex_sched []) (unlock (ex_sched []))"
    by (rule sched_run.step [OF sched_run.refl rest_unlock])
  ultimately show ?thesis using sched_run_invariant [of 64 "[4096]" "{16, 64, 80, 144}"] by (simp add: card_insert_if)
qed

text \<open>
  C23: the scheduler returns. In every state reachable from a well-formed one, whatever the mode of
  the processor and whichever thread runs, a timer tick returns, and so does the rest of a tick that
  was switched away from. When the processor is in kernel mode, any semaphore can be released, and
  a thread other than the idle one can also block for each of the reasons 1 to 15, sleep, make the
  blocking system call with any arguments, and take any semaphore.
\<close>

theorem sched_no_fault:
  assumes "sched_inv idle sids T s xss" and "card T < 2 ^ 31" and "sched_run idle sids s s'"
  shows "timer_interrupt kregs s' \<noteq> None \<and> time_slice_end n s' \<noteq> None \<and>
    (kernel s' \<longrightarrow> (\<forall>q \<in> set sids. sem_unlock q s' \<noteq> None) \<and>
      (thread_c s' \<noteq> idle \<longrightarrow> nsleep_until (thread_c s') n s' \<noteq> None \<and> sys_thread_block reason n s' \<noteq> None \<and>
        (\<forall>j. 0 < j \<and> j < 16 \<longrightarrow> block (thread_c s') (of_nat j) s' \<noteq> None) \<and> (\<forall>q \<in> set sids. sem_lock q s' \<noteq> None)))"
proof -
  obtain xss' where i: "sched_inv idle sids T s' xss'" using inv_run [OF assms(3,2,1)] by blast
  have "timer_interrupt kregs s' \<noteq> None" "time_slice_end n s' \<noteq> None"
    using inv_tick [OF i assms(2), of kregs] inv_slice [OF i, of n] by auto
  moreover have "sem_unlock q s' \<noteq> None" if "kernel s'" "q \<in> set sids" for q using inv_sem_unlock [OF i that] by auto
  moreover have "nsleep_until (thread_c s') n s' \<noteq> None" if "kernel s'" "thread_c s' \<noteq> idle"
    using inv_nsleep_until [OF i that, of n] by auto
  moreover have "sys_thread_block reason n s' \<noteq> None" if "kernel s'" "thread_c s' \<noteq> idle"
    using inv_sys_block [OF i that, of reason n] by auto
  moreover have "block (thread_c s') (of_nat j) s' \<noteq> None" if "kernel s'" "thread_c s' \<noteq> idle" "0 < j" "j < 16" for j
    using inv_block [OF i that] by auto
  moreover have "sem_lock q s' \<noteq> None" if "kernel s'" "thread_c s' \<noteq> idle" "q \<in> set sids" for q
    using inv_sem_lock [OF i that] by auto
  ultimately show ?thesis by blast
qed

theorem sched_no_fault_witness:
  "timer_interrupt kernel_regs (ex_sched [112]) \<noteq> None \<and> sem_lock 4096 (ex_sched [112]) \<noteq> None"
proof -
  have "sched_inv 64 [4096] {16, 64, 80, 144, 112} (ex_sched [112]) (ex_xss [112])"
    using ex_inv [of "[112]"] by simp
  moreover have "thread_c (ex_sched [112]) \<noteq> 64" by (simp add: ex_sched_def)
  ultimately show ?thesis
    using sched_no_fault [of 64 "[4096]" "{16, 64, 80, 144, 112}" "ex_sched [112]" "ex_xss [112]" "ex_sched [112]" kernel_regs]
      sched_run.refl ex_kernel by (simp add: card_insert_if)
qed

text \<open>
  C20: the timer tick, in every well-formed state. It wakes exactly the sleepers whose time has
  come, in the order in which they went to sleep, and leaves the others asleep. It switches to the first
  ready thread when the time slice is over or when the woken threads find nobody else ready, as in an
  idle system; then the interrupted thread queues up behind all ready threads, and the processor
  continues with the registers of the thread chosen. The interrupted registers are saved in
  the interrupted thread, except after a wake-up that found nobody ready: there the handler itself was
  switched away from, and the context saved is one in kernel mode. No other thread's registers change.
\<close>

theorem timer_tick_correct:
  assumes "ready_to_run s sids xss" and "length (xss T_SLEEP) < 2 ^ 31"
  defines "woken \<equiv> filter (due (clock_nolatch s) s) (xss T_SLEEP)"
  defines "ready \<equiv> xss T_READY @ woken"
  defines "idle_wake \<equiv> xss T_READY = [] \<and> woken \<noteq> []"
  defines "switch \<equiv> (idle_wake \<or> clock_nolatch s - nsec_last s \<ge> THREAD_TIME_SLICE) \<and> ready \<noteq> []"
  shows "\<exists>s'. timer_interrupt kregs s = Some s' \<and>
    ready_to_run s' sids (let ys = xss(T_SLEEP := filter (\<lambda>t. \<not> due (clock_nolatch s) s t) (xss T_SLEEP), T_READY := ready)
      in if switch then a_switch ys else ys) \<and>
    thread_c s' = (if switch then hd ready else thread_c s) \<and>
    cpu s' = (if switch then th_regs (s_threads s' (hd ready)) else cpu s) \<and>
    (if idle_wake then r_cs (th_regs (s_threads s' (thread_c s))) AND 3 = 0 else th_regs (s_threads s' (thread_c s)) = cpu s) \<and>
    (\<forall>t. t \<noteq> thread_c s \<longrightarrow> th_regs (s_threads s' t) = th_regs (s_threads s t))"
proof -
  let ?ys = "a_wake (due (clock_nolatch s) s) [] (xss 3) xss"
  have ys: "?ys 1 = ready" "?ys = xss(3 := filter (\<lambda>t. \<not> due (clock_nolatch s) s t) (xss 3), 1 := ready)"
    by (simp_all add: a_wake_def ready_def woken_def)
  have sw: "tick_switches s xss \<and> ready \<noteq> [] \<longleftrightarrow> switch"
    by (simp add: tick_switches_def switch_def idle_wake_def woken_def)
  from timer_spec [OF assms(1,2), of kregs] obtain s' where
    1: "timer_interrupt kregs s = Some s'" "ready_to_run s' sids (a_tick s xss)"
      "thread_c s' = (if tick_switches s xss then a_next (thread_c s) ?ys else thread_c s)"
      "\<forall>x. x \<noteq> thread_c s \<longrightarrow> th_regs (s_threads s' x) = th_regs (s_threads s x)"
      "if idle_wake then r_cs (th_regs (s_threads s' (thread_c s))) AND 3 = 0 else th_regs (s_threads s' (thread_c s)) = cpu s"
      "cpu s' = (if switch then th_regs (s_threads s' (thread_c s')) else cpu s)"
    unfolding ys(1) sw idle_wake_def woken_def by blast
  have t: "thread_c s' = (if switch then hd ready else thread_c s)" using 1(3) unfolding a_next_def ys(1) using sw by auto
  have "a_tick s xss = (let ys = xss(3 := filter (\<lambda>t. \<not> due (clock_nolatch s) s t) (xss 3), 1 := ready) in if switch then a_switch ys else ys)"
    using sw unfolding a_tick_def ys(2) Let_def by (auto simp: a_switch_def)
  with 1 t show ?thesis by auto
qed

text \<open>An idle system: only the idle thread can run, and thread 112 is due.\<close>

definition ex_idle_xss :: "nat \<Rightarrow> ptr list" where
  "ex_idle_xss i = (if i = 0 then [64] else if i = 3 then [112] else [])"

definition ex_idle :: sched where
  "ex_idle = (ex_sched [])\<lparr>t_list := (\<lambda>i. if i < 16 then ex_list (ex_idle_xss i) else new_list),
     s_threads := (\<lambda>t. ex_thread (if t = 64 then 0 else 3)), thread_c := 64\<rparr>"

lemma ex_idle_ready: "ready_to_run ex_idle [] ex_idle_xss"
proof -
  have rep: "list_rep ex_nodes (ex_list (ex_idle_xss i)) (ex_idle_xss i)" for i
    by (auto simp: list_rep_def ex_list_def ex_nodes_def ex_idle_xss_def)
  have al: "all_lists ex_idle [] i = ex_list (ex_idle_xss i)" if "i < 16" for i
    using that by (simp add: all_lists_def ex_idle_def)
  have dis: "set (ex_idle_xss i) \<inter> set (ex_idle_xss j) = {}" if "i \<noteq> j" for i j
    using that by (auto simp: ex_idle_xss_def)
  have "fam ex_idle [] ex_idle_xss"
    by (simp add: fam_def family_def al rep dis) (simp add: ex_idle_def ex_sched_def rep)
  moreover have "states_ok ex_idle [] ex_idle_xss"
    by (auto simp: states_ok_def ex_idle_xss_def ex_idle_def ex_thread_def list_state_def split: if_splits)
  ultimately show ?thesis
    by (simp add: ready_to_run_def base_def current_ok_def cache_ok_def)
      (simp add: ex_idle_def ex_sched_def ex_thread_def ex_idle_xss_def ex_list_def)
qed

theorem timer_tick_correct_witness:
  "(\<exists>s'. timer_interrupt kernel_regs (ex_sched [112]) = Some s' \<and>
     th_regs (s_threads s' 16) = kernel_regs \<and> cpu s' = th_regs (s_threads s' 64)) \<and>
   (\<exists>s'. timer_interrupt kernel_regs ex_idle = Some s' \<and> thread_c s' = 112 \<and> cpu s' = th_regs (s_threads s' 112))"
proof
  have r: "ready_to_run (ex_sched [112]) [4096] (ex_xss [112])"
    by (rule inv_facts(1) [OF ex_inv]) simp
  have x: "ex_xss [112] 1 = [64, 80]" "length (ex_xss [112] 3) < 2 ^ 31" by (simp_all add: ex_xss_def)
  have "thread_c (ex_sched [112]) = 16" "cpu (ex_sched [112]) = kernel_regs"
    "clock_nolatch (ex_sched [112]) - nsec_last (ex_sched [112]) \<ge> THREAD_TIME_SLICE"
    by (simp_all add: ex_sched_def THREAD_TIME_SLICE_def)
  then show "\<exists>s'. timer_interrupt kernel_regs (ex_sched [112]) = Some s' \<and>
     th_regs (s_threads s' 16) = kernel_regs \<and> cpu s' = th_regs (s_threads s' 64)"
    using timer_tick_correct [OF r x(2), of kernel_regs] x(1) by auto
next
  have x: "ex_idle_xss 1 = []" "ex_idle_xss 3 = [112]" "length (ex_idle_xss 3) < 2 ^ 31" by (simp_all add: ex_idle_xss_def)
  have "due (clock_nolatch ex_idle) ex_idle 112" by (simp add: due_def ex_idle_def ex_sched_def ex_thread_def)
  then show "\<exists>s'. timer_interrupt kernel_regs ex_idle = Some s' \<and> thread_c s' = 112 \<and> cpu s' = th_regs (s_threads s' 112)"
    using timer_tick_correct [OF ex_idle_ready x(3), of kernel_regs] x(1,2) by auto
qed

text \<open>Preemptions: timer ticks at the end of a time slice, with anything executed in between.\<close>

inductive preempted :: "nat \<Rightarrow> sched \<Rightarrow> sched \<Rightarrow> bool" where
  none: "preempted 0 s s"
| more: "preempted k s s' \<Longrightarrow> n - nsec_last s' \<ge> THREAD_TIME_SLICE \<Longrightarrow>
    timer_interrupt kregs (s'\<lparr>cpu := c, clock := m, clock_nolatch := n\<rparr>) = Some s'' \<Longrightarrow> preempted (Suc k) s s''"

lemma preempt_once:
  assumes r: "ready_to_run s sids xss" and x: "xss 3 = []" "xss 0 = [thread_c s]" "n - nsec_last s \<ge> THREAD_TIME_SLICE"
  shows "\<exists>s' xss'. timer_interrupt kregs (s\<lparr>cpu := c, clock := m, clock_nolatch := n\<rparr>) = Some s' \<and>
    ready_to_run s' sids xss' \<and> xss' 3 = [] \<and> xss' 0 = [thread_c s'] \<and> xss' 0 @ xss' 1 = rotate1 (xss 0 @ xss 1)"
proof -
  let ?s = "s\<lparr>cpu := c, clock := m, clock_nolatch := n\<rparr>"
  have r': "ready_to_run ?s sids xss" by (rule ready_upd [OF r]) (simp_all, intro ext fam_cong, simp_all)
  have ts: "tick_switches ?s xss" using x(3) by (simp add: tick_switches_def)
  let ?ys = "a_wake (due (clock_nolatch ?s) ?s) [] (xss 3) xss"
  have ys: "?ys 0 = xss 0" "?ys 1 = xss 1" "?ys 3 = []" using x(1) by (simp_all add: a_wake_def)
  have "length (xss 3) < 2 ^ 31" using x(1) by simp
  from timer_spec [OF r' this, of kregs] ts obtain s' where
    1: "timer_interrupt kregs ?s = Some s'" "ready_to_run s' sids (a_switch ?ys)"
      "thread_c s' = a_next (thread_c s) ?ys" unfolding a_tick_def by auto
  have "a_switch ?ys 3 = []" "a_switch ?ys 0 = [thread_c s']" "a_switch ?ys 0 @ a_switch ?ys 1 = rotate1 (xss 0 @ xss 1)"
    using ys x(2) 1(3) by (cases "xss 1"; simp add: a_switch_def a_next_def)+
  with 1 show ?thesis by blast
qed

lemma preempted_rotates:
  assumes "preempted k s s'" "ready_to_run s sids xss" "xss 3 = []" "xss 0 = [thread_c s]"
  shows "\<exists>xss'. ready_to_run s' sids xss' \<and> xss' 3 = [] \<and> xss' 0 = [thread_c s'] \<and>
    xss' 0 @ xss' 1 = rotate k (xss 0 @ xss 1)"
  using assms
proof (induction rule: preempted.induct)
  case (none s)
  then show ?case by auto
next
  case (more k s s' n kregs m c s'')
  from more.IH [OF more.prems] obtain ys where
    ys: "ready_to_run s' sids ys" "ys 3 = []" "ys 0 = [thread_c s']" "ys 0 @ ys 1 = rotate k (xss 0 @ xss 1)" by blast
  from preempt_once [where kregs = kregs and c = c and m = m, OF ys(1-3) more.hyps(2)] more.hyps(3) obtain xss' where
    "ready_to_run s'' sids xss'" "xss' 3 = []" "xss' 0 = [thread_c s'']" "xss' 0 @ xss' 1 = rotate1 (ys 0 @ ys 1)" by auto
  then show ?case unfolding ys(4) rotate_Suc [symmetric] by blast
qed

lemma preempted_exists:
  assumes "ready_to_run s sids xss" "xss 3 = []" "xss 0 = [thread_c s]"
  shows "\<exists>s'. preempted k s s'"
proof (induction k)
  case 0
  show ?case using preempted.none by blast
next
  case (Suc k)
  then obtain s' where p: "preempted k s s'" by blast
  from preempted_rotates [OF p assms] obtain ys where
    ys: "ready_to_run s' sids ys" "ys 3 = []" "ys 0 = [thread_c s']" by blast
  have n: "(nsec_last s' + THREAD_TIME_SLICE) - nsec_last s' \<ge> THREAD_TIME_SLICE" by simp
  from preempt_once [where kregs = kernel_regs and c = "cpu s'" and m = "clock s'", OF ys n] obtain s'' where
    "timer_interrupt kernel_regs (s'\<lparr>cpu := cpu s', clock := clock s', clock_nolatch := nsec_last s' + THREAD_TIME_SLICE\<rparr>) = Some s''"
    by blast
  with preempted.more [OF p n] show ?case by blast
qed

text \<open>
  C21: round robin. With nobody asleep, after \<open>k\<close> time slices the CPU runs the thread that was in
  place \<open>k\<close> of the queue that starts with the running thread, and goes around: every ready thread
  runs again within as many slices as there are threads, and \<open>k\<close> slices always do end.
\<close>

theorem round_robin:
  assumes "ready_to_run s sids xss" and "xss T_SLEEP = []" and "xss T_RUNNING = [thread_c s]"
  shows "(\<exists>s'. preempted k s s') \<and>
    (\<forall>s'. preempted k s s' \<longrightarrow>
      thread_c s' = (xss T_RUNNING @ xss T_READY) ! (k mod length (xss T_RUNNING @ xss T_READY)))"
proof (intro conjI allI impI)
  show "\<exists>s'. preempted k s s'" by (rule preempted_exists [OF assms])
next
  fix s' assume "preempted k s s'"
  from preempted_rotates [OF this assms] obtain ys :: "nat \<Rightarrow> ptr list" where
    ys: "ys 0 = [thread_c s']" "ys 0 @ ys 1 = rotate k (xss 0 @ xss 1)" by blast
  have h: "thread_c s' = hd (rotate k (xss 0 @ xss 1))" using ys(1) unfolding ys(2) [symmetric] by simp
  have "xss 0 @ xss 1 \<noteq> []" using assms(3) by simp
  then show "thread_c s' = (xss 0 @ xss 1) ! (k mod length (xss 0 @ xss 1))"
    unfolding h by (rule hd_rotate_conv_nth)
qed

theorem round_robin_witness:
  "\<exists>s'. preempted 2 (ex_sched []) s' \<and> thread_c s' = 80"
proof -
  have r: "ready_to_run (ex_sched []) [4096] (ex_xss [])" by (rule inv_facts(1) [OF ex_inv]) simp
  have x: "ex_xss [] 3 = []" "ex_xss [] 0 = [thread_c (ex_sched [])]" by (simp_all add: ex_xss_def ex_sched_def)
  have m: "(ex_xss [] 0 @ ex_xss [] 1) ! (2 mod length (ex_xss [] 0 @ ex_xss [] 1)) = 80"
    supply One_nat_def [simp] by (simp add: ex_xss_def)
  from round_robin [OF r x, of 2] show ?thesis unfolding m by blast
qed

text \<open>
  C22: a contended semaphore. A thread that locks a full semaphore queues up behind the waiting
  ones and gives up the CPU; an unlock hands its place to the one that has waited longest, which
  becomes the last ready thread (and runs at once if it is the only one); the holder count stays the same.
\<close>

theorem semaphore_fifo:
  assumes "ready_to_run s sids xss" and "kernel s" and "xss T_RUNNING = [thread_c s]" and "j < length sids"
    and "sem_thr_c (s_sems s (sids ! j)) = sem_max_thr_c (s_sems s (sids ! j))"
  shows "(\<exists>s' ys. sem_lock (sids ! j) s = Some (xss T_READY \<noteq> [], s') \<and> ready_to_run s' sids ys \<and>
      ys (16 + j) = xss (16 + j) @ [thread_c s] \<and> sem_thr_c (s_sems s' (sids ! j)) = sem_thr_c (s_sems s (sids ! j)) \<and>
      (xss T_READY \<noteq> [] \<longrightarrow> thread_c s' = hd (xss T_READY))) \<and>
    (\<forall>t ts. xss (16 + j) = t # ts \<longrightarrow> (\<exists>s' ys. sem_unlock (sids ! j) s = Some (xss T_READY = [], s') \<and>
      ready_to_run s' sids ys \<and> ys (16 + j) = ts \<and> sem_thr_c (s_sems s' (sids ! j)) = sem_thr_c (s_sems s (sids ! j)) \<and>
      (if xss T_READY = [] then thread_c s' = t else thread_c s' = thread_c s \<and> ys T_READY = xss T_READY @ [t])))"
proof (intro conjI allI impI)
  from sem_lock_full [OF assms] obtain s' where
    1: "sem_lock (sids ! j) s = Some (xss 1 \<noteq> [], s')"
      "ready_to_run s' sids (a_switch (xss(0 := [], 16 + j := xss (16 + j) @ [thread_c s])))"
      "thread_c s' = a_next (thread_c s) xss" "sem_frame s s'" by blast
  show "\<exists>s' ys. sem_lock (sids ! j) s = Some (xss T_READY \<noteq> [], s') \<and> ready_to_run s' sids ys \<and>
      ys (16 + j) = xss (16 + j) @ [thread_c s] \<and> sem_thr_c (s_sems s' (sids ! j)) = sem_thr_c (s_sems s (sids ! j)) \<and>
      (xss T_READY \<noteq> [] \<longrightarrow> thread_c s' = hd (xss T_READY))"
    using 1 by (intro exI [of _ s'] exI [of _ "a_switch (xss(0 := [], 16 + j := xss (16 + j) @ [thread_c s]))"])
      (simp add: switch_other a_next_def sem_frame_def)
next
  fix t ts assume w: "xss (16 + j) = t # ts"
  from sem_unlock_wake [where xss = xss, OF assms(1-4) w] obtain s' where
    1: "sem_unlock (sids ! j) s = Some (xss 1 = [], s')"
      "ready_to_run s' sids (if xss 1 = [] then a_switch (xss(16 + j := ts, 1 := xss 1 @ [t])) else xss(16 + j := ts, 1 := xss 1 @ [t]))"
      "thread_c s' = (if xss 1 = [] then t else thread_c s)" "sem_frame s s'" by blast
  let ?ys = "if xss 1 = [] then a_switch (xss(16 + j := ts, 1 := xss 1 @ [t])) else xss(16 + j := ts, 1 := xss 1 @ [t])"
  have "?ys (16 + j) = ts" by (simp add: switch_other)
  then show "\<exists>s' ys. sem_unlock (sids ! j) s = Some (xss T_READY = [], s') \<and>
      ready_to_run s' sids ys \<and> ys (16 + j) = ts \<and> sem_thr_c (s_sems s' (sids ! j)) = sem_thr_c (s_sems s (sids ! j)) \<and>
      (if xss T_READY = [] then thread_c s' = t else thread_c s' = thread_c s \<and> ys T_READY = xss T_READY @ [t])"
    using 1 by (intro exI [of _ s'] exI [of _ ?ys]) (simp add: sem_frame_def)
qed

theorem semaphore_fifo_witness:
  "\<exists>s' ys. sem_unlock 4096 (ex_sched []) = Some (False, s') \<and> ready_to_run s' [4096] ys \<and> ys 1 = [64, 80, 144]"
proof -
  have r: "ready_to_run (ex_sched []) [4096] (ex_xss [])" by (rule inv_facts(1) [OF ex_inv]) simp
  have "ex_xss [] 0 = [thread_c (ex_sched [])]" "ex_xss [] 16 = [144]" "ex_xss [] 1 = [64, 80]"
    "sem_thr_c (s_sems (ex_sched []) 4096) = sem_max_thr_c (s_sems (ex_sched []) 4096)"
    by (simp_all add: ex_xss_def ex_sched_def)
  with semaphore_fifo [OF r ex_kernel, of 0] show ?thesis by auto
qed

text \<open>
  a timer handler that is switched away from compares stale times when it resumes. The time
  it read at its start is then older than \<^verbatim>\<open>nsec_last\<close>, the unsigned difference wraps around and
  passes for a full time slice, so it gives up the CPU at once if anybody is ready, and the registers
  kept for its thread are those of the earlier switch, not the present ones.
\<close>

theorem resumed_tick_wraps:
  assumes "ready_to_run s sids xss" and "xss T_READY \<noteq> []"
    and "nsec < nsec_last s" and "unat (nsec_last s - nsec) \<le> 2 ^ 63"
  shows "\<exists>s'. time_slice_end nsec s = Some (Some (th_regs (s_threads s (hd (xss T_READY)))), s') \<and>
    thread_c s' = hd (xss T_READY) \<and> th_regs (s_threads s' (thread_c s)) = th_regs (s_threads s (thread_c s))"
proof -
  have "unat (nsec - nsec_last s) = 2 ^ 64 - unat (nsec_last s - nsec)"
    using assms(3) by (simp add: unat_sub_if_size word_size word_less_nat_alt unat_sub_le)
  then have "unat (nsec - nsec_last s) \<ge> 2 ^ 63" using assms(4) by simp
  then have "nsec - nsec_last s \<ge> THREAD_TIME_SLICE" by (simp add: word_le_nat_alt THREAD_TIME_SLICE_def)
  with time_slice_end_spec [OF assms(1), of nsec] assms(2) show ?thesis by (auto simp: a_next_def)
qed

theorem resumed_tick_wraps_witness:
  "\<exists>s'. time_slice_end 1 ((ex_sched [])\<lparr>nsec_last := 2\<rparr>) = Some (Some kernel_regs, s') \<and> thread_c s' = 64"
proof -
  have r: "ready_to_run (ex_sched []) [4096] (ex_xss [])" by (rule inv_facts(1) [OF ex_inv]) simp
  have r': "ready_to_run ((ex_sched [])\<lparr>nsec_last := 2\<rparr>) [4096] (ex_xss [])"
    by (rule ready_upd [OF r]) simp_all
  have "ex_xss [] 1 = [64, 80]" by (simp add: ex_xss_def)
  with resumed_tick_wraps [OF r', of 1] show ?thesis by (auto simp: ex_sched_def ex_thread_def)
qed

lemma move_to_irq: "move_to t x s = Some s' \<Longrightarrow> irq_c s' = irq_c s"
  by (auto simp: move_to_def tl_append_def tl_remove_p_def Let_def set_thread_def bind_eq_Some_conv split: if_splits prod.splits)

lemma lock_unlock_flag:
  assumes "irq_c s \<noteq> 0" "irq_c s \<noteq> - 1"
  shows "\<not> bit (r_rflags (cpu (unlock (lock s)))) 9"
proof -
  have "irq_c s + 1 \<noteq> 0" using assms(2) by (metis add.inverse_inverse eq_neg_iff_add_eq_0)
  then have "1 \<le> irq_c s + 1" using inc_le [of 0 "irq_c s + 1"] by (simp add: word_gt_0)
  then have "max (irq_c s + 1) 1 = irq_c s + 1" by (rule max_absorb1)
  then have "cpu (unlock (lock s)) = cpu (lock s)"
    using assms(1) by (simp add: unlock_def sti_safe_def Let_def)
  moreover have "r_rflags (cpu (lock s)) = r_rflags (cpu s) AND NOT 0x200"
    by (simp add: lock_def cli_safe_def cli_def)
  moreover have "\<not> bit (NOT 0x200 :: usize) 9" supply One_nat_def [simp] by (simp add: bit_not_iff)
  ultimately show ?thesis by (simp only: bit_and_iff simp_thms)
qed

text \<open>
  the interrupt counter leaks across a switch. A thread that blocks leaves its increment of
  \<^verbatim>\<open>irq_c\<close> behind; the thread that runs next, if it had been preempted by the timer, has no
  \<^verbatim>\<open>unlock\<close> pending, and from then on every lock and unlock of it ends with interrupts disabled.
\<close>

theorem block_leaks_irq:
  assumes "ready_to_run s sids xss" and "kernel s" and "xss T_RUNNING = [thread_c s]" and "xss T_READY \<noteq> []"
    and "irq_c s = 0"
  shows "\<exists>s'. block (thread_c s) 3 s = Some (True, s') \<and> thread_c s' = hd (xss T_READY) \<and> irq_c s' = 1 \<and>
    \<not> bit (r_rflags (cpu (unlock (lock s')))) 9"
proof -
  let ?c = "thread_c s" and ?ys = "a_move 0 3 (thread_c s) xss"
  have "ready_to_run (lock s) sids xss" using assms(1) by simp
  from ready_move [OF this, of 0 3 ?c] assms(3) obtain m where
    m: "move_to ?c 3 (lock s) = Some m" "ready_to_run m sids ?ys" "thread_c m = ?c" "cpu m = cpu (lock s)" by auto
  have km: "kernel m" using assms(2) m(4) by (simp add: kernel_def)
  have y1: "?ys 1 = xss 1" by (simp add: a_move_def)
  from int_sched_spec [OF m(2) km] obtain s' where
    2: "int_sched m = Some (True, s')" "thread_c s' = hd (xss 1)" "irq_c s' = irq_c m"
    using assms(4) by (auto simp: y1 a_next_def)
  have i: "irq_c s' = 1" using 2(3) move_to_irq [OF m(1)] assms(5) by simp
  have "block ?c 3 s = Some (True, s')" using m(1,3) 2(1) by (simp add: block_def finish_def)
  moreover have "\<not> bit (r_rflags (cpu (unlock (lock s')))) 9" by (rule lock_unlock_flag) (simp_all add: i One_nat_def)
  ultimately show ?thesis using 2(2) i by blast
qed

theorem block_leaks_irq_witness:
  "\<exists>s'. block 16 3 (ex_sched []) = Some (True, s') \<and> thread_c s' = 64 \<and> irq_c s' = 1"
proof -
  have r: "ready_to_run (ex_sched []) [4096] (ex_xss [])" by (rule inv_facts(1) [OF ex_inv]) simp
  have "ex_xss [] 0 = [thread_c (ex_sched [])]" "ex_xss [] 1 = [64, 80]" "irq_c (ex_sched []) = 0" "thread_c (ex_sched []) = 16"
    by (simp_all add: ex_xss_def ex_sched_def)
  with block_leaks_irq [OF r ex_kernel] show ?thesis by auto
qed

end
