(* ===== verification/Interrupt_Props.thy ===== *)
theory Interrupt_Props
  imports Interrupts Sched_Props Paging
begin

text \<open>
  Interrupts: registration, the gates, the dispatch against a reference, the clock, and the timer
  vector together with the scheduler.
\<close>

unbundle bit_operations_syntax

section \<open>What the registered handlers do\<close>

text \<open>
  The handlers of the timer vector after start-up: the clock at \<open>t\<close> and the scheduler at \<open>h\<close>, which
  reads the clock. When the scheduler is switched away from inside its handler, the switch goes
  through vector 128, which loads the stacks of the thread that runs.
\<close>

definition kernel_call :: "ptr \<Rightarrow> ptr \<Rightarrow> handler_call" where
  "kernel_call t h f data error regs s =
     (if f = t then (let (out, s) = timer_irq_handler s in Some (False, out, s))
      else if f = h then do {
        r \<leftarrow> regs;
        (switched, out, c) \<leftarrow> sched_time_handler r ((is_sched s)\<lparr>clock_nolatch := time_nsec_nolatch s\<rparr>);
        let s = s\<lparr>is_sched := c\<rparr>;
        Some (switched, out, if switched then load_stacks (Some (cpu c)) s else s)
      }
      else None)"

section \<open>Registration\<close>

lemma find_slot_spec:
  assumes "unat i + k = 15"
  shows "find_slot v i s = (if \<exists>j. i \<le> j \<and> j < 16 \<and> int_handlers s v j = NULL
    then Some (LEAST j. i \<le> j \<and> j < 16 \<and> int_handlers s v j = NULL) else None)"
  using assms
proof (induction k arbitrary: i)
  case 0
  then have i: "i = 15" by (simp add: word_unat_eq_iff)
  have j: "15 \<le> j \<and> j < 16 \<longleftrightarrow> j = 15" for j :: u8
    by (auto simp: word_le_nat_alt word_less_nat_alt word_unat_eq_iff)
  show ?case unfolding i by (subst find_slot.simps) (auto simp: j MAX_HANDLERS_def conj_assoc [symmetric] Least_equality)
next
  case (Suc k)
  have up: "unat (i + 1) + k = 15" "unat (i + 1) = unat i + 1"
  proof -
    have "unat i < 15" using Suc(2) by simp
    then show "unat (i + 1) = unat i + 1" by (simp add: unat_word_ariths)
    with Suc(2) show "unat (i + 1) + k = 15" by simp
  qed
  have lt: "\<not> 15 \<le> i" "i < 16" using Suc(2) by (auto simp: word_le_nat_alt word_less_nat_alt)
  have le: "i \<le> j \<longleftrightarrow> j = i \<or> i + 1 \<le> j" for j using up(2) by (auto simp: word_le_nat_alt word_unat_eq_iff)
  show ?case
  proof (cases "int_handlers s v i = NULL")
    case True
    have "(LEAST j. i \<le> j \<and> j < 16 \<and> int_handlers s v j = NULL) = i" by (rule Least_equality) (use True lt in auto)
    then show ?thesis using True lt by (subst find_slot.simps) auto
  next
    case False
    have "(i \<le> j \<and> j < 16 \<and> int_handlers s v j = NULL) = (i + 1 \<le> j \<and> j < 16 \<and> int_handlers s v j = NULL)" for j
      using False le [of j] by auto
    then have eq: "(i \<le> j \<and> j < 16 \<and> int_handlers s v j = NULL) = (i + 1 \<le> j \<and> j < 16 \<and> int_handlers s v j = NULL)" for j
      by blast
    have "find_slot v i s = find_slot v (i + 1) s"
      using False lt by (subst find_slot.simps) (simp add: MAX_HANDLERS_def)
    then show ?thesis unfolding Suc.IH [OF up(1)] by (simp only: eq)
  qed
qed

text \<open>
  The slot of the scheduler is not protected. When the fourteen slots before it are taken, a
  handler registered as normal gets the last slot; a handler that answers with the registers to
  load is then refused, and on a vector that switches threads the answer of the normal handler is
  loaded as the registers.
\<close>
lemma normal_takes_reg_slot:
  assumes "\<And>i. 1 \<le> i \<Longrightarrow> i < 15 \<Longrightarrow> int_handlers s v i \<noteq> NULL" and "int_handlers s v 15 = NULL" and "h \<noteq> NULL"
  shows "\<exists>s'. reg_int_handler v h ht_normal s = (True, s') \<and> int_handlers s' v 15 = h \<and>
    reg_int_handler v h' ht_reg s' = (False, s') \<and>
    run_c_handlers call v data error regs 15 None s' = do {
      (away, out, s) \<leftarrow> call h data error (Some regs) s'; Some (away, if away then None else out, s) }"
proof -
  let ?P = "\<lambda>j. 1 \<le> j \<and> j < 16 \<and> int_handlers s v j = NULL"
  have P: "?P j \<longleftrightarrow> j = 15" for j
  proof
    assume j: "?P j"
    then have "\<not> j < 15" using assms(1) by blast
    with j show "j = 15" by (auto simp: word_less_nat_alt word_unat_eq_iff)
  qed (use assms(2) in simp)
  have f: "find_slot v 1 s = Some 15" using find_slot_spec [of 1 14 v s] P by (simp add: Least_equality)
  let ?s = "set_handler v 15 h s"
  have s: "int_handlers ?s v 15 = h" by (simp add: set_handler_def)
  have e: "run_c_handlers call v data error regs 16 out t = Some (False, out, t)" for out t
    by (subst run_c_handlers.simps) (simp add: MAX_HANDLERS_def)
  have "run_c_handlers call v data error regs 15 None ?s = do {
      (away, out, s) \<leftarrow> call h data error (Some regs) ?s; Some (away, if away then None else out, s) }"
    using s assms(3) by (subst run_c_handlers.simps) (auto simp: MAX_HANDLERS_def e split: Option.bind_split)
  moreover have "reg_int_handler v h ht_normal s = (True, ?s)" using f by (simp add: reg_int_handler_def)
  moreover have "reg_int_handler v h' ht_reg ?s = (False, ?s)" using s assms(3) by (simp add: reg_int_handler_def MAX_HANDLERS_def)
  ultimately show ?thesis using s by blast
qed

section \<open>Descriptors\<close>

text \<open>The address the processor jumps to through a gate.\<close>

definition gate_address :: "idt_e \<Rightarrow> usize" where
  "gate_address e = ucast (p1 e) OR push_bit 16 (ucast (p2 e)) OR push_bit 32 (ucast (p3 e))"

lemma bit_get_bits_top: "bit (get_bits n l 63) j \<longleftrightarrow> bit n (j + unat l)"
proof -
  have "(0xffffffffffffffff :: u64) = - 1" by simp
  then have m: "0xffffffffffffffff AND n = n" by (simp only: and.left_neutral)
  have "get_bits n l 63 = drop_bit (unat l) n" unfolding get_bits_def Let_def by (simp only: if_True HOL.refl m)
  then show ?thesis by (simp add: bit_drop_bit_eq add.commute)
qed

lemma gate_of_entry:
  "gate_address \<lparr>p1 = ucast (get_bits f 0 15), gdt_select = a, ist = b, idt_attr = c, p2 = ucast (get_bits f 16 31),
     p3 = ucast (get_bits f 32 63), idt_zero = d\<rparr> = f"
proof (rule bit_word_eqI)
  fix n assume "n < LENGTH(64)"
  then have n: "n < 64" by simp
  consider "n < 16" | "16 \<le> n" "n < 32" | "32 \<le> n" by linarith
  then show "bit (gate_address \<lparr>p1 = ucast (get_bits f 0 15), gdt_select = a, ist = b, idt_attr = c, p2 = ucast (get_bits f 16 31),
     p3 = ucast (get_bits f 32 63), idt_zero = d\<rparr>) n = bit f n"
    by cases (use n in \<open>auto simp: gate_address_def bit_simps bit_get_bits bit_get_bits_top\<close>)
qed

lemma idt_entries:
  "is_idt (fold (\<lambda>vec. idt_add_entry vec (entry vec) (f vec)) vs s) v =
     (if v \<in> set vs then \<lparr>p1 = ucast (get_bits (entry v) 0 15), gdt_select = 8, ist = 0, idt_attr = f v,
        p2 = ucast (get_bits (entry v) 16 31), p3 = ucast (get_bits (entry v) 32 63), idt_zero = 0\<rparr> else is_idt s v)"
  by (induction vs arbitrary: s) (auto simp: idt_add_entry_def)

lemma vectors_iff: "v \<in> set vectors \<longleftrightarrow> v < 48 \<or> v = 128"
proof -
  have "v < 48 \<longleftrightarrow> (\<exists>k < 48. v = of_nat k)"
  proof
    assume "v < 48"
    then show "\<exists>k < 48. v = of_nat k" by (intro exI [of _ "unat v"]) (simp add: word_less_nat_alt)
  qed (auto simp: word_less_nat_alt unat_of_nat)
  then show ?thesis by (auto simp: vectors_def)
qed

text \<open>
  the interrupt table sends each vector to its function. After \<^verbatim>\<open>idt_init\<close> the three
  parts of the gate of each of the vectors 0 to 47 and 128 give back the address of the vector's
  function, in the kernel's code segment, as a 64-bit interrupt gate (a trap gate for vector 17);
  every other gate is as it was.
\<close>
theorem idt_gates:
  "let s' = idt_init table entry s; e = is_idt s' v in
     (if v < 48 \<or> v = 128 then gate_address e = entry v \<and> gdt_select e = 8 \<and> ist e = 0 \<and> idt_zero e = 0 \<and>
        idt_attr e = (if v = 17 then 0x8f else 0x8e)
      else e = is_idt s v) \<and> is_idtr s' = (4095, table)"
proof -
  have "is_idtr (fold (\<lambda>vec. idt_add_entry vec (entry vec) (f vec)) vs s) = is_idtr s" for f vs s
    by (induction vs arbitrary: s) (auto simp: idt_add_entry_def)
  then show ?thesis by (simp add: idt_init_def idt_entries vectors_iff gate_of_entry Let_def)
qed

section \<open>Dispatch\<close>

text \<open>The registered handlers of a vector in the order of their slots.\<close>

definition slots :: "u8 \<Rightarrow> nat \<Rightarrow> nat \<Rightarrow> int_state \<Rightarrow> ptr list" where
  "slots v i j s = filter (\<lambda>h. h \<noteq> NULL) (map (\<lambda>k. int_handlers s v (of_nat k)) [i..<j])"

abbreviation handlers_of :: "u8 \<Rightarrow> int_state \<Rightarrow> ptr list" where "handlers_of v \<equiv> slots v 0 16"

primrec run_all :: "(ptr \<Rightarrow> int_state \<Rightarrow> (bool \<times> registers option \<times> int_state) option) \<Rightarrow> ptr list \<Rightarrow> int_state \<Rightarrow> (bool \<times> int_state) option" where
  "run_all f [] s = Some (False, s)"
| "run_all f (h # hs) s = do { (away, _, s) \<leftarrow> f h s; if away then Some (True, s) else run_all f hs s }"

text \<open>The registers the handlers of a switching vector get.\<close>

definition saved_regs :: "registers \<Rightarrow> int_state \<Rightarrow> registers" where
  "saved_regs regs s =
     (let c = th_regs (s_threads (is_sched s) (thread_c (is_sched s)))
      in if r_cs regs AND 3 = 0 then regs else regs\<lparr>r_kernel_rsp := r_kernel_rsp c, r_call_save_rsp := r_call_save_rsp c\<rparr>)"

definition interrupt_ref :: "handler_call \<Rightarrow> u8 \<Rightarrow> int_data \<Rightarrow> u64 \<Rightarrow> registers \<Rightarrow> int_state \<Rightarrow> (bool \<times> registers option \<times> int_state) option" where
  "interrupt_ref call v data error regs s =
     (if v = 32 \<or> v = 128 then
        let regs = saved_regs regs s
        in do {
          (away, s) \<leftarrow> run_all (\<lambda>h. call h data 0 (Some regs)) (slots v 0 15 s) s;
          if away then Some (True, None, s)
          else do {
            (away, out, s) \<leftarrow> (if int_handlers s v 15 = NULL then Some (False, None, s) else call (int_handlers s v 15) data 0 (Some regs) s);
            if away then Some (True, None, s)
            else let s = load_stacks out s in Some (False, out, if v = 32 then pic_eoi v s else s)
          }
        }
      else if v < 48 then do {
        (away, s) \<leftarrow> run_all (\<lambda>h. call h data (if v \<in> error_vectors then error else 0) None) (handlers_of v s) s;
        Some (away, None, if \<not> away \<and> v \<ge> 32 then pic_eoi v s else s)
      }
      else None)"

text \<open>Handlers that do not register or remove handlers of the vector while it runs.\<close>

definition keeps_handlers :: "handler_call \<Rightarrow> u8 \<Rightarrow> bool" where
  "keeps_handlers call v \<longleftrightarrow> (\<forall>f d e r s away out s'. call f d e r s = Some (away, out, s') \<longrightarrow> int_handlers s' v = int_handlers s v)"

lemma slots_cong: "int_handlers s' v = int_handlers s v \<Longrightarrow> slots v i j s' = slots v i j s"
  by (simp add: slots_def)

lemma slots_step: "i < j \<Longrightarrow> slots v i j s =
   (if int_handlers s v (of_nat i) = NULL then slots v (i + 1) j s else int_handlers s v (of_nat i) # slots v (i + 1) j s)"
  by (simp add: slots_def upt_conv_Cons)

lemma slots_end: "slots v i i s = []" by (simp add: slots_def)

lemma u8_slot: "i \<le> 16 \<Longrightarrow> (of_nat i :: u8) < 16 \<longleftrightarrow> i < 16" "i < 16 \<Longrightarrow> (of_nat i :: u8) = 15 \<longleftrightarrow> i = 15"
  by (auto simp: word_less_nat_alt word_unat_eq_iff unat_of_nat)

lemma run_handlers_ref:
  assumes "keeps_handlers call v" and "i \<le> 16"
  shows "run_handlers call v data error (of_nat i) s = run_all (\<lambda>h. call h data error None) (slots v i 16 s) s"
  using assms(2)
proof (induction "16 - i" arbitrary: i s)
  case 0
  then show ?case by (subst run_handlers.simps) (simp add: MAX_HANDLERS_def slots_end)
next
  case (Suc k)
  then have i: "i < 16" "k = 16 - Suc i" "Suc i \<le> 16" by auto
  have IH: "run_handlers call v data error (of_nat i + 1) s = run_all (\<lambda>h. call h data error None) (slots v (i + 1) 16 s) s" for s
    using Suc(1) [OF i(2,3)] by (simp add: add.commute)
  have "slots v (i + 1) 16 s' = slots v (i + 1) 16 s" if "call f d e r s = Some (away, out, s')" for f d e r away out s'
    by (rule slots_cong) (use assms(1) that in \<open>auto simp: keeps_handlers_def\<close>)
  then show ?case using i(1) by (subst run_handlers.simps, subst slots_step [OF i(1)])
      (auto simp: MAX_HANDLERS_def u8_slot IH split: Option.bind_split)
qed

lemma run_c_handlers_ref:
  assumes "keeps_handlers call v" and "i \<le> 15"
  shows "run_c_handlers call v data error regs (of_nat i) None s =
    do { (away, s) \<leftarrow> run_all (\<lambda>h. call h data error (Some regs)) (slots v i 15 s) s;
         if away then Some (True, None, s) else do {
           (away, out, s) \<leftarrow> (if int_handlers s v 15 = NULL then Some (False, None, s) else call (int_handlers s v 15) data error (Some regs) s);
           Some (away, if away then None else out, s) } }"
  using assms(2)
proof (induction "15 - i" arbitrary: i s)
  case 0
  have e: "run_c_handlers call v data error regs 16 out t = Some (False, out, t)" for out t
    by (subst run_c_handlers.simps) (simp add: MAX_HANDLERS_def)
  from 0 show ?case by (subst run_c_handlers.simps) (auto simp: MAX_HANDLERS_def slots_end e split: Option.bind_split)
next
  case (Suc k)
  then have i: "i < 15" "k = 15 - Suc i" "Suc i \<le> 15" by auto
  have IH: "run_c_handlers call v data error regs (of_nat i + 1) None s =
    do { (away, s) \<leftarrow> run_all (\<lambda>h. call h data error (Some regs)) (slots v (i + 1) 15 s) s;
         if away then Some (True, None, s) else do {
           (away, out, s) \<leftarrow> (if int_handlers s v 15 = NULL then Some (False, None, s) else call (int_handlers s v 15) data error (Some regs) s);
           Some (away, if away then None else out, s) } }" for s
    using Suc(1) [OF i(2,3)] by (simp add: add.commute)
  have sl: "slots v (i + 1) 15 s' = slots v (i + 1) 15 s" if "call f d e r s = Some (away, out, s')" for f d e r away out s'
    by (rule slots_cong) (use assms(1) that in \<open>auto simp: keeps_handlers_def\<close>)
  show ?case using i(1) sl
    by (subst run_c_handlers.simps, subst slots_step [OF i(1)])
      (auto simp: MAX_HANDLERS_def u8_slot IH split: Option.bind_split)
qed

lemma c_int_handler_load:
  "c_int_handler call v data e regs s = do {
     (away, out, s) \<leftarrow> run_c_handlers call v data e (saved_regs regs s) 0 None s;
     if away then Some (True, None, s) else Some (False, out, load_stacks out s) }"
proof -
  have "(if r_cs regs AND 3 \<noteq> 0 then regs\<lparr>r_kernel_rsp := a, r_call_save_rsp := b\<rparr> else regs) =
    (if r_cs regs AND 3 = 0 then regs else regs\<lparr>r_kernel_rsp := a, r_call_save_rsp := b\<rparr>)" for a b by simp
  then show ?thesis unfolding c_int_handler_def saved_regs_def Let_def by (simp only:)
qed

lemma interrupt_equiv_spec:
  assumes "keeps_handlers call v"
  shows "interrupt call v data error regs s = interrupt_ref call v data error regs s"
proof -
  have n: "(0 :: u8) = of_nat 0" by simp
  have c: "run_handlers call v data e 0 s = run_all (\<lambda>h. call h data e None) (handlers_of v s) s" for e s
    using run_handlers_ref [OF assms, of 0] by simp
  have d: "run_c_handlers call v data e r 0 None s = do { (away, s) \<leftarrow> run_all (\<lambda>h. call h data e (Some r)) (slots v 0 15 s) s;
      if away then Some (True, None, s) else do {
        (away, out, s) \<leftarrow> (if int_handlers s v 15 = NULL then Some (False, None, s) else call (int_handlers s v 15) data e (Some r) s);
        Some (away, if away then None else out, s) } }" for e r s
    using run_c_handlers_ref [OF assms, of 0] by simp
  have ev: "e \<in> error_vectors \<Longrightarrow> e < 32" for e :: u8 by (auto simp: error_vectors_def)
  have nv: "v < 32 \<Longrightarrow> v < 48" "v < 48 \<Longrightarrow> v \<noteq> 128" "v < 32 \<Longrightarrow> v \<noteq> 32" for v :: u8
    by (auto simp: word_less_nat_alt)
  consider "v = 32" | "v = 128" | "v \<noteq> 32" "v \<noteq> 128" by auto
  then show ?thesis
  proof cases
    case 1
    then show ?thesis by (auto simp: interrupt_def interrupt_ref_def c_int_handler_load d [unfolded 1] Let_def split: Option.bind_split)
  next
    case 2
    then show ?thesis by (auto simp: interrupt_def interrupt_ref_def c_int_handler_load d [unfolded 2] Let_def split: Option.bind_split)
  next
    case 3
    note v = 3
    consider "v < 32" | "\<not> v < 32" "v < 48" | "\<not> v < 48" using nv(1) by auto
    then show ?thesis
    proof cases
      case 1
      then have "\<not> 32 \<le> v" by simp
      then show ?thesis using v nv(1) [OF 1] 1
        by (auto simp: interrupt_def interrupt_ref_def int_handler_def int_handler_e_def c map_conv_bind_option split: Option.bind_split)
    next
      case 2
      then have "v \<notin> error_vectors" using ev by blast
      moreover have "32 \<le> v" using 2 by simp
      ultimately show ?thesis using v 2
        by (auto simp: interrupt_def interrupt_ref_def irq_handler_def c map_conv_bind_option split: Option.bind_split)
    next
      case 3
      then have "v \<notin> error_vectors" "\<not> v < 32" using ev nv(1) by blast+
      then show ?thesis using v 3 by (simp add: interrupt_def interrupt_ref_def)
    qed
  qed
qed

text \<open>
  C24: an interrupt is a run of its registered handlers. As long as no handler changes the
  handlers of its own vector, the code for vector \<open>v\<close> calls the non-NULL entries of the vector's
  row once each, from slot 0 up, passes the error code only on the vectors that push one, sends
  the end of interrupt after the handlers exactly on the vectors of the two controllers, has no
  code for the other vectors, and on the two switching vectors returns what the handler in the
  last slot answers, ignoring the others, after loading the kernel stacks of that answer. A handler
  that is switched away from ends the run where it is: no later handler runs and nothing is sent.
\<close>
theorem interrupt_equiv:
  assumes "keeps_handlers call v"
  shows "interrupt call v data error regs s = interrupt_ref call v data error regs s"
  by (rule interrupt_equiv_spec [OF assms])

lemma kernel_call_keeps: "keeps_handlers (kernel_call t h) v"
  by (auto simp: keeps_handlers_def kernel_call_def timer_irq_handler_def load_stacks_def Let_def split: if_splits Option.bind_splits)

section \<open>Registered handlers\<close>

lemma of_nat_u8_inj: "j < 16 \<Longrightarrow> k < 16 \<Longrightarrow> (of_nat j :: u8) = of_nat k \<longleftrightarrow> j = k"
  by (auto simp: word_unat_eq_iff unat_of_nat)

lemma set_handler_slot:
  "int_handlers (set_handler v i h s) w j = (if w = v \<and> j = i then h else int_handlers s w j)"
  by (simp add: set_handler_def)

lemma slots_split: "i \<le> k \<Longrightarrow> k < j \<Longrightarrow> slots v i j s =
    slots v i k s @ (if int_handlers s v (of_nat k) = NULL then [] else [int_handlers s v (of_nat k)]) @ slots v (Suc k) j s"
proof -
  assume a: "i \<le> k" "k < j"
  then have "[i..<j] = [i..<k] @ k # [Suc k..<j]" by (metis le_add_diff_inverse less_imp_le upt_add_eq_append upt_conv_Cons)
  then show ?thesis by (simp add: slots_def)
qed

lemma slots_other: "w \<noteq> v \<or> (\<forall>l. i \<le> l \<and> l < j \<longrightarrow> of_nat l \<noteq> k) \<Longrightarrow> slots w i j (set_handler v k h s) = slots w i j s"
  by (auto simp: slots_def set_handler_slot intro!: arg_cong [of _ _ "filter _"] map_cong)

lemma set_empty_slot:
  assumes "k < 16" and "int_handlers s v (of_nat k) = NULL" and "h \<noteq> NULL"
  shows "handlers_of v (set_handler v (of_nat k) h s) = slots v 0 k s @ h # slots v (Suc k) 16 s"
    and "handlers_of v s = slots v 0 k s @ slots v (Suc k) 16 s"
proof -
  show "handlers_of v s = slots v 0 k s @ slots v (Suc k) 16 s"
    using slots_split [of 0 k 16 v s] assms by simp
  have "slots v 0 k (set_handler v (of_nat k) h s) = slots v 0 k s"
    by (rule slots_other) (use assms(1) in \<open>auto simp: of_nat_u8_inj\<close>)
  moreover have "slots v (Suc k) 16 (set_handler v (of_nat k) h s) = slots v (Suc k) 16 s"
    by (rule slots_other) (use assms(1) in \<open>auto simp: of_nat_u8_inj\<close>)
  ultimately show "handlers_of v (set_handler v (of_nat k) h s) = slots v 0 k s @ h # slots v (Suc k) 16 s"
    using slots_split [of 0 k 16 v "set_handler v (of_nat k) h s"] assms by (simp add: set_handler_slot)
qed

lemma rem_loop_slot:
  assumes "i \<le> 16"
  shows "int_handlers (rem_loop v h (of_nat i) s) w j =
    (if w = v \<and> of_nat i \<le> j \<and> j < 16 \<and> int_handlers s v j = h then NULL else int_handlers s w j)"
  using assms
proof (induction "16 - i" arbitrary: i s)
  case 0
  then show ?case by (subst rem_loop.simps) (auto simp: MAX_HANDLERS_def)
next
  case (Suc k)
  then have i: "i < 16" "k = 16 - Suc i" "Suc i \<le> 16" by auto
  have le: "(of_nat i :: u8) \<le> j \<longleftrightarrow> j = of_nat i \<or> of_nat i + 1 \<le> j"
    using i(1) by (auto simp: word_le_nat_alt word_unat_eq_iff unat_of_nat unat_word_ariths)
  have u: "unat (of_nat i + 1 :: u8) = Suc i" using i(1) by (simp add: unat_word_ariths unat_of_nat)
  have lt: "\<not> (of_nat i + 1 \<le> (of_nat i :: u8))" using i(1) by (simp add: word_le_nat_alt u unat_of_nat)
  have IH: "int_handlers (rem_loop v h (of_nat i + 1) s) w j =
    (if w = v \<and> of_nat i + 1 \<le> j \<and> j < 16 \<and> int_handlers s v j = h then NULL else int_handlers s w j)" for s
    using Suc(1) [OF i(2,3)] by (simp add: add.commute)
  show ?case using i(1) u8_slot(1) [of i] lt
    by (subst rem_loop.simps) (auto simp: MAX_HANDLERS_def IH le set_handler_slot Let_def)
qed

lemma rem_handlers: "handlers_of v (rem_int_handler v h s) = filter (\<lambda>x. x \<noteq> h) (handlers_of v s)"
proof -
  have "int_handlers (rem_int_handler v h s) v (of_nat k) =
      (if int_handlers s v (of_nat k) = h then NULL else int_handlers s v (of_nat k))" if "k < 16" for k
    using rem_loop_slot [of 0 v h s v "of_nat k"] that by (simp add: rem_int_handler_def word_less_nat_alt unat_of_nat)
  then have "handlers_of v (rem_int_handler v h s) =
      filter (\<lambda>h. h \<noteq> NULL) (map (\<lambda>k. if int_handlers s v (of_nat k) = h then NULL else int_handlers s v (of_nat k)) [0..<16])"
    unfolding slots_def by (intro arg_cong [of _ _ "filter _"] map_cong) auto
  moreover have "filter (\<lambda>h. h \<noteq> NULL) (map (\<lambda>k. if f k = h then NULL else f k) ks) =
      filter (\<lambda>x. x \<noteq> h) (filter (\<lambda>h. h \<noteq> NULL) (map f ks))" for f :: "nat \<Rightarrow> ptr" and ks
    by (induction ks) auto
  ultimately show ?thesis by (simp add: slots_def)
qed

lemma slots_nil: "slots v i i s = []" by (simp add: slots_def)

lemma register_at:
  assumes "k < 16" and "int_handlers s v (of_nat k) = NULL" and "h \<noteq> NULL"
  shows "\<exists>xs ys. handlers_of v s = xs @ ys \<and> handlers_of v (set_handler v (of_nat k) h s) = xs @ h # ys \<and>
    (k = 0 \<longrightarrow> xs = []) \<and> (k = 15 \<longrightarrow> ys = [])"
  using set_empty_slot [OF assms] by (intro exI [of _ "slots v 0 k s"] exI [of _ "slots v (Suc k) 16 s"]) (auto simp: slots_nil)

lemma reg_false: "\<not> fst (reg_int_handler v h ty s) \<Longrightarrow> snd (reg_int_handler v h ty s) = s"
  by (auto simp: reg_int_handler_def split: option.splits if_splits)

lemma reg_other: "w \<noteq> v \<Longrightarrow> handlers_of w (snd (reg_int_handler v h ty s)) = handlers_of w s"
  by (auto simp: reg_int_handler_def slots_other split: option.splits)

text \<open>
  C26: registering adds one handler. It succeeds exactly when the slot asked for, or for a normal
  handler one of the slots 1 to 15, is free; then the handlers of the vector are the old ones with
  the new one put in, in front for \<^verbatim>\<open>first\<close> and at the end for \<^verbatim>\<open>reg\<close>, and otherwise nothing
  changes. The other vectors keep their handlers, and removing a handler takes out all its
  registrations and no other.
\<close>
theorem registration:
  assumes "h \<noteq> NULL"
  shows "let (b, s') = reg_int_handler v h ty s in
    b = (case ty of ht_first \<Rightarrow> int_handlers s v 0 = NULL | ht_reg \<Rightarrow> int_handlers s v 15 = NULL
      | ht_normal \<Rightarrow> \<exists>j. 1 \<le> j \<and> j < 16 \<and> int_handlers s v j = NULL) \<and>
    (if b then \<exists>xs ys. handlers_of v s = xs @ ys \<and> handlers_of v s' = xs @ h # ys \<and>
       (ty = ht_first \<longrightarrow> xs = []) \<and> (ty = ht_reg \<longrightarrow> ys = []) else s' = s) \<and>
    (\<forall>w. w \<noteq> v \<longrightarrow> handlers_of w s' = handlers_of w s) \<and>
    handlers_of v (rem_int_handler v h' s') = filter (\<lambda>x. x \<noteq> h') (handlers_of v s')"
proof -
  let ?P = "\<lambda>j. 1 \<le> j \<and> j < 16 \<and> int_handlers s v j = NULL"
  let ?r = "reg_int_handler v h ty s"
  have f: "find_slot v 1 s = (if \<exists>j. ?P j then Some (LEAST j. ?P j) else None)" using find_slot_spec [of 1 14 v s] by simp
  have b: "fst ?r = (case ty of ht_first \<Rightarrow> int_handlers s v 0 = NULL | ht_reg \<Rightarrow> int_handlers s v 15 = NULL
      | ht_normal \<Rightarrow> \<exists>j. ?P j)"
    by (cases ty) (auto simp: reg_int_handler_def MAX_HANDLERS_def f)
  have "\<exists>xs ys. handlers_of v s = xs @ ys \<and> handlers_of v (snd ?r) = xs @ h # ys \<and>
       (ty = ht_first \<longrightarrow> xs = []) \<and> (ty = ht_reg \<longrightarrow> ys = [])" if r: "fst ?r"
  proof (cases ty)
    case ht_first
    then have "int_handlers s v 0 = NULL" "snd ?r = set_handler v 0 h s" using r b by (simp_all add: reg_int_handler_def)
    then show ?thesis using register_at [of 0 s v h] assms ht_first by auto
  next
    case ht_reg
    then have "int_handlers s v 15 = NULL" "snd ?r = set_handler v 15 h s"
      using r b by (simp_all add: reg_int_handler_def MAX_HANDLERS_def)
    then show ?thesis using register_at [of 15 s v h] assms ht_reg by auto
  next
    case ht_normal
    then have "\<exists>j. ?P j" using r b by simp
    then have P: "?P (LEAST j. ?P j)" by (rule LeastI_ex)
    define j where "j = (LEAST j. ?P j)"
    have "find_slot v 1 s = Some j" using f \<open>\<exists>j. ?P j\<close> by (simp add: j_def)
    then have "snd ?r = set_handler v j h s" using ht_normal by (simp add: reg_int_handler_def)
    moreover have "j = of_nat (unat j)" "unat j < 16" using P unfolding j_def [symmetric] by (auto simp: word_less_nat_alt)
    ultimately show ?thesis using register_at [of "unat j" s v h] P assms ht_normal by (auto simp: j_def [symmetric])
  qed
  then show ?thesis using b reg_false [of v h ty s] reg_other [of _ v h ty s] rem_handlers [of v h' "snd ?r"]
    by (cases ?r) simp
qed

section \<open>The clock\<close>

text \<open>The device answers a latch command with the count \<open>c\<close>.\<close>

definition latches :: "device \<Rightarrow> int_state \<Rightarrow> u16 \<Rightarrow> bool" where
  "latches dev s c \<longleftrightarrow> (let l = is_ports s @ [Port_Out PIT_COMMAND 0] in
     dev l PIT_CHANNEL_0 = ucast c \<and> dev (l @ [Port_In PIT_CHANNEL_0 (ucast c)]) PIT_CHANNEL_0 = ucast (drop_bit 8 c))"

lemma bytes16: "push_bit 8 (ucast (ucast (drop_bit 8 c) :: u8)) OR ucast (ucast c :: u8) = (ucast (c :: u16) :: u64)"
  by (rule bit_word_eqI) (use bit_imp_le_length [of c] in \<open>fastforce simp: bit_simps\<close>)

lemma time_nsec_reads:
  assumes "latches dev s c"
  shows "fst (time_nsec dev s) = elapsed_time (is_pit s) + NANOSEC_PER_CLOCK * ucast c" "is_pit (snd (time_nsec dev s)) = is_pit s"
  using assms by (simp_all add: time_nsec_def latches_def outp_def inp_def Let_def bytes16)

text \<open>
  between two ticks the clock runs backwards. The counter of the timer counts down, and
  \<^verbatim>\<open>time_nsec\<close> adds the count instead of what has gone from it: of two reads without a tick
  between them, the later one, with the smaller count, is earlier by the time that has passed.
  Neither read changes the clock.
\<close>
theorem clock_runs_backwards:
  assumes "latches dev s c" and "latches dev' s' c'" and "c' < c" and "is_pit s' = is_pit s"
    and "unat (elapsed_time (is_pit s)) + 838 * 65535 < 2 ^ 64"
  shows "unat (fst (time_nsec dev' s')) = unat (fst (time_nsec dev s)) - 838 * (unat c - unat c') \<and>
    fst (time_nsec dev' s') < fst (time_nsec dev s) \<and> is_pit (snd (time_nsec dev' s')) = is_pit s"
proof -
  have u: "unat (elapsed_time (is_pit s) + 838 * (ucast (d :: u16) :: u64)) = unat (elapsed_time (is_pit s)) + 838 * unat d" for d
  proof -
    have d: "unat d < 65536" using unsigned_less [of d, where 'a = nat] by simp
    then have "unat (ucast d :: u64) = unat d" by (simp add: unsigned_ucast_eq take_bit_nat_eq_self)
    with d have "unat (838 * (ucast d :: u64)) = 838 * unat d" by (simp add: unat_word_ariths)
    with d assms(5) show ?thesis by (simp add: unat_word_ariths)
  qed
  have "unat c' < unat c" using assms(3) by (simp add: word_less_nat_alt)
  then show ?thesis using time_nsec_reads [OF assms(1)] time_nsec_reads [OF assms(2)] assms(4)
    by (simp add: NANOSEC_PER_CLOCK_def u word_less_nat_alt diff_mult_distrib2)
qed

section \<open>The timer vector\<close>

lemma resume_timer_ends:
  assumes "ready_to_run (is_sched u) sids xss"
  shows "\<exists>out u'. resume_timer n u = Some (out, u') \<and> is_ports u' = is_ports u @ [Port_Out PICM_COMMAND PIC_EOI]"
proof -
  have "ready_to_run (unlock (is_sched u)) sids xss" using assms by simp
  from time_slice_end_spec [OF this, of n] obtain out c where "time_slice_end n (unlock (is_sched u)) = Some (out, c)" by blast
  then show ?thesis
    by (cases out) (simp_all add: resume_timer_def pic_eoi_def outp_def load_stacks_def IRQ_TIMER_def PICM_OFFSET_def Let_def)
qed

lemma timer_vector_spec:
  assumes sl: "slots 32 0 15 s = [t]" "int_handlers s 32 15 = h" "h \<noteq> NULL" "t \<noteq> h"
    and n: "n = elapsed_time (is_pit s) + nano_reset (is_pit s)" and S: "S = (is_sched s)\<lparr>clock_nolatch := n\<rparr>"
    and r: "ready_to_run S sids xss" "kernel S" "length (xss T_SLEEP) < 2 ^ 31"
  defines "woken \<equiv> filter (due n S) (xss T_SLEEP)"
  defines "ready \<equiv> xss T_READY @ woken"
  defines "idle_wake \<equiv> xss T_READY = [] \<and> woken \<noteq> []"
  defines "switch \<equiv> (idle_wake \<or> n - nsec_last S \<ge> THREAD_TIME_SLICE) \<and> ready \<noteq> []"
  shows "(\<exists>out s'. interrupt (kernel_call t h) 32 data error regs s = Some (idle_wake, out, s') \<and>
      elapsed_time (is_pit s') = n \<and>
      ready_to_run (is_sched s') sids (let ys = xss(T_SLEEP := filter (\<lambda>t. \<not> due n S t) (xss T_SLEEP), T_READY := ready)
        in if switch then a_switch ys else ys) \<and>
      thread_c (is_sched s') = (if switch then hd ready else thread_c S) \<and>
      (let q = th_regs (s_threads (is_sched s') (hd ready)) in
        (tss_rsp0 s', kdata_call_rsp s', kdata_call_save_rsp s') =
          (if switch then (r_kernel_rsp q, r_kernel_rsp q, r_call_save_rsp q)
           else (tss_rsp0 s, kdata_call_rsp s, kdata_call_save_rsp s)) \<and>
        (if idle_wake then r_cs (th_regs (s_threads (is_sched s') (thread_c S))) AND 3 = 0 \<and> cpu (is_sched s') = q
         else th_regs (s_threads (is_sched s') (thread_c S)) = saved_regs regs s \<and> out = (if switch then Some q else None))) \<and>
      is_ports s' = (if idle_wake then is_ports s else is_ports s @ [Port_Out PICM_COMMAND PIC_EOI])) \<and>
    (\<forall>u sids' yss. ready_to_run (is_sched u) sids' yss \<longrightarrow> (\<exists>out u'. resume_timer n u = Some (out, u') \<and>
      is_ports u' = is_ports u @ [Port_Out PICM_COMMAND PIC_EOI]))"
proof (rule conjI)
  show "\<forall>u sids' yss. ready_to_run (is_sched u) sids' yss \<longrightarrow> (\<exists>out u'. resume_timer n u = Some (out, u') \<and>
      is_ports u' = is_ports u @ [Port_Out PICM_COMMAND PIC_EOI])" using resume_timer_ends by blast
next
  let ?r = "saved_regs regs s"
  let ?s = "snd (timer_irq_handler s)"
  have s: "is_sched ?s = is_sched s" "time_nsec_nolatch ?s = n" "int_handlers ?s = int_handlers s"
    "elapsed_time (is_pit ?s) = n" "is_ports ?s = is_ports s" "tss_rsp0 ?s = tss_rsp0 s" "kdata_call_rsp ?s = kdata_call_rsp s"
    "kdata_call_save_rsp ?s = kdata_call_save_rsp s"
    by (simp_all add: timer_irq_handler_def time_nsec_nolatch_def n Let_def)
  let ?ys = "a_wake (due n S) [] (xss 3) xss"
  have ys: "?ys 1 = ready" "?ys = xss(3 := filter (\<lambda>t. \<not> due n S t) (xss 3), 1 := ready)"
    by (simp_all add: a_wake_def ready_def woken_def)
  have c: "clock_nolatch S = n" by (simp add: S)
  have sw: "tick_switches S xss \<and> ready \<noteq> [] \<longleftrightarrow> switch"
    by (simp add: tick_switches_def switch_def idle_wake_def woken_def c)
  from timer_handler_spec [OF r, of ?r, unfolded c ys(1) sw, folded woken_def, folded idle_wake_def] obtain out s1 where
    1: "sched_time_handler ?r S = Some (idle_wake, out, s1)" "ready_to_run s1 sids (a_tick S xss)"
      "thread_c s1 = (if tick_switches S xss then a_next (thread_c S) ?ys else thread_c S)"
      "if idle_wake then r_cs (th_regs (s_threads s1 (thread_c S))) AND 3 = 0 \<and> cpu s1 = th_regs (s_threads s1 (thread_c s1))
       else th_regs (s_threads s1 (thread_c S)) = ?r \<and> out = (if switch then Some (th_regs (s_threads s1 (thread_c s1))) else None)"
    by blast
  have t: "thread_c s1 = (if switch then hd ready else thread_c S)" using 1(3) unfolding a_next_def ys(1) using sw by auto
  have iw: "idle_wake \<Longrightarrow> switch" by (auto simp: switch_def idle_wake_def ready_def)
  have tick: "a_tick S xss = (let ys = xss(3 := filter (\<lambda>t. \<not> due n S t) (xss 3), 1 := ready) in if switch then a_switch ys else ys)"
    using sw unfolding a_tick_def c ys(2) Let_def by (auto simp: a_switch_def)
  have k1: "kernel_call t h t data 0 (Some ?r) s = Some (False, None, ?s)"
    by (simp add: kernel_call_def timer_irq_handler_def Let_def)
  have k2: "kernel_call t h h data 0 (Some ?r) ?s =
      Some (idle_wake, out, if idle_wake then load_stacks (Some (cpu s1)) (?s\<lparr>is_sched := s1\<rparr>) else ?s\<lparr>is_sched := s1\<rparr>)"
    using sl(4) 1(1) by (simp add: kernel_call_def s(1,2) S Let_def)
  show "\<exists>out s'. interrupt (kernel_call t h) 32 data error regs s = Some (idle_wake, out, s') \<and>
      elapsed_time (is_pit s') = n \<and>
      ready_to_run (is_sched s') sids (let ys = xss(T_SLEEP := filter (\<lambda>t. \<not> due n S t) (xss T_SLEEP), T_READY := ready)
        in if switch then a_switch ys else ys) \<and>
      thread_c (is_sched s') = (if switch then hd ready else thread_c S) \<and>
      (let q = th_regs (s_threads (is_sched s') (hd ready)) in
        (tss_rsp0 s', kdata_call_rsp s', kdata_call_save_rsp s') =
          (if switch then (r_kernel_rsp q, r_kernel_rsp q, r_call_save_rsp q)
           else (tss_rsp0 s, kdata_call_rsp s, kdata_call_save_rsp s)) \<and>
        (if idle_wake then r_cs (th_regs (s_threads (is_sched s') (thread_c S))) AND 3 = 0 \<and> cpu (is_sched s') = q
         else th_regs (s_threads (is_sched s') (thread_c S)) = saved_regs regs s \<and> out = (if switch then Some q else None))) \<and>
      is_ports s' = (if idle_wake then is_ports s else is_ports s @ [Port_Out PICM_COMMAND PIC_EOI])"
  proof (cases idle_wake)
    case True
    let ?T = "load_stacks (Some (cpu s1)) (?s\<lparr>is_sched := s1\<rparr>)"
    have "interrupt (kernel_call t h) 32 data error regs s = Some (True, None, ?T)"
      unfolding interrupt_equiv_spec [OF kernel_call_keeps]
      using sl(2,3) True by (simp add: interrupt_ref_def sl(1) k1 k2 s(3) Let_def)
    moreover have "is_pit ?T = is_pit ?s" "is_sched ?T = s1" "is_ports ?T = is_ports s" "tss_rsp0 ?T = r_kernel_rsp (cpu s1)"
      "kdata_call_rsp ?T = r_kernel_rsp (cpu s1)" "kdata_call_save_rsp ?T = r_call_save_rsp (cpu s1)"
      by (simp_all add: load_stacks_def s(5))
    ultimately show ?thesis using True iw [OF True] 1(2,4) t s(4) unfolding tick by (intro exI [of _ None] exI [of _ ?T]) (simp add: Let_def)
  next
    case False
    let ?T = "pic_eoi 32 (load_stacks out (?s\<lparr>is_sched := s1\<rparr>))"
    have "interrupt (kernel_call t h) 32 data error regs s = Some (False, out, ?T)"
      unfolding interrupt_equiv_spec [OF kernel_call_keeps]
      using sl(2,3) False by (simp add: interrupt_ref_def sl(1) k1 k2 s(3) Let_def)
    moreover have "is_pit ?T = is_pit ?s" "is_sched ?T = s1" "is_ports ?T = is_ports s @ [Port_Out PICM_COMMAND PIC_EOI]"
      "(tss_rsp0 ?T, kdata_call_rsp ?T, kdata_call_save_rsp ?T) = (case out of
        None \<Rightarrow> (tss_rsp0 s, kdata_call_rsp s, kdata_call_save_rsp s)
      | Some q \<Rightarrow> (r_kernel_rsp q, r_kernel_rsp q, r_call_save_rsp q))"
      by (cases out; simp add: pic_eoi_def PICM_OFFSET_def outp_def load_stacks_def Let_def s(5-8))+
    ultimately show ?thesis using False 1(2,4) t s(4) unfolding tick
      by (intro exI [of _ out] exI [of _ ?T]) (simp add: Let_def)
  qed
qed

text \<open>
  C25: the timer interrupt as a whole, in every well-formed state. With the clock in slot 0 and
  the scheduler in the last slot of vector 32 and the handlers in kernel mode, a tick first moves the clock on by
  the time of one period and then runs the scheduler at the new time: it wakes the sleepers that are due
  and switches at the end of the time slice or when they find nobody ready; then the kernel stacks of
  system calls and interrupts are those of the thread chosen. When it does not wake an idle system, the
  interrupted registers are saved, those of the thread chosen are the answer, and the first controller gets
  one end of interrupt. When it does, the handler itself is switched away from: the woken thread runs
  with its registers, and no end of interrupt is sent. Only when the interrupted thread is resumed, in
  whatever well-formed state, the rest of the interrupt returns and sends it.
\<close>
theorem timer_vector:
  assumes sl: "slots 32 0 15 s = [t]" "int_handlers s 32 15 = h" "h \<noteq> NULL" "t \<noteq> h"
    and n: "n = elapsed_time (is_pit s) + nano_reset (is_pit s)" and S: "S = (is_sched s)\<lparr>clock_nolatch := n\<rparr>"
    and r: "ready_to_run S sids xss" "kernel S" "length (xss T_SLEEP) < 2 ^ 31"
  defines "woken \<equiv> filter (due n S) (xss T_SLEEP)"
  defines "ready \<equiv> xss T_READY @ woken"
  defines "idle_wake \<equiv> xss T_READY = [] \<and> woken \<noteq> []"
  defines "switch \<equiv> (idle_wake \<or> n - nsec_last S \<ge> THREAD_TIME_SLICE) \<and> ready \<noteq> []"
  shows "(\<exists>out s'. interrupt (kernel_call t h) 32 data error regs s = Some (idle_wake, out, s') \<and>
      elapsed_time (is_pit s') = n \<and>
      ready_to_run (is_sched s') sids (let ys = xss(T_SLEEP := filter (\<lambda>t. \<not> due n S t) (xss T_SLEEP), T_READY := ready)
        in if switch then a_switch ys else ys) \<and>
      thread_c (is_sched s') = (if switch then hd ready else thread_c S) \<and>
      (let q = th_regs (s_threads (is_sched s') (hd ready)) in
        (tss_rsp0 s', kdata_call_rsp s', kdata_call_save_rsp s') =
          (if switch then (r_kernel_rsp q, r_kernel_rsp q, r_call_save_rsp q)
           else (tss_rsp0 s, kdata_call_rsp s, kdata_call_save_rsp s)) \<and>
        (if idle_wake then r_cs (th_regs (s_threads (is_sched s') (thread_c S))) AND 3 = 0 \<and> cpu (is_sched s') = q
         else th_regs (s_threads (is_sched s') (thread_c S)) = saved_regs regs s \<and> out = (if switch then Some q else None))) \<and>
      is_ports s' = (if idle_wake then is_ports s else is_ports s @ [Port_Out PICM_COMMAND PIC_EOI])) \<and>
    (\<forall>u sids' yss. ready_to_run (is_sched u) sids' yss \<longrightarrow> (\<exists>out u'. resume_timer n u = Some (out, u') \<and>
      is_ports u' = is_ports u @ [Port_Out PICM_COMMAND PIC_EOI]))"
  unfolding woken_def ready_def idle_wake_def switch_def by (rule timer_vector_spec [OF assms(1-9)])

section \<open>A concrete machine\<close>

definition ex_ints :: int_state where
  "ex_ints = \<lparr>int_handlers = \<lambda>v i. if v = 32 \<and> i = 0 then 4096 else if v = 32 \<and> i = 15 then 8192 else NULL,
     is_idt = \<lambda>v. \<lparr>p1 = 0, gdt_select = 0, ist = 0, idt_attr = 0, p2 = 0, p3 = 0, idt_zero = 0\<rparr>, is_idtr = (0, NULL),
     kdata_call_rsp = 0, kdata_call_save_rsp = 0, tss_rsp0 = 0, is_pit = \<lparr>elapsed_time = 0, pit_reset = 0xffff, nano_reset = 54918330\<rparr>,
     is_ports = [], is_sched = ex_sched [112]\<rparr>"

lemma registration_witness:
  "fst (reg_int_handler 33 12288 ht_normal ex_ints) \<and>
   handlers_of 33 (snd (reg_int_handler 33 12288 ht_normal ex_ints)) = [12288]"
proof -
  have "(1 :: u8) \<le> 1 \<and> (1 :: u8) < 16 \<and> int_handlers ex_ints 33 1 = NULL" by (simp add: ex_ints_def)
  then have f: "\<exists>j. 1 \<le> j \<and> j < 16 \<and> int_handlers ex_ints 33 j = NULL" by blast
  have e: "handlers_of 33 ex_ints = []" by (simp add: slots_def ex_ints_def)
  show ?thesis using registration [of 12288 33 ht_normal ex_ints 0] f e by (auto simp: Let_def split: prod.splits)
qed

definition pit_at :: "u16 \<Rightarrow> device" where
  "pit_at c l p = (if l = [Port_Out PIT_COMMAND 0] then ucast c else ucast (drop_bit 8 c))"

lemma clock_runs_backwards_witness:
  "fst (time_nsec (pit_at 100) ex_ints) < fst (time_nsec (pit_at 60000) ex_ints)"
proof -
  have l: "latches (pit_at c) ex_ints c" for c by (simp add: latches_def pit_at_def ex_ints_def)
  show ?thesis using clock_runs_backwards [OF l [of 60000] l [of 100]] by (simp add: ex_ints_def)
qed

definition ex_data :: int_data where
  "ex_data = \<lparr>d_rip = 0, d_cs = 8, d_rflags = 0, d_rsp = 0, d_ss = 16\<rparr>"

text \<open>A tick that preempts, and one that wakes an idle system.\<close>

lemma timer_vector_witness:
  "(\<exists>out s'. interrupt (kernel_call 4096 8192) 32 ex_data 0 kernel_regs ex_ints = Some (False, Some out, s') \<and>
     elapsed_time (is_pit s') = 54918330 \<and> out = th_regs (s_threads (is_sched s') 64)) \<and>
   (\<exists>out s'. interrupt (kernel_call 4096 8192) 32 ex_data 0 kernel_regs (ex_ints\<lparr>is_sched := ex_idle\<rparr>) = Some (True, out, s') \<and>
     thread_c (is_sched s') = 112 \<and> is_ports s' = [])"
proof
  let ?S = "(ex_sched [112])\<lparr>clock_nolatch := 54918330\<rparr>"
  have "ready_to_run (ex_sched [112]) [4096] (ex_xss [112])" by (rule inv_facts(1) [OF ex_inv]) simp
  then have r: "ready_to_run ?S [4096] (ex_xss [112])"
    by (rule ready_upd) (simp_all, intro ext fam_cong, simp_all)
  have k: "kernel ?S" using ex_kernel [of "[112]"] by (simp add: kernel_def)
  have x: "ex_xss [112] 1 = [64, 80]" "length (ex_xss [112] 3) < 2 ^ 31" by (simp_all add: ex_xss_def)
  have p: "slots 32 0 15 ex_ints = [4096]" "int_handlers ex_ints 32 15 = 8192"
    by (simp_all add: slots_def ex_ints_def upt_rec)
  have n: "54918330 = elapsed_time (is_pit ex_ints) + nano_reset (is_pit ex_ints)" by (simp add: ex_ints_def)
  have S: "?S = (is_sched ex_ints)\<lparr>clock_nolatch := 54918330\<rparr>" by (simp add: ex_ints_def)
  have t: "54918330 - nsec_last ?S \<ge> THREAD_TIME_SLICE" by (simp add: ex_sched_def THREAD_TIME_SLICE_def)
  from conjunct1 [OF timer_vector [OF p _ _ n S r k x(2), of ex_data 0 kernel_regs]] x(1) t
  show "\<exists>out s'. interrupt (kernel_call 4096 8192) 32 ex_data 0 kernel_regs ex_ints = Some (False, Some out, s') \<and>
     elapsed_time (is_pit s') = 54918330 \<and> out = th_regs (s_threads (is_sched s') 64)" by (auto simp: Let_def)
next
  let ?i = "ex_ints\<lparr>is_sched := ex_idle\<rparr>" and ?S = "ex_idle\<lparr>clock_nolatch := 54918330\<rparr>"
  have r: "ready_to_run ?S [] ex_idle_xss"
    by (rule ready_upd [OF ex_idle_ready]) (simp_all, intro ext fam_cong, simp_all)
  have k: "kernel ?S" by (simp add: kernel_def ex_idle_def ex_sched_def kernel_regs_def)
  have x: "ex_idle_xss 1 = []" "ex_idle_xss 3 = [112]" "length (ex_idle_xss 3) < 2 ^ 31" by (simp_all add: ex_idle_xss_def)
  have p: "slots 32 0 15 ?i = [4096]" "int_handlers ?i 32 15 = 8192"
    by (simp_all add: slots_def ex_ints_def upt_rec)
  have n: "54918330 = elapsed_time (is_pit ?i) + nano_reset (is_pit ?i)" by (simp add: ex_ints_def)
  have S: "?S = (is_sched ?i)\<lparr>clock_nolatch := 54918330\<rparr>" by simp
  have d: "due 54918330 ?S 112" by (simp add: due_def ex_idle_def ex_sched_def ex_thread_def)
  have e: "is_ports ?i = []" by (simp add: ex_ints_def)
  from conjunct1 [OF timer_vector [OF p _ _ n S r k x(3), of ex_data 0 kernel_regs]] x(1,2) d e
  show "\<exists>out s'. interrupt (kernel_call 4096 8192) 32 ex_data 0 kernel_regs ?i = Some (True, out, s') \<and>
     thread_c (is_sched s') = 112 \<and> is_ports s' = []" by (auto simp: Let_def)
qed

lemma interrupt_equiv_witness:
  "interrupt (kernel_call 4096 8192) 32 ex_data 0 kernel_regs ex_ints =
     interrupt_ref (kernel_call 4096 8192) 32 ex_data 0 kernel_regs ex_ints"
  by (intro interrupt_equiv kernel_call_keeps)

end
