(* ===== verification/Template_List.thy ===== *)
theory Template_List
  imports Kmem
begin

text \<open>
  The list of pointers to objects, \<^verbatim>\<open>include/util/linked_list2.hpp\<close>: an intrusive list of nodes
  of the kernel heap, each with a pointer to its item, so that an object can be in several lists.
\<close>

section \<open>Operations\<close>

definition LIST_NODE2_SIZE :: usize where "LIST_NODE2_SIZE = 24"

text \<open>The part of the machine the operations touch; \<open>h_items\<close> is the field \<^verbatim>\<open>item\<close> of the nodes.\<close>

record node_heap =
  h_mm :: mm
  h_nodes :: nodes
  h_items :: "ptr \<Rightarrow> ptr"

definition new_node2 :: "ptr \<Rightarrow> ptr \<Rightarrow> node_heap \<Rightarrow> (ptr \<times> node_heap) option" where
  "new_node2 ms item h = do {
     (p, m) \<leftarrow> op_new ms LIST_NODE2_SIZE (h_mm h);
     Some (p, if p = NULL then h\<lparr>h_mm := m\<rparr>
       else h\<lparr>h_mm := m, h_nodes := (h_nodes h)(p := \<lparr>n_prev = NULL, n_next = NULL\<rparr>), h_items := (h_items h)(p := item)\<rparr>)
   }"

definition l2_prepend :: "ptr \<Rightarrow> ptr \<Rightarrow> linked_list \<Rightarrow> node_heap \<Rightarrow> (bool \<times> linked_list \<times> node_heap) option" where
  "l2_prepend ms item l h = do {
     (node, h) \<leftarrow> new_node2 ms item h;
     if node = NULL then Some (False, l, h)
     else do { (ns, l) \<leftarrow> list_prepend (h_nodes h) l node; Some (True, l, h\<lparr>h_nodes := ns\<rparr>) }
   }"

definition l2_append :: "ptr \<Rightarrow> ptr \<Rightarrow> linked_list \<Rightarrow> node_heap \<Rightarrow> (bool \<times> linked_list \<times> node_heap) option" where
  "l2_append ms item l h = do {
     (node, h) \<leftarrow> new_node2 ms item h;
     if node = NULL then Some (False, l, h)
     else do { (ns, l) \<leftarrow> list_append (h_nodes h) l node; Some (True, l, h\<lparr>h_nodes := ns\<rparr>) }
   }"

definition l2_insert :: "ptr \<Rightarrow> usize \<Rightarrow> ptr \<Rightarrow> linked_list \<Rightarrow> node_heap \<Rightarrow> (bool \<times> linked_list \<times> node_heap) option" where
  "l2_insert ms index item l h = do {
     (node, h) \<leftarrow> new_node2 ms item h;
     if node = NULL then Some (False, l, h)
     else do { (b, ns, l) \<leftarrow> list_insert (h_nodes h) l index node; Some (b, l, h\<lparr>h_nodes := ns\<rparr>) }
   }"

text \<open>What the three removing operations do with the node they took out.\<close>

definition take_item :: "ptr \<Rightarrow> ptr \<Rightarrow> node_heap \<Rightarrow> (ptr \<times> node_heap) option" where
  "take_item ms node h =
     (if node = NULL then Some (NULL, h)
      else do { m \<leftarrow> op_delete ms node LIST_NODE2_SIZE (h_mm h); Some (h_items h node, h\<lparr>h_mm := m\<rparr>) })"

definition l2_pop_start :: "ptr \<Rightarrow> linked_list \<Rightarrow> node_heap \<Rightarrow> (ptr \<times> linked_list \<times> node_heap) option" where
  "l2_pop_start ms l h = do {
     (node, l) \<leftarrow> list_pop_start (h_nodes h) l;
     (out, h) \<leftarrow> take_item ms node h;
     Some (out, l, h)
   }"

definition l2_pop :: "ptr \<Rightarrow> linked_list \<Rightarrow> node_heap \<Rightarrow> (ptr \<times> linked_list \<times> node_heap) option" where
  "l2_pop ms l h = do {
     (node, l) \<leftarrow> list_pop (h_nodes h) l;
     (out, h) \<leftarrow> take_item ms node h;
     Some (out, l, h)
   }"

definition l2_remove :: "ptr \<Rightarrow> usize \<Rightarrow> linked_list \<Rightarrow> node_heap \<Rightarrow> (ptr \<times> linked_list \<times> node_heap) option" where
  "l2_remove ms index l h = do {
     (node, ns, l) \<leftarrow> list_remove (h_nodes h) l index;
     (out, h) \<leftarrow> take_item ms node (h\<lparr>h_nodes := ns\<rparr>);
     Some (out, l, h)
   }"

definition l2_at :: "usize \<Rightarrow> linked_list \<Rightarrow> node_heap \<Rightarrow> (ptr \<times> linked_list) option" where
  "l2_at index l h = do {
     (node, l) \<leftarrow> list_at (h_nodes h) l index;
     Some (if node = NULL then NULL else h_items h node, l)
   }"

partial_function (option) l2_delete :: "ptr \<Rightarrow> linked_list \<Rightarrow> node_heap \<Rightarrow> (linked_list \<times> node_heap) option" where
  "l2_delete ms l h =
     (if l_len l = 0 then Some (l, h)
      else do { (_, l, h) \<leftarrow> l2_pop ms l h; l2_delete ms l h })"

section \<open>Removing the node just looked up\<close>

text \<open>
  \<^verbatim>\<open>remove\<close> asks \<^verbatim>\<open>operator[]\<close> for the node after it has decremented the length; from a cache
  at the index, as a look-up leaves it, the answer is the right node.
\<close>

lemma remove1_nth: "distinct xs \<Longrightarrow> i < length xs \<Longrightarrow> remove1 (xs ! i) xs = take i xs @ drop (Suc i) xs"
proof -
  assume d: "distinct xs" and i: "i < length xs"
  have x: "xs = take i xs @ xs ! i # drop (Suc i) xs" using i by (rule id_take_nth_drop)
  have "xs ! i \<notin> set (take i xs)" using d x by (metis distinct_append disjoint_insert(1) list.simps(15))
  then show ?thesis by (subst (2) x) (simp add: remove1_append)
qed

lemma list_at_cached:
  assumes "l_current l = x" "l_current_i l = of_nat i" "x \<noteq> NULL" "unat (l_len l) = n" "i < n" "n < 2 ^ 31"
  shows "list_at h l (of_nat i) = Some (x, l)"
proof -
  have l: "l_len l = of_nat n" using assms(4) by auto
  have "\<not> l_len l \<le> of_nat i" using assms(5,6) unfolding l by (simp add: word_le_nat_alt unat_of_nat_small)
  moreover have "\<not> sint (l_len l - of_nat i - 1 :: isize) < 0"
  proof -
    have "l_len l - of_nat i - 1 = of_nat (n - i - 1)" unfolding l using assms(5) by (simp add: of_nat_diff)
    moreover have "sint (of_nat (n - i - 1) :: isize) = int (n - i - 1)"
    proof -
      have "n - i - 1 < 2 ^ 62" using assms(6) by simp
      from sint_diff64 [OF this, of 0] show ?thesis unfolding of_nat_0 diff_zero by simp
    qed
    ultimately show ?thesis by (simp only: not_less of_nat_0_le_iff)
  qed
  moreover have "l\<lparr>l_current := x, l_current_i := of_nat i\<rparr> = l" using assms(1,2) by simp
  ultimately show ?thesis using assms(1-3) by (simp add: list_at_def Let_def walk_here)
qed

lemma list_remove_looked_up:
  assumes r: "list_rep h l xs" and c: "l_current l = xs ! i" "l_current_i l = of_nat i"
    and i: "i < length xs" "length xs < 2 ^ 31"
  shows "\<exists>h' l'. list_remove h l (of_nat i) = Some (xs ! i, h', l') \<and> list_rep h' l' (take i xs @ drop (Suc i) xs) \<and>
    agree_off (set xs) h h'"
proof -
  let ?x = "xs ! i"
  have ne: "xs \<noteq> []" and len: "unat (l_len l) = length xs" using i(1) list_rep_len [OF r] by auto
  have d: "distinct xs" "NULL \<notin> set xs" "l_start l = hd xs" "l_end l = last xs" using r ne by (auto simp: list_rep_def)
  have ln: "l_len l = of_nat (length xs)" using r by (simp add: list_rep_def)
  have l1: "l_len l - 1 = of_nat (length xs - 1)" by (rule list_rep_shrink_len [OF r ne])
  have ok: "\<not> of_nat i > l_len l" using i unfolding ln by (simp add: word_less_nat_alt unat_of_nat_small)
  have e: "(of_nat i :: usize) = l_len l - 1 \<longleftrightarrow> i = length xs - 1" "(of_nat i :: usize) = 0 \<longleftrightarrow> i = 0"
  proof -
    have b: "i < 2 ^ 64" "length xs - 1 < 2 ^ 64" "(0 :: nat) < 2 ^ 64" using i by simp_all
    show "(of_nat i :: usize) = l_len l - 1 \<longleftrightarrow> i = length xs - 1" unfolding l1 using of_nat_neq [OF b(1,2)] by blast
    show "(of_nat i :: usize) = 0 \<longleftrightarrow> i = 0" using of_nat_neq [OF b(1,3)] by auto
  qed
  consider "i = length xs - 1" | "i \<noteq> length xs - 1" "i = 0" | "i \<noteq> length xs - 1" "i \<noteq> 0" by blast
  then show ?thesis
  proof cases
    case 1
    have "?x = last xs" "take i xs @ drop (Suc i) xs = butlast xs" using 1 ne by (simp_all add: last_conv_nth butlast_conv_take)
    with list_pop_spec [OF r ne] ok e 1 show ?thesis by (auto simp: list_remove_def agree_off_def)
  next
    case 2
    have "?x = hd xs" "take i xs @ drop (Suc i) xs = tl xs" using 2 ne by (simp_all add: hd_conv_nth drop_Suc)
    with list_pop_start_spec [OF r ne] ok e 2 show ?thesis by (auto simp: list_remove_def agree_off_def)
  next
    case 3
    have xin: "?x \<in> set xs" using i(1) by simp
    have x0: "?x \<noteq> NULL" using d(2) xin by metis
    from list_remove_p_spec [OF r xin] obtain h' l' where
      p: "list_remove_p h l ?x = Some (h', l')" "list_rep h' l' (remove1 ?x xs)" "agree_off (set xs) h h'" by blast
    have "?x \<noteq> hd xs" "?x \<noteq> last xs"
      using d(1) ne i(1) 3 by (simp_all add: hd_conv_nth last_conv_nth nth_eq_iff_index_eq)
    then have xe: "?x \<noteq> l_start l" "?x \<noteq> l_end l" using d(3,4) by simp_all
    have n0: "l_len l \<noteq> 0" "l_len l - 1 \<noteq> 0"
      using list_rep_len_0 [OF r] list_rep_len_1 [OF r ne] ne i(1) 3 by auto
    have u: "unat (l_len l - 1) = length xs - 1" unfolding l1 by (rule unat_of_nat_small) (use i(2) in simp)
    have at: "list_at h (l\<lparr>l_len := l_len l - 1\<rparr>) (of_nat i) = Some (?x, l\<lparr>l_len := l_len l - 1\<rparr>)"
      by (rule list_at_cached [where n = "length xs - 1"]) (use c x0 u i 3 in \<open>simp_all\<close>)
    have "\<exists>l''. list_remove h l (of_nat i) = Some (?x, h', l'') \<and> l_len l'' = l_len l' \<and> l_start l'' = l_start l' \<and> l_end l'' = l_end l'"
      using p(1) ok e 3 xe n0 at c x0
      by (auto simp: list_remove_def list_remove_p_def Let_def heap_defs split: Option.bind_splits if_splits)
    then obtain l'' where "list_remove h l (of_nat i) = Some (?x, h', l'')" "l_len l'' = l_len l'" "l_start l'' = l_start l'" "l_end l'' = l_end l'"
      by blast
    with p(2,3) show ?thesis by (auto simp: list_rep_def remove1_nth [OF d(1) i(1)])
  qed
qed

section \<open>The list of items\<close>

text \<open>The nodes \<open>ns\<close> of the list point to the items \<open>xs\<close>.\<close>

definition l2_rep :: "node_heap \<Rightarrow> linked_list \<Rightarrow> ptr list \<Rightarrow> ptr list \<Rightarrow> bool" where
  "l2_rep h l ns xs \<longleftrightarrow> list_rep (h_nodes h) l ns \<and> map (h_items h) ns = xs"

lemma l2_rep_len: "l2_rep h l ns xs \<Longrightarrow> unat (l_len l) = length xs" "l2_rep h l ns xs \<Longrightarrow> length ns = length xs"
  by (auto simp: l2_rep_def list_rep_len)

lemma l2_at_spec:
  assumes "l2_rep h l ns xs" "cache_ok l ns" "length xs < 2 ^ 31" "i < length xs"
  shows "l2_at (of_nat i) l h = Some (xs ! i, l\<lparr>l_current := ns ! i, l_current_i := of_nat i\<rparr>)"
proof -
  have r: "list_rep (h_nodes h) l ns" "xs = map (h_items h) ns" using assms(1) by (auto simp: l2_rep_def)
  have n: "length ns < 2 ^ 31" "i < length ns" using assms(3,4) r(2) by simp_all
  have "ns ! i \<noteq> NULL" using r(1) n(2) by (metis list_rep_def nth_mem)
  then show ?thesis using list_at_spec [OF r(1) assms(2) n] n(2) by (simp add: l2_at_def r(2))
qed

text \<open>The heap may keep the node or not; it takes it back without a fault.\<close>

lemma l2_remove_looked_up:
  assumes r: "l2_rep h l ns xs" and c: "l_current l = ns ! i" "l_current_i l = of_nat i"
    and i: "i < length xs" "length xs < 2 ^ 31" and m: "op_delete ms (ns ! i) LIST_NODE2_SIZE (h_mm h) = Some m"
  shows "\<exists>h' l'. l2_remove ms (of_nat i) l h = Some (xs ! i, l', h') \<and> l2_rep h' l' (take i ns @ drop (Suc i) ns) (take i xs @ drop (Suc i) xs) \<and>
    agree_off (set ns) (h_nodes h) (h_nodes h') \<and> h_mm h' = m \<and> h_items h' = h_items h"
proof -
  have x: "list_rep (h_nodes h) l ns" "xs = map (h_items h) ns" using r by (auto simp: l2_rep_def)
  have n: "i < length ns" "length ns < 2 ^ 31" using i x(2) by simp_all
  from list_remove_looked_up [OF x(1) c n] obtain h' l' where
    a: "list_remove (h_nodes h) l (of_nat i) = Some (ns ! i, h', l')" "list_rep h' l' (take i ns @ drop (Suc i) ns)" "agree_off (set ns) (h_nodes h) h'" by blast
  have nn: "ns ! i \<noteq> NULL" using x(1) n(1) by (metis list_rep_def nth_mem)
  have "l2_remove ms (of_nat i) l h = Some (xs ! i, l', h\<lparr>h_nodes := h', h_mm := m\<rparr>)"
    using a(1) m nn n(1) x(2) by (simp add: l2_remove_def take_item_def)
  moreover have "l2_rep (h\<lparr>h_nodes := h', h_mm := m\<rparr>) l' (take i ns @ drop (Suc i) ns) (take i xs @ drop (Suc i) xs)"
    using a(2) by (simp add: l2_rep_def x(2) take_map drop_map)
  ultimately show ?thesis using a(3) by (intro exI [of _ "h\<lparr>h_nodes := h', h_mm := m\<rparr>"] exI [of _ l']) simp
qed

end
