(* ===== verification/Process.thy ===== *)
theory Process
  imports Vmem Sched Template_List
begin

text \<open>
  Processes: \<^verbatim>\<open>src/sched/process.cpp\<close>, the construction and destruction of threads of
  \<^verbatim>\<open>src/sched/thread.cpp\<close> with their memory, and the loader of ELF images. The state puts the
  components together: the scheduler with the shared node heap, the memory manager with the byte
  memory, the zones of the address spaces, and the objects of the processes. \<^term>\<open>None\<close> is a
  \<open>NULL\<close> dereference, a failed assertion, a panic, or a loop that does not return.
\<close>

unbundle bit_operations_syntax

section \<open>Data\<close>

record process =
  pr_pml4 :: usize
  pr_allocs :: linked_list
  pr_threads :: linked_list
  pr_free_id :: usize
  pr_semaphores :: array_list
  pr_uid :: u8

record kernel =
  k_mm :: mm
  k_sched :: sched
  k_zones :: "ptr \<Rightarrow> virt_zone"
  k_items :: "ptr \<Rightarrow> ptr"
  k_procs :: "ptr \<Rightarrow> process"
  k_proc_list :: linked_list
  k_synced :: "usize list"
  k_kernel_pdp :: usize
  k_msr :: "u32 \<Rightarrow> u64"

text \<open>The sizes of the classes and the places of the members of a process, of the code compiled for x64.\<close>

definition PROCESS_SIZE :: usize where "PROCESS_SIZE = 240"
definition THREAD_SIZE :: usize where "THREAD_SIZE = 264"
definition SEMAPHORE_SIZE :: usize where "SEMAPHORE_SIZE = 56"
definition LINKED_LIST_SIZE :: usize where "LINKED_LIST_SIZE = 40"
definition ARRAY_LIST_SIZE :: usize where "ARRAY_LIST_SIZE = 32"
definition ADDR_SPACE_SIZE :: usize where "ADDR_SPACE_SIZE = 136"
definition ADDR_SPACE_OFFSET :: usize where "ADDR_SPACE_OFFSET = 16"
definition THREADS_OFFSET :: usize where "THREADS_OFFSET = 152"
definition SEMAPHORES_OFFSET :: usize where "SEMAPHORES_OFFSET = 200"

definition KUID :: u8 where "KUID = 0"

definition set_proc :: "ptr \<Rightarrow> (process \<Rightarrow> process) \<Rightarrow> kernel \<Rightarrow> kernel" where
  "set_proc p f k = k\<lparr>k_procs := (k_procs k)(p := f (k_procs k p))\<rparr>"

definition proc_c :: "kernel \<Rightarrow> ptr" where
  "proc_c k = th_proc (s_threads (k_sched k) (thread_c (k_sched k)))"

section \<open>Views of the components\<close>

definition as_of :: "ptr \<Rightarrow> kernel \<Rightarrow> addr_space" where
  "as_of p k = \<lparr>as_mm = k_mm k, as_nodes = s_nodes (k_sched k), as_zones = k_zones k, as_kernel_z = p + ADDR_SPACE_OFFSET,
     as_pml4 = pr_pml4 (k_procs k p), as_allocs = pr_allocs (k_procs k p), as_current = (p = proc_c k),
     as_synced = k_synced k, kernel_pdp_table = k_kernel_pdp k\<rparr>"

definition put_as :: "ptr \<Rightarrow> addr_space \<Rightarrow> kernel \<Rightarrow> kernel" where
  "put_as p a k = set_proc p (\<lambda>x. x\<lparr>pr_pml4 := as_pml4 a, pr_allocs := as_allocs a\<rparr>)
     (k\<lparr>k_mm := as_mm a, k_sched := (k_sched k)\<lparr>s_nodes := as_nodes a\<rparr>, k_zones := as_zones a,
        k_synced := as_synced a, k_kernel_pdp := kernel_pdp_table a\<rparr>)"

definition with_as :: "ptr \<Rightarrow> (addr_space \<Rightarrow> ('a \<times> addr_space) option) \<Rightarrow> kernel \<Rightarrow> ('a \<times> kernel) option" where
  "with_as p f k = do { (r, a) \<leftarrow> f (as_of p k); Some (r, put_as p a k) }"

definition on_as :: "ptr \<Rightarrow> (addr_space \<Rightarrow> addr_space option) \<Rightarrow> kernel \<Rightarrow> kernel option" where
  "on_as p f k = do { a \<leftarrow> f (as_of p k); Some (put_as p a k) }"

definition heap_of :: "kernel \<Rightarrow> node_heap" where
  "heap_of k = \<lparr>h_mm = k_mm k, h_nodes = s_nodes (k_sched k), h_items = k_items k\<rparr>"

definition put_heap :: "node_heap \<Rightarrow> kernel \<Rightarrow> kernel" where
  "put_heap h k = k\<lparr>k_mm := h_mm h, k_sched := (k_sched k)\<lparr>s_nodes := h_nodes h\<rparr>, k_items := h_items h\<rparr>"

definition k_with_mm :: "(mm \<Rightarrow> ('a \<times> mm) option) \<Rightarrow> kernel \<Rightarrow> ('a \<times> kernel) option" where
  "k_with_mm f k = do { (r, m) \<leftarrow> f (k_mm k); Some (r, k\<lparr>k_mm := m\<rparr>) }"

definition k_on_mm :: "(mm \<Rightarrow> mm option) \<Rightarrow> kernel \<Rightarrow> kernel option" where
  "k_on_mm f k = do { m \<leftarrow> f (k_mm k); Some (k\<lparr>k_mm := m\<rparr>) }"

definition on_sched :: "(sched \<Rightarrow> sched option) \<Rightarrow> kernel \<Rightarrow> kernel option" where
  "on_sched f k = do { s \<leftarrow> f (k_sched k); Some (k\<lparr>k_sched := s\<rparr>) }"

definition with_sched :: "(sched \<Rightarrow> ('a \<times> sched) option) \<Rightarrow> kernel \<Rightarrow> ('a \<times> kernel) option" where
  "with_sched f k = do { (r, s) \<leftarrow> f (k_sched k); Some (r, k\<lparr>k_sched := s\<rparr>) }"

text \<open>The member \<open>threads\<close> of a process.\<close>

definition threads_append :: "ptr \<Rightarrow> ptr \<Rightarrow> ptr \<Rightarrow> kernel \<Rightarrow> (bool \<times> kernel) option" where
  "threads_append ms p t k = do {
     (b, l, h) \<leftarrow> l2_append ms t (pr_threads (k_procs k p)) (heap_of k);
     Some (b, set_proc p (\<lambda>x. x\<lparr>pr_threads := l\<rparr>) (put_heap h k))
   }"

definition threads_at :: "ptr \<Rightarrow> usize \<Rightarrow> kernel \<Rightarrow> (ptr \<times> kernel) option" where
  "threads_at p i k = do {
     (t, l) \<leftarrow> l2_at i (pr_threads (k_procs k p)) (heap_of k);
     Some (t, set_proc p (\<lambda>x. x\<lparr>pr_threads := l\<rparr>) k)
   }"

definition threads_remove :: "ptr \<Rightarrow> ptr \<Rightarrow> usize \<Rightarrow> kernel \<Rightarrow> kernel option" where
  "threads_remove ms p i k = do {
     (_, l, h) \<leftarrow> l2_remove ms i (pr_threads (k_procs k p)) (heap_of k);
     Some (set_proc p (\<lambda>x. x\<lparr>pr_threads := l\<rparr>) (put_heap h k))
   }"

definition threads_delete :: "ptr \<Rightarrow> ptr \<Rightarrow> kernel \<Rightarrow> kernel option" where
  "threads_delete ms p k = do {
     (l, h) \<leftarrow> l2_delete ms (pr_threads (k_procs k p)) (heap_of k);
     Some (set_proc p (\<lambda>x. x\<lparr>pr_threads := l\<rparr>) (put_heap h k))
   }"

definition threads_len :: "ptr \<Rightarrow> kernel \<Rightarrow> usize" where "threads_len p k = l_len (pr_threads (k_procs k p))"

section \<open>Construction and destruction of processes\<close>

text \<open>
  The members in the order of the class, then the body; the object is cleared by the heap. The
  scheduler reads the user id and the page table root through its own view of the process.
\<close>

definition process_new :: "ptr \<Rightarrow> usize \<Rightarrow> u8 \<Rightarrow> kernel \<Rightarrow> (ptr \<times> kernel) option" where
  "process_new ms PDP_table uid k = do {
     (p, k) \<leftarrow> k_with_mm (op_new ms PROCESS_SIZE) k;
     if p = NULL then None
     else do {
       k \<leftarrow> on_as p (as_new ms PDP_table) k;
       let k = set_proc p (\<lambda>x. x\<lparr>pr_threads := new_list, pr_free_id := 0\<rparr>) k;
       (a, k) \<leftarrow> k_with_mm (al_new ms False) k;
       let k = set_proc p (\<lambda>x. x\<lparr>pr_semaphores := a, pr_uid := uid\<rparr>) k;
       (ns, l) \<leftarrow> list_append (s_nodes (k_sched k)) (k_proc_list k) p;
       Some (p, k\<lparr>k_proc_list := l, k_sched := (k_sched k)\<lparr>s_nodes := ns,
         s_procs := (s_procs (k_sched k))(p := \<lparr>pv_uid = uid, pv_cr3 = pr_pml4 (k_procs k p) - kernel_vma (k_mm k)\<rparr>)\<rparr>\<rparr>)
     }
   }"

text \<open>\<^verbatim>\<open>reset_destroy\<close> ends with \<^verbatim>\<open>delete this\<close>.\<close>

partial_function (option) destroy_semaphores :: "ptr \<Rightarrow> ptr \<Rightarrow> usize \<Rightarrow> kernel \<Rightarrow> kernel option" where
  "destroy_semaphores ms p i k =
     (if i < al_len (pr_semaphores (k_procs k p)) then do {
        q \<leftarrow> al_get i (pr_semaphores (k_procs k p)) (k_mm k);
        if q = NULL then None
        else do {
          k \<leftarrow> on_sched (sem_reset_destroy q) k;
          k \<leftarrow> k_on_mm (op_delete ms q SEMAPHORE_SIZE) k;
          destroy_semaphores ms p (i + 1) k
        }
      }
      else Some k)"

text \<open>The result says whether the running thread was switched away from; the rest is then not run.\<close>

partial_function (option) destroy_threads :: "ptr \<Rightarrow> usize \<Rightarrow> kernel \<Rightarrow> (bool \<times> kernel) option" where
  "destroy_threads p i k =
     (if i < threads_len p k then do {
        (t, k) \<leftarrow> threads_at p i k;
        if t = NULL then None
        else do {
          let k = k\<lparr>k_sched := set_thread t (\<lambda>x. x\<lparr>th_process_alive := False\<rparr>) (k_sched k)\<rparr>;
          (sw, k) \<leftarrow> (if t \<noteq> thread_c (k_sched k) then with_sched (block t 2) k else Some (False, k));
          if sw then Some (True, k) else destroy_threads p (i + 1) k
        }
      }
      else Some (False, k))"

text \<open>The members destroyed at the end of the destructor, last one first.\<close>

definition destroy_members :: "ptr \<Rightarrow> ptr \<Rightarrow> kernel \<Rightarrow> kernel option" where
  "destroy_members ms p k = do {
     k \<leftarrow> k_on_mm (al_delete ms SEMAPHORE_SIZE (pr_semaphores (k_procs k p))) k;
     k \<leftarrow> threads_delete ms p k;
     on_as p (as_delete ms) k
   }"

definition process_dtor :: "ptr \<Rightarrow> ptr \<Rightarrow> kernel \<Rightarrow> (bool \<times> kernel) option" where
  "process_dtor ms p k = do {
     (ns, l) \<leftarrow> list_remove_p (s_nodes (k_sched k)) (k_proc_list k) p;
     let k = k\<lparr>k_proc_list := l, k_sched := (k_sched k)\<lparr>s_nodes := ns\<rparr>\<rparr>;
     k \<leftarrow> destroy_semaphores ms p 0 k;
     (sw, k) \<leftarrow> destroy_threads p 0 k;
     if sw then Some (True, k)
     else do {
       (sw, k) \<leftarrow>
         (if p = proc_c k then do {
            k \<leftarrow> threads_delete ms p k;
            k \<leftarrow> k_on_mm (op_delete ms (p + THREADS_OFFSET) LINKED_LIST_SIZE) k;
            k \<leftarrow> k_on_mm (al_delete ms SEMAPHORE_SIZE (pr_semaphores (k_procs k p))) k;
            k \<leftarrow> k_on_mm (op_delete ms (p + SEMAPHORES_OFFSET) ARRAY_LIST_SIZE) k;
            k \<leftarrow> on_as p (as_delete ms) k;
            k \<leftarrow> k_on_mm (op_delete ms (p + ADDR_SPACE_OFFSET) ADDR_SPACE_SIZE) k;
            k \<leftarrow> k_on_mm (kfree ms p PROCESS_SIZE) k;
            with_sched (block (thread_c (k_sched k)) 2) k
          }
          else Some (False, k));
       if sw then Some (True, k)
       else do { k \<leftarrow> destroy_members ms p k; Some (False, k) }
     }
   }"

definition process_delete :: "ptr \<Rightarrow> ptr \<Rightarrow> kernel \<Rightarrow> (bool \<times> kernel) option" where
  "process_delete ms p k =
     (if p = NULL then Some (False, k)
      else do {
        (sw, k) \<leftarrow> process_dtor ms p k;
        if sw then Some (True, k) else do { k \<leftarrow> k_on_mm (op_delete ms p PROCESS_SIZE) k; Some (False, k) }
      })"

section \<open>Threads of a process\<close>

definition add_thread :: "ptr \<Rightarrow> ptr \<Rightarrow> ptr \<Rightarrow> kernel \<Rightarrow> (bool \<times> kernel) option" where
  "add_thread ms p t k = threads_append ms p t k"

partial_function (option) rem_thread_loop :: "ptr \<Rightarrow> ptr \<Rightarrow> ptr \<Rightarrow> usize \<Rightarrow> kernel \<Rightarrow> kernel option" where
  "rem_thread_loop ms p thr i k =
     (if i < threads_len p k then do {
        (t, k) \<leftarrow> threads_at p i k;
        if thr = t then threads_remove ms p i k else rem_thread_loop ms p thr (i + 1) k
      }
      else Some k)"

definition rem_thread :: "ptr \<Rightarrow> ptr \<Rightarrow> ptr \<Rightarrow> kernel \<Rightarrow> (bool \<times> kernel) option" where
  "rem_thread ms p thr k = do {
     k \<leftarrow> rem_thread_loop ms p thr 0 k;
     if threads_len p k = 0 then process_delete ms p k else Some (False, k)
   }"

definition zero_regs :: registers where
  "zero_regs = kernel_regs\<lparr>r_rflags := 0, r_cs := 0, r_ss := 0\<rparr>"

definition zero_thread :: thread where
  "zero_thread = \<lparr>th_regs = zero_regs, th_time = 0, th_state = 0, th_proc = NULL, th_stack_start = 0, th_stack_size = 0,
     th_kstack_start = 0, th_kstack_size = 0, th_sleep_time = 0, th_process_alive = False, th_name = None\<rparr>"

text \<open>
  \<^verbatim>\<open>new thread (name, proc, func, stack_size)\<close>: the stacks, the registration with the scheduler,
  and the registration with the process. The last one stands inside an \<^verbatim>\<open>assert\<close>, which is
  empty unless the kernel is built with \<^verbatim>\<open>-D debug\<close>: \<open>dbg\<close> says which build it is.
\<close>

definition thread_new :: "ptr \<Rightarrow> bool \<Rightarrow> string option \<Rightarrow> ptr \<Rightarrow> usize \<Rightarrow> usize \<Rightarrow> kernel \<Rightarrow> (ptr \<times> kernel) option" where
  "thread_new ms dbg name p func stack_size k = do {
     (t, k) \<leftarrow> k_with_mm (op_new ms THREAD_SIZE) k;
     if t = NULL then None
     else do {
       let k = k\<lparr>k_sched := (set_thread t (\<lambda>_. zero_thread) (k_sched k))
         \<lparr>s_nodes := (s_nodes (k_sched k))(t := \<lparr>n_prev = NULL, n_next = NULL\<rparr>)\<rparr>\<rparr>;
       (stack, kstack, k) \<leftarrow>
         (if init_done (k_sched k) then
            if pr_uid (k_procs k p) \<noteq> 0 then do {
              (stack, k) \<leftarrow> with_as p (as_alloc ms stack_size (V_XD OR V_WRITE OR V_USER)) k;
              (kstack, k) \<leftarrow> k_with_mm (kalloc ms KSTACK_SIZE) k;
              Some (stack, kstack, k)
            }
            else do { (stack, k) \<leftarrow> k_with_mm (kalloc ms stack_size) k; Some (stack, NULL, k) }
          else Some (NULL, NULL, k));
       k \<leftarrow> on_sched (thread_init t p name stack_size func stack kstack True) k;
       if dbg then do { (b, k) \<leftarrow> add_thread ms p t k; if b then Some (t, k) else None }
       else Some (t, k)
     }
   }"

definition thread_delete :: "ptr \<Rightarrow> ptr \<Rightarrow> kernel \<Rightarrow> (bool \<times> kernel) option" where
  "thread_delete ms t k =
     (if t = NULL then Some (False, k)
      else do {
        let x = s_threads (k_sched k) t;
        (sw, k) \<leftarrow>
          (if th_process_alive x then do {
             k \<leftarrow> on_as (th_proc x) (as_free ms (th_stack_start x)) k;
             k \<leftarrow> (if th_kstack_size x \<noteq> 0 then on_as (th_proc x) (as_free ms (th_kstack_start x)) k else Some k);
             rem_thread ms (th_proc x) t k
           }
           else Some (False, k));
        if sw then Some (True, k) else do { k \<leftarrow> k_on_mm (op_delete ms t THREAD_SIZE) k; Some (False, k) }
      })"

text \<open>The result says whether the deletion of the thread on failure switched.\<close>

definition new_thread :: "ptr \<Rightarrow> bool \<Rightarrow> ptr \<Rightarrow> string option \<Rightarrow> usize \<Rightarrow> kernel \<Rightarrow> (bool \<times> ptr \<times> kernel) option" where
  "new_thread ms dbg p name func k = do {
     (out, k) \<leftarrow> thread_new ms dbg name p func STACK_INITIAL_SIZE k;
     if out = NULL then Some (False, NULL, k)
     else do {
       (b, k) \<leftarrow> add_thread ms p out k;
       if \<not> b then do { (sw, k) \<leftarrow> thread_delete ms out k; Some (sw, NULL, k) }
       else Some (False, out, k)
     }
   }"

section \<open>Semaphores of a process\<close>

partial_function (option) next_free_loop :: "ptr \<Rightarrow> usize \<Rightarrow> kernel \<Rightarrow> (usize \<times> kernel) option" where
  "next_free_loop p j k =
     (if j < al_len (pr_semaphores (k_procs k p)) then do {
        q \<leftarrow> al_get j (pr_semaphores (k_procs k p)) (k_mm k);
        if q = NULL then Some (j, set_proc p (\<lambda>x. x\<lparr>pr_free_id := j\<rparr>) k)
        else next_free_loop p (j + 1) k
      }
      else Some (j, k))"

definition create_semaphore :: "ptr \<Rightarrow> ptr \<Rightarrow> usize \<Rightarrow> kernel \<Rightarrow> (usize \<times> kernel) option" where
  "create_semaphore ms p n k = do {
     (sem, k) \<leftarrow> k_with_mm (op_new ms SEMAPHORE_SIZE) k;
     if sem = NULL then Some (- 1, k)
     else do {
       let k = k\<lparr>k_sched := set_sem sem (\<lambda>_. sem_new n) (k_sched k)\<rparr>;
       let i = pr_free_id (k_procs k p);
       k \<leftarrow> (if pr_free_id (k_procs k p) = al_len (pr_semaphores (k_procs k p))
              then Some (set_proc p (\<lambda>x. x\<lparr>pr_free_id := pr_free_id x + 1\<rparr>) k)
              else do {
                (j, k) \<leftarrow> next_free_loop p (pr_free_id (k_procs k p) + 1) k;
                Some (if j = al_len (pr_semaphores (k_procs k p)) then set_proc p (\<lambda>x. x\<lparr>pr_free_id := j\<rparr>) k else k)
              });
       (b, m) \<leftarrow> al_set i sem (pr_semaphores (k_procs k p)) (k_mm k);
       let k = k\<lparr>k_mm := m\<rparr>;
       Some (if b then i else - 1, k)
     }
   }"

definition get_semaphore :: "ptr \<Rightarrow> usize \<Rightarrow> kernel \<Rightarrow> ptr option" where
  "get_semaphore p sem_id k = al_get sem_id (pr_semaphores (k_procs k p)) (k_mm k)"

text \<open>\<^verbatim>\<open>reset_ready\<close> may switch; what follows then runs later.\<close>

definition delete_semaphore :: "ptr \<Rightarrow> ptr \<Rightarrow> usize \<Rightarrow> kernel \<Rightarrow> (bool \<times> bool \<times> kernel) option" where
  "delete_semaphore ms p sem_id k = do {
     q \<leftarrow> al_get sem_id (pr_semaphores (k_procs k p)) (k_mm k);
     if q = NULL then Some (False, False, k)
     else do {
       let k = (if sem_id < pr_free_id (k_procs k p) then set_proc p (\<lambda>x. x\<lparr>pr_free_id := sem_id\<rparr>) k else k);
       (sw, k) \<leftarrow> with_sched (sem_reset_ready q) k;
       if sw then Some (True, True, k)
       else do {
         k \<leftarrow> k_on_mm (op_delete ms q SEMAPHORE_SIZE) k;
         (_, m) \<leftarrow> al_set sem_id NULL (pr_semaphores (k_procs k p)) (k_mm k);
         Some (False, True, k\<lparr>k_mm := m\<rparr>)
       }
     }
   }"

section \<open>The loader\<close>

definition rd16 :: "bytes \<Rightarrow> ptr \<Rightarrow> u16" where "rd16 m a = ucast (m a) OR push_bit 8 (ucast (m (a + 1)))"

definition ELF_MAGIC :: u32 where "ELF_MAGIC = 0x464c457f"
definition ELF_64_BIT :: u8 where "ELF_64_BIT = 2"
definition ELF_LITTLE_ENDIAN :: u8 where "ELF_LITTLE_ENDIAN = 1"
definition ELF_SYSTEM_V :: u8 where "ELF_SYSTEM_V = 0"
definition ELF_x64 :: u16 where "ELF_x64 = 0x3e"
definition ELF_P_LOAD :: u32 where "ELF_P_LOAD = 1"
definition ELF_EXEC :: u32 where "ELF_EXEC = 1"
definition ELF_WRITE :: u32 where "ELF_WRITE = 2"

record elf_header =
  eh_magic :: u32
  eh_bits :: u8
  eh_endian :: u8
  eh_abi :: u8
  eh_arch :: u16
  eh_entry :: usize
  eh_p_hdr :: usize
  eh_p_hdr_entry_size :: u16
  eh_p_hdr_n :: u16

record elf_p_header =
  ph_type :: u32
  ph_flags :: u32
  ph_offset :: usize
  ph_vaddr :: usize
  ph_filesz :: usize
  ph_memsz :: usize

definition P_HEADER_SIZE :: usize where "P_HEADER_SIZE = 56"

definition rd_header :: "bytes \<Rightarrow> ptr \<Rightarrow> elf_header" where
  "rd_header m a = \<lparr>eh_magic = rd32 m a, eh_bits = m (a + 4), eh_endian = m (a + 5), eh_abi = m (a + 7), eh_arch = rd16 m (a + 18),
     eh_entry = rd64 m (a + 24), eh_p_hdr = rd64 m (a + 32), eh_p_hdr_entry_size = rd16 m (a + 54), eh_p_hdr_n = rd16 m (a + 56)\<rparr>"

definition rd_p_header :: "bytes \<Rightarrow> ptr \<Rightarrow> elf_p_header" where
  "rd_p_header m a = \<lparr>ph_type = rd32 m a, ph_flags = rd32 m (a + 4), ph_offset = rd64 m (a + 8), ph_vaddr = rd64 m (a + 16),
     ph_filesz = rd64 m (a + 32), ph_memsz = rd64 m (a + 40)\<rparr>"

definition header_at :: "ptr \<Rightarrow> kernel \<Rightarrow> elf_header" where
  "header_at program k = rd_header (pm_bytes (mm_pm (k_mm k))) program"

text \<open>The loop over the program headers; the answer is whether it came to its end.\<close>

partial_function (option) load_loop :: "ptr \<Rightarrow> ptr \<Rightarrow> usize \<Rightarrow> usize \<Rightarrow> usize \<Rightarrow> u8 \<Rightarrow> ptr \<Rightarrow> kernel \<Rightarrow> (bool \<times> kernel) option" where
  "load_loop ms p_hdrs i prgrm len uid out k =
     (if i < ucast (eh_p_hdr_n (header_at prgrm k)) then
        let p_hdr = rd_p_header (pm_bytes (mm_pm (k_mm k))) (p_hdrs + P_HEADER_SIZE * i)
        in if ph_type p_hdr \<noteq> ELF_P_LOAD then load_loop ms p_hdrs (i + 1) prgrm len uid out k
        else if ph_offset p_hdr + ph_filesz p_hdr > len then Some (False, k)
        else do {
          (mem, k) \<leftarrow> k_with_mm (mem_allocz (ph_memsz p_hdr)) k;
          if mem = NULL then Some (False, k)
          else do {
            let k = k\<lparr>k_mm := (k_mm k)\<lparr>mm_pm := copy_range (mem + ph_vaddr p_hdr mod PAGE_SIZE) (prgrm + ph_offset p_hdr)
              (ph_filesz p_hdr) (mm_pm (k_mm k))\<rparr>\<rparr>;
            let flags = (if ph_flags p_hdr AND ELF_EXEC \<noteq> 0 then 0 else V_XD) OR
              (if ph_flags p_hdr AND ELF_WRITE \<noteq> 0 then V_WRITE else 0) OR (if uid = 0 then 0 else V_USER);
            (b, k) \<leftarrow> with_as out (as_map_at ms mem (ph_vaddr p_hdr) (ph_memsz p_hdr) flags) k;
            if \<not> b then Some (False, k) else load_loop ms p_hdrs (i + 1) prgrm len uid out k
          }
        }
      else Some (True, k))"

text \<open>
  The prints are left out. Deleting the half-built process cannot switch unless it is the running
  one; the flag is passed on.
\<close>

definition load_elf :: "ptr \<Rightarrow> bool \<Rightarrow> usize \<Rightarrow> ptr \<Rightarrow> usize \<Rightarrow> u8 \<Rightarrow> kernel \<Rightarrow> (bool \<times> ptr \<times> kernel) option" where
  "load_elf ms dbg PDP_table program len uid k =
     (let hdr = header_at program k
      in if eh_magic hdr \<noteq> ELF_MAGIC \<or> eh_bits hdr \<noteq> ELF_64_BIT \<or> eh_endian hdr \<noteq> ELF_LITTLE_ENDIAN \<or> eh_abi hdr \<noteq> ELF_SYSTEM_V \<or>
            eh_arch hdr \<noteq> ELF_x64 \<or> ucast (eh_p_hdr_entry_size hdr) \<noteq> P_HEADER_SIZE then Some (False, NULL, k)
         else if eh_p_hdr hdr + ucast (eh_p_hdr_n hdr) * ucast (eh_p_hdr_entry_size hdr) > program + len then Some (False, NULL, k)
         else do {
           (out, k) \<leftarrow> process_new ms PDP_table uid k;
           if out = NULL then Some (False, NULL, k)
           else do {
             let p_hdrs = program + eh_p_hdr (header_at program k);
             (b, k) \<leftarrow> load_loop ms p_hdrs 0 program len uid out k;
             if \<not> b then do { (sw, k) \<leftarrow> process_delete ms out k; Some (sw, NULL, k) }
             else do {
               (sw, t, k) \<leftarrow> new_thread ms dbg out (Some ''user_main_thread'') (eh_entry (header_at program k)) k;
               if sw then Some (True, NULL, k)
               else if t = NULL then do { (sw, k) \<leftarrow> process_delete ms out k; Some (sw, NULL, k) }
               else Some (False, out, k)
             }
           }
         })"

section \<open>Start and system calls\<close>

definition EFER_MSR :: u32 where "EFER_MSR = 0xc0000080"
definition STAR_MSR :: u32 where "STAR_MSR = 0xc0000081"
definition LSTAR_MSR :: u32 where "LSTAR_MSR = 0xc0000082"
definition FMASK_MSR :: u32 where "FMASK_MSR = 0xc0000084"
definition GSBASE_MSR :: u32 where "GSBASE_MSR = 0xC0000101"
definition GSBASEK_MSR :: u32 where "GSBASEK_MSR = 0xC0000102"
definition EFER_NXE :: u64 where "EFER_NXE = push_bit 11 1"

definition wrmsr :: "u32 \<Rightarrow> u64 \<Rightarrow> kernel \<Rightarrow> kernel" where
  "wrmsr r v k = k\<lparr>k_msr := (k_msr k)(r := v)\<rparr>"

definition proc_init :: "ptr \<Rightarrow> bool \<Rightarrow> usize \<Rightarrow> kernel \<Rightarrow> kernel option" where
  "proc_init ms dbg PDP_table k = do {
     let k = wrmsr EFER_MSR (k_msr k EFER_MSR OR EFER_NXE) k;
     (l, k) \<leftarrow> k_with_mm (op_new ms LINKED_LIST_SIZE) k;
     if l = NULL then None
     else do {
       let k = k\<lparr>k_proc_list := new_list\<rparr>;
       (p, k) \<leftarrow> process_new ms PDP_table KUID k;
       (t, k) \<leftarrow> thread_new ms dbg (Some ''kidle_thread'') p NULL 0 k;
       (_, k) \<leftarrow> add_thread ms (proc_c k) t k;
       Some (k\<lparr>k_sched := (k_sched k)\<lparr>cr3 := pr_pml4 (k_procs k p) - kernel_vma (k_mm k)\<rparr>\<rparr>)
     }
   }"

definition call_init :: "u64 \<Rightarrow> kernel \<Rightarrow> kernel" where
  "call_init syscall_entry k =
     (let k = wrmsr EFER_MSR (k_msr k EFER_MSR OR 1) k;
          k = wrmsr LSTAR_MSR syscall_entry k;
          k = wrmsr FMASK_MSR 0b1000000000 k
      in wrmsr STAR_MSR 0x0013000800000000 k)"

definition kdata_init :: "ptr \<Rightarrow> kernel \<Rightarrow> kernel" where
  "kdata_init data k = wrmsr GSBASEK_MSR data (wrmsr GSBASE_MSR data k)"

definition sys_exit :: "ptr \<Rightarrow> kernel \<Rightarrow> (bool \<times> kernel) option" where
  "sys_exit ms k = process_delete ms (proc_c k) k"

definition sys_create_semaphore :: "ptr \<Rightarrow> usize \<Rightarrow> kernel \<Rightarrow> (usize \<times> kernel) option" where
  "sys_create_semaphore ms n k = create_semaphore ms (proc_c k) n k"

definition sys_delete_semaphore :: "ptr \<Rightarrow> usize \<Rightarrow> kernel \<Rightarrow> (bool \<times> usize \<times> kernel) option" where
  "sys_delete_semaphore ms sem_id k = do { (sw, b, k) \<leftarrow> delete_semaphore ms (proc_c k) sem_id k; Some (sw, if b then 1 else 0, k) }"

definition sys_semaphore_lock :: "usize \<Rightarrow> kernel \<Rightarrow> (bool \<times> kernel) option" where
  "sys_semaphore_lock sem_id k = do {
     q \<leftarrow> get_semaphore (proc_c k) sem_id k;
     if q = NULL then None else with_sched (sem_lock q) k
   }"

definition sys_semaphore_try_lock :: "usize \<Rightarrow> kernel \<Rightarrow> (bool \<times> kernel) option" where
  "sys_semaphore_try_lock sem_id k = do {
     q \<leftarrow> get_semaphore (proc_c k) sem_id k;
     if q = NULL then None else with_sched (\<lambda>s. Some (sem_try_lock q s)) k
   }"

definition sys_semaphore_unlock :: "usize \<Rightarrow> kernel \<Rightarrow> (bool \<times> kernel) option" where
  "sys_semaphore_unlock sem_id k = do {
     q \<leftarrow> get_semaphore (proc_c k) sem_id k;
     if q = NULL then None else with_sched (sem_unlock q) k
   }"

definition sys_thread_new :: "ptr \<Rightarrow> bool \<Rightarrow> usize \<Rightarrow> kernel \<Rightarrow> (bool \<times> bool \<times> kernel) option" where
  "sys_thread_new ms dbg func k = do {
     (sw, t, k) \<leftarrow> new_thread ms dbg (proc_c k) (Some ''<user_thread>'') func k;
     Some (sw, t \<noteq> NULL, k)
   }"

definition sys_realloc :: "ptr \<Rightarrow> ptr \<Rightarrow> usize \<Rightarrow> kernel \<Rightarrow> (usize \<times> kernel) option" where
  "sys_realloc ms mem n k = with_as (proc_c k) (as_realloc ms mem n (V_USER OR V_WRITE OR V_XD)) k"

definition sched_thread_block :: "usize \<Rightarrow> usize \<Rightarrow> kernel \<Rightarrow> (bool \<times> kernel) option" where
  "sched_thread_block reason nsec k = with_sched (sys_thread_block reason nsec) k"

text \<open>The table of system calls; the second entry is \<open>NULL\<close>.\<close>

datatype syscall_fn = Hi | Thread_New | Thread_Block | Exit | Create_Semaphore | Delete_Semaphore | Semaphore_Lock
  | Semaphore_Try_Lock | Semaphore_Unlock | Realloc

definition syscalls :: "syscall_fn option list" where
  "syscalls = [Some Hi, None, Some Thread_New, Some Thread_Block, Some Exit, Some Create_Semaphore, Some Delete_Semaphore,
     Some Semaphore_Lock, Some Semaphore_Try_Lock, Some Semaphore_Unlock, Some Realloc] @ replicate 5 None"

text \<open>
  The call of an entry, with the first two arguments; the answer is what \<^verbatim>\<open>rax\<close> holds, and
  \<^term>\<open>- 1\<close> for a number above 10. \<^verbatim>\<open>hi\<close> prints.
\<close>

definition syscall :: "ptr \<Rightarrow> bool \<Rightarrow> u32 \<Rightarrow> usize \<Rightarrow> usize \<Rightarrow> kernel \<Rightarrow> (bool \<times> usize option \<times> kernel) option" where
  "syscall ms dbg n a b k =
     (if n > 10 then Some (False, Some (- 1), k)
      else case syscalls ! unat n of
        None \<Rightarrow> None
      | Some Hi \<Rightarrow> Some (False, None, k)
      | Some Thread_New \<Rightarrow> do { (sw, r, k) \<leftarrow> sys_thread_new ms dbg a k; Some (sw, Some (if r then 1 else 0), k) }
      | Some Thread_Block \<Rightarrow> do { (sw, k) \<leftarrow> sched_thread_block a b k; Some (sw, None, k) }
      | Some Exit \<Rightarrow> do { (sw, k) \<leftarrow> sys_exit ms k; Some (sw, None, k) }
      | Some Create_Semaphore \<Rightarrow> do { (r, k) \<leftarrow> sys_create_semaphore ms a k; Some (False, Some r, k) }
      | Some Delete_Semaphore \<Rightarrow> do { (sw, r, k) \<leftarrow> sys_delete_semaphore ms a k; Some (sw, Some r, k) }
      | Some Semaphore_Lock \<Rightarrow> do { (sw, k) \<leftarrow> sys_semaphore_lock a k; Some (sw, None, k) }
      | Some Semaphore_Try_Lock \<Rightarrow> do { (r, k) \<leftarrow> sys_semaphore_try_lock a k; Some (False, Some (if r then 1 else 0), k) }
      | Some Semaphore_Unlock \<Rightarrow> do { (sw, k) \<leftarrow> sys_semaphore_unlock a k; Some (sw, None, k) }
      | Some Realloc \<Rightarrow> do { (r, k) \<leftarrow> sys_realloc ms a b k; Some (False, Some r, k) })"

end
