(* ===== verification/Process_Props.thy ===== *)
theory Process_Props
  imports Process Sched_Props
begin

text \<open>
  Processes and threads over the whole state: what the semaphore table of a process does, what
  \<^verbatim>\<open>process::new_thread\<close> leaves in its list of threads, and what \<^verbatim>\<open>process::rem_thread\<close> takes out.
\<close>

unbundle bit_operations_syntax

section \<open>The heap below\<close>

abbreviation k_bytes :: "kernel \<Rightarrow> bytes" where "k_bytes k \<equiv> pm_bytes (mm_pm (k_mm k))"

definition bodies :: "chunk list \<Rightarrow> ptr set" where "bodies cs = \<Union> (body ` set cs)"

lemma first_fit_taken:
  assumes h: "heap_ok ms m xs" and f: "first_fit n xs = Some (z, ys)" and n: "16 dvd unat n" "n \<noteq> 0"
  shows "z \<in> bodies xs" "z \<notin> bodies ys"
proof -
  from first_fit_Some [OF f] obtain us sz vs where
    x: "xs = us @ (z, sz) # vs" "n \<le> sz" "ys = us @ (if sz = n then [] else [(z + n, sz - n)]) @ vs" by blast
  have ok: "chunk_ok c" if "c \<in> set xs" for c using h that by (auto simp: heap_ok_def)
  have c: "chunk_ok (z, sz)" using ok x(1) by simp
  show "z \<in> bodies xs" using c x(1) by (auto simp: body_iff bodies_def)
  have "z \<notin> body d" if "d \<in> set us \<union> set vs" for d
  proof -
    have "away d (z, sz) \<or> away (z, sz) d" using h that unfolding x(1) heap_ok_def by (auto simp: sorted_wrt_append)
    moreover have "chunk_ok d" using ok that x(1) by auto
    ultimately show ?thesis by (auto simp: away_def body_iff)
  qed
  moreover have "z \<notin> body (z + n, sz - n)" if "sz \<noteq> n"
  proof -
    have "n < sz" using x(2) that by (rule le_neq_trans [OF _ not_sym])
    then have lt: "unat n < unat sz" by (simp only: word_less_nat_alt)
    have d: "16 dvd unat sz" using h x(1) by (auto simp: heap_ok_def)
    have ss: "unat (sz - n) = unat sz - unat n" using x(2) by (simp add: word_le_nat_alt unat_sub)
    have "16 dvd unat (sz - n)" unfolding ss using d n(1) by (rule dvd_diff_nat)
    moreover have "0 < unat (sz - n)" using lt ss by simp
    ultimately have m: "16 \<le> unat (sz - n)" by (auto dest: dvd_imp_le)
    have le: "unat z + unat n < 2 ^ 64" using c m unfolding ss chunk_ok_def fst_conv snd_conv by linarith
    then have zn: "unat (z + n) = unat z + unat n" by (subst unat_add_noov) simp_all
    have "chunk_ok (z + n, sz - n)" using c m ss zn lt by (simp add: chunk_ok_def)
    moreover have "0 < unat n" using n(2) by (simp add: unat_gt_0)
    ultimately show ?thesis using zn by (simp add: body_iff)
  qed
  ultimately show "z \<notin> bodies ys" unfolding x(3) bodies_def by auto
qed

lemma k_alloc_spec:
  assumes h: "heap_ok ms (k_bytes k) cs" and f: "first_fit (round16 n) cs = Some (z, cs')" "cs' \<noteq> []" and n: "n \<noteq> 0" "unat n < 2 ^ 63"
  shows "\<exists>m. kalloc ms n (k_mm k) = Some (z, upd_bytes (\<lambda>_. m) (k_mm k)) \<and> heap_ok ms m cs'"
    and "z \<noteq> NULL" "z \<in> bodies cs" "z \<notin> bodies cs'" "bodies cs' \<subseteq> bodies cs"
proof -
  have nn: "unat n + 15 < 2 ^ 64" using n(2) by simp
  note r = unat_round16(2,3) [OF nn] 
  have d: "16 dvd unat (round16 n)" "round16 n \<noteq> 0" using unat_round16 [OF nn] n(1) by auto
  show "\<exists>m. kalloc ms n (k_mm k) = Some (z, upd_bytes (\<lambda>_. m) (k_mm k)) \<and> heap_ok ms m cs'"
    using kalloc_spec [OF h f n] by blast
  have "\<not> z < 16" by (rule first_fit_bodies(2) [OF h f(1) d(1)])
  then show "z \<noteq> NULL" by auto
  show "z \<in> bodies cs" "z \<notin> bodies cs'" by (rule first_fit_taken [OF h f(1) d])+
  show "bodies cs' \<subseteq> bodies cs" unfolding bodies_def by (rule first_fit_bodies(1) [OF h f(1) d(1)])
qed

section \<open>Semaphores of a process\<close>

lemma set_proc_simps [simp]:
  "k_procs (set_proc p f k) = (k_procs k)(p := f (k_procs k p))" "k_mm (set_proc p f k) = k_mm k"
  "k_sched (set_proc p f k) = k_sched k" "k_items (set_proc p f k) = k_items k" "proc_c (set_proc p f k) = proc_c k"
  by (simp_all add: set_proc_def proc_c_def)

lemma al_get_empty: "al_len a = 0 \<Longrightarrow> al_get i a s = Some NULL" "al_len a = 0 \<Longrightarrow> al_set i v a s = Some (False, s)"
  by (simp_all add: al_get_def al_set_def)

lemma next_free_empty: "al_len (pr_semaphores (k_procs k q)) = 0 \<Longrightarrow> next_free_loop q j k = Some (j, k)"
  by (subst next_free_loop.simps) simp

lemma create_semaphore_empty:
  assumes l: "al_len (pr_semaphores (k_procs k p)) = 0"
    and a: "kalloc ms SEMAPHORE_SIZE (k_mm k) = Some (z, m)" "z \<noteq> NULL"
  shows "\<exists>i. create_semaphore ms p n k = Some (- 1, set_proc p (\<lambda>x. x\<lparr>pr_free_id := i\<rparr>)
    (k\<lparr>k_mm := m, k_sched := set_sem z (\<lambda>_. sem_new n) (k_sched k)\<rparr>))"
proof -
  let ?k = "k\<lparr>k_mm := m, k_sched := set_sem z (\<lambda>_. sem_new n) (k_sched k)\<rparr>"
  let ?f = "pr_free_id (k_procs k p)"
  have l': "al_len (pr_semaphores (k_procs ?k p)) = 0" using l by simp
  have same: "set_proc p (\<lambda>x. x\<lparr>pr_free_id := ?f\<rparr>) ?k = ?k" by (simp add: set_proc_def)
  have c: "create_semaphore ms p n k = (if ?f = 0 then Some (- 1, set_proc p (\<lambda>x. x\<lparr>pr_free_id := pr_free_id x + 1\<rparr>) ?k)
      else Some (- 1, if ?f + 1 = 0 then set_proc p (\<lambda>x. x\<lparr>pr_free_id := ?f + 1\<rparr>) ?k else ?k))"
    using l a by (simp add: create_semaphore_def op_new_def k_with_mm_def al_get_empty next_free_empty Let_def)
  have e: "set_proc p (\<lambda>x. x\<lparr>pr_free_id := pr_free_id x + 1\<rparr>) ?k = set_proc p (\<lambda>x. x\<lparr>pr_free_id := ?f + 1\<rparr>) ?k"
    by (simp add: set_proc_def)
  consider "?f = 0" | "?f \<noteq> 0" "?f + 1 = 0" | "?f \<noteq> 0" "?f + 1 \<noteq> 0" by blast
  then show ?thesis
  proof cases
    case 1
    show ?thesis unfolding c if_P [OF 1] e by (rule exI, rule HOL.refl)
  next
    case 2
    show ?thesis unfolding c if_not_P [OF 2(1)] if_P [OF 2(2)] by (rule exI, rule HOL.refl)
  next
    case 3
    show ?thesis unfolding c if_not_P [OF 3(1)] if_not_P [OF 3(2)] by (rule exI [of _ ?f]) (simp only: same)
  qed
qed

lemma round16_class: "round16 SEMAPHORE_SIZE = 64" "round16 THREAD_SIZE = 272" "round16 LIST_NODE2_SIZE = 32"
  "round16 STACK_INITIAL_SIZE = 262144"
  by (simp_all add: round16_def SEMAPHORE_SIZE_def THREAD_SIZE_def LIST_NODE2_SIZE_def STACK_INITIAL_SIZE_def MEM_CHUNK_SIZE_def align_up_def)

text \<open>
  C27: the semaphores of processes never work. The list of semaphores of a new process is empty,
  and \<^verbatim>\<open>set\<close> does not extend it: in every state in which it is empty, creating a semaphore takes
  64 bytes from the heap for good, answers -1 and leaves the list empty. So no number ever names a
  semaphore: deleting one answers false, and locking or unlocking one dereferences \<open>NULL\<close>.
\<close>
theorem semaphores_never_work:
  assumes "al_len (pr_semaphores (k_procs k (proc_c k))) = 0"
    and "heap_ok ms (k_bytes k) cs" and "first_fit 64 cs = Some (z, cs')" and "cs' \<noteq> []"
  shows "(\<exists>k'. sys_create_semaphore ms n k = Some (- 1, k') \<and> heap_ok ms (k_bytes k') cs' \<and>
      proc_c k' = proc_c k \<and> al_len (pr_semaphores (k_procs k' (proc_c k'))) = 0) \<and>
    sys_delete_semaphore ms i k = Some (False, 0, k) \<and> sys_semaphore_lock i k = None \<and>
    sys_semaphore_try_lock i k = None \<and> sys_semaphore_unlock i k = None"
proof -
  have n: "SEMAPHORE_SIZE \<noteq> 0" "unat SEMAPHORE_SIZE < 2 ^ 63" by (simp_all add: SEMAPHORE_SIZE_def)
  note al = k_alloc_spec [OF assms(2) _ assms(4) n, unfolded round16_class, OF assms(3)]
  from al(1) obtain m where
    m: "kalloc ms SEMAPHORE_SIZE (k_mm k) = Some (z, upd_bytes (\<lambda>_. m) (k_mm k))" "heap_ok ms m cs'" by blast
  from create_semaphore_empty [OF assms(1) m(1) al(2), of n] obtain j where
    c: "create_semaphore ms (proc_c k) n k = Some (- 1, set_proc (proc_c k) (\<lambda>x. x\<lparr>pr_free_id := j\<rparr>)
      (k\<lparr>k_mm := upd_bytes (\<lambda>_. m) (k_mm k), k_sched := set_sem z (\<lambda>_. sem_new n) (k_sched k)\<rparr>))" (is "_ = Some (- 1, ?k')") by blast
  have p: "proc_c ?k' = proc_c k" by (simp add: proc_c_def set_sem_def)
  have "heap_ok ms (k_bytes ?k') cs'" using m(2) by simp
  moreover have "al_len (pr_semaphores (k_procs ?k' (proc_c ?k'))) = 0" unfolding p using assms(1) by simp
  ultimately have "\<exists>k'. sys_create_semaphore ms n k = Some (- 1, k') \<and> heap_ok ms (k_bytes k') cs' \<and>
      proc_c k' = proc_c k \<and> al_len (pr_semaphores (k_procs k' (proc_c k'))) = 0"
    using c p unfolding sys_create_semaphore_def by blast
  then show ?thesis using assms(1)
    by (simp add: sys_delete_semaphore_def delete_semaphore_def sys_semaphore_lock_def get_semaphore_def
        sys_semaphore_try_lock_def sys_semaphore_unlock_def al_get_empty)
qed

section \<open>The threads of a process\<close>

text \<open>The nodes \<open>ns\<close> of the list of threads of \<open>p\<close> point to the threads \<open>xs\<close>.\<close>

definition threads_rep :: "ptr \<Rightarrow> kernel \<Rightarrow> ptr list \<Rightarrow> ptr list \<Rightarrow> bool" where
  "threads_rep p k ns xs \<longleftrightarrow> list_rep (s_nodes (k_sched k)) (pr_threads (k_procs k p)) ns \<and> map (k_items k) ns = xs"

lemma threads_append_spec:
  assumes r: "threads_rep p k ns xs" and h: "heap_ok ms (k_bytes k) cs"
    and f: "first_fit 32 cs = Some (z, cs')" "cs' \<noteq> []" and d: "set ns \<inter> bodies cs = {}"
  shows "\<exists>m ns' l. threads_append ms p t k = Some (True, set_proc p (\<lambda>x. x\<lparr>pr_threads := l\<rparr>)
      (k\<lparr>k_mm := upd_bytes (\<lambda>_. m) (k_mm k), k_sched := (k_sched k)\<lparr>s_nodes := ns'\<rparr>, k_items := (k_items k)(z := t)\<rparr>)) \<and>
    heap_ok ms m cs' \<and> list_rep ns' l (ns @ [z]) \<and> map ((k_items k)(z := t)) (ns @ [z]) = xs @ [t] \<and>
    agree_off (insert z (set ns)) (s_nodes (k_sched k)) ns'"
    and "z \<noteq> NULL" "z \<in> bodies cs" "z \<notin> bodies cs'" "bodies cs' \<subseteq> bodies cs"
proof -
  have n: "LIST_NODE2_SIZE \<noteq> 0" "unat LIST_NODE2_SIZE < 2 ^ 63" by (simp_all add: LIST_NODE2_SIZE_def)
  note al = k_alloc_spec [OF h _ f(2) n, unfolded round16_class, OF f(1)]
  show z: "z \<noteq> NULL" "z \<in> bodies cs" "z \<notin> bodies cs'" "bodies cs' \<subseteq> bodies cs" by (rule al)+
  from al(1) obtain m where m: "kalloc ms LIST_NODE2_SIZE (k_mm k) = Some (z, upd_bytes (\<lambda>_. m) (k_mm k))" "heap_ok ms m cs'"
    by blast
  have zn: "z \<notin> set ns" using d z(2) by blast
  let ?n = "(s_nodes (k_sched k))(z := \<lparr>n_prev = NULL, n_next = NULL\<rparr>)"
  have "list_rep ?n (pr_threads (k_procs k p)) ns"
    using r zn unfolding threads_rep_def by (auto elim: list_rep_cong)
  from list_append_spec [OF this zn z(1)] obtain ns' l where
    a: "list_append ?n (pr_threads (k_procs k p)) z = Some (ns', l)" "list_rep ns' l (ns @ [z])" "agree_off (insert z (set ns)) ?n ns'" by blast
  have "agree_off (insert z (set ns)) (s_nodes (k_sched k)) ns'" using a(3) by (auto simp: agree_off_def)
  moreover have "map ((k_items k)(z := t)) (ns @ [z]) = xs @ [t]" using r zn by (auto simp: threads_rep_def)
  moreover have "threads_append ms p t k = Some (True, set_proc p (\<lambda>x. x\<lparr>pr_threads := l\<rparr>)
      (k\<lparr>k_mm := upd_bytes (\<lambda>_. m) (k_mm k), k_sched := (k_sched k)\<lparr>s_nodes := ns'\<rparr>, k_items := (k_items k)(z := t)\<rparr>))"
    using m(1) a(1) z(1) by (simp add: threads_append_def l2_append_def new_node2_def op_new_def heap_of_def put_heap_def)
  ultimately show "\<exists>m ns' l. threads_append ms p t k = Some (True, set_proc p (\<lambda>x. x\<lparr>pr_threads := l\<rparr>)
      (k\<lparr>k_mm := upd_bytes (\<lambda>_. m) (k_mm k), k_sched := (k_sched k)\<lparr>s_nodes := ns'\<rparr>, k_items := (k_items k)(z := t)\<rparr>)) \<and>
    heap_ok ms m cs' \<and> list_rep ns' l (ns @ [z]) \<and> map ((k_items k)(z := t)) (ns @ [z]) = xs @ [t] \<and>
    agree_off (insert z (set ns)) (s_nodes (k_sched k)) ns'" using m(2) a(2) by blast
qed

text \<open>A thread of the kernel process goes to the end of the ready list.\<close>

lemma thread_init_kernel:
  assumes i: "init_done s" "pv_uid (s_procs s p) = 0" and r: "list_rep (s_nodes s) (t_list s T_READY) ys" and t: "t \<notin> set ys" "t \<noteq> NULL"
  shows "\<exists>s'. thread_init t p name n func st ks True s = Some s' \<and>
    list_rep (s_nodes s') (t_list s' T_READY) (ys @ [t]) \<and> agree_off (insert t (set ys)) (s_nodes s) (s_nodes s') \<and>
    th_state (s_threads s' t) = 1 \<and> th_proc (s_threads s' t) = p \<and> th_process_alive (s_threads s' t) \<and>
    th_regs (s_threads s' t) = kernel_regs\<lparr>r_rsp := st + n - 8, r_rip := func\<rparr> \<and> th_stack_start (s_threads s' t) = st \<and>
    (\<forall>u. u \<noteq> t \<longrightarrow> s_threads s' u = s_threads s u) \<and> s_procs s' = s_procs s"
proof -
  from list_append_spec [OF r t] obtain h l where
    a: "list_append (s_nodes s) (t_list s T_READY) t = Some (h, l)" "list_rep h l (ys @ [t])" "agree_off (insert t (set ys)) (s_nodes s) h" by blast
  show ?thesis using i a
    by (simp add: thread_init_def Let_def tl_append_def set_thread_def lock_def unlock_def cli_safe_def sti_safe_def cli_def sti_def)
qed

text \<open>Where the fields of a record of the state come from after the updates of an operation.\<close>

lemma new_thread_spec:
  assumes i: "init_done (k_sched k)" "pr_uid (k_procs k p) = 0" "pv_uid (s_procs (k_sched k) p) = 0"
    and r: "threads_rep p k ns xs" and y: "list_rep (s_nodes (k_sched k)) (t_list (k_sched k) T_READY) ys"
    and d: "set ns \<inter> set ys = {}" "(set ns \<union> set ys) \<inter> bodies cs = {}"
    and h: "heap_ok ms (k_bytes k) cs" "first_fit 272 cs = Some (t, cs1)" "first_fit 262144 cs1 = Some (st, cs2)"
      "first_fit 32 cs2 = Some (n1, cs3)" "first_fit 32 cs3 = Some (n2, cs4)" "cs4 \<noteq> []"
  shows "\<exists>k'. new_thread ms dbg p name func k = Some (False, t, k') \<and>
    threads_rep p k' (ns @ (if dbg then [n1, n2] else [n1])) (xs @ (if dbg then [t, t] else [t])) \<and>
    list_rep (s_nodes (k_sched k')) (t_list (k_sched k') T_READY) (ys @ [t]) \<and> heap_ok ms (k_bytes k') (if dbg then cs4 else cs3) \<and>
    th_state (s_threads (k_sched k') t) = 1 \<and> th_proc (s_threads (k_sched k') t) = p \<and> th_process_alive (s_threads (k_sched k') t) \<and>
    th_stack_start (s_threads (k_sched k') t) = st \<and>
    th_regs (s_threads (k_sched k') t) = kernel_regs\<lparr>r_rsp := st + STACK_INITIAL_SIZE - 8, r_rip := func\<rparr> \<and>
    (\<forall>u. u \<noteq> t \<longrightarrow> s_threads (k_sched k') u = s_threads (k_sched k) u)"
proof -
  have ne: "cs1 \<noteq> []" "cs2 \<noteq> []" "cs3 \<noteq> []" using h(3-5) by auto
  have z: "THREAD_SIZE \<noteq> 0" "unat THREAD_SIZE < 2 ^ 63" "STACK_INITIAL_SIZE \<noteq> 0" "unat STACK_INITIAL_SIZE < 2 ^ 63"
    by (simp_all add: THREAD_SIZE_def STACK_INITIAL_SIZE_def)
  note A1 = k_alloc_spec [OF h(1) _ ne(1) z(1,2), unfolded round16_class, OF h(2)]
  from A1(1) obtain m1 where m1: "kalloc ms THREAD_SIZE (k_mm k) = Some (t, upd_bytes (\<lambda>_. m1) (k_mm k))" "heap_ok ms m1 cs1" by blast
  define k1 where "k1 = k\<lparr>k_mm := upd_bytes (\<lambda>_. m1) (k_mm k), k_sched := (set_thread t (\<lambda>_. zero_thread) (k_sched k))
    \<lparr>s_nodes := (s_nodes (k_sched k))(t := \<lparr>n_prev = NULL, n_next = NULL\<rparr>)\<rparr>\<rparr>"
  have k1: "heap_ok ms (k_bytes k1) cs1" using m1(2) by (simp add: k1_def)
  note A2 = k_alloc_spec [OF k1 _ ne(2) z(3,4), unfolded round16_class, OF h(3)]
  from A2(1) obtain m2 where m2: "kalloc ms STACK_INITIAL_SIZE (k_mm k1) = Some (st, upd_bytes (\<lambda>_. m2) (k_mm k1))" "heap_ok ms m2 cs2" by blast
  have t: "t \<noteq> NULL" "t \<notin> set ns" "t \<notin> set ys" using A1(2,3) d(2) by blast+
  have y1: "list_rep (s_nodes (k_sched k1)) (t_list (k_sched k1) T_READY) ys"
    using y t(3) by (auto simp: k1_def set_thread_def elim: list_rep_cong)
  have i1: "init_done (k_sched k1)" "pv_uid (s_procs (k_sched k1) p) = 0" using i by (simp_all add: k1_def set_thread_def)
  from thread_init_kernel [OF i1 y1 t(3,1), of name STACK_INITIAL_SIZE func st NULL] obtain s2 where
    s2: "thread_init t p name STACK_INITIAL_SIZE func st NULL True (k_sched k1) = Some s2"
      "list_rep (s_nodes s2) (t_list s2 T_READY) (ys @ [t])" "agree_off (insert t (set ys)) (s_nodes (k_sched k1)) (s_nodes s2)"
      "th_state (s_threads s2 t) = 1" "th_proc (s_threads s2 t) = p" "th_process_alive (s_threads s2 t)"
      "th_regs (s_threads s2 t) = kernel_regs\<lparr>r_rsp := st + STACK_INITIAL_SIZE - 8, r_rip := func\<rparr>" "th_stack_start (s_threads s2 t) = st"
      "\<forall>u. u \<noteq> t \<longrightarrow> s_threads s2 u = s_threads (k_sched k1) u" by blast
  define k2 where "k2 = k1\<lparr>k_mm := upd_bytes (\<lambda>_. m2) (k_mm k1), k_sched := s2\<rparr>"
  have h2: "heap_ok ms (k_bytes k2) cs2" using m2(2) by (simp add: k2_def)
  have r2: "threads_rep p k2 ns xs"
  proof -
    have "s_nodes s2 x = s_nodes (k_sched k) x" if "x \<in> set ns" for x
      using s2(3) that d(1) t(2) by (auto simp: agree_off_def k1_def)
    then show ?thesis using r by (auto simp: threads_rep_def k2_def k1_def elim: list_rep_cong)
  qed
  have d2: "set ns \<inter> bodies cs2 = {}" using d(2) A1(5) A2(5) by blast
  note B1 = threads_append_spec [OF r2 h2 h(4) ne(3) d2]
  from B1(1) [of t] obtain m3 a3 l3 where
    b3: "threads_append ms p t k2 = Some (True, set_proc p (\<lambda>x. x\<lparr>pr_threads := l3\<rparr>)
      (k2\<lparr>k_mm := upd_bytes (\<lambda>_. m3) (k_mm k2), k_sched := (k_sched k2)\<lparr>s_nodes := a3\<rparr>, k_items := (k_items k2)(n1 := t)\<rparr>))"
    "heap_ok ms m3 cs3" "list_rep a3 l3 (ns @ [n1])" "map ((k_items k2)(n1 := t)) (ns @ [n1]) = xs @ [t]"
    "agree_off (insert n1 (set ns)) (s_nodes (k_sched k2)) a3" by blast
  define k3 where "k3 = set_proc p (\<lambda>x. x\<lparr>pr_threads := l3\<rparr>)
      (k2\<lparr>k_mm := upd_bytes (\<lambda>_. m3) (k_mm k2), k_sched := (k_sched k2)\<lparr>s_nodes := a3\<rparr>, k_items := (k_items k2)(n1 := t)\<rparr>)"
  have h3: "heap_ok ms (k_bytes k3) cs3" and r3: "threads_rep p k3 (ns @ [n1]) (xs @ [t])"
    using b3(2-4) by (simp_all add: k3_def threads_rep_def)
  have d3: "set (ns @ [n1]) \<inter> bodies cs3 = {}" using d2 B1(4,5) by auto
  note B2 = threads_append_spec [OF r3 h3 h(5,6) d3]
  from B2(1) [of t] obtain m4 a4 l4 where
    b4: "threads_append ms p t k3 = Some (True, set_proc p (\<lambda>x. x\<lparr>pr_threads := l4\<rparr>)
      (k3\<lparr>k_mm := upd_bytes (\<lambda>_. m4) (k_mm k3), k_sched := (k_sched k3)\<lparr>s_nodes := a4\<rparr>, k_items := (k_items k3)(n2 := t)\<rparr>))"
    "heap_ok ms m4 cs4" "list_rep a4 l4 ((ns @ [n1]) @ [n2])" "map ((k_items k3)(n2 := t)) ((ns @ [n1]) @ [n2]) = (xs @ [t]) @ [t]"
    "agree_off (insert n2 (set (ns @ [n1]))) (s_nodes (k_sched k3)) a4" by blast
  define k4 where "k4 = set_proc p (\<lambda>x. x\<lparr>pr_threads := l4\<rparr>)
      (k3\<lparr>k_mm := upd_bytes (\<lambda>_. m4) (k_mm k3), k_sched := (k_sched k3)\<lparr>s_nodes := a4\<rparr>, k_items := (k_items k3)(n2 := t)\<rparr>)"
  have "thread_new ms dbg name p func STACK_INITIAL_SIZE k = Some (t, if dbg then k3 else k2)"
    using m1(1) m2(1) s2(1) b3(1) t(1) i(2) i1(1)
    by (simp add: thread_new_def k_with_mm_def op_new_def k1_def [symmetric] on_sched_def add_thread_def k2_def [symmetric] k3_def [symmetric]) (simp add: k1_def)
  then have "new_thread ms dbg p name func k = Some (False, t, if dbg then k4 else k3)"
    using b3(1) b4(1) t(1) by (simp add: new_thread_def add_thread_def k4_def [symmetric] k3_def [symmetric])
  moreover have "threads_rep p k4 (ns @ [n1, n2]) (xs @ [t, t])" using b4(3,4) by (simp add: threads_rep_def k4_def)
  moreover have "heap_ok ms (k_bytes k4) cs4" using b4(2) by (simp add: k4_def)
  moreover have "list_rep (s_nodes (k_sched k4)) (t_list (k_sched k4) T_READY) (ys @ [t])"
    "list_rep (s_nodes (k_sched k3)) (t_list (k_sched k3) T_READY) (ys @ [t])"
  proof -
    have "n1 \<noteq> t" "n2 \<noteq> t" "n1 \<notin> set ys" "n2 \<notin> set ys" using B1(3,5) B2(3) A1(4,5) A2(5) d(2) by blast+
    then have "a4 x = s_nodes s2 x" "a3 x = s_nodes s2 x" if "x \<in> set (ys @ [t])" for x
      using b4(5) b3(5) that d(1) t(2) by (auto simp: agree_off_def k3_def k2_def)
    then show "list_rep (s_nodes (k_sched k4)) (t_list (k_sched k4) T_READY) (ys @ [t])"
      "list_rep (s_nodes (k_sched k3)) (t_list (k_sched k3) T_READY) (ys @ [t])"
      using s2(2) by (auto simp: k4_def k3_def k2_def elim: list_rep_cong)
  qed
  moreover have "s_threads (k_sched k4) = s_threads s2" "s_threads (k_sched k3) = s_threads s2" by (simp_all add: k4_def k3_def k2_def)
  ultimately show ?thesis using s2(4-9) h3 r3
    by (intro exI [of _ "if dbg then k4 else k3"]) (cases dbg; auto simp: k1_def set_thread_def)
qed

lemma threads_l2: "threads_rep p k ns xs \<longleftrightarrow> l2_rep (heap_of k) (pr_threads (k_procs k p)) ns xs"
  by (simp add: threads_rep_def l2_rep_def heap_of_def)

lemma rem_thread_loop_spec:
  assumes r: "threads_rep p k ns xs" and c: "cache_ok (pr_threads (k_procs k p)) ns" and n: "length xs < 2 ^ 31"
    and x: "xs = us @ t # vs" "t \<notin> set us" and j: "j \<le> length us"
    and m: "op_delete ms (ns ! length us) LIST_NODE2_SIZE (k_mm k) = Some m"
  shows "\<exists>k'. rem_thread_loop ms p t (of_nat j) k = Some k' \<and>
    threads_rep p k' (take (length us) ns @ drop (Suc (length us)) ns) (us @ vs)"
  using r c j m
proof (induction "length us - j" arbitrary: j k)
  case 0
  let ?i = "length us"
  have j: "j = ?i" using 0 by simp
  have r: "l2_rep (heap_of k) (pr_threads (k_procs k p)) ns xs" using 0(2) by (simp add: threads_l2)
  have i: "?i < length xs" "xs ! ?i = t" using x by simp_all
  have lt: "(of_nat ?i :: usize) < threads_len p k"
    using l2_rep_len(1) [OF r] i(1) n by (simp add: threads_len_def word_less_nat_alt unat_of_nat_small)
  let ?l = "(pr_threads (k_procs k p))\<lparr>l_current := ns ! ?i, l_current_i := of_nat ?i\<rparr>"
  have at: "l2_at (of_nat ?i) (pr_threads (k_procs k p)) (heap_of k) = Some (t, ?l)"
    using l2_at_spec [OF r 0(3) n i(1)] i(2) by simp
  have r2: "l2_rep (heap_of k) ?l ns xs" using r by (simp add: l2_rep_def list_rep_def)
  have c2: "l_current ?l = ns ! ?i" "l_current_i ?l = of_nat ?i" by simp_all
  have m: "op_delete ms (ns ! ?i) LIST_NODE2_SIZE (h_mm (heap_of k)) = Some m" using 0(5) by (simp add: heap_of_def)
  from l2_remove_looked_up [OF r2 c2 i(1) n m] obtain h l' where
    d: "l2_remove ms (of_nat ?i) ?l (heap_of k) = Some (t, l', h)" "l2_rep h l' (take ?i ns @ drop (Suc ?i) ns) (take ?i xs @ drop (Suc ?i) xs)"
    using i(2) by blast
  let ?k = "set_proc p (\<lambda>x. x\<lparr>pr_threads := l'\<rparr>) (put_heap h (set_proc p (\<lambda>x. x\<lparr>pr_threads := ?l\<rparr>) k))"
  have hk: "heap_of (set_proc p f k) = heap_of k" for f by (simp add: heap_of_def)
  have "rem_thread_loop ms p t (of_nat ?i) k = Some ?k"
    using lt at d(1) by (subst rem_thread_loop.simps) (simp add: threads_at_def threads_remove_def hk)
  moreover have "heap_of ?k = h" by (simp add: heap_of_def put_heap_def)
  then have "threads_rep p ?k (take ?i ns @ drop (Suc ?i) ns) (us @ vs)" using d(2) x(1) by (simp add: threads_l2)
  ultimately show ?case unfolding j by blast
next
  case (Suc d)
  have r: "l2_rep (heap_of k) (pr_threads (k_procs k p)) ns xs" using Suc(3) by (simp add: threads_l2)
  have j: "j < length us" "j < length xs" "j < length ns" using Suc(2) x(1) l2_rep_len(2) [OF r] by auto
  have lt: "(of_nat j :: usize) < threads_len p k"
    using l2_rep_len(1) [OF r] j(2) n by (simp add: threads_len_def word_less_nat_alt unat_of_nat_small)
  let ?l = "(pr_threads (k_procs k p))\<lparr>l_current := ns ! j, l_current_i := of_nat j\<rparr>"
  let ?k = "set_proc p (\<lambda>x. x\<lparr>pr_threads := ?l\<rparr>) k"
  have at: "l2_at (of_nat j) (pr_threads (k_procs k p)) (heap_of k) = Some (xs ! j, ?l)" by (rule l2_at_spec [OF r Suc(4) n j(2)])
  have "xs ! j = us ! j" using x(1) j(1) by (simp add: nth_append)
  then have ne: "t \<noteq> xs ! j" using x(2) j(1) by auto
  have "rem_thread_loop ms p t (of_nat j) k = rem_thread_loop ms p t (of_nat (Suc j)) ?k"
    using lt at ne by (subst rem_thread_loop.simps) (simp add: threads_at_def add.commute)
  moreover have "threads_rep p ?k ns xs" using r by (simp add: threads_l2 l2_rep_def list_rep_def heap_of_def)
  moreover have "cache_ok (pr_threads (k_procs ?k p)) ns" using j n l2_rep_len(2) [OF r] by (simp add: cache_ok_def unat_of_nat_small)
  ultimately show ?case using Suc(1) [of "Suc j" ?k] Suc(2,6) j(1) by simp
qed

lemma rem_thread_spec:
  assumes r: "threads_rep p k ns xs" and c: "cache_ok (pr_threads (k_procs k p)) ns" and n: "length xs < 2 ^ 31" and t: "t \<in> set xs"
    and m: "\<And>x. x \<in> set ns \<Longrightarrow> \<exists>m. op_delete ms x LIST_NODE2_SIZE (k_mm k) = Some m"
  shows "\<exists>k' ns'. rem_thread ms p t k = (if xs = [t] then process_delete ms p k' else Some (False, k')) \<and>
    threads_rep p k' ns' (remove1 t xs)"
proof -
  obtain us vs where x: "xs = us @ t # vs" "t \<notin> set us" using t by (meson split_list_first)
  have "length ns = length xs" using r by (auto simp: threads_rep_def)
  then have "ns ! length us \<in> set ns" using x(1) by simp
  with m obtain m' where m': "op_delete ms (ns ! length us) LIST_NODE2_SIZE (k_mm k) = Some m'" by blast
  from rem_thread_loop_spec [OF r c n x _ m', of 0] obtain k' where
    k: "rem_thread_loop ms p t 0 k = Some k'" "threads_rep p k' (take (length us) ns @ drop (Suc (length us)) ns) (us @ vs)" by auto
  have e: "us @ vs = [] \<longleftrightarrow> xs = [t]" using x by (cases us) auto
  have l: "threads_len p k' = 0 \<longleftrightarrow> xs = [t]"
    using list_rep_len_0 k(2) unfolding e [symmetric] threads_rep_def threads_len_def by (metis Nil_is_map_conv)
  have "remove1 t xs = us @ vs" using x by (simp add: remove1_append)
  with k l show ?thesis by (auto simp: rem_thread_def)
qed

text \<open>
  C28: a new thread of the kernel process gets the stack, the entry point and the place at the
  end of the ready list that it should, and no other thread changes. In a release build it stands
  once in the list of threads of its process; in a debug build, which is the default, the assertion
  at the end of its constructor registers it first and \<^verbatim>\<open>new_thread\<close> a second time.
\<close>
theorem new_thread_correct:
  assumes "init_done (k_sched k)" and "pr_uid (k_procs k p) = 0" and "pv_uid (s_procs (k_sched k) p) = 0"
    and "threads_rep p k ns xs" and "list_rep (s_nodes (k_sched k)) (t_list (k_sched k) T_READY) ys"
    and "set ns \<inter> set ys = {}" and "(set ns \<union> set ys) \<inter> bodies cs = {}"
    and "heap_ok ms (k_bytes k) cs" and "first_fit 272 cs = Some (t, cs1)" and "first_fit 262144 cs1 = Some (st, cs2)"
    and "first_fit 32 cs2 = Some (n1, cs3)" and "first_fit 32 cs3 = Some (n2, cs4)" and "cs4 \<noteq> []"
  shows "\<exists>k'. new_thread ms dbg p name func k = Some (False, t, k') \<and>
    threads_rep p k' (ns @ (if dbg then [n1, n2] else [n1])) (xs @ (if dbg then [t, t] else [t])) \<and>
    list_rep (s_nodes (k_sched k')) (t_list (k_sched k') T_READY) (ys @ [t]) \<and> heap_ok ms (k_bytes k') (if dbg then cs4 else cs3) \<and>
    th_state (s_threads (k_sched k') t) = 1 \<and> th_proc (s_threads (k_sched k') t) = p \<and> th_process_alive (s_threads (k_sched k') t) \<and>
    th_stack_start (s_threads (k_sched k') t) = st \<and>
    th_regs (s_threads (k_sched k') t) = kernel_regs\<lparr>r_rsp := st + STACK_INITIAL_SIZE - 8, r_rip := func\<rparr> \<and>
    (\<forall>u. u \<noteq> t \<longrightarrow> s_threads (k_sched k') u = s_threads (k_sched k) u)"
  by (rule new_thread_spec [OF assms])

text \<open>
  C29: \<^verbatim>\<open>rem_thread\<close> takes the first entry of the thread out of the list of threads, whatever
  walk \<^verbatim>\<open>operator[]\<close> and \<^verbatim>\<open>remove\<close> take through it, and deletes the process exactly when the
  list is then empty. Of a thread with two entries one stays: its process is not deleted with it.
\<close>
theorem rem_thread_correct:
  assumes "threads_rep p k ns xs" and "cache_ok (pr_threads (k_procs k p)) ns" and "length xs < 2 ^ 31" and "t \<in> set xs"
    and "\<And>x. x \<in> set ns \<Longrightarrow> \<exists>m. op_delete ms x LIST_NODE2_SIZE (k_mm k) = Some m"
  shows "\<exists>k' ns'. rem_thread ms p t k = (if xs = [t] then process_delete ms p k' else Some (False, k')) \<and>
    threads_rep p k' ns' (remove1 t xs) \<and> (2 \<le> count_list xs t \<longrightarrow> xs \<noteq> [t] \<and> t \<in> set (remove1 t xs))"
proof -
  have "t \<in> set (remove1 t xs)" if "2 \<le> count_list xs t"
  proof -
    obtain us vs where x: "xs = us @ t # vs" "t \<notin> set us" using assms(4) by (meson split_list_first)
    then have "t \<in> set vs" using that by (auto simp: count_notin intro: ccontr)
    then show ?thesis using x by (simp add: remove1_append)
  qed
  moreover have "xs \<noteq> [t]" if "2 \<le> count_list xs t" using that by auto
  ultimately show ?thesis using rem_thread_spec [OF assms] by blast
qed

section \<open>A concrete kernel\<close>

definition ex_proc :: process where
  "ex_proc = \<lparr>pr_pml4 = 0, pr_allocs = new_list, pr_threads = ex_list [256, 272], pr_free_id = 0,
     pr_semaphores = \<lparr>al_len = 0, al_capacity = 8, al_list = 4096, al_free_members = False\<rparr>, pr_uid = 0\<rparr>"

definition ex_kernel_state :: "(ptr \<Rightarrow> ptr) \<Rightarrow> kernel" where
  "ex_kernel_state items = \<lparr>k_mm = ex_mm (ex_heap 0x100000), k_sched = ex_sched [112],
     k_zones = \<lambda>_. \<lparr>z_virt_addr = 0, z_len = 0, z_type = at_kernel, z_allocations = pr_semaphores ex_proc, z_flags = 0, z_phys_addr = 0\<rparr>,
     k_items = items, k_procs = \<lambda>_. ex_proc, k_proc_list = new_list, k_synced = [], k_kernel_pdp = 0, k_msr = \<lambda>_. 0\<rparr>"

lemma ex_kernel_heap: "heap_ok 0x1000 (k_bytes (ex_kernel_state f)) [(0x2000, 0x100000)]"
  using ex_heap_ok [of "0x100000"] by (simp add: ex_kernel_state_def)

lemma ex_kernel_threads: "threads_rep 0 (ex_kernel_state f) [256, 272] [f 256, f 272]"
  by (simp add: threads_rep_def ex_kernel_state_def ex_proc_def ex_sched_def list_rep_def ex_list_def ex_nodes_def)

lemma semaphores_never_work_witness:
  "(\<exists>k'. sys_create_semaphore 0x1000 5 (ex_kernel_state (\<lambda>_. 16)) = Some (- 1, k')) \<and>
   sys_semaphore_lock 0 (ex_kernel_state (\<lambda>_. 16)) = None"
proof -
  have l: "al_len (pr_semaphores (k_procs (ex_kernel_state f) (proc_c (ex_kernel_state f)))) = 0" for f
    by (simp add: ex_kernel_state_def ex_proc_def)
  have "first_fit 64 [(0x2000, 0x100000)] = Some (0x2000, [(0x2040, 0xFFFC0)])" by simp
  from semaphores_never_work [OF l ex_kernel_heap this] show ?thesis by blast
qed

lemma new_thread_correct_witness:
  "\<exists>k' ns. new_thread 0x1000 True 0 None 0x400000 (ex_kernel_state (\<lambda>_. 16)) = Some (False, 0x2000, k') \<and>
     threads_rep 0 k' ns [16, 16, 0x2000, 0x2000]"
proof -
  let ?k = "ex_kernel_state (\<lambda>_. 16)"
  have i: "init_done (k_sched ?k)" "pr_uid (k_procs ?k 0) = 0" "pv_uid (s_procs (k_sched ?k) 0) = 0"
    by (simp_all add: ex_kernel_state_def ex_proc_def ex_sched_def)
  have y: "list_rep (s_nodes (k_sched ?k)) (t_list (k_sched ?k) T_READY) [64, 80]"
    by (simp add: ex_kernel_state_def ex_sched_def ex_xss_def list_rep_def ex_list_def ex_nodes_def)
  have ok: "chunk_ok (0x2000, 0x100000)" by (simp add: chunk_ok_def)
  have d: "set [256, 272] \<inter> set [64, 80 :: ptr] = {}" "(set [256, 272] \<union> set [64, 80]) \<inter> bodies [(0x2000, 0x100000)] = {}"
    by (simp_all add: bodies_def body_iff [OF ok])
  have f: "first_fit 272 [(0x2000, 0x100000)] = Some (0x2000, [(0x2110, 0xFFEF0)])"
    "first_fit 262144 [(0x2110, 0xFFEF0)] = Some (0x2110, [(0x42110, 0xBFEF0)])"
    "first_fit 32 [(0x42110, 0xBFEF0)] = Some (0x42110, [(0x42130, 0xBFED0)])"
    "first_fit 32 [(0x42130, 0xBFED0)] = Some (0x42130, [(0x42150, 0xBFEB0)])" by simp_all
  from new_thread_correct [OF i ex_kernel_threads y d ex_kernel_heap f, of True None "0x400000"]
  show ?thesis by auto
qed

lemma ex_kernel_free:
  assumes "x = 256 \<or> x = 272"
  shows "op_delete 0x1000 x LIST_NODE2_SIZE (k_mm (ex_kernel_state f)) = Some (k_mm (ex_kernel_state f))"
proof -
  let ?m = "k_mm (ex_kernel_state f)"
  have r: "c_next 0x1000 ?m = Some 0x2000" "c_size 0x1000 ?m = Some 0"
    using ex_kernel_heap [of f] by (simp_all add: heap_ok_def c_next_def c_size_def get_word_def)
  have n: "align_up LIST_NODE2_SIZE MEM_CHUNK_SIZE = 32" "LIST_NODE2_SIZE \<noteq> 0" "align_down x MEM_CHUNK_SIZE = x" "x \<noteq> 0" "x < 0x2000"
    using assms by (auto simp: LIST_NODE2_SIZE_def MEM_CHUNK_SIZE_def align_up_def align_down_def)
  have "kfree_loop x 32 0x1000 0x2000 ?m = Some ?m"
    using n(5) r by (subst kfree_loop.simps) (simp add: kfree_link_def)
  then show ?thesis using r(1) n(4) by (simp add: op_delete_def kfree_def n(1-3) Let_def)
qed

lemma rem_thread_correct_witness:
  "\<exists>k' ns. rem_thread 0x1000 0 16 (ex_kernel_state (\<lambda>_. 16)) = Some (False, k') \<and> threads_rep 0 k' ns [16]"
proof -
  let ?k = "ex_kernel_state (\<lambda>_. 16)"
  have c: "cache_ok (pr_threads (k_procs ?k 0)) [256, 272]"
    by (simp add: ex_kernel_state_def ex_proc_def cache_ok_def ex_list_def)
  have m: "\<exists>m. op_delete 0x1000 x LIST_NODE2_SIZE (k_mm ?k) = Some m" if "x \<in> set [256, 272]" for x
    using ex_kernel_free [of x] that by auto
  from rem_thread_correct [OF ex_kernel_threads c _ _ m, of 16] show ?thesis by simp
qed

section \<open>The end of a process\<close>

text \<open>Killing a thread on the lists: out of its list, and to the end of the list of threads to delete unless it is there.\<close>

definition a_kill :: "ptr \<Rightarrow> (nat \<Rightarrow> ptr list) \<Rightarrow> nat \<Rightarrow> ptr list" where
  "a_kill t xss = (\<lambda>j. if j = 2 then (if t \<in> set (xss 2) then xss 2 else xss 2 @ [t]) else removeAll t (xss j))"

lemma fold_a_kill:
  "fold a_kill ts xss 2 = fold (\<lambda>t ys. if t \<in> set ys then ys else ys @ [t]) ts (xss 2)"
  "j \<noteq> 2 \<Longrightarrow> fold a_kill ts xss j = filter (\<lambda>t. t \<notin> set ts) (xss j)"
  by (induction ts arbitrary: xss) (auto simp: a_kill_def removeAll_filter_not_eq intro!: filter_cong)

lemma a_kill_union:
  assumes "i < 16" "t \<in> set (xss i)"
  shows "(\<Union>i < 16. set (a_kill t xss i)) = (\<Union>i < (16 :: nat). set (xss i))"
proof (intro equalityI subsetI)
  fix x assume "x \<in> (\<Union>i < 16. set (a_kill t xss i))"
  then obtain k where k: "k < 16" "x \<in> set (a_kill t xss k)" by blast
  then have "x = t \<or> x \<in> set (xss k)" by (auto simp: a_kill_def split: if_splits)
  then show "x \<in> (\<Union>i < 16. set (xss i))" using assms k(1) by blast
next
  fix x assume "x \<in> (\<Union>i < (16 :: nat). set (xss i))"
  then obtain k where k: "k < 16" "x \<in> set (xss k)" by blast
  have "x \<in> set (a_kill t xss (if x = t then 2 else k))" using k(2) by (auto simp: a_kill_def)
  moreover have "(if x = t then 2 else k) < 16" using k(1) by simp
  ultimately show "x \<in> (\<Union>i < 16. set (a_kill t xss i))" by blast
qed

lemma lists_cong:
  assumes "\<And>k. k < 16 + length sids \<Longrightarrow> yss k = xss k"
  shows "fam s sids yss \<longleftrightarrow> fam s sids xss" "states_ok s sids yss \<longleftrightarrow> states_ok s sids xss"
  using assms by (simp_all add: fam_def family_def states_ok_def)

lemma irq_lists [simp]:
  "fam (lock s) = fam s" "fam (unlock s) = fam s" "states_ok (lock s) = states_ok s" "states_ok (unlock s) = states_ok s"
proof -
  show "fam (lock s) = fam s" "fam (unlock s) = fam s" by (intro ext fam_cong; simp)+
  show "states_ok (lock s) = states_ok s" "states_ok (unlock s) = states_ok s" by (intro ext; simp add: states_ok_def)+
qed

lemma move_to_frame:
  assumes f: "fam s sids xss" and st: "states_ok s sids xss" and i: "i < 16" "i \<noteq> 2" and t: "t \<in> set (xss i)"
  shows "\<exists>h tls. move_to t 2 s = Some (moved t 2 h tls s) \<and> fam (moved t 2 h tls s) sids (a_kill t xss) \<and>
    states_ok (moved t 2 h tls s) sids (a_kill t xss) \<and> agree_off (set (xss i) \<union> set (xss 2)) (s_nodes s) h"
proof -
  have j: "(2 :: nat) < 16" by simp
  have s: "th_state (s_threads s t) = of_nat i" using states_okD [OF st _ t] i list_state_16 by simp
  from move_to_list [OF f i(1) j i(2) t s] obtain h tls where
    1: "move_to t 2 s = Some (moved t 2 h tls s)" "fam (s\<lparr>s_nodes := h, t_list := tls\<rparr>) sids (xss(i := remove1 t (xss i), 2 := xss 2 @ [t]))"
    unfolding moved_def by auto
  let ?ys = "xss(i := remove1 t (xss i), 2 := xss 2 @ [t])"
  have n: "i < 16 + length sids" "2 < 16 + length sids" using i by simp_all
  have d: "set (xss i) \<inter> set (xss 2) = {}" using fam_disjoint [OF f n] i(2) by blast
  have e: "a_kill t xss k = ?ys k" if k: "k < 16 + length sids" for k
  proof -
    have "removeAll t (xss k) = xss k" if "k \<noteq> i" using that fam_disjoint [OF f k n(1) _ t] by (intro removeAll_id) auto
    then show ?thesis using d t i(2) fam_distinct [OF f n(1)] by (auto simp: a_kill_def distinct_remove1_removeAll)
  qed
  have E: "fam s' sids (a_kill t xss) = fam s' sids ?ys" "states_ok s' sids (a_kill t xss) = states_ok s' sids ?ys" for s'
    by (rule lists_cong, erule e)+
  have "fam (moved t 2 h tls s) sids (a_kill t xss)" by (rule E(1) [THEN iffD2]) (unfold fam_moved, rule 1(2))
  moreover have "states_ok (moved t 2 h tls s) sids ?ys"
    by (rule a_move_states [OF f st n i(2) t]) (simp add: list_state_16)
  then have "states_ok (moved t 2 h tls s) sids (a_kill t xss)" by (rule E(2) [THEN iffD2])
  moreover have "agree_off (set (xss i) \<union> set (xss 2)) (s_nodes s) h"
  proof -
    have r: "list_rep (s_nodes s) (t_list s k) (xss k)" if "k < 16" for k
      using f that familyD [of list_rep "s_nodes s" "all_lists s sids" xss "16 + length sids" k] by (simp add: fam_def all_lists_def)
    from list_remove_p_spec [OF r [OF i(1)] t] obtain h1 l1 where
      a: "list_remove_p (s_nodes s) (t_list s i) t = Some (h1, l1)" "agree_off (set (xss i)) (s_nodes s) h1" by blast
    have t2: "t \<notin> set (xss 2)" "t \<noteq> NULL" using d t fam_distinct [OF f n(1)] by auto
    have "h1 x = s_nodes s x" if "x \<in> set (xss 2)" for x using a(2) d that by (auto simp: agree_off_def)
    then have "list_rep h1 (t_list s 2) (xss 2)" by (rule list_rep_cong [OF r [OF j]])
    from list_append_spec [OF this t2] obtain h2 l2 where
      b: "list_append h1 (t_list s 2) t = Some (h2, l2)" "agree_off (insert t (set (xss 2))) h1 h2" by blast
    have q: "(of_nat i :: usize) \<noteq> 2" "(2 :: usize) \<noteq> T_SEMAPHORE_WAIT"
      using state_conv(4) [OF i(1) j] i(2) by (simp_all add: T_SEMAPHORE_WAIT_def)
    have "map_option s_nodes (move_to t 2 s) = Some h2"
      using a(1) b(1) s i t2(2) q by (simp add: Let_def move_to_def state_conv small_state tl_remove_p_def tl_append_def set_thread_def)
    then have "h = h2" using 1(1) by simp
    then show ?thesis using a(2) b(2) t by (auto simp: agree_off_def)
  qed
  ultimately show ?thesis using 1(1) by blast
qed

text \<open>Blocking another thread for good. Its nodes and those of the lists it leaves and joins are the only ones written.\<close>

lemma block_destroy:
  assumes f: "fam s sids xss" and st: "states_ok s sids xss" and i: "i < 16" and t: "t \<in> set (xss i)" "t \<noteq> thread_c s"
  shows "\<exists>s'. block t 2 s = Some (False, s') \<and> fam s' sids (a_kill t xss) \<and> states_ok s' sids (a_kill t xss) \<and>
    thread_c s' = thread_c s \<and> agree_off (\<Union>i < 16. set (xss i)) (s_nodes s) (s_nodes s') \<and>
    (\<forall>u. th_process_alive (s_threads s' u) = th_process_alive (s_threads s u))"
proof -
  have L: "fam (lock s) sids xss" "states_ok (lock s) sids xss"
    using f st by simp_all
  show ?thesis
  proof (cases "i = 2")
    case True
    have t0: "t \<noteq> NULL" using fam_distinct [OF f, of i] i t(1) by auto
    have "th_state (s_threads s t) = 2" using states_okD [OF st _ t(1)] True by (simp add: list_state_16)
    then have "block t 2 s = Some (False, unlock (lock s))"
      using t(2) t0 by (simp add: block_def move_to_def finish_def)
    moreover have e: "a_kill t xss k = xss k" if k: "k < 16 + length sids" for k
    proof (cases "k = 2")
      case False
      then have "t \<notin> set (xss k)" using fam_disjoint [OF f k _ _ t(1)] i True by auto
      then show ?thesis using False by (simp add: a_kill_def)
    qed (use t(1) True in \<open>simp add: a_kill_def\<close>)
    have "fam (unlock (lock s)) sids (a_kill t xss)" "states_ok (unlock (lock s)) sids (a_kill t xss)"
      by (rule lists_cong(1) [THEN iffD2], erule e, simp add: f, rule lists_cong(2) [THEN iffD2], erule e, simp add: st)
    ultimately show ?thesis by (simp add: agree_off_def)
  next
    case False
    from move_to_frame [OF L i False t(1)] obtain h tls where
      m: "move_to t 2 (lock s) = Some (moved t 2 h tls (lock s))" "fam (moved t 2 h tls (lock s)) sids (a_kill t xss)"
        "states_ok (moved t 2 h tls (lock s)) sids (a_kill t xss)" "agree_off (set (xss i) \<union> set (xss 2)) (s_nodes s) h" by auto
    have "block t 2 s = Some (False, unlock (moved t 2 h tls (lock s)))" using m(1) t(2) by (simp add: block_def finish_def)
    moreover have "agree_off (\<Union>i < 16. set (xss i)) (s_nodes s) h" using m(4) i by (auto simp: agree_off_def)
    ultimately show ?thesis using m(2,3) by simp
  qed
qed

lemma destroy_threads_spec:
  assumes r: "threads_rep p k ns xs" and c: "cache_ok (pr_threads (k_procs k p)) ns" and n: "length xs < 2 ^ 31"
    and f: "fam (k_sched k) sids xss" and st: "states_ok (k_sched k) sids xss"
    and x: "set xs \<subseteq> (\<Union>i < 16. set (xss i))" "thread_c (k_sched k) \<notin> set xs" "set ns \<inter> (\<Union>i < 16. set (xss i)) = {}"
    and j: "j \<le> length xs"
  shows "\<exists>k'. destroy_threads p (of_nat j) k = Some (False, k') \<and> threads_rep p k' ns xs \<and>
    fam (k_sched k') sids (fold a_kill (drop j xs) xss) \<and> states_ok (k_sched k') sids (fold a_kill (drop j xs) xss) \<and>
    thread_c (k_sched k') = thread_c (k_sched k) \<and>
    (\<forall>u. th_process_alive (s_threads (k_sched k') u) \<longleftrightarrow> th_process_alive (s_threads (k_sched k) u) \<and> u \<notin> set (drop j xs))"
  using r c f st x j
proof (induction "length xs - j" arbitrary: j k xss)
  case 0
  then have "j = length xs" by simp
  moreover have "threads_len p k = of_nat (length xs)" using 0(2) by (auto simp: threads_len_def threads_rep_def list_rep_def)
  ultimately have "destroy_threads p (of_nat j) k = Some (False, k)" "drop j xs = []" by (subst destroy_threads.simps, simp_all)
  then show ?case using 0 by simp
next
  case (Suc d)
  have l: "l2_rep (heap_of k) (pr_threads (k_procs k p)) ns xs" using Suc(3) by (simp add: threads_l2)
  have j: "j < length xs" "j < length ns" using Suc(2) l2_rep_len(2) [OF l] by auto
  have lt: "(of_nat j :: usize) < threads_len p k"
    using l2_rep_len(1) [OF l] j n by (simp add: threads_len_def word_less_nat_alt unat_of_nat_small)
  let ?t = "xs ! j"
  let ?l = "(pr_threads (k_procs k p))\<lparr>l_current := ns ! j, l_current_i := of_nat j\<rparr>"
  let ?k = "set_proc p (\<lambda>x. x\<lparr>pr_threads := ?l\<rparr>) k"
  let ?s = "set_thread ?t (\<lambda>x. x\<lparr>th_process_alive := False\<rparr>) (k_sched k)"
  have at: "l2_at (of_nat j) (pr_threads (k_procs k p)) (heap_of k) = Some (?t, ?l)" by (rule l2_at_spec [OF l Suc(4) n j(1)])
  have tin: "?t \<in> set xs" using j(1) by simp
  then have "\<exists>i < 16. ?t \<in> set (xss i)" using Suc(7) by blast
  then obtain i where i: "i < 16" "?t \<in> set (xss i)" by blast
  have t0: "?t \<noteq> NULL" using fam_distinct [OF Suc(5), of i] i by auto
  have tc: "?t \<noteq> thread_c ?s" using tin Suc(8) by auto
  have fs: "fam ?s sids xss" "states_ok ?s sids xss"
    using Suc(5,6) by (simp_all add: states_ok_def set_thread_def)
  from block_destroy [OF fs i tc] obtain s' where
    b: "block ?t 2 ?s = Some (False, s')" "fam s' sids (a_kill ?t xss)" "states_ok s' sids (a_kill ?t xss)"
      "thread_c s' = thread_c (k_sched k)" "agree_off (\<Union>i < 16. set (xss i)) (s_nodes (k_sched k)) (s_nodes s')"
      "\<forall>u. th_process_alive (s_threads s' u) = th_process_alive (s_threads ?s u)" by auto
  let ?k' = "?k\<lparr>k_sched := s'\<rparr>"
  have step: "destroy_threads p (of_nat j) k = destroy_threads p (of_nat (Suc j)) ?k'"
    using lt at t0 tc b(1)
    by (subst destroy_threads.simps) (simp add: threads_at_def with_sched_def add.commute)
  have "s_nodes s' y = s_nodes (k_sched k) y" if "y \<in> set ns" for y
    using b(5) Suc(9) that by (auto simp: agree_off_def)
  moreover have "list_rep (s_nodes (k_sched k)) (pr_threads (k_procs k p)) ns" using Suc(3) by (simp add: threads_rep_def)
  ultimately have "list_rep (s_nodes s') (pr_threads (k_procs k p)) ns" by (auto elim: list_rep_cong)
  then have r': "threads_rep p ?k' ns xs" using Suc(3) by (simp add: threads_rep_def list_rep_def)
  have c': "cache_ok (pr_threads (k_procs ?k' p)) ns" using j n l2_rep_len(2) [OF l] by (simp add: cache_ok_def unat_of_nat_small)
  have u: "(\<Union>i < 16. set (a_kill ?t xss i)) = (\<Union>i < 16. set (xss i))"
    using a_kill_union [of i ?t xss] i by blast
  have x': "set xs \<subseteq> (\<Union>i < 16. set (a_kill ?t xss i))" "thread_c (k_sched ?k') \<notin> set xs"
    "set ns \<inter> (\<Union>i < 16. set (a_kill ?t xss i)) = {}" unfolding u using Suc(7,8,9) b(4) by simp_all
  have d: "d = length xs - Suc j" "Suc j \<le> length xs" using Suc(2) j(1) by simp_all
  have fk: "fam (k_sched ?k') sids (a_kill ?t xss)" "states_ok (k_sched ?k') sids (a_kill ?t xss)" using b(2,3) by simp_all
  from Suc(1) [OF d(1) r' c' fk x' d(2)] obtain k'' where
    e: "destroy_threads p (of_nat (Suc j)) ?k' = Some (False, k'')" "threads_rep p k'' ns xs"
      "fam (k_sched k'') sids (fold a_kill (drop (Suc j) xs) (a_kill ?t xss))"
      "states_ok (k_sched k'') sids (fold a_kill (drop (Suc j) xs) (a_kill ?t xss))" "thread_c (k_sched k'') = thread_c s'"
      "\<forall>u. th_process_alive (s_threads (k_sched k'') u) \<longleftrightarrow> th_process_alive (s_threads s' u) \<and> u \<notin> set (drop (Suc j) xs)" by auto
  have dr: "drop j xs = ?t # drop (Suc j) xs" using j(1) by (simp add: Cons_nth_drop_Suc)
  have "fold a_kill (drop j xs) xss = fold a_kill (drop (Suc j) xs) (a_kill ?t xss)" unfolding dr by simp
  moreover have "th_process_alive (s_threads (k_sched k'') u) \<longleftrightarrow> th_process_alive (s_threads (k_sched k) u) \<and> u \<notin> set (drop j xs)" for u
    unfolding dr using e(6) b(6) by auto
  ultimately show ?case unfolding step using e b(4) by auto
qed

text \<open>
  C30: the destructor of a process kills its threads. When another process does it, in whatever
  lists the threads of the process are, with repetitions or not: every one of them ends once in the list of
  threads to delete, behind those that are there, in the order of the process; it is in no
  other list, so it cannot run again; it no longer counts on its process; all other threads stay
  where they are, and the running one goes on.
\<close>
theorem threads_killed:
  assumes "threads_rep p k ns xs" and "cache_ok (pr_threads (k_procs k p)) ns" and "length xs < 2 ^ 31"
    and "fam (k_sched k) sids xss" and "states_ok (k_sched k) sids xss" and "set xs \<subseteq> (\<Union>i < 16. set (xss i))"
    and "thread_c (k_sched k) \<notin> set xs" and "set ns \<inter> (\<Union>i < 16. set (xss i)) = {}"
  shows "\<exists>k' yss. destroy_threads p 0 k = Some (False, k') \<and> fam (k_sched k') sids yss \<and> states_ok (k_sched k') sids yss \<and>
    yss 2 = fold (\<lambda>t ys. if t \<in> set ys then ys else ys @ [t]) xs (xss 2) \<and>
    (\<forall>j. j \<noteq> 2 \<longrightarrow> yss j = filter (\<lambda>t. t \<notin> set xs) (xss j)) \<and>
    thread_c (k_sched k') = thread_c (k_sched k) \<and> threads_rep p k' ns xs \<and>
    (\<forall>u. th_process_alive (s_threads (k_sched k') u) \<longleftrightarrow> th_process_alive (s_threads (k_sched k) u) \<and> u \<notin> set xs)"
proof -
  from destroy_threads_spec [OF assms, of 0] obtain k' where
    "destroy_threads p 0 k = Some (False, k')" "threads_rep p k' ns xs" "fam (k_sched k') sids (fold a_kill xs xss)"
    "states_ok (k_sched k') sids (fold a_kill xs xss)" "thread_c (k_sched k') = thread_c (k_sched k)"
    "\<forall>u. th_process_alive (s_threads (k_sched k') u) \<longleftrightarrow> th_process_alive (s_threads (k_sched k) u) \<and> u \<notin> set xs" by auto
  then show ?thesis using fold_a_kill(1) [of xs xss] fold_a_kill(2) [of _ xs xss] by (intro exI [of _ k'] exI [of _ "fold a_kill xs xss"]) simp
qed

lemma threads_killed_witness:
  "\<exists>k' yss. destroy_threads 0 0 (ex_kernel_state (\<lambda>n. if n = 256 then 80 else 112)) = Some (False, k') \<and>
     fam (k_sched k') [4096] yss \<and> yss 1 = [64] \<and> yss 2 = [80, 112] \<and> yss 3 = []"
proof -
  let ?k = "ex_kernel_state (\<lambda>n. if n = 256 then 80 else 112)"
  have s: "k_sched ?k = ex_sched [112]" by (simp add: ex_kernel_state_def)
  have b: "fam (k_sched ?k) [4096] (ex_xss [112])" "states_ok (k_sched ?k) [4096] (ex_xss [112])"
    using ex_inv [of "[112]"] unfolding s by (simp_all add: sched_inv_def ready_to_run_def base_def)
  have c: "cache_ok (pr_threads (k_procs ?k 0)) [256, 272]"
    by (simp add: ex_kernel_state_def ex_proc_def cache_ok_def ex_list_def)
  have x: "set [80, 112] \<subseteq> (\<Union>i < 16. set (ex_xss [112] i))"
  proof -
    have "80 \<in> set (ex_xss [112] 1)" "112 \<in> set (ex_xss [112] 3)" "(1 :: nat) < 16" "(3 :: nat) < 16" by (simp_all add: ex_xss_def)
    then show ?thesis by fastforce
  qed
  have d: "set [256, 272] \<inter> (\<Union>i < 16. set (ex_xss [112] i)) = {}" by (auto simp: ex_xss_def split: if_splits)
  have t: "thread_c (k_sched ?k) \<notin> set [80, 112]" unfolding s by (simp add: ex_sched_def)
  have r: "threads_rep 0 ?k [256, 272] [80, 112]" using ex_kernel_threads [of "\<lambda>n. if n = 256 then 80 else 112"] by simp
  from threads_killed [OF r c _ b x t d] obtain k' yss where
    e: "destroy_threads 0 0 ?k = Some (False, k')" "fam (k_sched k') [4096] yss"
      "yss 2 = fold (\<lambda>t ys. if t \<in> set ys then ys else ys @ [t]) [80, 112] (ex_xss [112] 2)"
      "\<forall>j. j \<noteq> 2 \<longrightarrow> yss j = filter (\<lambda>t. t \<notin> set [80, 112]) (ex_xss [112] j)" by auto
  have "yss 1 = [64]" "yss 2 = [80, 112]" "yss 3 = []" using e(3,4) by (simp_all add: ex_xss_def)
  with e(1,2) show ?thesis by blast
qed

end
