(* ===== verification/Tty.thy ===== *)
theory Tty
  imports Str
begin

text \<open>
  The text terminal: \<^verbatim>\<open>src/driver/vga_tty.cpp\<close>. The screen memory is a map from cell
  indices to entries; \<^verbatim>\<open>row\<close> and \<^verbatim>\<open>col\<close> are signed bytes.
\<close>

unbundle bit_operations_syntax

section \<open>Definitions\<close>

definition TTY_SET_COLOR :: u8 where "TTY_SET_COLOR = 1"
definition TTY_SET_POSITION :: u8 where "TTY_SET_POSITION = 2"

abbreviation VGA_ROWS :: int where "VGA_ROWS \<equiv> 25"
abbreviation VGA_COLS :: int where "VGA_COLS \<equiv> 80"

record vga =
  vga_buf :: "int \<Rightarrow> u16"
  row :: i8
  col :: i8
  coli :: "int \<Rightarrow> i8"
  vga_color :: u8

definition vga_black :: u8 where "vga_black = push_bit 4 0 OR 0"

definition vga_form_color :: "u8 \<Rightarrow> u8 \<Rightarrow> u8" where
  "vga_form_color back_c text_c = text_c OR push_bit 4 back_c"

definition vga_form_entry :: "u8 \<Rightarrow> u8 \<Rightarrow> u16" where
  "vga_form_entry color c = push_bit 8 (ucast color) OR ucast c"

definition geti :: "vga \<Rightarrow> int" where "geti s = sint (row s) * VGA_COLS + sint (col s)"

definition set_cell :: "int \<Rightarrow> u16 \<Rightarrow> vga \<Rightarrow> vga" where
  "set_cell i e s = s\<lparr>vga_buf := (vga_buf s)(i := e)\<rparr>"

text \<open>The loops over rows and columns run over the lists of their indices.\<close>

definition copy_row :: "int \<Rightarrow> int \<Rightarrow> vga \<Rightarrow> vga" where
  "copy_row rows r s =
     fold (\<lambda>c s. let i = r * VGA_COLS + c in set_cell i (vga_buf s (rows * VGA_COLS + i)) s) [0..VGA_COLS - 1] s"

definition clear_row :: "int \<Rightarrow> vga \<Rightarrow> vga" where
  "clear_row r s = fold (\<lambda>c. set_cell (r * VGA_COLS + c) (ucast vga_black)) [0..VGA_COLS - 1] s"

definition vga_scroll_down :: "u8 \<Rightarrow> vga \<Rightarrow> vga" where
  "vga_scroll_down rows s =
     (let s = fold (\<lambda>r s. let s = copy_row (uint rows) r s
                 in s\<lparr>coli := (coli s)(r := coli s (r + uint rows))\<rparr>) [0..VGA_ROWS - uint rows - 1] s
      in fold (\<lambda>r s. let s = clear_row r s in s\<lparr>coli := (coli s)(r := 0)\<rparr>) [VGA_ROWS - uint rows..VGA_ROWS - 1] s)"

definition vga_inc_row :: "u16 \<Rightarrow> vga \<Rightarrow> vga" where
  "vga_inc_row n s =
     (let s = s\<lparr>row := row s + ucast n\<rparr>
      in if sint (row s) \<ge> VGA_ROWS then
           let temp = word_of_int (sint (row s) - VGA_ROWS + 1);
               s = vga_scroll_down temp s
           in s\<lparr>row := row s - temp\<rparr>
         else s)"

definition vga_inc_col :: "u16 \<Rightarrow> vga \<Rightarrow> vga" where
  "vga_inc_col n s =
     (let s = s\<lparr>col := col s + ucast n\<rparr>
      in if sint (col s) \<ge> VGA_COLS then
           let s = vga_inc_row (word_of_int (sint (col s) sdiv VGA_COLS)) s
           in s\<lparr>col := word_of_int (sint (col s) smod VGA_COLS)\<rparr>
         else s)"

definition vga_clear :: "vga \<Rightarrow> vga" where
  "vga_clear s =
     (let s = fold (\<lambda>i. set_cell i (ucast vga_black)) [0..VGA_ROWS * VGA_COLS - 1] s
      in s\<lparr>row := 0, col := 0\<rparr>)"

definition vga_putc :: "u8 \<Rightarrow> vga \<Rightarrow> vga" where
  "vga_putc c s =
     (if c = 10 then (vga_inc_row 1 s)\<lparr>col := 0\<rparr>
      else vga_inc_col 1 (set_cell (geti s) (vga_form_entry (vga_color s) c) s))"

partial_function (option) vga_append_loop :: "bytes \<Rightarrow> ptr \<Rightarrow> usize \<Rightarrow> usize \<Rightarrow> vga \<Rightarrow> (bool \<times> vga) option" where
  "vga_append_loop m p n i s =
     (if \<not> i < n then Some (True, s)
      else if m (p + i) = TTY_SET_COLOR then
        let i = i + 1 in vga_append_loop m p n (i + 1) (s\<lparr>vga_color := m (p + i)\<rparr>)
      else if m (p + i) = TTY_SET_POSITION then
        let i = i + 1
        in if uint (m (p + i)) \<ge> VGA_COLS then Some (False, s)
           else let s = s\<lparr>col := m (p + i)\<rparr>; i = i + 1
             in if uint (m (p + i)) \<ge> VGA_ROWS then Some (False, s)
                else vga_append_loop m p n (i + 1) (s\<lparr>row := m (p + i)\<rparr>)
      else vga_append_loop m p n (i + 1) (vga_putc (m (p + i)) s))"

definition vga_append :: "bytes \<Rightarrow> ptr \<Rightarrow> vga \<Rightarrow> (bool \<times> vga) option" where
  "vga_append m p s = do { n \<leftarrow> strlen m p; vga_append_loop m p n 0 s }"

definition vga_write :: "bytes \<Rightarrow> ptr \<Rightarrow> vga \<Rightarrow> (bool \<times> vga) option" where
  "vga_write m p s = vga_append m p (vga_clear s)"

section \<open>The screen\<close>

text \<open>The cursor is on the screen.\<close>

definition on_screen :: "vga \<Rightarrow> bool" where
  "on_screen s \<longleftrightarrow> 0 \<le> sint (row s) \<and> sint (row s) < VGA_ROWS \<and> 0 \<le> sint (col s) \<and> sint (col s) < VGA_COLS"

lemma vga_buf_simps [simp]: "vga_buf (s\<lparr>row := r\<rparr>) = vga_buf s" "vga_buf (s\<lparr>col := c\<rparr>) = vga_buf s"
  "vga_buf (s\<lparr>vga_color := x\<rparr>) = vga_buf s" "vga_buf (s\<lparr>coli := l\<rparr>) = vga_buf s"
  by (cases s, simp)+

definition same_cursor :: "vga \<Rightarrow> vga \<Rightarrow> bool" where
  "same_cursor s s' \<longleftrightarrow> row s' = row s \<and> col s' = col s \<and> vga_color s' = vga_color s"

lemma same_cursor_refl [simp]: "same_cursor s s" by (simp add: same_cursor_def)

lemma same_cursor_trans: "same_cursor s s' \<Longrightarrow> same_cursor s' s'' \<Longrightarrow> same_cursor s s''" by (simp add: same_cursor_def)

lemma set_cell_simps [simp]:
  "vga_buf (set_cell i e s) = (vga_buf s)(i := e)" "row (set_cell i e s) = row s" "col (set_cell i e s) = col s"
  "vga_color (set_cell i e s) = vga_color s" "same_cursor s (set_cell i e s')= same_cursor s s'"
  by (simp_all add: set_cell_def same_cursor_def)

lemma fold_upto: "a \<le> b \<Longrightarrow> fold f [a..b] s = fold f [a + 1..b] (f a s)"
  by (subst upto_rec1) simp_all

lemma fold_upto_empty: "b < a \<Longrightarrow> fold f [a..b] s = s"
  by simp

text \<open>The copy goes through the cells in order: \<open>t\<close> of them have moved up by \<open>k\<close> cells so far.\<close>

definition copied :: "int \<Rightarrow> int \<Rightarrow> vga \<Rightarrow> vga \<Rightarrow> bool" where
  "copied k t s0 s \<longleftrightarrow> same_cursor s0 s \<and>
     vga_buf s = (\<lambda>i. if 0 \<le> i \<and> i < t then vga_buf s0 (k + i) else vga_buf s0 i)"

lemma copied_step: "copied k t s0 s \<Longrightarrow> 0 \<le> k \<Longrightarrow> 0 \<le> t \<Longrightarrow> copied k (t + 1) s0 (set_cell t (vga_buf s (k + t)) s)"
  by (auto simp: copied_def fun_eq_iff)

lemma copy_cells:
  assumes "copied (rows * 80) (r * 80 + c) s0 s" "0 \<le> rows" "0 \<le> r" "0 \<le> c" "c \<le> 80"
  shows "copied (rows * 80) (r * 80 + 80) s0
    (fold (\<lambda>c s. let i = r * 80 + c in set_cell i (vga_buf s (rows * 80 + i)) s) [c..79] s)"
  using assms
proof (induction "nat (80 - c)" arbitrary: c s)
  case 0
  then have "c = 80" by simp
  with 0 show ?case by simp
next
  case (Suc n)
  then have c: "c \<le> 79" by simp
  have "copied (rows * 80) (r * 80 + (c + 1)) s0 (set_cell (r * 80 + c) (vga_buf s (rows * 80 + (r * 80 + c))) s)"
    using copied_step [OF Suc.prems(1)] Suc.prems by (simp add: add.assoc)
  from Suc.hyps(1) [OF _ this] Suc.hyps(2) Suc.prems c show ?case
    by (subst fold_upto) (simp_all add: Let_def)
qed

lemma copy_rows:
  assumes "copied (rows * 80) (r * 80) s0 s" "0 \<le> rows" "0 \<le> r" "r \<le> n"
  shows "copied (rows * 80) (n * 80) s0
    (fold (\<lambda>r s. let s = copy_row rows r s in s\<lparr>coli := (coli s)(r := coli s (r + rows))\<rparr>) [r..n - 1] s)"
  using assms
proof (induction "nat (n - r)" arbitrary: r s)
  case 0
  then have "r = n" by simp
  with 0 show ?case by simp
next
  case (Suc m)
  then have r: "r \<le> n - 1" by simp
  have "copied (rows * 80) (r * 80 + 80) s0 (copy_row rows r s)"
    unfolding copy_row_def using copy_cells [of rows r 0 s0 s] Suc.prems by simp
  then have "copied (rows * 80) ((r + 1) * 80) s0
      ((copy_row rows r s)\<lparr>coli := (coli (copy_row rows r s))(r := coli (copy_row rows r s) (r + rows))\<rparr>)"
    by (simp add: copied_def same_cursor_def algebra_simps)
  from Suc.hyps(1) [OF _ this] Suc.hyps(2) Suc.prems r show ?case
    by (subst fold_upto) (simp_all add: Let_def)
qed

definition cleared :: "int \<Rightarrow> int \<Rightarrow> vga \<Rightarrow> vga \<Rightarrow> bool" where
  "cleared a t s0 s \<longleftrightarrow> same_cursor s0 s \<and>
     vga_buf s = (\<lambda>i. if a \<le> i \<and> i < t then 0 else vga_buf s0 i)"

lemma black [simp]: "ucast vga_black = (0 :: u16)"
  by (simp add: vga_black_def)

lemma cleared_step: "cleared a t s0 s \<Longrightarrow> a \<le> t \<Longrightarrow> cleared a (t + 1) s0 (set_cell t 0 s)"
  by (auto simp: cleared_def fun_eq_iff)

lemma clear_cells:
  assumes "cleared a (b + c) s0 s" "a \<le> b" "0 \<le> c" "c \<le> n"
  shows "cleared a (b + n) s0 (fold (\<lambda>c. set_cell (b + c) (ucast vga_black)) [c..n - 1] s)"
  using assms
proof (induction "nat (n - c)" arbitrary: c s)
  case 0
  then have "c = n" by simp
  with 0 show ?case by simp
next
  case (Suc m)
  then have c: "c \<le> n - 1" by simp
  have "cleared a (b + (c + 1)) s0 (set_cell (b + c) 0 s)"
    using cleared_step [OF Suc.prems(1)] Suc.prems by (simp add: add.assoc)
  from Suc.hyps(1) [OF _ this] Suc.hyps(2) Suc.prems c show ?case
    by (subst fold_upto) simp_all
qed

lemma clear_rows:
  assumes "cleared a (r * 80) s0 s" "a \<le> r * 80" "r \<le> n"
  shows "cleared a (n * 80) s0 (fold (\<lambda>r s. let s = clear_row r s in s\<lparr>coli := (coli s)(r := 0)\<rparr>) [r..n - 1] s)"
  using assms
proof (induction "nat (n - r)" arbitrary: r s)
  case 0
  then have "r = n" by simp
  with 0 show ?case by simp
next
  case (Suc m)
  then have r: "r \<le> n - 1" by simp
  have "cleared a (r * 80 + 80) s0 (clear_row r s)"
    unfolding clear_row_def using clear_cells [of a "r * 80" 0 s0 s 80] Suc.prems by simp
  then have "cleared a ((r + 1) * 80) s0 ((clear_row r s)\<lparr>coli := (coli (clear_row r s))(r := 0)\<rparr>)"
    by (simp add: cleared_def same_cursor_def algebra_simps)
  from Suc.hyps(1) [OF _ this] Suc.hyps(2) Suc.prems r show ?case
    by (subst fold_upto) (simp_all add: Let_def)
qed

lemma vga_scroll_down_spec:
  assumes "uint rows \<le> 25"
  shows "same_cursor s (vga_scroll_down rows s) \<and> vga_buf (vga_scroll_down rows s) =
    (\<lambda>i. if 0 \<le> i \<and> i < (25 - uint rows) * 80 then vga_buf s (i + uint rows * 80)
      else if 0 \<le> i \<and> i < 2000 then 0 else vga_buf s i)"
proof -
  let ?k = "uint rows"
  let ?a = "fold (\<lambda>r s. let s = copy_row ?k r s in s\<lparr>coli := (coli s)(r := coli s (r + ?k))\<rparr>) [0..25 - ?k - 1] s"
  have k: "0 \<le> ?k" by simp
  have "copied (?k * 80) (0 * 80) s s" by (auto simp: copied_def fun_eq_iff)
  from copy_rows [OF this k, of "25 - ?k"] assms have c: "copied (?k * 80) ((25 - ?k) * 80) s ?a" by simp
  have "cleared ((25 - ?k) * 80) ((25 - ?k) * 80) ?a ?a" by (auto simp: cleared_def fun_eq_iff)
  from clear_rows [OF this order_refl, of 25] have
    d: "cleared ((25 - ?k) * 80) (25 * 80) ?a (vga_scroll_down rows s)"
    by (simp add: vga_scroll_down_def Let_def)
  have "same_cursor s (vga_scroll_down rows s)" using c d same_cursor_trans by (auto simp: copied_def cleared_def)
  moreover have "vga_buf (vga_scroll_down rows s) i =
      (if 0 \<le> i \<and> i < (25 - ?k) * 80 then vga_buf s (i + ?k * 80) else if 0 \<le> i \<and> i < 2000 then 0 else vga_buf s i)" for i
    using c d assms by (auto simp: copied_def cleared_def add.commute)
  ultimately show ?thesis by blast
qed

section \<open>The terminal it implements\<close>

text \<open>
  A screen of 25 rows of 80 cells, and the cursor. A new line moves the cursor down, and at the
  bottom moves the text up instead.
\<close>

type_synonym screen = "int \<Rightarrow> int \<Rightarrow> u16"

definition in_screen :: "int \<Rightarrow> int \<Rightarrow> bool" where
  "in_screen r c \<longleftrightarrow> 0 \<le> r \<and> r < VGA_ROWS \<and> 0 \<le> c \<and> c < VGA_COLS"

definition a_screen :: "vga \<Rightarrow> screen" where
  "a_screen s = (\<lambda>r c. if in_screen r c then vga_buf s (r * VGA_COLS + c) else 0)"

lemma a_screen_simps [simp]: "a_screen (s\<lparr>row := r\<rparr>) = a_screen s" "a_screen (s\<lparr>col := c\<rparr>) = a_screen s"
  "a_screen (s\<lparr>vga_color := x\<rparr>) = a_screen s" "a_screen (s\<lparr>coli := l\<rparr>) = a_screen s"
  by (simp_all add: a_screen_def cong: if_cong)

definition a_down :: "screen \<Rightarrow> int \<Rightarrow> screen \<times> int" where
  "a_down scr r = (if r + 1 < VGA_ROWS then (scr, r + 1)
     else ((\<lambda>r c. if 0 \<le> r \<and> r + 1 < VGA_ROWS then scr (r + 1) c else 0), r))"

definition a_putc :: "u8 \<Rightarrow> u8 \<Rightarrow> screen \<times> int \<times> int \<Rightarrow> screen \<times> int \<times> int" where
  "a_putc color x = (\<lambda>(scr, r, c).
     if x = 10 then let (scr, r) = a_down scr r in (scr, r, 0)
     else let scr = scr(r := (scr r)(c := vga_form_entry color x))
       in if c + 1 < VGA_COLS then (scr, r, c + 1) else let (scr, r) = a_down scr r in (scr, r, 0))"

definition a_vga :: "vga \<Rightarrow> screen \<times> int \<times> int" where
  "a_vga s = (a_screen s, sint (row s), sint (col s))"

lemma sint_incr: "sint (w :: i8) < 127 \<Longrightarrow> sint (w + 1) = sint w + 1"
proof -
  assume "sint w < 127"
  then have "signed_take_bit 7 (sint w + 1) = sint w + 1"
    using sint_greater_eq [of w] by (intro signed_take_bit_int_eq_self) simp_all
  then show ?thesis by (simp add: sint_word_ariths)
qed

text \<open>Moving the cursor one line down.\<close>

lemma inc_row_spec:
  assumes "0 \<le> sint (row s)" "sint (row s) < 25"
  shows "(a_screen (vga_inc_row 1 s), sint (row (vga_inc_row 1 s))) = a_down (a_screen s) (sint (row s)) \<and>
    col (vga_inc_row 1 s) = col s \<and> vga_color (vga_inc_row 1 s) = vga_color s \<and>
    (\<forall>i. i < 0 \<or> 2000 \<le> i \<longrightarrow> vga_buf (vga_inc_row 1 s) i = vga_buf s i)"
proof -
  have r: "sint (row s + 1) = sint (row s) + 1" using assms by (intro sint_incr) simp
  show ?thesis
  proof (cases "sint (row s) + 1 < 25")
    case True
    then show ?thesis using r by (simp add: vga_inc_row_def Let_def a_down_def)
  next
    case False
    then have e: "sint (row s) = 24" using assms by simp
    let ?s = "s\<lparr>row := row s + 1\<rparr>"
    have i: "vga_inc_row 1 s = (let s' = vga_scroll_down 1 ?s in s'\<lparr>row := row s' - 1\<rparr>)"
      using r e by (simp add: vga_inc_row_def Let_def)
    have sc: "same_cursor ?s (vga_scroll_down 1 ?s)" "vga_buf (vga_scroll_down 1 ?s) =
      (\<lambda>i. if 0 \<le> i \<and> i < 1920 then vga_buf s (i + 80) else if 0 \<le> i \<and> i < 2000 then 0 else vga_buf s i)"
      using vga_scroll_down_spec [of 1 ?s] by (simp_all cong: if_cong)
    have "a_screen (vga_inc_row 1 s) r c = (if 0 \<le> r \<and> r + 1 < 25 then a_screen s (r + 1) c else 0)" for r c
      unfolding i Let_def a_screen_def in_screen_def using sc(2) by (auto simp: algebra_simps)
    then have "a_screen (vga_inc_row 1 s) = fst (a_down (a_screen s) (sint (row s)))"
      unfolding a_down_def e by (simp add: fun_eq_iff)
    moreover have "sint (row (vga_inc_row 1 s)) = snd (a_down (a_screen s) (sint (row s)))"
      unfolding i Let_def a_down_def using sc(1) e by (simp add: same_cursor_def)
    ultimately show ?thesis using sc unfolding i Let_def by (auto simp: same_cursor_def prod_eq_iff)
  qed
qed

lemma a_down_range: "0 \<le> r \<Longrightarrow> r < 25 \<Longrightarrow> 0 \<le> snd (a_down scr r) \<and> snd (a_down scr r) < 25"
  by (simp add: a_down_def)

lemma form_col: "80 sdiv 80 = (1 :: int)" "80 smod 80 = (0 :: int)"
  by (simp_all add: signed_divide_int_def signed_modulo_int_def)

lemma cell_inj:
  fixes r :: int
  assumes "0 \<le> c" "c < 80" "0 \<le> c'" "c' < 80"
  shows "r * 80 + c = r' * 80 + c' \<longleftrightarrow> r = r' \<and> c = c'"
proof -
  have "r * 80 + c \<noteq> r' * 80 + c'" if "r \<noteq> r'" using that assms by linarith
  then show ?thesis by (cases "r = r'") auto
qed

lemma putc_spec:
  assumes s: "on_screen s"
  shows "on_screen (vga_putc x s) \<and> a_vga (vga_putc x s) = a_putc (vga_color s) x (a_vga s) \<and>
    vga_color (vga_putc x s) = vga_color s \<and>
    (\<forall>i. i < 0 \<or> 2000 \<le> i \<longrightarrow> vga_buf (vga_putc x s) i = vga_buf s i)"
proof (cases "x = 10")
  case True
  have r: "0 \<le> sint (row s)" "sint (row s) < 25" using s by (simp_all add: on_screen_def)
  from inc_row_spec [OF r] a_down_range [OF r] True show ?thesis
    by (auto simp: vga_putc_def a_vga_def a_putc_def on_screen_def prod_eq_iff split: prod.splits)
next
  case False
  let ?e = "vga_form_entry (vga_color s) x"
  let ?s = "set_cell (geti s) ?e s"
  have b: "0 \<le> sint (row s)" "sint (row s) < 25" "0 \<le> sint (col s)" "sint (col s) < 80"
    using s by (simp_all add: on_screen_def)
  have g: "0 \<le> geti s" "geti s < 2000" using b by (simp_all add: geti_def)
  have inj: "r * 80 + c = geti s \<longleftrightarrow> r = sint (row s) \<and> c = sint (col s)" if "in_screen r c" for r c
    using cell_inj that b by (simp add: geti_def in_screen_def)
  have scr: "a_screen ?s = (a_screen s)(sint (row s) := (a_screen s (sint (row s)))(sint (col s) := ?e))"
    using inj b by (auto simp: a_screen_def fun_eq_iff in_screen_def)
  have c: "sint (col s + 1) = sint (col s) + 1" using b by (intro sint_incr) simp
  let ?t = "?s\<lparr>col := col s + 1\<rparr>"
  show ?thesis
  proof (cases "sint (col s) + 1 < 80")
    case True
    then have "vga_putc x s = ?t" using False c by (simp add: vga_putc_def vga_inc_col_def Let_def)
    moreover have "a_screen ?t = a_screen ?s" by simp
    ultimately show ?thesis using True False c b g scr
      by (simp add: a_vga_def a_putc_def on_screen_def)
  next
    case l: False
    then have e: "sint (col s) + 1 = 80" using b by simp
    have p: "vga_putc x s = (vga_inc_row 1 ?t)\<lparr>col := word_of_int (sint (col (vga_inc_row 1 ?t)) smod 80)\<rparr>"
      using False c e by (simp add: vga_putc_def vga_inc_col_def Let_def form_col)
    have rt: "0 \<le> sint (row ?t)" "sint (row ?t) < 25" using b by simp_all
    note sp = inc_row_spec [OF rt] a_down_range [OF rt, of "a_screen ?t"]
    have at: "a_screen ?t = a_screen ?s" by simp
    have ct: "sint (col (vga_inc_row 1 ?t)) = 80" using sp(1) c e by simp
    have p': "vga_putc x s = (vga_inc_row 1 ?t)\<lparr>col := 0\<rparr>" unfolding p ct form_col by simp
    have as: "a_screen ((vga_inc_row 1 ?t)\<lparr>col := 0\<rparr>) = a_screen (vga_inc_row 1 ?t)" by simp
    have "a_vga (vga_putc x s) = (let (scr, r) = a_down (a_screen ?s) (sint (row s)) in (scr, r, 0))"
      unfolding p' a_vga_def as using sp(1) at by (auto simp: prod_eq_iff split: prod.splits)
    then have "a_vga (vga_putc x s) = a_putc (vga_color s) x (a_vga s)"
      using False l scr by (simp add: a_putc_def a_vga_def)
    moreover have "sint (row (vga_inc_row 1 ?t)) = snd (a_down (a_screen ?t) (sint (row ?t)))"
      using sp(1) by (simp add: prod_eq_iff)
    then have "on_screen (vga_putc x s)" using sp(2) unfolding p' on_screen_def by simp
    ultimately show ?thesis using sp(1) g unfolding p' by auto
  qed
qed

text \<open>
  while the cursor is on the screen, printing a character is the abstract terminal's
  \<open>a_putc\<close>: the character goes into the cell under the cursor in the current colour, the
  cursor moves on, wraps at the end of a line, and a line feed or a wrap on the last line moves
  the text up by one line and clears the last. The cursor stays on the screen, and no cell
  outside the 2000 of the screen memory is written.
\<close>
theorem vga_putc_refines:
  assumes "on_screen s"
  shows "on_screen (vga_putc x s) \<and> a_vga (vga_putc x s) = a_putc (vga_color s) x (a_vga s) \<and>
    vga_color (vga_putc x s) = vga_color s \<and>
    (\<forall>i. i < 0 \<or> 2000 \<le> i \<longrightarrow> vga_buf (vga_putc x s) i = vga_buf s i)"
  using putc_spec [OF assms] .

definition ex_vga :: vga where
  "ex_vga = \<lparr>vga_buf = (\<lambda>i. of_int i), row = 24, col = 79, coli = (\<lambda>_. 0), vga_color = 15\<rparr>"

theorem vga_putc_refines_witness:
  "on_screen ex_vga \<and> a_vga (vga_putc 65 ex_vga) = a_putc 15 65 (a_vga ex_vga) \<and>
   a_putc 15 65 (a_vga ex_vga) = ((\<lambda>r c. if 0 \<le> r \<and> r + 1 < 25 then ((a_screen ex_vga)(24 := (a_screen ex_vga 24)(79 := 0xF41))) (r + 1) c else 0), 24, 0)"
proof -
  have s: "on_screen ex_vga" by (simp add: on_screen_def ex_vga_def)
  have e: "vga_form_entry 15 65 = 0xF41" by code_simp
  from vga_putc_refines [OF s, of 65] have "a_vga (vga_putc 65 ex_vga) = a_putc 15 65 (a_vga ex_vga)"
    by (simp add: ex_vga_def)
  moreover have "a_vga ex_vga = (a_screen ex_vga, 24, 79)" by (simp add: a_vga_def ex_vga_def)
  ultimately show ?thesis using s e by (simp add: a_putc_def a_down_def)
qed

section \<open>Control strings\<close>

text \<open>
  A string for the terminal is a sequence of characters and of two commands; \<open>tty_bytes\<close> is
  their encoding. As the terminator ends a string, no argument of a command is 0.
\<close>

datatype tty_item = TChar u8 | TColor u8 | TPos u8 u8

fun tty_bytes :: "tty_item \<Rightarrow> u8 list" where
  "tty_bytes (TChar x) = [x]"
| "tty_bytes (TColor x) = [TTY_SET_COLOR, x]"
| "tty_bytes (TPos c r) = [TTY_SET_POSITION, c, r]"

fun tty_ok :: "tty_item \<Rightarrow> bool" where
  "tty_ok (TChar x) \<longleftrightarrow> x \<noteq> TTY_SET_COLOR \<and> x \<noteq> TTY_SET_POSITION \<and> x \<noteq> 0"
| "tty_ok (TColor x) \<longleftrightarrow> x \<noteq> 0"
| "tty_ok (TPos c r) \<longleftrightarrow> c \<noteq> 0 \<and> r \<noteq> 0 \<and> uint c < VGA_COLS \<and> uint r < VGA_ROWS"

fun tty_do :: "tty_item \<Rightarrow> vga \<Rightarrow> vga" where
  "tty_do (TChar x) s = vga_putc x s"
| "tty_do (TColor x) s = s\<lparr>vga_color := x\<rparr>"
| "tty_do (TPos c r) s = s\<lparr>col := c, row := r\<rparr>"

text \<open>What an item means: the colour, the screen and the cursor after it.\<close>

fun a_do :: "tty_item \<Rightarrow> u8 \<times> screen \<times> int \<times> int \<Rightarrow> u8 \<times> screen \<times> int \<times> int" where
  "a_do (TChar x) (color, t) = (color, a_putc color x t)"
| "a_do (TColor x) (color, t) = (x, t)"
| "a_do (TPos c r) (color, scr, _) = (color, scr, uint r, uint c)"

abbreviation tty_string :: "tty_item list \<Rightarrow> u8 list" where
  "tty_string its \<equiv> concat (map tty_bytes its)"

lemma append_loop_at:
  assumes i: "i < n" "n < 2 ^ 64" and x: "m (p + of_nat i) = x"
  shows "x \<noteq> TTY_SET_COLOR \<Longrightarrow> x \<noteq> TTY_SET_POSITION \<Longrightarrow>
      vga_append_loop m p (of_nat n) (of_nat i) s = vga_append_loop m p (of_nat n) (of_nat (i + 1)) (vga_putc x s)"
    and "x = TTY_SET_COLOR \<Longrightarrow> vga_append_loop m p (of_nat n) (of_nat i) s =
      vga_append_loop m p (of_nat n) (of_nat (i + 2)) (s\<lparr>vga_color := m (p + of_nat (i + 1))\<rparr>)"
    and "x = TTY_SET_POSITION \<Longrightarrow> uint (m (p + of_nat (i + 1))) < VGA_COLS \<Longrightarrow> uint (m (p + of_nat (i + 2))) < VGA_ROWS \<Longrightarrow>
      vga_append_loop m p (of_nat n) (of_nat i) s =
      vga_append_loop m p (of_nat n) (of_nat (i + 3)) (s\<lparr>col := m (p + of_nat (i + 1)), row := m (p + of_nat (i + 2))\<rparr>)"
proof -
  have l: "(of_nat i :: usize) < of_nat n" using i by (simp add: less_of_nat)
  have e: "p + of_nat i + 1 = p + of_nat (i + 1)" "(of_nat i :: usize) + 1 = of_nat (i + 1)"
    "(of_nat (i + 1) :: usize) + 1 = of_nat (i + 2)" "(of_nat (i + 2) :: usize) + 1 = of_nat (i + 3)" by simp_all
  have ne: "TTY_SET_POSITION \<noteq> TTY_SET_COLOR" by (simp add: TTY_SET_COLOR_def TTY_SET_POSITION_def)
  show "vga_append_loop m p (of_nat n) (of_nat i) s = vga_append_loop m p (of_nat n) (of_nat (i + 1)) (vga_putc x s)"
    if "x \<noteq> TTY_SET_COLOR" "x \<noteq> TTY_SET_POSITION"
    using that l x by (subst vga_append_loop.simps) (simp add: add.commute)
  show "vga_append_loop m p (of_nat n) (of_nat i) s =
      vga_append_loop m p (of_nat n) (of_nat (i + 2)) (s\<lparr>vga_color := m (p + of_nat (i + 1))\<rparr>)" if "x = TTY_SET_COLOR"
    using that l x unfolding e(2) [symmetric] e(3) [symmetric] by (subst vga_append_loop.simps) (simp add: Let_def)
  show "vga_append_loop m p (of_nat n) (of_nat i) s =
      vga_append_loop m p (of_nat n) (of_nat (i + 3)) (s\<lparr>col := m (p + of_nat (i + 1)), row := m (p + of_nat (i + 2))\<rparr>)"
    if "x = TTY_SET_POSITION" "uint (m (p + of_nat (i + 1))) < VGA_COLS" "uint (m (p + of_nat (i + 2))) < VGA_ROWS"
  proof -
    let ?i = "of_nat i :: usize"
    note f = that(2,3) [folded e]
    show ?thesis unfolding e(4) [symmetric] e(3) [symmetric] e(2) [symmetric]
      using that(1) f l x ne by (subst vga_append_loop.simps) (simp add: Let_def e not_le)
  qed
qed

lemma append_loop_spec:
  assumes "bytes_at m (p + of_nat i) (tty_string its)" "\<forall>it \<in> set its. tty_ok it"
    and "n = i + length (tty_string its)" "n < 2 ^ 64"
  shows "vga_append_loop m p (of_nat n) (of_nat i) s = Some (True, fold tty_do its s)"
  using assms
proof (induction its arbitrary: i s)
  case Nil
  then show ?case by (subst vga_append_loop.simps) simp
next
  case (Cons it its)
  let ?k = "length (tty_bytes it)"
  have b: "bytes_at m (p + of_nat i) (tty_bytes it)" "bytes_at m (p + of_nat (i + ?k)) (tty_string its)"
    using Cons.prems(1) by (simp_all add: bytes_at_append add.assoc)
  have k: "?k > 0" by (cases it) simp_all
  have IH: "vga_append_loop m p (of_nat n) (of_nat (i + ?k)) s' = Some (True, fold tty_do its s')" for s'
    by (rule Cons.IH) (use Cons.prems b in simp_all)
  have n: "i < n" using Cons.prems(3) k by simp
  note at = append_loop_at [OF n Cons.prems(4), of m p]
  show ?case
  proof (cases it)
    case (TChar x)
    with b(1) have x: "m (p + of_nat i) = x" by (simp add: bytes_at_Cons)
    have "x \<noteq> TTY_SET_COLOR" "x \<noteq> TTY_SET_POSITION" using Cons.prems(2) TChar by simp_all
    from at(1) [OF x this] IH TChar show ?thesis by simp
  next
    case (TColor c)
    with b(1) have x: "m (p + of_nat i) = TTY_SET_COLOR" "m (p + of_nat (i + 1)) = c"
      by (simp_all add: bytes_at_Cons add.commute add.left_commute)
    from at(2) [OF x(1) refl] IH TColor show ?thesis unfolding x(2) by simp
  next
    case (TPos c r)
    with b(1) have x: "m (p + of_nat i) = TTY_SET_POSITION" "m (p + of_nat (i + 1)) = c" "m (p + of_nat (i + 2)) = r"
      by (simp_all add: bytes_at_Cons add.commute add.left_commute)
    have "uint (m (p + of_nat (i + 1))) < VGA_COLS" "uint (m (p + of_nat (i + 2))) < VGA_ROWS"
      unfolding x(2,3) using Cons.prems(2) TPos by simp_all
    from at(3) [OF x(1) refl this] IH TPos show ?thesis unfolding x(2,3) by (simp add: numeral_3_eq_3)
  qed
qed

lemma vga_append_spec:
  assumes "cstr m p (tty_string its)" "\<forall>it \<in> set its. tty_ok it"
  shows "vga_append m p s = Some (True, fold tty_do its s)"
proof -
  have "bytes_at m (p + of_nat 0) (tty_string its)" "length (tty_string its) < 2 ^ 64"
    using assms(1) by (simp_all add: cstr_def bytes_at_append)
  from append_loop_spec [OF this(1) assms(2) _ this(2), of s] strlen_spec [OF assms(1)]
  show ?thesis by (simp add: vga_append_def)
qed

lemma sint_u8: "uint (x :: u8) < 128 \<Longrightarrow> sint x = uint x"
proof -
  assume "uint x < 128"
  moreover have "- 128 \<le> uint x" by (rule order_trans [OF _ uint_ge_0]) simp
  ultimately have "signed_take_bit 7 (uint x) = uint x" by (intro signed_take_bit_int_eq_self) simp_all
  then show ?thesis by (simp add: sint_uint)
qed

text \<open>Only a position has to fit on the screen.\<close>

fun tty_fits :: "tty_item \<Rightarrow> bool" where
  "tty_fits (TPos c r) \<longleftrightarrow> uint c < VGA_COLS \<and> uint r < VGA_ROWS"
| "tty_fits _ \<longleftrightarrow> True"

lemma tty_ok_fits: "tty_ok it \<Longrightarrow> tty_fits it"
  by (cases it) simp_all

lemma tty_do_spec:
  assumes "on_screen s" "tty_fits it"
  shows "on_screen (tty_do it s) \<and> (vga_color (tty_do it s), a_vga (tty_do it s)) = a_do it (vga_color s, a_vga s) \<and>
    (\<forall>i. i < 0 \<or> 2000 \<le> i \<longrightarrow> vga_buf (tty_do it s) i = vga_buf s i)"
proof (cases it)
  case (TChar x)
  then show ?thesis using putc_spec [OF assms(1)] by simp
next
  case (TColor x)
  then show ?thesis using assms(1) by (simp add: on_screen_def a_vga_def)
next
  case (TPos c r)
  with assms(2) have "sint c = uint c" "sint r = uint r" "uint c < 80" "uint r < 25" by (auto intro: sint_u8)
  then show ?thesis using TPos by (simp add: on_screen_def a_vga_def)
qed

lemma tty_fold_spec:
  assumes "on_screen s" "\<forall>it \<in> set its. tty_fits it"
  shows "on_screen (fold tty_do its s) \<and>
    (vga_color (fold tty_do its s), a_vga (fold tty_do its s)) = fold a_do its (vga_color s, a_vga s) \<and>
    (\<forall>i. i < 0 \<or> 2000 \<le> i \<longrightarrow> vga_buf (fold tty_do its s) i = vga_buf s i)"
  using assms
proof (induction its arbitrary: s)
  case (Cons it its)
  then have "on_screen s" "tty_fits it" "\<forall>it \<in> set its. tty_fits it" by simp_all
  from tty_do_spec [OF this(1,2)] Cons.IH [OF _ this(3), of "tty_do it s"] show ?case by simp
qed simp

text \<open>
  C38: a string of characters and of colour and position commands, in their encoding, is
  written by \<open>vga_append\<close> as their meaning on the abstract terminal says: every command and
  every character has its effect in order, the call succeeds, the cursor stays on the screen,
  and no cell outside the screen memory is written.
\<close>
theorem vga_append_refines:
  assumes "on_screen s" "cstr m p (tty_string its)" "\<forall>it \<in> set its. tty_ok it"
  shows "\<exists>s'. vga_append m p s = Some (True, s') \<and> on_screen s' \<and>
    (vga_color s', a_vga s') = fold a_do its (vga_color s, a_vga s) \<and>
    (\<forall>i. i < 0 \<or> 2000 \<le> i \<longrightarrow> vga_buf s' i = vga_buf s i)"
proof -
  have "\<forall>it \<in> set its. tty_fits it" using assms(3) tty_ok_fits by blast
  with vga_append_spec [OF assms(2,3)] tty_fold_spec [OF assms(1)] show ?thesis by blast
qed

definition ex_text :: bytes where
  "ex_text = write_at 4096 (tty_string [TColor 4, TPos 79 1, TChar 65, TChar 66] @ [0]) (\<lambda>_. 0)"

theorem vga_append_refines_witness:
  "\<exists>s'. vga_append ex_text 4096 ex_vga = Some (True, s') \<and> on_screen s' \<and>
     (vga_color s', a_vga s') = (4, ((a_screen ex_vga)(1 := (a_screen ex_vga 1)(79 := 0x441),
        2 := (a_screen ex_vga 2)(0 := 0x442)), 2, 1))"
proof -
  let ?its = "[TColor 4, TPos 79 1, TChar 65, TChar 66]"
  have s: "on_screen ex_vga" by (simp add: on_screen_def ex_vga_def)
  have e: "vga_form_entry 4 65 = 0x441" "vga_form_entry 4 66 = 0x442" by code_simp+
  have ok: "\<forall>it \<in> set ?its. tty_ok it" by (simp add: TTY_SET_COLOR_def TTY_SET_POSITION_def)
  have c: "cstr ex_text 4096 (tty_string ?its)"
    unfolding cstr_def ex_text_def
    by (intro conjI write_at_read) (simp_all add: TTY_SET_COLOR_def TTY_SET_POSITION_def)
  have "a_vga ex_vga = (a_screen ex_vga, 24, 79)" by (simp add: a_vga_def ex_vga_def)
  then have "fold a_do ?its (vga_color ex_vga, a_vga ex_vga) = (4, ((a_screen ex_vga)(1 := (a_screen ex_vga 1)(79 := 0x441),
        2 := (a_screen ex_vga 2)(0 := 0x442)), 2, 1))"
    by (simp add: a_putc_def a_down_def e)
  with vga_append_refines [OF s c ok] show ?thesis by metis
qed

end
