(* ===== verification/Io.thy ===== *)
theory Io
  imports Tty
begin

text \<open>
  Formatted output: \<^verbatim>\<open>src/util/io.cpp\<close>. \<open>kprintf_internal\<close> is written over two output
  functions, which the code passes as function pointers: \<open>text_sink\<close> states what it needs of
  them, and the debug console and the text terminal provide it.
\<close>

section \<open>Definitions\<close>

text \<open>The bytes written to I/O ports, in order.\<close>

type_synonym port_log = "(u16 \<times> u8) list"

definition DEBUGCON_PORT :: u16 where "DEBUGCON_PORT = 0xe9"

definition outb :: "u16 \<Rightarrow> u8 \<Rightarrow> port_log \<Rightarrow> port_log" where
  "outb port v l = l @ [(port, v)]"

definition debugcon_putc :: "u8 \<Rightarrow> port_log \<Rightarrow> port_log" where
  "debugcon_putc c = outb DEBUGCON_PORT c"

partial_function (option) debugcon_puts_loop :: "bytes \<Rightarrow> ptr \<Rightarrow> usize \<Rightarrow> port_log \<Rightarrow> port_log option" where
  "debugcon_puts_loop m str i l =
     (if m (str + i) \<noteq> 0 then debugcon_puts_loop m str (i + 1) (debugcon_putc (m (str + i)) l) else Some l)"

definition debugcon_puts :: "bytes \<Rightarrow> ptr \<Rightarrow> port_log \<Rightarrow> port_log option" where
  "debugcon_puts m str l = debugcon_puts_loop m str 0 l"

text \<open>
  One conversion: the arguments that are left, the memory with the local buffer \<open>buf\<close> and the
  output. A conversion with no argument left is undefined.
\<close>

definition convert :: "(u8 \<Rightarrow> 's \<Rightarrow> 's) \<Rightarrow> (bytes \<Rightarrow> ptr \<Rightarrow> 's \<Rightarrow> 's option) \<Rightarrow> ptr \<Rightarrow> u8 \<Rightarrow> u64 \<Rightarrow> bytes \<Rightarrow> 's \<Rightarrow> (bytes \<times> 's) option" where
  "convert putc puts buf c a m s =
     (if c = ch CHR ''u'' then
        let m = itoa buf (ucast (ucast a :: u32)) m in do { s \<leftarrow> puts m buf s; Some (m, s) }
      else if c = ch CHR ''x'' then
        let m = itoa_hex buf a m; s = putc (ch CHR ''0'') s; s = putc (ch CHR ''x'') s
        in do { s \<leftarrow> puts m buf s; Some (m, s) }
      else if c = ch CHR ''s'' then do { s \<leftarrow> puts m a s; Some (m, s) }
      else if c = ch CHR ''c'' then Some (m, putc (ucast a) s)
      else
        let m = m(buf := TTY_SET_COLOR); m = m(buf + 1 := ucast a); m = m(buf + 2 := 0)
        in do { s \<leftarrow> puts m buf s; Some (m, s) })"

definition conversions :: "u8 list" where
  "conversions = map ch ''uxscC''"

text \<open>The state of the loop: the index, the arguments that are left, the memory and the output.\<close>

type_synonym 's kp_state = "usize \<times> u64 list \<times> bytes \<times> 's"

definition kprintf_step :: "(u8 \<Rightarrow> 's \<Rightarrow> 's) \<Rightarrow> (bytes \<Rightarrow> ptr \<Rightarrow> 's \<Rightarrow> 's option) \<Rightarrow> ptr \<Rightarrow> ptr \<Rightarrow> 's kp_state \<Rightarrow> 's kp_state option" where
  "kprintf_step putc puts buf format = (\<lambda>(i, args, m, s).
     if m (format + i) = ch CHR ''%'' then
       let i = i + 1; c = m (format + i)
       in if c \<in> set conversions then
            (case args of
               [] \<Rightarrow> None
             | a # args \<Rightarrow> do { (m, s) \<leftarrow> convert putc puts buf c a m s; Some (i, args, m, s) })
          else
            let s = putc (ch CHR ''%'') s; s = putc c s; i = i + 1
            in Some (i, args, m, s)
     else Some (i, args, m, putc (m (format + i)) s))"

partial_function (option) kprintf_loop :: "('s kp_state \<Rightarrow> 's kp_state option) \<Rightarrow> usize \<Rightarrow> 's kp_state \<Rightarrow> 's option" where
  "kprintf_loop step len st =
     (if fst st < len then do { (i, args, m, s) \<leftarrow> step st; kprintf_loop step len (i + 1, args, m, s) }
      else Some (snd (snd (snd st))))"

definition kprintf_internal :: "(u8 \<Rightarrow> 's \<Rightarrow> 's) \<Rightarrow> (bytes \<Rightarrow> ptr \<Rightarrow> 's \<Rightarrow> 's option) \<Rightarrow> ptr \<Rightarrow> ptr \<Rightarrow> u64 list \<Rightarrow> bytes \<Rightarrow> 's \<Rightarrow> 's option" where
  "kprintf_internal putc puts buf format args m s =
     do { len \<leftarrow> strlen m format; kprintf_loop (kprintf_step putc puts buf format) len (0, args, m, s) }"

definition vga_puts :: "bytes \<Rightarrow> ptr \<Rightarrow> vga \<Rightarrow> vga option" where
  "vga_puts m p s = map_option snd (vga_append m p s)"

definition kvprintf :: "ptr \<Rightarrow> ptr \<Rightarrow> u64 list \<Rightarrow> bytes \<Rightarrow> vga \<Rightarrow> vga option" where
  "kvprintf = kprintf_internal vga_putc vga_puts"

definition kvprinte :: "ptr \<Rightarrow> ptr \<Rightarrow> u64 list \<Rightarrow> bytes \<Rightarrow> port_log \<Rightarrow> port_log option" where
  "kvprinte = kprintf_internal debugcon_putc debugcon_puts"

definition kprintf :: "ptr \<Rightarrow> ptr \<Rightarrow> u64 list \<Rightarrow> bytes \<Rightarrow> vga \<Rightarrow> vga option" where
  "kprintf = kvprintf"

definition kprinte :: "ptr \<Rightarrow> ptr \<Rightarrow> u64 list \<Rightarrow> bytes \<Rightarrow> port_log \<Rightarrow> port_log option" where
  "kprinte = kvprinte"

section \<open>Formats\<close>

text \<open>
  A format with its arguments is a sequence of items. \<open>FBad c d\<close> is a percent sign before a
  character that names no conversion, with the character after it.
\<close>

datatype fmt_item = FLit u8 | FNum u32 | FHex u64 | FStr ptr "u8 list" | FChr u8 | FCol u8 | FBad u8 u8

fun fmt_bytes :: "fmt_item \<Rightarrow> u8 list" where
  "fmt_bytes (FLit c) = [c]"
| "fmt_bytes (FNum n) = map ch ''%u''"
| "fmt_bytes (FHex n) = map ch ''%x''"
| "fmt_bytes (FStr p t) = map ch ''%s''"
| "fmt_bytes (FChr c) = map ch ''%c''"
| "fmt_bytes (FCol c) = map ch ''%C''"
| "fmt_bytes (FBad c d) = [ch CHR ''%'', c, d]"

fun fmt_args :: "fmt_item \<Rightarrow> u64 list" where
  "fmt_args (FNum n) = [ucast n]"
| "fmt_args (FHex n) = [n]"
| "fmt_args (FStr p t) = [p]"
| "fmt_args (FChr c) = [ucast c]"
| "fmt_args (FCol c) = [ucast c]"
| "fmt_args _ = []"

text \<open>
  The strings are in memory, clear of the buffer, and \<open>plain\<close>: the output function prints them
  as they are.
\<close>

fun fmt_ok :: "(u8 \<Rightarrow> bool) \<Rightarrow> ptr \<Rightarrow> bytes \<Rightarrow> fmt_item \<Rightarrow> bool" where
  "fmt_ok plain buf m (FLit c) \<longleftrightarrow> c \<noteq> 0 \<and> c \<noteq> ch CHR ''%''"
| "fmt_ok plain buf m (FStr p t) \<longleftrightarrow> cstr m p t \<and> list_all plain t \<and> span p (length t + 1) \<inter> span buf 32 = {}"
| "fmt_ok plain buf m (FBad c d) \<longleftrightarrow> c \<noteq> 0 \<and> d \<noteq> 0 \<and> c \<notin> set conversions"
| "fmt_ok _ _ _ _ \<longleftrightarrow> True"

abbreviation fmt_string :: "fmt_item list \<Rightarrow> u8 list" where
  "fmt_string its \<equiv> concat (map fmt_bytes its)"

section \<open>Rendering over any output\<close>

locale text_sink =
  fixes putc :: "u8 \<Rightarrow> 's \<Rightarrow> 's"
    and puts :: "bytes \<Rightarrow> ptr \<Rightarrow> 's \<Rightarrow> 's option"
    and color :: "u8 \<Rightarrow> 's \<Rightarrow> 's"
    and plain :: "u8 \<Rightarrow> bool"
  assumes puts_plain: "cstr m p t \<Longrightarrow> list_all plain t \<Longrightarrow> puts m p s = Some (fold putc t s)"
    and puts_color: "m p = TTY_SET_COLOR \<Longrightarrow> m (p + 1) = c \<Longrightarrow> m (p + 2) = 0 \<Longrightarrow> puts m p s = Some (color c s)"
    and plain_printable: "32 \<le> c \<Longrightarrow> plain c"
begin

text \<open>What the items print.\<close>

fun emit :: "fmt_item \<Rightarrow> 's \<Rightarrow> 's" where
  "emit (FLit c) s = putc c s"
| "emit (FNum n) s = fold putc (dec_str (unat n)) s"
| "emit (FHex n) s = fold putc (map ch ''0x'' @ hex_str (unat n)) s"
| "emit (FStr p t) s = fold putc t s"
| "emit (FChr c) s = putc c s"
| "emit (FCol c) s = color c s"
| "emit (FBad c d) s = fold putc [ch CHR ''%'', c] s"

end

lemma in_span: "i < n \<Longrightarrow> p + of_nat i \<in> span p n"
  unfolding span_def by blast

lemma cstr_frame:
  assumes "cstr m p t" "\<And>a. a \<in> span p (length t + 1) \<Longrightarrow> m' a = m a"
  shows "cstr m' p t"
proof -
  have b: "bytes_at m p (t @ [0])" using assms(1) by (simp add: cstr_def)
  have "bytes_at m' p (t @ [0])"
    by (rule bytes_at_cong [OF b]) (use in_span [of _ "length t + 1" p] assms(2) in auto)
  then show ?thesis using assms(1) by (simp add: cstr_def)
qed

lemma digits_printable: "list_all (\<lambda>c. 32 \<le> c) (dec_str n)" "list_all (\<lambda>c. 32 \<le> c) (hex_str n)"
proof -
  have "(32 :: u8) \<le> dchar d" if "d < 10" for d
  proof -
    from that have "d = 0 \<or> d = 1 \<or> d = 2 \<or> d = 3 \<or> d = 4 \<or> d = 5 \<or> d = 6 \<or> d = 7 \<or> d = 8 \<or> d = 9" by presburger
    then show ?thesis by (elim disjE) simp_all
  qed
  then show "list_all (\<lambda>c. 32 \<le> c) (dec_str n)"
    using dec_digits by (auto simp: dec_str_def list_all_iff)
  have "(32 :: u8) \<le> hexc d" if "d < 16" for d
    using hex_cases [OF that] by (elim disjE) (simp_all add: hexc_def)
  then show "list_all (\<lambda>c. 32 \<le> c) (hex_str n)" by (auto simp: hex_str_def list_all_iff)
qed

lemma itoa_frame: "num < 7766279631452241920 \<Longrightarrow> a \<notin> span p 32 \<Longrightarrow> itoa p num m a = m a"
proof -
  assume n: "num < 7766279631452241920" and a: "a \<notin> span p 32"
  have "length (dec (unat num)) \<le> 20" using unat_word_bound by (rule dec_length_word)
  then have "length (dec_str (unat num) @ [0]) \<le> 32" by (simp add: dec_str_def)
  with a have "a \<notin> span p (length (dec_str (unat num) @ [0]))" by (auto simp: span_def)
  then show ?thesis unfolding itoa_spec [OF n] by (rule write_at_other)
qed

lemma itoa_hex_frame: "a \<notin> span p 32 \<Longrightarrow> itoa_hex p num m a = m a"
proof -
  assume a: "a \<notin> span p 32"
  then have "a \<notin> span p 16" by (auto simp: span_def)
  moreover have "a \<noteq> p + 16"
  proof
    assume "a = p + 16"
    then have "a = p + of_nat 16 \<and> 16 < (32 :: nat)" by simp
    then have "a \<in> span p 32" unfolding span_def by blast
    with a show False ..
  qed
  ultimately show ?thesis using itoa_hex_loop_spec [of 16 0 p num m a] by (simp add: itoa_hex_def)
qed

lemma ucast_ucast_32_64: "ucast (ucast (n :: u32) :: u64) = n"
  by (rule bit_word_eqI) (simp add: bit_ucast_iff)

lemma ucast_ucast_8_64: "ucast (ucast (c :: u8) :: u64) = c"
  by (rule bit_word_eqI) (simp add: bit_ucast_iff)

lemma unat_u32: "unat (ucast (n :: u32) :: u64) = unat n"
proof -
  have "unat n < 2 ^ 64" using unsigned_less [where 'a = nat, of n] by simp
  then show ?thesis by (simp add: unsigned_ucast_eq take_bit_nat_eq_self)
qed

lemma u32_small: "(ucast (n :: u32) :: u64) < 7766279631452241920"
  using unsigned_less [where 'a = nat, of n] by (simp add: word_less_nat_alt unat_u32)

context text_sink
begin

lemma puts_printable: "cstr m p t \<Longrightarrow> list_all (\<lambda>c. 32 \<le> c) t \<Longrightarrow> puts m p s = Some (fold putc t s)"
  using puts_plain plain_printable by (simp add: list_all_iff)

definition conv_char :: "fmt_item \<Rightarrow> u8" where
  "conv_char it = fmt_bytes it ! 1"

lemma convert_item:
  assumes "fmt_ok plain buf m it" "fmt_args it = [a]"
  shows "\<exists>m'. convert putc puts buf (conv_char it) a m s = Some (m', emit it s) \<and> (\<forall>b. b \<notin> span buf 32 \<longrightarrow> m' b = m b)"
proof (cases it)
  case (FNum n)
  with assms(2) have a: "a = ucast n" by simp
  have "puts (itoa buf (ucast n) m) buf s = Some (fold putc (dec_str (unat n)) s)"
    using puts_printable [OF itoa_cstr [OF u32_small] digits_printable(1)] by (simp add: unat_u32)
  then show ?thesis using FNum a itoa_frame [OF u32_small, where m = m]
    by (simp add: convert_def conv_char_def ucast_ucast_32_64)
next
  case (FHex n)
  let ?s = "putc (ch CHR ''x'') (putc (ch CHR ''0'') s)"
  have "puts (itoa_hex buf n m) buf ?s = Some (fold putc (hex_str (unat n)) ?s)"
    by (rule puts_printable [OF itoa_hex_cstr digits_printable(2)])
  then show ?thesis using FHex assms(2) itoa_hex_frame [where m = m]
    by (simp add: convert_def conv_char_def Let_def)
next
  case (FStr p t)
  with assms(1) have "puts m p s = Some (fold putc t s)" by (auto intro: puts_plain)
  with FStr assms(2) show ?thesis by (simp add: convert_def conv_char_def)
next
  case (FChr c)
  with assms(2) show ?thesis by (auto simp: convert_def conv_char_def ucast_ucast_8_64)
next
  case (FCol c)
  let ?m = "m(buf := TTY_SET_COLOR, buf + 1 := c, buf + 2 := 0)"
  have ne: "buf \<noteq> buf + 1" "buf \<noteq> buf + 2" "buf + 1 \<noteq> buf + 2" by simp_all
  have "puts ?m buf s = Some (color c s)"
    by (rule puts_color) (use ne in simp_all)
  moreover have "?m b = m b" if "b \<notin> span buf 32" for b
  proof -
    show ?thesis using that in_span [of 0 32 buf] in_span [of 1 32 buf] in_span [of 2 32 buf] by auto
  qed
  ultimately show ?thesis using FCol assms(2) by (auto simp: convert_def conv_char_def ucast_ucast_8_64 Let_def)
qed (use assms in simp_all)

lemma step_item:
  assumes ok: "fmt_ok plain buf m it" and b: "bytes_at m (format + of_nat i) (fmt_bytes it)"
  shows "\<exists>m'. kprintf_step putc puts buf format (of_nat i, fmt_args it @ rest, m, s) =
      Some (of_nat (i + length (fmt_bytes it) - 1), rest, m', emit it s) \<and> (\<forall>b. b \<notin> span buf 32 \<longrightarrow> m' b = m b)"
proof (cases "fmt_args it")
  case Nil
  show ?thesis
  proof (cases it)
    case (FLit c)
    with ok b show ?thesis by (auto simp: kprintf_step_def bytes_at_Cons)
  next
    case (FBad c d)
    with b have "m (format + of_nat i) = ch CHR ''%''" "m (format + (of_nat i + 1)) = c"
      by (simp_all add: bytes_at_Cons add.assoc)
    with FBad ok show ?thesis by (auto simp: kprintf_step_def Let_def add.commute)
  qed (use Nil in simp_all)
next
  case (Cons a as)
  then have a: "fmt_args it = [a]" by (cases it) simp_all
  from convert_item [OF ok a] obtain m' where
    m': "convert putc puts buf (conv_char it) a m s = Some (m', emit it s)" "\<forall>b. b \<notin> span buf 32 \<longrightarrow> m' b = m b" by blast
  from a have f: "fmt_bytes it = [ch CHR ''%'', conv_char it]" "conv_char it \<in> set conversions"
    by (cases it; simp add: conv_char_def conversions_def)+
  from b have "m (format + of_nat i) = ch CHR ''%''" "m (format + (of_nat i + 1)) = conv_char it"
    unfolding f(1) by (simp_all add: bytes_at_Cons add.assoc)
  with m' f a show ?thesis by (auto simp: kprintf_step_def Let_def add.commute)
qed

end

context text_sink
begin

lemma fmt_ok_frame: "fmt_ok plain buf m it \<Longrightarrow> (\<And>b. b \<notin> span buf 32 \<Longrightarrow> m' b = m b) \<Longrightarrow> fmt_ok plain buf m' it"
proof (cases it)
  case (FStr p t)
  assume ok: "fmt_ok plain buf m it" and m': "\<And>b. b \<notin> span buf 32 \<Longrightarrow> m' b = m b"
  with FStr have "cstr m p t" "span p (length t + 1) \<inter> span buf 32 = {}" by simp_all
  then have "cstr m' p t" by (blast intro: cstr_frame m')
  with ok FStr show ?thesis by simp
qed simp_all

lemma loop_items:
  assumes "\<forall>it \<in> set its. fmt_ok plain buf m it" "bytes_at m (format + of_nat i) (fmt_string its)"
    and "n = i + length (fmt_string its)" "n < 2 ^ 64"
    and "\<And>j. j < n \<Longrightarrow> format + of_nat j \<notin> span buf 32"
  shows "kprintf_loop (kprintf_step putc puts buf format) (of_nat n) (of_nat i, concat (map fmt_args its) @ rest, m, s) =
    Some (fold emit its s)"
  using assms
proof (induction its arbitrary: i m s)
  case Nil
  then show ?case by (subst kprintf_loop.simps) simp
next
  case (Cons it its)
  let ?k = "length (fmt_bytes it)"
  have k: "0 < ?k" by (cases it) simp_all
  have b: "bytes_at m (format + of_nat i) (fmt_bytes it)" "bytes_at m (format + of_nat (i + ?k)) (fmt_string its)"
    using Cons.prems(2) by (simp_all add: bytes_at_append add.assoc)
  from step_item [OF _ b(1), of buf "concat (map fmt_args its) @ rest" s] Cons.prems(1) obtain m' where
    st: "kprintf_step putc puts buf format (of_nat i, fmt_args it @ concat (map fmt_args its) @ rest, m, s) =
      Some (of_nat (i + ?k - 1), concat (map fmt_args its) @ rest, m', emit it s)"
    and m': "\<And>b. b \<notin> span buf 32 \<Longrightarrow> m' b = m b" by auto
  have "i < n" using Cons.prems(3) k by simp
  then have n: "(of_nat i :: usize) < of_nat n" using Cons.prems(4) by (simp add: less_of_nat)
  have e: "of_nat (i + ?k - 1) + 1 = (of_nat (i + ?k) :: usize)"
    using k by (metis Suc_eq_plus1 Suc_pred' add_gr_0 of_nat_Suc add.commute)
  have "bytes_at m' (format + of_nat (i + ?k)) (fmt_string its)"
  proof (rule bytes_at_cong [OF b(2)])
    fix j assume "j < length (fmt_string its)"
    then have "i + ?k + j < n" using Cons.prems(3) by simp
    then have "format + of_nat (i + ?k + j) \<notin> span buf 32" by (rule Cons.prems(5))
    with m' show "m' (format + of_nat (i + ?k) + of_nat j) = m (format + of_nat (i + ?k) + of_nat j)"
      by (simp add: add.assoc)
  qed
  moreover have "\<forall>it \<in> set its. fmt_ok plain buf m' it" using Cons.prems(1) fmt_ok_frame m' by auto
  ultimately have IH: "kprintf_loop (kprintf_step putc puts buf format) (of_nat n)
      (of_nat (i + ?k), concat (map fmt_args its) @ rest, m', emit it s) = Some (fold emit its (emit it s))"
    by (intro Cons.IH) (use Cons.prems in \<open>simp_all add: add.assoc\<close>)
  show ?case using n st IH unfolding e [symmetric] by (subst kprintf_loop.simps) simp
qed

lemma kprintf_items:
  assumes "cstr m format (fmt_string its)" "\<forall>it \<in> set its. fmt_ok plain buf m it"
    and "span format (length (fmt_string its)) \<inter> span buf 32 = {}"
  shows "kprintf_internal putc puts buf format (concat (map fmt_args its) @ rest) m s = Some (fold emit its s)"
proof -
  have b: "bytes_at m (format + of_nat 0) (fmt_string its)" "length (fmt_string its) < 2 ^ 64"
    using assms(1) by (simp_all add: cstr_def bytes_at_append)
  have "format + of_nat j \<notin> span buf 32" if "j < length (fmt_string its)" for j
    using in_span [OF that, of format] assms(3) by blast
  from loop_items [OF assms(2) b(1) _ b(2) this, of rest s] strlen_spec [OF assms(1)]
  show ?thesis by (simp add: kprintf_internal_def)
qed

end

section \<open>The two outputs\<close>

lemma debugcon_puts_loop_spec:
  "cstr m (p + of_nat i) t \<Longrightarrow> debugcon_puts_loop m p (of_nat i) l = Some (fold debugcon_putc t l)"
proof (induction t arbitrary: i l)
  case Nil
  then show ?case by (subst debugcon_puts_loop.simps) (simp add: cstr_Nil)
next
  case (Cons x t)
  have "m (p + of_nat i) = x" "x \<noteq> 0" "cstr m (p + of_nat (Suc i)) t"
    using cstr_Cons [OF Cons.prems] by (simp_all add: ac_simps)
  with Cons.IH [OF this(3)] show ?case by (subst debugcon_puts_loop.simps) (simp add: add.commute)
qed

lemma debugcon_puts_spec: "cstr m p t \<Longrightarrow> debugcon_puts m p l = Some (fold debugcon_putc t l)"
  using debugcon_puts_loop_spec [of m p 0] by (simp add: debugcon_puts_def)

definition debugcon_color :: "u8 \<Rightarrow> port_log \<Rightarrow> port_log" where
  "debugcon_color c = fold debugcon_putc (if c = 0 then [TTY_SET_COLOR] else [TTY_SET_COLOR, c])"

interpretation dbg: text_sink debugcon_putc debugcon_puts debugcon_color "\<lambda>_. True"
proof
  show "debugcon_puts m p s = Some (fold debugcon_putc t s)" if "cstr m p t" for m p t s
    using debugcon_puts_spec [OF that] .
  show "debugcon_puts m p s = Some (debugcon_color c s)"
    if "m p = TTY_SET_COLOR" "m (p + 1) = c" "m (p + 2) = 0" for m p c s
  proof -
    have "cstr m p (if c = 0 then [TTY_SET_COLOR] else [TTY_SET_COLOR, c])"
      using that by (simp add: cstr_def bytes_at_Cons TTY_SET_COLOR_def add.assoc) (simp add: bytes_at_def)
    then show ?thesis unfolding debugcon_color_def by (rule debugcon_puts_spec)
  qed
qed simp_all

lemma vga_puts_chars:
  assumes "cstr m p t" "list_all (\<lambda>c. c \<noteq> TTY_SET_COLOR \<and> c \<noteq> TTY_SET_POSITION) t"
  shows "vga_puts m p s = Some (fold vga_putc t s)"
proof -
  have s: "tty_string (map TChar t) = t" by (induction t) simp_all
  have f: "fold tty_do (map TChar t) s = fold vga_putc t s" by (induction t arbitrary: s) simp_all
  have "\<forall>it \<in> set (map TChar t). tty_ok it" using assms by (auto simp: cstr_def list_all_iff)
  with vga_append_spec [of m p "map TChar t" s] assms(1) show ?thesis unfolding s f by (simp add: vga_puts_def)
qed

interpretation tty: text_sink vga_putc vga_puts "\<lambda>c s. s\<lparr>vga_color := c\<rparr>" "\<lambda>c. c \<noteq> TTY_SET_COLOR \<and> c \<noteq> TTY_SET_POSITION"
proof
  show "vga_puts m p s = Some (fold vga_putc t s)"
    if "cstr m p t" "list_all (\<lambda>c. c \<noteq> TTY_SET_COLOR \<and> c \<noteq> TTY_SET_POSITION) t" for m p t s
    using that by (rule vga_puts_chars)
  show "vga_puts m p s = Some (s\<lparr>vga_color := c\<rparr>)"
    if "m p = TTY_SET_COLOR" "m (p + 1) = c" "m (p + 2) = 0" for m p c s
  proof (cases "c = 0")
    case False
    then have "cstr m p (tty_string [TColor c])"
      using that by (simp add: cstr_def bytes_at_Cons TTY_SET_COLOR_def add.assoc) (simp add: bytes_at_def)
    from vga_append_spec [OF this] False show ?thesis by (simp add: vga_puts_def)
  next
    case True
    have "cstr m p [TTY_SET_COLOR]"
      using that True by (simp add: cstr_def bytes_at_Cons TTY_SET_COLOR_def) (simp add: bytes_at_def)
    then have n: "strlen m p = Some 1" using strlen_spec by fastforce
    have "vga_append_loop m p 1 0 s = vga_append_loop m p (of_nat 1) (of_nat 2) (s\<lparr>vga_color := c\<rparr>)"
    proof -
      have "(0 :: nat) < 1" "(1 :: nat) < 2 ^ 64" by simp_all
      from append_loop_at(2) [OF this, of m p TTY_SET_COLOR s] that show ?thesis by simp
    qed
    also have "\<dots> = Some (True, s\<lparr>vga_color := c\<rparr>)" by (subst vga_append_loop.simps) simp
    finally show ?thesis using n by (simp add: vga_puts_def vga_append_def)
  qed
  show "c \<noteq> TTY_SET_COLOR \<and> c \<noteq> TTY_SET_POSITION" if "32 \<le> c" for c
    using that by (auto simp: TTY_SET_COLOR_def TTY_SET_POSITION_def word_le_nat_alt)
qed

text \<open>The bytes the items print on the debug console.\<close>

fun render :: "fmt_item \<Rightarrow> u8 list" where
  "render (FLit c) = [c]"
| "render (FNum n) = dec_str (unat n)"
| "render (FHex n) = map ch ''0x'' @ hex_str (unat n)"
| "render (FStr p t) = t"
| "render (FChr c) = [c]"
| "render (FCol c) = (if c = 0 then [TTY_SET_COLOR] else [TTY_SET_COLOR, c])"
| "render (FBad c d) = [ch CHR ''%'', c]"

lemma debugcon_fold: "fold debugcon_putc t l = l @ map (Pair DEBUGCON_PORT) t"
  by (induction t arbitrary: l) (simp_all add: debugcon_putc_def outb_def)

lemma dbg_emit: "dbg.emit it l = l @ map (Pair DEBUGCON_PORT) (render it)"
  by (cases it) (simp_all add: debugcon_fold debugcon_color_def debugcon_putc_def outb_def)

lemma dbg_emit_fold: "fold dbg.emit its l = l @ map (Pair DEBUGCON_PORT) (concat (map render its))"
  by (induction its arbitrary: l) (simp_all add: dbg_emit)

text \<open>What the items print on the terminal.\<close>

fun tty_items :: "fmt_item \<Rightarrow> tty_item list" where
  "tty_items (FCol c) = [TColor c]"
| "tty_items it = map TChar (render it)"

lemma tty_fold_chars: "fold tty_do (map TChar t) s = fold vga_putc t s"
  by (induction t arbitrary: s) simp_all

lemma tty_emit: "tty.emit it s = fold tty_do (tty_items it) s"
  by (cases it) (simp_all add: tty_fold_chars)

lemma tty_emit_fold: "fold tty.emit its s = fold tty_do (concat (map tty_items its)) s"
  by (induction its arbitrary: s) (simp_all add: tty_emit)

lemma tty_items_fit: "\<forall>t \<in> set (concat (map tty_items its)). tty_fits t"
proof -
  have "\<forall>t \<in> set (tty_items it). tty_fits t" for it by (cases it) auto
  then show ?thesis by auto
qed

section \<open>Properties\<close>

text \<open>
  C36: the debug console prints a format as its items say: characters as they are, numbers in
  decimal, addresses with 16 hexadecimal digits, strings, characters and colour commands from
  the arguments, in order. A percent sign before a character that names no conversion is
  printed with that character, and the character after them is swallowed.
\<close>
theorem kvprinte_renders:
  assumes "cstr m format (fmt_string its)" "\<forall>it \<in> set its. fmt_ok (\<lambda>_. True) buf m it"
    and "span format (length (fmt_string its)) \<inter> span buf 32 = {}"
  shows "kvprinte buf format (concat (map fmt_args its) @ rest) m l =
    Some (l @ map (Pair DEBUGCON_PORT) (concat (map render its)))"
  using dbg.kprintf_items [OF assms] by (simp add: kvprinte_def dbg_emit_fold)

text \<open>
  the text terminal shows a format as its items say, through its own handling of
  characters and colours: the call returns, the cursor stays on the screen, and the screen,
  cursor and colour are those of the abstract terminal after the items.
\<close>
theorem kvprintf_renders:
  assumes "on_screen s" "cstr m format (fmt_string its)"
    and "\<forall>it \<in> set its. fmt_ok (\<lambda>c. c \<noteq> TTY_SET_COLOR \<and> c \<noteq> TTY_SET_POSITION) buf m it"
    and "span format (length (fmt_string its)) \<inter> span buf 32 = {}"
  shows "\<exists>s'. kvprintf buf format (concat (map fmt_args its) @ rest) m s = Some s' \<and> on_screen s' \<and>
    (vga_color s', a_vga s') = fold a_do (concat (map tty_items its)) (vga_color s, a_vga s)"
  using tty.kprintf_items [OF assms(2-4)] tty_fold_spec [OF assms(1) tty_items_fit]
  by (simp add: kvprintf_def tty_emit_fold)

definition ex_items :: "fmt_item list" where
  "ex_items = [FCol 4, FLit (ch CHR ''n''), FNum 42, FBad (ch CHR ''%'') (ch CHR ''d'')]"

definition ex_format :: bytes where
  "ex_format = write_at 8192 (map ch ''%Cn%u%%d'' @ [0]) (\<lambda>_. 0)"

lemma ex_format_ok:
  "fmt_string ex_items = map ch ''%Cn%u%%d''" "cstr ex_format 8192 (fmt_string ex_items)"
  "\<forall>it \<in> set ex_items. fmt_ok plain 4096 ex_format it"
  "span 8192 (length (fmt_string ex_items)) \<inter> span 4096 32 = {}"
proof -
  show s: "fmt_string ex_items = map ch ''%Cn%u%%d''" by (simp add: ex_items_def)
  show "cstr ex_format 8192 (fmt_string ex_items)"
    unfolding s cstr_def ex_format_def by (intro conjI write_at_read) simp_all
  show "\<forall>it \<in> set ex_items. fmt_ok plain 4096 ex_format it"
    by (simp add: ex_items_def conversions_def)
  have ne: "8192 + of_nat i \<noteq> (4096 + of_nat j :: ptr)" if "i < 8" "j < 32" for i j
  proof
    assume eq: "8192 + of_nat i = (4096 + of_nat j :: ptr)"
    have "unat (8192 + of_nat i :: ptr) = 8192 + i" "unat (4096 + of_nat j :: ptr) = 4096 + j"
      using that by (simp_all add: unat_add_noov unat_of_nat_small)
    then show False using that unfolding eq by linarith
  qed
  have len: "length (fmt_string ex_items) = 8" unfolding s by simp
  show "span 8192 (length (fmt_string ex_items)) \<inter> span 4096 32 = {}"
    unfolding len span_def using ne by blast
qed

lemma dec_str_42: "dec_str 42 = map ch ''42''"
proof -
  have "dec 42 = [4, 2]" by (subst dec.simps, simp)+
  then show ?thesis by (simp add: dec_str_def)
qed

lemma ex_args: "concat (map fmt_args ex_items) = [4, 42]"
  by (simp add: ex_items_def)

theorem kvprinte_renders_witness:
  "kvprinte 4096 8192 [4, 42] ex_format [] = Some (map (Pair 0xe9) (1 # 4 # map ch ''n42%%''))"
proof -
  have "concat (map render ex_items) = 1 # 4 # map ch ''n42%%''"
    by (simp add: ex_items_def TTY_SET_COLOR_def dec_str_42)
  with kvprinte_renders [OF ex_format_ok(2-4), of "[]" "[]"] show ?thesis
    by (simp add: ex_args DEBUGCON_PORT_def)
qed

theorem kvprintf_renders_witness:
  "\<exists>s'. kvprintf 4096 8192 [4, 42] ex_format ex_vga = Some s' \<and> on_screen s' \<and>
     (vga_color s', a_vga s') = fold a_do (TColor 4 # map (\<lambda>c. TChar (ch c)) ''n42%%'') (15, a_vga ex_vga)"
proof -
  have s: "on_screen ex_vga" by (simp add: on_screen_def ex_vga_def)
  have c: "vga_color ex_vga = 15" by (simp add: ex_vga_def)
  have t: "concat (map tty_items ex_items) = TColor 4 # map (\<lambda>c. TChar (ch c)) ''n42%%''"
    by (simp add: ex_items_def dec_str_42)
  from kvprintf_renders [OF s ex_format_ok(2-4), of "[]"] show ?thesis unfolding ex_args c t by simp
qed

section \<open>Panics\<close>

definition VGAC_RED :: u8 where "VGAC_RED = 4"
definition VGAC_WHITE :: u8 where "VGAC_WHITE = 15"

text \<open>
  What \<^verbatim>\<open>panic\<close> and \<^verbatim>\<open>assert_fail\<close> print before they halt for good; \<open>lit\<close> gives the addresses of
  string literals.
\<close>

definition panic_output :: "(string \<Rightarrow> ptr) \<Rightarrow> ptr \<Rightarrow> ptr \<Rightarrow> u64 list \<Rightarrow> bytes \<Rightarrow> port_log \<Rightarrow> port_log option" where
  "panic_output lit buf format args m l = do {
     l \<leftarrow> kprinte buf (lit ''%CPANIC:%C '') [ucast VGAC_RED, ucast VGAC_WHITE] m l;
     kvprinte buf format args m l
   }"

definition assert_fail_output :: "(string \<Rightarrow> ptr) \<Rightarrow> ptr \<Rightarrow> ptr \<Rightarrow> ptr \<Rightarrow> ptr \<Rightarrow> ptr \<Rightarrow> u32 \<Rightarrow> bytes \<Rightarrow> port_log \<Rightarrow> port_log option" where
  "assert_fail_output lit buf expr message file func line m l = do {
     l \<leftarrow> kprinte buf (lit (''%s:%u: in function '' @ [CHR 0x27] @ ''%s'' @ [CHR 0x27] @ '':'' @ [CHR 0x0A])) [file, ucast line, func] m l;
     l \<leftarrow> kprinte buf (lit (''Assertion '' @ [CHR 0x27] @ ''%s'' @ [CHR 0x27] @ '' failed'' @ [CHR 0x0A])) [expr] m l;
     if message \<noteq> NULL then kprinte buf (lit (''%s'' @ [CHR 0x0A])) [message] m l else Some l
   }"

definition asmprint :: "(string \<Rightarrow> ptr) \<Rightarrow> ptr \<Rightarrow> bytes \<Rightarrow> u32 \<times> port_log \<Rightarrow> (u32 \<times> port_log) option" where
  "asmprint lit buf m = (\<lambda>(n, l). do {
     l \<leftarrow> kprinte buf (lit (''debug string %u'' @ [CHR 0x0A])) [ucast n] m l;
     Some (n + 1, l)
   })"

text \<open>A panic prints its mark in colour and then its message.\<close>

lemma panic_renders:
  assumes "cstr m (lit ''%CPANIC:%C '') (map ch ''%CPANIC:%C '')" "span (lit ''%CPANIC:%C '') 11 \<inter> span buf 32 = {}"
    and "cstr m format (fmt_string its)" "\<forall>it \<in> set its. fmt_ok (\<lambda>_. True) buf m it"
    and "span format (length (fmt_string its)) \<inter> span buf 32 = {}"
  shows "panic_output lit buf format (concat (map fmt_args its)) m l = Some (l @ map (Pair DEBUGCON_PORT)
    (TTY_SET_COLOR # VGAC_RED # map ch ''PANIC:'' @ TTY_SET_COLOR # VGAC_WHITE # ch CHR '' '' # concat (map render its)))"
proof -
  let ?p = "FCol VGAC_RED # map (FLit \<circ> ch) ''PANIC:'' @ [FCol VGAC_WHITE, FLit (ch CHR '' '')]"
  have p: "fmt_string ?p = map ch ''%CPANIC:%C ''" "concat (map fmt_args ?p) = [ucast VGAC_RED, ucast VGAC_WHITE]"
    by simp_all
  have ok: "\<forall>it \<in> set ?p. fmt_ok (\<lambda>_. True) buf m it" by simp
  have "span (lit ''%CPANIC:%C '') (length (fmt_string ?p)) \<inter> span buf 32 = {}" unfolding p using assms(2) by (simp add: numeral_eq_Suc)
  note a = dbg.kprintf_items [OF assms(1) [folded p(1)] ok this, of "[]", unfolded p(2)]
  note b = dbg.kprintf_items [OF assms(3-5), of "[]"]
  show ?thesis using a b by (simp add: panic_output_def kprinte_def kvprinte_def dbg_emit_fold TTY_SET_COLOR_def debugcon_color_def debugcon_putc_def outb_def VGAC_RED_def VGAC_WHITE_def)
qed

end
