(* ===== verification/Kbd.thy ===== *)
theory Kbd
  imports Str
begin

text \<open>
  The keyboard driver: \<^verbatim>\<open>src/driver/ps2.cpp\<close>. The interrupt handler puts scancodes into a
  ring of 32 bytes, and \<open>kbd_read\<close> takes them out, as characters or as changes of the state of
  the modifier keys. Interrupts do not come inside \<open>kbd_read\<close>.
\<close>

section \<open>Definitions\<close>

abbreviation SCAN_BUF_SIZE :: nat where "SCAN_BUF_SIZE \<equiv> 32"

definition PS2_DATA :: u16 where "PS2_DATA = 0x60"

record kbd_status =
  shift :: u8
  capslock :: bool
  numlock :: bool

text \<open>\<open>read_fresh\<close> is the local static \<^verbatim>\<open>f\<close> of \<open>kbd_read\<close>.\<close>

record kbd =
  kbd_status :: kbd_status
  scancode_buf :: "u8 list"
  scan_i :: u8
  read_i :: u8
  read_fresh :: bool

definition kbd0 :: kbd where
  "kbd0 = \<lparr>kbd_status = \<lparr>shift = 0, capslock = False, numlock = False\<rparr>, scancode_buf = replicate SCAN_BUF_SIZE 0,
     scan_i = 0, read_i = 0, read_fresh = True\<rparr>"

definition ring_wrap :: "u8 \<Rightarrow> u8" where
  "ring_wrap i = word_of_int (wrap (uint i) 0 (int SCAN_BUF_SIZE - 1))"

text \<open>\<open>code\<close> is what \<^verbatim>\<open>inb (PS2_DATA)\<close> returns.\<close>

definition ps2_int_handler :: "u8 \<Rightarrow> kbd \<Rightarrow> kbd" where
  "ps2_int_handler code s =
     (let s = s\<lparr>scancode_buf := (scancode_buf s)[unat (scan_i s) := code]\<rparr>;
          s = (if scan_i s = read_i s then s\<lparr>read_i := read_i s + 1\<rparr> else s);
          s = s\<lparr>scan_i := scan_i s + 1\<rparr>;
          s = s\<lparr>scan_i := ring_wrap (scan_i s)\<rparr>
      in s\<lparr>read_i := ring_wrap (read_i s)\<rparr>)"

definition clamp_shift :: "u8 \<Rightarrow> u8" where
  "clamp_shift x = word_of_int (clamp (uint x) 0 2)"

definition update_kbd_status :: "u8 \<Rightarrow> kbd_status \<Rightarrow> u8 \<times> kbd_status" where
  "update_kbd_status c st =
     (if c = 0x3a then (1, st\<lparr>capslock := \<not> capslock st\<rparr>)
      else if c = 0x2a \<or> c = 0x36 then (1, st\<lparr>shift := clamp_shift (shift st + 1)\<rparr>)
      else if c = 0xaa \<or> c = 0xb6 then (1, st\<lparr>shift := clamp_shift (shift st - 1)\<rparr>)
      else if c = 0x45 then (1, st\<lparr>numlock := \<not> numlock st\<rparr>)
      else (0, st))"

text \<open>
  The cases of \<open>scan_toc\<close>: a scancode with the character when shift is held, or when numlock is
  on for the keypad, and the one otherwise.
\<close>

definition keys_top :: "(u8 \<times> char \<times> char) list" where
  "keys_top =
    [(0x01, CHR 0x1B, CHR 0x1B),
     (0x02, CHR ''!'', CHR ''1''), (0x03, CHR ''@'', CHR ''2''), (0x04, CHR ''#'', CHR ''3''),
     (0x05, CHR ''$'', CHR ''4''), (0x06, CHR ''%'', CHR ''5''), (0x07, CHR ''^'', CHR ''6''),
     (0x08, CHR ''&'', CHR ''7''), (0x09, CHR ''*'', CHR ''8''), (0x0a, CHR ''('', CHR ''9''),
     (0x0b, CHR '')'', CHR ''0''), (0x0c, CHR ''_'', CHR ''-''), (0x0d, CHR ''+'', CHR ''=''),
     (0x0e, CHR 0x08, CHR 0x08), (0x0f, CHR 0x09, CHR 0x09),
     (0x10, CHR ''Q'', CHR ''q''), (0x11, CHR ''W'', CHR ''w''), (0x12, CHR ''E'', CHR ''e''),
     (0x13, CHR ''R'', CHR ''r''), (0x14, CHR ''T'', CHR ''t''), (0x15, CHR ''Y'', CHR ''y''),
     (0x16, CHR ''U'', CHR ''u''), (0x17, CHR ''I'', CHR ''i''), (0x18, CHR ''O'', CHR ''o''),
     (0x19, CHR ''P'', CHR ''p''), (0x1a, CHR ''{'', CHR ''[''), (0x1b, CHR ''}'', CHR '']''),
     (0x1c, CHR 0x0A, CHR 0x0A)]"

definition keys_mid :: "(u8 \<times> char \<times> char) list" where
  "keys_mid =
    [(0x1e, CHR ''A'', CHR ''a''), (0x1f, CHR ''S'', CHR ''s''), (0x20, CHR ''D'', CHR ''d''),
     (0x21, CHR ''F'', CHR ''f''), (0x22, CHR ''G'', CHR ''g''), (0x23, CHR ''H'', CHR ''h''),
     (0x24, CHR ''J'', CHR ''j''), (0x25, CHR ''K'', CHR ''k''), (0x26, CHR ''L'', CHR ''l''),
     (0x27, CHR '':'', CHR '';''), (0x28, CHR 0x22, CHR 0x27), (0x29, CHR ''~'', CHR 0x60),
     (0x2b, CHR ''|'', CHR 0x5C),
     (0x2c, CHR ''Z'', CHR ''z''), (0x2d, CHR ''X'', CHR ''x''), (0x2e, CHR ''C'', CHR ''c''),
     (0x2f, CHR ''V'', CHR ''v''), (0x30, CHR ''B'', CHR ''b''), (0x31, CHR ''N'', CHR ''n''),
     (0x32, CHR ''M'', CHR ''m''), (0x33, CHR ''<'', CHR '',''), (0x34, CHR ''>'', CHR ''.''),
     (0x35, CHR ''?'', CHR ''/''), (0x37, CHR ''*'', CHR ''*''), (0x39, CHR '' '', CHR '' '')]"

definition ARROW_LEFT :: char where "ARROW_LEFT = CHR 0x11"
definition ARROW_RIGHT :: char where "ARROW_RIGHT = CHR 0x12"
definition ARROW_UP :: char where "ARROW_UP = CHR 0x13"
definition ARROW_DOWN :: char where "ARROW_DOWN = CHR 0x14"
definition HOME :: char where "HOME = CHR 0x15"
definition END :: char where "END = CHR 0x16"
definition PAGE_UP :: char where "PAGE_UP = CHR 0x17"
definition PAGE_DOWN :: char where "PAGE_DOWN = CHR 0x18"
definition DELETE :: char where "DELETE = CHR 0x7F"

definition keys_pad :: "(u8 \<times> char \<times> char) list" where
  "keys_pad =
    [(0x47, CHR ''7'', HOME), (0x48, CHR ''8'', ARROW_UP), (0x49, CHR ''9'', PAGE_UP),
     (0x4a, CHR ''-'', CHR ''-''),
     (0x4b, CHR ''4'', ARROW_LEFT), (0x4c, CHR ''5'', CHR ''5''), (0x4d, CHR ''6'', ARROW_RIGHT),
     (0x4e, CHR ''+'', CHR ''+''),
     (0x4f, CHR ''1'', END), (0x50, CHR ''2'', ARROW_DOWN), (0x51, CHR ''3'', PAGE_DOWN),
     (0x52, CHR ''0'', CHR ''0''), (0x53, CHR ''.'', DELETE)]"

definition scan_case :: "kbd_status \<Rightarrow> u8 \<Rightarrow> u8" where
  "scan_case st scan =
     (case map_of (keys_top @ keys_mid) scan of
        Some (shifted, plain) \<Rightarrow> ch (if shift st \<noteq> 0 then shifted else plain)
      | None \<Rightarrow>
          (case map_of keys_pad scan of
             Some (num, nav) \<Rightarrow> ch (if numlock st then num else nav)
           | None \<Rightarrow> 0))"

definition caps_swap :: "u8 \<Rightarrow> u8" where
  "caps_swap out =
     (if 65 \<le> sint out \<and> sint out \<le> 90 then out + 32
      else if 97 \<le> sint out \<and> sint out \<le> 122 then out - 32
      else out)"

definition scan_toc :: "kbd_status \<Rightarrow> u8 \<Rightarrow> u8" where
  "scan_toc st scan = (let out = scan_case st scan in if capslock st then caps_swap out else out)"

text \<open>The result: how many characters were read, the memory with the caller's buffer, the state.\<close>

partial_function (option) kbd_read_loop :: "ptr \<Rightarrow> u8 \<Rightarrow> u8 \<Rightarrow> bytes \<Rightarrow> kbd \<Rightarrow> (u8 \<times> bytes \<times> kbd) option" where
  "kbd_read_loop buf n c m s =
     (if c = n then Some (c, m, s)
      else
        let code = scancode_buf s ! unat (read_i s);
            temp = scan_toc (kbd_status s) code;
            s' = (if temp = 0 \<and> read_fresh s then s\<lparr>kbd_status := snd (update_kbd_status code (kbd_status s))\<rparr> else s);
            m' = (if temp \<noteq> 0 \<and> read_fresh s then m(buf + ucast c := temp) else m);
            c' = (if temp \<noteq> 0 \<and> read_fresh s then c + 1 else c)
        in if wrap (uint (read_i s') + 1) 0 (int SCAN_BUF_SIZE - 1) = uint (scan_i s') then
             Some (c', m', s'\<lparr>read_fresh := False\<rparr>)
           else
             let s' = s'\<lparr>read_i := read_i s' + 1\<rparr>;
                 s' = (if read_i s' = 32 then s'\<lparr>read_i := 0\<rparr> else s')
             in kbd_read_loop buf n c' m' (s'\<lparr>read_fresh := True\<rparr>))"

definition kbd_read :: "ptr \<Rightarrow> u8 \<Rightarrow> bytes \<Rightarrow> kbd \<Rightarrow> (u8 \<times> bytes \<times> kbd) option" where
  "kbd_read buf n m s = kbd_read_loop buf n 0 m s"

section \<open>The queue in the ring\<close>

text \<open>
  The ring holds the scancodes from \<open>read_i\<close> on up to \<open>scan_i\<close>, at least one; after a read that
  emptied it the one at \<open>read_i\<close> has been used up, which \<open>read_fresh\<close> tells.
\<close>

definition kbd_inv :: "kbd \<Rightarrow> bool" where
  "kbd_inv s \<longleftrightarrow> length (scancode_buf s) = SCAN_BUF_SIZE \<and> scan_i s < 32 \<and> read_i s < 32"

definition ring_len :: "nat \<Rightarrow> nat \<Rightarrow> nat" where
  "ring_len r w = (w + 31 - r) mod 32 + 1"

definition ring_codes :: "u8 list \<Rightarrow> nat \<Rightarrow> nat \<Rightarrow> u8 list" where
  "ring_codes xs r w = map (\<lambda>i. xs ! ((r + i) mod 32)) [0..<ring_len r w]"

definition codes :: "kbd \<Rightarrow> u8 list" where
  "codes s = ring_codes (scancode_buf s) (unat (read_i s)) (unat (scan_i s))"

definition kbd_queue :: "kbd \<Rightarrow> u8 list" where
  "kbd_queue s = (if read_fresh s then codes s else tl (codes s))"

lemma ring_len_cases:
  assumes "r < 32" "w < 32"
  shows "ring_len r w = (if r < w then w - r else w + 32 - r)"
proof (cases "r < w")
  case True
  then have "w + 31 - r = 32 + (w - r - 1)" by simp
  then have "(w + 31 - r) mod 32 = w - r - 1" using assms True by (simp only: mod_add_self1) simp
  then show ?thesis using True by (simp add: ring_len_def)
qed (use assms in \<open>simp add: ring_len_def\<close>)

lemma length_ring_codes [simp]: "length (ring_codes xs r w) = ring_len r w"
  by (simp add: ring_codes_def)

lemma mod32_cases: "x < 64 \<Longrightarrow> x mod 32 = (if x < 32 then x else x - (32 :: nat))"
  by (simp add: mod_if)

text \<open>Taking a scancode: when it is the last one, the write position follows it.\<close>

lemma ring_last:
  assumes "r < 32" "w < 32"
  shows "(r + 1) mod 32 = w \<longleftrightarrow> ring_len r w = 1"
  unfolding ring_len_cases [OF assms] using assms by (auto simp: mod32_cases)

lemma ring_take:
  assumes "r < 32" "w < 32" "(r + 1) mod 32 \<noteq> w"
  shows "ring_codes xs ((r + 1) mod 32) w = tl (ring_codes xs r w)"
proof (rule nth_equalityI)
  have l: "ring_len ((r + 1) mod 32) w = ring_len r w - 1"
    using assms by (subst (1 2) ring_len_cases) (auto simp: mod32_cases)
  then show "length (ring_codes xs ((r + 1) mod 32) w) = length (tl (ring_codes xs r w))" by simp
  fix i assume "i < length (ring_codes xs ((r + 1) mod 32) w)"
  then show "ring_codes xs ((r + 1) mod 32) w ! i = tl (ring_codes xs r w) ! i"
    using l by (simp add: ring_codes_def nth_tl mod_simps less_diff_conv)
qed

lemma ring_put:
  assumes "r < 32" "w < 32" "length xs = 32"
  shows "ring_codes (xs[w := x]) (if w = r then (r + 1) mod 32 else r) ((w + 1) mod 32) =
    (if ring_len r w = 32 then tl (ring_codes xs r w) else ring_codes xs r w) @ [x]"
proof (rule nth_equalityI)
  have f: "ring_len r w = 32 \<longleftrightarrow> w = r" using assms by (auto simp: ring_len_cases split: if_splits)
  let ?r = "if w = r then (r + 1) mod 32 else r"
  have l: "ring_len ?r ((w + 1) mod 32) = (if w = r then 32 else ring_len r w + 1)"
    using assms by (subst (1 2) ring_len_cases) (auto simp: mod32_cases)
  then show "length (ring_codes (xs[w := x]) ?r ((w + 1) mod 32)) =
      length ((if ring_len r w = 32 then tl (ring_codes xs r w) else ring_codes xs r w) @ [x])"
    using f by (cases "w = r") auto
  fix i assume "i < length (ring_codes (xs[w := x]) ?r ((w + 1) mod 32))"
  with l have i: "i < (if w = r then 32 else ring_len r w + 1)" by simp
  show "ring_codes (xs[w := x]) ?r ((w + 1) mod 32) ! i =
      ((if ring_len r w = 32 then tl (ring_codes xs r w) else ring_codes xs r w) @ [x]) ! i"
  proof (cases "w = r")
    case True
    with i have "i < 32" by simp
    then have "((r + 1) mod 32 + i) mod 32 = (if i = 31 then r else (r + 1 + i) mod 32)" "i \<noteq> 31 \<Longrightarrow> (r + 1 + i) mod 32 \<noteq> r"
      using assms by (auto simp: mod_simps mod32_cases)
    then show ?thesis using True i l f assms by (auto simp: ring_codes_def nth_append nth_tl)
  next
    case False
    have n: "ring_len r w < 32" using False assms ring_len_cases [OF assms(1,2)] by (auto split: if_splits)
    have "i = ring_len r w \<Longrightarrow> (r + i) mod 32 = w" "i < ring_len r w \<Longrightarrow> (r + i) mod 32 \<noteq> w"
      using assms n False by (auto simp: ring_len_cases mod32_cases split: if_splits)
    then show ?thesis using False i l f n assms by (auto simp: ring_codes_def nth_append)
  qed
qed

section \<open>The handler\<close>

lemma wrap_u8: "0 \<le> x \<Longrightarrow> x \<le> 32 \<Longrightarrow> wrap x 0 31 = x mod 32"
proof -
  assume x: "0 \<le> x" "x \<le> 32"
  show ?thesis
  proof (cases "x = 32")
    case True
    have "(32 :: int) smod 32 = 0" by (simp add: signed_modulo_int_def signed_divide_int_def)
    then show ?thesis using True by (simp add: wrap_def)
  next
    case False
    then show ?thesis using x by (simp add: wrap_def)
  qed
qed

lemma wrap_succ: "r < 32 \<Longrightarrow> wrap (int r + 1) 0 31 = int ((r + 1) mod 32)"
  by (subst wrap_u8) (simp_all add: zmod_int add.commute)

lemma unat_u8_incr: "(i :: u8) < 32 \<Longrightarrow> unat (i + 1) = unat i + 1"
  by (simp add: word_less_nat_alt unat_word_ariths)

lemma uint_mod32: "uint (i :: u8) mod 32 = int (unat i mod 32)"
  by (simp add: zmod_int)

lemma ring_wrap_le: "unat i \<le> 32 \<Longrightarrow> unat (ring_wrap i) = unat i mod 32"
proof -
  assume "unat i \<le> 32"
  then have "int (unat i) \<le> 32" by linarith
  then have "wrap (uint i) 0 31 = int (unat i mod 32)" by (subst wrap_u8) (simp_all add: uint_mod32)
  then have "ring_wrap i = of_nat (unat i mod 32)" unfolding ring_wrap_def by (simp del: of_nat_mod)
  moreover have "unat i mod 32 < 2 ^ LENGTH(8)" by (rule order_less_trans [of _ 32]) simp_all
  ultimately show ?thesis by (simp add: take_bit_nat_eq_self unsigned_of_nat)
qed

lemma codes_length: "kbd_inv s \<Longrightarrow> 0 < length (codes s) \<and> length (codes s) \<le> 32"
  unfolding codes_def length_ring_codes ring_len_def by simp

definition kbd_put :: "u8 list \<Rightarrow> u8 \<Rightarrow> u8 list" where
  "kbd_put q code = q @ [code]"

lemma handler_spec:
  assumes "kbd_inv s"
  shows "kbd_inv (ps2_int_handler code s)"
    and "codes (ps2_int_handler code s) = (if length (codes s) = 32 then tl (codes s) else codes s) @ [code]"
    and "kbd_status (ps2_int_handler code s) = kbd_status s"
    and "read_fresh (ps2_int_handler code s) = read_fresh s"
proof -
  let ?w = "unat (scan_i s)" and ?r = "unat (read_i s)" and ?s = "ps2_int_handler code s"
  have b: "?w < 32" "?r < 32" "length (scancode_buf s) = 32"
    using assms by (simp_all add: kbd_inv_def word_less_nat_alt)
  have ww: "unat (ring_wrap (scan_i s + 1)) = (?w + 1) mod 32"
    using assms by (subst ring_wrap_le) (simp_all add: kbd_inv_def unat_u8_incr word_less_nat_alt)
  have rr: "unat (ring_wrap (read_i s + 1)) = (?r + 1) mod 32" "unat (ring_wrap (read_i s)) = ?r"
    using assms by (simp_all add: ring_wrap_le kbd_inv_def unat_u8_incr word_less_nat_alt)
  have w: "unat (scan_i ?s) = (?w + 1) mod 32"
    using ww by (cases "scan_i s = read_i s") (auto simp: ps2_int_handler_def Let_def)
  have r: "unat (read_i ?s) = (if ?w = ?r then (?r + 1) mod 32 else ?r)"
    using rr by (cases "scan_i s = read_i s") (auto simp: ps2_int_handler_def Let_def word_unat_eq_iff)
  have x: "scancode_buf ?s = (scancode_buf s)[?w := code]" by (simp add: ps2_int_handler_def Let_def)
  show "kbd_inv ?s" using b w r x by (simp add: kbd_inv_def word_less_nat_alt)
  show "codes ?s = (if length (codes s) = 32 then tl (codes s) else codes s) @ [code]"
    unfolding codes_def w r x length_ring_codes by (rule ring_put [OF b(2,1,3)])
  show "kbd_status ?s = kbd_status s" "read_fresh ?s = read_fresh s" by (simp_all add: ps2_int_handler_def Let_def)
qed

lemma handler_queue:
  assumes "kbd_inv s"
  shows "kbd_queue (ps2_int_handler code s) = (if length (codes s) = 32 then tl (kbd_queue s) else kbd_queue s) @ [code]"
proof -
  have ne: "codes s \<noteq> []" "length (codes s) = 32 \<Longrightarrow> tl (codes s) \<noteq> []"
    using codes_length [OF assms] by (auto simp flip: length_greater_0_conv)
  then show ?thesis using handler_spec [OF assms, of code] by (simp add: kbd_queue_def)
qed

section \<open>Reading\<close>

text \<open>What reading at most \<open>n\<close> characters from a queue of scancodes gives.\<close>

fun consume :: "nat \<Rightarrow> kbd_status \<Rightarrow> u8 list \<Rightarrow> u8 list \<times> kbd_status \<times> u8 list" where
  "consume 0 st q = ([], st, q)"
| "consume (Suc n) st [] = ([], st, [])"
| "consume (Suc n) st (x # q) =
     (if scan_toc st x = 0 then consume (Suc n) (snd (update_kbd_status x st)) q
      else let (out, st', q') = consume n st q in (scan_toc st x # out, st', q'))"

definition next_read :: "kbd \<Rightarrow> kbd" where
  "next_read s = (let s = s\<lparr>read_i := read_i s + 1\<rparr>; s = (if read_i s = 32 then s\<lparr>read_i := 0\<rparr> else s)
     in s\<lparr>read_fresh := True\<rparr>)"

lemma next_read_spec:
  assumes "kbd_inv s"
  shows "wrap (uint (read_i s) + 1) 0 31 = uint (scan_i s) \<longleftrightarrow> length (codes s) = 1"
    and "length (codes s) \<noteq> 1 \<Longrightarrow> kbd_inv (next_read s) \<and> kbd_queue (next_read s) = tl (codes s) \<and>
      kbd_status (next_read s) = kbd_status s"
proof -
  let ?w = "unat (scan_i s)" and ?r = "unat (read_i s)"
  have b: "?w < 32" "?r < 32" "length (scancode_buf s) = 32"
    using assms by (simp_all add: kbd_inv_def word_less_nat_alt)
  have u: "uint (read_i s) = int ?r" "uint (scan_i s) = int ?w" by simp_all
  have "wrap (int ?r + 1) 0 31 = int ((?r + 1) mod 32)"
    using b(2) by (rule wrap_succ)
  then have "wrap (uint (read_i s) + 1) 0 31 = uint (scan_i s) \<longleftrightarrow> (?r + 1) mod 32 = ?w"
    unfolding u by (simp only: of_nat_eq_iff)
  then show "wrap (uint (read_i s) + 1) 0 31 = uint (scan_i s) \<longleftrightarrow> length (codes s) = 1"
    using ring_last [OF b(2,1)] by (simp add: codes_def)
  assume "length (codes s) \<noteq> 1"
  then have n: "(?r + 1) mod 32 \<noteq> ?w" using ring_last [OF b(2,1)] by (simp add: codes_def)
  have i: "unat (read_i s + 1) = ?r + 1" using assms by (simp add: kbd_inv_def unat_u8_incr)
  then have "read_i s + 1 = 32 \<longleftrightarrow> ?r + 1 = 32" by (simp add: word_unat_eq_iff)
  then have r: "unat (read_i (next_read s)) = (?r + 1) mod 32" using i b by (auto simp: next_read_def Let_def)
  have f: "scan_i (next_read s) = scan_i s" "scancode_buf (next_read s) = scancode_buf s" "read_fresh (next_read s)"
    "kbd_status (next_read s) = kbd_status s" by (simp_all add: next_read_def Let_def)
  show "kbd_inv (next_read s) \<and> kbd_queue (next_read s) = tl (codes s) \<and> kbd_status (next_read s) = kbd_status s"
    using b r f ring_take [OF b(2,1) n, of "scancode_buf s"]
    by (simp add: kbd_inv_def kbd_queue_def codes_def word_less_nat_alt)
qed

text \<open>One round of the loop before the position moves: what it prints, and the state.\<close>

definition round_out :: "kbd \<Rightarrow> u8 list" where
  "round_out s = (let t = scan_toc (kbd_status s) (hd (codes s)) in if read_fresh s \<and> t \<noteq> 0 then [t] else [])"

definition round_state :: "kbd \<Rightarrow> kbd" where
  "round_state s =
     (if read_fresh s \<and> scan_toc (kbd_status s) (hd (codes s)) = 0
      then s\<lparr>kbd_status := snd (update_kbd_status (hd (codes s)) (kbd_status s))\<rparr> else s)"

lemma hd_codes: "kbd_inv s \<Longrightarrow> hd (codes s) = scancode_buf s ! unat (read_i s)"
  by (simp add: kbd_inv_def codes_def ring_codes_def ring_len_def hd_map upt_conv_Cons word_less_nat_alt del: upt_Suc)

lemma round_state_simps [simp]:
  "read_i (round_state s) = read_i s" "scan_i (round_state s) = scan_i s" "codes (round_state s) = codes s"
  "kbd_inv (round_state s) = kbd_inv s"
  by (simp_all add: round_state_def codes_def kbd_inv_def)

lemma codes_Cons: "kbd_inv s \<Longrightarrow> codes s = hd (codes s) # tl (codes s)"
  using codes_length [of s] by (cases "codes s") simp_all

lemma consume_Nil [simp]: "consume n st [] = ([], st, [])"
  by (cases n) simp_all

lemma round_consume:
  assumes "kbd_inv s"
  shows "consume (Suc k) (kbd_status s) (kbd_queue s) =
    (let (out, st, q) = consume (Suc k - length (round_out s)) (kbd_status (round_state s)) (tl (codes s))
     in (round_out s @ out, st, q))"
proof (cases "read_fresh s")
  case True
  then have "kbd_queue s = hd (codes s) # tl (codes s)" using codes_Cons [OF assms] by (simp add: kbd_queue_def)
  then show ?thesis using True by (auto simp: round_out_def round_state_def Let_def split: prod.splits)
qed (simp add: kbd_queue_def round_out_def round_state_def)

lemma kbd_read_loop_unfold:
  assumes "kbd_inv s" "c \<noteq> n"
  shows "kbd_read_loop buf n c m s =
    (let c' = c + of_nat (length (round_out s)); m' = write_at (buf + ucast c) (round_out s) m
     in if length (codes s) = 1 then Some (c', m', (round_state s)\<lparr>read_fresh := False\<rparr>)
        else kbd_read_loop buf n c' m' (next_read (round_state s)))"
proof -
  have w: "wrap (uint (read_i s) + 1) 0 31 = uint (scan_i s) \<longleftrightarrow> length (codes s) = 1"
    using next_read_spec(1) [OF assms(1)] .
  show ?thesis
    using assms(2) w
    by (subst kbd_read_loop.simps)
       (auto simp: round_out_def round_state_def next_read_def Let_def hd_codes [OF assms(1)])
qed

lemma kbd_read_loop_spec:
  assumes "kbd_inv s" "unat c \<le> unat n" "consume (unat n - unat c) (kbd_status s) (kbd_queue s) = (out, st, q)"
  shows "\<exists>s'. kbd_read_loop buf n c m s = Some (c + of_nat (length out), write_at (buf + ucast c) out m, s') \<and>
    kbd_inv s' \<and> kbd_status s' = st \<and> kbd_queue s' = q"
  using assms
proof (induction "length (kbd_queue s) + (if read_fresh s then 0 else 1)" arbitrary: s c m out rule: less_induct)
  case less
  show ?case
  proof (cases "c = n")
    case True
    with less.prems show ?thesis by (subst kbd_read_loop.simps) simp
  next
    case False
    then have "unat c \<noteq> unat n" by (simp add: word_unat_eq_iff)
    with less.prems(2) have cn: "unat c < unat n" by simp
    define k where "k = unat n - unat c - 1"
    have k: "unat n - unat c = Suc k" using cn by (simp add: k_def)
    let ?o = "round_out s" and ?s = "round_state s"
    let ?c = "c + of_nat (length ?o)"
    let ?m = "write_at (buf + ucast c) ?o m"
    have lo: "length ?o \<le> 1" by (simp add: round_out_def Let_def)
    have "unat n < 256" using unsigned_less [where 'a = nat, of n] by simp
    then have uc: "unat ?c = unat c + length ?o"
      using cn lo by (cases "length ?o") (simp_all add: unat_word_ariths)
    have le: "unat ?c \<le> unat n" using uc cn lo by simp
    have kk: "Suc k - length ?o = unat n - unat ?c" using k uc by simp
    obtain out' where rest: "consume (unat n - unat ?c) (kbd_status ?s) (tl (codes s)) = (out', st, q)" "out = ?o @ out'"
      using round_consume [OF less.prems(1), of k] less.prems(3) unfolding k kk by (auto split: prod.splits)
    note un = kbd_read_loop_unfold [OF less.prems(1) False, of buf m, unfolded Let_def]
    show ?thesis
    proof (cases "length (codes s) = 1")
      case True
      then have t: "tl (codes s) = []" by (cases "codes s") simp_all
      have e: "out' = []" "st = kbd_status ?s" "q = []" using rest(1) unfolding t by simp_all
      let ?t = "?s\<lparr>read_fresh := False\<rparr>"
      have "codes ?t = codes s" using round_state_simps(3) [of s] by (simp add: codes_def)
      then have "kbd_inv ?t \<and> kbd_status ?t = st \<and> kbd_queue ?t = q"
        using less.prems(1) round_state_simps(4) [of s] t e by (simp add: kbd_queue_def kbd_inv_def)
      moreover have "kbd_read_loop buf n c m s = Some (?c, ?m, ?t)" using un True by simp
      ultimately show ?thesis using rest(2) e(1) by auto
    next
      case n1: False
      let ?t = "next_read ?s"
      have nr: "kbd_inv ?t" "kbd_queue ?t = tl (codes s)" "kbd_status ?t = kbd_status ?s" "read_fresh ?t"
        using next_read_spec(2) [of ?s] less.prems(1) n1 by (auto simp: next_read_def Let_def)
      have dec: "length (kbd_queue ?t) + (if read_fresh ?t then 0 else 1) < length (kbd_queue s) + (if read_fresh s then 0 else 1)"
        using nr codes_length [OF less.prems(1)] by (simp add: kbd_queue_def)
      have "consume (unat n - unat ?c) (kbd_status ?t) (kbd_queue ?t) = (out', st, q)" unfolding nr using rest(1) .
      from less.hyps [OF dec nr(1) le this, of ?m] obtain s' where s':
        "kbd_read_loop buf n ?c ?m ?t = Some (?c + of_nat (length out'), write_at (buf + ucast ?c) out' ?m, s')"
        "kbd_inv s' \<and> kbd_status s' = st \<and> kbd_queue s' = q" by blast
      have "(ucast ?c :: ptr) = of_nat (unat ?c)" by simp
      also have "\<dots> = ucast c + of_nat (length ?o)" unfolding uc by simp
      finally have "write_at (buf + ucast ?c) out' ?m = write_at (buf + ucast c) out m"
        unfolding rest(2) write_at_append by (simp add: add.assoc)
      moreover have "kbd_read_loop buf n c m s = kbd_read_loop buf n ?c ?m ?t" using un n1 by simp
      ultimately show ?thesis using s' rest(2) by (auto simp: add.assoc)
    qed
  qed
qed

section \<open>Bursts of interrupts\<close>

text \<open>A bounded queue that an interrupt fills: while there is room, nothing is lost.\<close>

locale event_queue =
  fixes put :: "'e \<Rightarrow> 's \<Rightarrow> 's"
    and contents :: "'s \<Rightarrow> 'e list"
    and valid :: "'s \<Rightarrow> bool"
    and capacity :: nat
  assumes put_valid: "valid s \<Longrightarrow> valid (put e s)"
    and put_room: "valid s \<Longrightarrow> length (contents s) < capacity \<Longrightarrow> contents (put e s) = contents s @ [e]"
    and put_full: "valid s \<Longrightarrow> capacity \<le> length (contents s) \<Longrightarrow>
      \<exists>k \<le> 1. contents (put e s) = drop k (contents s) @ [e]"
    and capacity_pos: "0 < capacity"
begin

lemma burst_valid: "valid s \<Longrightarrow> valid (fold put es s)"
  by (induction es arbitrary: s) (simp_all add: put_valid)

lemma burst: "valid s \<Longrightarrow> length (contents s) + length es \<le> capacity \<Longrightarrow> contents (fold put es s) = contents s @ es"
  by (induction es arbitrary: s) (simp_all add: put_valid put_room)

lemma put_suffix:
  assumes "valid s"
  obtains k where "contents (put e s) = drop k (contents s @ [e])"
    "min capacity (length (contents s) + 1) \<le> length (contents (put e s))"
proof (cases "length (contents s) < capacity")
  case True
  then have "contents (put e s) = drop 0 (contents s @ [e])" using put_room [OF assms] by simp
  then show ?thesis using that [of 0] by simp
next
  case False
  with put_full [OF assms, of e] obtain k where k: "k \<le> 1" "contents (put e s) = drop k (contents s) @ [e]" by auto
  with False capacity_pos show ?thesis using that [of k] by (simp add: not_less)
qed

lemma burst_suffix:
  "valid s \<Longrightarrow> \<exists>k. contents (fold put es s) = drop k (contents s @ es) \<and>
    min capacity (length (contents s) + length es) \<le> length (contents (fold put es s))"
proof (induction es arbitrary: s)
  case Nil
  then show ?case by (auto intro: exI [of _ 0])
next
  case (Cons e es)
  from put_suffix [OF Cons.prems, of e] obtain k where
    k: "contents (put e s) = drop k (contents s @ [e])" "min capacity (length (contents s) + 1) \<le> length (contents (put e s))" .
  from Cons.IH [OF put_valid [OF Cons.prems], of e] obtain j where
    j: "contents (fold put es (put e s)) = drop j (contents (put e s) @ es)"
      "min capacity (length (contents (put e s)) + length es) \<le> length (contents (fold put es (put e s)))" by blast
  obtain i where "drop j (drop k (contents s @ [e]) @ es) = drop i (contents s @ e # es)"
  proof (cases "k \<le> length (contents s @ [e])")
    case True
    then have "drop k (contents s @ [e]) @ es = drop k (contents s @ e # es)" using drop_append [of k "contents s @ [e]" es] by simp
    then show ?thesis using that [of "j + k"] by (simp only: drop_drop)
  next
    case False
    then have "drop k (contents s @ [e]) @ es = drop (length (contents s @ [e])) ((contents s @ [e]) @ es)" by simp
    then show ?thesis using that [of "j + length (contents s @ [e])"] by simp
  qed
  then have "contents (fold put (e # es) s) = drop i (contents s @ e # es)" using j(1) unfolding k(1) by simp
  moreover have "min capacity (length (contents s) + length (e # es)) \<le> length (contents (fold put (e # es) s))"
    using j(2) k(2) by simp
  ultimately show ?case by blast
qed

end

lemma queue_length: "kbd_inv s \<Longrightarrow> length (kbd_queue s) < 31 \<Longrightarrow> length (codes s) \<noteq> 32"
  by (auto simp: kbd_queue_def split: if_splits)

interpretation keyq: event_queue ps2_int_handler kbd_queue kbd_inv 31
proof
  show "kbd_inv (ps2_int_handler e s)" if "kbd_inv s" for s e using that by (rule handler_spec)
  show "kbd_queue (ps2_int_handler e s) = kbd_queue s @ [e]" if "kbd_inv s" "length (kbd_queue s) < 31" for s e
    using handler_queue [OF that(1)] queue_length [OF that] by simp
  show "\<exists>k \<le> 1. kbd_queue (ps2_int_handler e s) = drop k (kbd_queue s) @ [e]"
    if "kbd_inv s" "31 \<le> length (kbd_queue s)" for s e
  proof (cases "length (codes s) = 32")
    case True
    then have "kbd_queue (ps2_int_handler e s) = drop 1 (kbd_queue s) @ [e]" using handler_queue [OF that(1)] by (simp add: drop_Suc)
    then show ?thesis by blast
  next
    case False
    then have "kbd_queue (ps2_int_handler e s) = drop 0 (kbd_queue s) @ [e]" using handler_queue [OF that(1)] by simp
    then show ?thesis by blast
  qed
qed simp

section \<open>Properties\<close>

text \<open>
  C37: \<open>kbd_read\<close> always returns, and it takes from the queue of scancodes what the reference
  \<open>consume\<close> takes: it stops after \<open>n\<close> characters or at the end of the queue, writes exactly the
  characters to the caller's buffer and returns their number, applies every modifier key on the
  way, and leaves the rest in the queue.
\<close>
theorem kbd_read_refines:
  assumes "kbd_inv s" "consume (unat n) (kbd_status s) (kbd_queue s) = (out, st, q)"
  shows "\<exists>s'. kbd_read buf n m s = Some (of_nat (length out), write_at buf out m, s') \<and>
    kbd_inv s' \<and> kbd_status s' = st \<and> kbd_queue s' = q"
  using kbd_read_loop_spec [of s 0 n out st q buf m] assms by (simp add: kbd_read_def)

text \<open>The keyboard after everything has been read.\<close>

definition ex_idle :: kbd where
  "ex_idle = kbd0\<lparr>read_fresh := False, scan_i := 1\<rparr>"

definition ex_kbd :: kbd where
  "ex_kbd = fold ps2_int_handler [0x2a, 0x23, 0xaa, 0x17] ex_idle"

lemma burst_status: "kbd_inv s \<Longrightarrow> kbd_status (fold ps2_int_handler es s) = kbd_status s"
  by (induction es arbitrary: s) (simp_all add: handler_spec)

lemma ex_idle_ok: "kbd_inv ex_idle" "kbd_queue ex_idle = []" "kbd_status ex_idle = \<lparr>shift = 0, capslock = False, numlock = False\<rparr>"
  by (simp_all add: ex_idle_def kbd_inv_def kbd0_def kbd_queue_def codes_def ring_codes_def ring_len_def)

lemma ex_kbd_ok: "kbd_inv ex_kbd" "kbd_queue ex_kbd = [0x2a, 0x23, 0xaa, 0x17]"
  "kbd_status ex_kbd = \<lparr>shift = 0, capslock = False, numlock = False\<rparr>"
  unfolding ex_kbd_def
  by (rule keyq.burst_valid [OF ex_idle_ok(1)], subst keyq.burst [OF ex_idle_ok(1)])
    (simp_all only: burst_status [OF ex_idle_ok(1)] ex_idle_ok, simp_all)

lemma ex_consume: "consume 8 \<lparr>shift = 0, capslock = False, numlock = False\<rparr> [0x2a, 0x23, 0xaa, 0x17] =
    (map ch ''Hi'', \<lparr>shift = 0, capslock = False, numlock = False\<rparr>, [])"
  by code_simp

theorem kbd_read_refines_witness:
  "\<exists>s'. kbd_read 4096 8 (\<lambda>_. 0) ex_kbd = Some (2, write_at 4096 (map ch ''Hi'') (\<lambda>_. 0), s') \<and> kbd_queue s' = []"
  using kbd_read_refines [OF ex_kbd_ok(1), of 8 "map ch ''Hi''" "\<lparr>shift = 0, capslock = False, numlock = False\<rparr>" "[]" 4096 "\<lambda>_. 0"]
    ex_consume by (auto simp: ex_kbd_ok)

text \<open>
  typing ahead. When everything before has been read, up to 31 scancodes that arrive before
  the next read are all kept in order: a read of enough characters returns the characters of
  the whole burst, and the queue is empty after it.
\<close>
theorem type_ahead:
  assumes "kbd_inv s" "kbd_queue s = []" "length es \<le> 31" "31 \<le> unat n"
  shows "\<exists>s' st. consume (unat n) (kbd_status s) es = (fst (consume (unat n) (kbd_status s) es), st, []) \<and>
    kbd_read buf n m (fold ps2_int_handler es s) =
      Some (of_nat (length (fst (consume (unat n) (kbd_status s) es))), write_at buf (fst (consume (unat n) (kbd_status s) es)) m, s') \<and>
    kbd_queue s' = [] \<and> kbd_status s' = st"
proof -
  have q: "kbd_queue (fold ps2_int_handler es s) = es" using keyq.burst [OF assms(1), of es] assms by simp
  note st = burst_status [OF assms(1), of es]
  have all: "snd (snd (consume k st es)) = []" if "length es \<le> k" for k st es
    using that by (induction k st es rule: consume.induct) (auto split: prod.splits)
  obtain out st' q' where c: "consume (unat n) (kbd_status s) es = (out, st', q')" by (metis surj_pair)
  have "q' = []" using all [of es "unat n" "kbd_status s"] assms c by simp
  with kbd_read_loop_spec [of "fold ps2_int_handler es s" 0 n out st' q' buf m] keyq.burst_valid [OF assms(1)] c
  show ?thesis by (auto simp: kbd_read_def q st)
qed

theorem type_ahead_witness:
  "\<exists>s'. kbd_read 4096 40 (\<lambda>_. 0) (fold ps2_int_handler [0x1e, 0x30] ex_idle) =
     Some (2, write_at 4096 (map ch ''ab'') (\<lambda>_. 0), s') \<and> kbd_queue s' = []"
proof -
  have c: "consume 40 (kbd_status ex_idle) [0x1e, 0x30] =
      (map ch ''ab'', \<lparr>shift = 0, capslock = False, numlock = False\<rparr>, [])" by code_simp
  show ?thesis
    using type_ahead [OF ex_idle_ok(1,2), of "[0x1e, 0x30]" 40 4096 "\<lambda>_. 0"] c by auto
qed

text \<open>
  a burst of any length, at any moment, loses only the oldest scancodes: the queue after it
  is a suffix of the queue before it followed by the burst, and it still holds at least the last
  31 of them. The indices stay inside the ring.
\<close>
theorem interrupt_overrun:
  assumes "kbd_inv s"
  shows "kbd_inv (fold ps2_int_handler es s) \<and>
    (\<exists>k. kbd_queue (fold ps2_int_handler es s) = drop k (kbd_queue s @ es)) \<and>
    min 31 (length (kbd_queue s) + length es) \<le> length (kbd_queue (fold ps2_int_handler es s))"
  using keyq.burst_valid [OF assms] keyq.burst_suffix [OF assms] by blast

theorem interrupt_overrun_witness:
  "kbd_inv ex_kbd \<and> 31 \<le> length (kbd_queue (fold ps2_int_handler (replicate 40 0x1e) ex_kbd))"
  using interrupt_overrun [OF ex_kbd_ok(1), of "replicate 40 0x1e"] ex_kbd_ok(1) by simp

text \<open>The scancodes of the letters, with the letters.\<close>

definition letters :: "(u8 \<times> char) list" where
  "letters = [(0x10, CHR ''q''), (0x11, CHR ''w''), (0x12, CHR ''e''), (0x13, CHR ''r''), (0x14, CHR ''t''),
    (0x15, CHR ''y''), (0x16, CHR ''u''), (0x17, CHR ''i''), (0x18, CHR ''o''), (0x19, CHR ''p''),
    (0x1e, CHR ''a''), (0x1f, CHR ''s''), (0x20, CHR ''d''), (0x21, CHR ''f''), (0x22, CHR ''g''),
    (0x23, CHR ''h''), (0x24, CHR ''j''), (0x25, CHR ''k''), (0x26, CHR ''l''), (0x2c, CHR ''z''),
    (0x2d, CHR ''x''), (0x2e, CHR ''c''), (0x2f, CHR ''v''), (0x30, CHR ''b''), (0x31, CHR ''n''), (0x32, CHR ''m'')]"

lemma letters_table:
  "list_all (\<lambda>(code, x). map_option (\<lambda>(a, b). (ch a, ch b)) (map_of (keys_top @ keys_mid) code) = Some (ch x - 32, ch x)) letters"
  "list_all (\<lambda>(code, x). caps_swap (ch x) = ch x - 32 \<and> caps_swap (ch x - 32) = ch x) letters"
  by code_simp+

text \<open>
  a letter key gives its capital exactly when one of shift and caps lock is on, and the
  small letter otherwise.
\<close>
theorem letters_case:
  "list_all (\<lambda>(code, x). scan_toc st code = ch x - (if (shift st \<noteq> 0) \<noteq> capslock st then 32 else 0)) letters"
  unfolding list_all_iff
proof clarify
  fix code x assume m: "(code, x) \<in> set letters"
  then have "map_option (\<lambda>(a, b). (ch a, ch b)) (map_of (keys_top @ keys_mid) code) = Some (ch x - 32, ch x)"
    and sw: "caps_swap (ch x) = ch x - 32" "caps_swap (ch x - 32) = ch x"
    using letters_table by (auto simp: list_all_iff)
  then obtain a b where t: "map_of (keys_top @ keys_mid) code = Some (a, b)" and ab: "ch a = ch x - 32" "ch b = ch x"
    by (auto simp del: map_of_append)
  have "scan_case st code = (if shift st \<noteq> 0 then ch x - 32 else ch x)"
    unfolding scan_case_def t by (simp add: ab)
  then show "scan_toc st code = ch x - (if (shift st \<noteq> 0) \<noteq> capslock st then 32 else 0)"
    by (simp add: scan_toc_def sw)
qed

text \<open>
  the shift counter goes wrong. A release that was not preceded by a press counts as two
  shift keys held, and as a key that is held down repeats its press code, pressing it for long
  and releasing it leaves shift on.
\<close>
theorem shift_stuck:
  "shift (snd (update_kbd_status 0xaa (st\<lparr>shift := 0\<rparr>))) = 2 \<and>
   shift (fold (\<lambda>c st. snd (update_kbd_status c st)) [0x2a, 0x2a, 0xaa] (st\<lparr>shift := 0\<rparr>)) = 1"
proof -
  have "clamp_shift (- 1) = 2" "clamp_shift 1 = 1" "clamp_shift 2 = 2" by code_simp+
  then show ?thesis by (simp add: update_kbd_status_def)
qed

end
