(* ===== verification/Start.thy ===== *)
theory Start
  imports Process_Props Mem_Words Interrupt_Props Io Kbd
begin

text \<open>
  Start-up and what it ties together: \<^verbatim>\<open>src/init.cpp\<close>, \<^verbatim>\<open>src/main.cpp\<close>, the start of the scheduler
  and the cleaner thread (\<^verbatim>\<open>src/sched/thread.cpp\<close>), the start of the keyboard
  (\<^verbatim>\<open>src/driver/ps2.cpp\<close>) and the user side of the system calls (\<^verbatim>\<open>libcpp/src/syscall.cpp\<close>). The
  handlers that start-up registers are here: faults, and the echo of the keyboard.
\<close>

unbundle bit_operations_syntax

section \<open>The machine\<close>

text \<open>
  The whole state: the kernel data, the interrupt side, the descriptor table, the screen, the
  keyboard and the debug console. The interrupt side sees the scheduler of the kernel data.
\<close>

record machine =
  ma_kernel :: kernel
  ma_int :: int_state
  ma_gdt :: gdt
  ma_vga :: vga
  ma_kbd :: kbd

definition int_of :: "machine \<Rightarrow> int_state" where
  "int_of m = (ma_int m)\<lparr>is_sched := k_sched (ma_kernel m)\<rparr>"

definition put_int :: "int_state \<Rightarrow> machine \<Rightarrow> machine" where
  "put_int s m = m\<lparr>ma_int := s, ma_kernel := (ma_kernel m)\<lparr>k_sched := is_sched s\<rparr>\<rparr>"

definition on_int :: "(int_state \<Rightarrow> int_state) \<Rightarrow> machine \<Rightarrow> machine" where
  "on_int f m = put_int (f (int_of m)) m"

definition on_kernel :: "(kernel \<Rightarrow> kernel option) \<Rightarrow> machine \<Rightarrow> machine option" where
  "on_kernel f m = do { k \<leftarrow> f (ma_kernel m); Some (m\<lparr>ma_kernel := k\<rparr>) }"

text \<open>What the linker fixes: the addresses of objects and functions, and the symbols of the image.\<close>

record image =
  im_gdt :: ptr
  im_tss :: ptr
  im_idt :: ptr
  im_kdata :: ptr
  im_heap :: ptr
  im_text_start :: usize
  im_kernel_end :: usize
  im_kernel_vma :: usize
  im_PDP_table :: usize
  im_entry :: "u8 \<Rightarrow> usize"
  im_syscall_entry :: usize
  im_timer_irq_handler :: ptr
  im_sched_time_handler :: ptr
  im_sched_int_handler :: ptr
  im_thread_cleaner :: ptr
  im_double_fault :: ptr
  im_page_fault :: ptr
  im_ps2_int_handler :: ptr
  im_kbd_p :: ptr
  im_initfs :: ptr
  im_initfs_len :: usize

definition EXC_DOUBLE_FAULT :: u8 where "EXC_DOUBLE_FAULT = 8"
definition EXC_GENERAL_PROTECTION_FAULT :: u8 where "EXC_GENERAL_PROTECTION_FAULT = 13"
definition EXC_PAGE_FAULT :: u8 where "EXC_PAGE_FAULT = 14"
definition PAGE_FAULT_PROTECTION :: u64 where "PAGE_FAULT_PROTECTION = 1"
definition PAGE_FAULT_WRITE :: u64 where "PAGE_FAULT_WRITE = push_bit 1 1"
definition PAGE_FAULT_USER :: u64 where "PAGE_FAULT_USER = push_bit 2 1"
definition PAGE_FAULT_RESERVED :: u64 where "PAGE_FAULT_RESERVED = push_bit 3 1"
definition PAGE_FAULT_EXECUTE :: u64 where "PAGE_FAULT_EXECUTE = push_bit 4 1"
definition SUID :: u8 where "SUID = 1"

section \<open>Handlers of start-up\<close>

text \<open>
  A page fault and a general protection fault panic; the arguments of the message. \<open>lit\<close> gives
  the addresses of string literals, \<open>cr2\<close> is the register.
\<close>

definition page_fault_args :: "(string \<Rightarrow> ptr) \<Rightarrow> usize \<Rightarrow> int_data \<Rightarrow> u64 \<Rightarrow> u64 list" where
  "page_fault_args lit cr2 data error =
     [cr2, lit (if error AND PAGE_FAULT_USER \<noteq> 0 then ''user'' else ''kernel''),
      lit (if error AND PAGE_FAULT_EXECUTE \<noteq> 0 then ''instruction fetch'' else if error AND PAGE_FAULT_WRITE \<noteq> 0 then ''write'' else ''read''),
      d_rip data, d_rsp data, (if error AND PAGE_FAULT_PROTECTION \<noteq> 0 then 0 else 1), (if error AND PAGE_FAULT_RESERVED \<noteq> 0 then 1 else 0)]"

definition page_fault :: "(string \<Rightarrow> ptr) \<Rightarrow> ptr \<Rightarrow> ptr \<Rightarrow> usize \<Rightarrow> int_data \<Rightarrow> u64 \<Rightarrow> bytes \<Rightarrow> port_log \<Rightarrow> port_log option" where
  "page_fault lit buf format cr2 data error m l = panic_output lit buf format (page_fault_args lit cr2 data error) m l"

definition gp_exception :: "(string \<Rightarrow> ptr) \<Rightarrow> ptr \<Rightarrow> bytes \<Rightarrow> port_log \<Rightarrow> port_log option" where
  "gp_exception lit buf m l = panic_output lit buf (lit (''general protection exception'' @ [CHR 0x0A])) [] m l"

definition double_fault :: "(string \<Rightarrow> ptr) \<Rightarrow> ptr \<Rightarrow> bytes \<Rightarrow> vga \<Rightarrow> (registers option \<times> vga) option" where
  "double_fault lit buf m v = do { v \<leftarrow> kprintf buf (lit (''double fault'' @ [CHR 0x0A])) [] m v; Some (None, v) }"

text \<open>The keyboard is echoed; \<open>s\<close> is the local buffer of 32 bytes.\<close>

definition kbd_p :: "(string \<Rightarrow> ptr) \<Rightarrow> ptr \<Rightarrow> ptr \<Rightarrow> bytes \<Rightarrow> kbd \<Rightarrow> vga \<Rightarrow> (registers option \<times> bytes \<times> kbd \<times> vga) option" where
  "kbd_p lit buf s m k v = do {
     let m = memset s 32 0 m;
     (c, m, k) \<leftarrow> kbd_read s 32 m k;
     v \<leftarrow> (if c \<noteq> 0 then kprintf buf (lit ''%s'') [s] m v else Some v);
     Some (None, m, k, v)
   }"

section \<open>Start-up\<close>

definition kbd_init :: "image \<Rightarrow> machine \<Rightarrow> u8 \<times> machine" where
  "kbd_init im m = (1, on_int (\<lambda>s. outp PS2_DATA 0xf4 (snd (reg_int_handler IRQ_KEYBOARD (im_ps2_int_handler im) ht_first s))) m)"

text \<open>\<^term>\<open>None\<close> is the panic when the cleaner cannot be made.\<close>

definition sched_init :: "bool \<Rightarrow> image \<Rightarrow> machine \<Rightarrow> machine option" where
  "sched_init dbg im m = do {
     let m = on_int (\<lambda>s. snd (reg_int_handler IRQ_TIMER (im_sched_time_handler im) ht_reg s)) m;
     let m = on_int (\<lambda>s. snd (reg_int_handler INT_SCHED (im_sched_int_handler im) ht_reg s)) m;
     (sw, t, k) \<leftarrow> new_thread (im_heap im) dbg (proc_c (ma_kernel m)) (Some ''kthread_cleaner'') (im_thread_cleaner im) (ma_kernel m);
     if sw \<or> t = NULL then None else Some (m\<lparr>ma_kernel := k\<rparr>)
   }"

text \<open>One round of the cleaner thread; the flag says whether it was switched away from.\<close>

partial_function (option) thread_cleaner_loop :: "ptr \<Rightarrow> kernel \<Rightarrow> (bool \<times> kernel) option" where
  "thread_cleaner_loop ms k =
     (let k = k\<lparr>k_sched := lock (k_sched k)\<rparr>
      in if l_len (t_list (k_sched k) T_DESTROY) = 0 then Some (False, k)
         else do {
           (temp, k) \<leftarrow> with_sched (tl_pop_start T_DESTROY) k;
           let k = k\<lparr>k_sched := unlock (k_sched k)\<rparr>;
           if th_stack_size (s_threads (k_sched k) temp) = 0 then None
           else do {
             (sw, k) \<leftarrow> thread_delete ms temp k;
             if sw then Some (True, k) else thread_cleaner_loop ms k
           }
         })"

definition thread_cleaner_round :: "ptr \<Rightarrow> kernel \<Rightarrow> (bool \<times> kernel) option" where
  "thread_cleaner_round ms k = do {
     (sw, k) \<leftarrow> thread_cleaner_loop ms k;
     if sw then Some (True, k)
     else do {
       let k = k\<lparr>k_sched := unlock (k_sched k)\<rparr>;
       with_sched (nsleep (thread_c (k_sched k)) 300000000) k
     }
   }"

text \<open>The part of \<^verbatim>\<open>init\<close> before the memory is set up, and the whole.\<close>

definition init_devices :: "device \<Rightarrow> image \<Rightarrow> machine \<Rightarrow> machine option" where
  "init_devices dev im m = do {
     let m = m\<lparr>ma_vga := vga_clear (ma_vga m), ma_gdt := gdt_init (im_gdt im) (im_tss im) (ma_gdt m)\<rparr>;
     let m = on_int (\<lambda>s. idt_init (im_idt im) (im_entry im) (pic_remap dev PICM_OFFSET PICM_OFFSET s)) m;
     s \<leftarrow> time_init (im_timer_irq_handler im) (int_of m);
     let m = put_int s m;
     let m = on_int (\<lambda>s. snd (reg_int_handler EXC_DOUBLE_FAULT (im_double_fault im) ht_first s)) m;
     let m = on_int (\<lambda>s. snd (reg_int_handler EXC_PAGE_FAULT (im_page_fault im) ht_normal s)) m;
     let m = on_int (\<lambda>s. snd (reg_int_handler EXC_GENERAL_PROTECTION_FAULT (im_page_fault im) ht_normal s)) m;
     Some (m\<lparr>ma_kernel := kdata_init (im_kdata im) (ma_kernel m)\<rparr>)
   }"

definition init :: "device \<Rightarrow> bool \<Rightarrow> image \<Rightarrow> ptr \<Rightarrow> machine \<Rightarrow> (u8 \<times> machine) option" where
  "init dev dbg im mb2_table m = do {
     m \<leftarrow> init_devices dev im m;
     m \<leftarrow> on_kernel (\<lambda>k. do {
       (_, mm) \<leftarrow> mem_init (im_text_start im) (im_kernel_end im) (im_kernel_vma im) mb2_table (k_mm k);
       mm \<leftarrow> kmem_init (im_heap im) mm;
       proc_init (im_heap im) dbg (im_PDP_table im) (call_init (im_syscall_entry im) (k\<lparr>k_mm := mm\<rparr>))
     }) m;
     m \<leftarrow> sched_init dbg im m;
     let (_, m) = kbd_init im m;
     Some (1, on_int (\<lambda>s. snd (reg_int_handler IRQ_KEYBOARD (im_kbd_p im) ht_normal s)) m)
   }"

text \<open>
  \<^verbatim>\<open>_start\<close> up to its idle loop: the initial process, the kernel stack of interrupts from user
  mode, and interrupts on. The greeting is left out; \<open>rsp\<close> is the stack pointer.
\<close>

definition start :: "device \<Rightarrow> bool \<Rightarrow> image \<Rightarrow> usize \<Rightarrow> ptr \<Rightarrow> machine \<Rightarrow> (bool \<times> machine) option" where
  "start dev dbg im rsp mb2_table m = do {
     (ok, m) \<leftarrow> init dev dbg im mb2_table m;
     if ok = 0 then None
     else do {
       (sw, _, k) \<leftarrow> load_elf (im_heap im) dbg (im_PDP_table im) (im_initfs im) (im_initfs_len im) SUID (ma_kernel m);
       let m = m\<lparr>ma_kernel := k\<rparr>;
       if sw then Some (True, m)
       else Some (False, on_int (\<lambda>s. s\<lparr>tss_rsp0 := align_up (rsp + 0x100) 16, is_sched := sti_safe (is_sched s)\<rparr>) m)
     }
   }"

section \<open>The user side of system calls\<close>

text \<open>
  \<^verbatim>\<open>libcpp/src/syscall.cpp\<close>: each wrapper makes the system call of a number; the answer is what
  the register holds afterwards.
\<close>

definition user_thread_new :: "ptr \<Rightarrow> bool \<Rightarrow> usize \<Rightarrow> kernel \<Rightarrow> (bool \<times> bool \<times> kernel) option" where
  "user_thread_new ms dbg func k = do { (sw, r, k) \<leftarrow> syscall ms dbg 2 func 0 k; r \<leftarrow> r; Some (sw, r \<noteq> 0, k) }"

definition user_call :: "u32 \<Rightarrow> ptr \<Rightarrow> bool \<Rightarrow> usize \<Rightarrow> usize \<Rightarrow> kernel \<Rightarrow> (bool \<times> kernel) option" where
  "user_call n ms dbg a b k = do { (sw, _, k) \<leftarrow> syscall ms dbg n a b k; Some (sw, k) }"

definition user_thread_block :: "ptr \<Rightarrow> bool \<Rightarrow> usize \<Rightarrow> usize \<Rightarrow> kernel \<Rightarrow> (bool \<times> kernel) option" where
  "user_thread_block ms dbg reason nsec k = user_call 3 ms dbg reason nsec k"

definition user_exit :: "ptr \<Rightarrow> bool \<Rightarrow> usize \<Rightarrow> kernel \<Rightarrow> (bool \<times> kernel) option" where
  "user_exit ms dbg code k = user_call 4 ms dbg code 0 k"

definition user_create_semaphore :: "ptr \<Rightarrow> bool \<Rightarrow> usize \<Rightarrow> kernel \<Rightarrow> (bool \<times> usize \<times> kernel) option" where
  "user_create_semaphore ms dbg n k = do { (sw, r, k) \<leftarrow> syscall ms dbg 5 n 0 k; r \<leftarrow> r; Some (sw, r, k) }"

definition user_delete_semaphore :: "ptr \<Rightarrow> bool \<Rightarrow> usize \<Rightarrow> kernel \<Rightarrow> (bool \<times> bool \<times> kernel) option" where
  "user_delete_semaphore ms dbg i k = do { (sw, r, k) \<leftarrow> syscall ms dbg 6 i 0 k; r \<leftarrow> r; Some (sw, r \<noteq> 0, k) }"

definition user_semaphore_lock :: "ptr \<Rightarrow> bool \<Rightarrow> usize \<Rightarrow> kernel \<Rightarrow> (bool \<times> kernel) option" where
  "user_semaphore_lock ms dbg i k = user_call 7 ms dbg i 0 k"

definition user_semaphore_try_lock :: "ptr \<Rightarrow> bool \<Rightarrow> usize \<Rightarrow> kernel \<Rightarrow> (bool \<times> bool \<times> kernel) option" where
  "user_semaphore_try_lock ms dbg i k = do { (sw, r, k) \<leftarrow> syscall ms dbg 8 i 0 k; r \<leftarrow> r; Some (sw, r \<noteq> 0, k) }"

definition user_semaphore_unlock :: "ptr \<Rightarrow> bool \<Rightarrow> usize \<Rightarrow> kernel \<Rightarrow> (bool \<times> kernel) option" where
  "user_semaphore_unlock ms dbg i k = user_call 9 ms dbg i 0 k"

definition SYS_BLOCK_YIELD :: usize where "SYS_BLOCK_YIELD = 1"
definition SYS_BLOCK_DESTROY :: usize where "SYS_BLOCK_DESTROY = 1"
definition SYS_BLOCK_SLEEP :: usize where "SYS_BLOCK_SLEEP = 1"

section \<open>The table of handlers after start-up\<close>

lemma int_of_on_int: "int_of (on_int f m) = f (int_of m)" "int_of (put_int s m) = s"
  by (simp_all add: on_int_def put_int_def int_of_def)

lemma find_slot_fresh: "int_handlers s v 1 = NULL \<Longrightarrow> find_slot v 1 s = Some 1"
  by (subst find_slot.simps) simp

text \<open>What the devices' part of start-up does to the interrupt side, in one function.\<close>

lemma registers_free:
  "int_handlers s v 0 = NULL \<Longrightarrow> reg_int_handler v h ht_first s = (True, set_handler v 0 h s)"
  "int_handlers s v 15 = NULL \<Longrightarrow> reg_int_handler v h ht_reg s = (True, set_handler v 15 h s)"
  "int_handlers s v 1 = NULL \<Longrightarrow> reg_int_handler v h ht_normal s = (True, set_handler v 1 h s)"
  by (simp_all add: reg_int_handler_def MAX_HANDLERS_def find_slot_fresh)

lemma handlers_kept [simp]:
  "int_handlers (pic_remap dev a b s) = int_handlers s" "int_handlers (set_pit_reset r s) = int_handlers s"
  "int_handlers (idt_init t e s) = int_handlers s" "int_handlers (outp p w s) = int_handlers s"
proof -
  have "int_handlers (fold (\<lambda>vec. idt_add_entry vec (e vec) (f vec)) vs s) = int_handlers s" for f vs s
    by (induction vs arbitrary: s) (auto simp: idt_add_entry_def)
  then show "int_handlers (idt_init t e s) = int_handlers s" by (simp add: idt_init_def)
qed (simp_all add: pic_remap_def set_pit_reset_def outp_def inp_def Let_def)

lemma gates_kept [simp]:
  "is_idt (set_handler v i h s) = is_idt s" "is_idt (set_pit_reset r s) = is_idt s"
  "is_idtr (set_handler v i h s) = is_idtr s" "is_idtr (set_pit_reset r s) = is_idtr s"
  "is_pit (set_handler v i h s) = is_pit s" "is_ports (set_handler v i h s) = is_ports s"
  by (simp_all add: set_handler_def set_pit_reset_def outp_def Let_def)

text \<open>The bytes sent to a port, in order.\<close>

definition sent :: "u16 \<Rightarrow> port_event list \<Rightarrow> u8 list" where
  "sent p es = concat (map (\<lambda>e. case e of Port_Out q v \<Rightarrow> if q = p then [v] else [] | Port_In q v \<Rightarrow> []) es)"

lemma sent_simps [simp]:
  "sent p [] = []" "sent p (es @ fs) = sent p es @ sent p fs"
  "sent p (Port_Out q v # es) = (if q = p then v # sent p es else sent p es)" "sent p (Port_In q v # es) = sent p es"
  by (simp_all add: sent_def)

lemma idt_init_ports: "is_ports (idt_init t e s) = is_ports s" "is_pit (idt_init t e s) = is_pit s"
proof -
  have "is_ports (fold (\<lambda>vec. idt_add_entry vec (e vec) (f vec)) vs s) = is_ports s \<and>
      is_pit (fold (\<lambda>vec. idt_add_entry vec (e vec) (f vec)) vs s) = is_pit s" for f vs s
    by (induction vs arbitrary: s) (auto simp: idt_add_entry_def)
  then show "is_ports (idt_init t e s) = is_ports s" "is_pit (idt_init t e s) = is_pit s" by (simp_all add: idt_init_def)
qed

lemma idt_init_idt: "is_idt s = is_idt s' \<Longrightarrow> is_idt (idt_init t e s) = is_idt (idt_init t e s')"
proof -
  assume h: "is_idt s = is_idt s'"
  have "is_idt (fold (\<lambda>vec. idt_add_entry vec (e vec) (f vec)) vs x) = is_idt (fold (\<lambda>vec. idt_add_entry vec (e vec) (f vec)) vs y)"
    if "is_idt x = is_idt y" for f vs x y
    using that by (induction vs arbitrary: x y) (auto simp: idt_add_entry_def)
  from this [of "s\<lparr>is_idtr := (16 * 256 - 1, t)\<rparr>" "s'\<lparr>is_idtr := (16 * 256 - 1, t)\<rparr>"] show ?thesis using h by (simp add: idt_init_def)
qed

lemma put_int_put_int [simp]: "put_int a (put_int b m) = put_int a m" by (simp add: put_int_def)

lemma put_int_simps [simp]:
  "ma_int (put_int s m) = s" "ma_kernel (put_int s m) = (ma_kernel m)\<lparr>k_sched := is_sched s\<rparr>"
  "ma_gdt (put_int s m) = ma_gdt m" "ma_vga (put_int s m) = ma_vga m" "ma_kbd (put_int s m) = ma_kbd m"
  by (simp_all add: put_int_def)

lemma set_pit_reset_pit: "pit_reset (is_pit (set_pit_reset r s)) = r" "nano_reset (is_pit (set_pit_reset r s)) = NANOSEC_PER_CLOCK * ucast r"
  by (simp_all add: set_pit_reset_def Let_def)

lemma remap_sent:
  "\<exists>x y. sent PICM_DATA (is_ports (set_pit_reset r (idt_init t e (pic_remap dev a b s)))) = sent PICM_DATA (is_ports s) @ [a, 4, 1, x] \<and>
    sent PICS_DATA (is_ports (set_pit_reset r (idt_init t e (pic_remap dev a b s)))) = sent PICS_DATA (is_ports s) @ [b, 2, 1, y]"
  by (simp add: set_pit_reset_def idt_init_ports pic_remap_def inp_def outp_def Let_def PICM_DATA_def PICS_DATA_def
      PICM_COMMAND_def PICS_COMMAND_def PIT_COMMAND_def PIT_CHANNEL_0_def ICW4_8086_def)

text \<open>
  C31: after the devices' part of start-up. From an empty table exactly the clock, the double fault
  and, for both the page fault and the general protection fault, the page fault handler are
  registered, each in its slot; every vector has the gate of its function; the timer counts down
  from 65535, 54918330 nanoseconds a period; the base of \<^verbatim>\<open>gs\<close> points to the kernel data and the screen is clear.
  Both interrupt controllers are told the same first vector, 32.
\<close>
theorem devices_ready:
  assumes "int_handlers (ma_int m) = (\<lambda>_ _. NULL)"
  shows "\<exists>m'. init_devices dev im m = Some m' \<and>
    (\<forall>v i. int_handlers (ma_int m') v i =
      (if v = 32 \<and> i = 0 then im_timer_irq_handler im else if v = 8 \<and> i = 0 then im_double_fault im
       else if (v = 13 \<or> v = 14) \<and> i = 1 then im_page_fault im else NULL)) \<and>
    is_idt (ma_int m') = is_idt (idt_init (im_idt im) (im_entry im) (ma_int m)) \<and>
    pit_reset (is_pit (ma_int m')) = 65535 \<and> nano_reset (is_pit (ma_int m')) = 54918330 \<and>
    k_msr (ma_kernel m') GSBASE_MSR = im_kdata im \<and> ma_vga m' = vga_clear (ma_vga m) \<and>
    (\<exists>x y. sent PICM_DATA (is_ports (ma_int m')) = sent PICM_DATA (is_ports (ma_int m)) @ [32, 4, 1, x] \<and>
      sent PICS_DATA (is_ports (ma_int m')) = sent PICS_DATA (is_ports (ma_int m)) @ [32, 2, 1, y])"
proof -
  let ?i = "idt_init (im_idt im) (im_entry im) (pic_remap dev PICM_OFFSET PICM_OFFSET (int_of m))"
  let ?t = "set_handler 32 0 (im_timer_irq_handler im) (set_pit_reset 65535 ?i)"
  let ?d = "set_handler 8 0 (im_double_fault im) ?t"
  let ?p = "set_handler 14 1 (im_page_fault im) ?d"
  let ?g = "set_handler 13 1 (im_page_fault im) ?p"
  have z: "int_handlers (int_of m) = (\<lambda>_ _. NULL)" using assms by (simp add: int_of_def)
  have t: "time_init (im_timer_irq_handler im) ?i = Some ?t"
    by (simp add: time_init_def registers_free z IRQ_TIMER_def PICM_OFFSET_def)
  have r: "reg_int_handler EXC_DOUBLE_FAULT (im_double_fault im) ht_first ?t = (True, ?d)"
    "reg_int_handler EXC_PAGE_FAULT (im_page_fault im) ht_normal ?d = (True, ?p)"
    "reg_int_handler EXC_GENERAL_PROTECTION_FAULT (im_page_fault im) ht_normal ?p = (True, ?g)"
    by (simp_all add: registers_free set_handler_slot z EXC_DOUBLE_FAULT_def EXC_PAGE_FAULT_def EXC_GENERAL_PROTECTION_FAULT_def)
  let ?m = "m\<lparr>ma_vga := vga_clear (ma_vga m), ma_gdt := gdt_init (im_gdt im) (im_tss im) (ma_gdt m)\<rparr>"
  let ?m' = "(put_int ?g ?m)\<lparr>ma_kernel := kdata_init (im_kdata im) (ma_kernel (put_int ?g ?m))\<rparr>"
  have "int_of ?m = int_of m" by (simp add: int_of_def)
  then have run: "init_devices dev im m = Some ?m'"
    using t r by (simp add: init_devices_def on_int_def int_of_on_int)
  have idt: "is_idt ?g = is_idt (idt_init (im_idt im) (im_entry im) (ma_int m))"
    unfolding gates_kept by (rule idt_init_idt) (simp add: pic_remap_def outp_def inp_def Let_def int_of_def)
  have pit: "pit_reset (is_pit ?g) = 65535 \<and> nano_reset (is_pit ?g) = 54918330"
    unfolding gates_kept set_pit_reset_pit by (simp add: NANOSEC_PER_CLOCK_def)
  have tab: "int_handlers ?g v i =
      (if v = 32 \<and> i = 0 then im_timer_irq_handler im else if v = 8 \<and> i = 0 then im_double_fault im
       else if (v = 13 \<or> v = 14) \<and> i = 1 then im_page_fault im else NULL)" for v i
    by (simp add: set_handler_slot z)
  have ports: "\<exists>x y. sent PICM_DATA (is_ports ?g) = sent PICM_DATA (is_ports (ma_int m)) @ [32, 4, 1, x] \<and>
      sent PICS_DATA (is_ports ?g) = sent PICS_DATA (is_ports (ma_int m)) @ [32, 2, 1, y]"
    using remap_sent [of 65535 "im_idt im" "im_entry im" dev PICM_OFFSET PICM_OFFSET "int_of m"]
    unfolding gates_kept by (simp add: int_of_def PICM_OFFSET_def)
  have gs: "k_msr (kdata_init d k) GSBASE_MSR = d" for d k
    by (simp add: kdata_init_def wrmsr_def GSBASE_MSR_def GSBASEK_MSR_def)
  have e: "ma_int ?m' = ?g" "ma_vga ?m' = vga_clear (ma_vga m)" "ma_kernel ?m' = kdata_init (im_kdata im) (ma_kernel (put_int ?g ?m))"
    by simp_all
  show ?thesis
    by (intro exI [of _ ?m'] conjI allI) (simp_all only: e run tab idt pit gs ports)
qed

definition ex_image :: image where
  "ex_image = \<lparr>im_gdt = 0x1000, im_tss = 0x1100, im_idt = 0x2000, im_kdata = 0x3000, im_heap = 0x4000, im_text_start = 0x5000,
     im_kernel_end = 0x6000, im_kernel_vma = 0, im_PDP_table = 0x7000, im_entry = \<lambda>v. 0x8000 + ucast v, im_syscall_entry = 0x9000,
     im_timer_irq_handler = 0x9100, im_sched_time_handler = 0x9200, im_sched_int_handler = 0x9300, im_thread_cleaner = 0x9400,
     im_double_fault = 0x9500, im_page_fault = 0x9600, im_ps2_int_handler = 0x9700, im_kbd_p = 0x9800, im_initfs = 0xa000, im_initfs_len = 0\<rparr>"

definition ex_machine :: machine where
  "ex_machine = \<lparr>ma_kernel = ex_kernel_state (\<lambda>_. 16), ma_int = ex_ints\<lparr>int_handlers := \<lambda>_ _. NULL\<rparr>,
     ma_gdt = \<lparr>gdt_entries = \<lambda>_. \<lparr>g_limit_1 = 0, g_base_1 = 0, g_base_2 = 0, g_access = 0, g_limit_2 = 0, g_flags = 0, g_base_3 = 0\<rparr>,
       gdt_tss = \<lparr>t_limit_1 = 0, t_base_1 = 0, t_base_2 = 0, t_acces = 0, t_limit_2 = 0, t_flags = 0, t_base_3 = 0, t_base_4 = 0, t_zero = 0\<rparr>,
       tss_iomap = 0, gdt_loaded = (0, 0), tr_loaded = 0, data_segments = 0\<rparr>,
     ma_vga = ex_vga, ma_kbd = kbd0\<rparr>"

lemma devices_ready_witness:
  "\<exists>m'. init_devices (\<lambda>_ _. 0) ex_image ex_machine = Some m' \<and> int_handlers (ma_int m') 32 0 = 0x9100 \<and> int_handlers (ma_int m') 13 1 = 0x9600 \<and>
     nano_reset (is_pit (ma_int m')) = 54918330"
proof -
  have "int_handlers (ma_int ex_machine) = (\<lambda>_ _. NULL)" by (simp add: ex_machine_def)
  from devices_ready [OF this, of "\<lambda>_ _. 0" ex_image] obtain m' where
    m: "init_devices (\<lambda>_ _. 0) ex_image ex_machine = Some m'"
    "\<forall>v i. int_handlers (ma_int m') v i =
      (if v = 32 \<and> i = 0 then im_timer_irq_handler ex_image else if v = 8 \<and> i = 0 then im_double_fault ex_image
       else if (v = 13 \<or> v = 14) \<and> i = 1 then im_page_fault ex_image else NULL)"
    "nano_reset (is_pit (ma_int m')) = 54918330" by blast
  have "im_timer_irq_handler ex_image = 0x9100" "im_page_fault ex_image = 0x9600" by (simp_all add: ex_image_def)
  with m show ?thesis by simp
qed

section \<open>The keyboard is echoed\<close>

lemma consume_length: "length (fst (consume n st q)) \<le> length q"
  by (induction n st q rule: consume.induct) (auto simp: Let_def split: prod.splits)

lemma consume_all: "length q \<le> n \<Longrightarrow> snd (snd (consume n st q)) = []"
  by (induction n st q rule: consume.induct) (auto simp: Let_def split: prod.splits)

text \<open>No key gives one of the two commands of the terminal.\<close>

lemma keys_plain: "list_all (\<lambda>(_, a, b). list_all (\<lambda>c. c \<notin> {1, 2} \<and> caps_swap c \<notin> {1, 2}) [ch a, ch b]) (keys_top @ keys_mid @ keys_pad)"
  by code_simp

lemma scan_toc_plain: "scan_toc st x \<noteq> TTY_SET_COLOR \<and> scan_toc st x \<noteq> TTY_SET_POSITION"
proof -
  have k: "c \<notin> {1, 2} \<and> caps_swap c \<notin> {1, 2}"
    if "(x, a, b) \<in> set (keys_top @ keys_mid) \<or> (x, a, b) \<in> set keys_pad" "c = ch a \<or> c = ch b" for x a b c
  proof -
    have "(x, a, b) \<in> set (keys_top @ keys_mid @ keys_pad)" using that(1) by auto
    with keys_plain that(2) show ?thesis unfolding list_all_iff by fastforce
  qed
  have z: "(0 :: u8) \<notin> {1, 2} \<and> caps_swap 0 \<notin> {1, 2}" by (simp add: caps_swap_def)
  have "scan_case st x \<notin> {1, 2} \<and> caps_swap (scan_case st x) \<notin> {1, 2}"
  proof (cases "map_of (keys_top @ keys_mid) x")
    case (Some p)
    then have "(x, fst p, snd p) \<in> set (keys_top @ keys_mid)" using map_of_SomeD by fastforce
    moreover have "scan_case st x = ch (if shift st \<noteq> 0 then fst p else snd p)" using Some by (simp add: scan_case_def split_beta)
    ultimately show ?thesis by (intro k [OF disjI1]) auto
  next
    case None
    note n = None
    show ?thesis
    proof (cases "map_of keys_pad x")
      case (Some p)
      then have "(x, fst p, snd p) \<in> set keys_pad" using map_of_SomeD by fastforce
      moreover have "scan_case st x = ch (if numlock st then fst p else snd p)" unfolding scan_case_def n option.case Some by (simp add: split_beta)
      ultimately show ?thesis by (intro k [OF disjI2]) auto
    next
      case None
      have "scan_case st x = 0" by (simp only: scan_case_def n None option.case)
      show ?thesis unfolding \<open>scan_case st x = 0\<close> by (rule z)
    qed
  qed
  then show ?thesis by (simp add: scan_toc_def Let_def TTY_SET_COLOR_def TTY_SET_POSITION_def)
qed

lemma consume_chars:
  assumes "\<And>st x. scan_toc st x \<noteq> 0 \<Longrightarrow> P (scan_toc st x)"
  shows "list_all P (fst (consume n st q))"
  using assms by (induction n st q rule: consume.induct) (simp_all add: Let_def split_beta)

lemma consume_plain: "list_all (\<lambda>c. c \<noteq> 0 \<and> c \<noteq> TTY_SET_COLOR \<and> c \<noteq> TTY_SET_POSITION) (fst (consume n st q))"
  by (rule consume_chars) (simp add: scan_toc_plain)

lemma cstr_cong: "cstr m p t \<Longrightarrow> (\<And>a. a \<in> span p (length t + 1) \<Longrightarrow> m' a = m a) \<Longrightarrow> cstr m' p t"
proof -
  assume c: "cstr m p t" and e: "\<And>a. a \<in> span p (length t + 1) \<Longrightarrow> m' a = m a"
  have "m' (p + of_nat i) = m (p + of_nat i)" if "i < length t + 1" for i by (rule e) (use that in \<open>auto simp: span_def\<close>)
  then show ?thesis using c by (simp add: cstr_def bytes_at_def)
qed

lemma echo_string:
  assumes "length out \<le> 31" "0 \<notin> set out"
  shows "cstr (write_at s out (memset s 32 0 m)) s out"
proof -
  let ?m = "write_at s out (memset s 32 0 m)"
  have "s + of_nat (length out) \<notin> span s (length out)"
  proof
    assume "s + of_nat (length out) \<in> span s (length out)"
    then have "\<exists>i. (of_nat (length out) :: ptr) = of_nat i \<and> i < length out" by (simp add: span_def)
    then obtain i where i: "(of_nat (length out) :: ptr) = of_nat i" "i < length out" by blast
    have "length out < 2 ^ 64" "i < 2 ^ 64" using assms(1) i(2) by simp_all
    from of_nat_neq [OF this] i show False by simp
  qed
  then have "?m (s + of_nat (length out)) = memset s 32 0 m (s + of_nat (length out))" by (rule write_at_other)
  also have "s + of_nat (length out) \<in> span s 32" using assms(1) by (force simp: span_def)
  then have "memset s 32 0 m (s + of_nat (length out)) = 0" by (simp add: memset_eq)
  finally have z: "?m (s + of_nat (length out)) = 0" .
  have "bytes_at ?m s out" by (rule write_at_read) (use assms(1) in simp)
  then have "bytes_at ?m s (out @ [0])" unfolding bytes_at_append using z by (simp add: bytes_at_def)
  then show ?thesis using assms by (simp add: cstr_def)
qed

text \<open>
  C32: typing is echoed. The handler of the keyboard takes every waiting scancode and shows the
  characters they mean, and nothing else, on the terminal, as its meaning says; the modifier keys
  are applied and the queue is empty afterwards. The 32 bytes of its buffer are enough for the 31
  scancodes that can wait.
\<close>
theorem kbd_echo:
  assumes "kbd_inv k" and "length (kbd_queue k) \<le> 31" and "consume 32 (kbd_status k) (kbd_queue k) = (out, st, r)"
    and "on_screen v" and "cstr m (lit ''%s'') (map ch ''%s'')" and "span (lit ''%s'') 3 \<inter> span s 32 = {}"
    and "span (lit ''%s'') 2 \<inter> span buf 32 = {}" and "span s 32 \<inter> span buf 32 = {}"
  shows "\<exists>m' k' v'. kbd_p lit buf s m k v = Some (None, m', k', v') \<and> kbd_inv k' \<and> kbd_queue k' = [] \<and> kbd_status k' = st \<and>
    on_screen v' \<and> (vga_color v', a_vga v') = fold a_do (map TChar out) (vga_color v, a_vga v)"
proof -
  note c = consume_length [of 32 "kbd_status k" "kbd_queue k"] consume_plain [of 32 "kbd_status k" "kbd_queue k"]
    consume_all [of "kbd_queue k" 32 "kbd_status k"]
  have o: "length out \<le> 31" "0 \<notin> set out" "r = []"
    "list_all (\<lambda>c. c \<noteq> TTY_SET_COLOR \<and> c \<noteq> TTY_SET_POSITION) out"
    using c assms(2) unfolding assms(3) fst_conv snd_conv by (auto simp: list_all_iff)
  let ?m = "memset s 32 0 m"
  let ?w = "write_at s out ?m"
  have u: "unat (32 :: u8) = 32" by simp
  from kbd_read_refines [OF assms(1) assms(3) [folded u], of s ?m] obtain k' where
    k: "kbd_read s 32 ?m k = Some (of_nat (length out), ?w, k')" "kbd_inv k'" "kbd_status k' = st" "kbd_queue k' = r" by blast
  have z: "(of_nat (length out) :: u8) = 0 \<longleftrightarrow> out = []"
  proof -
    have "unat (of_nat (length out) :: u8) = length out" using o(1) by (simp add: unat_of_nat)
    moreover have "(of_nat (length out) :: u8) = 0 \<longleftrightarrow> unat (of_nat (length out) :: u8) = 0" by (simp only: word_unat_eq_iff unat_0)
    ultimately show ?thesis by (simp only: length_0_conv)
  qed
  show ?thesis
  proof (cases "out = []")
    case True
    with k z o(3) assms(4) show ?thesis by (simp add: kbd_p_def)
  next
    case False
    have "?w a = m a" if "a \<in> span (lit ''%s'') (length (map ch ''%s'') + 1)" for a
    proof -
      have "span s (length out) \<subseteq> span s 32" using o(1) by (force simp: span_def)
      moreover have "length (map ch ''%s'') + 1 = 3" by simp
      then have "a \<notin> span s 32" using that assms(6) by (metis disjoint_iff)
      ultimately show ?thesis using write_at_other [of a s out ?m] by (auto simp: memset_eq)
    qed
    from cstr_cong [OF assms(5) this] have f: "cstr ?w (lit ''%s'') (fmt_string [FStr s out])" by simp
    have "span s (length out + 1) \<subseteq> span s 32" using o(1) by (force simp: span_def)
    then have ok: "\<forall>it \<in> set [FStr s out]. fmt_ok (\<lambda>c. c \<noteq> TTY_SET_COLOR \<and> c \<noteq> TTY_SET_POSITION) buf ?w it"
      using echo_string [OF o(1,2)] o(4) assms(8) by auto
    have "length (fmt_string [FStr s out]) = 2" by simp
    with assms(7) have sp: "span (lit ''%s'') (length (fmt_string [FStr s out])) \<inter> span buf 32 = {}" by (simp only:)
    note t = tty.kprintf_items [OF f ok sp, of "[]"] and d = tty_fold_spec [OF assms(4) tty_items_fit, of "[FStr s out]"]
    have "\<exists>v'. kprintf buf (lit ''%s'') [s] ?w v = Some v' \<and> on_screen v' \<and>
        (vga_color v', a_vga v') = fold a_do (map TChar out) (vga_color v, a_vga v)"
      using t d by (simp add: kprintf_def kvprintf_def tty_emit_fold tty_fold_chars)
    then show ?thesis using k z False o(3) by (auto simp: kbd_p_def)
  qed
qed

definition ex_lit :: "string \<Rightarrow> ptr" where "ex_lit s = 12288"

lemma kbd_echo_witness:
  "\<exists>m' k' v'. kbd_p ex_lit 4096 8192 (write_at 12288 (map ch ''%s'') (\<lambda>_. 0)) ex_kbd ex_vga = Some (None, m', k', v') \<and>
     kbd_queue k' = [] \<and> (vga_color v', a_vga v') = fold a_do (map (TChar \<circ> ch) ''Hi'') (15, a_vga ex_vga)"
proof -
  let ?m = "write_at 12288 (map ch ''%s'') (\<lambda>_. 0)"
  have v: "on_screen ex_vga" "vga_color ex_vga = 15" by (simp_all add: on_screen_def ex_vga_def)
  have q: "length (kbd_queue ex_kbd) \<le> 31" by (simp add: ex_kbd_ok)
  have c: "consume 32 (kbd_status ex_kbd) (kbd_queue ex_kbd) = (map ch ''Hi'', \<lparr>shift = 0, capslock = False, numlock = False\<rparr>, [])"
    unfolding ex_kbd_ok by code_simp
  have f: "cstr ?m (ex_lit ''%s'') (map ch ''%s'')"
    by (simp add: cstr_def bytes_at_def ex_lit_def less_Suc_eq)
  have s: "span p i \<inter> span q j = {}" if "unat p + i \<le> unat q" "unat q + j < 2 ^ 64" for p q i j
  proof -
    have "False" if x: "p + of_nat a = q + of_nat b" "a < i" "b < j" for a b
    proof -
      have "unat (p + of_nat a) = unat p + a" "unat (q + of_nat b) = unat q + b"
        using \<open>unat p + i \<le> unat q\<close> \<open>unat q + j < 2 ^ 64\<close> x(2,3) by (simp_all add: unat_add_noov unat_of_nat_small)
      then show False using x \<open>unat p + i \<le> unat q\<close> by simp
    qed
    then show ?thesis unfolding span_def by blast
  qed
  have d: "span (ex_lit ''%s'') 3 \<inter> span 8192 32 = {}" "span (ex_lit ''%s'') 2 \<inter> span 4096 32 = {}" "span 8192 32 \<inter> span 4096 32 = {}"
    using s [of 8192 32 12288 3] s [of 4096 32 12288 2] s [of 4096 32 8192 32] by (simp_all add: ex_lit_def Int_commute)
  from kbd_echo [where lit = ex_lit, OF ex_kbd_ok(1) q c v(1) f d] show ?thesis unfolding v(2) by auto
qed

section \<open>The cleaner\<close>

text \<open>A block below a free chunk is not given back.\<close>

definition lost :: "ptr \<Rightarrow> chunk list \<Rightarrow> ptr \<Rightarrow> usize \<Rightarrow> bool" where
  "lost ms cs q n \<longleftrightarrow> chunk_ok (q, round16 n) \<and> 16 dvd unat q \<and> (\<forall>c \<in> set ((ms, 0) # cs). away c (q, round16 n)) \<and> (\<exists>c \<in> set cs. q < fst c)"

lemma op_delete_lost:
  assumes h: "heap_ok ms (pm_bytes (mm_pm s)) cs" "\<And>c d. c \<in> set cs \<Longrightarrow> d \<in> set cs \<Longrightarrow> unat (fst c) + unat (snd d) < 2 ^ 64"
    and q: "lost ms cs q n" and n: "n \<noteq> 0" "unat n < 2 ^ 63"
  shows "op_delete ms q n s = Some s"
proof -
  have q': "chunk_ok (q, round16 n)" "16 dvd unat q" "\<And>c. c \<in> set ((ms, 0) # cs) \<Longrightarrow> away c (q, round16 n)" "\<exists>c \<in> set cs. q < fst c"
    using q by (auto simp: lost_def)
  have "cs \<noteq> []" using q'(4) by auto
  from kfree_spec [OF h(1) this h(2) q'(1,2) n q'(3)] obtain m' where
    m: "kfree ms q n s = Some (upd_bytes (\<lambda>_. m') s)"
      "if \<exists>c \<in> set cs. q < fst c then m' = pm_bytes (mm_pm s) else heap_ok ms m' (cs @ [(q, round16 n)]) \<and> (\<forall>b. (\<forall>c \<in> set ((ms, 0) # cs @ [(q, round16 n)]). b \<notin> body c) \<longrightarrow> m' b = pm_bytes (mm_pm s) b)"
    by blast
  have "m' = pm_bytes (mm_pm s)" using m(2) q'(4) by (simp only: if_True)
  then have "upd_bytes (\<lambda>_. m') s = s" by (simp add: upd_bytes_def)
  then show ?thesis using m(1) by (simp add: op_delete_def)
qed

lemma cleaner_loop_spec:
  assumes r: "ready_to_run (k_sched k) sids xss"
    and d: "\<And>t. t \<in> set (xss 2) \<Longrightarrow> th_stack_size (s_threads (k_sched k) t) \<noteq> 0 \<and> \<not> th_process_alive (s_threads (k_sched k) t)"
    and o: "\<And>t. t \<in> set (xss 2) \<Longrightarrow> op_delete ms t THREAD_SIZE (k_mm k) = Some (k_mm k)"
  shows "\<exists>s'. thread_cleaner_loop ms k = Some (False, k\<lparr>k_sched := s'\<rparr>) \<and> ready_to_run s' sids (xss(2 := [])) \<and>
    frame2 (k_sched k) s' \<and> thread_c s' = thread_c (k_sched k) \<and> s_threads s' = s_threads (k_sched k) \<and> s_sems s' = s_sems (k_sched k) \<and>
    r_cs (cpu s') = r_cs (cpu (k_sched k))"
  using assms
proof (induction "xss 2" arbitrary: xss k)
  case Nil
  have f: "fam (k_sched k) sids xss" using Nil(2) by (simp add: ready_to_run_def base_def)
  have "l_len (t_list (k_sched k) 2) = 0" using fam_len_0 [OF f, of 2] Nil(1) by simp
  moreover have "xss(2 := []) = xss" using Nil(1) by auto
  ultimately show ?case using Nil(2)
    by (intro exI [of _ "lock (k_sched k)"], subst thread_cleaner_loop.simps) (simp add: Let_def frame2_def)
next
  case (Cons t ts)
  let ?s = "lock (k_sched k)"
  have b: "base ?s sids xss" "current_ok ?s xss" using Cons(3) by (simp_all add: ready_to_run_def)
  have f: "fam ?s sids xss" using b(1) by (simp add: base_def)
  have n: "l_len (t_list (k_sched k) 2) \<noteq> 0" using fam_len_0 [OF f, of 2] Cons(2) by auto
  from tl_pop_start_fam [OF f _ Cons(2) [symmetric]] obtain tls where
    p: "tl_pop_start 2 ?s = Some (t, ?s\<lparr>t_list := tls\<rparr>)" "fam (?s\<lparr>t_list := tls\<rparr>) sids (xss(2 := ts))" "caches 2 t (t_list ?s) tls" by auto
  let ?u = "unlock (?s\<lparr>t_list := tls\<rparr>)"
  have tin: "t \<in> set (xss 2)" unfolding Cons(2) [symmetric] by simp
  have t0: "t \<noteq> NULL" using fam_distinct [OF f, of 2] tin by auto
  have dead: "th_stack_size (s_threads (k_sched k) t) \<noteq> 0" "\<not> th_process_alive (s_threads (k_sched k) t)" using Cons(4) [OF tin] by simp_all
  have del: "thread_delete ms t (k\<lparr>k_sched := ?u\<rparr>) = Some (False, k\<lparr>k_sched := ?u\<rparr>)"
    using t0 dead(2) Cons(5) [OF tin] by (simp add: thread_delete_def Let_def k_on_mm_def)
  have step: "thread_cleaner_loop ms k = thread_cleaner_loop ms (k\<lparr>k_sched := ?u\<rparr>)"
    using n p(1) dead(1) del by (subst thread_cleaner_loop.simps) (simp add: Let_def with_sched_def)
  let ?k = "k\<lparr>k_sched := ?u\<rparr>"
  have "states_ok ?u sids (xss(2 := ts))"
    using b(1) Cons(2) [symmetric] by (auto simp: base_def states_ok_def)
  moreover have "cache_ok (tls 3) ((xss(2 := ts)) 3)"
    using caches_ok [OF p(3), of "xss 3" "xss 3" "[]"] b(1) by (simp add: base_def)
  ultimately have "base ?u sids (xss(2 := ts))" using p(2) by (simp add: base_def)
  moreover have "current_ok ?u (xss(2 := ts))" using b(2) by (simp add: current_ok_def)
  ultimately have r: "ready_to_run (k_sched ?k) sids (xss(2 := ts))" using Cons(3) by (simp add: ready_to_run_def)
  have d': "th_stack_size (s_threads (k_sched ?k) x) \<noteq> 0 \<and> \<not> th_process_alive (s_threads (k_sched ?k) x)" if "x \<in> set ((xss(2 := ts)) 2)" for x
    using that Cons(2) [symmetric] Cons(4) [of x] by simp
  have o': "op_delete ms x THREAD_SIZE (k_mm ?k) = Some (k_mm ?k)" if "x \<in> set ((xss(2 := ts)) 2)" for x
    using that Cons(2) [symmetric] Cons(5) [of x] by simp
  have e: "ts = (xss(2 := ts)) 2" by simp
  from Cons(1) [OF e r d' o'] obtain s' where
    x: "thread_cleaner_loop ms ?k = Some (False, ?k\<lparr>k_sched := s'\<rparr>)" "ready_to_run s' sids ((xss(2 := ts))(2 := []))"
      "frame2 (k_sched ?k) s'" "thread_c s' = thread_c (k_sched ?k)" "s_threads s' = s_threads (k_sched ?k)" "s_sems s' = s_sems (k_sched ?k)"
      "r_cs (cpu s') = r_cs (cpu (k_sched ?k))" by blast
  have "frame2 (k_sched k) s'" using x(3) by (simp add: frame2_def)
  then show ?case unfolding step using x by (intro exI [of _ s']) simp
qed

text \<open>
  C33: one round of the cleaner. It takes every thread that was killed off the list, puts itself to sleep
  for 0.3 seconds and hands over to the first ready thread. But the memory of a thread that lies below
  a free chunk of the heap, where first fit puts it, is lost: the heap after the round is the
  heap before it.
\<close>
theorem cleaner_loses_threads:
  assumes "ready_to_run (k_sched k) sids xss" and "kernel (k_sched k)" and "xss 0 = [thread_c (k_sched k)]"
    and "unat (clock (k_sched k)) + 300000000 < 2 ^ 64"
    and "\<And>t. t \<in> set (xss 2) \<Longrightarrow> th_stack_size (s_threads (k_sched k) t) \<noteq> 0 \<and> \<not> th_process_alive (s_threads (k_sched k) t)"
    and "heap_ok ms (k_bytes k) cs" and "\<And>c d. c \<in> set cs \<Longrightarrow> d \<in> set cs \<Longrightarrow> unat (fst c) + unat (snd d) < 2 ^ 64"
    and "\<And>t. t \<in> set (xss 2) \<Longrightarrow> lost ms cs t THREAD_SIZE"
  shows "\<exists>k'. thread_cleaner_round ms k = Some (xss 1 \<noteq> [], k') \<and> k_mm k' = k_mm k \<and>
    ready_to_run (k_sched k') sids (a_switch (a_move 0 3 (thread_c (k_sched k)) (xss(2 := [])))) \<and>
    th_sleep_time (s_threads (k_sched k') (thread_c (k_sched k))) = clock (k_sched k) + 300000000"
proof -
  have z: "THREAD_SIZE \<noteq> 0" "unat THREAD_SIZE < 2 ^ 63" by (simp_all add: THREAD_SIZE_def)
  from cleaner_loop_spec [OF assms(1,5) op_delete_lost [OF assms(6-8) z]] obtain s1 where
    l: "thread_cleaner_loop ms k = Some (False, k\<lparr>k_sched := s1\<rparr>)" "ready_to_run s1 sids (xss(2 := []))"
      "frame2 (k_sched k) s1" "thread_c s1 = thread_c (k_sched k)" "r_cs (cpu s1) = r_cs (cpu (k_sched k))" by blast
  let ?s = "unlock s1" and ?c = "thread_c (k_sched k)"
  have r: "ready_to_run ?s sids (xss(2 := []))" and ke: "kernel ?s" and c: "?c = thread_c ?s" "clock ?s = clock (k_sched k)"
    using l assms(2) by (simp_all add: kernel_def frame2_def)
  have u: "unat (clock (k_sched k) + 300000000) = unat (clock (k_sched k)) + 300000000"
    using assms(4) by (subst unat_add_noov) simp_all
  have lt: "clock ?s < clock ?s + 300000000" unfolding c(2) by (simp add: word_less_nat_alt u)
  have x0: "(xss(2 := [])) 0 = [?c]" using assms(3) by simp
  from nsleep_until_spec [OF r ke c(1) x0, of "clock ?s + 300000000"] obtain s2 where
    n: "nsleep_until ?c (clock ?s + 300000000) ?s = Some (xss 1 \<noteq> [], s2)"
      "ready_to_run s2 sids (a_switch (a_move 0 3 ?c (xss(2 := []))))" "th_sleep_time (s_threads s2 ?c) = clock ?s + 300000000"
    using lt by auto
  have "thread_cleaner_round ms k = Some (xss 1 \<noteq> [], k\<lparr>k_sched := s2\<rparr>)"
    using l(1,4) n(1) by (simp add: thread_cleaner_round_def with_sched_def nsleep_def)
  then show ?thesis using n(2,3) c(2) by (intro exI [of _ "k\<lparr>k_sched := s2\<rparr>"]) simp
qed

lemma cleaner_loses_threads_witness:
  "\<exists>k k' xss. xss 2 = [80] \<and> fam (k_sched k) [4096] xss \<and> thread_cleaner_round 0x1000 k = Some (True, k') \<and> k_mm k' = k_mm k"
proof -
  let ?e = "ex_kernel_state (\<lambda>_. 16)" and ?x = "ex_xss [112]"
  have e: "k_sched ?e = ex_sched [112]" by (simp add: ex_kernel_state_def)
  have i: "base (ex_sched [112]) [4096] ?x" "current_ok (ex_sched [112]) ?x"
    using ex_inv [of "[112]"] by (simp_all add: sched_inv_def ready_to_run_def)
  have t: "(1 :: nat) < 16" "(2 :: nat) < 16" "80 \<in> set (?x 1)" "(1 :: nat) = 3 \<Longrightarrow> l_current (t_list (ex_sched [112]) 3) \<in> {80, NULL}"
    "(2 :: nat) \<noteq> 0" by (simp_all add: ex_xss_def)
  from move_to_spec [OF i(1) t(1-4)] obtain h tls where
    m: "base (moved 80 (of_nat 2) h tls (ex_sched [112])) [4096] (a_move 1 2 80 ?x)" by blast
  let ?m = "moved 80 (of_nat 2) h tls (ex_sched [112])"
  let ?s = "set_thread 80 (\<lambda>x. x\<lparr>th_process_alive := False\<rparr>) ?m"
  let ?k = "?e\<lparr>k_sched := ?s\<rparr>"
  let ?y = "a_move 1 2 80 ?x"
  have c: "current_ok ?m ?y" by (rule current_ok_move [OF i t(1,2,5,3)])
  have "base ?s [4096] ?y" by (rule base_upd [OF m]) (simp_all add: set_thread_def)
  moreover have "thread_c ?m = 16" by (simp add: ex_sched_def)
  then have "current_ok ?s ?y" using c by (simp add: current_ok_def)
  ultimately have r: "ready_to_run (k_sched ?k) [4096] ?y" by (simp add: ready_to_run_def ex_sched_def)
  have y: "?y 0 = [16]" "?y 1 = [64]" "?y 2 = [80]" by (simp_all add: a_move_def ex_xss_def)
  have ke: "kernel (k_sched ?k)" using ex_kernel [of "[112]"] by (simp add: kernel_def)
  have x0: "?y 0 = [thread_c (k_sched ?k)]" unfolding y by (simp add: ex_sched_def)
  have cl: "unat (clock (k_sched ?k)) + 300000000 < 2 ^ 64" by (simp add: ex_sched_def)
  have d: "th_stack_size (s_threads (k_sched ?k) u) \<noteq> 0 \<and> \<not> th_process_alive (s_threads (k_sched ?k) u)" if "u \<in> set (?y 2)" for u
    using that unfolding y by (simp add: ex_sched_def ex_thread_def STACK_INITIAL_SIZE_def)
  have hp: "heap_ok 0x1000 (k_bytes ?k) [(0x2000, 0x100000)]" using ex_kernel_heap by simp
  have nw: "unat (fst a) + unat (snd b) < 2 ^ 64" if "a \<in> set [(0x2000, 0x100000) :: chunk]" "b \<in> set [(0x2000, 0x100000) :: chunk]" for a b
    using that by simp
  have lo: "lost 0x1000 [(0x2000, 0x100000)] u THREAD_SIZE" if "u \<in> set (?y 2)" for u
    using that unfolding y by (simp add: lost_def round16_class chunk_ok_def away_def)
  from cleaner_loses_threads [OF r ke x0 cl d hp nw lo] obtain k' where
    "thread_cleaner_round 0x1000 ?k = Some (?y 1 \<noteq> [], k')" "k_mm k' = k_mm ?k" by blast
  moreover have "fam (k_sched ?k) [4096] ?y" using r by (simp add: ready_to_run_def base_def)
  ultimately show ?thesis using y by (intro exI [of _ ?k] exI [of _ k'] exI [of _ ?y]) simp
qed

end
