(* ===== verification/Spinlock.thy ===== *)
theory Spinlock
  imports Prelude
begin

text \<open>
  The spinlock: \<^verbatim>\<open>src/sync/spinlock.cpp\<close> over the instructions of
  \<^verbatim>\<open>src/arch/x64/sync/spinlock.asm\<close>, interleaved for any number of processors. Mutual exclusion is
  an invariant of the runs in which \<^verbatim>\<open>al\<close> is not 0 at a call, and fails without that.
\<close>

section \<open>Instructions\<close>

text \<open>
  Where a processor is in \<^verbatim>\<open>spin_lock\<close> and \<^verbatim>\<open>spin_try_lock\<close>: a comparison with its jump is one
  step, since only the comparison reads the shared byte. \<open>Held\<close> is between the return of a call that
  got the lock and \<^verbatim>\<open>unlock\<close>.
\<close>

datatype spin_pc = Out | Held | Cmp | Mov | Retry | Test | Spin | Spin_Cmp
  | Try_Cmp | Try_Mov | Try_Xchg | Try_Test | Try_Fail | Try_Ret

text \<open>One step of a processor at a place, with its register \<^verbatim>\<open>al\<close> and the shared byte.\<close>

fun spin_step :: "spin_pc \<Rightarrow> u8 \<Rightarrow> u8 \<Rightarrow> spin_pc \<times> u8 \<times> u8" where
  "spin_step Cmp al b = (if b \<noteq> 0 then Spin else Mov, al, b)"
| "spin_step Mov al b = (Retry, 1, b)"
| "spin_step Retry al b = (Test, b, al)"
| "spin_step Test al b = (if al \<noteq> 0 then Spin else Held, al, b)"
| "spin_step Spin al b = (Spin_Cmp, al, b)"
| "spin_step Spin_Cmp al b = (if b \<noteq> 0 then Spin else Retry, al, b)"
| "spin_step Try_Cmp al b = (if b \<noteq> 0 then Try_Fail else Try_Mov, al, b)"
| "spin_step Try_Mov al b = (Try_Xchg, 1, b)"
| "spin_step Try_Xchg al b = (Try_Test, b, al)"
| "spin_step Try_Test al b = (if al \<noteq> 0 then Try_Fail else Try_Ret, al, b)"
| "spin_step Try_Fail al b = (Try_Ret, 0, b)"
| "spin_step pc al b = (pc, al, b)"

section \<open>The class and its callers\<close>

record spinlock =
  sl_locked :: u8

definition spinlock_new :: spinlock where "spinlock_new = \<lparr>sl_locked = 0\<rparr>"

definition spinlock_unlock :: "spinlock \<Rightarrow> spinlock" where "spinlock_unlock l = l\<lparr>sl_locked := 0\<rparr>"

text \<open>\<^verbatim>\<open>try_lock\<close> answers \<^verbatim>\<open>al\<close> as a truth value; a caller goes on with the lock when it is true.\<close>

definition try_answer :: "u8 \<Rightarrow> spin_pc" where "try_answer al = (if al \<noteq> 0 then Held else Out)"

record processors =
  ps_lock :: spinlock
  ps_pc :: "nat \<Rightarrow> spin_pc"
  ps_al :: "nat \<Rightarrow> u8"

definition set_cpu :: "nat \<Rightarrow> spin_pc \<Rightarrow> u8 \<Rightarrow> spinlock \<Rightarrow> processors \<Rightarrow> processors" where
  "set_cpu c pc al l s = \<lparr>ps_lock = l, ps_pc = (ps_pc s)(c := pc), ps_al = (ps_al s)(c := al)\<rparr>"

text \<open>
  The runs of any number of processors that call the three operations, one step at a time; \<open>A\<close>
  restricts what \<^verbatim>\<open>al\<close> may hold when \<^verbatim>\<open>lock\<close> or \<^verbatim>\<open>try_lock\<close> is called.
\<close>

inductive spin_run :: "(u8 \<Rightarrow> bool) \<Rightarrow> processors \<Rightarrow> bool" for A :: "u8 \<Rightarrow> bool" where
  spin_start: "spin_run A \<lparr>ps_lock = spinlock_new, ps_pc = \<lambda>_. Out, ps_al = \<lambda>_. 0\<rparr>"
| spin_lock: "spin_run A s \<Longrightarrow> ps_pc s c = Out \<Longrightarrow> A al \<Longrightarrow> spin_run A (set_cpu c Cmp al (ps_lock s) s)"
| spin_try: "spin_run A s \<Longrightarrow> ps_pc s c = Out \<Longrightarrow> A al \<Longrightarrow> spin_run A (set_cpu c Try_Cmp al (ps_lock s) s)"
| spin_answer: "spin_run A s \<Longrightarrow> ps_pc s c = Try_Ret \<Longrightarrow> spin_run A (set_cpu c (try_answer (ps_al s c)) (ps_al s c) (ps_lock s) s)"
| spin_unlock: "spin_run A s \<Longrightarrow> ps_pc s c = Held \<Longrightarrow> spin_run A (set_cpu c Out (ps_al s c) (spinlock_unlock (ps_lock s)) s)"
| spin_run_step: "spin_run A s \<Longrightarrow> spin_step (ps_pc s c) (ps_al s c) (sl_locked (ps_lock s)) = (pc, al, b) \<Longrightarrow>
    spin_run A (set_cpu c pc al \<lparr>sl_locked = b\<rparr> s)"

section \<open>Mutual exclusion\<close>

text \<open>The lock belongs to a processor from the exchange that found 0 on.\<close>

definition owns :: "spin_pc \<Rightarrow> u8 \<Rightarrow> bool" where
  "owns pc al \<longleftrightarrow> pc = Held \<or> pc \<in> {Test, Try_Test} \<and> al = 0"

definition loaded :: "spin_pc \<Rightarrow> u8 \<Rightarrow> bool" where
  "loaded pc al \<longleftrightarrow> (pc \<in> {Cmp, Retry, Spin, Spin_Cmp, Try_Xchg} \<longrightarrow> al \<noteq> 0) \<and> (pc = Try_Ret \<longrightarrow> al = 0)"

definition spin_inv :: "processors \<Rightarrow> bool" where
  "spin_inv s \<longleftrightarrow> (\<forall>c. loaded (ps_pc s c) (ps_al s c)) \<and>
     (\<forall>c. owns (ps_pc s c) (ps_al s c) \<longrightarrow> sl_locked (ps_lock s) \<noteq> 0) \<and>
     (\<forall>c d. owns (ps_pc s c) (ps_al s c) \<longrightarrow> owns (ps_pc s d) (ps_al s d) \<longrightarrow> c = d)"

lemma set_cpu_simps [simp]:
  "ps_lock (set_cpu c pc al l s) = l" "ps_pc (set_cpu c pc al l s) = (ps_pc s)(c := pc)" "ps_al (set_cpu c pc al l s) = (ps_al s)(c := al)"
  by (simp_all add: set_cpu_def)

text \<open>A step either leaves the byte and does not gain the lock, or exchanges.\<close>

lemma spin_step_keeps:
  assumes "spin_step pc al b = (pc', al', b')" "loaded pc al"
  shows "loaded pc' al'" "owns pc' al' \<Longrightarrow> owns pc al \<or> b = 0" "b \<noteq> 0 \<Longrightarrow> b' \<noteq> 0" "owns pc' al' \<Longrightarrow> owns pc al \<or> b' \<noteq> 0"
proof -
  show "loaded pc' al'" using assms by (cases pc) (simp_all add: loaded_def split: if_splits)
  show "owns pc' al' \<Longrightarrow> owns pc al \<or> b = 0" using assms by (cases pc) (auto simp: loaded_def owns_def split: if_splits)
  show "b \<noteq> 0 \<Longrightarrow> b' \<noteq> 0" using assms by (cases pc) (auto simp: loaded_def split: if_splits)
  show "owns pc' al' \<Longrightarrow> owns pc al \<or> b' \<noteq> 0" using assms by (cases pc) (auto simp: loaded_def owns_def split: if_splits)
qed

lemma spin_inv_step:
  assumes i: "spin_inv s" and l: "loaded pc al"
    and o: "owns pc al \<Longrightarrow> sl_locked k \<noteq> 0 \<and> (owns (ps_pc s c) (ps_al s c) \<or> sl_locked (ps_lock s) = 0)"
    and b: "sl_locked (ps_lock s) \<noteq> 0 \<Longrightarrow> sl_locked k = 0 \<Longrightarrow> owns (ps_pc s c) (ps_al s c)"
  shows "spin_inv (set_cpu c pc al k s)"
proof -
  have "owns (ps_pc s d) (ps_al s d) \<Longrightarrow> c \<noteq> d \<Longrightarrow> sl_locked k \<noteq> 0" for d using i b unfolding spin_inv_def by blast
  moreover have "owns (ps_pc s d) (ps_al s d) \<Longrightarrow> owns pc al \<Longrightarrow> c = d" for d using i o unfolding spin_inv_def by blast
  ultimately show ?thesis using i l o unfolding spin_inv_def by (auto split: if_splits)
qed

lemma spin_run_inv: "spin_run A s \<Longrightarrow> (\<And>a. A a \<Longrightarrow> a \<noteq> 0) \<Longrightarrow> spin_inv s"
proof (induction rule: spin_run.induct)
  case spin_start
  show ?case by (simp add: spin_inv_def loaded_def owns_def)
next
  case (spin_lock s c al)
  then show ?case by (intro spin_inv_step) (auto simp: loaded_def owns_def)
next
  case (spin_try s c al)
  then show ?case by (intro spin_inv_step) (auto simp: loaded_def owns_def)
next
  case (spin_answer s c)
  then have "ps_al s c = 0" by (auto simp: spin_inv_def loaded_def)
  with spin_answer show ?case by (intro spin_inv_step) (auto simp: loaded_def owns_def try_answer_def)
next
  case (spin_unlock s c)
  then show ?case by (intro spin_inv_step) (auto simp: loaded_def owns_def)
next
  case (spin_run_step s c pc al b)
  then have i: "spin_inv s" by blast
  then have l: "loaded (ps_pc s c) (ps_al s c)" by (simp add: spin_inv_def)
  note k = spin_step_keeps [OF spin_run_step(2) l]
  have "owns (ps_pc s c) (ps_al s c) \<Longrightarrow> sl_locked (ps_lock s) \<noteq> 0" using i by (auto simp: spin_inv_def)
  with k show ?case by (intro spin_inv_step [OF i]) auto
qed

text \<open>
  C34: mutual exclusion. As long as \<^verbatim>\<open>al\<close> is not 0 when an operation is called, at most one
  processor is between a \<^verbatim>\<open>lock\<close> and its \<^verbatim>\<open>unlock\<close>, in every interleaving of the instructions of
  any number of processors, and then the byte is set; and no \<^verbatim>\<open>try_lock\<close> ever answers true.
\<close>
theorem spinlock_exclusion:
  assumes "spin_run A s" and "\<And>a. A a \<Longrightarrow> a \<noteq> 0"
  shows "(ps_pc s c = Held \<longrightarrow> sl_locked (ps_lock s) \<noteq> 0 \<and> (ps_pc s d = Held \<longrightarrow> c = d)) \<and>
    (ps_pc s c = Try_Ret \<longrightarrow> try_answer (ps_al s c) = Out)"
  using spin_run_inv [OF assms] unfolding spin_inv_def by (auto simp: owns_def loaded_def try_answer_def)

lemma steps_to:
  "spin_run A s \<Longrightarrow> spin_step (ps_pc s c) (ps_al s c) (sl_locked (ps_lock s)) = (pc, al, b) \<Longrightarrow>
    s' = set_cpu c pc al \<lparr>sl_locked = b\<rparr> s \<Longrightarrow> spin_run A s'"
  by (simp add: spin_run_step)

lemma locks_to: "spin_run A s \<Longrightarrow> ps_pc s c = Out \<Longrightarrow> A al \<Longrightarrow> s' = set_cpu c Cmp al (ps_lock s) s \<Longrightarrow> spin_run A s'"
  by (simp add: spin_lock)

lemma unlocks_to:
  "spin_run A s \<Longrightarrow> ps_pc s c = Held \<Longrightarrow> s' = set_cpu c Out (ps_al s c) (spinlock_unlock (ps_lock s)) s \<Longrightarrow> spin_run A s'"
  by (simp add: spin_unlock)

text \<open>Processor 0 takes the free lock.\<close>

lemma first_holder:
  assumes "A al"
  shows "spin_run A \<lparr>ps_lock = \<lparr>sl_locked = 1\<rparr>, ps_pc = (\<lambda>_. Out)(0 := Held), ps_al = \<lambda>_. 0\<rparr>"
proof -
  let ?s = "\<lambda>pc a b. \<lparr>ps_lock = \<lparr>sl_locked = b\<rparr>, ps_pc = (\<lambda>_. Out)(0 := pc), ps_al = (\<lambda>_. 0)(0 := a)\<rparr>"
  have "spin_run A (?s Cmp al 0)"
    using spin_lock [OF spin_start, of 0 A al] assms by (simp add: set_cpu_def spinlock_new_def)
  then have "spin_run A (?s Mov al 0)" by (rule steps_to [where c = 0]) (auto simp: set_cpu_def)
  then have "spin_run A (?s Retry 1 0)" by (rule steps_to [where c = 0]) (auto simp: set_cpu_def)
  then have "spin_run A (?s Test 0 1)" by (rule steps_to [where c = 0]) (auto simp: set_cpu_def)
  then have "spin_run A (?s Held 0 1)" by (rule steps_to [where c = 0]) (auto simp: set_cpu_def)
  then show ?thesis by (simp add: fun_upd_def)
qed

lemma spinlock_exclusion_witness:
  "\<exists>s. spin_run (\<lambda>a. a = 7) s \<and> ps_pc s 0 = Held \<and> sl_locked (ps_lock s) \<noteq> 0"
proof -
  let ?s = "\<lparr>ps_lock = \<lparr>sl_locked = 1\<rparr>, ps_pc = (\<lambda>_. Out)(0 := Held), ps_al = \<lambda>_. 0\<rparr>"
  have r: "spin_run (\<lambda>a. a = 7) ?s" by (rule first_holder) simp
  have "sl_locked (ps_lock ?s) \<noteq> 0" using spinlock_exclusion [OF r, of 0 1] by simp
  with r show ?thesis by (intro exI [of _ ?s]) simp
qed

text \<open>
  C35: without the hypothesis on \<^verbatim>\<open>al\<close> mutual exclusion fails. A \<^verbatim>\<open>lock\<close> that finds the byte set
  jumps over the instruction that loads 1: with 0 in \<^verbatim>\<open>al\<close> it later exchanges 0 for 0, takes the
  lock and leaves it open, and the next processor takes it too.
\<close>
theorem spinlock_two_holders:
  "\<exists>s. spin_run (\<lambda>_. True) s \<and> ps_pc s 1 = Held \<and> ps_pc s 2 = Held"
proof -
  let ?A = "\<lambda>_ :: u8. True"
  let ?s = "\<lambda>p q r x b. \<lparr>ps_lock = \<lparr>sl_locked = b\<rparr>, ps_pc = (\<lambda>_. Out)(0 :: nat := p, 1 := q, 2 := r), ps_al = (\<lambda>_. 0)(2 := x)\<rparr>"
  have "?s Held Out Out 0 1 = \<lparr>ps_lock = \<lparr>sl_locked = 1\<rparr>, ps_pc = (\<lambda>_. Out)(0 := Held), ps_al = \<lambda>_. 0\<rparr>"
    by (simp add: fun_eq_iff)
  then have "spin_run ?A (?s Held Out Out 0 1)" using first_holder [of ?A 0] by (simp only: HOL.simp_thms)
  then have "spin_run ?A (?s Held Cmp Out 0 1)" by (rule locks_to [where c = 1 and al = 0]) (auto simp: set_cpu_def fun_eq_iff)
  then have "spin_run ?A (?s Held Spin Out 0 1)" by (rule steps_to [where c = 1]) (auto simp: set_cpu_def fun_eq_iff)
  then have "spin_run ?A (?s Out Spin Out 0 0)" by (rule unlocks_to [where c = 0]) (auto simp: set_cpu_def spinlock_unlock_def fun_eq_iff)
  then have "spin_run ?A (?s Out Spin_Cmp Out 0 0)" by (rule steps_to [where c = 1]) (auto simp: set_cpu_def fun_eq_iff)
  then have "spin_run ?A (?s Out Retry Out 0 0)" by (rule steps_to [where c = 1]) (auto simp: set_cpu_def fun_eq_iff)
  then have "spin_run ?A (?s Out Test Out 0 0)" by (rule steps_to [where c = 1]) (auto simp: set_cpu_def fun_eq_iff)
  then have "spin_run ?A (?s Out Held Out 0 0)" by (rule steps_to [where c = 1]) (auto simp: set_cpu_def fun_eq_iff)
  then have "spin_run ?A (?s Out Held Cmp 0 0)" by (rule locks_to [where c = 2 and al = 0]) (auto simp: set_cpu_def fun_eq_iff)
  then have "spin_run ?A (?s Out Held Mov 0 0)" by (rule steps_to [where c = 2]) (auto simp: set_cpu_def fun_eq_iff)
  then have "spin_run ?A (?s Out Held Retry 1 0)" by (rule steps_to [where c = 2]) (auto simp: set_cpu_def fun_eq_iff)
  then have "spin_run ?A (?s Out Held Test 0 1)" by (rule steps_to [where c = 2]) (auto simp: set_cpu_def fun_eq_iff)
  then have "spin_run ?A (?s Out Held Held 0 1)" by (rule steps_to [where c = 2]) (auto simp: set_cpu_def fun_eq_iff)
  then show ?thesis by (intro exI [of _ "?s Out Held Held 0 1"]) simp
qed

end
