(* ===== verification/Spec2Isabelle.thy ===== *)
theory Spec2Isabelle
  imports Pmem_Init Mem Kmem Array_List Vmem_Props Interrupt_Props Process_Props Start Spinlock
begin

text \<open>
  A verification development of the epoch kernel: a kernel for 64-bit x86 in freestanding C++ with
  its own memory managers, scheduler, drivers, system calls and a small user library. Paths are
  relative to the repository; sources are under \<^verbatim>\<open>src/\<close>, headers under \<^verbatim>\<open>include/\<close>.

  \<^bold>\<open>The program.\<close> At the bottom is an intrusive list (\<^verbatim>\<open>util::linked_list\<close>): its nodes are the objects
  themselves, and it caches the node it indexed last. The physical allocator (\<^verbatim>\<open>pallocator\<close>) is a buddy
  system whose free zones hang in one such list per order; the memory manager (\<^verbatim>\<open>mem::alloc\<close>,
  \<^verbatim>\<open>mem::free\<close>, \<^verbatim>\<open>mem::realloc\<close>) keeps an array of these allocators, made from the memory map that the
  boot loader leaves in the multiboot table. On it stand the kernel heap (\<^verbatim>\<open>kalloc\<close>, \<^verbatim>\<open>kfree\<close>; also
  \<^verbatim>\<open>new\<close> and \<^verbatim>\<open>delete\<close>) with the containers that need one (\<^verbatim>\<open>array_list\<close>, \<^verbatim>\<open>linked_list2\<close>), and the
  address spaces with their zones and page tables. The scheduler moves threads between lists, one
  for each state, and the waiting lists of semaphores; the timer and a software interrupt call it.
  Processes tie an address space, threads and semaphores together and are made from ELF images.
  Interrupts run through a table of up to 16 handlers for a vector. The drivers are a text terminal, a
  debug console, a keyboard and a timer. \<^verbatim>\<open>init\<close> brings everything up and registers the handlers.

  \<^bold>\<open>Conventions.\<close> Machine integers are words of their width. An address is a word; memory is a map
  from addresses to bytes (\<open>bytes\<close>), and objects with pointer structure live in maps from addresses to
  records beside it, split by class. An operation takes and returns the state it touches, written in
  the option monad: \<^term>\<open>None\<close> is a \<open>NULL\<close> dereference, a failed assertion, a panic or a loop that does
  not return, so a theorem that a call gives \<^term>\<open>Some\<close> says that it returns. The default build defines
  \<^verbatim>\<open>debug\<close>, so assertions are live; where an assertion has an effect, in the constructor of a thread,
  the build is an argument. An operation that may switch to another thread returns whether it did,
  with the state at the switch: the rest of its caller runs only when its thread is resumed. Addresses
  of symbols and of string literals, and the answers of devices, are arguments. Each definition is executable or a
  \<open>partial_function\<close> whose equation computes.

  \<^bold>\<open>Theories and sources.\<close>
  \<^item> \<open>Prelude\<close>: the integer types of \<^verbatim>\<open>types.hpp\<close>, the option monad, lemmas on words and lists.
  \<^item> \<open>Bits\<close>: \<^verbatim>\<open>util/misc.cpp\<close>, \<^verbatim>\<open>util/math.cpp\<close>, \<^verbatim>\<open>arch/x64/util/math.asm\<close>.
  \<^item> \<open>List_Family\<close>, \<open>Linked_List\<close>: \<^verbatim>\<open>util/linked_list.cpp\<close>. \<open>list_rep\<close> says that the nodes of a list are a
    given sequence, \<open>cache_ok\<close> that the index cache is right. The locale \<open>shared_lists\<close> is the contract
    of a list towards clients that keep many lists over one heap, interpreted on the list (\<open>kl\<close>).
  \<^item> \<open>Template_List\<close>: \<^verbatim>\<open>util/linked_list2.hpp\<close>, lists of pointers with nodes from the heap.
  \<^item> \<open>Dyadic\<close>, \<open>Pmem\<close>, \<open>Pmem_Init\<close>: \<^verbatim>\<open>mem/pmem.cpp\<close>. The invariant is a tiling of the range by free and held
    dyadic blocks; \<open>pm_run\<close> are the runs of a client that allocates, frees and writes to its blocks.
  \<^item> \<open>Mem\<close>: \<^verbatim>\<open>mem/mem.cpp\<close>, \<^verbatim>\<open>mb2.cpp\<close> and \<^verbatim>\<open>pallocator::realloc\<close>. The locale \<open>zoned\<close> finds the allocator
    that owns an address.
  \<^item> \<open>Mem_Words\<close>, \<open>Kmem\<close>: \<^verbatim>\<open>mem/kmem.cpp\<close>, \<^verbatim>\<open>cxx.cpp\<close>, over the bytes: \<open>heap_ok\<close> is the shape of the list of chunks,
    \<open>first_fit\<close> the reference.
  \<^item> \<open>Array_List\<close>: \<^verbatim>\<open>util/array_list.hpp\<close>, refined by lists.
  \<^item> \<open>Paging\<close>, \<open>Page_Map\<close>: entries, counters, mapping and unmapping of \<^verbatim>\<open>mem/vmem.cpp\<close>. \<open>walk_table\<close> is the
    processor's reading of the tables; the locale \<open>page_source\<close> is what mapping needs of the memory
    manager, interpreted on \<^verbatim>\<open>mem::allocz\<close> (\<open>pages\<close>). \<open>spare\<close> counts the pages that the manager can
    still give, \<open>tables_for\<close> the tables that a run of pages passes through.
  \<^item> \<open>Vmem\<close>, \<open>Vmem_Props\<close>: zones and address spaces of \<^verbatim>\<open>mem/vmem.cpp\<close> and \<^verbatim>\<open>mem/vmem.hpp\<close>.
  \<^item> \<open>Sched\<close>, \<open>Sched_Props\<close>: \<^verbatim>\<open>sched/thread.cpp\<close> and the interrupt counter. \<open>sched_run\<close> are the runs of the
    kernel from a well-formed state by system calls, semaphores and ticks.
  \<^item> \<open>Process\<close>, \<open>Process_Props\<close>: \<^verbatim>\<open>sched/process.cpp\<close>, construction and destruction of threads, the ELF
    loader, \<^verbatim>\<open>syscall/syscall.cpp\<close> with the choice of the entry in its assembly, \<^verbatim>\<open>kdata.cpp\<close>. The record
    \<open>kernel\<close> holds the states of the components; \<open>on_as\<close>, \<open>k_with_mm\<close>, \<open>on_sched\<close> run an operation of one on it.
  \<^item> \<open>Str\<close>, \<open>Tty\<close>, \<open>Io\<close>, \<open>Kbd\<close>: \<^verbatim>\<open>util/string.cpp\<close>, \<^verbatim>\<open>driver/vga_tty.cpp\<close>, \<^verbatim>\<open>util/io.cpp\<close>, \<^verbatim>\<open>driver/ps2.cpp\<close>. The formatter
    is proved once over any output (locale \<open>text_sink\<close>) and interpreted on the console and the terminal.
  \<^item> \<open>Interrupts\<close>, \<open>Interrupt_Props\<close>: \<^verbatim>\<open>int/int.cpp\<close>, \<^verbatim>\<open>int/pic.cpp\<close>, \<^verbatim>\<open>gdt.cpp\<close>, \<^verbatim>\<open>time/pit.cpp\<close>. What a handler does is an
    argument of the dispatch; ports are a log. A handler that is switched away from ends the model's
    dispatch with the thread chosen; \<open>resume_timer\<close> is the rest of a timer interrupt after it.
  \<^item> \<open>Start\<close>: \<^verbatim>\<open>init.cpp\<close>, \<^verbatim>\<open>main.cpp\<close>, the cleaner thread and \<^verbatim>\<open>libcpp/src/syscall.cpp\<close>, over the whole machine.
  \<^item> \<open>Spinlock\<close>: \<^verbatim>\<open>sync/spinlock.cpp\<close> over the instructions of its assembly, interleaved.

  \<^bold>\<open>What is proved.\<close> The lists compute the operations on sequences. In every reachable state of the physical
  allocator an allocation succeeds exactly when a block is free, a free block is given back and merged,
  held blocks stay disjoint, and freeing everything recovers the initial lists. The memory manager
  lifts this to all nodes; its reallocation moves contents. The heap is first fit; which blocks
  \<^verbatim>\<open>kfree\<close> loses is stated exactly. Mapping a run of pages refines the update of a map from pages to
  entries, and succeeds when the manager has a page for each table of the run; the processor then
  finds the given frames. The clean-up after a mapping that ran out of pages is modelled but nothing is claimed of it. Along every run of the scheduler the lists are
  well-formed, every thread is in the list its state names, ticks and blocking calls return, a tick wakes exactly
  the threads that are due, also out of the idle thread, every ready thread runs within one round, and semaphores are first in, first
  out. The destructor of a process kills its
  threads, and the cleaner loses the memory of the threads it removes. An interrupt runs the handlers of its vector in order; the timer vector is composed with the
  scheduler, with the end of the interrupt sent late when the tick wakes an idle system. Start-up registers exactly its handlers. Typing is echoed: from scancodes in the ring through the reader and the
  formatter to the cells of the terminal. The formatter, the terminal and the conversion of
  numbers meet their references. The spinlock excludes when \<^verbatim>\<open>al\<close> is not 0 at its call.

  Where the code does not do what it means to, the theorem says what it does: the heap returns a
  block twice when it is exhausted, semaphores of processes cannot be created, a debug build
  registers threads twice, the clock runs backwards between ticks, a conversion of numbers overflows, the spinlock can
  have two holders.

  \<^bold>\<open>Bounds.\<close> Loops are structural, have a measure, or are \<open>partial_function (option)\<close>, and the theorems show
  that they return; there is no fuel. Lists are shorter than \<open>2 ^ 31\<close> nodes where \<^verbatim>\<open>operator[]\<close> walks
  them, since its direction is a signed difference. Sizes of heap requests are below \<open>2 ^ 63\<close>. The keyboard ring has 32
  bytes, of which 31 can wait. Sizes and offsets of classes are those of the x64 layout.

  \<^bold>\<open>Not modelled.\<close> The boot code and the assembly that switches modes, stacks and registers: it has no
  semantics here; \<^verbatim>\<open>int_sched\<close> and the entry of system calls are modelled by what they do for the C++
  code. \<^verbatim>\<open>mem/slab.cpp\<close>: unfinished and called by nothing. The self test threads of \<^verbatim>\<open>main.cpp\<close> are never started; the program
  of \<^verbatim>\<open>initfs\<close> only prints. Messages of error paths and dumps of registers are left out, and
  \<^verbatim>\<open>io_wait\<close>, a delay. Flushing a page and loading the tables are records of the state. A
  thread that is resumed in the middle of an operation is followed by the operation's continuation in \<open>Sched\<close>, not by the whole
  call chain above it.
\<close>

end
